(* ===== verification/Wolfram_Prelude.thy ===== *)
theory Wolfram_Prelude
  imports Main "HOL-Library.Word" "HOL-Library.List_Lexorder"
begin

unbundle bit_operations_syntax

text \<open>
  Shared vocabulary of the development: bytes and byte strings, the status codes of
  \<^verbatim>\<open>include/wolfram/xrpc.h\<close>, the C library functions the sources call (\<^verbatim>\<open>memcmp\<close>,
  \<^verbatim>\<open>qsort\<close>), and the generic lemmas on lists, words and orders that the component
  theories rely on.

  Conventions used everywhere:
  \<^item> an \<^verbatim>\<open>unsigned char\<close> is an \<open>8 word\<close>, a \<^verbatim>\<open>uint64_t\<close> a \<open>64 word\<close>; a buffer with its
    length is a list of bytes; a \<^verbatim>\<open>size_t\<close> that is the length of such a list is a \<open>nat\<close>;
  \<^item> a function that returns a \<^verbatim>\<open>wf_status\<close> and fills an output on \<^verbatim>\<open>WF_OK\<close> returns
    \<open>wf_status + 'a\<close>: \<open>Inl\<close> of the error code, or \<open>Inr\<close> of the output;
  \<^item> allocation is taken to succeed, so the \<^verbatim>\<open>WF_ERR_ALLOC\<close> branches and the matching
    \<^verbatim>\<open>free\<close> calls have no counterpart; null-pointer guards have none either, except where a
    null pointer is a meaningful argument (it is then an \<open>option\<close>).
\<close>

section \<open>Bytes and status codes\<close>

type_synonym byte = "8 word"
type_synonym bytes = "byte list"
type_synonym u16 = "16 word"
type_synonym u32 = "32 word"
type_synonym u64 = "64 word"

datatype wf_status =
    WF_ERR_INVALID_ARG | WF_ERR_ALLOC | WF_ERR_NETWORK | WF_ERR_HTTP | WF_ERR_PARSE
  | WF_ERR_NOT_FOUND | WF_ERR_WOULD_BLOCK | WF_ERR_DID_RESOLVE
  | WF_ERR_DID_DOCUMENT_NOT_FOUND | WF_ERR_HANDLE_RESOLVE
  | WF_ERR_HANDLE_DOCUMENT_NOT_FOUND | WF_ERR_HANDLE_TTL_EXPIRED
  | WF_ERR_HANDLE_CACHE_KEY | WF_ERR_CRYPTO | WF_ERR_VALIDATION | WF_ERR_STATE
  | WF_ERR_CONFIG | WF_ERR_TIMEOUT | WF_ERR_UNSUPPORTED | WF_ERR_PERMISSION
  | WF_ERR_RATE_LIMIT | WF_ERR_AUTH | WF_ERR_DUPLICATE | WF_ERR_CONFLICT
  | WF_ERR_NOT_IMPLEMENTED | WF_ERR_INTERNAL | WF_ERR_UNKNOWN | WF_ERR_TLS

type_synonym 'a res = "wf_status + 'a"

text \<open>A C string literal as the bytes it denotes (without the terminating NUL).\<close>

definition ascii :: "string \<Rightarrow> bytes" where
  "ascii s = map of_char s"

named_theorems byte_simps \<open>evaluation of byte-level helpers on concrete data\<close>

lemmas [byte_simps] = ascii_def

text \<open>The decimal digits that \<^verbatim>\<open>printf\<close> writes for a number that is not negative.\<close>

fun print_nat :: "nat \<Rightarrow> bytes" where
  "print_nat n = (if n < 10 then [of_nat (48 + n)] else print_nat (n div 10) @ [of_nat (48 + n mod 10)])"

declare print_nat.simps [simp del]

section \<open>Words\<close>

lemma unat_lt_64: "unat (v :: u64) < 2 ^ 64"
  using unsigned_less [of v, where ?'a = nat] by simp

lemma unat_of_nat_u64: "n < 2 ^ 64 \<Longrightarrow> unat (of_nat n :: u64) = n"
  by (simp add: unat_of_nat)

section \<open>C library functions\<close>

text \<open>\<^verbatim>\<open>memcmp\<close> of two buffers of the same length: only the sign of its result is specified.\<close>

fun memcmp :: "bytes \<Rightarrow> bytes \<Rightarrow> int" where
  "memcmp (a # as) (b # bs) = (if a < b then -1 else if b < a then 1 else memcmp as bs)"
| "memcmp _ _ = 0"

text \<open>The conversion of a \<^verbatim>\<open>size_t\<close> difference to \<^verbatim>\<open>int\<close>, at its 32-bit width.\<close>

definition int_of_size_diff :: "nat \<Rightarrow> nat \<Rightarrow> int" where
  "int_of_size_diff a b = signed_take_bit 31 (int a - int b)"

text \<open>
  The key comparison that \<^verbatim>\<open>mst.c\<close>, \<^verbatim>\<open>diff.c\<close> and \<^verbatim>\<open>repo.c\<close> each define for themselves:
  \<^verbatim>\<open>memcmp\<close> on the common prefix, then the difference of the lengths.
\<close>

definition key_cmp :: "bytes \<Rightarrow> bytes \<Rightarrow> int" where
  "key_cmp a b =
     (let m = min (length a) (length b); c = memcmp (take m a) (take m b)
      in if c \<noteq> 0 then c else int_of_size_diff (length a) (length b))"

lemma int_of_size_diff_small:
  assumes "a < 2 ^ 31" "b < 2 ^ 31"
  shows "int_of_size_diff a b = int a - int b"
  unfolding int_of_size_diff_def
  using assms by (intro signed_take_bit_int_eq_self) auto

lemma key_cmp_Cons [simp]:
  "key_cmp (x # a) (y # b) = (if x < y then -1 else if y < x then 1 else key_cmp a b)"
  by (simp add: key_cmp_def int_of_size_diff_def Let_def)

text \<open>
  For keys shorter than \<open>2 ^ 31\<close> bytes the comparison is the lexicographic order on byte
  strings; the three lemmas below are all that later proofs use of it.
\<close>

lemma key_cmp_less:
  assumes "length a < 2 ^ 31" "length b < 2 ^ 31"
  shows "key_cmp a b < 0 \<longleftrightarrow> a < b"
  using assms
proof (induction a arbitrary: b)
  case Nil
  then show ?case by (cases b) (simp_all add: key_cmp_def int_of_size_diff_small)
next
  case (Cons x a)
  then show ?case by (cases b) (auto simp: key_cmp_def [of "_ # _" "[]"] int_of_size_diff_small)
qed

lemma key_cmp_greater:
  assumes "length a < 2 ^ 31" "length b < 2 ^ 31"
  shows "0 < key_cmp a b \<longleftrightarrow> b < a"
  using assms
proof (induction a arbitrary: b)
  case Nil
  then show ?case by (cases b) (simp_all add: key_cmp_def int_of_size_diff_small)
next
  case (Cons x a)
  then show ?case by (cases b) (auto simp: key_cmp_def [of "_ # _" "[]"] int_of_size_diff_small)
qed

lemma key_cmp_eq:
  assumes "length a < 2 ^ 31" "length b < 2 ^ 31"
  shows "key_cmp a b = 0 \<longleftrightarrow> a = b"
  using key_cmp_less [OF assms] key_cmp_greater [OF assms] by auto

lemmas key_cmp_order = key_cmp_less key_cmp_greater key_cmp_eq

text \<open>
  \<^verbatim>\<open>qsort\<close> with a comparison function. The C standard leaves the order of elements that compare
  equal open; the model keeps their order.
\<close>

fun qinsert :: "('a \<Rightarrow> 'a \<Rightarrow> int) \<Rightarrow> 'a \<Rightarrow> 'a list \<Rightarrow> 'a list" where
  "qinsert cmp x [] = [x]"
| "qinsert cmp x (y # ys) = (if cmp x y \<le> 0 then x # y # ys else y # qinsert cmp x ys)"

definition qsort :: "('a \<Rightarrow> 'a \<Rightarrow> int) \<Rightarrow> 'a list \<Rightarrow> 'a list" where
  "qsort cmp xs = foldr (qinsert cmp) xs []"

lemma set_qinsert [simp]: "set (qinsert cmp x xs) = insert x (set xs)"
  by (induction xs) auto

lemma length_qinsert [simp]: "length (qinsert cmp x xs) = Suc (length xs)"
  by (induction xs) auto

lemma set_qsort [simp]: "set (qsort cmp xs) = set xs"
  by (induction xs) (auto simp: qsort_def)

lemma length_qsort [simp]: "length (qsort cmp xs) = length xs"
  by (induction xs) (auto simp: qsort_def)

lemma sum_list_map_qsort:
  fixes f :: "'a \<Rightarrow> nat"
  shows "sum_list (map f (qsort cmp xs)) = sum_list (map f xs)"
proof -
  have ins: "sum_list (map f (qinsert cmp x ys)) = f x + sum_list (map f ys)" for x ys
    by (induction ys) auto
  show ?thesis by (induction xs) (auto simp: qsort_def ins)
qed

lemma qsort_id:
  assumes "sorted_wrt (\<lambda>a b. cmp a b \<le> 0) xs"
  shows "qsort cmp xs = xs"
  using assms
proof (induction xs)
  case (Cons x xs)
  then show ?case by (cases xs) (auto simp: qsort_def)
qed (simp add: qsort_def)

lemma map_qsort:
  assumes "\<And>a b. a \<in> set xs \<Longrightarrow> b \<in> set xs \<Longrightarrow> cmp' (f a) (f b) = cmp a b"
  shows "map f (qsort cmp xs) = qsort cmp' (map f xs)"
proof -
  have ins: "map f (qinsert cmp x ys) = qinsert cmp' (f x) (map f ys)"
    if "\<And>y. y \<in> set ys \<Longrightarrow> cmp' (f x) (f y) = cmp x y" for x ys
    using that by (induction ys) auto
  show ?thesis
    using assms
  proof (induction xs)
    case (Cons x xs)
    then have "map f (qsort cmp xs) = qsort cmp' (map f xs)" by simp
    moreover have "map f (qinsert cmp x (qsort cmp xs)) = qinsert cmp' (f x) (map f (qsort cmp xs))"
      using Cons.prems by (intro ins) auto
    ultimately show ?case by (simp add: qsort_def)
  qed (simp add: qsort_def)
qed

section \<open>Sorted lists\<close>

lemma sorted_map_unique:
  fixes f :: "'a \<Rightarrow> 'b::linorder"
  shows "sorted_wrt (<) (map f xs) \<Longrightarrow> sorted_wrt (<) (map f ys) \<Longrightarrow> set xs = set ys \<Longrightarrow> xs = ys"
proof (induction xs arbitrary: ys)
  case (Cons x xs)
  then obtain y ys' where ys: "ys = y # ys'" by (cases ys) auto
  have "x = y"
  proof (rule ccontr)
    assume "x \<noteq> y"
    then have "y \<in> set xs" "x \<in> set ys'" using Cons.prems(3) ys by auto
    then have "f x < f y" "f y < f x" using Cons.prems(1,2) ys by auto
    then show False by simp
  qed
  moreover have "set xs = set ys'"
    using Cons.prems \<open>x = y\<close> ys by (auto dest: bspec)
  ultimately show ?case using Cons.IH [of ys'] Cons.prems(1,2) ys by simp
qed simp

end
