(* ===== verification/Platform.thy ===== *)
theory Platform
  imports Wolfram_Prelude
begin

text \<open>
  The third-party code that the repository layer calls: libcbor (\<^verbatim>\<open>cbor_load\<close>,
  \<^verbatim>\<open>cbor_serialize_alloc\<close>, \<^verbatim>\<open>cbor_string_codepoint_count\<close>) and OpenSSL's \<^verbatim>\<open>SHA256\<close>. None of it is in
  the repository, so it is a parameter of every definition that uses it, and what the sources rely
  on is the locale \<open>platform_laws\<close>: libcbor encodes as RFC 8949 prescribes and decodes such
  encodings, and SHA-256 digests are 32 bytes long.
\<close>

section \<open>libcbor items\<close>

text \<open>
  The content of a \<^verbatim>\<open>cbor_item_t\<close> as libcbor's accessors report it: an integer with the width it
  is stored at, a (byte) string, array or map with its definiteness, a tag, or a control value.
\<close>

datatype cbor_width = CBOR_INT_8 | CBOR_INT_16 | CBOR_INT_32 | CBOR_INT_64

datatype cbor_ctrl = CBOR_CTRL_FALSE | CBOR_CTRL_TRUE | CBOR_CTRL_NULL | CBOR_CTRL_UNDEF
  | CBOR_CTRL_OTHER

datatype cbor_item =
    CBOR_TYPE_UINT cbor_width u64
  | CBOR_TYPE_NEGINT cbor_width u64
  | CBOR_TYPE_BYTESTRING bool bytes
  | CBOR_TYPE_STRING bool bytes
  | CBOR_TYPE_ARRAY bool "cbor_item list"
  | CBOR_TYPE_MAP bool "(cbor_item \<times> cbor_item) list"
  | CBOR_TYPE_TAG u64 cbor_item
  | CBOR_TYPE_FLOAT_CTRL cbor_ctrl

record platform =
  cbor_load :: "bytes \<Rightarrow> (cbor_item \<times> nat) option"
  cbor_serialize_alloc :: "cbor_item \<Rightarrow> bytes option"
  cbor_string_codepoint_count :: "bytes \<Rightarrow> nat"
  SHA256 :: "bytes \<Rightarrow> bytes"

section \<open>RFC 8949 encoding of definite items\<close>

definition be_bytes :: "nat \<Rightarrow> nat \<Rightarrow> bytes" where
  "be_bytes k n = map (\<lambda>i. of_nat (n div 256 ^ i)) (rev [0..<k])"

text \<open>The head of an item: major type and shortest-form argument.\<close>

definition rfc_head :: "nat \<Rightarrow> nat \<Rightarrow> bytes" where
  "rfc_head m n =
     (if n < 24 then [of_nat (32 * m + n)]
      else if n < 2 ^ 8 then of_nat (32 * m + 24) # be_bytes 1 n
      else if n < 2 ^ 16 then of_nat (32 * m + 25) # be_bytes 2 n
      else if n < 2 ^ 32 then of_nat (32 * m + 26) # be_bytes 4 n
      else of_nat (32 * m + 27) # be_bytes 8 n)"

text \<open>An integer is written at the width it is stored at, one-byte values embedded when they fit.\<close>

fun rfc_int :: "nat \<Rightarrow> cbor_width \<Rightarrow> nat \<Rightarrow> bytes" where
  "rfc_int m CBOR_INT_8 n =
     (if n < 24 then [of_nat (32 * m + n)] else of_nat (32 * m + 24) # be_bytes 1 n)"
| "rfc_int m CBOR_INT_16 n = of_nat (32 * m + 25) # be_bytes 2 n"
| "rfc_int m CBOR_INT_32 n = of_nat (32 * m + 26) # be_bytes 4 n"
| "rfc_int m CBOR_INT_64 n = of_nat (32 * m + 27) # be_bytes 8 n"

fun rfc_ctrl :: "cbor_ctrl \<Rightarrow> byte" where
  "rfc_ctrl CBOR_CTRL_FALSE = 0xf4"
| "rfc_ctrl CBOR_CTRL_TRUE = 0xf5"
| "rfc_ctrl CBOR_CTRL_NULL = 0xf6"
| "rfc_ctrl CBOR_CTRL_UNDEF = 0xf7"
| "rfc_ctrl CBOR_CTRL_OTHER = 0xff"

lemma size_pair_list [termination_simp]:
  "(k, v) \<in> set ps \<Longrightarrow> size k < Suc (size_list (size_prod size size) ps)"
  "(k, v) \<in> set ps \<Longrightarrow> size v < Suc (size_list (size_prod size size) ps)"
  by (induction ps) auto

fun rfc_enc :: "cbor_item \<Rightarrow> bytes" where
  "rfc_enc (CBOR_TYPE_UINT w v) = rfc_int 0 w (unat v)"
| "rfc_enc (CBOR_TYPE_NEGINT w v) = rfc_int 1 w (unat v)"
| "rfc_enc (CBOR_TYPE_BYTESTRING d s) = rfc_head 2 (length s) @ s"
| "rfc_enc (CBOR_TYPE_STRING d s) = rfc_head 3 (length s) @ s"
| "rfc_enc (CBOR_TYPE_ARRAY d xs) = rfc_head 4 (length xs) @ concat (map rfc_enc xs)"
| "rfc_enc (CBOR_TYPE_MAP d ps) =
     rfc_head 5 (length ps) @ concat (map (\<lambda>(k, v). rfc_enc k @ rfc_enc v) ps)"
| "rfc_enc (CBOR_TYPE_TAG t x) = rfc_head 6 (unat t) @ rfc_enc x"
| "rfc_enc (CBOR_TYPE_FLOAT_CTRL c) = [rfc_ctrl c]"

text \<open>
  The items the laws speak about: stored widths fit, lengths fit 64 bits, everything is of
  definite length, and control values are the four named ones.
\<close>

fun width_fits :: "cbor_width \<Rightarrow> nat \<Rightarrow> bool" where
  "width_fits CBOR_INT_8 n = (n < 2 ^ 8)"
| "width_fits CBOR_INT_16 n = (n < 2 ^ 16)"
| "width_fits CBOR_INT_32 n = (n < 2 ^ 32)"
| "width_fits CBOR_INT_64 n = (n < 2 ^ 64)"

fun cbor_sized :: "cbor_item \<Rightarrow> bool" where
  "cbor_sized (CBOR_TYPE_UINT w v) = width_fits w (unat v)"
| "cbor_sized (CBOR_TYPE_NEGINT w v) = width_fits w (unat v)"
| "cbor_sized (CBOR_TYPE_BYTESTRING d s) = (length s < 2 ^ 64)"
| "cbor_sized (CBOR_TYPE_STRING d s) = (length s < 2 ^ 64)"
| "cbor_sized (CBOR_TYPE_ARRAY d xs) = (length xs < 2 ^ 64 \<and> list_all cbor_sized xs)"
| "cbor_sized (CBOR_TYPE_MAP d ps) =
     (length ps < 2 ^ 64 \<and> list_all (\<lambda>(k, v). cbor_sized k \<and> cbor_sized v) ps)"
| "cbor_sized (CBOR_TYPE_TAG t x) = cbor_sized x"
| "cbor_sized (CBOR_TYPE_FLOAT_CTRL c) = True"

fun cbor_definite :: "cbor_item \<Rightarrow> bool" where
  "cbor_definite (CBOR_TYPE_BYTESTRING d s) = d"
| "cbor_definite (CBOR_TYPE_STRING d s) = d"
| "cbor_definite (CBOR_TYPE_ARRAY d xs) = (d \<and> list_all cbor_definite xs)"
| "cbor_definite (CBOR_TYPE_MAP d ps) =
     (d \<and> list_all (\<lambda>(k, v). cbor_definite k \<and> cbor_definite v) ps)"
| "cbor_definite (CBOR_TYPE_TAG t x) = cbor_definite x"
| "cbor_definite (CBOR_TYPE_FLOAT_CTRL c) = (c \<noteq> CBOR_CTRL_OTHER)"
| "cbor_definite _ = True"

text \<open>Nesting: how many items enclose the innermost one, plus one.\<close>

fun cbor_nesting :: "cbor_item \<Rightarrow> nat" where
  "cbor_nesting (CBOR_TYPE_ARRAY d xs) = Suc (Max (set (0 # map cbor_nesting xs)))"
| "cbor_nesting (CBOR_TYPE_MAP d ps) =
     Suc (Max (set (0 # map (\<lambda>(k, v). max (cbor_nesting k) (cbor_nesting v)) ps)))"
| "cbor_nesting (CBOR_TYPE_TAG t x) = Suc (cbor_nesting x)"
| "cbor_nesting _ = 1"

section \<open>What the sources rely on\<close>

locale platform_laws =
  fixes P :: platform
  assumes load_encoded:
    "cbor_sized i \<Longrightarrow> cbor_definite i \<Longrightarrow> cbor_nesting i \<le> 65 \<Longrightarrow>
       cbor_load P (rfc_enc i) = Some (i, length (rfc_enc i))"
  and load_sized: "cbor_load P d = Some (i, n) \<Longrightarrow> cbor_sized i"
  and serialize_encoded:
    "cbor_sized i \<Longrightarrow> cbor_definite i \<Longrightarrow> cbor_serialize_alloc P i = Some (rfc_enc i)"
  and codepoints_ascii:
    "(\<forall>b \<in> set s. b < 0x80) \<Longrightarrow> cbor_string_codepoint_count P s = length s"
  and sha256_length: "length (SHA256 P d) = 32"

end
