(* ===== verification/Varint.thy ===== *)
theory Varint
  imports Wolfram_Prelude
begin

unbundle bit_operations_syntax

text \<open>
  Unsigned LEB128 varints, as read by \<^verbatim>\<open>wf_cbor_varint\<close> (\<^verbatim>\<open>src/repo/cbor.c\<close>) and
  \<^verbatim>\<open>wf_read_varint\<close> (\<^verbatim>\<open>src/repo/car.c\<close>), and as written by the \<^verbatim>\<open>do ... while\<close> loops of
  \<^verbatim>\<open>wf_car_write\<close>. Values are kept at their 64-bit width: shifting wraps as it does in C, and
  the guards on the tenth byte are part of the model.
\<close>

section \<open>The reader and the writer\<close>

text \<open>
  One iteration of the \<^verbatim>\<open>for\<close> loop: \<open>i\<close> bytes read so far, \<open>r\<close> the result accumulated,
  \<open>s\<close> the shift. The result is the value and the number of bytes used.
\<close>

fun varint_loop :: "nat \<Rightarrow> u64 \<Rightarrow> nat \<Rightarrow> bytes \<Rightarrow> (u64 \<times> nat) option" where
  "varint_loop i r s [] = None"
| "varint_loop i r s (b # bs) =
     (if \<not> i < 10 then None
      else if s = 63 \<and> b AND 0x7e \<noteq> 0 then None
      else
        let r' = r OR push_bit s (ucast (b AND 0x7f))
        in if b AND 0x80 = 0
           then if 0 < i \<and> b = 0 then None else Some (r', i + 1)
           else varint_loop (i + 1) r' (s + 7) bs)"

definition wf_cbor_varint :: "bytes \<Rightarrow> (u64 \<times> nat) option" where
  "wf_cbor_varint data = varint_loop 0 0 0 data"

text \<open>The \<^verbatim>\<open>car.c\<close> reader has the same loop and reports failure as \<^verbatim>\<open>*used = 0\<close>.\<close>

definition wf_read_varint :: "bytes \<Rightarrow> u64 \<times> nat" where
  "wf_read_varint data = (case varint_loop 0 0 0 data of None \<Rightarrow> (0, 0) | Some vu \<Rightarrow> vu)"

function varint_bytes :: "u64 \<Rightarrow> bytes" where
  "varint_bytes v =
     (let b = ucast (v AND 0x7f); v' = drop_bit 7 v
      in if 0 < v' then (b OR 0x80) # varint_bytes v' else [b])"
  by pat_completeness auto
termination
proof (relation "measure unat", goal_cases)
  case (2 v x xa)
  have "unat (drop_bit 7 v) = unat v div 128"
    by (simp add: unat_div drop_bit_eq_div)
  moreover from 2 have "v \<noteq> 0" by auto
  then have "0 < unat v" by (simp add: unat_gt_0)
  ultimately show ?case using 2 by simp
qed auto

declare varint_bytes.simps [simp del]

section \<open>Bit-level lemmas\<close>

lemma low7_mask: "(0x7f :: 'a::len word) = mask 7"
  by (simp add: mask_eq_exp_minus_1)

lemma bit_128 [simp]: "bit (128 :: nat) n \<longleftrightarrow> n = 7"
proof -
  have "(128 :: nat) = 2 ^ 7" by simp
  then show ?thesis by (simp only: bit_exp_iff) auto
qed

lemma bit_128_int [simp]: "bit (128 :: int) n \<longleftrightarrow> n = 7"
proof -
  have "(128 :: int) = 2 ^ 7" by simp
  then show ?thesis by (simp only: bit_exp_iff) auto
qed

lemma low7_ucast: "ucast (ucast (v AND 0x7f) :: byte) = (v AND 0x7f :: u64)"
  unfolding low7_mask by (rule bit_word_eqI) (auto simp: bit_simps)

lemma low7_byte: "(ucast (v AND 0x7f :: u64) :: byte) AND 0x7f = ucast (v AND 0x7f)"
  unfolding low7_mask by (rule bit_word_eqI) (auto simp: bit_simps)

lemma low7_no_top: "(ucast (v AND 0x7f :: u64) :: byte) AND 0x80 = 0"
  unfolding low7_mask by (rule bit_word_eqI) (auto simp: bit_simps)

lemma top_or: "(b OR 0x80 :: byte) AND 0x80 \<noteq> 0"
proof -
  have "bit ((b OR 0x80) AND 0x80 :: byte) 7"
    by (simp add: bit_simps)
  then show ?thesis by auto
qed

lemma top_or_low7: "(ucast (v AND 0x7f :: u64) OR 0x80 :: byte) AND 0x7f = ucast (v AND 0x7f)"
  unfolding low7_mask by (rule bit_word_eqI) (auto simp: bit_simps)

lemma push_split:
  "push_bit s (v AND 0x7f) OR push_bit (s + 7) (drop_bit 7 v) = push_bit s (v :: u64)"
proof (rule bit_word_eqI)
  fix n
  assume "n < LENGTH(64)"
  moreover have "s + 7 \<le> n \<Longrightarrow> 7 + (n - (s + 7)) = n - s" by simp
  ultimately show "bit (push_bit s (v AND 0x7f) OR push_bit (s + 7) (drop_bit 7 v)) n
      \<longleftrightarrow> bit (push_bit s v) n"
    unfolding low7_mask by (cases "s + 7 \<le> n") (auto simp: bit_simps)
qed

lemma drop7_zero: "drop_bit 7 v = 0 \<Longrightarrow> v AND 0x7f = (v :: u64)"
  using push_split [of 0 v] by simp

lemma unat_drop7: "unat (drop_bit 7 v :: u64) = unat v div 128"
  by (simp add: unat_div drop_bit_eq_div)

section \<open>Round trip and canonicity\<close>

text \<open>
  Reading what was written, from the middle of the loop: the accumulated bits are kept and the
  value's bits are added at the current shift.
\<close>

lemma varint_loop_bytes:
  assumes "i < 10" "unat v * 2 ^ (7 * i) < 2 ^ 64" "i = 0 \<or> v \<noteq> 0"
  shows "varint_loop i r (7 * i) (varint_bytes v @ rest) =
           Some (r OR push_bit (7 * i) v, i + length (varint_bytes v))"
  using assms
proof (induction v arbitrary: i r rule: varint_bytes.induct)
  case (1 v)
  let ?b = "ucast (v AND 0x7f) :: byte" and ?v = "drop_bit 7 v"
  show ?case
  proof (cases "0 < ?v")
    case True
    have "unat ?v * 2 ^ (7 * Suc i) \<le> unat v * 2 ^ (7 * i)"
      by (simp add: unat_drop7 power_add)
    then have b: "unat ?v * 2 ^ (7 * Suc i) < 2 ^ 64" using "1.prems"(2) by linarith
    have "i \<noteq> 9"
    proof
      assume "i = 9"
      with b have "unat ?v * 2 ^ 70 < 2 ^ 64" by simp
      then have "unat ?v = 0" by simp
      with True show False by (simp add: unat_eq_0)
    qed
    with "1.prems"(1) have i: "Suc i < 10" by simp
    have IH: "varint_loop (Suc i) (r OR push_bit (7 * i) (v AND 0x7f)) (7 * Suc i)
          (varint_bytes ?v @ rest) =
        Some ((r OR push_bit (7 * i) (v AND 0x7f)) OR push_bit (7 * Suc i) ?v,
              Suc i + length (varint_bytes ?v))"
      using "1.IH" [OF refl refl True i b] True by auto
    have "varint_bytes v = (?b OR 0x80) # varint_bytes ?v"
      using True by (subst varint_bytes.simps) (simp add: Let_def)
    then have "varint_loop i r (7 * i) (varint_bytes v @ rest) =
        varint_loop (Suc i) (r OR push_bit (7 * i) (v AND 0x7f)) (7 * Suc i)
          (varint_bytes ?v @ rest)"
      using "1.prems"(1) \<open>i \<noteq> 9\<close>
      by (simp only: append_Cons varint_loop.simps Let_def top_or_low7 low7_ucast top_or) (simp add: add.commute)
    moreover have "(r OR push_bit (7 * i) (v AND 0x7f)) OR push_bit (7 * Suc i) ?v
        = r OR push_bit (7 * i) v"
      using push_split [of "7 * i" v] by (simp only: or.assoc mult_Suc_right add.commute [of 7])
    ultimately show ?thesis
      using IH \<open>varint_bytes v = _\<close> by simp
  next
    case False
    then have z: "?v = 0" by (simp add: word_gt_0)
    then have low: "v AND 0x7f = v" by (rule drop7_zero)
    have b0: "?b = 0 \<longleftrightarrow> v = 0"
      using low7_ucast [of v] low by (metis ucast_0)
    have "?b AND 0x7e = 0" if "i = 9"
    proof -
      from "1.prems"(2) that have "unat v < 2" by simp
      then have "v = 0 \<or> v = 1"
        using unat_eq_0 [of v] word_unat_eq_iff [of v 1] by (auto simp: less_2_cases_iff)
      then show ?thesis by auto
    qed
    moreover have "varint_bytes v = [?b]"
      using z by (subst varint_bytes.simps) (simp add: Let_def)
    moreover have "ucast (?b AND 0x7f) = v"
      using low low7_ucast [of v] low7_byte [of v] by simp
    ultimately show ?thesis
      using "1.prems" b0 low7_no_top [of v] by auto
  qed
qed

lemma wf_cbor_varint_bytes:
  "wf_cbor_varint (varint_bytes v @ rest) = Some (v, length (varint_bytes v))"
proof -
  have "unat v < 2 ^ 64" using unsigned_less [of v] by simp
  then show ?thesis
    using varint_loop_bytes [of 0 v 0 rest] by (simp add: wf_cbor_varint_def)
qed

lemma top_bit_iff: "(b :: byte) AND 0x80 = 0 \<longleftrightarrow> \<not> bit b 7"
proof
  assume "b AND 0x80 = 0"
  then have "\<not> bit (b AND 0x80) 7" by simp
  then show "\<not> bit b 7" by (simp add: bit_simps)
next
  assume "\<not> bit b 7"
  then show "b AND 0x80 = 0" by (intro bit_word_eqI) (auto simp: bit_simps)
qed

lemma byte_no_top:
  assumes "(b :: byte) AND 0x80 = 0"
  shows "ucast (ucast b AND 0x7f :: u64) = b" "drop_bit 7 (ucast b :: u64) = 0" "b AND 0x7f = b"
proof -
  have b: "n < 7" if "bit b n" for n
  proof -
    from that have "n < 8" using bit_imp_le_length [of b n] by simp
    moreover from that assms have "n \<noteq> 7" by (auto simp: top_bit_iff)
    ultimately show ?thesis by simp
  qed
  show "ucast (ucast b AND 0x7f :: u64) = b"
    unfolding low7_mask by (rule bit_word_eqI) (use b in \<open>auto simp: bit_simps\<close>)
  show "drop_bit 7 (ucast b :: u64) = 0"
    by (rule bit_word_eqI) (use b in \<open>fastforce simp: bit_simps\<close>)
  show "b AND 0x7f = b"
    unfolding low7_mask by (rule bit_word_eqI) (use b in \<open>auto simp: bit_simps\<close>)
qed

lemma byte_with_top:
  assumes "(b :: byte) AND 0x80 \<noteq> 0" "drop_bit 57 v = (0 :: u64)"
  defines "w \<equiv> push_bit 7 v OR ucast (b AND 0x7f)"
  shows "ucast (w AND 0x7f) OR 0x80 = b" "drop_bit 7 w = v" "w AND 0x7f = ucast (b AND 0x7f)"
proof -
  have b7: "bit b 7" using assms(1) by (simp add: top_bit_iff)
  have b: "n < 7" if "n < 8" "n \<noteq> 7" for n :: nat using that by simp
  have v: "n < 57" if "bit v n" for n
    using that arg_cong [OF assms(2), of "\<lambda>x. bit x (n - 57)"]
    by (cases "n < 57") (simp_all add: bit_simps)
  show "ucast (w AND 0x7f) OR 0x80 = b"
    unfolding low7_mask w_def
    by (rule bit_word_eqI) (use b b7 in \<open>auto simp: bit_simps\<close>)
  show "drop_bit 7 w = v"
    unfolding low7_mask w_def
    by (rule bit_word_eqI) (use v in \<open>auto simp: bit_simps\<close>)
  show "w AND 0x7f = ucast (b AND 0x7f)"
    unfolding low7_mask w_def by (rule bit_word_eqI) (auto simp: bit_simps)
qed

text \<open>
  Canonicity: whatever the reader accepts is the encoding of the value it returns, so every
  value has exactly one accepted encoding and no bit of the input is lost.
\<close>

lemma byte_bound:
  assumes "(b :: byte) AND 0x80 = 0"
  shows "unat (ucast b :: u64) < 128" "b AND 0x7e = 0 \<Longrightarrow> unat (ucast b :: u64) < 2"
proof -
  have "unat (ucast b :: u64) div 128 = 0"
    using byte_no_top(2) [OF assms] unat_drop7 [of "ucast b"] by simp
  then show "unat (ucast b :: u64) < 128" by (simp add: div_eq_0_iff)
  assume 7: "b AND 0x7e = 0"
  have "(0x7e OR 0x80 OR 1 :: byte) = - 1" by simp
  then have "b = b AND (0x7e OR 0x80 OR 1)" by (simp only: and.right_neutral)
  also have "\<dots> = b AND 1"
    using 7 assms by (simp only: bit.conj_disj_distrib or.left_neutral)
  also have "\<dots> = of_bool (odd b)" by (simp add: and_one_eq odd_iff_mod_2_eq_one)
  finally have "b = 0 \<or> b = 1" by (metis of_bool_eq_iff of_bool_eq(1) of_bool_eq(2))
  then show "unat (ucast b :: u64) < 2" by auto
qed

lemma varint_last_bound:
  assumes "x < 128" "i = 9 \<Longrightarrow> x < 2" "i < 10"
  shows "x * 2 ^ (7 * i) < (2 :: nat) ^ 64"
proof (cases "i = 9")
  case False
  with assms have "x * 2 ^ (7 * i) < 2 ^ 7 * 2 ^ (7 * i)" by simp
  also have "\<dots> = 2 ^ (7 + 7 * i)" by (simp only: power_add)
  also have "\<dots> \<le> 2 ^ 64" using assms False by (intro power_increasing) auto
  finally show ?thesis .
qed (use assms in simp)

lemma varint_rest_bound:
  assumes "unat v * 2 ^ (7 * Suc i) < 2 ^ 64" "v \<noteq> 0"
  shows "drop_bit 57 v = (0 :: u64)"
proof -
  have "unat v * 2 ^ 7 \<le> unat v * 2 ^ (7 * Suc i)"
    by (intro mult_le_mono2 power_increasing) auto
  with assms(1) have "unat v * 2 ^ 7 < 2 ^ 64" by (rule order_le_less_trans [rotated])
  then have "unat v < 2 ^ 57" by simp
  then have "unat (drop_bit 57 v) = 0" by (simp add: unat_div drop_bit_eq_div)
  then show ?thesis by (simp add: unat_eq_0)
qed

lemma varint_step_bound:
  assumes "unat v * 2 ^ (7 * Suc i) < (2 :: nat) ^ 64" "v \<noteq> 0" "unat w div 128 = unat v"
  shows "unat (w :: u64) * 2 ^ (7 * i) < 2 ^ 64"
proof -
  have "7 * Suc i \<le> 64"
  proof (rule ccontr)
    assume "\<not> 7 * Suc i \<le> 64"
    then have "(2 :: nat) ^ 64 \<le> 2 ^ (7 * Suc i)" by (intro power_increasing) auto
    also have "\<dots> \<le> unat v * 2 ^ (7 * Suc i)" using assms(2) by (simp add: Suc_le_eq unat_gt_0)
    finally show False using assms(1) by simp
  qed
  then have d: "(2 :: nat) ^ 64 = 2 ^ (64 - 7 * Suc i) * 2 ^ (7 * Suc i)"
    by (simp only: power_add [symmetric]) simp
  have "Suc (unat v) \<le> 2 ^ (64 - 7 * Suc i)"
    using assms(1) unfolding d by (simp only: mult_less_cancel2 Suc_le_eq)
  then have "Suc (unat v) * 2 ^ (7 * Suc i) \<le> 2 ^ 64"
    unfolding d by (rule mult_le_mono1)
  moreover have "unat w < Suc (unat v) * 128"
    using assms(3) by (metis dividend_less_div_times mult.commute mult_Suc zero_less_numeral)
  then have "unat w * 2 ^ (7 * i) < Suc (unat v) * 128 * 2 ^ (7 * i)" by simp
  moreover have "Suc (unat v) * 128 * 2 ^ (7 * i) = Suc (unat v) * 2 ^ (7 * Suc i)"
    by (simp add: power_add algebra_simps)
  ultimately show ?thesis by linarith
qed

lemma varint_loop_canonical:
  assumes "varint_loop i r (7 * i) bs = Some (r', u)"
  shows "\<exists>v. r' = r OR push_bit (7 * i) v \<and> unat v * 2 ^ (7 * i) < 2 ^ 64
           \<and> (0 < i \<longrightarrow> v \<noteq> 0) \<and> u = i + length (varint_bytes v)
           \<and> take (u - i) bs = varint_bytes v"
  using assms
proof (induction bs arbitrary: i r)
  case Nil
  then show ?case by simp
next
  case (Cons b bs)
  from Cons.prems have i: "i < 10" and nine: "i = 9 \<longrightarrow> b AND 0x7e = 0"
    by (auto split: if_splits)
  show ?case
  proof (cases "b AND 0x80 = 0")
    case True
    let ?v = "ucast b :: u64"
    have bytes: "varint_bytes ?v = [b]"
      using byte_no_top(1,2) [OF True] by (subst varint_bytes.simps) (simp add: Let_def)
    have r': "r' = r OR push_bit (7 * i) ?v" "u = i + 1" "0 < i \<longrightarrow> b \<noteq> 0"
      using Cons.prems True byte_no_top(3) [OF True] by (auto split: if_splits simp: Let_def)
    have "unat ?v * 2 ^ (7 * i) < 2 ^ 64"
      using byte_bound [OF True] nine i by (intro varint_last_bound) auto
    then show ?thesis
      using r' bytes byte_no_top(1) [OF True] by (intro exI [of _ ?v]) auto
  next
    case False
    with Cons.prems have "varint_loop (Suc i) (r OR push_bit (7 * i) (ucast (b AND 0x7f)))
        (7 * Suc i) bs = Some (r', u)"
      by (auto split: if_splits simp: Let_def add.commute)
    from Cons.IH [OF this] obtain v where v:
      "r' = (r OR push_bit (7 * i) (ucast (b AND 0x7f))) OR push_bit (7 * Suc i) v"
      "unat v * 2 ^ (7 * Suc i) < 2 ^ 64" "v \<noteq> 0" "u = Suc i + length (varint_bytes v)"
      "take (u - Suc i) bs = varint_bytes v"
      by blast
    let ?w = "push_bit 7 v OR ucast (b AND 0x7f) :: u64"
    from v(2,3) have "drop_bit 57 v = 0" by (rule varint_rest_bound)
    note w = byte_with_top [OF False this]
    have "varint_bytes ?w = b # varint_bytes v"
      using w v(3) by (subst varint_bytes.simps) (simp add: Let_def word_gt_0)
    moreover have "r' = r OR push_bit (7 * i) ?w"
      unfolding v(1) by (simp add: push_bit_or or.assoc or.commute [of "push_bit (7 + 7 * i) v"]
          add.commute [of "7 * i"])
    moreover have "unat ?w * 2 ^ (7 * i) < 2 ^ 64"
      by (rule varint_step_bound [OF v(2,3)]) (simp only: w(2) unat_drop7 [symmetric])
    moreover have "?w \<noteq> 0" using w(2) v(3) by (metis drop_bit_of_0)
    ultimately show ?thesis
      using v(4,5) by (intro exI [of _ ?w]) auto
  qed
qed

lemma wf_cbor_varint_canonical:
  assumes "wf_cbor_varint data = Some (v, u)"
  shows "u = length (varint_bytes v)" "take u data = varint_bytes v"
  using varint_loop_canonical [of 0 0 data v u] assms
  by (auto simp: wf_cbor_varint_def)

section \<open>Properties\<close>

text \<open>Varints are a bijection on what the reader accepts: a written varint, followed by anything,
  reads back as the value and its own length, and whatever the reader accepts (the guards on the
  tenth byte and on a zero last byte included) is byte for byte the written form of its value.
  No value has a second, longer encoding.\<close>

theorem varint_roundtrip:
  "wf_cbor_varint (varint_bytes v @ rest) = Some (v, length (varint_bytes v)) \<and>
   wf_read_varint (varint_bytes v @ rest) = (v, length (varint_bytes v)) \<and>
   (wf_cbor_varint data = Some (w, u) \<longrightarrow> u = length (varint_bytes w) \<and> take u data = varint_bytes w)"
  using wf_cbor_varint_bytes [of v rest] wf_cbor_varint_canonical [of data w u]
  by (simp add: wf_read_varint_def wf_cbor_varint_def)

theorem varint_roundtrip_witness:
  "wf_cbor_varint (varint_bytes 300 @ [7]) = Some (300, 2) \<and>
   take 2 [0xac, 0x02, 9] = varint_bytes 300"
  using varint_roundtrip [of 300 "[7]" "[0xac, 0x02, 9]" 300 2] by code_simp

end
