(* ===== verification/Cbor.thy ===== *)
theory Cbor
  imports Platform Varint
begin

unbundle bit_operations_syntax

text \<open>
  The DAG-CBOR codec of \<^verbatim>\<open>src/repo/cbor.c\<close>: the structural pre-scan that vets untrusted input
  before libcbor sees it, the conversion of a libcbor item into a \<^verbatim>\<open>wf_cbor_item\<close> with its
  canonicity checks, \<^verbatim>\<open>wf_cbor_parse\<close>, and the deterministic serialiser.
\<close>

section \<open>Items\<close>

datatype wf_cbor_item =
    WF_CBOR_UNSIGNED u64
  | WF_CBOR_NEGATIVE u64
  | WF_CBOR_BYTES bytes
  | WF_CBOR_STRING bytes
  | WF_CBOR_ARRAY "wf_cbor_item list"
  | WF_CBOR_MAP "(wf_cbor_item \<times> wf_cbor_item) list"
  | WF_CBOR_LINK bytes
  | WF_CBOR_SIMPLE int

abbreviation WF_CBOR_MAX_DEPTH :: nat where
  "WF_CBOR_MAX_DEPTH \<equiv> 64"

section \<open>The pre-scan\<close>

text \<open>
  The scanner walks the input with a position; here it takes the bytes from that position on and
  returns those after the item, or \<open>None\<close> where the code returns 0. The argument of a head
  is accumulated at 64 bits.
\<close>

definition prescan_arg :: "byte \<Rightarrow> bytes \<Rightarrow> (u64 \<times> bytes) option" where
  "prescan_arg info bs =
     (if info < 24 then Some (ucast info, bs)
      else if info \<le> 27 then
        let extra = 2 ^ unat (info - 24)
        in if length bs < extra then None
           else Some (foldl (\<lambda>arg b. push_bit 8 arg OR ucast b) 0 (take extra bs), drop extra bs)
      else None)"

function (sequential) wf_cbor_prescan :: "nat \<Rightarrow> bytes \<Rightarrow> bytes option"
  and prescan_items :: "nat \<Rightarrow> nat \<Rightarrow> bytes \<Rightarrow> bytes option" where
  "wf_cbor_prescan depth [] = None"
| "wf_cbor_prescan depth (head # bs) =
     (if WF_CBOR_MAX_DEPTH < depth then None
      else
        let major = drop_bit 5 head; info = head AND 0x1f
        in case prescan_arg info bs of
             None \<Rightarrow> None
           | Some (arg, rest) \<Rightarrow>
               (if major = 0 \<or> major = 1 then Some rest
                else if major = 2 \<or> major = 3 then
                  (if length rest < unat arg then None else Some (drop (unat arg) rest))
                else if major = 4 then
                  (if length rest < unat arg then None
                   else prescan_items (depth + 1) (unat arg) rest)
                else if major = 5 then
                  (if length rest div 2 < unat arg then None
                   else prescan_items (depth + 1) (2 * unat arg) rest)
                else if major = 6 then
                  (if arg = 42 then wf_cbor_prescan (depth + 1) rest else None)
                else if 20 \<le> info \<and> info \<le> 23 then Some rest else None))"
| "prescan_items depth 0 bs = Some bs"
| "prescan_items depth (Suc n) bs =
     (case wf_cbor_prescan depth bs of
        None \<Rightarrow> None
      | Some rest \<Rightarrow> prescan_items depth n rest)"
  by pat_completeness auto
termination
  by (relation "measures [\<lambda>x. case x of Inl (d, _) \<Rightarrow> 66 - d | Inr (d, _, _) \<Rightarrow> 66 - d,
                          \<lambda>x. case x of Inl _ \<Rightarrow> 0 | Inr (_, n, _) \<Rightarrow> Suc n]") auto

definition wf_cbor_scan_item :: "bytes \<Rightarrow> nat option" where
  "wf_cbor_scan_item data =
     (if data = [] then None
      else case wf_cbor_prescan 0 data of
             None \<Rightarrow> None
           | Some rest \<Rightarrow> Some (length data - length rest))"

section \<open>CID validity and conversion from libcbor\<close>

definition wf_cbor_cid_valid :: "bytes \<Rightarrow> bool" where
  "wf_cbor_cid_valid data =
     (if data = [] then False
      else if length data = 34 \<and> data ! 0 = 0x12 \<and> data ! 1 = 0x20 then True
      else case wf_cbor_varint data of
             None \<Rightarrow> False
           | Some (version, u1) \<Rightarrow>
               (if version \<noteq> 1 then False
                else case wf_cbor_varint (drop u1 data) of
                       None \<Rightarrow> False
                     | Some (codec, u2) \<Rightarrow>
                         (if codec = 0 then False
                          else case wf_cbor_varint (drop (u1 + u2) data) of
                                 None \<Rightarrow> False
                               | Some (hash, u3) \<Rightarrow>
                                   (if hash = 0 then False
                                    else case wf_cbor_varint (drop (u1 + u2 + u3) data) of
                                           None \<Rightarrow> False
                                         | Some (len, u4) \<Rightarrow>
                                             unat len = length data - (u1 + u2 + u3 + u4)))))"

fun cbor_isa_string :: "cbor_item \<Rightarrow> bool" where
  "cbor_isa_string (CBOR_TYPE_STRING _ _) = True"
| "cbor_isa_string _ = False"

definition wf_cbor_key_before :: "platform \<Rightarrow> cbor_item \<Rightarrow> cbor_item \<Rightarrow> bool" where
  "wf_cbor_key_before P left right =
     (if \<not> cbor_isa_string left \<or> \<not> cbor_isa_string right then False
      else case (cbor_serialize_alloc P left, cbor_serialize_alloc P right) of
             (Some l, Some r) \<Rightarrow>
               (let common = min (length l) (length r);
                    cmp = memcmp (take common l) (take common r)
                in cmp < 0 \<or> (cmp = 0 \<and> length l < length r))
           | _ \<Rightarrow> False)"

fun wf_cbor_int_is_canonical :: "cbor_width \<Rightarrow> u64 \<Rightarrow> bool" where
  "wf_cbor_int_is_canonical CBOR_INT_8 value = True"
| "wf_cbor_int_is_canonical CBOR_INT_16 value = (0xff < value)"
| "wf_cbor_int_is_canonical CBOR_INT_32 value = (0xffff < value)"
| "wf_cbor_int_is_canonical CBOR_INT_64 value = (0xffffffff < value)"

function (sequential) wf_cbor_from_libcbor :: "platform \<Rightarrow> nat \<Rightarrow> cbor_item \<Rightarrow> wf_cbor_item option"
  and from_libcbor_items :: "platform \<Rightarrow> nat \<Rightarrow> cbor_item list \<Rightarrow> wf_cbor_item list option"
  and from_libcbor_pairs ::
    "platform \<Rightarrow> nat \<Rightarrow> cbor_item option \<Rightarrow> (cbor_item \<times> cbor_item) list \<Rightarrow>
       (wf_cbor_item \<times> wf_cbor_item) list option" where
  "wf_cbor_from_libcbor P depth source =
     (if WF_CBOR_MAX_DEPTH < depth then None
      else case source of
        CBOR_TYPE_UINT w v \<Rightarrow>
          (if wf_cbor_int_is_canonical w v then Some (WF_CBOR_UNSIGNED v) else None)
      | CBOR_TYPE_NEGINT w v \<Rightarrow>
          (if wf_cbor_int_is_canonical w v then Some (WF_CBOR_NEGATIVE v) else None)
      | CBOR_TYPE_BYTESTRING definite s \<Rightarrow> (if definite then Some (WF_CBOR_BYTES s) else None)
      | CBOR_TYPE_STRING definite s \<Rightarrow>
          (if \<not> definite \<or> (0 < length s \<and> cbor_string_codepoint_count P s = 0) then None
           else Some (WF_CBOR_STRING s))
      | CBOR_TYPE_ARRAY definite xs \<Rightarrow>
          (if definite then map_option WF_CBOR_ARRAY (from_libcbor_items P (depth + 1) xs)
           else None)
      | CBOR_TYPE_MAP definite ps \<Rightarrow>
          (if definite then map_option WF_CBOR_MAP (from_libcbor_pairs P (depth + 1) None ps)
           else None)
      | CBOR_TYPE_TAG t tagged \<Rightarrow>
          (case tagged of
             CBOR_TYPE_BYTESTRING definite s \<Rightarrow>
               (if t \<noteq> 42 \<or> \<not> definite then None
                else if length s < 2 \<or> s ! 0 \<noteq> 0 \<or> \<not> wf_cbor_cid_valid (drop 1 s) then None
                else Some (WF_CBOR_LINK (drop 1 s)))
           | _ \<Rightarrow> None)
      | CBOR_TYPE_FLOAT_CTRL c \<Rightarrow>
          (case c of
             CBOR_CTRL_TRUE \<Rightarrow> Some (WF_CBOR_SIMPLE 21)
           | CBOR_CTRL_FALSE \<Rightarrow> Some (WF_CBOR_SIMPLE 20)
           | CBOR_CTRL_NULL \<Rightarrow> Some (WF_CBOR_SIMPLE 22)
           | CBOR_CTRL_UNDEF \<Rightarrow> Some (WF_CBOR_SIMPLE 22)
           | CBOR_CTRL_OTHER \<Rightarrow> None))"
| "from_libcbor_items P depth [] = Some []"
| "from_libcbor_items P depth (x # xs) =
     (case wf_cbor_from_libcbor P depth x of
        None \<Rightarrow> None
      | Some y \<Rightarrow> map_option (\<lambda>ys. y # ys) (from_libcbor_items P depth xs))"
| "from_libcbor_pairs P depth prev [] = Some []"
| "from_libcbor_pairs P depth prev ((k, v) # ps) =
     (if \<not> cbor_isa_string k \<or> (case prev of None \<Rightarrow> False | Some p \<Rightarrow> \<not> wf_cbor_key_before P p k)
      then None
      else case (wf_cbor_from_libcbor P depth k, wf_cbor_from_libcbor P depth v) of
             (Some k', Some v') \<Rightarrow>
               map_option (\<lambda>qs. (k', v') # qs) (from_libcbor_pairs P depth (Some k) ps)
           | _ \<Rightarrow> None)"
  by pat_completeness auto
termination
  by (relation "measure (\<lambda>x. case x of
          Inl (_, _, i) \<Rightarrow> size i
        | Inr (Inl (_, _, xs)) \<Rightarrow> size_list size xs
        | Inr (Inr (_, _, _, ps)) \<Rightarrow> size_list (size_prod size size) ps)") auto

declare wf_cbor_from_libcbor.simps [simp del]

definition wf_cbor_parse :: "platform \<Rightarrow> bytes \<Rightarrow> wf_cbor_item option" where
  "wf_cbor_parse P data =
     (if data = [] then None
      else if wf_cbor_prescan 0 data \<noteq> Some [] then None
      else case cbor_load P data of
             None \<Rightarrow> None
           | Some (decoded, read) \<Rightarrow>
               (if read \<noteq> length data then None
                else if cbor_serialize_alloc P decoded \<noteq> Some data then None
                else wf_cbor_from_libcbor P 0 decoded))"

section \<open>The serialiser\<close>

text \<open>
  Map keys are compared by their serialisations; \<open>None\<close> stands for the null pointer that
  \<^verbatim>\<open>wf_cbor_serialize\<close> returns, which compares as equal.
\<close>

definition key_bytes_cmp :: "bytes option \<Rightarrow> bytes option \<Rightarrow> int" where
  "key_bytes_cmp ka kb =
     (case (ka, kb) of
        (Some a, Some b) \<Rightarrow>
          (let common = min (length a) (length b); c = memcmp (take common a) (take common b)
           in if c \<noteq> 0 then (if c < 0 then -1 else 1)
              else if length a < length b then -1
              else if length b < length a then 1
              else 0)
      | _ \<Rightarrow> 0)"

definition wf_cbor_ser_uint_size :: "u64 \<Rightarrow> nat" where
  "wf_cbor_ser_uint_size val =
     (if val \<le> 23 then 1
      else if val \<le> 0xFF then 2
      else if val \<le> 0xFFFF then 3
      else if val \<le> 0xFFFFFFFF then 5
      else 9)"

fun wf_cbor_ser_item_size :: "wf_cbor_item \<Rightarrow> nat" where
  "wf_cbor_ser_item_size (WF_CBOR_UNSIGNED v) = wf_cbor_ser_uint_size v"
| "wf_cbor_ser_item_size (WF_CBOR_NEGATIVE v) = wf_cbor_ser_uint_size v"
| "wf_cbor_ser_item_size (WF_CBOR_BYTES s) =
     wf_cbor_ser_uint_size (of_nat (length s)) + length s"
| "wf_cbor_ser_item_size (WF_CBOR_LINK s) =
     2 + wf_cbor_ser_uint_size (of_nat (length s + 1)) + (length s + 1)"
| "wf_cbor_ser_item_size (WF_CBOR_STRING s) =
     wf_cbor_ser_uint_size (of_nat (length s)) + length s"
| "wf_cbor_ser_item_size (WF_CBOR_ARRAY xs) =
     wf_cbor_ser_uint_size (of_nat (length xs)) + sum_list (map wf_cbor_ser_item_size xs)"
| "wf_cbor_ser_item_size (WF_CBOR_MAP ps) =
     wf_cbor_ser_uint_size (of_nat (length ps)) +
     sum_list (map (\<lambda>(k, v). wf_cbor_ser_item_size k + wf_cbor_ser_item_size v) ps)"
| "wf_cbor_ser_item_size (WF_CBOR_SIMPLE sv) = (if 20 \<le> sv \<and> sv \<le> 23 then 1 else 2)"

definition wf_cbor_ser_write_uint :: "nat \<Rightarrow> u64 \<Rightarrow> bytes" where
  "wf_cbor_ser_write_uint major val =
     (let m = push_bit 5 (of_nat major) :: byte
      in if val \<le> 23 then [m OR ucast val]
         else if val \<le> 0xFF then [m OR 24, ucast val]
         else if val \<le> 0xFFFF then [m OR 25, ucast (drop_bit 8 val), ucast val]
         else if val \<le> 0xFFFFFFFF then
           [m OR 26, ucast (drop_bit 24 val), ucast (drop_bit 16 val), ucast (drop_bit 8 val),
            ucast val]
         else
           [m OR 27, ucast (drop_bit 56 val), ucast (drop_bit 48 val), ucast (drop_bit 40 val),
            ucast (drop_bit 32 val), ucast (drop_bit 24 val), ucast (drop_bit 16 val),
            ucast (drop_bit 8 val), ucast val])"

text \<open>
  The map case sorts copies of the pairs by the serialisation of their keys; here each pair is
  carried as (serialisation of the key as \<^verbatim>\<open>wf_cbor_serialize\<close> returns it, bytes written for the
  key, bytes written for the value).
\<close>

fun wf_cbor_ser_write_item :: "wf_cbor_item \<Rightarrow> bytes" where
  "wf_cbor_ser_write_item (WF_CBOR_UNSIGNED v) = wf_cbor_ser_write_uint 0 v"
| "wf_cbor_ser_write_item (WF_CBOR_NEGATIVE v) = wf_cbor_ser_write_uint 1 v"
| "wf_cbor_ser_write_item (WF_CBOR_BYTES s) =
     wf_cbor_ser_write_uint 2 (of_nat (length s)) @ s"
| "wf_cbor_ser_write_item (WF_CBOR_LINK s) =
     [0xD8, 0x2A] @ wf_cbor_ser_write_uint 2 (of_nat (length s + 1)) @ [0x00] @ s"
| "wf_cbor_ser_write_item (WF_CBOR_STRING s) =
     wf_cbor_ser_write_uint 3 (of_nat (length s)) @ s"
| "wf_cbor_ser_write_item (WF_CBOR_ARRAY xs) =
     wf_cbor_ser_write_uint 4 (of_nat (length xs)) @ concat (map wf_cbor_ser_write_item xs)"
| "wf_cbor_ser_write_item (WF_CBOR_MAP ps) =
     wf_cbor_ser_write_uint 5 (of_nat (length ps)) @
     concat (map (\<lambda>(_, k, v). k @ v)
       (qsort (\<lambda>a b. key_bytes_cmp (fst a) (fst b))
         (map (\<lambda>(k, v).
            (if length (wf_cbor_ser_write_item k) = wf_cbor_ser_item_size k
             then Some (wf_cbor_ser_write_item k) else None,
             wf_cbor_ser_write_item k, wf_cbor_ser_write_item v)) ps)))"
| "wf_cbor_ser_write_item (WF_CBOR_SIMPLE sv) =
     (if 20 \<le> sv \<and> sv \<le> 23 then [0xE0 OR word_of_int sv]
      else if sv < 256 then [0xF8, word_of_int sv]
      else [])"

definition wf_cbor_serialize :: "wf_cbor_item \<Rightarrow> bytes option" where
  "wf_cbor_serialize item =
     (let written = wf_cbor_ser_write_item item
      in if length written \<noteq> wf_cbor_ser_item_size item then None else Some written)"

definition wf_cbor_item_key_cmp :: "wf_cbor_item \<Rightarrow> wf_cbor_item \<Rightarrow> int" where
  "wf_cbor_item_key_cmp a b = key_bytes_cmp (wf_cbor_serialize a) (wf_cbor_serialize b)"

definition wf_cbor_pair_key_cmp ::
  "wf_cbor_item \<times> wf_cbor_item \<Rightarrow> wf_cbor_item \<times> wf_cbor_item \<Rightarrow> int" where
  "wf_cbor_pair_key_cmp a b = wf_cbor_item_key_cmp (fst a) (fst b)"

text \<open>The map case in the shape of the source: sort the pairs, then write each in turn.\<close>

lemma wf_cbor_ser_write_map:
  "wf_cbor_ser_write_item (WF_CBOR_MAP ps) =
     wf_cbor_ser_write_uint 5 (of_nat (length ps)) @
     concat (map (\<lambda>(k, v). wf_cbor_ser_write_item k @ wf_cbor_ser_write_item v)
       (qsort wf_cbor_pair_key_cmp ps))"
proof -
  let ?f = "\<lambda>(k, v). (wf_cbor_serialize k, wf_cbor_ser_write_item k, wf_cbor_ser_write_item v)"
  have "qsort (\<lambda>a b. key_bytes_cmp (fst a) (fst b)) (map ?f ps) = map ?f (qsort wf_cbor_pair_key_cmp ps)"
    by (rule map_qsort [symmetric])
       (auto simp: wf_cbor_pair_key_cmp_def wf_cbor_item_key_cmp_def split: prod.splits)
  moreover have "?f = (\<lambda>(k, v).
      (if length (wf_cbor_ser_write_item k) = wf_cbor_ser_item_size k
       then Some (wf_cbor_ser_write_item k) else None,
       wf_cbor_ser_write_item k, wf_cbor_ser_write_item v))"
    by (auto simp: fun_eq_iff wf_cbor_serialize_def)
  ultimately show ?thesis by (simp add: case_prod_unfold comp_def)
qed

end
