(* ===== verification/Cbor_Roundtrip.thy ===== *)
theory Cbor_Roundtrip
  imports Cbor
begin

unbundle bit_operations_syntax

text \<open>
  Correctness of the DAG-CBOR codec: the size pass agrees with the write pass, the serialiser
  emits the RFC 8949 encoding, \<open>wf_cbor_parse\<close> recovers every canonical item from its
  serialisation, and accepts nothing but serialisations of what it returns.
\<close>

section \<open>The serialiser stays inside its buffer\<close>

lemma length_write_uint: "length (wf_cbor_ser_write_uint m v) = wf_cbor_ser_uint_size v"
  by (simp add: wf_cbor_ser_write_uint_def wf_cbor_ser_uint_size_def Let_def)

lemma sum_list_le: "(\<And>x. x \<in> set xs \<Longrightarrow> f x \<le> g x) \<Longrightarrow> sum_list (map f xs) \<le> sum_list (map g xs :: nat list)"
  by (induction xs) (auto intro: add_mono)

lemma length_write_map:
  "length (wf_cbor_ser_write_item (WF_CBOR_MAP ps)) =
     wf_cbor_ser_uint_size (of_nat (length ps)) +
     sum_list (map (\<lambda>(k, v). length (wf_cbor_ser_write_item k) + length (wf_cbor_ser_write_item v)) ps)"
proof -
  have "length (concat (map (\<lambda>(k, v). wf_cbor_ser_write_item k @ wf_cbor_ser_write_item v) qs)) =
      sum_list (map (\<lambda>(k, v). length (wf_cbor_ser_write_item k) + length (wf_cbor_ser_write_item v)) qs)"
    for qs by (induction qs) auto
  then show ?thesis
    by (simp only: wf_cbor_ser_write_map length_append length_write_uint sum_list_map_qsort)
qed

lemma write_item_bounded:
  "length (wf_cbor_ser_write_item i) \<le> wf_cbor_ser_item_size i"
proof (induction i rule: wf_cbor_ser_item_size.induct)
  case (6 xs)
  then show ?case
    by (simp add: length_write_uint length_concat comp_def sum_list_le)
next
  case (7 ps)
  then have "sum_list (map (\<lambda>(k, v). length (wf_cbor_ser_write_item k) + length (wf_cbor_ser_write_item v)) ps)
      \<le> sum_list (map (\<lambda>(k, v). wf_cbor_ser_item_size k + wf_cbor_ser_item_size v) ps)"
    by (intro sum_list_le) (fastforce intro: add_mono)
  then show ?case
    by (simp only: length_write_map wf_cbor_ser_item_size.simps add_le_cancel_left)
qed (auto simp: length_write_uint)

text \<open>Items whose simple values fit a byte, the only ones that can be written.\<close>

fun simple_fits :: "wf_cbor_item \<Rightarrow> bool" where
  "simple_fits (WF_CBOR_ARRAY xs) = list_all simple_fits xs"
| "simple_fits (WF_CBOR_MAP ps) = list_all (\<lambda>(k, v). simple_fits k \<and> simple_fits v) ps"
| "simple_fits (WF_CBOR_SIMPLE sv) = (sv < 256)"
| "simple_fits _ = True"

lemma write_item_exact:
  "simple_fits i \<Longrightarrow> length (wf_cbor_ser_write_item i) = wf_cbor_ser_item_size i"
proof (induction i rule: wf_cbor_ser_item_size.induct)
  case (6 xs)
  then have "map (length \<circ> wf_cbor_ser_write_item) xs = map wf_cbor_ser_item_size xs"
    by (auto simp: list_all_iff)
  then have "sum_list (map (length \<circ> wf_cbor_ser_write_item) xs) =
      sum_list (map wf_cbor_ser_item_size xs)" by (rule arg_cong)
  then show ?case by (simp add: length_write_uint length_concat comp_def)
next
  case (7 ps)
  then have "map (\<lambda>(k, v). length (wf_cbor_ser_write_item k) + length (wf_cbor_ser_write_item v)) ps
      = map (\<lambda>(k, v). wf_cbor_ser_item_size k + wf_cbor_ser_item_size v) ps"
    by (auto simp: list_all_iff)
  then show ?case
    by (simp only: length_write_map wf_cbor_ser_item_size.simps)
qed (auto simp: length_write_uint)

lemma wf_cbor_serialize_some:
  "simple_fits i \<Longrightarrow> wf_cbor_serialize i = Some (wf_cbor_ser_write_item i)"
  by (simp add: wf_cbor_serialize_def write_item_exact)

section \<open>Heads\<close>

lemma unat_drop_bit: "unat (drop_bit n v :: 'a::len word) = unat v div 2 ^ n"
  by (metis unat_drop_bit_eq drop_bit_eq_div)

lemma ucast_drop_byte: "(ucast (drop_bit n (v :: u64)) :: byte) = of_nat (unat v div 2 ^ n)"
  by (metis unat_drop_bit of_nat_unat)

lemma head_byte:
  assumes "x < 32"
  shows "push_bit 5 (of_nat m) OR of_nat x = (of_nat (32 * m + x) :: byte)"
proof -
  have "(of_nat x :: byte) = take_bit 5 (of_nat x)"
    using assms by (simp add: take_bit_of_nat take_bit_nat_eq_self)
  then have "\<not> bit (push_bit 5 (of_nat m) :: byte) n \<or> \<not> bit (of_nat x :: byte) n" for n
    by (metis bit_push_bit_iff bit_take_bit_iff not_le)
  then have "push_bit 5 (of_nat m) OR of_nat x = (push_bit 5 (of_nat m) + of_nat x :: byte)"
    by (simp add: disjunctive_add)
  then show ?thesis by (simp add: push_bit_eq_mult mult.commute)
qed

lemma u64_le_iff: "(v :: u64) \<le> w \<longleftrightarrow> unat v \<le> unat w"
  by (simp add: word_le_nat_alt)

lemma write_uint_rfc: "wf_cbor_ser_write_uint m v = rfc_head m (unat v)"
proof -
  have b: "push_bit 5 (of_nat m) OR ucast v = (of_nat (32 * m + unat v) :: byte)" if "unat v < 32"
    using head_byte [OF that, of m] by simp
  have h: "push_bit 5 (of_nat m) OR 24 = (of_nat (32 * m + 24) :: byte)"
    "push_bit 5 (of_nat m) OR 25 = (of_nat (32 * m + 25) :: byte)"
    "push_bit 5 (of_nat m) OR 26 = (of_nat (32 * m + 26) :: byte)"
    "push_bit 5 (of_nat m) OR 27 = (of_nat (32 * m + 27) :: byte)"
    using head_byte [of 24 m] head_byte [of 25 m] head_byte [of 26 m] head_byte [of 27 m] by auto
  have c: "ucast v = (of_nat (unat v) :: byte)" by simp
  have e: "be_bytes 1 n = [of_nat n]"
    "be_bytes 2 n = [of_nat (n div 2 ^ 8), of_nat n]"
    "be_bytes 4 n = [of_nat (n div 2 ^ 24), of_nat (n div 2 ^ 16), of_nat (n div 2 ^ 8), of_nat n]"
    "be_bytes 8 n = [of_nat (n div 2 ^ 56), of_nat (n div 2 ^ 48), of_nat (n div 2 ^ 40),
       of_nat (n div 2 ^ 32), of_nat (n div 2 ^ 24), of_nat (n div 2 ^ 16), of_nat (n div 2 ^ 8),
       of_nat n]" for n
    by (simp_all add: be_bytes_def upt_rec)
  have le: "v \<le> 23 \<longleftrightarrow> unat v < 24" "v \<le> 0xFF \<longleftrightarrow> unat v < 2 ^ 8"
    "v \<le> 0xFFFF \<longleftrightarrow> unat v < 2 ^ 16" "v \<le> 0xFFFFFFFF \<longleftrightarrow> unat v < 2 ^ 32"
    by (auto simp: u64_le_iff)
  show ?thesis
  proof (cases "unat v < 24")
    case True
    with b have "push_bit 5 (of_nat m) OR ucast v = (of_nat (32 * m + unat v) :: byte)" by simp
    with True show ?thesis
      by (simp only: wf_cbor_ser_write_uint_def rfc_head_def Let_def le if_True)
  next
    case False
    then show ?thesis
      by (simp only: wf_cbor_ser_write_uint_def rfc_head_def Let_def le if_False h e
          ucast_drop_byte c)
  qed
qed

section \<open>From items to libcbor items\<close>

definition min_width :: "u64 \<Rightarrow> cbor_width" where
  "min_width v =
     (if unat v < 2 ^ 8 then CBOR_INT_8
      else if unat v < 2 ^ 16 then CBOR_INT_16
      else if unat v < 2 ^ 32 then CBOR_INT_32
      else CBOR_INT_64)"

fun to_libcbor :: "wf_cbor_item \<Rightarrow> cbor_item" where
  "to_libcbor (WF_CBOR_UNSIGNED v) = CBOR_TYPE_UINT (min_width v) v"
| "to_libcbor (WF_CBOR_NEGATIVE v) = CBOR_TYPE_NEGINT (min_width v) v"
| "to_libcbor (WF_CBOR_BYTES s) = CBOR_TYPE_BYTESTRING True s"
| "to_libcbor (WF_CBOR_STRING s) = CBOR_TYPE_STRING True s"
| "to_libcbor (WF_CBOR_ARRAY xs) = CBOR_TYPE_ARRAY True (map to_libcbor xs)"
| "to_libcbor (WF_CBOR_MAP ps) =
     CBOR_TYPE_MAP True (map (\<lambda>(k, v). (to_libcbor k, to_libcbor v)) ps)"
| "to_libcbor (WF_CBOR_LINK s) = CBOR_TYPE_TAG 42 (CBOR_TYPE_BYTESTRING True (0 # s))"
| "to_libcbor (WF_CBOR_SIMPLE sv) =
     CBOR_TYPE_FLOAT_CTRL (if sv = 20 then CBOR_CTRL_FALSE
       else if sv = 21 then CBOR_CTRL_TRUE else CBOR_CTRL_NULL)"

text \<open>
  Canonical items: string keys in strictly ascending order of their encodings, valid text,
  well-formed CIDs behind links, and only false, true and null as simple values.
\<close>

fun is_string :: "wf_cbor_item \<Rightarrow> bool" where
  "is_string (WF_CBOR_STRING s) = True"
| "is_string _ = False"

fun canonical :: "platform \<Rightarrow> wf_cbor_item \<Rightarrow> bool" where
  "canonical P (WF_CBOR_BYTES s) = (length s < 2 ^ 64)"
| "canonical P (WF_CBOR_STRING s) =
     (length s < 2 ^ 64 \<and> (s \<noteq> [] \<longrightarrow> 0 < cbor_string_codepoint_count P s))"
| "canonical P (WF_CBOR_ARRAY xs) = (length xs < 2 ^ 64 \<and> list_all (canonical P) xs)"
| "canonical P (WF_CBOR_MAP ps) =
     (length ps < 2 ^ 64 \<and> list_all (\<lambda>(k, v). is_string k \<and> canonical P k \<and> canonical P v) ps
      \<and> sorted_wrt (<) (map (\<lambda>(k, v). rfc_enc (to_libcbor k)) ps))"
| "canonical P (WF_CBOR_LINK s) = (Suc (length s) < 2 ^ 64 \<and> s \<noteq> [] \<and> wf_cbor_cid_valid s)"
| "canonical P (WF_CBOR_SIMPLE sv) = (sv = 20 \<or> sv = 21 \<or> sv = 22)"
| "canonical P _ = True"

lemma rfc_int_min_width: "rfc_int m (min_width v) (unat v) = rfc_head m (unat v)"
  by (simp add: min_width_def rfc_head_def)

lemma key_bytes_cmp_Cons [simp]:
  "key_bytes_cmp (Some (x # a)) (Some (y # b)) =
     (if x < y then -1 else if y < x then 1 else key_bytes_cmp (Some a) (Some b))"
  by (simp add: key_bytes_cmp_def Let_def)

lemma key_bytes_cmp_Nil [simp]:
  "key_bytes_cmp (Some []) (Some b) = (if b = [] then 0 else -1)"
  "key_bytes_cmp (Some a) (Some []) = (if a = [] then 0 else 1)"
  by (auto simp: key_bytes_cmp_def)

lemma key_bytes_cmp_le: "key_bytes_cmp (Some a) (Some b) \<le> 0 \<longleftrightarrow> a \<le> b"
proof (induction a arbitrary: b)
  case (Cons x a)
  then show ?case by (cases b) auto
qed simp

lemma canonical_simple_fits: "canonical P i \<Longrightarrow> simple_fits i"
  by (induction i rule: simple_fits.induct) (auto simp: list_all_iff)

lemma write_item_rfc: "canonical P i \<Longrightarrow> wf_cbor_ser_write_item i = rfc_enc (to_libcbor i)"
proof (induction i rule: to_libcbor.induct)
  case (5 xs)
  then have "map wf_cbor_ser_write_item xs = map (rfc_enc \<circ> to_libcbor) xs"
    by (auto simp: list_all_iff)
  then have "concat (map wf_cbor_ser_write_item xs) = concat (map (rfc_enc \<circ> to_libcbor) xs)"
    by (rule arg_cong)
  with 5 show ?case by (simp add: write_uint_rfc unat_of_nat_u64)
next
  case (6 ps)
  have kv: "wf_cbor_ser_write_item k = rfc_enc (to_libcbor k)"
    "wf_cbor_ser_write_item v = rfc_enc (to_libcbor v)"
    "wf_cbor_serialize k = Some (rfc_enc (to_libcbor k))" if "(k, v) \<in> set ps" for k v
    using 6 that canonical_simple_fits [of P k]
    by (auto simp: list_all_iff wf_cbor_serialize_some)
  have "sorted_wrt (\<lambda>a b. rfc_enc (to_libcbor (fst a)) < rfc_enc (to_libcbor (fst b))) ps"
    using 6 by (simp add: sorted_wrt_map case_prod_unfold)
  then have "sorted_wrt (\<lambda>a b. wf_cbor_pair_key_cmp a b \<le> 0) ps"
    by (rule sorted_wrt_mono_rel [rotated])
       (auto simp: wf_cbor_pair_key_cmp_def wf_cbor_item_key_cmp_def kv key_bytes_cmp_le)
  then have "qsort wf_cbor_pair_key_cmp ps = ps" by (rule qsort_id)
  moreover have "map (\<lambda>(k, v). wf_cbor_ser_write_item k @ wf_cbor_ser_write_item v) ps =
      map ((\<lambda>(k, v). rfc_enc k @ rfc_enc v) \<circ> (\<lambda>(k, v). (to_libcbor k, to_libcbor v))) ps"
    using kv by auto
  then have "concat (map (\<lambda>(k, v). wf_cbor_ser_write_item k @ wf_cbor_ser_write_item v) ps) =
      concat (map ((\<lambda>(k, v). rfc_enc k @ rfc_enc v) \<circ> (\<lambda>(k, v). (to_libcbor k, to_libcbor v))) ps)"
    by (rule arg_cong)
  ultimately show ?case
    using 6 by (simp only: wf_cbor_ser_write_map)
      (simp add: write_uint_rfc unat_of_nat_u64)
next
  case (7 s)
  have "rfc_head 6 42 = [0xD8, 0x2A]" by (simp add: rfc_head_def be_bytes_def)
  moreover have "unat (of_nat (length s + 1) :: u64) = length s + 1"
    using 7 by (intro unat_of_nat_u64) simp
  ultimately show ?case by (simp add: write_uint_rfc del: of_nat_add of_nat_Suc)
qed (auto simp: write_uint_rfc rfc_int_min_width unat_of_nat_u64)

section \<open>The pre-scan accepts encodings\<close>

lemma be_bytes_Suc: "be_bytes (Suc k) n = of_nat (n div 256 ^ k) # be_bytes k n"
  by (simp add: be_bytes_def)

lemma length_be_bytes [simp]: "length (be_bytes k n) = k"
  by (simp add: be_bytes_def)

lemma fold_be_bytes:
  "foldl (\<lambda>arg b. push_bit 8 arg OR ucast b) a (be_bytes k n) =
     push_bit (8 * k) a OR (of_nat (n mod 256 ^ k) :: u64)"
proof (induction k arbitrary: a)
  case 0
  then show ?case by (simp add: be_bytes_def)
next
  case (Suc k)
  have p: "(256 :: nat) ^ k = 2 ^ (8 * k)" "(256 :: nat) ^ Suc k = 2 ^ (8 + 8 * k)"
    by (simp_all add: power_mult power_add)
  have "push_bit (8 * k) (ucast (of_nat (n div 256 ^ k) :: byte)) OR (of_nat (n mod 256 ^ k) :: u64)
      = of_nat (n mod 256 ^ Suc k)"
    unfolding p by (rule bit_word_eqI)
      (auto simp: bit_simps simp flip: take_bit_eq_mod drop_bit_eq_div)
  with Suc show ?case
    by (simp add: be_bytes_Suc push_bit_or or.assoc add.commute)
qed

lemma prescan_head_byte:
  assumes "x < 32" "m < 8"
  shows "drop_bit 5 (of_nat (32 * m + x) :: byte) = of_nat m"
    "(of_nat (32 * m + x) :: byte) AND 0x1f = of_nat x"
proof -
  have b: "32 * m + x < 256" using assms by simp
  show "drop_bit 5 (of_nat (32 * m + x) :: byte) = of_nat m"
    by (rule word_unat_eq_iff [THEN iffD2])
      (use assms b in \<open>simp add: unat_drop_bit unat_of_nat del: of_nat_add of_nat_mult\<close>)
  have "(0x1f :: byte) = mask 5" by (simp add: mask_eq_exp_minus_1)
  then have "(of_nat (32 * m + x) :: byte) AND 0x1f = of_nat (take_bit 5 (32 * m + x))"
    by (simp only: take_bit_eq_mask [symmetric] take_bit_of_nat)
  then show "(of_nat (32 * m + x) :: byte) AND 0x1f = of_nat x"
    using assms by (simp add: take_bit_eq_mod del: of_nat_add of_nat_mult)
qed

text \<open>What a scanner needs to know of an encoded head: the major type and the argument read back.\<close>

definition head_ok :: "nat \<Rightarrow> nat \<Rightarrow> bytes \<Rightarrow> bool" where
  "head_ok m n h \<longleftrightarrow>
     (\<exists>b ext. h = b # ext \<and> drop_bit 5 b = of_nat m \<and>
        (\<forall>rest. prescan_arg (b AND 0x1f) (ext @ rest) = Some (of_nat n, rest)))"

lemma of_nat_byte_less: "x < 256 \<Longrightarrow> y < 256 \<Longrightarrow> (of_nat x :: byte) < of_nat y \<longleftrightarrow> x < y"
  "x < 256 \<Longrightarrow> y < 256 \<Longrightarrow> (of_nat x :: byte) \<le> of_nat y \<longleftrightarrow> x \<le> y"
  by (simp_all add: word_less_nat_alt word_le_nat_alt unat_of_nat)

lemma head_ok_embedded:
  assumes "n < 24" "m < 8"
  shows "head_ok m n [of_nat (32 * m + n)]"
proof -
  have "(of_nat n :: byte) < 24"
    using assms of_nat_byte_less(1) [of n 24] by simp
  moreover have "(ucast (of_nat n :: byte) :: u64) = of_nat n"
    using assms by (simp add: unsigned_of_nat take_bit_nat_eq_self)
  ultimately show ?thesis
    using assms prescan_head_byte [of n m]
    by (simp add: head_ok_def prescan_arg_def del: of_nat_add of_nat_mult)
qed

lemma head_ok_extended:
  assumes "k < 4" "n < 256 ^ (2 ^ k)" "m < 8"
  shows "head_ok m n (of_nat (32 * m + (24 + k)) # be_bytes (2 ^ k) n)"
proof -
  have i: "\<not> (of_nat (24 + k) :: byte) < 24" "(of_nat (24 + k) :: byte) \<le> 27"
    using assms of_nat_byte_less [of "24 + k" 24] of_nat_byte_less [of "24 + k" 27] by auto
  have "(of_nat (24 + k) :: byte) - 24 = of_nat k" by simp
  then have u: "unat ((of_nat (24 + k) :: byte) - 24) = k"
    using assms by (simp add: unat_of_nat del: of_nat_add)
  have "foldl (\<lambda>arg b. push_bit 8 arg OR ucast b) (0 :: u64) (be_bytes (2 ^ k) n) = of_nat n"
    using assms by (simp add: fold_be_bytes)
  then have "prescan_arg (of_nat (24 + k)) (be_bytes (2 ^ k) n @ rest) = Some (of_nat n, rest)" for rest
    unfolding prescan_arg_def Let_def u using i by simp
  then show ?thesis
    using assms prescan_head_byte [of "24 + k" m] unfolding head_ok_def by auto
qed

lemma head_ok_rfc_head:
  assumes "n < 2 ^ 64" "m < 8"
  shows "head_ok m n (rfc_head m n)"
  using assms head_ok_embedded [of n m] head_ok_extended [of 0 n m] head_ok_extended [of 1 n m]
    head_ok_extended [of 2 n m] head_ok_extended [of 3 n m]
  by (simp add: rfc_head_def)

lemma head_ok_rfc_int:
  assumes "width_fits w n" "m < 8"
  shows "head_ok m n (rfc_int m w n)"
  using assms head_ok_embedded [of n m] head_ok_extended [of 0 n m] head_ok_extended [of 1 n m]
    head_ok_extended [of 2 n m] head_ok_extended [of 3 n m]
  by (cases w) simp_all

text \<open>The scanner's behaviour on a head, by major type.\<close>

lemma prescan_head:
  assumes "head_ok m n h" "n < 2 ^ 64" "m < 7" "d \<le> 64"
  shows "wf_cbor_prescan d (h @ rest) =
     (if m = 0 \<or> m = 1 then Some rest
      else if m = 2 \<or> m = 3 then (if length rest < n then None else Some (drop n rest))
      else if m = 4 then (if length rest < n then None else prescan_items (d + 1) n rest)
      else if m = 5 then (if length rest div 2 < n then None else prescan_items (d + 1) (2 * n) rest)
      else if n = 42 then wf_cbor_prescan (d + 1) rest else None)"
proof -
  obtain b ext where h: "h = b # ext" "drop_bit 5 b = of_nat m"
    "prescan_arg (b AND 0x1f) (ext @ rest) = Some (of_nat n, rest)"
    using assms(1) by (auto simp: head_ok_def)
  have n: "unat (of_nat n :: u64) = n" using assms(2) by (rule unat_of_nat_u64)
  then have n42: "(of_nat n :: u64) = 42 \<longleftrightarrow> n = 42"
    by (auto simp: word_unat_eq_iff)
  have eq: "(of_nat m :: byte) = of_nat j \<longleftrightarrow> m = j" if "j < 8" for j
    using assms(3) that by (simp add: word_unat_eq_iff unat_of_nat)
  have m: "(of_nat m :: byte) = 0 \<longleftrightarrow> m = 0" "(of_nat m :: byte) = 1 \<longleftrightarrow> m = 1"
    "(of_nat m :: byte) = 2 \<longleftrightarrow> m = 2" "(of_nat m :: byte) = 3 \<longleftrightarrow> m = 3"
    "(of_nat m :: byte) = 4 \<longleftrightarrow> m = 4" "(of_nat m :: byte) = 5 \<longleftrightarrow> m = 5"
    "(of_nat m :: byte) = 6 \<longleftrightarrow> m = 6"
    using eq [of 0] eq [of 1] eq [of 2] eq [of 3] eq [of 4] eq [of 5] eq [of 6] by simp_all
  have "m = 6" if "m \<noteq> 0" "m \<noteq> 1" "m \<noteq> 2" "m \<noteq> 3" "m \<noteq> 4" "m \<noteq> 5"
    using that assms(3) by arith
  then show ?thesis
    using assms(4) unfolding h(1) append_Cons wf_cbor_prescan.simps Let_def h(2,3) option.case prod.case
      n n42 m by auto
qed

fun tags_42 :: "cbor_item \<Rightarrow> bool" where
  "tags_42 (CBOR_TYPE_ARRAY d xs) = list_all tags_42 xs"
| "tags_42 (CBOR_TYPE_MAP d ps) = list_all (\<lambda>(k, v). tags_42 k \<and> tags_42 v) ps"
| "tags_42 (CBOR_TYPE_TAG t x) = (t = 42 \<and> tags_42 x)"
| "tags_42 _ = True"

lemma rfc_head_nonempty [simp]: "rfc_head m n \<noteq> []"
  by (simp add: rfc_head_def)

lemma rfc_enc_nonempty: "1 \<le> length (rfc_enc c)"
proof (cases c)
  case (CBOR_TYPE_UINT w v)
  then show ?thesis by (cases w) auto
next
  case (CBOR_TYPE_NEGINT w v)
  then show ?thesis by (cases w) auto
qed (auto simp: Suc_le_eq)

lemma length_concat_ge:
  assumes "\<And>x. x \<in> set xs \<Longrightarrow> k \<le> length (f x)"
  shows "k * length xs \<le> length (concat (map f xs))"
  using assms by (induction xs) (auto simp: add_mono)

lemma prescan_items_list:
  assumes "\<And>x rest. x \<in> set xs \<Longrightarrow> wf_cbor_prescan d (rfc_enc x @ rest) = Some rest"
  shows "prescan_items d (length xs) (concat (map rfc_enc xs) @ rest) = Some rest"
  using assms by (induction xs) auto

lemma prescan_items_pairs:
  assumes "\<And>k v rest. (k, v) \<in> set ps \<Longrightarrow>
      wf_cbor_prescan d (rfc_enc k @ rest) = Some rest \<and> wf_cbor_prescan d (rfc_enc v @ rest) = Some rest"
  shows "prescan_items d (2 * length ps) (concat (map (\<lambda>(k, v). rfc_enc k @ rfc_enc v) ps) @ rest) = Some rest"
  using assms
proof (induction ps)
  case (Cons p ps)
  obtain k v where p: "p = (k, v)" by (cases p)
  then have kv: "wf_cbor_prescan d (rfc_enc k @ r) = Some r" "wf_cbor_prescan d (rfc_enc v @ r) = Some r" for r
    using Cons.prems by auto
  with Cons show ?case by (auto simp: p)
qed simp

lemma Max_map_ge: "y \<in> set ys \<Longrightarrow> f y \<le> Max (set (0 # map f ys))" for f :: "'b \<Rightarrow> nat"
  by (intro Max_ge) auto

lemma nesting_member:
  "x \<in> set xs \<Longrightarrow> cbor_nesting x < cbor_nesting (CBOR_TYPE_ARRAY d xs)"
  "(k, v) \<in> set ps \<Longrightarrow> cbor_nesting k < cbor_nesting (CBOR_TYPE_MAP d ps)"
  "(k, v) \<in> set ps \<Longrightarrow> cbor_nesting v < cbor_nesting (CBOR_TYPE_MAP d ps)"
  using Max_map_ge [of x xs cbor_nesting]
    Max_map_ge [of "(k, v)" ps "\<lambda>(k, v). max (cbor_nesting k) (cbor_nesting v)"]
  by (simp_all add: less_Suc_eq_le)

lemma prescan_rfc_enc:
  assumes "cbor_sized c" "cbor_definite c" "tags_42 c" "cbor_nesting c + d \<le> 65"
  shows "wf_cbor_prescan d (rfc_enc c @ rest) = Some rest"
  using assms
proof (induction c arbitrary: d rest rule: rfc_enc.induct)
  case (1 w v)
  then show ?case
    using prescan_head [OF head_ok_rfc_int [of w "unat v" 0]] unsigned_less [of v] by simp
next
  case (2 w v)
  then show ?case
    using prescan_head [OF head_ok_rfc_int [of w "unat v" 1]] unsigned_less [of v] by simp
next
  case (3 b s)
  then show ?case using prescan_head [OF head_ok_rfc_head [of "length s" 2]] by simp
next
  case (4 b s)
  then show ?case using prescan_head [OF head_ok_rfc_head [of "length s" 3]] by simp
next
  case (5 b xs)
  have "prescan_items (d + 1) (length xs) (concat (map rfc_enc xs) @ rest) = Some rest"
    using 5 nesting_member(1) [of _ xs b]
    by (intro prescan_items_list) (fastforce simp: list_all_iff)
  moreover have "length xs \<le> length (concat (map rfc_enc xs) @ rest)"
    using length_concat_ge [of xs 1 rfc_enc] rfc_enc_nonempty
    by (simp add: trans_le_add1)
  ultimately show ?case
    using 5 prescan_head [OF head_ok_rfc_head [of "length xs" 4], of d] by simp
next
  case (6 b ps)
  have "prescan_items (d + 1) (2 * length ps)
      (concat (map (\<lambda>(k, v). rfc_enc k @ rfc_enc v) ps) @ rest) = Some rest"
    using 6 nesting_member(2,3) [of _ _ ps b]
    by (intro prescan_items_pairs) (fastforce simp: list_all_iff)
  moreover have "2 \<le> length (rfc_enc k @ rfc_enc v)" for k v
    using rfc_enc_nonempty [of k] rfc_enc_nonempty [of v] unfolding length_append by linarith
  then have "2 * length ps \<le> length (concat (map (\<lambda>(k, v). rfc_enc k @ rfc_enc v) ps))"
    by (intro length_concat_ge) auto
  then have "\<not> length (concat (map (\<lambda>(k, v). rfc_enc k @ rfc_enc v) ps) @ rest) div 2 < length ps"
    by simp
  ultimately show ?case
    using 6 prescan_head [OF head_ok_rfc_head [of "length ps" 5], of d] by simp
next
  case (7 t x)
  then show ?case using prescan_head [OF head_ok_rfc_head [of 42 6], of d] by simp
next
  case (8 c)
  then show ?case by (cases c) (simp_all add: prescan_arg_def)
qed

section \<open>Conversion from libcbor inverts the embedding\<close>

lemma lex_before:
  "(let m = min (length l) (length r); c = memcmp (take m l) (take m r)
    in c < 0 \<or> (c = 0 \<and> length l < length r)) \<longleftrightarrow> l < r"
proof (induction l arbitrary: r)
  case (Cons x l)
  then show ?case by (cases r) (auto simp: Let_def)
next
  case Nil
  then show ?case by (cases r) (auto simp: Let_def)
qed

lemma to_libcbor_shape:
  assumes "canonical P i"
  shows "cbor_sized (to_libcbor i)" "cbor_definite (to_libcbor i)" "tags_42 (to_libcbor i)"
proof -
  have w: "width_fits (min_width v) (unat v)" for v :: u64
    using unat_lt_64 [of v] by (simp add: min_width_def)
  show "cbor_sized (to_libcbor i)"
    using assms by (induction i rule: to_libcbor.induct) (auto simp: list_all_iff w)
  show "cbor_definite (to_libcbor i)"
    using assms by (induction i rule: to_libcbor.induct) (auto simp: list_all_iff)
  show "tags_42 (to_libcbor i)"
    using assms by (induction i rule: to_libcbor.induct) (auto simp: list_all_iff)
qed

lemma is_string_to_libcbor: "is_string k \<Longrightarrow> cbor_isa_string (to_libcbor k)"
  by (cases k) auto

lemma nesting_pos: "1 \<le> cbor_nesting c"
  by (cases c) auto

lemma min_width_canonical: "wf_cbor_int_is_canonical (min_width v) v"
proof -
  have "0xff < v \<longleftrightarrow> 2 ^ 8 \<le> unat v" "0xffff < v \<longleftrightarrow> 2 ^ 16 \<le> unat v"
    "0xffffffff < v \<longleftrightarrow> 2 ^ 32 \<le> unat v"
    by (auto simp: word_less_nat_alt)
  then show ?thesis by (simp add: min_width_def)
qed

lemma from_libcbor_items_map:
  assumes "\<And>x. x \<in> set xs \<Longrightarrow> wf_cbor_from_libcbor P d (f x) = Some x"
  shows "from_libcbor_items P d (map f xs) = Some xs"
  using assms by (induction xs) auto

context platform_laws
begin

lemma key_before_iff:
  assumes "cbor_isa_string a" "cbor_isa_string b" "cbor_sized a" "cbor_sized b"
    "cbor_definite a" "cbor_definite b"
  shows "wf_cbor_key_before P a b \<longleftrightarrow> rfc_enc a < rfc_enc b"
  using assms lex_before [of "rfc_enc a" "rfc_enc b"]
  by (simp add: wf_cbor_key_before_def serialize_encoded)

lemma from_libcbor_pairs_map:
  assumes "\<And>k v. (k, v) \<in> set ps \<Longrightarrow> is_string k \<and> canonical P k \<and>
      wf_cbor_from_libcbor P d (to_libcbor k) = Some k \<and>
      wf_cbor_from_libcbor P d (to_libcbor v) = Some v"
    "sorted_wrt (<) (map (\<lambda>(k, v). rfc_enc (to_libcbor k)) ps)"
    "\<And>p k v ps'. prev = Some p \<Longrightarrow> ps = (k, v) # ps' \<Longrightarrow> wf_cbor_key_before P p (to_libcbor k)"
  shows "from_libcbor_pairs P d prev (map (\<lambda>(k, v). (to_libcbor k, to_libcbor v)) ps) = Some ps"
  using assms
proof (induction ps arbitrary: prev)
  case (Cons q ps)
  obtain k v where q: "q = (k, v)" by (cases q)
  have k: "is_string k" "canonical P k" "wf_cbor_from_libcbor P d (to_libcbor k) = Some k"
    "wf_cbor_from_libcbor P d (to_libcbor v) = Some v"
    using Cons.prems(1) by (auto simp: q)
  have before: "wf_cbor_key_before P (to_libcbor k) (to_libcbor k')"
    if "ps = (k', v') # ps'" for k' v' ps'
  proof -
    have "rfc_enc (to_libcbor k) < rfc_enc (to_libcbor k')"
      using Cons.prems(2) that by (simp add: q)
    moreover have "is_string k'" "canonical P k'" using Cons.prems(1) that by (auto simp: q)
    ultimately show ?thesis
      using k to_libcbor_shape [of P] by (simp add: key_before_iff is_string_to_libcbor)
  qed
  have "from_libcbor_pairs P d (Some (to_libcbor k))
      (map (\<lambda>(k, v). (to_libcbor k, to_libcbor v)) ps) = Some ps"
  proof (rule Cons.IH)
    fix k' v'
    assume "(k', v') \<in> set ps"
    then show "is_string k' \<and> canonical P k' \<and>
      wf_cbor_from_libcbor P d (to_libcbor k') = Some k' \<and>
      wf_cbor_from_libcbor P d (to_libcbor v') = Some v'"
      using Cons.prems(1) [of k' v'] by simp
  qed (use Cons.prems(2) before in auto)
  moreover have "\<not> (case prev of None \<Rightarrow> False | Some p \<Rightarrow> \<not> wf_cbor_key_before P p (to_libcbor k))"
    using Cons.prems(3) by (auto simp: q split: option.splits)
  ultimately show ?case
    using k by (simp add: q is_string_to_libcbor)
qed simp

lemma from_to_libcbor:
  assumes "canonical P i" "cbor_nesting (to_libcbor i) + d \<le> 65"
  shows "wf_cbor_from_libcbor P d (to_libcbor i) = Some i"
  using assms
proof (induction i arbitrary: d rule: to_libcbor.induct)
  case (5 xs)
  have "from_libcbor_items P (d + 1) (map to_libcbor xs) = Some xs"
    using 5 nesting_member(1) [of _ "map to_libcbor xs" True]
    by (intro from_libcbor_items_map) (fastforce simp: list_all_iff)
  with 5 show ?case by (simp add: wf_cbor_from_libcbor.simps [of _ _ "CBOR_TYPE_ARRAY _ _"])
next
  case (6 ps)
  let ?ps = "map (\<lambda>(k, v). (to_libcbor k, to_libcbor v)) ps"
  have "from_libcbor_pairs P (d + 1) None ?ps = Some ps"
  proof (rule from_libcbor_pairs_map)
    fix k v
    assume kv: "(k, v) \<in> set ps"
    then have "(to_libcbor k, to_libcbor v) \<in> set ?ps" by force
    from nesting_member(2,3) [OF this, of True] "6.prems"(2)
    have "cbor_nesting (to_libcbor k) + (d + 1) \<le> 65" "cbor_nesting (to_libcbor v) + (d + 1) \<le> 65"
      by auto
    moreover have "is_string k" "canonical P k" "canonical P v"
      using "6.prems"(1) kv by (auto simp: list_all_iff)
    ultimately show "is_string k \<and> canonical P k \<and>
      wf_cbor_from_libcbor P (d + 1) (to_libcbor k) = Some k \<and>
      wf_cbor_from_libcbor P (d + 1) (to_libcbor v) = Some v"
      using "6.IH" kv by blast
  qed (use 6 in auto)
  with 6 show ?case by (simp add: wf_cbor_from_libcbor.simps [of _ _ "CBOR_TYPE_MAP _ _"])
qed (auto simp: wf_cbor_from_libcbor.simps min_width_canonical)

text \<open>Parsing a serialisation gives the item back.\<close>

lemma parse_write:
  assumes "canonical P i" "cbor_nesting (to_libcbor i) \<le> 65"
  shows "wf_cbor_parse P (wf_cbor_ser_write_item i) = Some i"
proof -
  let ?c = "to_libcbor i"
  note shape = to_libcbor_shape [OF assms(1)]
  have "wf_cbor_prescan 0 (rfc_enc ?c) = Some []"
    using prescan_rfc_enc [OF shape, of 0 "[]"] assms(2) by simp
  moreover have "rfc_enc ?c \<noteq> []"
    using rfc_enc_nonempty [of ?c] by auto
  ultimately show ?thesis
    using shape assms from_to_libcbor [OF assms(1), of 0]
    by (simp add: wf_cbor_parse_def write_item_rfc [OF assms(1)] load_encoded serialize_encoded)
qed

end

text \<open>
  The converse: an item obtained from libcbor is canonical, and embeds to what libcbor held,
  provided no \<open>undefined\<close> occurs in it (the code decodes \<open>undefined\<close> as null).
\<close>

fun no_undef :: "cbor_item \<Rightarrow> bool" where
  "no_undef (CBOR_TYPE_ARRAY d xs) = list_all no_undef xs"
| "no_undef (CBOR_TYPE_MAP d ps) = list_all (\<lambda>(k, v). no_undef k \<and> no_undef v) ps"
| "no_undef (CBOR_TYPE_FLOAT_CTRL c) = (c \<noteq> CBOR_CTRL_UNDEF)"
| "no_undef _ = True"

lemma width_is_min:
  assumes "wf_cbor_int_is_canonical w v" "width_fits w (unat v)"
  shows "min_width v = w"
proof -
  have "0xff < v \<longleftrightarrow> 2 ^ 8 \<le> unat v" "0xffff < v \<longleftrightarrow> 2 ^ 16 \<le> unat v"
    "0xffffffff < v \<longleftrightarrow> 2 ^ 32 \<le> unat v"
    by (auto simp: word_less_nat_alt)
  then show ?thesis using assms by (cases w) (auto simp: min_width_def)
qed

lemma isa_string_to_libcbor: "cbor_isa_string (to_libcbor k) \<longleftrightarrow> is_string k"
  by (cases k) auto

lemma from_libcbor_sound:
  "wf_cbor_from_libcbor P d c = Some i \<Longrightarrow> platform_laws P \<Longrightarrow> cbor_sized c \<Longrightarrow> no_undef c \<Longrightarrow>
     to_libcbor i = c \<and> canonical P i \<and> cbor_definite c"
  "from_libcbor_items P d cs = Some is \<Longrightarrow> platform_laws P \<Longrightarrow>
     list_all cbor_sized cs \<Longrightarrow> list_all no_undef cs \<Longrightarrow>
     map to_libcbor is = cs \<and> list_all (canonical P) is \<and> list_all cbor_definite cs"
  "from_libcbor_pairs P d prev ps = Some qs \<Longrightarrow> platform_laws P \<Longrightarrow>
     list_all (\<lambda>(k, v). cbor_sized k \<and> cbor_sized v) ps \<Longrightarrow>
     list_all (\<lambda>(k, v). no_undef k \<and> no_undef v) ps \<Longrightarrow>
     (\<And>p. prev = Some p \<Longrightarrow> cbor_isa_string p \<and> cbor_sized p \<and> cbor_definite p) \<Longrightarrow>
     map (\<lambda>(k, v). (to_libcbor k, to_libcbor v)) qs = ps \<and>
     list_all (\<lambda>(k, v). is_string k \<and> canonical P k \<and> canonical P v) qs \<and>
     list_all (\<lambda>(k, v). cbor_definite k \<and> cbor_definite v) ps \<and>
     sorted_wrt (<) ((case prev of None \<Rightarrow> [] | Some p \<Rightarrow> [rfc_enc p]) @
       map (\<lambda>(k, v). rfc_enc (to_libcbor k)) qs)"
proof (induction P d c and P d cs and P d prev ps arbitrary: i and "is" and qs
    rule: wf_cbor_from_libcbor_from_libcbor_items_from_libcbor_pairs.induct)
  case (1 P d source)
  show ?case
  proof (cases source)
    case (CBOR_TYPE_UINT w v)
    with "1.prems" show ?thesis
      by (auto simp: wf_cbor_from_libcbor.simps width_is_min split: if_splits)
  next
    case (CBOR_TYPE_NEGINT w v)
    with "1.prems" show ?thesis
      by (auto simp: wf_cbor_from_libcbor.simps width_is_min split: if_splits)
  next
    case (CBOR_TYPE_FLOAT_CTRL c)
    with "1.prems" show ?thesis
      by (auto simp: wf_cbor_from_libcbor.simps split: if_splits cbor_ctrl.splits)
  next
    case (CBOR_TYPE_BYTESTRING b s)
    with "1.prems" show ?thesis by (auto simp: wf_cbor_from_libcbor.simps split: if_splits)
  next
    case (CBOR_TYPE_STRING b s)
    with "1.prems" show ?thesis by (auto simp: wf_cbor_from_libcbor.simps split: if_splits)
  next
    case (CBOR_TYPE_ARRAY b xs)
    from "1.prems"(1) CBOR_TYPE_ARRAY obtain ys where ys: "\<not> 64 < d" b
      "from_libcbor_items P (d + 1) xs = Some ys" "i = WF_CBOR_ARRAY ys"
      by (auto simp: wf_cbor_from_libcbor.simps split: if_splits)
    then have "map to_libcbor ys = xs \<and> list_all (canonical P) ys \<and> list_all cbor_definite xs"
      using "1.IH"(1) [of b xs ys] "1.prems" CBOR_TYPE_ARRAY by simp
    moreover have "length ys = length xs" using calculation by (metis length_map)
    ultimately show ?thesis using ys "1.prems" CBOR_TYPE_ARRAY by simp
  next
    case (CBOR_TYPE_MAP b ps)
    from "1.prems"(1) CBOR_TYPE_MAP obtain qs where qs: "\<not> 64 < d" b
      "from_libcbor_pairs P (d + 1) None ps = Some qs" "i = WF_CBOR_MAP qs"
      by (auto simp: wf_cbor_from_libcbor.simps split: if_splits)
    then have "map (\<lambda>(k, v). (to_libcbor k, to_libcbor v)) qs = ps \<and>
       list_all (\<lambda>(k, v). is_string k \<and> canonical P k \<and> canonical P v) qs \<and>
       list_all (\<lambda>(k, v). cbor_definite k \<and> cbor_definite v) ps \<and>
       sorted_wrt (<) (map (\<lambda>(k, v). rfc_enc (to_libcbor k)) qs)"
      using "1.IH"(2) [of b ps qs] "1.prems" CBOR_TYPE_MAP by simp
    moreover have "length qs = length ps" using calculation by (metis length_map)
    ultimately show ?thesis using qs "1.prems" CBOR_TYPE_MAP by simp
  next
    case (CBOR_TYPE_TAG t x)
    from "1.prems"(1) CBOR_TYPE_TAG obtain s where s: "x = CBOR_TYPE_BYTESTRING True s" "t = 42"
      "2 \<le> length s" "s ! 0 = 0" "wf_cbor_cid_valid (drop 1 s)" "i = WF_CBOR_LINK (drop 1 s)"
      by (auto simp: wf_cbor_from_libcbor.simps not_less split: if_splits cbor_item.splits)
    moreover have "0 # drop 1 s = s" using s(3,4) by (cases s) auto
    ultimately show ?thesis using "1.prems" CBOR_TYPE_TAG by auto
  qed
next
  case (2 P d)
  then show ?case by simp
next
  case (3 P d x xs)
  then show ?case by (auto split: option.splits)
next
  case (4 P d prev)
  then show ?case by (auto split: option.splits)
next
  case (5 P d prev k v ps)
  from "5.prems"(1) obtain k' v' qs' where q: "cbor_isa_string k"
    "\<And>p. prev = Some p \<Longrightarrow> wf_cbor_key_before P p k"
    "wf_cbor_from_libcbor P d k = Some k'" "wf_cbor_from_libcbor P d v = Some v'"
    "from_libcbor_pairs P d (Some k) ps = Some qs'" "qs = (k', v') # qs'"
    by (auto split: if_splits option.splits)
  let ?g = "\<not> cbor_isa_string k \<or> (case prev of None \<Rightarrow> False | Some p \<Rightarrow> \<not> wf_cbor_key_before P p k)"
  have g: "\<not> ?g" using q(1,2) by (auto split: option.splits)
  have k: "to_libcbor k' = k \<and> canonical P k' \<and> cbor_definite k"
    using "5.IH"(1) [OF g q(3)] "5.prems" by simp
  have v: "to_libcbor v' = v \<and> canonical P v' \<and> cbor_definite v"
    using "5.IH"(2) [OF g q(4)] "5.prems" by simp
  have rest: "map (\<lambda>(k, v). (to_libcbor k, to_libcbor v)) qs' = ps \<and>
       list_all (\<lambda>(k, v). is_string k \<and> canonical P k \<and> canonical P v) qs' \<and>
       list_all (\<lambda>(k, v). cbor_definite k \<and> cbor_definite v) ps \<and>
       sorted_wrt (<) ([rfc_enc k] @ map (\<lambda>(k, v). rfc_enc (to_libcbor k)) qs')"
    using "5.IH"(3) [OF g refl q(3,4,5)] q(1) k "5.prems" by simp
  have "rfc_enc p < rfc_enc k" if "prev = Some p" for p
    using platform_laws.key_before_iff [OF "5.prems"(2)] q(1,2) that "5.prems" k by auto
  with rest have "sorted_wrt (<) ((case prev of None \<Rightarrow> [] | Some p \<Rightarrow> [rfc_enc p]) @
       map (\<lambda>(k, v). rfc_enc (to_libcbor k)) qs)"
    using k by (auto simp: q(6) split: option.splits dest: less_trans)
  then show ?case
    using k v rest q(1) isa_string_to_libcbor [of k'] by (simp add: q(6))
qed

context platform_laws
begin

text \<open>
  What \<open>wf_cbor_parse\<close> accepts: the loaded item is within the pre-scan's depth, and the bytes
  are the encoding of the libcbor item.
\<close>

lemma parse_sound:
  assumes "wf_cbor_parse P data = Some i"
  obtains c where "cbor_load P data = Some (c, length data)" "wf_cbor_from_libcbor P 0 c = Some i"
    "no_undef c \<Longrightarrow> canonical P i \<and> to_libcbor i = c \<and> data = rfc_enc c \<and>
       wf_cbor_serialize i = Some data"
proof -
  from assms obtain c where c: "cbor_load P data = Some (c, length data)"
    "cbor_serialize_alloc P c = Some data" "wf_cbor_from_libcbor P 0 c = Some i"
    by (auto simp: wf_cbor_parse_def split: if_splits option.splits)
  have "canonical P i \<and> to_libcbor i = c \<and> data = rfc_enc c \<and> wf_cbor_serialize i = Some data"
    if "no_undef c"
  proof -
    have sized: "cbor_sized c" using c(1) by (rule load_sized)
    have s: "to_libcbor i = c" "canonical P i" "cbor_definite c"
      using from_libcbor_sound(1) [OF c(3) platform_laws_axioms sized that] by auto
    with serialize_encoded [OF sized] c(2) have "data = rfc_enc c" by simp
    with s show ?thesis
      using write_item_rfc [OF s(2)] canonical_simple_fits [OF s(2)]
      by (simp add: wf_cbor_serialize_some)
  qed
  with c that show thesis by blast
qed

end

end
