(* ===== verification/Ref_Platform.thy ===== *)
theory Ref_Platform
  imports Cbor_Roundtrip
begin

unbundle bit_operations_syntax

text \<open>
  A concrete platform that satisfies \<open>platform_laws\<close>: an executable decoder for the definite-length
  part of RFC 8949 together with the encoder \<open>rfc_enc\<close>, over any function with 32-byte results in
  the place of SHA-256. It shows that the laws the other theories assume can hold, and it is the
  platform on which concrete inputs are evaluated.
\<close>

definition width_of_info :: "byte \<Rightarrow> cbor_width" where
  "width_of_info info =
     (if info \<le> 24 then CBOR_INT_8 else if info = 25 then CBOR_INT_16
      else if info = 26 then CBOR_INT_32 else CBOR_INT_64)"

function (sequential) rfc_dec :: "nat \<Rightarrow> bytes \<Rightarrow> (cbor_item \<times> bytes) option"
  and rfc_dec_items :: "nat \<Rightarrow> nat \<Rightarrow> bytes \<Rightarrow> (cbor_item list \<times> bytes) option"
  and rfc_dec_pairs :: "nat \<Rightarrow> nat \<Rightarrow> bytes \<Rightarrow> ((cbor_item \<times> cbor_item) list \<times> bytes) option" where
  "rfc_dec 0 bs = None"
| "rfc_dec (Suc f) [] = None"
| "rfc_dec (Suc f) (b # bs) =
     (let major = drop_bit 5 b; info = b AND 0x1f
      in case prescan_arg info bs of
           None \<Rightarrow> None
         | Some (arg, rest) \<Rightarrow>
             (if major = 0 \<and> width_fits (width_of_info info) (unat arg)
              then Some (CBOR_TYPE_UINT (width_of_info info) arg, rest)
              else if major = 1 \<and> width_fits (width_of_info info) (unat arg)
              then Some (CBOR_TYPE_NEGINT (width_of_info info) arg, rest)
              else if major = 2 \<and> unat arg \<le> length rest
              then Some (CBOR_TYPE_BYTESTRING True (take (unat arg) rest), drop (unat arg) rest)
              else if major = 3 \<and> unat arg \<le> length rest
              then Some (CBOR_TYPE_STRING True (take (unat arg) rest), drop (unat arg) rest)
              else if major = 4
              then map_option (\<lambda>(xs, r). (CBOR_TYPE_ARRAY True xs, r)) (rfc_dec_items f (unat arg) rest)
              else if major = 5
              then map_option (\<lambda>(ps, r). (CBOR_TYPE_MAP True ps, r)) (rfc_dec_pairs f (unat arg) rest)
              else if major = 6
              then map_option (\<lambda>(x, r). (CBOR_TYPE_TAG arg x, r)) (rfc_dec f rest)
              else if b = 0xf4 then Some (CBOR_TYPE_FLOAT_CTRL CBOR_CTRL_FALSE, rest)
              else if b = 0xf5 then Some (CBOR_TYPE_FLOAT_CTRL CBOR_CTRL_TRUE, rest)
              else if b = 0xf6 then Some (CBOR_TYPE_FLOAT_CTRL CBOR_CTRL_NULL, rest)
              else if b = 0xf7 then Some (CBOR_TYPE_FLOAT_CTRL CBOR_CTRL_UNDEF, rest)
              else None))"
| "rfc_dec_items f 0 bs = Some ([], bs)"
| "rfc_dec_items f (Suc n) bs =
     (case rfc_dec f bs of
        None \<Rightarrow> None
      | Some (x, r) \<Rightarrow> map_option (\<lambda>(xs, r'). (x # xs, r')) (rfc_dec_items f n r))"
| "rfc_dec_pairs f 0 bs = Some ([], bs)"
| "rfc_dec_pairs f (Suc n) bs =
     (case rfc_dec f bs of
        None \<Rightarrow> None
      | Some (k, r) \<Rightarrow>
          (case rfc_dec f r of
             None \<Rightarrow> None
           | Some (v, r') \<Rightarrow> map_option (\<lambda>(ps, r''). ((k, v) # ps, r'')) (rfc_dec_pairs f n r')))"
  by pat_completeness auto
termination
  by (relation "measures [\<lambda>x. case x of Inl (f, _) \<Rightarrow> f | Inr (Inl (f, _)) \<Rightarrow> f | Inr (Inr (f, _)) \<Rightarrow> f,
        \<lambda>x. case x of Inl _ \<Rightarrow> 0 | Inr (Inl (_, n, _)) \<Rightarrow> Suc n | Inr (Inr (_, n, _)) \<Rightarrow> Suc n]") auto

definition ref_platform :: "(bytes \<Rightarrow> bytes) \<Rightarrow> platform" where
  "ref_platform h =
     \<lparr>cbor_load = (\<lambda>d. case rfc_dec 65 d of
                          None \<Rightarrow> None
                        | Some (i, rest) \<Rightarrow> Some (i, length d - length rest)),
      cbor_serialize_alloc = (\<lambda>i. Some (rfc_enc i)),
      cbor_string_codepoint_count = length,
      SHA256 = h\<rparr>"

section \<open>The laws hold\<close>

lemma rfc_dec_sized:
  "rfc_dec f bs = Some (i, r) \<Longrightarrow> cbor_sized i"
  "rfc_dec_items f n bs = Some (xs, r) \<Longrightarrow> list_all cbor_sized xs \<and> length xs = n"
  "rfc_dec_pairs f n bs = Some (ps, r) \<Longrightarrow>
     list_all (\<lambda>(k, v). cbor_sized k \<and> cbor_sized v) ps \<and> length ps = n"
proof (induction f bs and f n bs and f n bs arbitrary: i r and xs r and ps r
    rule: rfc_dec_rfc_dec_items_rfc_dec_pairs.induct)
  case (3 f b bs)
  have u: "unat (a :: u64) < 18446744073709551616" for a using unat_lt_64 [of a] by simp
  obtain arg rest where a: "prescan_arg (b AND 0x1f) bs = Some (arg, rest)"
    using "3.prems" by (auto simp: Let_def split: option.splits)
  show ?case
    using "3.prems" "3.IH" [OF refl refl a refl] u [of arg] unfolding rfc_dec.simps Let_def a option.case prod.case
    by (auto simp del: rfc_dec.simps split: if_splits)
qed (auto split: option.splits)

lemma head_ok_dec:
  assumes "head_ok m n h" "n < 2 ^ 64" "m < 7" "1 < m"
  shows "rfc_dec (Suc f) (h @ rest) =
     (if m = 2 then (if n \<le> length rest then Some (CBOR_TYPE_BYTESTRING True (take n rest), drop n rest) else None)
      else if m = 3 then (if n \<le> length rest then Some (CBOR_TYPE_STRING True (take n rest), drop n rest) else None)
      else if m = 4 then map_option (\<lambda>(xs, r). (CBOR_TYPE_ARRAY True xs, r)) (rfc_dec_items f n rest)
      else if m = 5 then map_option (\<lambda>(ps, r). (CBOR_TYPE_MAP True ps, r)) (rfc_dec_pairs f n rest)
      else map_option (\<lambda>(x, r). (CBOR_TYPE_TAG (of_nat n) x, r)) (rfc_dec f rest))"
proof -
  obtain b ext where h: "h = b # ext" "drop_bit 5 b = of_nat m"
    "prescan_arg (b AND 0x1f) (ext @ rest) = Some (of_nat n, rest)"
    using assms(1) by (auto simp: head_ok_def)
  have n: "unat (of_nat n :: u64) = n" using assms(2) by (rule unat_of_nat_u64)
  have eq: "(of_nat m :: byte) = of_nat j \<longleftrightarrow> m = j" if "j < 8" for j
    using assms(3) that by (simp add: word_unat_eq_iff unat_of_nat)
  have m: "(of_nat m :: byte) = 0 \<longleftrightarrow> m = 0" "(of_nat m :: byte) = 1 \<longleftrightarrow> m = 1"
    "(of_nat m :: byte) = 2 \<longleftrightarrow> m = 2" "(of_nat m :: byte) = 3 \<longleftrightarrow> m = 3"
    "(of_nat m :: byte) = 4 \<longleftrightarrow> m = 4" "(of_nat m :: byte) = 5 \<longleftrightarrow> m = 5"
    "(of_nat m :: byte) = 6 \<longleftrightarrow> m = 6"
    using eq [of 0] eq [of 1] eq [of 2] eq [of 3] eq [of 4] eq [of 5] eq [of 6] by simp_all
  have "b \<noteq> 0xf4 \<and> b \<noteq> 0xf5 \<and> b \<noteq> 0xf6 \<and> b \<noteq> 0xf7"
    using h(2) eq [of 7] assms(3) by auto
  moreover have "m = 2 \<or> m = 3 \<or> m = 4 \<or> m = 5 \<or> m = 6" using assms(3,4) by arith
  ultimately show ?thesis
    unfolding h(1) append_Cons rfc_dec.simps Let_def h(2,3) option.case prod.case n m
    by (elim disjE) simp_all
qed

lemma rfc_int_head:
  assumes "width_fits w n" "m < 8"
  obtains b ext where "rfc_int m w n = b # ext" "drop_bit 5 b = of_nat m"
    "width_of_info (b AND 0x1f) = w"
    "\<And>rest. prescan_arg (b AND 0x1f) (ext @ rest) = Some (of_nat n, rest)"
proof -
  from head_ok_rfc_int [OF assms] obtain b ext where h: "rfc_int m w n = b # ext"
    "drop_bit 5 b = of_nat m" "\<And>rest. prescan_arg (b AND 0x1f) (ext @ rest) = Some (of_nat n, rest)"
    by (auto simp: head_ok_def)
  have info: "b AND 0x1f = of_nat (if w = CBOR_INT_8 then (if n < 24 then n else 24)
      else if w = CBOR_INT_16 then 25 else if w = CBOR_INT_32 then 26 else 27)"
    using h(1) assms(2) prescan_head_byte(2) [of _ m]
    by (cases w) (auto split: if_splits simp del: of_nat_add of_nat_mult)
  have "n < 24 \<Longrightarrow> (of_nat n :: byte) \<le> 24"
    using of_nat_byte_less(2) [of n 24] by simp
  then have "width_of_info (b AND 0x1f) = w"
    unfolding info by (cases w) (auto simp: width_of_info_def)
  with h that show thesis by blast
qed

lemma rfc_dec_items_list:
  assumes "\<And>x rest. x \<in> set xs \<Longrightarrow> rfc_dec f (rfc_enc x @ rest) = Some (x, rest)"
  shows "rfc_dec_items f (length xs) (concat (map rfc_enc xs) @ rest) = Some (xs, rest)"
  using assms by (induction xs) auto

lemma rfc_dec_pairs_list:
  assumes "\<And>k v rest. (k, v) \<in> set ps \<Longrightarrow>
      rfc_dec f (rfc_enc k @ rest) = Some (k, rest) \<and> rfc_dec f (rfc_enc v @ rest) = Some (v, rest)"
  shows "rfc_dec_pairs f (length ps) (concat (map (\<lambda>(k, v). rfc_enc k @ rfc_enc v) ps) @ rest) = Some (ps, rest)"
  using assms
proof (induction ps)
  case (Cons p ps)
  obtain k v where p: "p = (k, v)" by (cases p)
  then have "rfc_dec f (rfc_enc k @ r) = Some (k, r)" "rfc_dec f (rfc_enc v @ r) = Some (v, r)" for r
    using Cons.prems by auto
  with Cons show ?case by (auto simp: p)
qed simp

lemma rfc_dec_enc:
  assumes "cbor_sized c" "cbor_definite c" "cbor_nesting c \<le> f"
  shows "rfc_dec f (rfc_enc c @ rest) = Some (c, rest)"
  using assms
proof (induction c arbitrary: f rest rule: rfc_enc.induct)
  case (1 w v)
  then obtain g where f: "f = Suc g" by (cases f) auto
  from "1.prems"(1) have w: "width_fits w (unat v)" by simp
  obtain b ext where "rfc_int 0 w (unat v) = b # ext" "drop_bit 5 b = of_nat 0"
    "width_of_info (b AND 0x1f) = w"
    "\<And>rest. prescan_arg (b AND 0x1f) (ext @ rest) = Some (of_nat (unat v), rest)"
    by (rule rfc_int_head [OF w, of 0]) auto
  with "1.prems" show ?case by (simp add: f Let_def)
next
  case (2 w v)
  then obtain g where f: "f = Suc g" by (cases f) auto
  from "2.prems"(1) have w: "width_fits w (unat v)" by simp
  obtain b ext where "rfc_int 1 w (unat v) = b # ext" "drop_bit 5 b = of_nat 1"
    "width_of_info (b AND 0x1f) = w"
    "\<And>rest. prescan_arg (b AND 0x1f) (ext @ rest) = Some (of_nat (unat v), rest)"
    by (rule rfc_int_head [OF w, of 1]) auto
  with "2.prems" show ?case by (simp add: f Let_def)
next
  case (3 b s)
  then obtain g where f: "f = Suc g" by (cases f) auto
  with 3 show ?case using head_ok_dec [OF head_ok_rfc_head [of "length s" 2]] by simp
next
  case (4 b s)
  then obtain g where f: "f = Suc g" by (cases f) auto
  with 4 show ?case using head_ok_dec [OF head_ok_rfc_head [of "length s" 3]] by simp
next
  case (5 b xs)
  then obtain g where f: "f = Suc g" by (cases f) auto
  have "rfc_dec_items g (length xs) (concat (map rfc_enc xs) @ rest) = Some (xs, rest)"
    using 5 nesting_member(1) [of _ xs b] f
    by (intro rfc_dec_items_list) (fastforce simp: list_all_iff)
  with 5 f show ?case using head_ok_dec [OF head_ok_rfc_head [of "length xs" 4]] by simp
next
  case (6 b ps)
  then obtain g where f: "f = Suc g" by (cases f) auto
  have "rfc_dec_pairs g (length ps) (concat (map (\<lambda>(k, v). rfc_enc k @ rfc_enc v) ps) @ rest) = Some (ps, rest)"
    using 6 nesting_member(2,3) [of _ _ ps b] f
    by (intro rfc_dec_pairs_list) (fastforce simp: list_all_iff)
  with 6 f show ?case using head_ok_dec [OF head_ok_rfc_head [of "length ps" 5]] by simp
next
  case (7 t x)
  then obtain g where f: "f = Suc g" by (cases f) auto
  have "rfc_dec g (rfc_enc x @ rest) = Some (x, rest)" using 7 f by simp
  with f show ?case
    using head_ok_dec [OF head_ok_rfc_head [of "unat t" 6]] unat_lt_64 [of t] by simp
next
  case (8 c)
  then obtain g where f: "f = Suc g" by (cases f) auto
  with 8 show ?case by (cases c) (simp_all add: prescan_arg_def)
qed

lemma ref_platform_laws:
  assumes "\<And>d. length (h d) = 32"
  shows "platform_laws (ref_platform h)"
proof
  fix i
  assume "cbor_sized i" "cbor_definite i" "cbor_nesting i \<le> 65"
  then have "rfc_dec 65 (rfc_enc i @ []) = Some (i, [])" by (rule rfc_dec_enc)
  then show "cbor_load (ref_platform h) (rfc_enc i) = Some (i, length (rfc_enc i))"
    by (simp add: ref_platform_def)
next
  fix d i n
  assume "cbor_load (ref_platform h) d = Some (i, n)"
  then show "cbor_sized i"
    by (auto simp: ref_platform_def split: option.splits intro: rfc_dec_sized(1))
qed (auto simp: ref_platform_def assms)

text \<open>
  A stand-in for SHA-256 to evaluate the model with: the 64-bit FNV-1a hash of the input,
  followed by 24 zero bytes.
\<close>

definition fnv64 :: "bytes \<Rightarrow> u64" where
  "fnv64 d = foldl (\<lambda>h b. (h XOR ucast b) * 1099511628211) 14695981039346656037 d"

definition toy_sha :: "bytes \<Rightarrow> bytes" where
  "toy_sha d = be_bytes 8 (unat (fnv64 d)) @ replicate 24 0"

interpretation ref: platform_laws "ref_platform toy_sha"
  by (rule ref_platform_laws) (simp add: toy_sha_def)

end
