(* ===== verification/Cbor_Props.thy ===== *)
theory Cbor_Props
  imports Ref_Platform
begin

unbundle bit_operations_syntax

text \<open>
  The properties of the DAG-CBOR codec, for every platform that keeps \<open>platform_laws\<close>, with
  witnesses on the reference platform.
\<close>

text \<open>The serialiser never writes past the buffer that its size pass computed, for any item at
  all; and when every simple value fits a byte the two passes agree exactly, so
  \<open>wf_cbor_serialize\<close> succeeds.\<close>

theorem cbor_serialize_bounds:
  "length (wf_cbor_ser_write_item i) \<le> wf_cbor_ser_item_size i \<and>
   (simple_fits i \<longrightarrow> wf_cbor_serialize i = Some (wf_cbor_ser_write_item i) \<and>
      length (wf_cbor_ser_write_item i) = wf_cbor_ser_item_size i)"
  by (simp add: write_item_bounded write_item_exact wf_cbor_serialize_some)

theorem cbor_serialize_bounds_witness:
  "wf_cbor_serialize (WF_CBOR_ARRAY [WF_CBOR_SIMPLE 22]) = Some [0x81, 0xf6]"
  using cbor_serialize_bounds [of "WF_CBOR_ARRAY [WF_CBOR_SIMPLE 22]"] by code_simp

text \<open>Parsing inverts serialising: a canonical item nested at most 65 deep serialises, and the
  bytes pass the pre-scan, libcbor, the re-encoding check and every canonicity check and give the
  very same item.\<close>

theorem cbor_parse_serialize:
  assumes "platform_laws P" "canonical P i" "cbor_nesting (to_libcbor i) \<le> 65"
  shows "\<exists>d. wf_cbor_serialize i = Some d \<and> wf_cbor_parse P d = Some i"
  using platform_laws.parse_write [OF assms] wf_cbor_serialize_some [OF canonical_simple_fits [OF assms(2)]]
  by blast

theorem cbor_parse_serialize_witness:
  "\<exists>d. wf_cbor_serialize (WF_CBOR_MAP [(WF_CBOR_STRING [97], WF_CBOR_UNSIGNED 1000)]) = Some d \<and>
       wf_cbor_parse (ref_platform toy_sha) d =
         Some (WF_CBOR_MAP [(WF_CBOR_STRING [97], WF_CBOR_UNSIGNED 1000)])"
  by (rule cbor_parse_serialize [OF ref.platform_laws_axioms])
     (simp_all add: ref_platform_def)

text \<open>C7: the parser is strict: if it accepts data in which libcbor sees no \<open>undefined\<close>, then the
  item is canonical and serialising it gives back exactly the data. Hence no two accepted byte strings
  denote the same item.\<close>

theorem cbor_parse_canonical:
  assumes "platform_laws P" "wf_cbor_parse P data = Some i"
    "cbor_load P data = Some (c, n)" "no_undef c"
  shows "canonical P i \<and> wf_cbor_serialize i = Some data"
  using platform_laws.parse_sound [OF assms(1,2)] assms(3,4) by (metis option.inject prod.inject)

theorem cbor_parse_canonical_witness:
  "wf_cbor_serialize (WF_CBOR_MAP [(WF_CBOR_STRING [97], WF_CBOR_UNSIGNED 1)]) =
     Some [0xa1, 0x61, 0x61, 0x01]"
proof -
  let ?P = "ref_platform toy_sha" and ?d = "[0xa1, 0x61, 0x61, 0x01]"
  have "wf_cbor_parse ?P ?d = Some (WF_CBOR_MAP [(WF_CBOR_STRING [97], WF_CBOR_UNSIGNED 1)])"
    by code_simp
  moreover have "cbor_load ?P ?d =
      Some (CBOR_TYPE_MAP True [(CBOR_TYPE_STRING True [97], CBOR_TYPE_UINT CBOR_INT_8 1)], 4)"
    by code_simp
  ultimately show ?thesis
    using cbor_parse_canonical [OF ref.platform_laws_axioms] by fastforce
qed

text \<open>The one-byte encoding of \<open>undefined\<close> is accepted and decoded as null, whose encoding is another.\<close>

lemma cbor_parse_undefined:
  "wf_cbor_parse (ref_platform toy_sha) [0xf7] = Some (WF_CBOR_SIMPLE 22) \<and>
   wf_cbor_serialize (WF_CBOR_SIMPLE 22) = Some [0xf6]"
  by code_simp

end
