(* ===== verification/Digits.thy ===== *)
theory Digits
  imports Wolfram_Prelude
begin

text \<open>
  Positional notation: the number that a big-endian list of digits denotes, how it splits over
  concatenation, and that equally long digit lists are ordered as their numbers. Shared by the
  base32 alphabets (CIDs and TIDs) and base64url.
\<close>

definition digits_num :: "nat \<Rightarrow> nat list \<Rightarrow> nat" where
  "digits_num b ds = foldl (\<lambda>a d. a * b + d) 0 ds"

lemma foldl_digits: "foldl (\<lambda>a d. a * b + d) n ds = n * b ^ length ds + digits_num b ds"
  for n :: nat
proof (induction ds arbitrary: n)
  case (Cons d ds)
  show ?case
    using Cons [of "n * b + d"] Cons [of d] by (simp add: digits_num_def algebra_simps)
qed (simp add: digits_num_def)

lemma digits_num_Nil [simp]: "digits_num b [] = 0"
  by (simp add: digits_num_def)

lemma digits_num_Cons: "digits_num b (d # ds) = d * b ^ length ds + digits_num b ds"
  using foldl_digits [of b d ds] by (simp add: digits_num_def)

lemma digits_num_append:
  "digits_num b (xs @ ys) = digits_num b xs * b ^ length ys + digits_num b ys"
  using foldl_digits [of b "digits_num b xs" ys] by (simp add: digits_num_def)

lemma digits_num_snoc: "digits_num b (ds @ [d]) = digits_num b ds * b + d"
  by (simp add: digits_num_append digits_num_Cons)

lemma digits_num_less:
  assumes "list_all (\<lambda>d. d < b) ds"
  shows "digits_num b ds < b ^ length ds"
  using assms
proof (induction ds)
  case (Cons d ds)
  then have "digits_num b ds < b ^ length ds" "Suc d \<le> b" by auto
  moreover have "Suc d * b ^ length ds \<le> b * b ^ length ds"
    using \<open>Suc d \<le> b\<close> by (rule mult_le_mono1)
  ultimately show ?case by (simp add: digits_num_Cons)
qed simp

lemma digits_num_less_iff:
  assumes "list_all (\<lambda>d. d < b) xs" "list_all (\<lambda>d. d < b) ys" "length xs = length ys"
  shows "digits_num b xs < digits_num b ys \<longleftrightarrow> xs < ys"
  using assms(3,1,2)
proof (induction xs ys rule: list_induct2)
  case (Cons x xs y ys)
  let ?B = "b ^ length ys"
  have xs: "digits_num b xs < ?B" and ys: "digits_num b ys < ?B"
    using digits_num_less [of b xs] digits_num_less [of b ys] Cons by auto
  have step: "u * ?B + p < v * ?B + q" if "u < v" "p < ?B" for u v p q :: nat
  proof -
    from that(1) have "Suc u * ?B \<le> v * ?B" by (intro mult_le_mono1) simp
    with that(2) show ?thesis by simp
  qed
  consider "x < y" | "x = y" | "y < x" by linarith
  then show ?case
    using Cons xs ys step [of x y "digits_num b xs" "digits_num b ys"]
      step [of y x "digits_num b ys" "digits_num b xs"]
    by cases (auto simp: digits_num_Cons)
qed simp

lemma digits_num_inject:
  assumes "list_all (\<lambda>d. d < b) xs" "list_all (\<lambda>d. d < b) ys" "length xs = length ys"
    "digits_num b xs = digits_num b ys"
  shows "xs = ys"
  using digits_num_less_iff [OF assms(1,2,3)] digits_num_less_iff [OF assms(2,1) assms(3)[symmetric]]
    assms(4) by (metis linorder_less_linear order_less_irrefl)

text \<open>Bytes as base-256 digits.\<close>

lemma unat_byte_less: "unat (b :: byte) < 256"
  using unsigned_less [of b, where ?'a = nat] by simp

lemma bytes_digits: "list_all (\<lambda>d. d < 256) (map unat (bs :: bytes))"
  by (simp add: list_all_iff unat_byte_less)

lemma bytes_num_inject:
  assumes "length xs = length ys" "digits_num 256 (map unat xs) = digits_num 256 (map unat ys)"
  shows "xs = (ys :: bytes)"
proof -
  have "map unat xs = map unat ys"
    by (rule digits_num_inject [of 256]) (use assms bytes_digits in auto)
  then show ?thesis by (metis map_injective injI word_unat_eq_iff)
qed

end
