(* ===== verification/Cid.thy ===== *)
theory Cid
  imports Platform Digits
begin

unbundle bit_operations_syntax

text \<open>
  Content identifiers (\<^verbatim>\<open>src/repo/cid.c\<close>): CIDv1 bytes built from a SHA-256 digest, and their
  base32 text form. A \<^verbatim>\<open>wf_cid\<close> is the list of its \<^verbatim>\<open>len\<close> bytes; the empty list is the absent
  CID (\<^verbatim>\<open>len == 0\<close>). The incremental hasher is a thin wrapper over OpenSSL and is not modelled.
\<close>

section \<open>Model\<close>

type_synonym wf_cid = bytes

definition B32_ALPHABET :: bytes where
  "B32_ALPHABET = ascii ''abcdefghijklmnopqrstuvwxyz234567''"

text \<open>The inner loop of the encoder: \<open>need\<close> characters from the top of a \<open>bits\<close>-bit buffer.\<close>

fun b32_emit :: "u64 \<Rightarrow> int \<Rightarrow> nat \<Rightarrow> bytes" where
  "b32_emit buf bits 0 = []"
| "b32_emit buf bits (Suc c) =
     (let shift = bits - 5;
          i = (if 0 \<le> shift then drop_bit (nat shift) buf AND 0x1f
               else push_bit (nat (- shift)) buf AND 0x1f)
      in B32_ALPHABET ! unat i # b32_emit buf (bits - 5) c)"

function wf_base32_encode :: "bytes \<Rightarrow> bytes" where
  "wf_base32_encode inp =
     (if inp = [] then []
      else
        let chunk = take 5 inp;
            buf = foldl (\<lambda>buf b. push_bit 8 buf OR ucast b) 0 chunk;
            bits = 8 * length chunk
        in b32_emit buf (int bits) ((bits + 4) div 5) @ wf_base32_encode (drop 5 inp))"
  by pat_completeness auto
termination by (relation "measure length") auto

declare wf_base32_encode.simps [simp del]

definition b32_value :: "byte \<Rightarrow> (32 word) option" where
  "b32_value c =
     (if 97 \<le> c \<and> c \<le> 122 then Some (ucast (c - 97))
      else if 50 \<le> c \<and> c \<le> 55 then Some (ucast (c - 50) + 26)
      else None)"

fun b32_decode_loop :: "32 word \<Rightarrow> nat \<Rightarrow> bytes \<Rightarrow> bytes \<Rightarrow> bytes option" where
  "b32_decode_loop buf bits out [] = Some out"
| "b32_decode_loop buf bits out (c # cs) =
     (case b32_value c of
        None \<Rightarrow> None
      | Some v \<Rightarrow>
          (let buf' = push_bit 5 buf OR v; bits' = bits + 5
           in if 8 \<le> bits'
              then if 64 \<le> length out then None
                   else b32_decode_loop buf' (bits' - 8)
                          (out @ [ucast (drop_bit (bits' - 8) buf' AND 0xff)]) cs
              else b32_decode_loop buf' bits' out cs))"

definition wf_base32_decode :: "bytes \<Rightarrow> bytes option" where
  "wf_base32_decode inp = b32_decode_loop 0 0 [] inp"

definition wf_cid_from_hash_codec :: "bytes \<Rightarrow> byte \<Rightarrow> wf_cid" where
  "wf_cid_from_hash_codec hash codec = [0x01, codec, 0x12, 0x20] @ take 32 hash"

definition wf_cid_from_hash :: "bytes \<Rightarrow> wf_cid" where
  "wf_cid_from_hash hash = wf_cid_from_hash_codec hash 0x71"

definition wf_cid_to_string :: "wf_cid \<Rightarrow> bytes option" where
  "wf_cid_to_string cid = (if cid = [] then None else Some (98 # wf_base32_encode cid))"

definition wf_cid_of_block :: "platform \<Rightarrow> bytes \<Rightarrow> wf_cid res" where
  "wf_cid_of_block P cbor =
     (if cbor = [] then Inl WF_ERR_INVALID_ARG else Inr (wf_cid_from_hash (SHA256 P cbor)))"

definition wf_cid_of_bytes :: "platform \<Rightarrow> bytes \<Rightarrow> wf_cid res" where
  "wf_cid_of_bytes P data =
     (if data = [] then Inl WF_ERR_INVALID_ARG
      else Inr (wf_cid_from_hash_codec (SHA256 P data) 0x55))"

definition cid_equal :: "wf_cid \<Rightarrow> wf_cid \<Rightarrow> bool" where
  "cid_equal a b \<longleftrightarrow> length a = length b \<and> 0 < length a \<and> memcmp a b = 0"

definition wf_cid_from_string :: "bytes \<Rightarrow> wf_cid res" where
  "wf_cid_from_string str =
     (case str of
        [] \<Rightarrow> Inl WF_ERR_INVALID_ARG
      | c # cs \<Rightarrow>
          (if c \<noteq> 98 then Inl WF_ERR_INVALID_ARG
           else case wf_base32_decode cs of
                  None \<Rightarrow> Inl WF_ERR_INVALID_ARG
                | Some bs \<Rightarrow>
                    (if length bs \<noteq> 36 then Inl WF_ERR_INVALID_ARG
                     else if bs ! 0 \<noteq> 0x01 \<or> (bs ! 1 \<noteq> 0x71 \<and> bs ! 1 \<noteq> 0x55) \<or>
                             bs ! 2 \<noteq> 0x12 \<or> bs ! 3 \<noteq> 0x20
                     then Inl WF_ERR_INVALID_ARG
                     else Inr bs)))"

section \<open>Lemmas\<close>

lemma memcmp_eq_iff: "length a = length b \<Longrightarrow> memcmp a b = 0 \<longleftrightarrow> a = b"
  by (induction a b rule: list_induct2) auto

lemma cid_equal_iff [simp]: "cid_equal a b \<longleftrightarrow> a = b \<and> a \<noteq> []"
  by (auto simp: cid_equal_def memcmp_eq_iff)

lemma length_cid_of_block:
  "length (SHA256 P d) = 32 \<Longrightarrow> wf_cid_of_block P d = Inr c \<Longrightarrow> length c = 36"
  by (auto simp: wf_cid_of_block_def wf_cid_from_hash_def wf_cid_from_hash_codec_def split: if_splits)

subsection \<open>Base32 as positional notation\<close>

lemma b32_value_alphabet:
  assumes "i < 32"
  shows "b32_value (B32_ALPHABET ! i) = Some (of_nat i)"
proof -
  have "\<forall>i \<in> set [0..<32]. b32_value (B32_ALPHABET ! i) = Some (of_nat i)"
    by code_simp
  then show ?thesis using assms by auto
qed

lemma unat_drop_bit_div: "unat (drop_bit k w) = unat (w :: 'a::len word) div 2 ^ k"
  by (simp only: unat_drop_bit_eq drop_bit_eq_div [where ?'a = nat])

lemma low5: "unat (w AND 0x1f) = unat (w :: u64) mod 32"
proof -
  have "(0x1f :: u64) = mask 5" by (simp add: mask_eq_exp_minus_1)
  then show ?thesis
    by (simp only: take_bit_eq_mask [symmetric] unsigned_take_bit_eq) (simp add: take_bit_eq_mod)
qed

fun emit_digits :: "nat \<Rightarrow> nat \<Rightarrow> nat \<Rightarrow> nat list" where
  "emit_digits B b 0 = []"
| "emit_digits B b (Suc c) =
     (if 5 \<le> b then B div 2 ^ (b - 5) mod 32 else B * 2 ^ (5 - b) mod 32) # emit_digits B (b - 5) c"

lemma length_emit_digits [simp]: "length (emit_digits B b n) = n"
  by (induction n arbitrary: b) auto

lemma emit_digits_less: "list_all (\<lambda>d. d < 32) (emit_digits B b n)"
  by (induction n arbitrary: b) auto

lemma b32_emit_digits:
  assumes "5 * n < b + 5"
  shows "b32_emit buf (int b) n = map ((!) B32_ALPHABET) (emit_digits (unat buf) b n)"
  using assms
proof (induction n arbitrary: b)
  case (Suc n)
  have "unat (2 ^ (5 - b) :: u64) = 2 ^ (5 - b)"
    using unat_of_nat_u64 [of "2 ^ (5 - b)"] power_increasing [of "5 - b" 5 "2 :: nat"] by simp
  then have lo: "unat (push_bit (5 - b) buf AND 0x1f) = unat buf * 2 ^ (5 - b) mod 32"
    by (simp add: low5 push_bit_eq_mult unat_word_ariths mod_mod_cancel)
  have hi: "unat (drop_bit (b - 5) buf AND 0x1f) = unat buf div 2 ^ (b - 5) mod 32"
    by (simp only: low5 unat_drop_bit_div)
  show ?case
  proof (cases "5 \<le> b")
    case True
    then have "b32_emit buf (int (b - 5)) n = map ((!) B32_ALPHABET) (emit_digits (unat buf) (b - 5) n)"
      using Suc.prems by (intro Suc.IH) simp
    with True hi show ?thesis by (simp add: Let_def of_nat_diff nat_diff_distrib)
  next
    case False
    then have "n = 0" using Suc.prems by simp
    with False lo show ?thesis by (simp add: Let_def nat_diff_distrib)
  qed
qed simp

lemma emit_digits_num:
  assumes "5 * n < b + 5" "b \<le> 5 * n"
  shows "digits_num 32 (emit_digits B b n) = (B mod 2 ^ b) * 2 ^ (5 * n - b)"
  using assms
proof (induction n arbitrary: b)
  case (Suc n)
  show ?case
  proof (cases "5 \<le> b")
    case True
    then obtain a where b: "b = a + 5" by (metis le_add_diff_inverse2)
    have IH: "digits_num 32 (emit_digits B a n) = (B mod 2 ^ a) * 2 ^ (5 * n - a)"
      using Suc.prems b by (intro Suc.IH) auto
    have split: "B mod 2 ^ b = 2 ^ a * (B div 2 ^ a mod 32) + B mod 2 ^ a"
      using mod_mult2_eq [of B "2 ^ a" 32] by (simp add: b power_add mult.commute)
    have e: "(32 :: nat) ^ n = 2 ^ a * 2 ^ (5 * n - a)"
      using Suc.prems b power_mult [of "2 :: nat" 5 n] by (simp add: power_add [symmetric])
    have s: "5 * Suc n - b = 5 * n - a" using b by simp
    show ?thesis
      unfolding s split by (simp add: digits_num_Cons b IH e algebra_simps)
  next
    case False
    then have n: "n = 0" using Suc.prems by simp
    have "B * 2 ^ (5 - b) mod 32 = (B mod 2 ^ b) * 2 ^ (5 - b)"
    proof -
      have "(32 :: nat) = 2 ^ b * 2 ^ (5 - b)"
        using False by (simp add: power_add [symmetric])
      then show ?thesis by (simp add: mult_mod_left)
    qed
    with n False show ?thesis by (simp add: digits_num_Cons)
  qed
qed simp

subsection \<open>Decoding\<close>

lemma b32_shift_in:
  fixes buf :: "32 word"
  assumes "bits < 8" "v < 32"
  shows "unat (push_bit 5 buf OR of_nat v) mod 2 ^ (bits + 5) = (unat buf mod 2 ^ bits) * 32 + v"
proof -
  have v: "unat (of_nat v :: 32 word) = v" using assms(2) by (simp add: unat_of_nat)
  have "push_bit 5 buf AND of_nat v = 0"
  proof (rule bit_word_eqI)
    fix n
    have "\<not> bit v n" if "5 \<le> n"
    proof -
      have "v < 2 ^ n" using assms(2) power_increasing [OF that, of "2 :: nat"] by simp
      then show ?thesis by (simp add: bit_nat_iff bit_iff_odd)
    qed
    then show "bit (push_bit 5 buf AND of_nat v) n = bit (0 :: 32 word) n"
      by (auto simp: bit_and_iff bit_push_bit_iff bit_of_nat_iff)
  qed
  then have "push_bit 5 buf OR of_nat v = buf * 32 + of_nat v"
    by (simp add: push_bit_eq_mult disjunctive_add_eq_or)
  moreover have "unat (buf * 32 + of_nat v) mod 2 ^ (bits + 5) = (unat buf * 32 + v) mod 2 ^ (bits + 5)"
  proof -
    have "(2 :: nat) ^ (bits + 5) dvd 2 ^ 32" using assms(1) by (intro le_imp_power_dvd) simp
    then have "(2 :: nat) ^ (bits + 5) dvd 4294967296" by simp
    then show ?thesis by (simp add: unat_word_ariths v mod_mod_cancel mod_simps)
  qed
  moreover have "(unat buf * 32 + v) mod 2 ^ (bits + 5) = (unat buf mod 2 ^ bits) * 32 + v"
    using assms(2) mod_mult2_eq [of "unat buf * 32 + v" 32 "2 ^ bits"] by (simp add: power_add mult.commute)
  ultimately show ?thesis by simp
qed

lemma b32_decode_digits:
  assumes "list_all (\<lambda>d. d < 32) ds" "bits < 8" "8 * length out + bits + 5 * length ds < 520"
  shows "\<exists>out'. b32_decode_loop buf bits out (map ((!) B32_ALPHABET) ds) = Some out' \<and>
    length out' = (8 * length out + bits + 5 * length ds) div 8 \<and>
    digits_num 256 (map unat out') =
      ((digits_num 256 (map unat out) * 2 ^ bits + unat buf mod 2 ^ bits) * 32 ^ length ds + digits_num 32 ds)
        div 2 ^ ((bits + 5 * length ds) mod 8)"
  using assms
proof (induction ds arbitrary: buf bits out)
  case Nil
  then show ?case by (simp add: mod_less)
next
  case (Cons d ds)
  let ?buf = "push_bit 5 buf OR of_nat d :: 32 word"
  have d: "d < 32" using Cons.prems by simp
  have step: "unat ?buf mod 2 ^ (bits + 5) = (unat buf mod 2 ^ bits) * 32 + d"
    using b32_shift_in [OF Cons.prems(2) d] .
  have val: "b32_value (B32_ALPHABET ! d) = Some (of_nat d)" using d by (rule b32_value_alphabet)
  show ?case
  proof (cases "8 \<le> bits + 5")
    case False
    have "b32_decode_loop buf bits out (map ((!) B32_ALPHABET) (d # ds)) =
      b32_decode_loop ?buf (bits + 5) out (map ((!) B32_ALPHABET) ds)"
      using False val by (simp add: Let_def)
    moreover note Cons.IH [of "bits + 5" out ?buf]
    ultimately show ?thesis
      using False Cons.prems step by (simp add: digits_num_Cons algebra_simps power_add)
  next
    case True
    define k where "k = bits + 5 - 8"
    define o' where "o' = (ucast (drop_bit k ?buf AND 0xff) :: byte)"
    have k: "bits + 5 = k + 8" "k < 8" using True Cons.prems by (auto simp: k_def)
    have o': "unat o' = unat ?buf div 2 ^ k mod 256"
    proof -
      have "(0xff :: 32 word) = mask 8" by (simp add: mask_eq_exp_minus_1)
      then have "unat (drop_bit k ?buf AND 0xff) = unat ?buf div 2 ^ k mod 256"
        by (simp only: take_bit_eq_mask [symmetric] unsigned_take_bit_eq unat_drop_bit_div)
          (simp add: take_bit_eq_mod)
      then show ?thesis by (simp add: o'_def unsigned_ucast_eq take_bit_eq_mod)
    qed
    have split: "unat o' * 2 ^ k + unat ?buf mod 2 ^ k = unat ?buf mod 2 ^ (bits + 5)"
      using mod_mult2_eq [of "unat ?buf" "2 ^ k" 256] by (simp add: o' k power_add mult.commute)
    have run: "b32_decode_loop buf bits out (map ((!) B32_ALPHABET) (d # ds)) =
      b32_decode_loop ?buf k (out @ [o']) (map ((!) B32_ALPHABET) ds)"
      using True val Cons.prems by (simp add: Let_def k_def o'_def)
    have num: "digits_num 256 (map unat (out @ [o'])) * 2 ^ k + unat ?buf mod 2 ^ k =
      (digits_num 256 (map unat out) * 2 ^ bits + unat buf mod 2 ^ bits) * 32 + d"
    proof -
      have "digits_num 256 (map unat (out @ [o'])) * 2 ^ k + unat ?buf mod 2 ^ k =
        digits_num 256 (map unat out) * 2 ^ (k + 8) + (unat o' * 2 ^ k + unat ?buf mod 2 ^ k)"
        by (simp add: digits_num_snoc power_add algebra_simps)
      also have "\<dots> = digits_num 256 (map unat out) * 2 ^ (bits + 5) + ((unat buf mod 2 ^ bits) * 32 + d)"
        using split step k(1) by simp
      finally show ?thesis by (simp add: power_add algebra_simps)
    qed
    have len: "8 * length (out @ [o']) + k + 5 * length ds = 8 * length out + bits + 5 * length (d # ds)"
      using k by simp
    have "bits + 5 * length (d # ds) = (k + 5 * length ds) + 8" using k by simp
    then have md: "(k + 5 * length ds) mod 8 = (bits + 5 * length (d # ds)) mod 8" by simp
    have digs: "((digits_num 256 (map unat out) * 2 ^ bits + unat buf mod 2 ^ bits) * 32 + d) * 32 ^ length ds +
        digits_num 32 ds =
      (digits_num 256 (map unat out) * 2 ^ bits + unat buf mod 2 ^ bits) * 32 ^ length (d # ds) +
        digits_num 32 (d # ds)"
      by (simp add: digits_num_Cons algebra_simps)
    show ?thesis
      using Cons.IH [of k "out @ [o']" ?buf] Cons.prems k(2) unfolding run num len md digs by simp
  qed
qed

subsection \<open>Encoding in chunks of five bytes\<close>

lemma fold_bytes_num:
  fixes bs :: bytes
  assumes "length bs \<le> 8"
  shows "unat (foldl (\<lambda>buf b. push_bit 8 buf OR ucast b) (0 :: u64) bs) = digits_num 256 (map unat bs)"
  using assms
proof (induction bs rule: rev_induct)
  case (snoc b bs)
  let ?acc = "foldl (\<lambda>buf b. push_bit 8 buf OR ucast b) (0 :: u64) bs"
  have "digits_num 256 (map unat bs) < 256 ^ length bs"
    using digits_num_less [OF bytes_digits, of bs] by simp
  also have "\<dots> \<le> 256 ^ 7" using snoc.prems by (intro power_increasing) auto
  finally have lt: "unat ?acc < 256 ^ 7" using snoc by simp
  have "push_bit 8 ?acc AND ucast b = 0"
    by (rule bit_word_eqI) (auto simp: bit_and_iff bit_push_bit_iff bit_ucast_iff dest: bit_imp_le_length)
  then have "push_bit 8 ?acc OR ucast b = ?acc * 256 + ucast b"
    by (simp add: push_bit_eq_mult disjunctive_add_eq_or)
  moreover have "unat (?acc * 256 + ucast b) = unat ?acc * 256 + unat b"
    using lt unat_byte_less [of b] by (simp add: unat_word_ariths unsigned_ucast_eq take_bit_eq_mod)
  ultimately show ?case using snoc by (simp add: digits_num_snoc)
qed simp

text \<open>The characters of the encoder as base-32 digits.\<close>

function b32_digits :: "bytes \<Rightarrow> nat list" where
  "b32_digits inp =
     (if inp = [] then []
      else emit_digits (digits_num 256 (map unat (take 5 inp))) (8 * length (take 5 inp))
             ((8 * length (take 5 inp) + 4) div 5) @ b32_digits (drop 5 inp))"
  by pat_completeness auto
termination by (relation "measure length") auto

declare b32_digits.simps [simp del]

lemma wf_base32_encode_digits: "wf_base32_encode inp = map ((!) B32_ALPHABET) (b32_digits inp)"
proof (induction inp rule: b32_digits.induct)
  case (1 inp)
  show ?case
  proof (cases "inp = []")
    case False
    let ?b = "8 * length (take 5 inp)"
    have "5 * ((?b + 4) div 5) < ?b + 5"
      using div_mult_mod_eq [of "?b + 4" 5] by linarith
    then have "b32_emit w (int ?b) ((?b + 4) div 5) =
      map ((!) B32_ALPHABET) (emit_digits (unat w) ?b ((?b + 4) div 5))" for w
      by (rule b32_emit_digits)
    with False 1 show ?thesis
      by (subst wf_base32_encode.simps, subst b32_digits.simps) (simp add: Let_def fold_bytes_num)
  qed (simp add: wf_base32_encode.simps b32_digits.simps)
qed

lemma b32_digits_less: "list_all (\<lambda>d. d < 32) (b32_digits inp)"
proof (induction inp rule: b32_digits.induct)
  case (1 inp)
  then show ?case by (subst b32_digits.simps) (simp add: emit_digits_less)
qed

lemma b32_digits_num:
  "length (b32_digits inp) = (8 * length inp + 4) div 5 \<and>
   digits_num 32 (b32_digits inp) =
     digits_num 256 (map unat inp) * 2 ^ (5 * ((8 * length inp + 4) div 5) - 8 * length inp)"
proof (induction inp rule: b32_digits.induct)
  case (1 inp)
  let ?n = "(8 * length (take 5 inp) + 4) div 5"
  have head: "digits_num 32 (emit_digits (digits_num 256 (map unat (take 5 inp))) (8 * length (take 5 inp)) ?n) =
    digits_num 256 (map unat (take 5 inp)) * 2 ^ (5 * ?n - 8 * length (take 5 inp))"
  proof -
    have "digits_num 256 (map unat (take 5 inp)) < 2 ^ (8 * length (take 5 inp))"
      using digits_num_less [OF bytes_digits, of "take 5 inp"] by (simp add: power_mult)
    moreover have "5 * ?n < 8 * length (take 5 inp) + 5" "8 * length (take 5 inp) \<le> 5 * ?n"
      using div_mult_mod_eq [of "8 * length (take 5 inp) + 4" 5] by linarith+
    ultimately show ?thesis by (subst emit_digits_num) auto
  qed
  show ?case
  proof (cases "length inp \<le> 5")
    case True
    then have "drop 5 inp = []" "take 5 inp = inp" by auto
    with head show ?thesis
      by (subst (1 2) b32_digits.simps) (simp add: b32_digits.simps)
  next
    case False
    define m where "m = length inp - 5"
    have len: "length inp = m + 5" and m: "length (drop 5 inp) = m" "inp \<noteq> []"
      using False by (auto simp: m_def)
    let ?D = "b32_digits (drop 5 inp)"
    have n: "?n = 8" "8 * length (take 5 inp) = 40" using False by auto
    have IH: "length ?D = (8 * m + 4) div 5"
      "digits_num 32 ?D = digits_num 256 (map unat (drop 5 inp)) * 2 ^ (5 * ((8 * m + 4) div 5) - 8 * m)"
      using 1 m by auto
    have q: "(8 * length inp + 4) div 5 = (8 * m + 4) div 5 + 8" by (simp add: len)
    have whole: "digits_num 256 (map unat inp) =
      digits_num 256 (map unat (take 5 inp)) * 256 ^ m + digits_num 256 (map unat (drop 5 inp))"
      using digits_num_append [of 256 "map unat (take 5 inp)" "map unat (drop 5 inp)"] m
      by (simp flip: map_append)
    have p: "(32 :: nat) ^ ((8 * m + 4) div 5) = 256 ^ m * 2 ^ (5 * ((8 * m + 4) div 5) - 8 * m)"
    proof -
      have "8 * m \<le> 5 * ((8 * m + 4) div 5)"
        using div_mult_mod_eq [of "8 * m + 4" 5] by linarith
      then have "(2 :: nat) ^ (5 * ((8 * m + 4) div 5)) = 2 ^ (8 * m) * 2 ^ (5 * ((8 * m + 4) div 5) - 8 * m)"
        by (simp flip: power_add)
      then show ?thesis by (simp add: power_mult)
    qed
    have unf: "b32_digits inp = emit_digits (digits_num 256 (map unat (take 5 inp))) 40 8 @ ?D"
      using b32_digits.simps [of inp] m(2) n by simp
    have hd: "digits_num 32 (emit_digits (digits_num 256 (map unat (take 5 inp))) 40 8) =
       digits_num 256 (map unat (take 5 inp))"
      using head n by simp
    have "5 * ((8 * length inp + 4) div 5) - 8 * length inp = 5 * ((8 * m + 4) div 5) - 8 * m"
      using q len by simp
    then show ?thesis
      unfolding whole unf digits_num_append hd IH(2) length_append
      by (simp only: IH(1) p q length_emit_digits) (simp add: distrib_right mult.assoc)
  qed
qed

lemma wf_base32_decode_encode:
  assumes "length inp \<le> 64"
  shows "wf_base32_decode (wf_base32_encode inp) = Some inp"
proof -
  let ?n = "(8 * length inp + 4) div 5"
  have n: "8 * length inp \<le> 5 * ?n" "5 * ?n < 8 * length inp + 5"
    using div_mult_mod_eq [of "8 * length inp + 4" 5] by linarith+
  define r where "r = 5 * ?n - 8 * length inp"
  have r: "5 * ?n = 8 * length inp + r" "r < 8" using n by (auto simp: r_def)
  have num: "digits_num 32 (b32_digits inp) = digits_num 256 (map unat inp) * 2 ^ r"
    "length (b32_digits inp) = ?n"
    using b32_digits_num by (auto simp: r_def)
  obtain out where out: "wf_base32_decode (wf_base32_encode inp) = Some out"
    "length out = (5 * ?n) div 8"
    "digits_num 256 (map unat out) = (digits_num 256 (map unat inp) * 2 ^ r) div 2 ^ ((5 * ?n) mod 8)"
    using b32_decode_digits [OF b32_digits_less, of 0 "[]" inp 0] num n assms
    by (auto simp: wf_base32_decode_def wf_base32_encode_digits)
  have "length out = length inp" "(5 * ?n) mod 8 = r" using out(2) r by auto
  then have "out = inp" using out(3) by (intro bytes_num_inject) auto
  with out(1) show ?thesis by simp
qed

lemma wf_base32_encode_inject:
  "length a \<le> 64 \<Longrightarrow> length b \<le> 64 \<Longrightarrow> wf_base32_encode a = wf_base32_encode b \<Longrightarrow> a = b"
  by (metis option.inject wf_base32_decode_encode)

section \<open>Properties\<close>

text \<open>The text form of a CID reads back as the same CID: \<open>wf_cid_to_string\<close> succeeds on the 36-byte
  CID of any block or blob and \<open>wf_cid_from_string\<close> recovers exactly its bytes, so the base32
  chunks, the padding bits and the prefix check agree.\<close>

theorem cid_string_roundtrip:
  assumes "length h = 32" "codec = 0x71 \<or> codec = 0x55"
  shows "\<exists>s. wf_cid_to_string (wf_cid_from_hash_codec h codec) = Some s \<and>
             wf_cid_from_string s = Inr (wf_cid_from_hash_codec h codec)"
  using assms
  by (auto simp: wf_cid_to_string_def wf_cid_from_string_def wf_cid_from_hash_codec_def
      wf_base32_decode_encode)

theorem cid_string_roundtrip_witness:
  "\<exists>s. wf_cid_to_string (wf_cid_from_hash_codec (replicate 32 7) 0x71) = Some s \<and>
       wf_cid_from_string s = Inr (wf_cid_from_hash_codec (replicate 32 7) 0x71)"
  using cid_string_roundtrip [of "replicate 32 7" "0x71"] by simp

text \<open>The decoder keeps no check on the unused low bits of the last character: two different strings
  are accepted for one CID.\<close>

lemma cid_from_string_trailing_bits:
  "let c = wf_cid_from_hash (replicate 32 0);
       s = 98 # wf_base32_encode c;
       t = butlast s @ ascii ''b''
   in s \<noteq> t \<and> wf_cid_from_string s = Inr c \<and> wf_cid_from_string t = Inr c"
  by code_simp

end
