(* ===== verification/Tid.thy ===== *)
theory Tid
  imports Digits
begin

unbundle bit_operations_syntax

text \<open>
  TIDs (\<^verbatim>\<open>src/tid.c\<close>): the 13-character sortable base32 form of a 64-bit value, and the
  process-wide clock that mints them.
\<close>

section \<open>Encoding and decoding\<close>

abbreviation WF_TID_LEN :: nat where "WF_TID_LEN \<equiv> 13"

definition WF_TID_S32 :: bytes where
  "WF_TID_S32 = ascii ''234567abcdefghijklmnopqrstuvwxyz''"

fun s32_index_from :: "int \<Rightarrow> bytes \<Rightarrow> byte \<Rightarrow> int" where
  "s32_index_from i [] c = -1"
| "s32_index_from i (x # xs) c = (if x = c then i else s32_index_from (i + 1) xs c)"

definition wf_tid_s32_index :: "byte \<Rightarrow> int" where
  "wf_tid_s32_index c = s32_index_from 0 WF_TID_S32 c"

text \<open>The encoding loop fills the buffer from its last position to its first.\<close>

fun tid_encode_loop :: "nat \<Rightarrow> u64 \<Rightarrow> bytes" where
  "tid_encode_loop 0 v = []"
| "tid_encode_loop (Suc n) v = tid_encode_loop n (drop_bit 5 v) @ [WF_TID_S32 ! unat (v AND 31)]"

definition wf_tid_encode :: "u64 \<Rightarrow> bytes" where
  "wf_tid_encode tid_value = tid_encode_loop WF_TID_LEN tid_value"

fun tid_decode_loop :: "u64 \<Rightarrow> bytes \<Rightarrow> u64 res" where
  "tid_decode_loop v [] = Inr v"
| "tid_decode_loop v (c # cs) =
     (let idx = wf_tid_s32_index c
      in if idx < 0 then Inl WF_ERR_INVALID_ARG
         else tid_decode_loop (push_bit 5 v OR word_of_int idx) cs)"

definition wf_tid_decode :: "bytes \<Rightarrow> u64 res" where
  "wf_tid_decode tid =
     (if length tid \<noteq> WF_TID_LEN then Inl WF_ERR_INVALID_ARG else tid_decode_loop 0 tid)"

definition tid_value :: "u64 \<Rightarrow> 32 word \<Rightarrow> u64" where
  "tid_value timestamp_micros clockid = push_bit 10 timestamp_micros OR ucast (clockid AND 0x3FF)"

definition wf_tid_from_time :: "u64 \<Rightarrow> 32 word \<Rightarrow> bytes" where
  "wf_tid_from_time timestamp_micros clockid = wf_tid_encode (tid_value timestamp_micros clockid)"

definition wf_tid_timestamp_micros :: "bytes \<Rightarrow> u64" where
  "wf_tid_timestamp_micros tid =
     (case wf_tid_decode tid of Inl _ \<Rightarrow> 0 | Inr value \<Rightarrow> drop_bit 10 value)"

definition wf_tid_clockid :: "bytes \<Rightarrow> 32 word" where
  "wf_tid_clockid tid =
     (case wf_tid_decode tid of Inl _ \<Rightarrow> 0 | Inr value \<Rightarrow> ucast (value AND 0x3FF))"

section \<open>The clock\<close>

text \<open>
  The static variables of \<^verbatim>\<open>tid.c\<close>. A call runs under the mutex, so it is one step; what the
  operating system supplies (the wall clock and a random number) are its arguments.
\<close>

record tid_clock =
  wf_tid_last_ts :: u64
  wf_tid_clock :: "32 word"
  wf_tid_initialized :: bool

definition tid_clock_init :: tid_clock where
  "tid_clock_init = \<lparr>wf_tid_last_ts = 0, wf_tid_clock = 0, wf_tid_initialized = False\<rparr>"

definition wf_tid_now :: "u64 \<Rightarrow> 32 word \<Rightarrow> tid_clock \<Rightarrow> tid_clock \<times> bytes" where
  "wf_tid_now now_micros rnd s =
     (let s1 = (if wf_tid_initialized s then s
                else s\<lparr>wf_tid_clock := rnd AND 0x3FF, wf_tid_initialized := True\<rparr>);
          now = (if now_micros \<le> wf_tid_last_ts s1 then wf_tid_last_ts s1 + 1 else now_micros);
          s2 = s1\<lparr>wf_tid_last_ts := now\<rparr>
      in (s2, wf_tid_encode (tid_value now (wf_tid_clock s2))))"

section \<open>The alphabet\<close>

lemma S32_length [simp]: "length WF_TID_S32 = 32"
  by (simp add: WF_TID_S32_def ascii_def)

lemma all_less_32:
  assumes "\<forall>i \<in> set [0..<32]. Q i" "i < 32"
  shows "Q i"
  using assms by auto

lemma S32_index:
  assumes "i < 32"
  shows "wf_tid_s32_index (WF_TID_S32 ! i) = int i"
proof -
  have "\<forall>i \<in> set [0..<32]. wf_tid_s32_index (WF_TID_S32 ! i) = int i"
    by code_simp
  then show ?thesis using assms by (rule all_less_32)
qed

lemma S32_sorted: "sorted_wrt (<) WF_TID_S32"
  by code_simp

lemma S32_less_iff:
  assumes "i < 32" "j < 32"
  shows "WF_TID_S32 ! i < WF_TID_S32 ! j \<longleftrightarrow> i < j"
  using sorted_wrt_nth_less [OF S32_sorted, of i j] sorted_wrt_nth_less [OF S32_sorted, of j i] assms
  by (metis S32_length linorder_less_linear order_less_asym)

text \<open>The characters of an encoding as digits in base 32.\<close>

fun s32_digits :: "nat \<Rightarrow> nat \<Rightarrow> nat list" where
  "s32_digits 0 u = []"
| "s32_digits (Suc n) u = s32_digits n (u div 32) @ [u mod 32]"

lemma s32_digits_less: "list_all (\<lambda>d. d < 32) (s32_digits n u)"
  by (induction n arbitrary: u) auto

lemma length_s32_digits [simp]: "length (s32_digits n u) = n"
  by (induction n arbitrary: u) auto

lemma s32_digits_num: "digits_num 32 (s32_digits n u) = u mod 32 ^ n"
proof (induction n arbitrary: u)
  case (Suc n)
  have "u mod 32 ^ Suc n = 32 * (u div 32 mod 32 ^ n) + u mod 32"
    using mod_mult2_eq [of u 32 "32 ^ n"] by simp
  then show ?case by (simp add: digits_num_snoc Suc)
qed simp

lemma encode_loop_digits:
  "tid_encode_loop n v = map ((!) WF_TID_S32) (s32_digits n (unat v))"
proof (induction n arbitrary: v)
  case (Suc n)
  have "unat (drop_bit 5 v) = unat v div 32"
    by (simp add: unat_div drop_bit_eq_div)
  moreover have "(31 :: u64) = mask 5" by (simp add: mask_eq_exp_minus_1)
  then have "unat (v AND 31) = unat v mod 32"
    by (simp only: take_bit_eq_mask [symmetric] unsigned_take_bit_eq) (simp add: take_bit_eq_mod)
  ultimately show ?case by (simp add: Suc)
qed simp

lemma map_S32_less_iff:
  assumes "list_all (\<lambda>d. d < 32) xs" "list_all (\<lambda>d. d < 32) ys" "length xs = length ys"
  shows "map ((!) WF_TID_S32) xs < map ((!) WF_TID_S32) ys \<longleftrightarrow> xs < ys"
  using assms(3,1,2)
proof (induction xs ys rule: list_induct2)
  case (Cons x xs y ys)
  then have "WF_TID_S32 ! x = WF_TID_S32 ! y \<longleftrightarrow> x = y"
    using S32_less_iff [of x y] S32_less_iff [of y x] by auto
  with Cons show ?case by (simp add: S32_less_iff)
qed simp

lemma decode_loop_digits:
  assumes "list_all (\<lambda>d. d < 32) ds"
  shows "tid_decode_loop v (map ((!) WF_TID_S32) ds) =
           Inr (of_nat (unat v * 32 ^ length ds + digits_num 32 ds))"
  using assms
proof (induction ds arbitrary: v)
  case (Cons d ds)
  then have d: "d < 32" by simp
  have "(of_nat d :: u64) = take_bit 5 (of_nat d)"
    using d by (simp add: take_bit_of_nat take_bit_nat_eq_self)
  then have "push_bit 5 v OR of_nat d = push_bit 5 v + (of_nat d :: u64)"
    by (intro disjunctive_add [symmetric]) (metis bit_push_bit_iff bit_take_bit_iff not_le)
  then have step: "push_bit 5 v OR word_of_int (int d) = (of_nat (unat v * 32 + d) :: u64)"
    by (simp add: push_bit_eq_mult)
  have "(of_nat (unat (of_nat (unat v * 32 + d) :: u64) * 32 ^ length ds + digits_num 32 ds) :: u64)
      = of_nat ((unat v * 32 + d) * 32 ^ length ds + digits_num 32 ds)"
    by simp
  with Cons d step show ?case
    by (simp add: Let_def S32_index digits_num_Cons algebra_simps)
qed simp

section \<open>Round trip, order and the clock\<close>

lemma unat_less_32_13: "unat (v :: u64) < 32 ^ 13"
  using unsigned_less [of v, where ?'a = nat] by simp

lemma tid_num: "digits_num 32 (s32_digits 13 (unat (v :: u64))) = unat v"
  using s32_digits_num [of 13 "unat v"] unat_less_32_13 [of v] by simp

lemma length_tid_encode: "length (wf_tid_encode v) = 13"
  by (simp add: wf_tid_encode_def encode_loop_digits)

lemma tid_decode_encode: "wf_tid_decode (wf_tid_encode v) = Inr v"
  using decode_loop_digits [OF s32_digits_less, of 0 13 "unat v"]
  by (simp add: wf_tid_decode_def wf_tid_encode_def encode_loop_digits tid_num)

lemma tid_encode_less_iff: "wf_tid_encode v < wf_tid_encode w \<longleftrightarrow> v < w"
proof -
  have "wf_tid_encode v < wf_tid_encode w \<longleftrightarrow> s32_digits 13 (unat v) < s32_digits 13 (unat w)"
    by (simp only: wf_tid_encode_def encode_loop_digits)
      (rule map_S32_less_iff, simp_all add: s32_digits_less)
  also have "\<dots> \<longleftrightarrow> unat v < unat w"
    using digits_num_less_iff [OF s32_digits_less [of 13 "unat v"] s32_digits_less [of 13 "unat w"]]
    by (simp add: tid_num)
  finally show ?thesis by (simp add: word_less_nat_alt)
qed

lemma mask10: "(0x3FF :: 'a::len word) = mask 10"
  by (simp add: mask_eq_exp_minus_1)

text \<open>The timestamp fits the 54 bits left of the clock id; the code relies on it.\<close>

lemma tid_value_unat:
  assumes "unat t < 2 ^ 54"
  shows "unat (tid_value t c) = unat t * 1024 + unat (c AND 0x3FF)"
    and "unat (c AND 0x3FF) < 1024"
proof -
  have "unat (c AND 0x3FF) = unat c mod 1024"
    unfolding mask10 by (simp only: take_bit_eq_mask [symmetric] unsigned_take_bit_eq)
      (simp add: take_bit_eq_mod)
  then show b: "unat (c AND 0x3FF) < 1024" by simp
  have "push_bit 10 t OR ucast (c AND 0x3FF) = push_bit 10 t + (ucast (c AND 0x3FF) :: u64)"
    unfolding mask10 by (intro disjunctive_add [symmetric]) (auto simp: bit_simps)
  also have "\<dots> = of_nat (unat t * 1024 + unat (c AND 0x3FF))"
    by (simp add: push_bit_eq_mult)
  finally have "tid_value t c = of_nat (unat t * 1024 + unat (c AND 0x3FF))"
    by (simp add: tid_value_def)
  moreover have "unat t * 1024 + unat (c AND 0x3FF) < 2 ^ 64" using assms b by simp
  ultimately show "unat (tid_value t c) = unat t * 1024 + unat (c AND 0x3FF)"
    using unat_of_nat_u64 by metis
qed

lemma tid_value_mono:
  assumes "t < t'" "unat t' < 2 ^ 54"
  shows "tid_value t c < tid_value t' c'"
proof -
  have t: "unat t < unat t'" using assms(1) by (simp add: word_less_nat_alt)
  then show ?thesis
    using tid_value_unat [of t c] tid_value_unat [of t' c'] assms(2)
    by (simp add: word_less_nat_alt)
qed

lemma tid_fields:
  assumes "unat t < 2 ^ 54"
  shows "drop_bit 10 (tid_value t c) = t" "ucast (tid_value t c AND 0x3FF) = c AND 0x3FF"
proof -
  have t: "bit t n \<Longrightarrow> n < 54" for n
  proof (rule ccontr)
    assume "bit t n" "\<not> n < 54"
    moreover have "drop_bit 54 t = 0"
      using assms by (simp add: drop_bit_eq_div word_unat_eq_iff unat_div)
    then have "\<not> bit (drop_bit 54 t) (n - 54)" by simp
    ultimately show False by (simp add: bit_simps)
  qed
  show "drop_bit 10 (tid_value t c) = t"
    unfolding tid_value_def mask10 by (rule bit_word_eqI) (use t in \<open>auto simp: bit_simps\<close>)
  show "ucast (tid_value t c AND 0x3FF) = c AND 0x3FF"
    unfolding tid_value_def mask10 by (rule bit_word_eqI) (auto simp: bit_simps)
qed

text \<open>A sequence of calls, each with the wall clock and random number it sees.\<close>

fun tid_run :: "(u64 \<times> 32 word) list \<Rightarrow> tid_clock \<Rightarrow> bytes list" where
  "tid_run [] s = []"
| "tid_run ((now, rnd) # calls) s =
     (let (s', tid) = wf_tid_now now rnd s in tid # tid_run calls s')"

lemma tid_now_step:
  assumes "unat (wf_tid_last_ts s) + 1 < 2 ^ 54" "unat now < 2 ^ 54"
  obtains s' t where "wf_tid_now now rnd s = (s', wf_tid_encode (tid_value t (wf_tid_clock s')))"
    "wf_tid_last_ts s' = t" "wf_tid_last_ts s < t" "unat t < 2 ^ 54"
    "unat t \<le> max (unat (wf_tid_last_ts s) + 1) (unat now)"
proof -
  let ?t = "if now \<le> wf_tid_last_ts s then wf_tid_last_ts s + 1 else now"
  have u: "unat (wf_tid_last_ts s + 1) = unat (wf_tid_last_ts s) + 1"
    using assms(1) unat_of_nat_u64 [of "unat (wf_tid_last_ts s) + 1"] by (simp add: add.commute)
  then have "wf_tid_last_ts s < ?t" "unat ?t < 2 ^ 54"
    "unat ?t \<le> max (unat (wf_tid_last_ts s) + 1) (unat now)"
    using assms by (auto simp: word_less_nat_alt word_le_nat_alt)
  then show thesis
    by (intro that [of "(fst (wf_tid_now now rnd s))" ?t]) (auto simp: wf_tid_now_def Let_def)
qed

lemma tid_run_sorted:
  assumes "\<And>now rnd. (now, rnd) \<in> set calls \<Longrightarrow> unat now + length calls < 2 ^ 54"
    "unat (wf_tid_last_ts s) + length calls < 2 ^ 54"
  shows "sorted_wrt (<) (tid_run calls s) \<and>
    (\<forall>tid \<in> set (tid_run calls s). \<exists>t c. tid = wf_tid_encode (tid_value t c) \<and> wf_tid_last_ts s < t \<and> unat t < 2 ^ 54)"
  using assms
proof (induction calls arbitrary: s)
  case (Cons call calls)
  obtain now rnd where call: "call = (now, rnd)" by (cases call)
  have now: "unat now + Suc (length calls) < 2 ^ 54" using Cons.prems(1) by (auto simp: call)
  obtain s' t where step: "wf_tid_now now rnd s = (s', wf_tid_encode (tid_value t (wf_tid_clock s')))"
    "wf_tid_last_ts s' = t" "wf_tid_last_ts s < t" "unat t < 2 ^ 54"
    "unat t \<le> max (unat (wf_tid_last_ts s) + 1) (unat now)"
    using now Cons.prems(2) by (auto intro: tid_now_step [of s now rnd])
  have IH: "sorted_wrt (<) (tid_run calls s') \<and> (\<forall>tid \<in> set (tid_run calls s').
      \<exists>t c. tid = wf_tid_encode (tid_value t c) \<and> wf_tid_last_ts s' < t \<and> unat t < 2 ^ 54)"
  proof (rule Cons.IH)
    fix n r
    assume "(n, r) \<in> set calls"
    then show "unat n + length calls < 2 ^ 54" using Cons.prems(1) [of n r] by simp
  qed (use step(2,5) now Cons.prems(2) in auto)
  have run: "tid_run (call # calls) s = wf_tid_encode (tid_value t (wf_tid_clock s')) # tid_run calls s'"
    using step(1) by (simp add: call)
  have later: "\<exists>u c. tid = wf_tid_encode (tid_value u c) \<and> t < u \<and> unat u < 2 ^ 54"
    if "tid \<in> set (tid_run calls s')" for tid
    using IH that step(2) by blast
  then have "wf_tid_encode (tid_value t (wf_tid_clock s')) < tid"
    if "tid \<in> set (tid_run calls s')" for tid
    using that by (metis tid_encode_less_iff tid_value_mono)
  moreover have "\<exists>u c. tid = wf_tid_encode (tid_value u c) \<and> wf_tid_last_ts s < u \<and> unat u < 2 ^ 54"
    if "tid \<in> set (tid_run calls s')" for tid
    using later [OF that] step(3) by (blast intro: less_trans)
  ultimately show ?case
    unfolding run using IH step(3,4) by auto
qed simp

section \<open>Properties\<close>

text \<open>
  TID encoding round-trips. Every 64-bit value encodes to 13 characters that decode to it, and
  a TID built from a timestamp of at most 54 bits and a clock id gives both back (the clock id
  masked to 10 bits).
\<close>

theorem tid_roundtrip:
  assumes "unat t < 2 ^ 54"
  shows "length (wf_tid_encode v) = 13 \<and> wf_tid_decode (wf_tid_encode v) = Inr v \<and>
     wf_tid_timestamp_micros (wf_tid_from_time t c) = t \<and>
     wf_tid_clockid (wf_tid_from_time t c) = c AND 0x3FF"
  using tid_fields [OF assms, of c]
  by (simp add: tid_decode_encode wf_tid_timestamp_micros_def wf_tid_clockid_def
      wf_tid_from_time_def length_tid_encode)

theorem tid_roundtrip_witness:
  "unat (1700000000000000 :: u64) < 2 ^ 54 \<and>
     wf_tid_timestamp_micros (wf_tid_from_time 1700000000000000 1030) = 1700000000000000 \<and>
     wf_tid_clockid (wf_tid_from_time 1700000000000000 1030) = 6"
  using tid_roundtrip [of 1700000000000000 0 1030] by simp

text \<open>
  TIDs sort as their values: comparing two encodings byte by byte is comparing the 64-bit
  values, and a later timestamp gives a greater TID whatever the clock ids.
\<close>

theorem tid_order:
  assumes "t < t'" "unat t' < 2 ^ 54"
  shows "(wf_tid_encode v < wf_tid_encode w \<longleftrightarrow> v < w) \<and>
     wf_tid_from_time t c < wf_tid_from_time t' c'"
  using tid_value_mono [OF assms]
  by (simp add: tid_encode_less_iff wf_tid_from_time_def)

theorem tid_order_witness:
  "(5 :: u64) < 6 \<and> wf_tid_from_time 5 1023 < wf_tid_from_time 6 0"
  using tid_order [of 5 6 0 0 1023 0] by simp

text \<open>
  C33: The TID clock is strictly monotonic as long as the readings of the wall clock, with one microsecond
  for each call added, stay below 2^54 microseconds after 1970 (the year 2540): over any sequence of
  such calls from process start, even when the wall clock stands still or runs backwards, the TIDs
  returned are strictly increasing strings, hence distinct.
\<close>

theorem tid_clock_monotonic:
  assumes "\<And>now rnd. (now, rnd) \<in> set calls \<Longrightarrow> unat now + length calls < 2 ^ 54"
    "length calls < 2 ^ 54"
  shows "sorted_wrt (<) (tid_run calls tid_clock_init)"
  using tid_run_sorted [of calls tid_clock_init] assms by (simp add: tid_clock_init_def)

theorem tid_clock_monotonic_witness:
  "sorted_wrt (<) (tid_run [(1000, 7), (1000, 8), (900, 9), (2000, 1)] tid_clock_init)"
  by (rule tid_clock_monotonic) auto

text \<open>
  The bound is needed: the shift by ten bits drops the upper bits of a later time (a time before 1970
  is such a time, being cast to an unsigned number), and the next TID sorts below its predecessor.
\<close>

lemma tid_clock_wraps:
  "snd (wf_tid_now (2 ^ 54) 0 (fst (wf_tid_now (2 ^ 54 - 1) 0 tid_clock_init))) <
   snd (wf_tid_now (2 ^ 54 - 1) 0 tid_clock_init)"
  by code_simp

end
