(* ===== verification/Car.thy ===== *)
theory Car
  imports Ref_Platform Cid
begin

unbundle bit_operations_syntax

text \<open>
  CAR v1 archives (\<^verbatim>\<open>src/repo/car.c\<close>): the parser with its length guards, the block lookup, and the
  writer with its size pass. A \<^verbatim>\<open>wf_car\<close> is the list of its roots and the list of its blocks; the
  growth of the block array has no counterpart.
\<close>

section \<open>Model\<close>

record wf_car_block =
  blk_cid :: wf_cid
  blk_data :: bytes

record wf_car =
  car_roots :: "wf_cid list"
  car_blocks :: "wf_car_block list"

text \<open>The loop over the header's pairs: the version is checked where it occurs, the last \<open>roots\<close> wins.\<close>

fun car_header_loop ::
  "(wf_cbor_item \<times> wf_cbor_item) list \<Rightarrow> wf_cbor_item list option \<Rightarrow> wf_cbor_item list option res" where
  "car_header_loop [] roots_arr = Inr roots_arr"
| "car_header_loop ((k, v) # ps) roots_arr =
     (if k = WF_CBOR_STRING (ascii ''version'')
      then if v = WF_CBOR_UNSIGNED 1 then car_header_loop ps roots_arr else Inl WF_ERR_INVALID_ARG
      else if k = WF_CBOR_STRING (ascii ''roots'')
      then case v of
             WF_CBOR_ARRAY xs \<Rightarrow> car_header_loop ps (Some xs)
           | _ \<Rightarrow> Inl WF_ERR_INVALID_ARG
      else car_header_loop ps roots_arr)"

fun car_root_loop :: "wf_cbor_item list \<Rightarrow> wf_cid list res" where
  "car_root_loop [] = Inr []"
| "car_root_loop (x # xs) =
     (case x of
        WF_CBOR_LINK c \<Rightarrow>
          (if length c \<noteq> 36 then Inl WF_ERR_INVALID_ARG
           else case car_root_loop xs of Inl e \<Rightarrow> Inl e | Inr cs \<Rightarrow> Inr (c # cs))
      | _ \<Rightarrow> Inl WF_ERR_INVALID_ARG)"

function car_block_loop :: "bytes \<Rightarrow> wf_car_block list res" where
  "car_block_loop data =
     (if data = [] then Inr []
      else
        let (section_len, used) = wf_read_varint data; rest = drop used data
        in if used = 0 then Inl WF_ERR_INVALID_ARG
           else if length rest < unat section_len then Inl WF_ERR_INVALID_ARG
           else if section_len < 36 then Inl WF_ERR_INVALID_ARG
           else
             let sec = take (unat section_len) rest
             in case car_block_loop (drop (unat section_len) rest) of
                  Inl e \<Rightarrow> Inl e
                | Inr bs \<Rightarrow> Inr (\<lparr>blk_cid = take 36 sec, blk_data = drop 36 sec\<rparr> # bs))"
  by pat_completeness auto
termination
  by (relation "measure length") auto

declare car_block_loop.simps [simp del]

definition wf_car_parse :: "platform \<Rightarrow> bytes \<Rightarrow> wf_car res" where
  "wf_car_parse P data =
     (if data = [] then Inl WF_ERR_INVALID_ARG
      else
        let (hdr_len, used) = wf_read_varint data; rest = drop used data
        in if used = 0 then Inl WF_ERR_INVALID_ARG
           else if length rest < unat hdr_len then Inl WF_ERR_INVALID_ARG
           else case wf_cbor_parse P (take (unat hdr_len) rest) of
                  Some (WF_CBOR_MAP pairs) \<Rightarrow>
                    (case car_header_loop pairs None of
                       Inl e \<Rightarrow> Inl e
                     | Inr None \<Rightarrow> Inl WF_ERR_INVALID_ARG
                     | Inr (Some roots_arr) \<Rightarrow>
                         (case car_root_loop roots_arr of
                            Inl e \<Rightarrow> Inl e
                          | Inr roots \<Rightarrow>
                              (case car_block_loop (drop (unat hdr_len) rest) of
                                 Inl e \<Rightarrow> Inl e
                               | Inr blocks \<Rightarrow> Inr \<lparr>car_roots = roots, car_blocks = blocks\<rparr>)))
                | _ \<Rightarrow> Inl WF_ERR_INVALID_ARG)"

definition wf_car_find_block :: "wf_car \<Rightarrow> wf_cid \<Rightarrow> wf_car_block option" where
  "wf_car_find_block car cid =
     find (\<lambda>b. length (blk_cid b) = length cid \<and> memcmp (blk_cid b) cid = 0) (car_blocks car)"

text \<open>
  The writer copies the 36 bytes of the CID array whatever its \<^verbatim>\<open>len\<close>; a shorter CID leaves the rest
  of its (zero-initialised) array.
\<close>

definition cid_array :: "wf_cid \<Rightarrow> bytes" where
  "cid_array c = take 36 (c @ replicate 36 0)"

definition car_hdr_size :: "wf_car \<Rightarrow> nat" where
  "car_hdr_size car =
     1 + (1 + 5) + (if length (car_roots car) \<le> 23 then 1 else 2) +
     length (car_roots car) * (4 + 1 + 36) + (1 + 7 + 1)"

function varint_size :: "u64 \<Rightarrow> nat" where
  "varint_size v = (let v' = drop_bit 7 v in if 0 < v' then Suc (varint_size v') else 1)"
  by pat_completeness auto
termination
proof (relation "measure unat", goal_cases)
  case (2 v x)
  then have "v \<noteq> 0" by auto
  then have "0 < unat v" by (simp add: unat_gt_0)
  with 2 show ?case by (simp add: unat_drop7)
qed auto

declare varint_size.simps [simp del]

definition wf_car_write_size :: "wf_car \<Rightarrow> nat" where
  "wf_car_write_size car =
     (let hdr_cbor = car_hdr_size car
      in varint_size (of_nat hdr_cbor) + hdr_cbor +
         sum_list (map (\<lambda>b. let blk_total = 36 + length (blk_data b)
                            in varint_size (of_nat blk_total) + blk_total) (car_blocks car)))"

definition car_hdr_bytes :: "wf_car \<Rightarrow> bytes" where
  "car_hdr_bytes car =
     [0xA2, 0x65] @ ascii ''roots'' @
     (if length (car_roots car) \<le> 23 then [0x80 OR of_nat (length (car_roots car))]
      else [0x98, of_nat (length (car_roots car))]) @
     concat (map (\<lambda>c. [0xD8, 0x2A, 0x58, 0x25, 0x00] @ cid_array c) (car_roots car)) @
     [0x67] @ ascii ''version'' @ [0x01]"

definition car_block_bytes :: "wf_car_block \<Rightarrow> bytes" where
  "car_block_bytes b =
     varint_bytes (of_nat (36 + length (blk_data b))) @ cid_array (blk_cid b) @ blk_data b"

definition wf_car_write :: "wf_car \<Rightarrow> bytes" where
  "wf_car_write car =
     varint_bytes (of_nat (car_hdr_size car)) @ car_hdr_bytes car @
     concat (map car_block_bytes (car_blocks car))"

section \<open>The writer fills its buffer exactly\<close>

lemma length_cid_array [simp]: "length (cid_array c) = 36"
  by (simp add: cid_array_def)

lemma cid_array_36: "length c = 36 \<Longrightarrow> cid_array c = c"
  by (simp add: cid_array_def)

lemma varint_size: "varint_size v = length (varint_bytes v)"
proof (induction v rule: varint_size.induct)
  case (1 v)
  then show ?case by (subst varint_size.simps, subst varint_bytes.simps) (simp add: Let_def)
qed

lemma length_car_hdr_bytes: "length (car_hdr_bytes car) = car_hdr_size car"
proof -
  have "length (concat (map (\<lambda>c. [0xD8, 0x2A, 0x58, 0x25, 0x00] @ cid_array c) cs)) = length cs * 41"
    for cs by (induction cs) auto
  then show ?thesis by (simp add: car_hdr_bytes_def car_hdr_size_def ascii_def)
qed

lemma length_car_block_bytes:
  "length (car_block_bytes b) =
     varint_size (of_nat (36 + length (blk_data b))) + (36 + length (blk_data b))"
  by (simp add: car_block_bytes_def varint_size)

lemma length_wf_car_write: "length (wf_car_write car) = wf_car_write_size car"
  unfolding wf_car_write_def wf_car_write_size_def Let_def length_append length_concat map_map
    comp_def length_car_block_bytes length_car_hdr_bytes varint_size by simp

section \<open>Valid CIDs\<close>

text \<open>
  The CIDs that repository blocks and blobs carry: 36 bytes with the CIDv1 prefix. They pass the
  validity check that DAG-CBOR links are held to.
\<close>

definition cid_ok :: "wf_cid \<Rightarrow> bool" where
  "cid_ok c \<longleftrightarrow> length c = 36 \<and> wf_cbor_cid_valid c"

lemma cid_ok_from_hash_codec:
  assumes "length h = 32" "codec = 0x71 \<or> codec = 0x55"
  shows "cid_ok (wf_cid_from_hash_codec h codec)"
proof -
  have "wf_cbor_varint (b # xs) = Some (ucast b, 1)" if "b AND 0x80 = 0" for b xs
    using that by (simp add: wf_cbor_varint_def byte_no_top)
  then show ?thesis
    using assms by (auto simp: cid_ok_def wf_cid_from_hash_codec_def wf_cbor_cid_valid_def)
qed

context platform_laws
begin

lemma cid_ok_of_block:
  "wf_cid_of_block P d = Inr c \<Longrightarrow> cid_ok c"
  by (auto simp: wf_cid_of_block_def wf_cid_from_hash_def sha256_length intro!: cid_ok_from_hash_codec
      split: if_splits)

end

section \<open>Round trip\<close>

definition car_hdr_item :: "wf_car \<Rightarrow> wf_cbor_item" where
  "car_hdr_item car =
     WF_CBOR_MAP [(WF_CBOR_STRING (ascii ''roots''), WF_CBOR_ARRAY (map WF_CBOR_LINK (car_roots car))),
                  (WF_CBOR_STRING (ascii ''version''), WF_CBOR_UNSIGNED 1)]"

text \<open>The archives that survive a round trip: CIDs of full length, valid roots, few enough of them
  for a one-byte count, and blocks whose length fits the varint.\<close>

definition car_writable :: "wf_car \<Rightarrow> bool" where
  "car_writable car \<longleftrightarrow> length (car_roots car) \<le> 255 \<and> list_all cid_ok (car_roots car) \<and>
     list_all (\<lambda>b. length (blk_cid b) = 36 \<and> 36 + length (blk_data b) < 2 ^ 64) (car_blocks car)"

lemma write_item_link_36:
  "length c = 36 \<Longrightarrow> wf_cbor_ser_write_item (WF_CBOR_LINK c) = [0xD8, 0x2A, 0x58, 0x25, 0x00] @ c"
  by (simp add: wf_cbor_ser_write_uint_def Let_def push_bit_eq_mult)

lemma array_head:
  assumes "n \<le> 255"
  shows "wf_cbor_ser_write_uint 4 (of_nat n) = (if n \<le> 23 then [0x80 OR of_nat n] else [0x98, of_nat n])"
proof -
  have u: "unat (of_nat n :: u64) = n" using assms by (intro unat_of_nat_u64) simp
  have "(ucast (of_nat n :: u64) :: byte) = of_nat n"
    by (rule word_unat_eq_iff [THEN iffD2]) (simp add: unsigned_ucast_eq take_bit_eq_mod unat_of_nat mod_mod_cancel)
  moreover have "(of_nat n :: u64) \<le> 23 \<longleftrightarrow> n \<le> 23" "(of_nat n :: u64) \<le> 0xff"
    using assms by (simp_all add: word_le_nat_alt u)
  ultimately show ?thesis by (simp add: wf_cbor_ser_write_uint_def Let_def push_bit_eq_mult)
qed

lemma car_hdr_bytes_item:
  assumes "car_writable car"
  shows "car_hdr_bytes car = wf_cbor_ser_write_item (car_hdr_item car)"
proof -
  have roots: "concat (map (\<lambda>c. [0xD8, 0x2A, 0x58, 0x25, 0x00] @ cid_array c) cs) =
    concat (map wf_cbor_ser_write_item (map WF_CBOR_LINK cs))" if "list_all cid_ok cs" for cs
    using that by (induction cs)
      (auto simp: cid_ok_def cid_array_36 write_item_link_36 simp del: wf_cbor_ser_write_item.simps)
  have sort: "qsort wf_cbor_pair_key_cmp
      [(WF_CBOR_STRING (ascii ''roots''), v), (WF_CBOR_STRING (ascii ''version''), w)] =
      [(WF_CBOR_STRING (ascii ''roots''), v), (WF_CBOR_STRING (ascii ''version''), w)]" for v w
  proof -
    have "wf_cbor_item_key_cmp (WF_CBOR_STRING (ascii ''roots'')) (WF_CBOR_STRING (ascii ''version'')) \<le> 0"
      by code_simp
    then show ?thesis by (simp add: qsort_def wf_cbor_pair_key_cmp_def)
  qed
  have str: "wf_cbor_ser_write_item (WF_CBOR_STRING (ascii ''roots'')) = 0x65 # ascii ''roots''"
    "wf_cbor_ser_write_item (WF_CBOR_STRING (ascii ''version'')) = 0x67 # ascii ''version''"
    "wf_cbor_ser_write_uint 5 2 = [0xA2]" "wf_cbor_ser_write_item (WF_CBOR_UNSIGNED 1) = [0x01]"
    by code_simp+
  have arr: "wf_cbor_ser_write_item (WF_CBOR_ARRAY (map WF_CBOR_LINK (car_roots car))) =
    (if length (car_roots car) \<le> 23 then [0x80 OR of_nat (length (car_roots car))]
      else [0x98, of_nat (length (car_roots car))]) @
    concat (map wf_cbor_ser_write_item (map WF_CBOR_LINK (car_roots car)))"
    using array_head [of "length (car_roots car)"] assms by (simp add: car_writable_def)
  show ?thesis
    unfolding car_hdr_item_def wf_cbor_ser_write_map sort
    using assms roots [of "car_roots car"]
    by (simp add: str arr car_hdr_bytes_def car_writable_def del: wf_cbor_ser_write_item.simps)
qed

lemma car_block_loop_write:
  assumes "list_all (\<lambda>b. length (blk_cid b) = 36 \<and> 36 + length (blk_data b) < 2 ^ 64) bs"
  shows "car_block_loop (concat (map car_block_bytes bs)) = Inr bs"
  using assms
proof (induction bs)
  case (Cons b bs)
  let ?n = "36 + length (blk_data b)"
  let ?rest = "concat (map car_block_bytes bs)"
  let ?v = "varint_bytes (of_nat ?n)"
  have n: "unat (of_nat ?n :: u64) = ?n" using Cons.prems by (intro unat_of_nat_u64) simp
  have read: "wf_read_varint (car_block_bytes b @ ?rest) = (of_nat ?n, length ?v)"
    by (simp add: wf_read_varint_def wf_cbor_varint_bytes [unfolded wf_cbor_varint_def] car_block_bytes_def)
  have ne: "car_block_bytes b \<noteq> []" "length ?v \<noteq> 0"
    using varint_size [of "of_nat ?n"] varint_size.simps [of "of_nat ?n"]
    by (auto simp: car_block_bytes_def Let_def split: if_splits)
  have drop: "drop (length ?v) (car_block_bytes b @ ?rest) = blk_cid b @ blk_data b @ ?rest"
    using Cons.prems by (simp add: car_block_bytes_def cid_array_36)
  have "\<not> (of_nat ?n :: u64) < 36" by (simp add: word_less_nat_alt n del: of_nat_add)
  with ne read drop n Cons show ?case
    by (subst car_block_loop.simps) (simp add: Let_def del: of_nat_add)
qed (simp add: car_block_loop.simps)

lemma car_root_loop_links:
  "list_all cid_ok cs \<Longrightarrow> car_root_loop (map WF_CBOR_LINK cs) = Inr cs"
  by (induction cs) (auto simp: cid_ok_def)

lemma car_hdr_nesting: "cbor_nesting (to_libcbor (car_hdr_item car)) \<le> 65"
proof -
  have "Max (insert 0 (cbor_nesting ` (to_libcbor ` WF_CBOR_LINK ` set cs))) \<le> 2" for cs
    by (subst Max_le_iff) auto
  then show ?thesis
    by (simp add: car_hdr_item_def image_image)
qed

context platform_laws
begin

lemma car_hdr_canonical:
  assumes "car_writable car"
  shows "canonical P (car_hdr_item car)"
proof -
  have "cbor_string_codepoint_count P (ascii ''roots'') = 5"
    "cbor_string_codepoint_count P (ascii ''version'') = 7"
    by (subst codepoints_ascii; simp add: ascii_def)+
  moreover have "rfc_enc (to_libcbor (WF_CBOR_STRING (ascii ''roots''))) <
      rfc_enc (to_libcbor (WF_CBOR_STRING (ascii ''version'')))"
    by code_simp
  ultimately show ?thesis
    using assms by (auto simp: car_hdr_item_def car_writable_def list_all_iff cid_ok_def ascii_def)
qed

lemma car_parse_write:
  assumes "car_writable car"
  shows "wf_car_parse P (wf_car_write car) = Inr car"
proof -
  let ?h = "car_hdr_size car" and ?bs = "concat (map car_block_bytes (car_blocks car))"
  let ?v = "varint_bytes (of_nat ?h)"
  have "length (car_roots car) \<le> 255" using assms by (simp add: car_writable_def)
  then have "?h < 2 ^ 64" by (simp add: car_hdr_size_def)
  then have n: "unat (of_nat ?h :: u64) = ?h" by (rule unat_of_nat_u64)
  have read: "wf_read_varint (wf_car_write car) = (of_nat ?h, length ?v)"
    by (simp add: wf_read_varint_def wf_cbor_varint_bytes [unfolded wf_cbor_varint_def] wf_car_write_def)
  have ne: "wf_car_write car \<noteq> []" "length ?v \<noteq> 0"
    using varint_size [of "of_nat ?h"] varint_size.simps [of "of_nat ?h"]
    by (auto simp: wf_car_write_def Let_def split: if_splits)
  have drop: "drop (length ?v) (wf_car_write car) = car_hdr_bytes car @ ?bs"
    by (simp add: wf_car_write_def)
  have hdr: "wf_cbor_parse P (car_hdr_bytes car) = Some (car_hdr_item car)"
    unfolding car_hdr_bytes_item [OF assms]
    by (rule parse_write [OF car_hdr_canonical [OF assms] car_hdr_nesting])
  have loop: "car_header_loop [(WF_CBOR_STRING (ascii ''roots''), WF_CBOR_ARRAY xs),
      (WF_CBOR_STRING (ascii ''version''), WF_CBOR_UNSIGNED 1)] None = Inr (Some xs)" for xs
    by (simp add: ascii_def)
  have cond: "\<not> length (car_hdr_bytes car @ ?bs) < ?h" "take ?h (car_hdr_bytes car @ ?bs) = car_hdr_bytes car"
    "drop ?h (car_hdr_bytes car @ ?bs) = ?bs"
    by (simp_all add: length_car_hdr_bytes)
  have parts: "car_block_loop ?bs = Inr (car_blocks car)"
    "car_root_loop (map WF_CBOR_LINK (car_roots car)) = Inr (car_roots car)"
    using assms by (auto simp: car_writable_def intro: car_block_loop_write car_root_loop_links)
  show ?thesis
    unfolding wf_car_parse_def read prod.case Let_def drop n cond
    using ne by (simp add: hdr [unfolded car_hdr_item_def] car_hdr_item_def loop parts cond length_car_hdr_bytes del: car_header_loop.simps)
qed

end

section \<open>What the parser accepts\<close>

lemma read_varint_canonical:
  assumes "wf_read_varint d = (n, u)" "u \<noteq> 0"
  shows "d = varint_bytes n @ drop u d"
proof -
  have "wf_cbor_varint d = Some (n, u)"
    using assms by (auto simp: wf_read_varint_def wf_cbor_varint_def split: option.splits)
  then have "take u d = varint_bytes n" by (rule wf_cbor_varint_canonical)
  then show ?thesis using append_take_drop_id [of u d] by simp
qed

text \<open>The blocks that the loop returns are the input, section by section.\<close>

lemma car_block_loop_exact:
  "car_block_loop d = Inr bs \<Longrightarrow>
     list_all (\<lambda>b. length (blk_cid b) = 36) bs \<and> d = concat (map car_block_bytes bs)"
proof (induction d arbitrary: bs rule: car_block_loop.induct)
  case (1 d)
  show ?case
  proof (cases "d = []")
    case False
    obtain n u where r: "wf_read_varint d = (n, u)" by fastforce
    let ?rest = "drop u d"
    let ?sec = "take (unat n) ?rest"
    from 1 False r obtain bs' where b: "u \<noteq> 0" "\<not> length ?rest < unat n" "\<not> n < 36"
      "car_block_loop (drop (unat n) ?rest) = Inr bs'"
      "bs = \<lparr>blk_cid = take 36 ?sec, blk_data = drop 36 ?sec\<rparr> # bs'"
      by (auto simp: car_block_loop.simps [of d] Let_def split: if_splits sum.splits)
    have IH: "list_all (\<lambda>b. length (blk_cid b) = 36) bs'" "drop (unat n) ?rest = concat (map car_block_bytes bs')"
      using "1.IH" [OF False r [symmetric] refl refl] b by simp_all
    have n: "36 \<le> unat n" "length ?sec = unat n" using b(2,3) by (simp_all add: word_less_nat_alt)
    then have "of_nat (36 + length (drop 36 ?sec)) = n" by simp
    moreover have "cid_array (take 36 ?sec) = take 36 ?sec" using n by (intro cid_array_36) simp
    ultimately have "car_block_bytes \<lparr>blk_cid = take 36 ?sec, blk_data = drop 36 ?sec\<rparr> = varint_bytes n @ ?sec"
      unfolding car_block_bytes_def wf_car_block.simps by (simp only: append_take_drop_id)
    then have "d = car_block_bytes \<lparr>blk_cid = take 36 ?sec, blk_data = drop 36 ?sec\<rparr> @ drop (unat n) ?rest"
      using read_varint_canonical [OF r b(1)] append_take_drop_id [of "unat n" ?rest] by simp
    then show ?thesis using IH n b(5) by simp
  qed (use 1 in \<open>simp add: car_block_loop.simps\<close>)
qed

lemma car_root_loop_Inr:
  "car_root_loop xs = Inr cs \<Longrightarrow> xs = map WF_CBOR_LINK cs \<and> list_all (\<lambda>c. length c = 36) cs"
  by (induction xs arbitrary: cs) (auto split: wf_cbor_item.splits if_splits sum.splits)

lemma car_header_loop_roots:
  assumes "car_header_loop ps acc = Inr (Some xs)"
  shows "acc = Some xs \<or> (WF_CBOR_STRING (ascii ''roots''), WF_CBOR_ARRAY xs) \<in> set ps"
  using assms
  by (induction ps acc rule: car_header_loop.induct)
    (auto split: if_splits wf_cbor_item.splits)

text \<open>The parts of an archive that is accepted.\<close>

lemma wf_car_parse_exact:
  assumes "wf_car_parse P d = Inr car"
  obtains header pairs where
    "d = varint_bytes (of_nat (length header)) @ header @ concat (map car_block_bytes (car_blocks car))"
    "wf_cbor_parse P header = Some (WF_CBOR_MAP pairs)"
    "(WF_CBOR_STRING (ascii ''roots''), WF_CBOR_ARRAY (map WF_CBOR_LINK (car_roots car))) \<in> set pairs"
    "list_all (\<lambda>c. length c = 36) (car_roots car)" "list_all (\<lambda>b. length (blk_cid b) = 36) (car_blocks car)"
proof -
  obtain n u where r: "wf_read_varint d = (n, u)" by fastforce
  let ?rest = "drop u d"
  from assms r obtain pairs xs roots bs where
    u: "u \<noteq> 0" "\<not> length ?rest < unat n" and p: "wf_cbor_parse P (take (unat n) ?rest) = Some (WF_CBOR_MAP pairs)"
    and x: "car_header_loop pairs None = Inr (Some xs)" "car_root_loop xs = Inr roots"
    and bs: "car_block_loop (drop (unat n) ?rest) = Inr bs" and car: "car = \<lparr>car_roots = roots, car_blocks = bs\<rparr>"
    by (auto simp: wf_car_parse_def Let_def split: if_splits option.splits wf_cbor_item.splits sum.splits)
  have "of_nat (length (take (unat n) ?rest)) = n" using u(2) by simp
  then have "d = varint_bytes (of_nat (length (take (unat n) ?rest))) @ take (unat n) ?rest @ drop (unat n) ?rest"
    using read_varint_canonical [OF r u(1)] by (simp only: append_take_drop_id)
  moreover have "drop (unat n) ?rest = concat (map car_block_bytes bs)" "list_all (\<lambda>b. length (blk_cid b) = 36) bs"
    using car_block_loop_exact [OF bs] by auto
  moreover have "(WF_CBOR_STRING (ascii ''roots''), WF_CBOR_ARRAY (map WF_CBOR_LINK roots)) \<in> set pairs" "list_all (\<lambda>c. length c = 36) roots"
    using car_header_loop_roots [OF x(1)] car_root_loop_Inr [OF x(2)] by auto
  ultimately show thesis using that [of "take (unat n) ?rest" pairs] p by (simp only: car wf_car.simps)
qed

section \<open>Lookup\<close>

lemma wf_car_find_block_eq: "wf_car_find_block car c = find (\<lambda>b. blk_cid b = c) (car_blocks car)"
proof -
  have "(\<lambda>b. length (blk_cid b) = length c \<and> memcmp (blk_cid b) c = 0) = (\<lambda>b. blk_cid b = c)"
    by (auto simp: fun_eq_iff memcmp_eq_iff)
  then show ?thesis unfolding wf_car_find_block_def by (rule arg_cong)
qed

section \<open>Properties\<close>

text \<open>An archive with valid 36-byte CIDs and at most 255 roots, once written, parses back to the same
  roots and the same blocks in the same order.\<close>

theorem car_roundtrip:
  assumes "platform_laws P" "car_writable car"
  shows "wf_car_parse P (wf_car_write car) = Inr car"
  using assms by (rule platform_laws.car_parse_write)

definition car_example :: wf_car where
  "car_example =
     (let c = wf_cid_from_hash (replicate 32 7)
      in \<lparr>car_roots = [c], car_blocks = [\<lparr>blk_cid = c, blk_data = [0xa0]\<rparr>, \<lparr>blk_cid = c, blk_data = []\<rparr>]\<rparr>)"

lemma car_example_writable: "car_writable car_example"
  by (simp add: car_writable_def car_example_def Let_def wf_cid_from_hash_def cid_ok_from_hash_codec)
    (simp add: wf_cid_from_hash_codec_def)

theorem car_roundtrip_witness:
  "wf_car_parse (ref_platform toy_sha) (wf_car_write car_example) = Inr car_example"
  by (rule car_roundtrip [OF ref.platform_laws_axioms car_example_writable])

text \<open>The size pass of \<open>wf_car_write\<close> is exact: the bytes written are as many as were allocated, for
  every archive.\<close>

theorem car_write_exact: "length (wf_car_write car) = wf_car_write_size car"
  by (rule length_wf_car_write)

text \<open>
  C40: The parser accounts for every byte of an archive that it accepts: the input is the length of the
  header, the header, and for each block returned its section, in which the length announced is
  exactly that of a CID of 36 bytes and the data. So no section reaches beyond the input, none overlaps
  another and nothing is skipped. The roots are the links of the header's \<^verbatim>\<open>roots\<close>, of 36 bytes each, and a
  header without \<open>undefined\<close> is the encoding of its pairs, so they lie within it.
\<close>

theorem car_parse_bounds:
  assumes "platform_laws P" "wf_car_parse P d = Inr car"
  shows "\<exists>header pairs.
    d = varint_bytes (of_nat (length header)) @ header @
      concat (map (\<lambda>b. varint_bytes (of_nat (36 + length (blk_data b))) @ blk_cid b @ blk_data b) (car_blocks car)) \<and>
    list_all (\<lambda>b. length (blk_cid b) = 36) (car_blocks car) \<and>
    wf_cbor_parse P header = Some (WF_CBOR_MAP pairs) \<and>
    (WF_CBOR_STRING (ascii ''roots''), WF_CBOR_ARRAY (map WF_CBOR_LINK (car_roots car))) \<in> set pairs \<and>
    list_all (\<lambda>c. length c = 36) (car_roots car) \<and>
    (\<forall>c n. cbor_load P header = Some (c, n) \<and> no_undef c \<longrightarrow> wf_cbor_serialize (WF_CBOR_MAP pairs) = Some header)"
proof -
  obtain header pairs where h:
    "d = varint_bytes (of_nat (length header)) @ header @ concat (map car_block_bytes (car_blocks car))"
    "wf_cbor_parse P header = Some (WF_CBOR_MAP pairs)"
    "(WF_CBOR_STRING (ascii ''roots''), WF_CBOR_ARRAY (map WF_CBOR_LINK (car_roots car))) \<in> set pairs"
    "list_all (\<lambda>c. length c = 36) (car_roots car)" "list_all (\<lambda>b. length (blk_cid b) = 36) (car_blocks car)"
    using assms(2) by (rule wf_car_parse_exact)
  have blocks: "map car_block_bytes (car_blocks car) =
      map (\<lambda>b. varint_bytes (of_nat (36 + length (blk_data b))) @ blk_cid b @ blk_data b) (car_blocks car)"
    using h(5) by (auto simp: car_block_bytes_def list_all_iff cid_array_36)
  have "wf_cbor_serialize (WF_CBOR_MAP pairs) = Some header"
    if "cbor_load P header = Some (c, n)" "no_undef c" for c n
    using platform_laws.parse_sound [OF assms(1) h(2)] that by (metis option.inject prod.inject)
  then show ?thesis using h(1) [unfolded blocks] h(2-5) by blast
qed

theorem car_parse_bounds_witness:
  "\<exists>header pairs. wf_car_write car_example = varint_bytes (of_nat (length header)) @ header @
     concat (map (\<lambda>b. varint_bytes (of_nat (36 + length (blk_data b))) @ blk_cid b @ blk_data b)
       (car_blocks car_example)) \<and>
     (WF_CBOR_STRING (ascii ''roots''), WF_CBOR_ARRAY (map WF_CBOR_LINK (car_roots car_example))) \<in> set pairs"
  using car_parse_bounds [OF ref.platform_laws_axioms ref.car_parse_write [OF car_example_writable]] by blast

text \<open>With 256 roots the header announces none: the one-byte count wraps.\<close>

lemma car_root_count_wraps:
  "length (car_roots car) = 256 \<Longrightarrow> take 2 (drop 7 (car_hdr_bytes car)) = [0x98, 0x00]"
  by (simp add: car_hdr_bytes_def ascii_def)

end
