(* ===== verification/Mst.thy ===== *)
theory Mst
  imports Car
begin

unbundle bit_operations_syntax

text \<open>
  The Merkle search tree of a repository: the model of \<^verbatim>\<open>src/repo/mst.c\<close> (with the item builders of
  \<^verbatim>\<open>cbor_build.c\<close> and the lookup of \<^verbatim>\<open>cbor_map_find.c\<close>).

  The functions that write blocks append to the CAR they are given; here they take the CAR and
  return it with the result, also when they fail. A \<^verbatim>\<open>wf_cid\<close> with \<^verbatim>\<open>len == 0\<close> is the empty list.
  Functions with a depth or step guard are total. \<open>wf_mst_add\<close> and \<open>mst_delete_recursive\<close> have
  none, and on a CAR whose blocks form a cycle they do not return: they take fuel, and \<open>None\<close>
  stands for running out of it.
\<close>

section \<open>Building and searching CBOR maps\<close>

definition cbor_str :: "string \<Rightarrow> wf_cbor_item" where
  "cbor_str s = WF_CBOR_STRING (ascii s)"

definition cbor_bytes :: "bytes \<Rightarrow> wf_cbor_item" where
  "cbor_bytes data = WF_CBOR_BYTES data"

definition cbor_uint :: "u64 \<Rightarrow> wf_cbor_item" where
  "cbor_uint v = WF_CBOR_UNSIGNED v"

definition cbor_null :: wf_cbor_item where
  "cbor_null = WF_CBOR_SIMPLE 22"

definition cbor_cid :: "wf_cid \<Rightarrow> wf_cbor_item" where
  "cbor_cid cid = WF_CBOR_LINK cid"

fun map_find_loop :: "(wf_cbor_item \<times> wf_cbor_item) list \<Rightarrow> bytes \<Rightarrow> wf_cbor_item option" where
  "map_find_loop [] key = None"
| "map_find_loop ((k, v) # ps) key =
     (case k of
        WF_CBOR_STRING s \<Rightarrow>
          (if length s = length key \<and> memcmp s key = 0 then Some v else map_find_loop ps key)
      | _ \<Rightarrow> map_find_loop ps key)"

definition wf_cbor_map_find :: "wf_cbor_item \<Rightarrow> bytes \<Rightarrow> wf_cbor_item option" where
  "wf_cbor_map_find item key =
     (case item of WF_CBOR_MAP pairs \<Rightarrow> map_find_loop pairs key | _ \<Rightarrow> None)"

section \<open>Nodes\<close>

record wf_mst_entry =
  ent_key :: bytes
  ent_value :: wf_cid
  ent_subtree :: wf_cid

record wf_mst_node =
  node_cid :: wf_cid
  node_layer :: nat
  node_left :: wf_cid
  node_entries :: "wf_mst_entry list"

abbreviation node_count :: "wf_mst_node \<Rightarrow> nat" where
  "node_count node \<equiv> length (node_entries node)"

abbreviation WF_MST_MAX_DEPTH :: nat where
  "WF_MST_MAX_DEPTH \<equiv> 1024"

text \<open>The guard of every bounded descent.\<close>

definition depth_exceeded :: "wf_car \<Rightarrow> nat \<Rightarrow> bool" where
  "depth_exceeded car depth \<longleftrightarrow> WF_MST_MAX_DEPTH < depth \<or> length (car_blocks car) < depth"

text \<open>Sequencing of steps that change the CAR: an error ends the sequence, the blocks stay.\<close>

definition and_then ::
  "wf_car \<times> 'a res \<Rightarrow> (wf_car \<Rightarrow> 'a \<Rightarrow> wf_car \<times> 'b res) \<Rightarrow> wf_car \<times> 'b res" where
  "and_then r f = (case r of (car, Inl e) \<Rightarrow> (car, Inl e) | (car, Inr x) \<Rightarrow> f car x)"

lemma and_then_cong [fundef_cong]:
  "r = r' \<Longrightarrow> (\<And>car x. r' = (car, Inr x) \<Longrightarrow> f car x = g car x) \<Longrightarrow> and_then r f = and_then r' g"
  by (auto simp: and_then_def split: prod.splits sum.splits)

lemma and_then_simps [simp]:
  "and_then (car, Inl e) f = (car, Inl e)"
  "and_then (car, Inr x) f = f car x"
  by (simp_all add: and_then_def)

fun key_layer_loop :: "bytes \<Rightarrow> nat" where
  "key_layer_loop [] = 0"
| "key_layer_loop (b # bs) =
     (if b < 64 then 1 else 0) + (if b < 16 then 1 else 0) + (if b < 4 then 1 else 0) +
     (if b = 0 then 1 + key_layer_loop bs else 0)"

definition wf_mst_key_layer :: "platform \<Rightarrow> bytes \<Rightarrow> nat" where
  "wf_mst_key_layer P key = key_layer_loop (SHA256 P key)"

definition wf_mst_key_cmp :: "bytes \<Rightarrow> bytes \<Rightarrow> int" where
  "wf_mst_key_cmp a b = key_cmp a b"

text \<open>The position of the only slash, \<open>None\<close> where there is none or more than one.\<close>

fun key_slash_loop :: "nat \<Rightarrow> nat option \<Rightarrow> bytes \<Rightarrow> nat option" where
  "key_slash_loop i slash [] = slash"
| "key_slash_loop i slash (c # cs) =
     (if c = 47 then if slash \<noteq> None then None else key_slash_loop (i + 1) (Some i) cs
      else key_slash_loop (i + 1) slash cs)"

definition key_char_ok :: "byte \<Rightarrow> bool" where
  "key_char_ok c \<longleftrightarrow>
     (97 \<le> c \<and> c \<le> 122) \<or> (65 \<le> c \<and> c \<le> 90) \<or> (48 \<le> c \<and> c \<le> 57) \<or>
     c = 95 \<or> c = 126 \<or> c = 45 \<or> c = 58 \<or> c = 46"

definition wf_mst_key_is_valid :: "bytes \<Rightarrow> bool" where
  "wf_mst_key_is_valid key =
     (if key = [] \<or> 1024 < length key then False
      else case key_slash_loop 0 None key of
             None \<Rightarrow> False
           | Some slash \<Rightarrow>
               slash \<noteq> 0 \<and> slash \<noteq> length key - 1 \<and>
               list_all (\<lambda>i. i = slash \<or> key_char_ok (key ! i)) [0..<length key])"

section \<open>Parsing a node\<close>

definition link36 :: "wf_cbor_item option \<Rightarrow> wf_cid" where
  "link36 item = (case item of Some (WF_CBOR_LINK c) \<Rightarrow> if length c = 36 then c else [] | _ \<Rightarrow> [])"

fun mst_parse_entries :: "bytes \<Rightarrow> wf_cbor_item list \<Rightarrow> wf_mst_entry list res" where
  "mst_parse_entries prev_key [] = Inr []"
| "mst_parse_entries prev_key (entry # items) =
     (case (wf_cbor_map_find entry (ascii ''p''), wf_cbor_map_find entry (ascii ''k'')) of
        (Some (WF_CBOR_UNSIGNED prefix_len), Some (WF_CBOR_BYTES k)) \<Rightarrow>
          (if length prev_key < unat prefix_len then Inl WF_ERR_PARSE
           else
             let key = take (unat prefix_len) prev_key @ k
             in if \<not> wf_mst_key_is_valid key then Inl WF_ERR_PARSE
                else case wf_cbor_map_find entry (ascii ''v'') of
                       Some (WF_CBOR_LINK v) \<Rightarrow>
                         (if length v \<noteq> 36 then Inl WF_ERR_PARSE
                          else
                            let t = link36 (wf_cbor_map_find entry (ascii ''t''))
                            in case mst_parse_entries key items of
                                 Inl e \<Rightarrow> Inl e
                               | Inr ents \<Rightarrow>
                                   Inr (\<lparr>ent_key = key, ent_value = v, ent_subtree = t\<rparr> # ents))
                     | _ \<Rightarrow> Inl WF_ERR_PARSE)
      | _ \<Rightarrow> Inl WF_ERR_PARSE)"

fun mst_keys_ascend :: "wf_mst_entry list \<Rightarrow> bool" where
  "mst_keys_ascend (a # b # es) \<longleftrightarrow>
     \<not> 0 \<le> wf_mst_key_cmp (ent_key a) (ent_key b) \<and> mst_keys_ascend (b # es)"
| "mst_keys_ascend _ \<longleftrightarrow> True"

definition wf_mst_node_parse :: "platform \<Rightarrow> bytes \<Rightarrow> wf_cid \<Rightarrow> wf_mst_node res" where
  "wf_mst_node_parse P cbor cid =
     (if cbor = [] then Inl WF_ERR_INVALID_ARG
      else case wf_cbor_parse P cbor of
             Some (WF_CBOR_MAP pairs) \<Rightarrow>
               (let left = link36 (wf_cbor_map_find (WF_CBOR_MAP pairs) (ascii ''l''))
                in case wf_cbor_map_find (WF_CBOR_MAP pairs) (ascii ''e'') of
                     Some (WF_CBOR_ARRAY items) \<Rightarrow>
                       (case mst_parse_entries [] items of
                          Inl e \<Rightarrow> Inl e
                        | Inr ents \<Rightarrow>
                            if \<not> mst_keys_ascend ents then Inl WF_ERR_PARSE
                            else Inr \<lparr>node_cid = cid,
                                      node_layer = (case ents of [] \<Rightarrow> 0
                                                    | e # _ \<Rightarrow> wf_mst_key_layer P (ent_key e)),
                                      node_left = left, node_entries = ents\<rparr>)
                   | _ \<Rightarrow> Inl WF_ERR_PARSE)
           | _ \<Rightarrow> Inl WF_ERR_PARSE)"

section \<open>Lookup\<close>

text \<open>The scan of a node's entries: the value on a hit, and the index where the scan stopped.\<close>

fun mst_scan :: "bytes \<Rightarrow> wf_mst_entry list \<Rightarrow> nat \<Rightarrow> wf_cid option \<times> nat" where
  "mst_scan key [] idx = (None, idx)"
| "mst_scan key (e # es) idx =
     (let cmp = wf_mst_key_cmp key (ent_key e)
      in if cmp = 0 then (Some (ent_value e), idx)
         else if cmp < 0 then (None, idx)
         else mst_scan key es (idx + 1))"

definition mst_next :: "wf_mst_node \<Rightarrow> nat \<Rightarrow> wf_cid" where
  "mst_next node idx =
     (let subtree = (if idx = 0 then node_left node else ent_subtree (node_entries node ! (idx - 1)))
      in if subtree = [] \<and> node_count node \<le> idx \<and> 0 < node_count node
         then ent_subtree (node_entries node ! (node_count node - 1)) else subtree)"

function mst_find_loop :: "platform \<Rightarrow> wf_car \<Rightarrow> bytes \<Rightarrow> nat \<Rightarrow> wf_cid \<Rightarrow> wf_cid res" where
  "mst_find_loop P car key steps current =
     (if depth_exceeded car steps then Inl WF_ERR_PARSE
      else case wf_car_find_block car current of
             None \<Rightarrow> Inl WF_ERR_PARSE
           | Some block \<Rightarrow>
               (case wf_mst_node_parse P (blk_data block) current of
                  Inl s \<Rightarrow> Inl s
                | Inr node \<Rightarrow>
                    (case mst_scan key (node_entries node) 0 of
                       (Some value, idx) \<Rightarrow> Inr value
                     | (None, idx) \<Rightarrow>
                         (let subtree = mst_next node idx
                          in if subtree \<noteq> [] then mst_find_loop P car key (steps + 1) subtree
                             else Inl WF_ERR_NOT_FOUND))))"
  by pat_completeness auto
termination
  by (relation "measure (\<lambda>(_, _, _, steps, _). 1025 - steps)") (auto simp: depth_exceeded_def)

declare mst_find_loop.simps [simp del]

definition wf_mst_find :: "platform \<Rightarrow> wf_car \<Rightarrow> wf_cid \<Rightarrow> bytes \<Rightarrow> wf_cid res" where
  "wf_mst_find P car root_cid key =
     (if key = [] then Inl WF_ERR_INVALID_ARG else mst_find_loop P car key 0 root_cid)"

section \<open>Loading a node with its layer\<close>

function mst_load_node_depth :: "platform \<Rightarrow> wf_car \<Rightarrow> wf_cid \<Rightarrow> nat \<Rightarrow> wf_mst_node res" where
  "mst_load_node_depth P car cid depth =
     (if depth_exceeded car depth then Inl WF_ERR_PARSE
      else case wf_car_find_block car cid of
             None \<Rightarrow> Inl WF_ERR_PARSE
           | Some block \<Rightarrow>
               (case wf_mst_node_parse P (blk_data block) cid of
                  Inl s \<Rightarrow> Inl s
                | Inr out \<Rightarrow>
                    (case node_entries out of
                       e # _ \<Rightarrow> Inr (out\<lparr>node_layer := wf_mst_key_layer P (ent_key e)\<rparr>)
                     | [] \<Rightarrow>
                         (if node_left out = [] then Inr out
                          else case mst_load_node_depth P car (node_left out) (depth + 1) of
                                 Inl s \<Rightarrow> Inl s
                               | Inr child \<Rightarrow> Inr (out\<lparr>node_layer := node_layer child + 1\<rparr>)))))"
  by pat_completeness auto
termination
  by (relation "measure (\<lambda>(_, _, _, depth). 1025 - depth)") (auto simp: depth_exceeded_def)

declare mst_load_node_depth.simps [simp del]

definition mst_load_node :: "platform \<Rightarrow> wf_car \<Rightarrow> wf_cid \<Rightarrow> wf_mst_node res" where
  "mst_load_node P car cid = mst_load_node_depth P car cid 0"

section \<open>Writing a node\<close>

text \<open>\<open>wf_mst_node_build\<close> moves the entries into a fresh node without a CID.\<close>

definition wf_mst_node_build :: "nat \<Rightarrow> wf_cid \<Rightarrow> wf_mst_entry list \<Rightarrow> wf_mst_node" where
  "wf_mst_node_build layer left entries =
     \<lparr>node_cid = [], node_layer = layer, node_left = left, node_entries = entries\<rparr>"

fun common_prefix :: "bytes \<Rightarrow> bytes \<Rightarrow> nat" where
  "common_prefix (a # as) (b # bs) = (if a = b then Suc (common_prefix as bs) else 0)"
| "common_prefix _ _ = 0"

definition cid_or_null :: "wf_cid \<Rightarrow> wf_cbor_item" where
  "cid_or_null cid = (if cid = [] then cbor_null else cbor_cid cid)"

fun mst_entry_items :: "bytes \<Rightarrow> wf_mst_entry list \<Rightarrow> wf_cbor_item list" where
  "mst_entry_items prev_key [] = []"
| "mst_entry_items prev_key (src # es) =
     (let prefix = common_prefix prev_key (ent_key src)
      in WF_CBOR_MAP [(cbor_str ''k'', cbor_bytes (drop prefix (ent_key src))),
                      (cbor_str ''p'', cbor_uint (of_nat prefix)),
                      (cbor_str ''t'', cid_or_null (ent_subtree src)),
                      (cbor_str ''v'', cbor_cid (ent_value src))] # mst_entry_items (ent_key src) es)"

definition mst_node_item :: "wf_cid \<Rightarrow> wf_mst_entry list \<Rightarrow> wf_cbor_item" where
  "mst_node_item left entries =
     WF_CBOR_MAP [(cbor_str ''e'', WF_CBOR_ARRAY (mst_entry_items [] entries)),
                  (cbor_str ''l'', cid_or_null left)]"

text \<open>The second half of \<open>wf_mst_node_finalize\<close>: serialise, hash, and append unless present.\<close>

definition mst_store_node :: "platform \<Rightarrow> wf_mst_node \<Rightarrow> wf_car \<Rightarrow> wf_car \<times> wf_mst_node res" where
  "mst_store_node P node car =
     (case wf_cbor_serialize (mst_node_item (node_left node) (node_entries node)) of
        None \<Rightarrow> (car, Inl WF_ERR_ALLOC)
      | Some cbor \<Rightarrow>
          (case wf_cid_of_block P cbor of
             Inl s \<Rightarrow> (car, Inl s)
           | Inr cid \<Rightarrow>
               (case wf_car_find_block car cid of
                  Some _ \<Rightarrow> (car, Inr (node\<lparr>node_cid := cid\<rparr>))
                | None \<Rightarrow>
                    (car\<lparr>car_blocks := car_blocks car @ [\<lparr>blk_cid = cid, blk_data = cbor\<rparr>]\<rparr>,
                     Inr (node\<lparr>node_cid := cid\<rparr>)))))"

definition effective_layer :: "platform \<Rightarrow> wf_mst_node \<Rightarrow> nat" where
  "effective_layer P node =
     (case node_entries node of [] \<Rightarrow> node_layer node | e # _ \<Rightarrow> wf_mst_key_layer P (ent_key e))"

text \<open>
  Finalising a node raises its children to the layer below it; raising writes nodes of its own.
  \<open>normalise_entries\<close> is the loop over the entries.
\<close>

function (sequential)
  wf_mst_node_finalize :: "platform \<Rightarrow> wf_mst_node \<Rightarrow> wf_car \<Rightarrow> wf_car \<times> wf_mst_node res"
  and normalise_entries ::
    "platform \<Rightarrow> wf_car \<Rightarrow> wf_mst_entry list \<Rightarrow> nat \<Rightarrow> wf_car \<times> wf_mst_entry list res"
  and mst_normalise_child :: "platform \<Rightarrow> wf_car \<Rightarrow> wf_cid \<Rightarrow> nat \<Rightarrow> wf_car \<times> wf_cid res"
  and raise_loop :: "platform \<Rightarrow> wf_car \<Rightarrow> wf_cid \<Rightarrow> nat \<Rightarrow> nat \<Rightarrow> wf_car \<times> wf_cid res" where
  "wf_mst_node_finalize P node car =
     (if node_cid node \<noteq> [] then (car, Inr node)
      else if effective_layer P node = 0 \<or> (node_entries node = [] \<and> node_left node = [])
      then mst_store_node P node car
      else
        and_then (if node_left node = [] then (car, Inr [])
                  else mst_normalise_child P car (node_left node) (effective_layer P node))
          (\<lambda>car left.
        and_then (normalise_entries P car (node_entries node) (effective_layer P node))
          (\<lambda>car entries.
        mst_store_node P (node\<lparr>node_left := left, node_entries := entries\<rparr>) car)))"
| "normalise_entries P car [] parent_layer = (car, Inr [])"
| "normalise_entries P car (e # es) parent_layer =
     and_then (if ent_subtree e = [] then (car, Inr [])
               else mst_normalise_child P car (ent_subtree e) parent_layer)
       (\<lambda>car subtree.
     and_then (normalise_entries P car es parent_layer)
       (\<lambda>car es'. (car, Inr (e\<lparr>ent_subtree := subtree\<rparr> # es'))))"
| "mst_normalise_child P car cid parent_layer =
     (case mst_load_node P car cid of
        Inl _ \<Rightarrow> (car, Inr cid)
      | Inr child \<Rightarrow>
          (if parent_layer \<le> node_layer child + 1 then (car, Inr cid)
           else if cid = [] then (car, Inr cid)
           else raise_loop P car cid (node_layer child + 1) parent_layer))"
| "raise_loop P car cid layer parent_layer =
     (if layer < parent_layer
      then and_then (wf_mst_node_finalize P (wf_mst_node_build layer cid []) car)
             (\<lambda>car structural. raise_loop P car (node_cid structural) (layer + 1) parent_layer)
      else (car, Inr cid))"
  by pat_completeness auto
termination
proof (relation "measures
    [\<lambda>x. case x of Inl (Inl (P, node, _)) \<Rightarrow> effective_layer P node
        | Inl (Inr (_, _, _, l)) \<Rightarrow> l | Inr (Inl (_, _, _, l)) \<Rightarrow> l | Inr (Inr (_, _, _, _, l)) \<Rightarrow> l,
     \<lambda>x. case x of Inl (Inl _) \<Rightarrow> 3 | Inl (Inr _) \<Rightarrow> 2 | Inr (Inl _) \<Rightarrow> 1 | Inr (Inr _) \<Rightarrow> 0,
     \<lambda>x. case x of Inl (Inr (_, _, es, _)) \<Rightarrow> length es
        | Inr (Inr (_, _, _, layer, l)) \<Rightarrow> l - layer | _ \<Rightarrow> 0]", goal_cases)
qed (auto simp: effective_layer_def wf_mst_node_build_def)

declare wf_mst_node_finalize.simps [simp del] mst_normalise_child.simps [simp del] raise_loop.simps [simp del]

definition mst_raise_subtree :: "platform \<Rightarrow> wf_car \<Rightarrow> wf_cid \<Rightarrow> nat \<Rightarrow> nat \<Rightarrow> wf_car \<times> wf_cid res" where
  "mst_raise_subtree P car cid child_layer parent_layer =
     (if cid = [] then (car, Inr cid) else raise_loop P car cid (child_layer + 1) parent_layer)"

definition mst_raise_to_layer :: "platform \<Rightarrow> wf_car \<Rightarrow> wf_cid \<Rightarrow> nat \<Rightarrow> wf_car \<times> wf_cid res" where
  "mst_raise_to_layer P car cid target_layer =
     (if cid = [] then (car, Inr cid)
      else case mst_load_node P car cid of
             Inl s \<Rightarrow> (car, Inl s)
           | Inr node \<Rightarrow> mst_raise_subtree P car cid (node_layer node) target_layer)"

text \<open>Build and finalise, the tail of every writing operation.\<close>

definition mst_write_node ::
  "platform \<Rightarrow> wf_car \<Rightarrow> nat \<Rightarrow> wf_cid \<Rightarrow> wf_mst_entry list \<Rightarrow> wf_car \<times> wf_cid res" where
  "mst_write_node P car layer left entries =
     and_then (wf_mst_node_finalize P (wf_mst_node_build layer left entries) car)
       (\<lambda>car node. (car, Inr (node_cid node)))"

fun find_ge_loop :: "bytes \<Rightarrow> wf_mst_entry list \<Rightarrow> nat" where
  "find_ge_loop key [] = 0"
| "find_ge_loop key (e # es) = (if wf_mst_key_cmp key (ent_key e) \<le> 0 then 0 else Suc (find_ge_loop key es))"

definition mst_find_ge :: "wf_mst_node \<Rightarrow> bytes \<Rightarrow> nat" where
  "mst_find_ge node key = find_ge_loop key (node_entries node)"

section \<open>Splitting a subtree around a key\<close>

datatype mst_split_item = TREE wf_cid | LEAF bytes wf_cid wf_cid

fun is_tree :: "mst_split_item \<Rightarrow> bool" where
  "is_tree (TREE _) = True"
| "is_tree (LEAF _ _ _) = False"

definition mst_collect_items :: "wf_mst_node \<Rightarrow> mst_split_item list" where
  "mst_collect_items node =
     (if node_left node = [] then [] else [TREE (node_left node)]) @
     concat (map (\<lambda>e. LEAF (ent_key e) (ent_value e) (ent_subtree e) #
                      (if ent_subtree e = [] then [] else [TREE (ent_subtree e)])) (node_entries node))"

fun items_entries :: "mst_split_item list \<Rightarrow> wf_mst_entry list" where
  "items_entries [] = []"
| "items_entries (TREE c # items) = items_entries items"
| "items_entries (LEAF k v s # items) =
     \<lparr>ent_key = k, ent_value = v,
      ent_subtree = (case items of TREE c # _ \<Rightarrow> c | _ \<Rightarrow> [])\<rparr> # items_entries items"

definition mst_build_from_items ::
  "platform \<Rightarrow> wf_car \<Rightarrow> nat \<Rightarrow> mst_split_item list \<Rightarrow> wf_car \<times> wf_cid res" where
  "mst_build_from_items P car layer items =
     (if items = [] then (car, Inr [])
      else if list_all is_tree items
      then case items of
             [TREE c] \<Rightarrow> mst_write_node P car layer c []
           | _ \<Rightarrow> (car, Inl WF_ERR_PARSE)
      else mst_write_node P car layer (case hd items of TREE c \<Rightarrow> c | _ \<Rightarrow> []) (items_entries items))"

fun split_index :: "bytes \<Rightarrow> mst_split_item list \<Rightarrow> nat" where
  "split_index key [] = 0"
| "split_index key (TREE c # items) = Suc (split_index key items)"
| "split_index key (LEAF k v s # items) =
     (if wf_mst_key_cmp key k \<le> 0 then 0 else Suc (split_index key items))"

function mst_split_around ::
  "platform \<Rightarrow> wf_car \<Rightarrow> wf_cid \<Rightarrow> bytes \<Rightarrow> nat \<Rightarrow> wf_car \<times> (wf_cid \<times> wf_cid) res" where
  "mst_split_around P car subtree_cid key depth =
     (if depth_exceeded car depth then (car, Inl WF_ERR_PARSE)
      else case mst_load_node P car subtree_cid of
             Inl s \<Rightarrow> (car, Inl s)
           | Inr node \<Rightarrow>
               (let layer = node_layer node; items = mst_collect_items node;
                    index = split_index key items
                in if items = [] then (car, Inr ([], []))
                   else
                     and_then (mst_build_from_items P car layer (take index items)) (\<lambda>car left.
                     and_then (mst_build_from_items P car layer (drop index items)) (\<lambda>car right.
                     if 0 < index \<and> is_tree (items ! (index - 1))
                     then
                       and_then (mst_build_from_items P car layer (take (index - 1) items)) (\<lambda>car base_left.
                       and_then (mst_split_around P car
                           (case items ! (index - 1) of TREE c \<Rightarrow> c | _ \<Rightarrow> []) key (depth + 1))
                         (\<lambda>car (sl, sr).
                       and_then (if sl \<noteq> []
                                 then mst_build_from_items P car layer (take (index - 1) items @ [TREE sl])
                                 else (car, Inr base_left)) (\<lambda>car left.
                       and_then (if sr \<noteq> []
                                 then mst_build_from_items P car layer (TREE sr # drop index items)
                                 else (car, Inr right)) (\<lambda>car right.
                       (car, Inr (left, right))))))
                     else (car, Inr (left, right))))))"
  by pat_completeness auto
termination
proof (relation "measure (\<lambda>(_, _, _, _, depth). 1025 - depth)", goal_cases)
qed (auto simp: depth_exceeded_def)

declare mst_split_around.simps [simp del]

section \<open>Adding a key\<close>

text \<open>The entries with the new leaf at \<open>idx\<close>: its predecessor's subtree becomes the lower half.\<close>

definition insert_entry ::
  "wf_mst_entry list \<Rightarrow> nat \<Rightarrow> wf_mst_entry \<Rightarrow> wf_cid \<Rightarrow> wf_mst_entry list" where
  "insert_entry entries idx new pred_subtree =
     (let before = take idx entries
      in (if idx = 0 then [] else butlast before @ [(last before)\<lparr>ent_subtree := pred_subtree\<rparr>]) @
         [new] @ drop idx entries)"

definition mst_add_at_layer ::
  "platform \<Rightarrow> wf_car \<Rightarrow> wf_mst_node \<Rightarrow> bytes \<Rightarrow> wf_cid \<Rightarrow> wf_car \<times> wf_cid res" where
  "mst_add_at_layer P car node key value =
     (let idx = mst_find_ge node key
      in if idx < node_count node \<and> wf_mst_key_cmp key (ent_key (node_entries node ! idx)) = 0
         then (car, Inr (node_cid node))
         else
           let preceding_tree =
                 (if idx = 0 then node_left node else ent_subtree (node_entries node ! (idx - 1)))
           in
           and_then
             (if preceding_tree \<noteq> []
              then and_then (mst_split_around P car preceding_tree key 0) (\<lambda>car (l, r).
                   and_then (mst_raise_to_layer P car l (node_layer node)) (\<lambda>car l.
                   and_then (mst_raise_to_layer P car r (node_layer node)) (\<lambda>car r.
                   (car, Inr (l, r)))))
              else (car, Inr ([], [])))
             (\<lambda>car (pred_subtree, new_subtree).
           mst_write_node P car (node_layer node)
             (if idx = 0 then pred_subtree else node_left node)
             (insert_entry (node_entries node) idx
                \<lparr>ent_key = key, ent_value = value, ent_subtree = new_subtree\<rparr> pred_subtree)))"

definition mst_add_at_higher_layer ::
  "platform \<Rightarrow> wf_car \<Rightarrow> wf_mst_node \<Rightarrow> bytes \<Rightarrow> wf_cid \<Rightarrow> nat \<Rightarrow> wf_car \<times> wf_cid res" where
  "mst_add_at_higher_layer P car node key value key_layer =
     and_then (mst_split_around P car (node_cid node) key 0) (\<lambda>car (left, right).
     and_then (mst_raise_to_layer P car left key_layer) (\<lambda>car left.
     and_then (mst_raise_to_layer P car right key_layer) (\<lambda>car right.
     mst_write_node P car key_layer left
       [\<lparr>ent_key = key, ent_value = value, ent_subtree = right\<rparr>])))"

text \<open>Which child a key below this node's layer belongs to: \<open>None\<close> for \<^verbatim>\<open>use_left\<close>.\<close>

definition mst_use_prev :: "wf_mst_node \<Rightarrow> nat \<Rightarrow> nat option" where
  "mst_use_prev node idx =
     (if 0 < idx then Some (if node_count node < idx then node_count node - 1 else idx - 1)
      else if node_count node \<le> idx \<and> 0 < node_count node then Some (node_count node - 1)
      else None)"

definition mst_child :: "wf_mst_node \<Rightarrow> nat option \<Rightarrow> wf_cid" where
  "mst_child node use =
     (case use of None \<Rightarrow> node_left node | Some i \<Rightarrow> ent_subtree (node_entries node ! i))"

text \<open>The node rebuilt with that child replaced, and finalised.\<close>

definition mst_replace_child ::
  "platform \<Rightarrow> wf_car \<Rightarrow> wf_mst_node \<Rightarrow> nat option \<Rightarrow> wf_cid \<Rightarrow> wf_car \<times> wf_cid res" where
  "mst_replace_child P car node use subtree =
     (case use of
        None \<Rightarrow> mst_write_node P car (node_layer node) subtree (node_entries node)
      | Some i \<Rightarrow>
          mst_write_node P car (node_layer node) (node_left node)
            ((node_entries node)[i := (node_entries node ! i)\<lparr>ent_subtree := subtree\<rparr>]))"

text \<open>The part of \<^verbatim>\<open>mst_add_at_lower_layer\<close> after the recursive call: close a layer gap and rebuild.\<close>

definition mst_add_lower_finish ::
  "platform \<Rightarrow> wf_car \<Rightarrow> wf_mst_node \<Rightarrow> nat option \<Rightarrow> wf_cid \<Rightarrow> wf_car \<times> wf_cid res" where
  "mst_add_lower_finish P car node use new_subtree =
     and_then
       (if new_subtree \<noteq> [] \<and> 0 < node_layer node
        then case mst_load_node P car new_subtree of
               Inl _ \<Rightarrow> (car, Inr new_subtree)
             | Inr grown \<Rightarrow>
                 (if node_layer grown + 1 < node_layer node
                  then mst_raise_subtree P car new_subtree (node_layer grown) (node_layer node)
                  else (car, Inr new_subtree))
        else (car, Inr new_subtree))
       (\<lambda>car new_subtree. mst_replace_child P car node use new_subtree)"

text \<open>A load whose node is not used: only its status matters.\<close>

definition mst_load_error :: "platform \<Rightarrow> wf_car \<Rightarrow> wf_cid \<Rightarrow> wf_status option" where
  "mst_load_error P car cid = (case mst_load_node P car cid of Inl s \<Rightarrow> Some s | Inr _ \<Rightarrow> None)"

fun wf_mst_add ::
  "nat \<Rightarrow> platform \<Rightarrow> wf_car \<Rightarrow> wf_cid \<Rightarrow> bytes \<Rightarrow> wf_cid \<Rightarrow> (wf_car \<times> wf_cid res) option"
  and mst_add_at_lower_layer ::
  "nat \<Rightarrow> platform \<Rightarrow> wf_car \<Rightarrow> wf_mst_node \<Rightarrow> bytes \<Rightarrow> wf_cid \<Rightarrow> nat \<Rightarrow> (wf_car \<times> wf_cid res) option" where
  "wf_mst_add 0 P car root_cid key value = None"
| "wf_mst_add (Suc fuel) P car root_cid key value =
     (if key = [] \<or> \<not> wf_mst_key_is_valid key then Some (car, Inl WF_ERR_INVALID_ARG)
      else
        let key_layer = wf_mst_key_layer P key
        in if root_cid = []
           then Some (mst_write_node P car key_layer []
                        [\<lparr>ent_key = key, ent_value = value, ent_subtree = []\<rparr>])
           else case mst_load_node P car root_cid of
                  Inl s \<Rightarrow> Some (car, Inl s)
                | Inr node \<Rightarrow>
                    (if key_layer = node_layer node
                     then Some (mst_add_at_layer P car node key value)
                     else if node_layer node < key_layer
                     then Some (mst_add_at_higher_layer P car node key value key_layer)
                     else mst_add_at_lower_layer fuel P car node key value key_layer))"
| "mst_add_at_lower_layer fuel P car node key value key_layer =
     (let use = mst_use_prev node (mst_find_ge node key); target = mst_child node use
      in if target \<noteq> []
         then case (if use = None then mst_load_error P car target else None) of
                Some s \<Rightarrow> Some (car, Inl s)
              | None \<Rightarrow>
                  (case wf_mst_add fuel P car target key value of
                     None \<Rightarrow> None
                   | Some r \<Rightarrow> Some (and_then r (\<lambda>car new_subtree.
                       mst_add_lower_finish P car node use new_subtree)))
         else case wf_mst_add fuel P car [] key value of
                None \<Rightarrow> None
              | Some r \<Rightarrow> Some (and_then r (\<lambda>car new_subtree.
                  and_then (mst_raise_subtree P car new_subtree key_layer (node_layer node))
                    (\<lambda>car new_subtree. mst_add_lower_finish P car node use new_subtree))))"

section \<open>Deleting a key\<close>

definition node_is_empty :: "wf_mst_node \<Rightarrow> bool" where
  "node_is_empty node \<longleftrightarrow> node_entries node = [] \<and> node_left node = []"

function mst_merge_subtrees ::
  "platform \<Rightarrow> wf_car \<Rightarrow> wf_cid \<Rightarrow> wf_cid \<Rightarrow> nat \<Rightarrow> wf_car \<times> wf_cid res" where
  "mst_merge_subtrees P car a b depth =
     (if depth_exceeded car depth then (car, Inl WF_ERR_PARSE)
      else if a = [] then (car, Inr b)
      else if b = [] then (car, Inr a)
      else case mst_load_node P car a of
             Inl s \<Rightarrow> (car, Inl s)
           | Inr left_node \<Rightarrow>
               (case mst_load_node P car b of
                  Inl s \<Rightarrow> (car, Inl s)
                | Inr right_node \<Rightarrow>
                    (if node_is_empty left_node then (car, Inr b)
                     else if node_is_empty right_node then (car, Inr a)
                     else if node_layer left_node \<noteq> node_layer right_node \<or>
                             (node_entries left_node \<noteq> [] \<and> node_entries right_node \<noteq> [] \<and>
                              0 \<le> wf_mst_key_cmp (ent_key (last (node_entries left_node)))
                                                  (ent_key (hd (node_entries right_node))))
                     then (car, Inl WF_ERR_PARSE)
                     else if node_entries left_node \<noteq> []
                     then
                       and_then (mst_merge_subtrees P car (ent_subtree (last (node_entries left_node)))
                                   (node_left right_node) (depth + 1))
                         (\<lambda>car boundary.
                       mst_write_node P car (node_layer left_node) (node_left left_node)
                         (butlast (node_entries left_node) @
                          [(last (node_entries left_node))\<lparr>ent_subtree := boundary\<rparr>] @
                          node_entries right_node))
                     else
                       and_then (mst_merge_subtrees P car (node_left left_node)
                                   (node_left right_node) (depth + 1))
                         (\<lambda>car new_left.
                       mst_write_node P car (node_layer left_node) new_left (node_entries right_node)))))"
  by pat_completeness auto
termination
proof (relation "measure (\<lambda>(_, _, _, _, depth). 1025 - depth)", goal_cases)
qed (auto simp: depth_exceeded_def)

declare mst_merge_subtrees.simps [simp del]

definition mst_delete_at_layer ::
  "platform \<Rightarrow> wf_car \<Rightarrow> wf_mst_node \<Rightarrow> bytes \<Rightarrow> wf_car \<times> wf_cid res" where
  "mst_delete_at_layer P car node key =
     (let idx = mst_find_ge node key
      in if node_count node \<le> idx \<or> wf_mst_key_cmp key (ent_key (node_entries node ! idx)) \<noteq> 0
         then (car, Inr (node_cid node))
         else
           and_then
             (mst_merge_subtrees P car
                (if idx = 0 then node_left node else ent_subtree (node_entries node ! (idx - 1)))
                (ent_subtree (node_entries node ! idx)) 0)
             (\<lambda>car merged.
           if node_count node - 1 = 0 then (car, Inr merged)
           else
             let rest = take idx (node_entries node) @ drop (Suc idx) (node_entries node)
             in if idx = 0 then mst_write_node P car (node_layer node) merged rest
                else mst_write_node P car (node_layer node) (node_left node)
                       (rest[idx - 1 := (rest ! (idx - 1))\<lparr>ent_subtree := merged\<rparr>])))"

text \<open>
  The descent. At the key's own layer the pointer to an emptied subtree is dropped; below it the new
  subtree is linked as it comes.
\<close>

definition mst_drop_if_empty :: "platform \<Rightarrow> wf_car \<Rightarrow> wf_cid \<Rightarrow> wf_cid" where
  "mst_drop_if_empty P car subtree =
     (if subtree = [] then subtree
      else case mst_load_node P car subtree of
             Inl _ \<Rightarrow> subtree
           | Inr probe \<Rightarrow> if node_is_empty probe then [] else subtree)"

fun mst_delete_recursive ::
  "nat \<Rightarrow> platform \<Rightarrow> wf_car \<Rightarrow> wf_mst_node \<Rightarrow> bytes \<Rightarrow> nat \<Rightarrow> (wf_car \<times> wf_cid res) option" where
  "mst_delete_recursive 0 P car node key key_layer = None"
| "mst_delete_recursive (Suc fuel) P car node key key_layer =
     (let idx = mst_find_ge node key
      in if key_layer = node_layer node
         then if idx < node_count node \<and> wf_mst_key_cmp key (ent_key (node_entries node ! idx)) = 0
              then Some (mst_delete_at_layer P car node key)
              else
                let use = (if idx = 0 then None
                           else Some (if node_count node \<le> idx then node_count node - 1 else idx - 1));
                    target = mst_child node use
                in if target = [] then Some (car, Inl WF_ERR_NOT_FOUND)
                   else case mst_load_node P car target of
                          Inl s \<Rightarrow> Some (car, Inl s)
                        | Inr child \<Rightarrow>
                            (case mst_delete_recursive fuel P car child key key_layer of
                               None \<Rightarrow> None
                             | Some r \<Rightarrow> Some (and_then r (\<lambda>car subtree.
                                 mst_replace_child P car node use (mst_drop_if_empty P car subtree))))
         else if node_layer node < key_layer then Some (car, Inl WF_ERR_NOT_FOUND)
         else
           let use = mst_use_prev node idx; target = mst_child node use
           in if target = [] then Some (car, Inl WF_ERR_NOT_FOUND)
              else case mst_load_node P car target of
                     Inl s \<Rightarrow> Some (car, Inl s)
                   | Inr child \<Rightarrow>
                       (case mst_delete_recursive fuel P car child key key_layer of
                          None \<Rightarrow> None
                        | Some r \<Rightarrow> Some (and_then r (\<lambda>car subtree.
                            mst_replace_child P car node use subtree))))"

text \<open>
  The loop that removes leafless nodes from the top. It ends because the layer of the node it loads
  decreases: what is loaded below a leafless node has been loaded to derive that node's layer.
\<close>

definition load_layer :: "platform \<Rightarrow> wf_car \<Rightarrow> wf_cid \<Rightarrow> nat" where
  "load_layer P car cid =
     (if cid = [] then 0 else case mst_load_node P car cid of Inl _ \<Rightarrow> 0 | Inr node \<Rightarrow> Suc (node_layer node))"

lemma load_depth_iff:
  "mst_load_node_depth P car cid d = Inr node \<longleftrightarrow> \<not> depth_exceeded car d \<and>
     (\<exists>block out. wf_car_find_block car cid = Some block \<and> wf_mst_node_parse P (blk_data block) cid = Inr out \<and>
       ((\<exists>e es. node_entries out = e # es \<and> node = out\<lparr>node_layer := wf_mst_key_layer P (ent_key e)\<rparr>) \<or>
        (node_entries out = [] \<and> node_left out = [] \<and> node = out) \<or>
        (node_entries out = [] \<and> node_left out \<noteq> [] \<and>
         (\<exists>child. mst_load_node_depth P car (node_left out) (d + 1) = Inr child \<and>
                  node = out\<lparr>node_layer := node_layer child + 1\<rparr>))))"
  by (subst mst_load_node_depth.simps) (auto split: option.splits sum.splits list.splits)

lemma load_depth_mono:
  "mst_load_node_depth P car cid d = Inr node \<Longrightarrow> d' \<le> d \<Longrightarrow> mst_load_node_depth P car cid d' = Inr node"
proof (induction P car cid d arbitrary: node d' rule: mst_load_node_depth.induct)
  case (1 P car cid d)
  from "1.prems"(1) obtain block out where b: "\<not> depth_exceeded car d"
    "wf_car_find_block car cid = Some block" "wf_mst_node_parse P (blk_data block) cid = Inr out"
    unfolding load_depth_iff [of P car cid d] by blast
  have d': "\<not> depth_exceeded car d'" using b(1) "1.prems"(2) by (auto simp: depth_exceeded_def)
  have "mst_load_node_depth P car (node_left out) (d' + 1) = Inr child"
    if "node_entries out = []" "node_left out \<noteq> []"
      "mst_load_node_depth P car (node_left out) (d + 1) = Inr child" for child
    using "1.IH" [OF b that] "1.prems"(2) by simp
  with "1.prems"(1) b d' show ?case
    unfolding load_depth_iff [of P car cid] by fastforce
qed

lemma load_layer_left:
  assumes "mst_load_node P car cid = Inr top_node" "node_entries top_node = []" "cid \<noteq> []"
  shows "load_layer P car (node_left top_node) < load_layer P car cid"
proof (cases "node_left top_node = []")
  case False
  with assms(1,2) obtain child where c: "mst_load_node_depth P car (node_left top_node) 1 = Inr child"
    "node_layer top_node = node_layer child + 1"
    unfolding mst_load_node_def load_depth_iff [of P car cid] by fastforce
  from load_depth_mono [OF c(1), of 0] have "mst_load_node P car (node_left top_node) = Inr child"
    by (simp add: mst_load_node_def)
  then show ?thesis using assms(1,3) c(2) False by (simp add: load_layer_def)
qed (use assms in \<open>simp add: load_layer_def\<close>)

function mst_strip_loop :: "platform \<Rightarrow> wf_car \<Rightarrow> wf_cid \<Rightarrow> wf_cid res" where
  "mst_strip_loop P car new_root =
     (if new_root = [] then Inr new_root
      else case mst_load_node P car new_root of
             Inl s \<Rightarrow> Inl s
           | Inr top_node \<Rightarrow>
               (if node_entries top_node \<noteq> [] then Inr new_root
                else mst_strip_loop P car (node_left top_node)))"
  by pat_completeness auto
termination
  by (relation "measure (\<lambda>(P, car, cid). load_layer P car cid)") (auto intro: load_layer_left)

declare mst_strip_loop.simps [simp del]

definition wf_mst_delete ::
  "nat \<Rightarrow> platform \<Rightarrow> wf_car \<Rightarrow> wf_cid \<Rightarrow> bytes \<Rightarrow> (wf_car \<times> wf_cid res) option" where
  "wf_mst_delete fuel P car root_cid key =
     (if key = [] then Some (car, Inl WF_ERR_INVALID_ARG)
      else if root_cid = [] then Some (car, Inl WF_ERR_NOT_FOUND)
      else
        let key_layer = wf_mst_key_layer P key
        in case mst_load_node P car root_cid of
             Inl s \<Rightarrow> Some (car, Inl s)
           | Inr node \<Rightarrow>
               (case mst_delete_recursive fuel P car node key key_layer of
                  None \<Rightarrow> None
                | Some r \<Rightarrow> Some (and_then r (\<lambda>car new_root. (car, mst_strip_loop P car new_root)))))"

end
