(* ===== verification/Mst_Traverse.thy ===== *)
theory Mst_Traverse
  imports Mst
begin

text \<open>
  The traversals of \<^verbatim>\<open>src/repo/mst.c\<close>: the ordered walk with its callback and the listings built on
  it, the set of referenced CIDs, range counting, and the two kinds of proof. They only read the
  CAR. The growth of the output arrays has no counterpart; on an error the partial output is freed,
  so the result is the status alone.
\<close>

section \<open>Lists of CIDs\<close>

definition mst_cid_list_contains :: "wf_cid list \<Rightarrow> wf_cid \<Rightarrow> bool" where
  "mst_cid_list_contains list cid = list_ex (\<lambda>c. cid_equal c cid) list"

definition mst_cid_list_push :: "wf_cid list \<Rightarrow> wf_cid \<Rightarrow> wf_cid list" where
  "mst_cid_list_push list cid = (if mst_cid_list_contains list cid then list else list @ [cid])"

section \<open>The walk\<close>

type_synonym 'c walk_cb = "'c \<Rightarrow> bytes \<Rightarrow> wf_cid \<Rightarrow> 'c \<times> unit res"

text \<open>Sequencing of steps that change the callback's context.\<close>

definition and_then_ctx :: "'c \<times> unit res \<Rightarrow> ('c \<Rightarrow> 'c \<times> unit res) \<Rightarrow> 'c \<times> unit res" where
  "and_then_ctx r f = (case r of (ctx, Inl e) \<Rightarrow> (ctx, Inl e) | (ctx, Inr _) \<Rightarrow> f ctx)"

lemma and_then_ctx_cong [fundef_cong]:
  "r = r' \<Longrightarrow> (\<And>ctx. r' = (ctx, Inr ()) \<Longrightarrow> f ctx = g ctx) \<Longrightarrow> and_then_ctx r f = and_then_ctx r' g"
  by (auto simp: and_then_ctx_def split: prod.splits sum.splits)

lemma and_then_ctx_simps [simp]:
  "and_then_ctx (ctx, Inl e) f = (ctx, Inl e)"
  "and_then_ctx (ctx, Inr x) f = f ctx"
  by (simp_all add: and_then_ctx_def)

text \<open>\<open>from_key\<close> is \<open>None\<close> when \<^verbatim>\<open>has_from\<close> is not set.\<close>

function (sequential)
  mst_walk_node ::
    "platform \<Rightarrow> wf_car \<Rightarrow> bytes option \<Rightarrow> 'c walk_cb \<Rightarrow> wf_cid \<Rightarrow> 'c \<Rightarrow> nat \<Rightarrow> 'c \<times> unit res"
  and mst_walk_entries ::
    "platform \<Rightarrow> wf_car \<Rightarrow> bytes option \<Rightarrow> 'c walk_cb \<Rightarrow> wf_mst_entry list \<Rightarrow> 'c \<Rightarrow> nat \<Rightarrow> 'c \<times> unit res" where
  "mst_walk_node P car from_key cb cid ctx depth =
     (if depth_exceeded car depth then (ctx, Inl WF_ERR_PARSE)
      else case wf_car_find_block car cid of
             None \<Rightarrow> (ctx, Inl WF_ERR_PARSE)
           | Some block \<Rightarrow>
               (case wf_mst_node_parse P (blk_data block) cid of
                  Inl s \<Rightarrow> (ctx, Inl s)
                | Inr node \<Rightarrow>
                    and_then_ctx
                      (if node_left node = [] then (ctx, Inr ())
                       else mst_walk_node P car from_key cb (node_left node) ctx (depth + 1))
                      (\<lambda>ctx. mst_walk_entries P car from_key cb (node_entries node) ctx (depth + 1))))"
| "mst_walk_entries P car from_key cb [] ctx depth = (ctx, Inr ())"
| "mst_walk_entries P car from_key cb (e # es) ctx depth =
     and_then_ctx
       (if (case from_key of None \<Rightarrow> True | Some f \<Rightarrow> 0 \<le> wf_mst_key_cmp (ent_key e) f)
        then cb ctx (ent_key e) (ent_value e) else (ctx, Inr ()))
       (\<lambda>ctx.
     and_then_ctx
       (if ent_subtree e = [] then (ctx, Inr ())
        else mst_walk_node P car from_key cb (ent_subtree e) ctx depth)
       (\<lambda>ctx. mst_walk_entries P car from_key cb es ctx depth))"
  by pat_completeness auto
termination
  by (relation "measures
        [\<lambda>x. case x of Inl (_, _, _, _, _, _, d) \<Rightarrow> 2 * (1026 - d)
            | Inr (_, _, _, _, _, _, d) \<Rightarrow> 2 * (1026 - d) + 1,
         \<lambda>x. case x of Inl _ \<Rightarrow> 0 | Inr (_, _, _, _, es, _, _) \<Rightarrow> length es]")
    (auto simp: depth_exceeded_def)

declare mst_walk_node.simps [simp del]

definition wf_mst_walk_from ::
  "platform \<Rightarrow> wf_car \<Rightarrow> wf_cid \<Rightarrow> bytes option \<Rightarrow> 'c walk_cb \<Rightarrow> 'c \<Rightarrow> 'c \<times> unit res" where
  "wf_mst_walk_from P car root from_key cb ctx =
     (if root = [] then (ctx, Inr ()) else mst_walk_node P car from_key cb root ctx 0)"

type_synonym wf_mst_leaf = "bytes \<times> wf_cid"

text \<open>The collecting callback: all leaves, or those of one collection.\<close>

definition mst_collect_cb :: "bytes option \<Rightarrow> wf_mst_leaf list walk_cb" where
  "mst_collect_cb coll acc key value =
     (if (case coll of None \<Rightarrow> True
          | Some c \<Rightarrow> length c < length key \<and> key ! length c = 47 \<and> memcmp (take (length c) key) c = 0)
      then (acc @ [(key, value)], Inr ()) else (acc, Inr ()))"

definition mst_collect :: "platform \<Rightarrow> wf_car \<Rightarrow> wf_cid \<Rightarrow> bytes option \<Rightarrow> wf_mst_leaf list res" where
  "mst_collect P car root coll =
     (case mst_walk_node P car None (mst_collect_cb coll) root [] 0 of
        (_, Inl s) \<Rightarrow> Inl s
      | (acc, Inr _) \<Rightarrow> Inr acc)"

definition wf_mst_list :: "platform \<Rightarrow> wf_car \<Rightarrow> wf_cid \<Rightarrow> wf_mst_leaf list res" where
  "wf_mst_list P car root = (if root = [] then Inr [] else mst_collect P car root None)"

definition wf_mst_paths :: "platform \<Rightarrow> wf_car \<Rightarrow> wf_cid \<Rightarrow> bytes \<Rightarrow> wf_mst_leaf list res" where
  "wf_mst_paths P car root collection =
     (if collection = [] then Inl WF_ERR_INVALID_ARG
      else if root = [] then Inr []
      else mst_collect P car root (Some collection))"

section \<open>All CIDs\<close>

function (sequential)
  mst_all_cids_node :: "platform \<Rightarrow> wf_car \<Rightarrow> wf_cid \<Rightarrow> wf_cid list \<Rightarrow> nat \<Rightarrow> wf_cid list res"
  and mst_all_cids_entries ::
    "platform \<Rightarrow> wf_car \<Rightarrow> wf_mst_entry list \<Rightarrow> wf_cid list \<Rightarrow> nat \<Rightarrow> wf_cid list res" where
  "mst_all_cids_node P car cid out depth =
     (if cid = [] then Inr out
      else if depth_exceeded car depth then Inl WF_ERR_PARSE
      else if mst_cid_list_contains out cid then Inr out
      else
        let out = mst_cid_list_push out cid
        in case wf_car_find_block car cid of
             None \<Rightarrow> Inl WF_ERR_PARSE
           | Some block \<Rightarrow>
               (case wf_mst_node_parse P (blk_data block) cid of
                  Inl s \<Rightarrow> Inl s
                | Inr node \<Rightarrow>
                    (case mst_all_cids_node P car (node_left node) out (depth + 1) of
                       Inl s \<Rightarrow> Inl s
                     | Inr out \<Rightarrow> mst_all_cids_entries P car (node_entries node) out (depth + 1))))"
| "mst_all_cids_entries P car [] out depth = Inr out"
| "mst_all_cids_entries P car (e # es) out depth =
     (case mst_all_cids_node P car (ent_subtree e) (mst_cid_list_push out (ent_value e)) depth of
        Inl s \<Rightarrow> Inl s
      | Inr out \<Rightarrow> mst_all_cids_entries P car es out depth)"
  by pat_completeness auto
termination
  by (relation "measures
        [\<lambda>x. case x of Inl (_, _, _, _, d) \<Rightarrow> 2 * (1026 - d) | Inr (_, _, _, _, d) \<Rightarrow> 2 * (1026 - d) + 1,
         \<lambda>x. case x of Inl _ \<Rightarrow> 0 | Inr (_, _, es, _, _) \<Rightarrow> length es]")
    (auto simp: depth_exceeded_def)

declare mst_all_cids_node.simps [simp del]

definition wf_mst_get_all_cids :: "platform \<Rightarrow> wf_car \<Rightarrow> wf_cid \<Rightarrow> wf_cid list res" where
  "wf_mst_get_all_cids P car root = (if root = [] then Inr [] else mst_all_cids_node P car root [] 0)"

section \<open>Counting and proofs\<close>

definition key_in_range :: "bytes \<Rightarrow> bytes option \<Rightarrow> bytes \<Rightarrow> bool" where
  "key_in_range from_key to_key key \<longleftrightarrow>
     0 \<le> wf_mst_key_cmp key from_key \<and>
     (case to_key of None \<Rightarrow> True | Some t \<Rightarrow> wf_mst_key_cmp key t < 0)"

function (sequential)
  mst_count_in_range :: "platform \<Rightarrow> wf_car \<Rightarrow> bytes \<Rightarrow> bytes option \<Rightarrow> wf_cid \<Rightarrow> nat \<Rightarrow> nat res"
  and mst_count_entries ::
    "platform \<Rightarrow> wf_car \<Rightarrow> bytes \<Rightarrow> bytes option \<Rightarrow> wf_mst_entry list \<Rightarrow> nat \<Rightarrow> nat \<Rightarrow> nat res" where
  "mst_count_in_range P car from_key to_key cid depth =
     (if cid = [] then Inr 0
      else if depth_exceeded car depth then Inl WF_ERR_PARSE
      else case wf_car_find_block car cid of
             None \<Rightarrow> Inl WF_ERR_PARSE
           | Some block \<Rightarrow>
               (case wf_mst_node_parse P (blk_data block) cid of
                  Inl s \<Rightarrow> Inl s
                | Inr node \<Rightarrow>
                    (case mst_count_in_range P car from_key to_key (node_left node) (depth + 1) of
                       Inl s \<Rightarrow> Inl s
                     | Inr c \<Rightarrow> mst_count_entries P car from_key to_key (node_entries node) c (depth + 1))))"
| "mst_count_entries P car from_key to_key [] out depth = Inr out"
| "mst_count_entries P car from_key to_key (e # es) out depth =
     (case mst_count_in_range P car from_key to_key (ent_subtree e) depth of
        Inl s \<Rightarrow> Inl s
      | Inr c \<Rightarrow>
          mst_count_entries P car from_key to_key es
            (out + c + (if key_in_range from_key to_key (ent_key e) then 1 else 0)) depth)"
  by pat_completeness auto
termination
  by (relation "measures
        [\<lambda>x. case x of Inl (_, _, _, _, _, d) \<Rightarrow> 2 * (1026 - d)
            | Inr (_, _, _, _, _, _, d) \<Rightarrow> 2 * (1026 - d) + 1,
         \<lambda>x. case x of Inl _ \<Rightarrow> 0 | Inr (_, _, _, _, es, _, _) \<Rightarrow> length es]")
    (auto simp: depth_exceeded_def)

declare mst_count_in_range.simps [simp del]

text \<open>The path to a key: the visited node CIDs and the leaf's value, empty when the key is absent.\<close>

function mst_path_loop ::
  "platform \<Rightarrow> wf_car \<Rightarrow> bytes \<Rightarrow> nat \<Rightarrow> wf_cid list \<Rightarrow> wf_cid \<Rightarrow> (wf_cid list \<times> wf_cid) res" where
  "mst_path_loop P car key steps list current =
     (if depth_exceeded car steps then Inl WF_ERR_PARSE
      else
        let list = mst_cid_list_push list current
        in case wf_car_find_block car current of
             None \<Rightarrow> Inl WF_ERR_PARSE
           | Some block \<Rightarrow>
               (case wf_mst_node_parse P (blk_data block) current of
                  Inl s \<Rightarrow> Inl s
                | Inr node \<Rightarrow>
                    (case mst_scan key (node_entries node) 0 of
                       (Some value, idx) \<Rightarrow> Inr (list, value)
                     | (None, idx) \<Rightarrow>
                         (let subtree = mst_next node idx
                          in if subtree \<noteq> [] then mst_path_loop P car key (steps + 1) list subtree
                             else Inr (list, [])))))"
  by pat_completeness auto
termination
  by (relation "measure (\<lambda>(_, _, _, steps, _, _). 1025 - steps)") (auto simp: depth_exceeded_def)

declare mst_path_loop.simps [simp del]

definition wf_mst_cids_for_path ::
  "platform \<Rightarrow> wf_car \<Rightarrow> wf_cid \<Rightarrow> bytes \<Rightarrow> (wf_cid list \<times> wf_cid) res" where
  "wf_mst_cids_for_path P car root_cid key =
     (if key = [] then Inl WF_ERR_INVALID_ARG
      else if root_cid = [] then Inr ([], [])
      else mst_path_loop P car key 0 [] root_cid)"

function (sequential)
  mst_collect_proof ::
    "platform \<Rightarrow> wf_car \<Rightarrow> bytes \<Rightarrow> bytes option \<Rightarrow> wf_cid \<Rightarrow> wf_cid list \<Rightarrow> nat \<Rightarrow> wf_cid list res"
  and mst_collect_proof_entries ::
    "platform \<Rightarrow> wf_car \<Rightarrow> bytes \<Rightarrow> bytes option \<Rightarrow> wf_mst_entry list \<Rightarrow> wf_cid list \<Rightarrow> nat \<Rightarrow> wf_cid list res" where
  "mst_collect_proof P car from_key to_key cid out depth =
     (if cid = [] then Inr out
      else if depth_exceeded car depth then Inl WF_ERR_PARSE
      else case mst_count_in_range P car from_key to_key cid 0 of
             Inl s \<Rightarrow> Inl s
           | Inr n \<Rightarrow>
               (if n = 0 then Inr out
                else
                  let out = mst_cid_list_push out cid
                  in case wf_car_find_block car cid of
                       None \<Rightarrow> Inl WF_ERR_PARSE
                     | Some block \<Rightarrow>
                         (case wf_mst_node_parse P (blk_data block) cid of
                            Inl s \<Rightarrow> Inl s
                          | Inr node \<Rightarrow>
                              (case mst_collect_proof P car from_key to_key (node_left node) out (depth + 1) of
                                 Inl s \<Rightarrow> Inl s
                               | Inr out \<Rightarrow>
                                   mst_collect_proof_entries P car from_key to_key (node_entries node) out (depth + 1)))))"
| "mst_collect_proof_entries P car from_key to_key [] out depth = Inr out"
| "mst_collect_proof_entries P car from_key to_key (e # es) out depth =
     (case mst_collect_proof P car from_key to_key (ent_subtree e) out depth of
        Inl s \<Rightarrow> Inl s
      | Inr out \<Rightarrow> mst_collect_proof_entries P car from_key to_key es out depth)"
  by pat_completeness auto
termination
  by (relation "measures
        [\<lambda>x. case x of Inl (_, _, _, _, _, _, d) \<Rightarrow> 2 * (1026 - d)
            | Inr (_, _, _, _, _, _, d) \<Rightarrow> 2 * (1026 - d) + 1,
         \<lambda>x. case x of Inl _ \<Rightarrow> 0 | Inr (_, _, _, _, es, _, _) \<Rightarrow> length es]")
    (auto simp: depth_exceeded_def)

declare mst_collect_proof.simps [simp del]

definition wf_mst_get_covering_proof ::
  "platform \<Rightarrow> wf_car \<Rightarrow> wf_cid \<Rightarrow> bytes \<Rightarrow> bytes option \<Rightarrow> wf_cid list res" where
  "wf_mst_get_covering_proof P car root from_key to_key =
     (if from_key = [] then Inl WF_ERR_INVALID_ARG
      else if root = [] then Inr []
      else mst_collect_proof P car from_key to_key root [] 0)"

end
