(* ===== verification/Mst_Tree.thy ===== *)
theory Mst_Tree
  imports Mst_Traverse
begin

text \<open>
  Trees, and how a CAR represents them. A tree is what a reader of the blocks sees; \<open>leaves\<close> lists
  its keys and values in order. \<open>mst_rep P car c t\<close> says that the blocks reachable from the CID \<open>c\<close>
  parse to \<open>t\<close>; every reading operation of \<^verbatim>\<open>mst.c\<close> is then characterised by the leaves.
\<close>

section \<open>Trees\<close>

text \<open>\<open>MNil\<close> is the absent subtree (a CID of length 0), \<open>MNode\<close> a block.\<close>

datatype mst = MNil | MNode mst "(bytes \<times> wf_cid \<times> mst) list"

lemma size_mst_child [termination_simp]:
  "(k, v, s) \<in> set es \<Longrightarrow> size s < Suc (size l + size_list (size_prod (\<lambda>_. 0) (size_prod (\<lambda>_. 0) size)) es)"
  by (induction es) auto

fun leaves :: "mst \<Rightarrow> (bytes \<times> wf_cid) list" where
  "leaves MNil = []"
| "leaves (MNode l es) = leaves l @ concat (map (\<lambda>(k, v, s). (k, v) # leaves s) es)"

definition ent_leaves :: "(bytes \<times> wf_cid \<times> mst) list \<Rightarrow> (bytes \<times> wf_cid) list" where
  "ent_leaves es = concat (map (\<lambda>(k, v, s). (k, v) # leaves s) es)"

lemma ent_leaves_simps [simp]:
  "ent_leaves [] = []"
  "ent_leaves ((k, v, s) # es) = (k, v) # leaves s @ ent_leaves es"
  "ent_leaves (es @ es') = ent_leaves es @ ent_leaves es'"
  by (simp_all add: ent_leaves_def)

lemma leaves_Node [simp]: "leaves (MNode l es) = leaves l @ ent_leaves es"
  by (simp add: ent_leaves_def)

declare leaves.simps(2) [simp del]

lemma set_ent_leaves:
  "x \<in> set (ent_leaves es) \<longleftrightarrow> (\<exists>k v s. (k, v, s) \<in> set es \<and> (x = (k, v) \<or> x \<in> set (leaves s)))"
  by (fastforce simp: ent_leaves_def)

fun height :: "mst \<Rightarrow> nat" where
  "height MNil = 0"
| "height (MNode l es) = Suc (Max (set (height l # map (\<lambda>(k, v, s). height s) es)))"

lemma set_leaves_sub: "(k, v, s) \<in> set es \<Longrightarrow> set (leaves s) \<subseteq> set (ent_leaves es)"
  unfolding subset_iff set_ent_leaves by blast

abbreviation leaf_keys :: "mst \<Rightarrow> bytes list" where
  "leaf_keys t \<equiv> map fst (leaves t)"

abbreviation keys_sorted :: "(bytes \<times> wf_cid) list \<Rightarrow> bool" where
  "keys_sorted ls \<equiv> sorted_wrt (<) (map fst ls)"

lemma height_left: "height l < height (MNode l es)"
  by (simp add: less_Suc_eq_le)

lemma height_sub:
  assumes "(k, v, s) \<in> set es"
  shows "height s < height (MNode l es)"
proof -
  have "height s \<in> set (height l # map (\<lambda>(k, v, s). height s) es)"
    using assms by force
  then show ?thesis unfolding height.simps less_Suc_eq_le by (intro Max_ge) auto
qed

lemma height_child:
  "n \<le> height (MNode l es) \<Longrightarrow> n \<noteq> height (MNode l es) \<Longrightarrow>
     n \<le> height l \<or> (\<exists>(k, v, s) \<in> set es. n \<le> height s)"
proof -
  assume "n \<le> height (MNode l es)" "n \<noteq> height (MNode l es)"
  then have "n \<le> Max (set (height l # map (\<lambda>(k, v, s). height s) es))" by simp
  moreover have "Max (set (height l # map (\<lambda>(k, v, s). height s) es)) \<in>
      set (height l # map (\<lambda>(k, v, s). height s) es)" by (intro Max_in) auto
  ultimately show ?thesis by force
qed

lemma list_all2_pick: "list_all2 R xs ys \<Longrightarrow> y \<in> set ys \<Longrightarrow> \<exists>x \<in> set xs. R x y"
  by (induction rule: list_all2_induct) auto

lemma sorted_left: "keys_sorted (leaves (MNode l es)) \<Longrightarrow> keys_sorted (leaves l)"
  by (simp add: sorted_wrt_append)

lemma sorted_sub: "keys_sorted (leaves (MNode l es)) \<Longrightarrow> (k, v, s) \<in> set es \<Longrightarrow> keys_sorted (leaves s)"
  by (auto simp: sorted_wrt_append dest!: split_list)

section \<open>Representation\<close>

abbreviation entry_rep ::
  "(wf_cid \<Rightarrow> mst \<Rightarrow> bool) \<Rightarrow> wf_mst_entry \<Rightarrow> bytes \<times> wf_cid \<times> mst \<Rightarrow> bool" where
  "entry_rep R e kvs \<equiv>
     ent_key e = fst kvs \<and> ent_value e = fst (snd kvs) \<and> R (ent_subtree e) (snd (snd kvs))"

inductive mst_rep :: "platform \<Rightarrow> wf_car \<Rightarrow> wf_cid \<Rightarrow> mst \<Rightarrow> bool"
  for P car where
  mst_rep_Nil: "mst_rep P car [] MNil"
| mst_rep_Node:
    "c \<noteq> [] \<Longrightarrow> wf_car_find_block car c = Some b \<Longrightarrow> wf_mst_node_parse P (blk_data b) c = Inr node \<Longrightarrow>
     mst_rep P car (node_left node) l \<Longrightarrow>
     list_all2 (\<lambda>e kvs. ent_key e = fst kvs \<and> ent_value e = fst (snd kvs) \<and>
                        mst_rep P car (ent_subtree e) (snd (snd kvs))) (node_entries node) es \<Longrightarrow>
     mst_rep P car c (MNode l es)"
  monos list.rel_mono_strong

inductive_cases mst_rep_NilE: "mst_rep P car c MNil"
inductive_cases mst_rep_NodeE: "mst_rep P car c (MNode l es)"
inductive_cases mst_rep_emptyE: "mst_rep P car [] t"

lemma mst_rep_empty_iff [simp]: "mst_rep P car [] t \<longleftrightarrow> t = MNil"
  by (auto elim: mst_rep_emptyE intro: mst_rep_Nil)

lemma mst_rep_Nil_iff [simp]: "mst_rep P car c MNil \<longleftrightarrow> c = []"
  by (auto elim: mst_rep_NilE)

lemma mst_rep_Node_iff:
  "mst_rep P car c (MNode l es) \<longleftrightarrow> c \<noteq> [] \<and> (\<exists>b node. wf_car_find_block car c = Some b \<and>
     wf_mst_node_parse P (blk_data b) c = Inr node \<and> mst_rep P car (node_left node) l \<and>
     list_all2 (entry_rep (mst_rep P car)) (node_entries node) es)"
  by (auto elim!: mst_rep_NodeE intro: mst_rep_Node)

lemma mst_rep_NodeD:
  assumes "mst_rep P car c (MNode l es)"
  obtains b node where "wf_car_find_block car c = Some b" "wf_mst_node_parse P (blk_data b) c = Inr node"
    "mst_rep P car (node_left node) l" "list_all2 (entry_rep (mst_rep P car)) (node_entries node) es"
    "c \<noteq> []"
  using assms by (auto simp: mst_rep_Node_iff)

text \<open>A CID represents one tree only.\<close>

lemma mst_rep_functional:
  "mst_rep P car c t \<Longrightarrow> mst_rep P car c u \<Longrightarrow> t = u"
proof (induction t arbitrary: c u)
  case (MNode l es)
  from MNode.prems(1) have "c \<noteq> []" by (simp add: mst_rep_Node_iff)
  with MNode.prems obtain l' es' where u: "u = MNode l' es'" by (cases u) auto
  from MNode.prems u obtain node :: wf_mst_node where n: "mst_rep P car (node_left node) l" "mst_rep P car (node_left node) l'"
    "list_all2 (entry_rep (mst_rep P car)) (node_entries node) es"
    "list_all2 (entry_rep (mst_rep P car)) (node_entries node) es'"
    by (auto simp: mst_rep_Node_iff)
  have "list_all2 (=) es es'"
  proof (rule list_all2_all_nthI)
    show "length es = length es'" using list_all2_lengthD [OF n(3)] list_all2_lengthD [OF n(4)] by simp
  next
    fix i assume i: "i < length es"
    then have "i < length (node_entries node)" using n(3) by (simp add: list_all2_lengthD)
    then have "entry_rep (mst_rep P car) (node_entries node ! i) (es ! i)"
      "entry_rep (mst_rep P car) (node_entries node ! i) (es' ! i)"
      using n(3,4) by (auto dest: list_all2_nthD)
    moreover obtain k v s k' v' s' where "es ! i = (k, v, s)" "es' ! i = (k', v', s')"
      by (metis prod_cases3)
    moreover from this i have "(k, v, s) \<in> set es" by (metis nth_mem)
    ultimately show "es ! i = es' ! i"
      using MNode.IH(2) [of "(k, v, s)" "(v, s)" s "ent_subtree (node_entries node ! i)" s'] by simp
  qed
  then show ?case using MNode.IH(1) [OF n(1,2)] by (simp add: u list.rel_eq)
qed simp

text \<open>Reading is unaffected by blocks appended later.\<close>

definition car_ext :: "wf_car \<Rightarrow> wf_car \<Rightarrow> bool" where
  "car_ext car car' \<longleftrightarrow> car_roots car' = car_roots car \<and> (\<exists>bs. car_blocks car' = car_blocks car @ bs)"

lemma car_ext_refl [simp, intro]: "car_ext car car"
  by (simp add: car_ext_def)

lemma car_ext_trans [trans]: "car_ext a b \<Longrightarrow> car_ext b c \<Longrightarrow> car_ext a c"
  by (auto simp: car_ext_def)

lemma find_append_Some: "find p xs = Some x \<Longrightarrow> find p (xs @ ys) = Some x"
  by (induction xs) (auto split: if_splits)

lemma find_block_ext:
  "car_ext car car' \<Longrightarrow> wf_car_find_block car c = Some b \<Longrightarrow> wf_car_find_block car' c = Some b"
  by (auto simp: car_ext_def wf_car_find_block_def find_append_Some)

lemma mst_rep_ext: "mst_rep P car c t \<Longrightarrow> car_ext car car' \<Longrightarrow> mst_rep P car' c t"
  by (induction rule: mst_rep.induct)
    (auto simp: mst_rep_Node_iff find_block_ext elim: list.rel_mono_strong)

section \<open>Height and the block count\<close>

lemma find_block_mem: "wf_car_find_block car c = Some b \<Longrightarrow> b \<in> set (car_blocks car) \<and> blk_cid b = c"
  by (auto simp: wf_car_find_block_eq find_Some_iff in_set_conv_nth)

lemma mst_rep_heights:
  "mst_rep P car c t \<Longrightarrow> 1 \<le> n \<Longrightarrow> n \<le> height t \<Longrightarrow>
     \<exists>c' u. mst_rep P car c' u \<and> height u = n \<and> c' \<in> blk_cid ` set (car_blocks car)"
proof (induction t arbitrary: c)
  case (MNode l es)
  from MNode.prems(1) obtain b and node :: wf_mst_node where n: "wf_car_find_block car c = Some b"
    "mst_rep P car (node_left node) l" "list_all2 (entry_rep (mst_rep P car)) (node_entries node) es"
    by (auto simp: mst_rep_Node_iff)
  show ?case
  proof (cases "n = height (MNode l es)")
    case True
    then show ?thesis
      using MNode.prems(1) find_block_mem [OF n(1)] by (intro exI [of _ c] exI [of _ "MNode l es"]) auto
  next
    case False
    then consider "n \<le> height l" | k v s where "(k, v, s) \<in> set es" "n \<le> height s"
      using height_child [OF MNode.prems(3) False] by auto
    then show ?thesis
    proof cases
      case 1
      then show ?thesis using MNode.IH(1) [OF n(2) MNode.prems(2)] by simp
    next
      case 2
      from 2(1) n(3) obtain c' where "mst_rep P car c' s"
        using list_all2_pick [OF n(3) 2(1)] by auto
      then show ?thesis using MNode.IH(2) [OF 2(1), of "(v, s)" s] 2(2) MNode.prems(2) by auto
    qed
  qed
qed simp

lemma mst_rep_height_bound:
  assumes "mst_rep P car c t"
  shows "height t \<le> length (car_blocks car)"
proof -
  let ?C = "blk_cid ` set (car_blocks car)"
  let ?f = "\<lambda>c. height (THE u. mst_rep P car c u)"
  have the: "(THE u. mst_rep P car c' u) = u" if "mst_rep P car c' u" for c' u
    using that by (intro the_equality) (auto intro: mst_rep_functional)
  have "{1..height t} \<subseteq> ?f ` ?C"
    using mst_rep_heights [OF assms] the by (fastforce simp: image_iff)
  then have "card {1..height t} \<le> card (?f ` ?C)" by (intro card_mono) auto
  also have "\<dots> \<le> card (set (car_blocks car))"
    by (simp add: image_image card_image_le)
  also have "\<dots> \<le> length (car_blocks car)" by (rule card_length)
  finally show ?thesis by simp
qed

text \<open>The guard of the bounded descents never fires on a represented tree of moderate height.\<close>

definition room :: "wf_car \<Rightarrow> nat \<Rightarrow> mst \<Rightarrow> bool" where
  "room car d t \<longleftrightarrow> d + height t \<le> 1025 \<and> d + height t \<le> length (car_blocks car)"

lemma room_root: "mst_rep P car c t \<Longrightarrow> height t \<le> 1025 \<Longrightarrow> room car 0 t"
  by (simp add: room_def mst_rep_height_bound)

lemma room_guard: "room car d (MNode l es) \<Longrightarrow> \<not> depth_exceeded car d"
  by (auto simp: room_def depth_exceeded_def)

lemma room_left: "room car d (MNode l es) \<Longrightarrow> room car (Suc d) l"
  using height_left [of l es] by (auto simp: room_def)

lemma room_sub: "room car d (MNode l es) \<Longrightarrow> (k, v, s) \<in> set es \<Longrightarrow> room car (Suc d) s"
  using height_sub [of k v s es l] by (auto simp: room_def)

end
