(* ===== verification/Mst_Read.thy ===== *)
theory Mst_Read
  imports Mst_Tree
begin

text \<open>
  The reading operations on a represented tree: lookup agrees with the association list of the
  leaves, the walk visits them in order, counting counts them, and the node path of a key is a proof:
  any CAR that holds the blocks on it answers the lookup in the same way.
\<close>

section \<open>What parsing guarantees\<close>

lemma key_valid_length: "wf_mst_key_is_valid k \<Longrightarrow> k \<noteq> [] \<and> length k \<le> 1024"
  by (auto simp: wf_mst_key_is_valid_def split: if_splits)

lemma parse_entries_ok:
  "mst_parse_entries prev items = Inr ents \<Longrightarrow>
     list_all (\<lambda>e. wf_mst_key_is_valid (ent_key e) \<and> length (ent_value e) = 36) ents"
proof (induction items arbitrary: prev ents)
  case (Cons entry items)
  from Cons.prems show ?case
    by (auto simp: Let_def split: option.splits wf_cbor_item.splits if_splits sum.splits dest: Cons.IH)
qed simp

lemma node_parse_ok:
  assumes "wf_mst_node_parse P d c = Inr node"
  shows "list_all (\<lambda>e. wf_mst_key_is_valid (ent_key e) \<and> length (ent_value e) = 36) (node_entries node)"
    "node_cid node = c" "mst_keys_ascend (node_entries node)"
    "node_layer node = (case node_entries node of [] \<Rightarrow> 0 | e # _ \<Rightarrow> wf_mst_key_layer P (ent_key e))"
  using assms
  by (auto simp: wf_mst_node_parse_def Let_def parse_entries_ok
      split: option.splits wf_cbor_item.splits if_splits sum.splits)

lemma mst_rep_keys: "mst_rep P car c t \<Longrightarrow> (k, v) \<in> set (leaves t) \<Longrightarrow> wf_mst_key_is_valid k \<and> length v = 36"
proof (induction t arbitrary: c)
  case (MNode l es)
  from MNode.prems(1) obtain b node where n0: "wf_car_find_block car c = Some b"
    and n: "wf_mst_node_parse P (blk_data b) c = Inr node" "mst_rep P car (node_left node) l" "list_all2 (entry_rep (mst_rep P car)) (node_entries node) es"
    by (rule mst_rep_NodeD)
  from MNode.prems(2) consider "(k, v) \<in> set (leaves l)" | s where "(k, v, s) \<in> set es"
    | k' v' s where "(k', v', s) \<in> set es" "(k, v) \<in> set (leaves s)"
    by (auto simp: set_ent_leaves)
  then show ?case
  proof cases
    case 1
    then show ?thesis using MNode.IH(1) n(2) by blast
  next
    case 2
    then show ?thesis using list_all2_pick [OF n(3)] node_parse_ok(1) [OF n(1)] by (force simp: list_all_iff)
  next
    case 3
    then show ?thesis using list_all2_pick [OF n(3) 3(1)] MNode.IH(2) [OF 3(1), of "(v', s)" s] by auto
  qed
qed simp

lemma mst_rep_key_short: "mst_rep P car c t \<Longrightarrow> k \<in> set (leaf_keys t) \<Longrightarrow> length k < 2 ^ 31"
  using mst_rep_keys key_valid_length by fastforce

section \<open>Lookup\<close>

lemma map_of_low: "(\<forall>k' \<in> fst ` set ys. k < k') \<Longrightarrow> map_of (xs @ ys) k = map_of xs k"
  for k :: bytes
proof -
  assume "\<forall>k' \<in> fst ` set ys. k < k'"
  then have "map_of ys k = None" by (auto simp: map_of_eq_None_iff)
  then show ?thesis by (simp add: map_add_def split: option.splits)
qed

lemma map_of_high: "(\<forall>k' \<in> fst ` set xs. k' < k) \<Longrightarrow> map_of (xs @ ys) k = map_of ys k"
  for k :: bytes
proof -
  assume "\<forall>k' \<in> fst ` set xs. k' < k"
  then have "map_of xs k = None" by (auto simp: map_of_eq_None_iff)
  then show ?thesis by (simp add: map_add_def split: option.splits)
qed

lemma scan_lookup:
  assumes "list_all2 (entry_rep R) ents es" "keys_sorted (ls @ ent_leaves es)" "length key < 2 ^ 31"
    "\<forall>k \<in> set (map fst (ls @ ent_leaves es)). length k < 2 ^ 31"
  shows "case mst_scan key ents i of
      (Some v, j) \<Rightarrow> map_of (ls @ ent_leaves es) key = Some v
    | (None, j) \<Rightarrow> i \<le> j \<and> j \<le> i + length es \<and>
        map_of (ls @ ent_leaves es) key = map_of (if j = i then ls else leaves (snd (snd (es ! (j - i - 1))))) key"
  using assms
proof (induction ents es arbitrary: ls i rule: list_all2_induct)
  case (Cons e ents kvs es)
  obtain k v s where kvs: "kvs = (k, v, s)" by (cases kvs)
  with Cons.hyps have e: "ent_key e = k" "ent_value e = v" by auto
  have ls: "\<forall>k' \<in> fst ` set ls. k' < k" and es: "\<forall>k' \<in> fst ` set (leaves s @ ent_leaves es). k < k'"
    using Cons.prems(1) kvs by (auto simp: sorted_wrt_append)
  have "length k < 2 ^ 31" using Cons.prems(3) kvs by auto
  note cmp = key_cmp_order [OF Cons.prems(2) this]
  consider "key = k" | "key < k" | "k < key" by force
  then show ?case
  proof cases
    case 1
    then show ?thesis using cmp map_of_high [OF ls, of "(k, v) # leaves s @ ent_leaves es"]
      by (simp add: kvs e wf_mst_key_cmp_def)
  next
    case 2
    then have "\<forall>k' \<in> fst ` set ((k, v) # leaves s @ ent_leaves es). key < k'"
      using es less_trans [of key k] by (simp only: list.set image_insert fst_conv) blast
    from map_of_low [OF this, of ls] 2 cmp show ?thesis
      by (simp add: kvs e wf_mst_key_cmp_def)
  next
    case 3
    then have up: "\<forall>k' \<in> fst ` set (ls @ [(k, v)]). k' < key" using ls less_trans [OF _ 3]
      by (simp only: set_append list.set image_Un image_insert image_empty fst_conv) blast
    have "keys_sorted (leaves s @ ent_leaves es)" "\<forall>k \<in> set (map fst (leaves s @ ent_leaves es)). length k < 2 ^ 31"
      using Cons.prems kvs by (auto simp: sorted_wrt_append)
    note IH = Cons.IH [OF this(1) Cons.prems(2) this(2), of "Suc i"]
    have eq: "map_of (ls @ ent_leaves (kvs # es)) key = map_of (leaves s @ ent_leaves es) key"
      using map_of_high [OF up, of "leaves s @ ent_leaves es"] by (simp add: kvs)
    have sc: "mst_scan key (e # ents) i = mst_scan key ents (Suc i)"
      using 3 cmp by (simp add: e wf_mst_key_cmp_def)
    show ?thesis
    proof (cases "mst_scan key ents (Suc i)")
      case (Pair hit j)
      then show ?thesis using IH unfolding sc eq
        by (cases hit) (auto simp: kvs nth_Cons' le_Suc_eq Suc_le_eq split: if_splits)
    qed
  qed
qed simp

lemma mst_next_eq:
  "j \<le> node_count node \<Longrightarrow>
     mst_next node j = (if j = 0 then node_left node else ent_subtree (node_entries node ! (j - 1)))"
  by (auto simp: mst_next_def Let_def)

text \<open>One step of a search in a node: a hit, or the child where the search goes on.\<close>

lemma search_step:
  assumes "list_all2 (entry_rep (mst_rep P car)) (node_entries node) es" "mst_rep P car (node_left node) l"
    "keys_sorted (leaves (MNode l es))" "length key < 2 ^ 31"
    "\<forall>k \<in> set (leaf_keys (MNode l es)). length k < 2 ^ 31"
  shows "case mst_scan key (node_entries node) 0 of
      (Some v, j) \<Rightarrow> map_of (leaves (MNode l es)) key = Some v
    | (None, j) \<Rightarrow> (\<exists>s. mst_rep P car (mst_next node j) s \<and> (s = l \<or> (\<exists>k v. (k, v, s) \<in> set es)) \<and>
        map_of (leaves (MNode l es)) key = map_of (leaves s) key)"
proof -
  obtain hit j where sc: "mst_scan key (node_entries node) 0 = (hit, j)" by fastforce
  note step = scan_lookup [OF assms(1), of "leaves l" key 0]
  have len: "length (node_entries node) = length es" using assms(1) by (rule list_all2_lengthD)
  show ?thesis
  proof (cases hit)
    case (Some v)
    then show ?thesis using step assms(3,4,5) sc by simp
  next
    case None
    then have j: "j \<le> length es" and m: "map_of (leaves (MNode l es)) key =
        map_of (if j = 0 then leaves l else leaves (snd (snd (es ! (j - 1))))) key"
      using step assms(3,4,5) sc by (auto split: if_splits)
    show ?thesis
    proof (cases "j = 0")
      case True
      then show ?thesis using assms(2) m sc None by (auto simp: mst_next_eq)
    next
      case False
      then have lt: "j - 1 < length es" using j by simp
      obtain k v s where es: "es ! (j - 1) = (k, v, s)" by (metis prod_cases3)
      have "entry_rep (mst_rep P car) (node_entries node ! (j - 1)) (es ! (j - 1))"
        using assms(1) lt len by (auto dest: list_all2_nthD)
      moreover have "(k, v, s) \<in> set es" using lt es by (metis nth_mem)
      ultimately show ?thesis using m sc None False es j len by (auto simp: mst_next_eq)
    qed
  qed
qed

lemma find_loop_correct:
  "mst_rep P car c t \<Longrightarrow> c \<noteq> [] \<Longrightarrow> keys_sorted (leaves t) \<Longrightarrow> length key < 2 ^ 31 \<Longrightarrow> room car d t \<Longrightarrow>
     mst_find_loop P car key d c = (case map_of (leaves t) key of None \<Rightarrow> Inl WF_ERR_NOT_FOUND | Some v \<Rightarrow> Inr v)"
proof (induction t arbitrary: c d)
  case (MNode l es)
  from MNode.prems(1) obtain b node where n: "wf_car_find_block car c = Some b"
    "wf_mst_node_parse P (blk_data b) c = Inr node"
    "mst_rep P car (node_left node) l" "list_all2 (entry_rep (mst_rep P car)) (node_entries node) es"
    by (rule mst_rep_NodeD)
  have short: "\<forall>k \<in> set (leaf_keys (MNode l es)). length k < 2 ^ 31"
    using mst_rep_key_short [OF MNode.prems(1)] by blast
  note step = search_step [OF n(4,3) MNode.prems(3,4) short]
  note guard = room_guard [OF MNode.prems(5)]
  obtain hit j where sc: "mst_scan key (node_entries node) 0 = (hit, j)" by fastforce
  show ?case
  proof (cases hit)
    case (Some v)
    then show ?thesis using step sc n guard by (simp add: mst_find_loop.simps [of P car key d c])
  next
    case None
    with step sc obtain s where s: "mst_rep P car (mst_next node j) s"
      "s = l \<or> (\<exists>k v. (k, v, s) \<in> set es)"
      "map_of (leaves (MNode l es)) key = map_of (leaves s) key" by auto
    have "mst_find_loop P car key (Suc d) (mst_next node j) =
      (case map_of (leaves s) key of None \<Rightarrow> Inl WF_ERR_NOT_FOUND | Some v \<Rightarrow> Inr v)"
      if "mst_next node j \<noteq> []"
      using s(2)
    proof
      assume "s = l"
      then show ?thesis using MNode.IH(1) [of "mst_next node j" "Suc d"] s(1) that MNode.prems
        by (simp add: sorted_wrt_append room_left)
    next
      assume "\<exists>k v. (k, v, s) \<in> set es"
      then obtain k v where kv: "(k, v, s) \<in> set es" by blast
      have "keys_sorted (leaves s)" using sorted_sub [OF MNode.prems(3) kv] .
      then show ?thesis using MNode.IH(2) [OF kv, of "(v, s)" s "mst_next node j" "Suc d"] s(1) that MNode.prems
        room_sub [OF MNode.prems(5) kv] by simp
    qed
    moreover have "s = MNil" if "mst_next node j = []" using s(1) that by simp
    ultimately show ?thesis
      using s(3) sc n guard None by (simp add: Let_def mst_find_loop.simps [of P car key d c])
  qed
qed simp

lemma mst_find_rep:
  assumes "mst_rep P car c t" "c \<noteq> []" "keys_sorted (leaves t)" "height t \<le> 1025"
    "key \<noteq> []" "length key < 2 ^ 31"
  shows "wf_mst_find P car c key =
    (case map_of (leaves t) key of None \<Rightarrow> Inl WF_ERR_NOT_FOUND | Some v \<Rightarrow> Inr v)"
  using find_loop_correct [OF assms(1-3,6) room_root [OF assms(1,4)]] assms(5) by (simp add: wf_mst_find_def)

section \<open>The walk\<close>

text \<open>Running the callback over a list of leaves, until it fails.\<close>

fun run_cb :: "'c walk_cb \<Rightarrow> 'c \<Rightarrow> wf_mst_leaf list \<Rightarrow> 'c \<times> unit res" where
  "run_cb cb ctx [] = (ctx, Inr ())"
| "run_cb cb ctx ((k, v) # ls) = and_then_ctx (cb ctx k v) (\<lambda>ctx. run_cb cb ctx ls)"

lemma and_then_ctx_assoc:
  "and_then_ctx (and_then_ctx r f) g = and_then_ctx r (\<lambda>ctx. and_then_ctx (f ctx) g)"
  by (auto simp: and_then_ctx_def split: prod.splits sum.splits)

lemma run_cb_append: "run_cb cb ctx (xs @ ys) = and_then_ctx (run_cb cb ctx xs) (\<lambda>ctx. run_cb cb ctx ys)"
  by (induction xs arbitrary: ctx) (auto simp: and_then_ctx_assoc)

definition from_ok :: "bytes option \<Rightarrow> wf_mst_leaf \<Rightarrow> bool" where
  "from_ok from_key l \<longleftrightarrow> (case from_key of None \<Rightarrow> True | Some f \<Rightarrow> 0 \<le> wf_mst_key_cmp (fst l) f)"

lemma walk_entries_rep:
  assumes "list_all2 (entry_rep (mst_rep P car)) ents es"
    "\<And>k v s c ctx. (k, v, s) \<in> set es \<Longrightarrow> mst_rep P car c s \<Longrightarrow> c \<noteq> [] \<Longrightarrow>
       mst_walk_node P car from_key cb c ctx d = run_cb cb ctx (filter (from_ok from_key) (leaves s))"
  shows "mst_walk_entries P car from_key cb ents ctx d = run_cb cb ctx (filter (from_ok from_key) (ent_leaves es))"
  using assms
proof (induction ents es arbitrary: ctx rule: list_all2_induct)
  case (Cons e ents kvs es)
  obtain k v s where kvs: "kvs = (k, v, s)" by (cases kvs)
  with Cons.hyps have e: "ent_key e = k" "ent_value e = v" "mst_rep P car (ent_subtree e) s" by auto
  have sub: "(if ent_subtree e = [] then (ctx, Inr ()) else mst_walk_node P car from_key cb (ent_subtree e) ctx d) =
    run_cb cb ctx (filter (from_ok from_key) (leaves s))" for ctx
    using e(3) Cons.prems [of k v s "ent_subtree e" ctx] kvs by (cases "ent_subtree e = []") auto
  have IH: "mst_walk_entries P car from_key cb ents ctx d = run_cb cb ctx (filter (from_ok from_key) (ent_leaves es))"
    for ctx by (rule Cons.IH) (rule Cons.prems, auto)
  have first: "(case from_key of None \<Rightarrow> True | Some f \<Rightarrow> 0 \<le> wf_mst_key_cmp (ent_key e) f) = from_ok from_key (k, v)"
    by (cases from_key) (simp_all add: from_ok_def e)
  show ?case
    unfolding mst_walk_entries.simps sub IH first by (simp add: kvs e run_cb_append)
qed simp

lemma walk_node_rep:
  "mst_rep P car c t \<Longrightarrow> c \<noteq> [] \<Longrightarrow> room car d t \<Longrightarrow>
     mst_walk_node P car from_key cb c ctx d = run_cb cb ctx (filter (from_ok from_key) (leaves t))"
proof (induction t arbitrary: c d ctx)
  case (MNode l es)
  from MNode.prems(1) obtain b node where n: "wf_car_find_block car c = Some b"
    "wf_mst_node_parse P (blk_data b) c = Inr node"
    "mst_rep P car (node_left node) l" "list_all2 (entry_rep (mst_rep P car)) (node_entries node) es"
    by (rule mst_rep_NodeD)
  have left: "(if node_left node = [] then (ctx, Inr ())
      else mst_walk_node P car from_key cb (node_left node) ctx (d + 1)) =
    run_cb cb ctx (filter (from_ok from_key) (leaves l))" for ctx
    using MNode.IH(1) [OF n(3)] n(3) room_left [OF MNode.prems(3)] by (cases "node_left node = []") auto
  have ents: "mst_walk_entries P car from_key cb (node_entries node) ctx (d + 1) =
    run_cb cb ctx (filter (from_ok from_key) (ent_leaves es))" for ctx
  proof (rule walk_entries_rep [OF n(4)])
    fix k v s c ctx assume "(k, v, s) \<in> set es" "mst_rep P car c s" "c \<noteq> []"
    then show "mst_walk_node P car from_key cb c ctx (d + 1) =
        run_cb cb ctx (filter (from_ok from_key) (leaves s))"
      using MNode.IH(2) [of "(k, v, s)" "(v, s)" s] room_sub [OF MNode.prems(3)] by simp
  qed
  show ?case
    unfolding mst_walk_node.simps [of P car from_key cb c ctx d] n option.case sum.case left ents
    using room_guard [OF MNode.prems(3)] by (simp add: run_cb_append)
qed simp

lemma run_collect:
  "run_cb (mst_collect_cb coll) acc ls =
     (acc @ filter (\<lambda>(k, v). case coll of None \<Rightarrow> True | Some c \<Rightarrow> \<exists>r. k = c @ 47 # r) ls, Inr ())"
proof (induction ls arbitrary: acc)
  case (Cons kv ls)
  obtain k v where kv: "kv = (k, v)" by (cases kv)
  have "length c < length k \<and> k ! length c = 47 \<and> memcmp (take (length c) k) c = 0 \<longleftrightarrow> (\<exists>r. k = c @ 47 # r)"
    for c
  proof
    assume a: "length c < length k \<and> k ! length c = 47 \<and> memcmp (take (length c) k) c = 0"
    then have "take (length c) k = c" using memcmp_eq_iff [of "take (length c) k" c] by simp
    then have "k = c @ 47 # drop (Suc (length c)) k"
      using a id_take_nth_drop [of "length c" k] by simp
    then show "\<exists>r. k = c @ 47 # r" by blast
  qed (auto simp: memcmp_eq_iff)
  then show ?case using Cons by (auto simp: kv mst_collect_cb_def split: option.splits)
qed simp

lemma mst_collect_rep:
  assumes "mst_rep P car c t" "c \<noteq> []" "height t \<le> 1025"
  shows "mst_collect P car c coll =
    Inr (filter (\<lambda>(k, v). case coll of None \<Rightarrow> True | Some c \<Rightarrow> \<exists>r. k = c @ 47 # r) (leaves t))"
proof -
  have "filter (from_ok None) (leaves t) = leaves t" by (simp add: from_ok_def)
  then show ?thesis
    unfolding mst_collect_def walk_node_rep [OF assms(1,2) room_root [OF assms(1,3)]] by (simp add: run_collect)
qed

section \<open>Counting\<close>

lemma count_entries_rep:
  assumes "list_all2 (entry_rep (mst_rep P car)) ents es"
    "\<And>k v s c. (k, v, s) \<in> set es \<Longrightarrow> mst_rep P car c s \<Longrightarrow>
       mst_count_in_range P car f t c d = Inr (length (filter (\<lambda>l. key_in_range f t (fst l)) (leaves s)))"
  shows "mst_count_entries P car f t ents n d =
    Inr (n + length (filter (\<lambda>l. key_in_range f t (fst l)) (ent_leaves es)))"
  using assms
proof (induction ents es arbitrary: n rule: list_all2_induct)
  case (Cons e ents kvs es)
  obtain k v s where kvs: "kvs = (k, v, s)" by (cases kvs)
  with Cons.hyps have e: "ent_key e = k" "mst_rep P car (ent_subtree e) s" by auto
  have "mst_count_in_range P car f t (ent_subtree e) d =
      Inr (length (filter (\<lambda>l. key_in_range f t (fst l)) (leaves s)))"
    by (rule Cons.prems [OF _ e(2), of k v]) (simp add: kvs)
  moreover have "mst_count_entries P car f t ents n d =
    Inr (n + length (filter (\<lambda>l. key_in_range f t (fst l)) (ent_leaves es)))" for n
    by (rule Cons.IH) (rule Cons.prems, auto)
  ultimately show ?case by (simp add: kvs e)
qed simp

lemma count_in_range_rep:
  "mst_rep P car c u \<Longrightarrow> room car d u \<Longrightarrow>
     mst_count_in_range P car f t c d = Inr (length (filter (\<lambda>l. key_in_range f t (fst l)) (leaves u)))"
proof (induction u arbitrary: c d)
  case MNil
  then show ?case by (simp add: mst_count_in_range.simps)
next
  case (MNode l es)
  from MNode.prems(1) obtain b node where n: "wf_car_find_block car c = Some b"
    "wf_mst_node_parse P (blk_data b) c = Inr node"
    "mst_rep P car (node_left node) l" "list_all2 (entry_rep (mst_rep P car)) (node_entries node) es"
    "c \<noteq> []"
    by (rule mst_rep_NodeD)
  have left: "mst_count_in_range P car f t (node_left node) (Suc d) =
      Inr (length (filter (\<lambda>l. key_in_range f t (fst l)) (leaves l)))"
    using MNode.IH(1) [OF n(3) room_left [OF MNode.prems(2)]] .
  have ents: "mst_count_entries P car f t (node_entries node) m (Suc d) =
      Inr (m + length (filter (\<lambda>l. key_in_range f t (fst l)) (ent_leaves es)))" for m
  proof (rule count_entries_rep [OF n(4)])
    fix k v s c assume "(k, v, s) \<in> set es" "mst_rep P car c s"
    then show "mst_count_in_range P car f t c (Suc d) =
        Inr (length (filter (\<lambda>l. key_in_range f t (fst l)) (leaves s)))"
      using MNode.IH(2) [of "(k, v, s)" "(v, s)" s] room_sub [OF MNode.prems(2)] by simp
  qed
  show ?case
    using room_guard [OF MNode.prems(2)] n left ents
    by (simp add: mst_count_in_range.simps [of P car f t c d])
qed

section \<open>The path to a key as a proof\<close>

lemma foldl_push_distinct:
  assumes "distinct (acc @ path)" "[] \<notin> set path"
  shows "foldl mst_cid_list_push acc path = acc @ path"
  using assms
proof (induction path arbitrary: acc)
  case (Cons c path)
  then have "mst_cid_list_push acc c = acc @ [c]"
    by (auto simp: mst_cid_list_push_def mst_cid_list_contains_def list_ex_iff)
  then show ?case using Cons by simp
qed simp

text \<open>
  Searching visits a list of distinct nodes, each lower than the one before. A CAR that agrees on
  them and is large enough for the step guard gives the same answer.
\<close>

lemma path_loop_rep:
  assumes "mst_rep P car c t" "c \<noteq> []" "keys_sorted (leaves t)" "length key < 2 ^ 31" "room car d t"
  shows "\<exists>path. distinct (c # path) \<and> [] \<notin> set path \<and>
    (\<forall>x \<in> set (c # path). \<exists>u. mst_rep P car x u \<and> height u \<le> height t) \<and>
    (\<forall>acc. mst_path_loop P car key d acc c =
       Inr (foldl mst_cid_list_push acc (c # path), case map_of (leaves t) key of None \<Rightarrow> [] | Some v \<Rightarrow> v)) \<and>
    (\<forall>car'. (\<forall>x \<in> set (c # path). wf_car_find_block car' x = wf_car_find_block car x) \<longrightarrow>
       d + length path \<le> length (car_blocks car') \<longrightarrow>
       mst_find_loop P car' key d c = mst_find_loop P car key d c)"
  using assms
proof (induction t arbitrary: c d rule: mst.induct)
  case (MNode l es)
  from MNode.prems(1) obtain b node where n: "wf_car_find_block car c = Some b"
    "wf_mst_node_parse P (blk_data b) c = Inr node"
    "mst_rep P car (node_left node) l" "list_all2 (entry_rep (mst_rep P car)) (node_entries node) es"
    by (rule mst_rep_NodeD)
  have short: "\<forall>k \<in> set (leaf_keys (MNode l es)). length k < 2 ^ 31"
    using mst_rep_key_short [OF MNode.prems(1)] by blast
  note step = search_step [OF n(4,3) MNode.prems(3,4) short]
  have guard: "\<not> depth_exceeded car d" "d \<le> 1024"
    using room_guard [OF MNode.prems(5)] by (auto simp: depth_exceeded_def)
  have guard': "\<not> depth_exceeded car' d" if "d + n \<le> length (car_blocks car')" for car' n
    using that guard(2) by (simp add: depth_exceeded_def)
  obtain hit j where sc: "mst_scan key (node_entries node) 0 = (hit, j)" by fastforce
  show ?case
  proof (cases "hit = None \<and> mst_next node j \<noteq> []")
    case False
    have leaf: "(case map_of (leaves (MNode l es)) key of None \<Rightarrow> [] | Some v \<Rightarrow> v) =
        (case hit of None \<Rightarrow> [] | Some v \<Rightarrow> v)"
      using step sc False by (cases hit) (auto simp del: leaves_Node)
    show ?thesis
      using MNode.prems(1,2) n sc False guard guard' [of 0] leaf
      by (intro exI [of _ "[]"]) (auto simp: mst_path_loop.simps [of P car key d _ c]
          mst_find_loop.simps [of P _ key d c] Let_def split: option.splits)
  next
    case True
    with step sc obtain s where s: "mst_rep P car (mst_next node j) s"
      "s = l \<or> (\<exists>k v. (k, v, s) \<in> set es)"
      "map_of (leaves (MNode l es)) key = map_of (leaves s) key" by auto
    let ?c = "mst_next node j"
    have sub: "keys_sorted (leaves s)" "room car (Suc d) s" "height s < height (MNode l es)"
      using s(2) sorted_left [OF MNode.prems(3)] sorted_sub [OF MNode.prems(3)]
        room_left [OF MNode.prems(5)] room_sub [OF MNode.prems(5)] height_left height_sub by blast+
    have "\<exists>path. distinct (?c # path) \<and> [] \<notin> set path \<and>
      (\<forall>x \<in> set (?c # path). \<exists>u. mst_rep P car x u \<and> height u \<le> height s) \<and>
      (\<forall>acc. mst_path_loop P car key (Suc d) acc ?c =
         Inr (foldl mst_cid_list_push acc (?c # path), case map_of (leaves s) key of None \<Rightarrow> [] | Some v \<Rightarrow> v)) \<and>
      (\<forall>car'. (\<forall>x \<in> set (?c # path). wf_car_find_block car' x = wf_car_find_block car x) \<longrightarrow>
         Suc d + length path \<le> length (car_blocks car') \<longrightarrow>
         mst_find_loop P car' key (Suc d) ?c = mst_find_loop P car key (Suc d) ?c)"
      using s(2) MNode.IH(1) [of ?c "Suc d"] MNode.IH(2) [of _ _ s ?c "Suc d"] s(1) True sub(1,2) MNode.prems(4)
      by fastforce
    then obtain path where p: "distinct (?c # path)" "[] \<notin> set path"
      "\<forall>x \<in> set (?c # path). \<exists>u. mst_rep P car x u \<and> height u \<le> height s"
      "\<And>acc. mst_path_loop P car key (Suc d) acc ?c =
         Inr (foldl mst_cid_list_push acc (?c # path), case map_of (leaves s) key of None \<Rightarrow> [] | Some v \<Rightarrow> v)"
      "\<And>car'. (\<forall>x \<in> set (?c # path). wf_car_find_block car' x = wf_car_find_block car x) \<Longrightarrow>
         Suc d + length path \<le> length (car_blocks car') \<Longrightarrow>
         mst_find_loop P car' key (Suc d) ?c = mst_find_loop P car key (Suc d) ?c"
      by blast
    have fresh: "c \<notin> set (?c # path)"
    proof
      assume "c \<in> set (?c # path)"
      with p(3) obtain u where "mst_rep P car c u" "height u \<le> height s" by blast
      with mst_rep_functional [OF this(1) MNode.prems(1)] sub(3) show False by simp
    qed
    show ?thesis
    proof (intro exI [of _ "?c # path"] conjI allI impI)
      show "distinct (c # ?c # path)" "[] \<notin> set (?c # path)" using p(1,2) fresh True by auto
      show "\<forall>x \<in> set (c # ?c # path). \<exists>u. mst_rep P car x u \<and> height u \<le> height (MNode l es)"
        using p(3) sub(3) MNode.prems(1) by (fastforce intro: less_imp_le)
      show "mst_path_loop P car key d acc c =
          Inr (foldl mst_cid_list_push acc (c # ?c # path),
            case map_of (leaves (MNode l es)) key of None \<Rightarrow> [] | Some v \<Rightarrow> v)" for acc
        using p(4) [of "mst_cid_list_push acc c"] s(3) n(1,2) sc True guard(1)
        by (simp add: mst_path_loop.simps [of P car key d acc c] Let_def)
      show "mst_find_loop P car' key d c = mst_find_loop P car key d c"
        if a: "\<forall>x \<in> set (c # ?c # path). wf_car_find_block car' x = wf_car_find_block car x"
          "d + length (?c # path) \<le> length (car_blocks car')" for car'
        using p(5) [of car'] a n(1,2) sc True guard(1) guard' [OF a(2)]
        by (simp add: mst_find_loop.simps [of P _ key d c] Let_def)
    qed
  qed
qed simp

lemma cids_for_path_rep:
  assumes "mst_rep P car c t" "c \<noteq> []" "keys_sorted (leaves t)" "height t \<le> 1025"
    "key \<noteq> []" "length key < 2 ^ 31"
  shows "\<exists>path. wf_mst_cids_for_path P car c key =
      Inr (c # path, case map_of (leaves t) key of None \<Rightarrow> [] | Some v \<Rightarrow> v) \<and>
    (\<forall>car'. (\<forall>x \<in> set (c # path). wf_car_find_block car' x = wf_car_find_block car x) \<longrightarrow>
       wf_mst_find P car' c key = wf_mst_find P car c key)"
proof -
  from path_loop_rep [OF assms(1-3,6) room_root [OF assms(1,4)]] obtain path where
    p: "distinct (c # path)" "[] \<notin> set path"
    "\<forall>x \<in> set (c # path). \<exists>u. mst_rep P car x u \<and> height u \<le> height t"
    "mst_path_loop P car key 0 [] c =
       Inr (foldl mst_cid_list_push [] (c # path), case map_of (leaves t) key of None \<Rightarrow> [] | Some v \<Rightarrow> v)"
    "\<And>car'. (\<forall>x \<in> set (c # path). wf_car_find_block car' x = wf_car_find_block car x) \<Longrightarrow>
       0 + length path \<le> length (car_blocks car') \<Longrightarrow>
       mst_find_loop P car' key 0 c = mst_find_loop P car key 0 c"
    by blast
  have len: "length path \<le> length (car_blocks car')"
    if "\<forall>x \<in> set (c # path). wf_car_find_block car' x = wf_car_find_block car x" for car'
  proof -
    have "set (c # path) \<subseteq> blk_cid ` set (car_blocks car')"
    proof
      fix x assume x: "x \<in> set (c # path)"
      with p(2) assms(2) have "x \<noteq> []" by auto
      with p(3) x obtain u where u: "mst_rep P car x u" "u \<noteq> MNil" by (metis mst_rep_Nil_iff)
      then obtain b where "wf_car_find_block car x = Some b"
        by (cases u) (auto simp: mst_rep_Node_iff)
      with that x have "wf_car_find_block car' x = Some b" by auto
      from find_block_mem [OF this] show "x \<in> blk_cid ` set (car_blocks car')" by auto
    qed
    then have "card (set (c # path)) \<le> length (car_blocks car')"
      by (meson List.finite_set card_image_le card_length card_mono finite_imageI le_trans)
    then show ?thesis using distinct_card [OF p(1)] by simp
  qed
  have "foldl mst_cid_list_push [] (c # path) = c # path"
    using foldl_push_distinct [of "[]" "c # path"] p(1,2) assms(2) by auto
  then have "wf_mst_cids_for_path P car c key =
      Inr (c # path, case map_of (leaves t) key of None \<Rightarrow> [] | Some v \<Rightarrow> v)"
    using p(4) assms(2,5) by (simp add: wf_mst_cids_for_path_def)
  moreover have "wf_mst_find P car' c key = wf_mst_find P car c key"
    if "\<forall>x \<in> set (c # path). wf_car_find_block car' x = wf_car_find_block car x" for car'
    using p(5) [OF that] len [OF that] assms(5) by (simp add: wf_mst_find_def)
  ultimately show ?thesis by blast
qed

end
