(* ===== verification/Mst_Encode.thy ===== *)
theory Mst_Encode
  imports Mst_Read
begin

text \<open>
  The encoding of a node and its parsing are inverse: prefix compression of the keys, the optional
  links, the order of the map keys and the DAG-CBOR layer below. The theory ends with trees as
  functions of their content: \<open>tree_bytes\<close> and \<open>tree_cid\<close> give the block and the CID that every writer
  of \<^verbatim>\<open>mst.c\<close> produces for a tree, and \<open>mst_stored\<close> says that a CAR holds them.
\<close>

section \<open>Entries\<close>

definition entry_ok :: "wf_mst_entry \<Rightarrow> bool" where
  "entry_ok e \<longleftrightarrow> wf_mst_key_is_valid (ent_key e) \<and> cid_ok (ent_value e) \<and>
     (ent_subtree e = [] \<or> cid_ok (ent_subtree e))"

definition node_ok :: "wf_cid \<Rightarrow> wf_mst_entry list \<Rightarrow> bool" where
  "node_ok left ents \<longleftrightarrow> (left = [] \<or> cid_ok left) \<and> list_all entry_ok ents \<and>
     sorted_wrt (<) (map ent_key ents) \<and> length ents < 2 ^ 64"

lemma common_prefix_le: "common_prefix a b \<le> length a" "common_prefix a b \<le> length b"
  by (induction a b rule: common_prefix.induct) auto

lemma take_common_prefix: "take (common_prefix a b) a = take (common_prefix a b) b"
  by (induction a b rule: common_prefix.induct) auto

lemma map_find_entry:
  fixes a b c d :: wf_cbor_item
  defines "m \<equiv> WF_CBOR_MAP [(cbor_str ''k'', a), (cbor_str ''p'', b), (cbor_str ''t'', c), (cbor_str ''v'', d)]"
  shows "wf_cbor_map_find m (ascii ''k'') = Some a" "wf_cbor_map_find m (ascii ''p'') = Some b"
    "wf_cbor_map_find m (ascii ''t'') = Some c" "wf_cbor_map_find m (ascii ''v'') = Some d"
  by (simp_all add: m_def wf_cbor_map_find_def cbor_str_def ascii_def)

lemma map_find_node:
  fixes a b :: wf_cbor_item
  defines "m \<equiv> WF_CBOR_MAP [(cbor_str ''e'', a), (cbor_str ''l'', b)]"
  shows "wf_cbor_map_find m (ascii ''e'') = Some a" "wf_cbor_map_find m (ascii ''l'') = Some b"
  by (simp_all add: m_def wf_cbor_map_find_def cbor_str_def ascii_def)

lemma link36_cid_or_null: "c = [] \<or> cid_ok c \<Longrightarrow> link36 (Some (cid_or_null c)) = c"
  by (auto simp: link36_def cid_or_null_def cbor_null_def cbor_cid_def cid_ok_def)

lemma parse_entry_items: "list_all entry_ok ents \<Longrightarrow> mst_parse_entries prev (mst_entry_items prev ents) = Inr ents"
proof (induction ents arbitrary: prev)
  case (Cons e ents)
  let ?p = "common_prefix prev (ent_key e)"
  have ok: "wf_mst_key_is_valid (ent_key e)" "cid_ok (ent_value e)" "ent_subtree e = [] \<or> cid_ok (ent_subtree e)"
    using Cons.prems by (auto simp: entry_ok_def)
  have "?p \<le> 1024" using common_prefix_le(2) [of prev "ent_key e"] key_valid_length [OF ok(1)] by simp
  then have p: "unat (of_nat ?p :: u64) = ?p" by (intro unat_of_nat_u64) simp
  have "take ?p prev @ drop ?p (ent_key e) = ent_key e"
    using take_common_prefix [of prev "ent_key e"] by simp
  then show ?case
    using Cons ok p common_prefix_le(1) [of prev "ent_key e"]
    by (simp add: Let_def map_find_entry cbor_bytes_def cbor_uint_def cbor_cid_def link36_cid_or_null cid_ok_def)
qed simp

section \<open>Nodes are canonical\<close>

lemma str_order:
  "sorted_wrt (<) [rfc_enc (to_libcbor (cbor_str ''k'')), rfc_enc (to_libcbor (cbor_str ''p'')),
     rfc_enc (to_libcbor (cbor_str ''t'')), rfc_enc (to_libcbor (cbor_str ''v''))]"
  "rfc_enc (to_libcbor (cbor_str ''e'')) < rfc_enc (to_libcbor (cbor_str ''l''))"
  by code_simp+

context platform_laws
begin

lemma canonical_str: "canonical P (cbor_str [c])" if "of_char c < (0x80 :: byte)"
proof -
  have "cbor_string_codepoint_count P (ascii [c]) = 1"
    using that by (subst codepoints_ascii) (auto simp: ascii_def)
  then show ?thesis by (simp add: cbor_str_def ascii_def)
qed

lemma canonical_link: "c = [] \<or> cid_ok c \<Longrightarrow> canonical P (cid_or_null c)"
  by (auto simp: cid_or_null_def cbor_null_def cbor_cid_def cid_ok_def)

lemma canonical_entries:
  "list_all entry_ok ents \<Longrightarrow> list_all (canonical P) (mst_entry_items prev ents)"
proof (induction ents arbitrary: prev)
  case (Cons e ents)
  let ?p = "common_prefix prev (ent_key e)"
  have ok: "wf_mst_key_is_valid (ent_key e)" "cid_ok (ent_value e)" "ent_subtree e = [] \<or> cid_ok (ent_subtree e)"
    using Cons.prems by (auto simp: entry_ok_def)
  have "length (drop ?p (ent_key e)) < 2 ^ 64"
    using key_valid_length [OF ok(1)] by (simp add: less_imp_diff_less)
  moreover have "canonical P (cbor_cid (ent_value e))" using ok(2) by (auto simp: cbor_cid_def cid_ok_def)
  moreover have "canonical P (cbor_str ''k'')" "canonical P (cbor_str ''p'')" "canonical P (cbor_str ''t'')"
    "canonical P (cbor_str ''v'')" by (rule canonical_str; simp)+
  moreover have "is_string (cbor_str s)" for s by (simp add: cbor_str_def)
  ultimately show ?case
    using Cons canonical_link [OF ok(3)] str_order(1)
    by (simp add: Let_def cbor_bytes_def cbor_uint_def)
qed simp

lemma canonical_node: "node_ok left ents \<Longrightarrow> canonical P (mst_node_item left ents)"
proof -
  assume ok: "node_ok left ents"
  have "canonical P (cbor_str ''e'')" "canonical P (cbor_str ''l'')" by (rule canonical_str; simp)+
  moreover have "is_string (cbor_str s)" for s by (simp add: cbor_str_def)
  moreover have "length (mst_entry_items prev es) = length es" for prev es
    by (induction es arbitrary: prev) (auto simp: Let_def)
  ultimately show ?thesis
    using ok canonical_entries [of ents "[]"] canonical_link [of left] str_order(2)
    by (simp add: mst_node_item_def node_ok_def)
qed

end

lemma nesting_le:
  "(\<And>x. x \<in> set xs \<Longrightarrow> cbor_nesting x \<le> n) \<Longrightarrow> cbor_nesting (CBOR_TYPE_ARRAY d xs) \<le> Suc n"
  "(\<And>k v. (k, v) \<in> set ps \<Longrightarrow> cbor_nesting k \<le> n \<and> cbor_nesting v \<le> n) \<Longrightarrow>
     cbor_nesting (CBOR_TYPE_MAP d ps) \<le> Suc n"
  by auto

lemma node_nesting: "cbor_nesting (to_libcbor (mst_node_item left ents)) \<le> 65"
proof -
  have small: "cbor_nesting (to_libcbor (cid_or_null c)) \<le> 2" "cbor_nesting (to_libcbor (cbor_str s)) \<le> 2"
    "cbor_nesting (to_libcbor (cbor_bytes b)) \<le> 2" "cbor_nesting (to_libcbor (cbor_uint u)) \<le> 2"
    "cbor_nesting (to_libcbor (cbor_cid c)) \<le> 2" for c s b u
    by (simp_all add: cid_or_null_def cbor_null_def cbor_cid_def cbor_str_def cbor_bytes_def cbor_uint_def)
  have "cbor_nesting (to_libcbor x) \<le> 3" if "x \<in> set (mst_entry_items prev ents)" for x prev
    using that
  proof (induction ents arbitrary: prev)
    case (Cons e ents)
    then show ?case
      using small by (fastforce simp: Let_def simp del: cbor_nesting.simps intro!: nesting_le(2) [of _ 2, simplified])
  qed simp
  then have "cbor_nesting (to_libcbor (WF_CBOR_ARRAY (mst_entry_items [] ents))) \<le> 4"
    using nesting_le(1) [of "map to_libcbor (mst_entry_items [] ents)" 3 True] by auto
  then have "cbor_nesting (to_libcbor (mst_node_item left ents)) \<le> Suc 4"
    unfolding mst_node_item_def to_libcbor.simps
    using le_trans [OF small(1)] le_trans [OF small(2)] by (intro nesting_le(2)) auto
  then show ?thesis by simp
qed

section \<open>The round trip of a node\<close>

lemma keys_ascend_sorted:
  assumes "sorted_wrt (<) (map ent_key ents)" "list_all entry_ok ents"
  shows "mst_keys_ascend ents"
  using assms
proof (induction ents rule: mst_keys_ascend.induct)
  case (1 a b es)
  then have "length (ent_key a) < 2 ^ 31" "length (ent_key b) < 2 ^ 31"
    using key_valid_length by (fastforce simp: entry_ok_def)+
  then have "wf_mst_key_cmp (ent_key a) (ent_key b) < 0"
    using 1 by (simp add: wf_mst_key_cmp_def key_cmp_less)
  then show ?case using 1 by auto
qed auto

definition node_bytes :: "wf_cid \<Rightarrow> wf_mst_entry list \<Rightarrow> bytes" where
  "node_bytes left ents = wf_cbor_ser_write_item (mst_node_item left ents)"

definition entries_layer :: "platform \<Rightarrow> wf_mst_entry list \<Rightarrow> nat" where
  "entries_layer P ents = (case ents of [] \<Rightarrow> 0 | e # _ \<Rightarrow> wf_mst_key_layer P (ent_key e))"

context platform_laws
begin

lemma serialize_node: "node_ok left ents \<Longrightarrow> wf_cbor_serialize (mst_node_item left ents) = Some (node_bytes left ents)"
  unfolding node_bytes_def
  by (rule wf_cbor_serialize_some) (rule canonical_simple_fits, rule canonical_node)

lemma node_bytes_nonempty: "node_ok left ents \<Longrightarrow> node_bytes left ents \<noteq> []"
  using rfc_enc_nonempty [of "to_libcbor (mst_node_item left ents)"]
  by (auto simp: node_bytes_def write_item_rfc [OF canonical_node])

lemma parse_node_bytes:
  assumes "node_ok left ents"
  shows "wf_mst_node_parse P (node_bytes left ents) cid =
    Inr \<lparr>node_cid = cid, node_layer = entries_layer P ents, node_left = left, node_entries = ents\<rparr>"
proof -
  have "wf_cbor_parse P (node_bytes left ents) = Some (mst_node_item left ents)"
    unfolding node_bytes_def by (rule parse_write [OF canonical_node [OF assms] node_nesting])
  then show ?thesis
    using assms node_bytes_nonempty [OF assms] keys_ascend_sorted [of ents]
    by (simp add: wf_mst_node_parse_def mst_node_item_def map_find_node link36_cid_or_null
        parse_entry_items node_ok_def entries_layer_def)
qed

lemma node_bytes_inject:
  assumes "node_ok a e" "node_ok b e'" "node_bytes a e = node_bytes b e'"
  shows "a = b \<and> e = e'"
  using parse_node_bytes [OF assms(1), of "[]"] parse_node_bytes [OF assms(2), of "[]"]
  unfolding assms(3) by simp

end

end
