(* ===== verification/Mst_Shape.thy ===== *)
theory Mst_Shape
  imports Mst_Encode
begin

text \<open>
  The layered shape of a Merkle search tree. \<open>lay P st n t\<close> says that \<open>t\<close> sits at layer \<open>n\<close>: the keys of
  its top node have layer \<open>n\<close> and every child sits exactly one layer below. With \<open>st\<close> (strict) no
  node is empty; without it an empty node may occur at layer 0, which is what deletion leaves behind.
  A strict tree is determined by its leaves, so the root CID of a repository depends on nothing
  else.
\<close>

section \<open>Content\<close>

fun tree_cid :: "platform \<Rightarrow> mst \<Rightarrow> wf_cid" where
  "tree_cid P MNil = []"
| "tree_cid P (MNode l es) =
     wf_cid_from_hash (SHA256 P (node_bytes (tree_cid P l)
       (map (\<lambda>(k, v, s). \<lparr>ent_key = k, ent_value = v, ent_subtree = tree_cid P s\<rparr>) es)))"

definition tree_entries :: "platform \<Rightarrow> (bytes \<times> wf_cid \<times> mst) list \<Rightarrow> wf_mst_entry list" where
  "tree_entries P es = map (\<lambda>(k, v, s). \<lparr>ent_key = k, ent_value = v, ent_subtree = tree_cid P s\<rparr>) es"

fun tree_bytes :: "platform \<Rightarrow> mst \<Rightarrow> bytes" where
  "tree_bytes P MNil = []"
| "tree_bytes P (MNode l es) = node_bytes (tree_cid P l) (tree_entries P es)"

lemma tree_cid_Node: "tree_cid P (MNode l es) = wf_cid_from_hash (SHA256 P (tree_bytes P (MNode l es)))"
  by (simp add: tree_entries_def)

declare tree_cid.simps(2) [simp del] tree_bytes.simps(2) [simp del]

lemma tree_entries_simps [simp]:
  "tree_entries P [] = []"
  "tree_entries P ((k, v, s) # es) = \<lparr>ent_key = k, ent_value = v, ent_subtree = tree_cid P s\<rparr> # tree_entries P es"
  "tree_entries P (es @ es') = tree_entries P es @ tree_entries P es'"
  "length (tree_entries P es) = length es"
  "map ent_key (tree_entries P es) = map fst es"
  "tree_entries P es = [] \<longleftrightarrow> es = []"
  by (auto simp: tree_entries_def)

lemma nth_tree_entries:
  "i < length es \<Longrightarrow> es ! i = (k, v, s) \<Longrightarrow>
     tree_entries P es ! i = \<lparr>ent_key = k, ent_value = v, ent_subtree = tree_cid P s\<rparr>"
  by (simp add: tree_entries_def)

lemma tree_cid_empty_iff [simp]: "tree_cid P t = [] \<longleftrightarrow> t = MNil"
  by (cases t) (auto simp: tree_cid_Node wf_cid_from_hash_def wf_cid_from_hash_codec_def)

section \<open>Layers\<close>

fun lay :: "platform \<Rightarrow> bool \<Rightarrow> nat \<Rightarrow> mst \<Rightarrow> bool" where
  "lay P st n MNil = True"
| "lay P st n (MNode l es) \<longleftrightarrow>
     (l \<noteq> MNil \<longrightarrow> 0 < n \<and> lay P st (n - 1) l) \<and>
     (\<forall>(k, v, s) \<in> set es. wf_mst_key_layer P k = n \<and> (s \<noteq> MNil \<longrightarrow> 0 < n \<and> lay P st (n - 1) s)) \<and>
     (es = [] \<and> l = MNil \<longrightarrow> \<not> st \<and> n = 0)"

lemma lay_left: "lay P st n (MNode l es) \<Longrightarrow> l \<noteq> MNil \<Longrightarrow> 0 < n \<and> lay P st (n - 1) l"
  by simp

lemma lay_sub: "lay P st n (MNode l es) \<Longrightarrow> (k, v, s) \<in> set es \<Longrightarrow> s \<noteq> MNil \<Longrightarrow> 0 < n \<and> lay P st (n - 1) s"
  by fastforce

lemma lay_key: "lay P st n (MNode l es) \<Longrightarrow> (k, v, s) \<in> set es \<Longrightarrow> wf_mst_key_layer P k = n"
  by fastforce

lemma lay_weaken: "lay P st n t \<Longrightarrow> lay P False n t"
proof (induction t arbitrary: n)
  case (MNode l es)
  then show ?case by fastforce
qed simp

lemma lay_unique: "lay P st n t \<Longrightarrow> lay P st' m t \<Longrightarrow> t \<noteq> MNil \<Longrightarrow> n = m"
proof (induction t arbitrary: n m)
  case (MNode l es)
  show ?case
  proof (cases es)
    case (Cons e es')
    obtain k v s where "e = (k, v, s)" by (cases e)
    then have "(k, v, s) \<in> set es" using Cons by simp
    then show ?thesis using lay_key [OF MNode.prems(1)] lay_key [OF MNode.prems(2)] by blast
  next
    case Nil
    show ?thesis
    proof (cases "l = MNil")
      case True
      then show ?thesis using Nil MNode.prems by simp
    next
      case False
      have "n - 1 = m - 1"
        using MNode.IH(1) lay_left [OF MNode.prems(1) False] lay_left [OF MNode.prems(2) False] False by blast
      moreover have "0 < n" "0 < m"
        using lay_left [OF MNode.prems(1) False] lay_left [OF MNode.prems(2) False] by auto
      ultimately show ?thesis by arith
    qed
  qed
qed simp

lemma lay_height: "lay P st n t \<Longrightarrow> height t \<le> Suc n"
proof (induction t arbitrary: n)
  case (MNode l es)
  have "height l \<le> n"
    using MNode.IH(1) [of "n - 1"] lay_left [OF MNode.prems] by (cases "l = MNil") auto
  moreover have "height s \<le> n" if "(k, v, s) \<in> set es" for k v s
    using MNode.IH(2) [OF that, of "(v, s)" s "n - 1"] lay_sub [OF MNode.prems that] by (cases "s = MNil") auto
  ultimately show ?case by auto
qed simp

lemma lay_keys_le: "lay P st n t \<Longrightarrow> (k, v) \<in> set (leaves t) \<Longrightarrow> wf_mst_key_layer P k \<le> n"
proof (induction t arbitrary: n)
  case (MNode l es)
  have "wf_mst_key_layer P k \<le> n" if "(k, v) \<in> set (leaves l)"
  proof -
    have "l \<noteq> MNil" using that by auto
    with MNode.IH(1) [of "n - 1"] lay_left [OF MNode.prems(1)] that show ?thesis by fastforce
  qed
  moreover have "wf_mst_key_layer P k \<le> n" if "(k', v', s) \<in> set es" "(k, v) \<in> set (leaves s)" for k' v' s
  proof -
    have "s \<noteq> MNil" using that by auto
    with MNode.IH(2) [OF that(1), of "(v', s)" s "n - 1"] lay_sub [OF MNode.prems(1) that(1)] that(2)
    show ?thesis by fastforce
  qed
  ultimately show ?case using MNode.prems lay_key [OF MNode.prems(1)] by (auto simp: set_ent_leaves)
qed simp

lemma lay_child_keys:
  assumes "c = MNil \<or> 0 < n \<and> lay P st (n - 1) c" "(k, v) \<in> set (leaves c)"
  shows "wf_mst_key_layer P k < n"
  using assms lay_keys_le [of P st "n - 1" c k v] by (cases "c = MNil") auto

section \<open>Admissible leaves\<close>

definition leaves_ok :: "(bytes \<times> wf_cid) list \<Rightarrow> bool" where
  "leaves_ok ls \<longleftrightarrow> list_all (\<lambda>(k, v). wf_mst_key_is_valid k \<and> cid_ok v) ls \<and> keys_sorted ls \<and> length ls < 2 ^ 64"

lemma leaves_ok_append: "leaves_ok (xs @ ys) \<Longrightarrow> leaves_ok xs \<and> leaves_ok ys"
  by (simp add: leaves_ok_def sorted_wrt_append)

lemma leaves_ok_left: "leaves_ok (leaves (MNode l es)) \<Longrightarrow> leaves_ok (leaves l)"
  using leaves_ok_append [of "leaves l" "ent_leaves es"] by simp

lemma leaves_ok_sub:
  assumes "leaves_ok (leaves (MNode l es))" "(k, v, s) \<in> set es"
  shows "leaves_ok (leaves s)"
proof -
  from assms(2) obtain es1 es2 where es: "es = es1 @ (k, v, s) # es2" by (meson split_list)
  then have "leaves (MNode l es) = (leaves l @ ent_leaves es1 @ [(k, v)]) @ leaves s @ ent_leaves es2" by simp
  with assms(1) have "leaves_ok (leaves s @ ent_leaves es2)"
    using leaves_ok_append [of "leaves l @ ent_leaves es1 @ [(k, v)]" "leaves s @ ent_leaves es2"] by metis
  from leaves_ok_append [OF this] show ?thesis by (rule conjunct1)
qed

lemma length_ent_leaves: "length es \<le> length (ent_leaves es)"
  by (induction es) auto

context platform_laws
begin

lemma cid_ok_tree_cid: "t \<noteq> MNil \<Longrightarrow> cid_ok (tree_cid P t)"
  by (cases t) (auto simp: tree_cid_Node wf_cid_from_hash_def sha256_length intro: cid_ok_from_hash_codec)

lemma keys_sorted_entries: "keys_sorted (ent_leaves es) \<Longrightarrow> sorted_wrt (<) (map fst es)"
proof (induction es)
  case (Cons e es)
  obtain k v s where e: "e = (k, v, s)" by (cases e)
  have "\<forall>x \<in> set (ent_leaves es). k < fst x" using Cons.prems by (auto simp: e sorted_wrt_append)
  moreover have "(k', v') \<in> set (ent_leaves es)" if "(k', v', s') \<in> set es" for k' v' s'
    using that by (auto simp: set_ent_leaves)
  ultimately have "k < k'" if "(k', v', s') \<in> set es" for k' v' s' using that by force
  then have "\<forall>x \<in> set es. k < fst x" by auto
  moreover have "keys_sorted (ent_leaves es)" using Cons.prems by (simp add: e sorted_wrt_append)
  ultimately show ?case using Cons.IH by (simp add: e)
qed simp

lemma node_ok_tree:
  assumes "leaves_ok (leaves (MNode l es))"
  shows "node_ok (tree_cid P l) (tree_entries P es)"
proof -
  have "tree_cid P l = [] \<or> cid_ok (tree_cid P l)" using cid_ok_tree_cid by auto
  moreover have "list_all entry_ok (tree_entries P es)"
  proof -
    have "entry_ok e" if "e \<in> set (tree_entries P es)" for e
    proof -
      from that obtain k v s where kvs: "(k, v, s) \<in> set es"
        "e = \<lparr>ent_key = k, ent_value = v, ent_subtree = tree_cid P s\<rparr>"
        by (auto simp: tree_entries_def)
      then have "(k, v) \<in> set (leaves (MNode l es))" by (auto simp: set_ent_leaves)
      then have "wf_mst_key_is_valid k \<and> cid_ok v"
        using assms by (auto simp: leaves_ok_def list_all_iff)
      then show ?thesis using kvs cid_ok_tree_cid [of s] by (cases "s = MNil") (auto simp: entry_ok_def)
    qed
    then show ?thesis by (simp add: list_all_iff)
  qed
  moreover have "sorted_wrt (<) (map fst es)"
    using assms by (intro keys_sorted_entries) (simp add: leaves_ok_def sorted_wrt_append)
  moreover have "length es < 2 ^ 64"
    using assms length_ent_leaves [of es] by (simp add: leaves_ok_def)
  ultimately show ?thesis by (simp add: node_ok_def)
qed

end

section \<open>Stored trees\<close>

fun mst_stored :: "platform \<Rightarrow> wf_car \<Rightarrow> mst \<Rightarrow> bool" where
  "mst_stored P car MNil = True"
| "mst_stored P car (MNode l es) \<longleftrightarrow>
     (\<exists>b. wf_car_find_block car (tree_cid P (MNode l es)) = Some b \<and> blk_data b = tree_bytes P (MNode l es)) \<and>
     mst_stored P car l \<and> (\<forall>(k, v, s) \<in> set es. mst_stored P car s)"

lemma stored_ext: "mst_stored P car t \<Longrightarrow> car_ext car car' \<Longrightarrow> mst_stored P car' t"
proof (induction t)
  case (MNode l es)
  have "mst_stored P car' s" if "(k, v, s) \<in> set es" for k v s
    using MNode.IH(2) [OF that, of "(v, s)" s] MNode.prems that by fastforce
  then show ?case using MNode by (auto dest: find_block_ext)
qed simp

lemma stored_sub: "mst_stored P car (MNode l es) \<Longrightarrow> (k, v, s) \<in> set es \<Longrightarrow> mst_stored P car s"
  by fastforce

context platform_laws
begin

lemma stored_rep:
  "mst_stored P car t \<Longrightarrow> leaves_ok (leaves t) \<Longrightarrow> mst_rep P car (tree_cid P t) t"
proof (induction t)
  case (MNode l es)
  from MNode.prems(1) obtain b where b: "wf_car_find_block car (tree_cid P (MNode l es)) = Some b"
    "blk_data b = tree_bytes P (MNode l es)" by auto
  have l: "mst_rep P car (tree_cid P l) l"
    using MNode.IH(1) MNode.prems leaves_ok_left by auto
  have "mst_rep P car (tree_cid P s) s" if "(k, v, s) \<in> set es" for k v s
    using MNode.IH(2) [OF that, of "(v, s)" s] stored_sub [OF MNode.prems(1) that] leaves_ok_sub [OF MNode.prems(2) that]
    by simp
  then have "list_all2 (entry_rep (mst_rep P car)) (tree_entries P es) es"
    by (auto simp: tree_entries_def list_all2_map1 intro!: list.rel_refl_strong)
  then show ?case
    using b l parse_node_bytes [OF node_ok_tree [OF MNode.prems(2)], of "tree_cid P (MNode l es)"]
    by (subst mst_rep_Node_iff) (simp add: tree_bytes.simps)
qed simp

text \<open>Loading a stored tree returns its links and its layer.\<close>

lemma load_depth_stored:
  "mst_stored P car (MNode l es) \<Longrightarrow> leaves_ok (leaves (MNode l es)) \<Longrightarrow> lay P st n (MNode l es) \<Longrightarrow>
   room car d (MNode l es) \<Longrightarrow>
     mst_load_node_depth P car (tree_cid P (MNode l es)) d =
       Inr \<lparr>node_cid = tree_cid P (MNode l es), node_layer = n, node_left = tree_cid P l,
            node_entries = tree_entries P es\<rparr>"
proof (induction "MNode l es" arbitrary: l es n d)
  case (MNode l es)
  let ?c = "tree_cid P (MNode l es)"
  from MNode.prems(1) obtain b where b: "wf_car_find_block car ?c = Some b"
    "blk_data b = tree_bytes P (MNode l es)" by auto
  have parse: "wf_mst_node_parse P (blk_data b) ?c =
      Inr \<lparr>node_cid = ?c, node_layer = entries_layer P (tree_entries P es), node_left = tree_cid P l,
           node_entries = tree_entries P es\<rparr>"
    using parse_node_bytes [OF node_ok_tree [OF MNode.prems(2)], of ?c] b(2) by (simp add: tree_bytes.simps)
  note guard = room_guard [OF MNode.prems(4)]
  show ?case
  proof (cases es)
    case (Cons e es')
    obtain k v s where "e = (k, v, s)" by (cases e)
    then have "tree_entries P es = \<lparr>ent_key = k, ent_value = v, ent_subtree = tree_cid P s\<rparr> # tree_entries P es'"
      "wf_mst_key_layer P k = n"
      using Cons lay_key [OF MNode.prems(3)] by auto
    then show ?thesis using b parse guard by (simp add: load_depth_iff [of P car ?c d])
  next
    case Nil
    show ?thesis
    proof (cases l)
      case MNil
      then show ?thesis using b parse guard MNode.prems(3) Nil by (subst load_depth_iff) (simp add: entries_layer_def)
    next
      case (MNode l' es')
      have "mst_load_node_depth P car (tree_cid P l) (Suc d) =
        Inr \<lparr>node_cid = tree_cid P l, node_layer = n - 1, node_left = tree_cid P l', node_entries = tree_entries P es'\<rparr>"
        using MNode.hyps(1) [OF MNode, of "n - 1" "Suc d"] MNode.prems MNode
          lay_left [OF MNode.prems(3)] leaves_ok_left [OF MNode.prems(2)] room_left [OF MNode.prems(4)]
        by (simp del: leaves_Node lay.simps)
      moreover have "0 < n" using lay_left [OF MNode.prems(3)] MNode by simp
      ultimately show ?thesis
        using b parse guard Nil MNode by (subst load_depth_iff) simp
    qed
  qed
qed

lemma load_stored:
  assumes "mst_stored P car (MNode l es)" "leaves_ok (leaves (MNode l es))" "lay P st n (MNode l es)" "n \<le> 1024"
  shows "mst_load_node P car (tree_cid P (MNode l es)) =
    Inr \<lparr>node_cid = tree_cid P (MNode l es), node_layer = n, node_left = tree_cid P l,
         node_entries = tree_entries P es\<rparr>"
proof -
  have "height (MNode l es) \<le> 1025" using lay_height [OF assms(3)] assms(4) by (simp del: height.simps)
  then have "room car 0 (MNode l es)" by (rule room_root [OF stored_rep [OF assms(1,2)]])
  with assms(1-3) show ?thesis unfolding mst_load_node_def by (rule load_depth_stored)
qed

end

end
