(* ===== verification/Mst_Write.thy ===== *)
theory Mst_Write
  imports Mst_Shape
begin

text \<open>
  Writing nodes. Every writer only appends blocks (\<open>car_ext\<close>), whatever it is given. On stored trees
  \<open>wf_mst_node_finalize\<close> writes the node with its children raised to the layer below it.

  A block is not appended when one with its CID is present. That the present block is the right one
  rests on the hash: \<open>collision_free P car L\<close> says that no block of the CAR carries the CID of a well
  formed tree over the leaves \<open>L\<close> without being that tree's block. For finite \<open>L\<close> it speaks of finitely
  many byte strings, and it is assumed of the CAR an operation returns.
\<close>

section \<open>What every writer does\<close>

text \<open>
  The operations on the tree change the CAR only through \<open>mst_store_node\<close>. A relation between CARs that is
  reflexive and transitive and holds over \<open>mst_store_node\<close> therefore holds over all of them, whatever they are
  given and whether they succeed or fail.
\<close>

locale car_step =
  fixes R :: "platform \<Rightarrow> wf_car \<Rightarrow> wf_car \<Rightarrow> bool"
  assumes step_refl [simp]: "R P car car"
    and step_trans: "R P a b \<Longrightarrow> R P b c \<Longrightarrow> R P a c"
    and step_store: "R P car (fst (mst_store_node P node car))"
begin

lemma step_and_then:
  "R P car (fst r) \<Longrightarrow> (\<And>car x. R P car (fst (f car x))) \<Longrightarrow> R P car (fst (and_then r f))"
  by (cases r; cases "snd r") (auto intro: step_trans)

lemma step_and_then_when:
  "R P car (fst r) \<Longrightarrow> (\<And>car' x. r = (car', Inr x) \<Longrightarrow> R P car' (fst (f car' x))) \<Longrightarrow>
     R P car (fst (and_then r f))"
  by (cases r; cases "snd r") (auto intro: step_trans)

lemma step_and_then_right: "(\<And>car x. R P car (fst (f car x))) \<Longrightarrow> R P (fst r) (fst (and_then r f))"
  by (cases r; cases "snd r") auto

lemma step_finalize_raise:
  "R P car (fst (wf_mst_node_finalize P node car))"
  "R P car (fst (normalise_entries P car es n))"
  "R P car (fst (mst_normalise_child P car c n))"
  "R P car (fst (raise_loop P car c m n))"
proof (induction P node car and P car es n and P car c n and P car c m n
    rule: wf_mst_node_finalize_normalise_entries_mst_normalise_child_raise_loop.induct)
  case (1 P node car)
  show ?case
    unfolding wf_mst_node_finalize.simps [of P node car]
    using "1.IH" by (auto simp: step_store intro!: step_and_then_when split: if_splits)
next
  case (3 P car e es n)
  show ?case
    unfolding normalise_entries.simps using "3.IH" by (auto intro!: step_and_then_when split: if_splits)
next
  case (4 P car c n)
  show ?case
    unfolding mst_normalise_child.simps [of P car c n] using "4.IH" by (auto split: sum.splits)
next
  case (5 P car c m n)
  show ?case
    unfolding raise_loop.simps [of P car c m n] using "5.IH" by (auto intro!: step_and_then_when split: if_splits)
qed simp

lemma step_write: "R P car (fst (mst_write_node P car n l es))"
  unfolding mst_write_node_def by (intro step_and_then step_finalize_raise) simp

lemma step_raise_subtree: "R P car (fst (mst_raise_subtree P car c m n))"
  by (simp add: mst_raise_subtree_def step_finalize_raise)

lemma step_raise_to_layer: "R P car (fst (mst_raise_to_layer P car c n))"
  by (auto simp: mst_raise_to_layer_def step_raise_subtree split: sum.splits)

lemma step_if: "R P car (fst a) \<Longrightarrow> R P car (fst b) \<Longrightarrow> R P car (fst (if p then a else b))"
  by simp

lemmas step_intros = step_if step_and_then step_write step_raise_subtree step_raise_to_layer

end

text \<open>In particular they only append blocks.\<close>

interpretation ext: car_step "\<lambda>_. car_ext"
  by unfold_locales
    (auto simp: mst_store_node_def car_ext_def split: option.splits sum.splits)

lemmas ext_and_then = ext.step_and_then and ext_and_then_when = ext.step_and_then_when
  and ext_and_then_right = ext.step_and_then_right and ext_store = ext.step_store
  and ext_finalize_raise = ext.step_finalize_raise and ext_write = ext.step_write
  and ext_raise_subtree = ext.step_raise_subtree and ext_raise_to_layer = ext.step_raise_to_layer
  and ext_if = ext.step_if and ext_intros = ext.step_intros

section \<open>Collisions\<close>

definition collision_free :: "platform \<Rightarrow> wf_car \<Rightarrow> (bytes \<times> wf_cid) set \<Rightarrow> bool" where
  "collision_free P car L \<longleftrightarrow>
     (\<forall>t n b. t \<noteq> MNil \<longrightarrow> lay P False n t \<longrightarrow> n \<le> 1024 \<longrightarrow> leaves_ok (leaves t) \<longrightarrow> set (leaves t) \<subseteq> L \<longrightarrow>
        b \<in> set (car_blocks car) \<longrightarrow> blk_cid b = tree_cid P t \<longrightarrow> blk_data b = tree_bytes P t)"

lemma collision_free_ext: "collision_free P car' L \<Longrightarrow> car_ext car car' \<Longrightarrow> collision_free P car L"
  unfolding collision_free_def car_ext_def by (metis UnCI set_append)

text \<open>A tree that may be written: shape, leaves, and that the leaves are among \<open>L\<close>.\<close>

definition wtree :: "platform \<Rightarrow> bool \<Rightarrow> (bytes \<times> wf_cid) set \<Rightarrow> nat \<Rightarrow> mst \<Rightarrow> bool" where
  "wtree P st L n t \<longleftrightarrow> lay P st n t \<and> leaves_ok (leaves t) \<and> set (leaves t) \<subseteq> L \<and> n \<le> 1024"

definition wrote :: "platform \<Rightarrow> (bytes \<times> wf_cid) set \<Rightarrow> wf_car \<times> wf_cid res \<Rightarrow> mst \<Rightarrow> bool" where
  "wrote P L r t \<longleftrightarrow>
     (collision_free P (fst r) L \<longrightarrow> snd r = Inr (tree_cid P t) \<and> mst_stored P (fst r) t)"

lemma wroteD:
  "wrote P L r t \<Longrightarrow> collision_free P (fst r) L \<Longrightarrow> r = (fst r, Inr (tree_cid P t)) \<and> mst_stored P (fst r) t"
  by (simp add: wrote_def prod_eq_iff)

lemma wrote_return: "mst_stored P car t \<Longrightarrow> c = tree_cid P t \<Longrightarrow> wrote P L (car, Inr c) t"
  by (simp add: wrote_def)

lemma wrote_and_then:
  assumes "wrote P L r t" "\<And>car x. car_ext car (fst (f car x))"
    "mst_stored P (fst r) t \<Longrightarrow> collision_free P (fst r) L \<Longrightarrow> wrote P L (f (fst r) (tree_cid P t)) u"
  shows "wrote P L (and_then r f) u"
  unfolding wrote_def
proof
  assume "collision_free P (fst (and_then r f)) L"
  moreover from this have "collision_free P (fst r) L"
    by (rule collision_free_ext) (rule ext_and_then_right, rule assms(2))
  moreover note wroteD [OF assms(1) this]
  ultimately show "snd (and_then r f) = Inr (tree_cid P u) \<and> mst_stored P (fst (and_then r f)) u"
    using assms(3) by (metis and_then_simps(2) wrote_def)
qed

section \<open>Raising\<close>

fun tlayer :: "platform \<Rightarrow> mst \<Rightarrow> nat" where
  "tlayer P MNil = 0"
| "tlayer P (MNode l es) =
     (case es of (k, _) # _ \<Rightarrow> wf_mst_key_layer P k | [] \<Rightarrow> if l = MNil then 0 else Suc (tlayer P l))"

lemma lay_tlayer: "lay P st n t \<Longrightarrow> t \<noteq> MNil \<Longrightarrow> tlayer P t = n"
proof (induction t arbitrary: n)
  case (MNode l es)
  show ?case
  proof (cases es)
    case Nil
    then show ?thesis using MNode.IH(1) [of "n - 1"] MNode.prems by (cases "l = MNil") auto
  next
    case (Cons e es')
    then show ?thesis using MNode.prems by (auto split: prod.splits)
  qed
qed simp

definition wrap :: "mst \<Rightarrow> mst" where
  "wrap t = MNode t []"

definition lift :: "platform \<Rightarrow> nat \<Rightarrow> mst \<Rightarrow> mst" where
  "lift P n t = (if t = MNil then MNil else (wrap ^^ (n - Suc (tlayer P t))) t)"

lemma leaves_wraps [simp]: "leaves ((wrap ^^ k) t) = leaves t"
  by (induction k) (auto simp: wrap_def)

lemma wraps_Nil: "t \<noteq> MNil \<Longrightarrow> (wrap ^^ k) t \<noteq> MNil"
  by (cases k) (auto simp: wrap_def)

lemma lay_wrap: "lay P st m t \<Longrightarrow> t \<noteq> MNil \<Longrightarrow> lay P st (Suc m) (wrap t)"
  by (simp add: wrap_def)

lemma lay_wraps: "lay P st m t \<Longrightarrow> t \<noteq> MNil \<Longrightarrow> lay P st (m + k) ((wrap ^^ k) t)"
  by (induction k) (simp_all add: lay_wrap wraps_Nil)

lemma leaves_lift [simp]: "leaves (lift P n t) = leaves t"
  by (simp add: lift_def)

lemma lift_Nil [simp]: "lift P n t = MNil \<longleftrightarrow> t = MNil" "lift P n MNil = MNil"
  by (auto simp: lift_def dest: wraps_Nil)

lemma lay_lift: "lay P st m t \<Longrightarrow> m < n \<Longrightarrow> lay P st (n - 1) (lift P n t)"
proof (cases "t = MNil")
  case False
  assume a: "lay P st m t" "m < n"
  then have "lay P st (m + (n - Suc m)) ((wrap ^^ (n - Suc m)) t)" using lay_wraps False by blast
  with a False show ?thesis by (simp add: lift_def lay_tlayer)
qed simp

lemma lift_exact: "lay P st (n - 1) t \<Longrightarrow> 0 < n \<Longrightarrow> lift P n t = t"
  by (cases "t = MNil") (auto simp: lift_def lay_tlayer)

context platform_laws
begin

text \<open>Storing a node whose children are stored.\<close>

lemma store_wrote:
  assumes "wtree P False L n (MNode l es)" "mst_stored P car l" "\<forall>(k, v, s) \<in> set es. mst_stored P car s"
    "node_left node = tree_cid P l" "node_entries node = tree_entries P es"
  shows "\<exists>car'. mst_store_node P node car = (car', Inr (node\<lparr>node_cid := tree_cid P (MNode l es)\<rparr>)) \<and>
    (collision_free P car' L \<longrightarrow> mst_stored P car' (MNode l es))"
proof -
  let ?t = "MNode l es"
  have ok: "node_ok (tree_cid P l) (tree_entries P es)"
    using assms(1) by (intro node_ok_tree) (simp add: wtree_def del: leaves_Node)
  have ser: "wf_cbor_serialize (mst_node_item (node_left node) (node_entries node)) = Some (tree_bytes P ?t)"
    using serialize_node [OF ok] assms(4,5) by (simp add: tree_bytes.simps)
  have cid: "wf_cid_of_block P (tree_bytes P ?t) = Inr (tree_cid P ?t)"
    using node_bytes_nonempty [OF ok] by (simp add: wf_cid_of_block_def tree_cid_Node tree_bytes.simps)
  show ?thesis
  proof (cases "wf_car_find_block car (tree_cid P ?t)")
    case None
    let ?car = "car\<lparr>car_blocks := car_blocks car @ [\<lparr>blk_cid = tree_cid P ?t, blk_data = tree_bytes P ?t\<rparr>]\<rparr>"
    have ext: "car_ext car ?car" by (simp add: car_ext_def)
    have "find p (xs @ [x]) = Some x" if "find p xs = None" "p x" for p xs and x :: wf_car_block
      using that by (induction xs) (auto split: if_splits)
    then have "wf_car_find_block ?car (tree_cid P ?t) = Some \<lparr>blk_cid = tree_cid P ?t, blk_data = tree_bytes P ?t\<rparr>"
      using None by (simp add: wf_car_find_block_eq)
    then have "mst_stored P ?car ?t"
      using assms(2,3) stored_ext [OF _ ext] by fastforce
    then show ?thesis using None by (simp add: mst_store_node_def ser cid)
  next
    case (Some b)
    have "blk_data b = tree_bytes P ?t" if "collision_free P car L"
      using that find_block_mem [OF Some] assms(1) unfolding collision_free_def wtree_def by blast
    with Some assms(2,3) show ?thesis by (auto simp: mst_store_node_def ser cid)
  qed
qed

lemma load_wtree:
  assumes "mst_stored P car t" "wtree P st L n t" "t \<noteq> MNil"
  shows "\<exists>l es. t = MNode l es \<and> mst_load_node P car (tree_cid P t) =
    Inr \<lparr>node_cid = tree_cid P t, node_layer = n, node_left = tree_cid P l, node_entries = tree_entries P es\<rparr>"
proof -
  obtain l es where t: "t = MNode l es" using assms(3) by (cases t) auto
  from assms(1,2) show ?thesis
    unfolding t wtree_def using load_stored [of car l es st n] by blast
qed

lemma normalise_exact:
  assumes "mst_stored P car t" "wtree P st L n t" "t \<noteq> MNil" "m \<le> Suc n"
  shows "mst_normalise_child P car (tree_cid P t) m = (car, Inr (tree_cid P t))"
  using load_wtree [OF assms(1-3)] assms(4) by (auto simp: mst_normalise_child.simps)

lemma wtree_wrap: "wtree P st L m t \<Longrightarrow> t \<noteq> MNil \<Longrightarrow> m < 1024 \<Longrightarrow> wtree P st L (Suc m) (wrap t)"
  by (auto simp: wtree_def wrap_def)

lemma wtree_weaken: "wtree P st L n t \<Longrightarrow> wtree P False L n t"
  by (auto simp: wtree_def intro: lay_weaken)

lemma finalize_wrap:
  assumes "mst_stored P car t" "wtree P st L m t" "t \<noteq> MNil" "m < 1024"
  shows "\<exists>car' node. wf_mst_node_finalize P (wf_mst_node_build (Suc m) (tree_cid P t) []) car = (car', Inr node) \<and>
    node_cid node = tree_cid P (wrap t) \<and> (collision_free P car' L \<longrightarrow> mst_stored P car' (wrap t))"
proof -
  have "wtree P False L (Suc m) (MNode t [])"
    using wtree_weaken [OF wtree_wrap [OF assms(2-4)]] by (simp add: wrap_def)
  from store_wrote [OF this assms(1), of "wf_mst_node_build (Suc m) (tree_cid P t) []"]
  obtain car' where "mst_store_node P (wf_mst_node_build (Suc m) (tree_cid P t) []) car =
      (car', Inr ((wf_mst_node_build (Suc m) (tree_cid P t) [])\<lparr>node_cid := tree_cid P (MNode t [])\<rparr>))"
    "collision_free P car' L \<longrightarrow> mst_stored P car' (MNode t [])"
    by (auto simp: wf_mst_node_build_def)
  then show ?thesis
    using normalise_exact [OF assms(1-3), of "Suc m"] assms(3)
    by (simp add: wf_mst_node_finalize.simps wf_mst_node_build_def effective_layer_def wrap_def)
qed

lemma raise_wrote:
  assumes "mst_stored P car t" "wtree P st L m t" "t \<noteq> MNil" "m < n" "n \<le> 1024"
  shows "wrote P L (raise_loop P car (tree_cid P t) (Suc m) n) ((wrap ^^ (n - Suc m)) t)"
  using assms
proof (induction "n - Suc m" arbitrary: m t car)
  case 0
  then show ?case by (simp add: raise_loop.simps wrote_return)
next
  case (Suc k)
  from finalize_wrap [OF Suc.prems(1-3)] Suc.hyps(2) Suc.prems(5)
  obtain car' node where f: "wf_mst_node_finalize P (wf_mst_node_build (Suc m) (tree_cid P t) []) car = (car', Inr node)"
    "node_cid node = tree_cid P (wrap t)" "collision_free P car' L \<longrightarrow> mst_stored P car' (wrap t)"
    by fastforce
  have lt: "Suc m < n" using Suc.hyps(2) by linarith
  have eq: "raise_loop P car (tree_cid P t) (Suc m) n = raise_loop P car' (tree_cid P (wrap t)) (Suc (Suc m)) n"
    using lt f by (simp add: raise_loop.simps [of P car])
  have pw: "(wrap ^^ (n - Suc m)) t = (wrap ^^ (n - Suc (Suc m))) (wrap t)"
    using lt by (metis Suc_diff_Suc comp_apply funpow_Suc_right)
  show ?case
    unfolding wrote_def eq
  proof
    assume cf: "collision_free P (fst (raise_loop P car' (tree_cid P (wrap t)) (Suc (Suc m)) n)) L"
    then have "mst_stored P car' (wrap t)"
      using f(3) collision_free_ext [OF cf ext_finalize_raise(4)] by simp
    moreover have "wtree P st L (Suc m) (wrap t)" using wtree_wrap Suc.prems Suc.hyps(2) by simp
    moreover have "k = n - Suc (Suc m)" using Suc.hyps(2) by simp
    ultimately have "wrote P L (raise_loop P car' (tree_cid P (wrap t)) (Suc (Suc m)) n)
        ((wrap ^^ (n - Suc (Suc m))) (wrap t))"
      using Suc.hyps(1) [of "Suc m" car' "wrap t"] Suc.hyps(2) Suc.prems(5) by (simp add: wrap_def)
    then show "snd (raise_loop P car' (tree_cid P (wrap t)) (Suc (Suc m)) n) =
        Inr (tree_cid P ((wrap ^^ (n - Suc m)) t)) \<and>
      mst_stored P (fst (raise_loop P car' (tree_cid P (wrap t)) (Suc (Suc m)) n)) ((wrap ^^ (n - Suc m)) t)"
      using cf by (simp add: wrote_def pw)
  qed
qed

lemma normalise_wrote:
  assumes "mst_stored P car t" "wtree P st L m t" "t \<noteq> MNil" "m < n" "n \<le> 1024"
  shows "wrote P L (mst_normalise_child P car (tree_cid P t) n) (lift P n t)"
proof -
  have m: "tlayer P t = m" using assms(2,3) by (auto simp: wtree_def lay_tlayer)
  show ?thesis
  proof (cases "n \<le> m + 1")
    case True
    then have "lift P n t = t" using m assms(3,4) by (simp add: lift_def)
    with normalise_exact [OF assms(1-3), of n] True assms(1) show ?thesis by (simp add: wrote_return)
  next
    case False
    with load_wtree [OF assms(1-3)] assms(3)
    have "mst_normalise_child P car (tree_cid P t) n = raise_loop P car (tree_cid P t) (Suc m) n"
      by (auto simp: mst_normalise_child.simps)
    with raise_wrote [OF assms] m assms(3) show ?thesis by (simp add: lift_def)
  qed
qed

lemma raise_to_layer_wrote:
  assumes "mst_stored P car t" "wtree P st L m t" "m < n" "n \<le> 1024"
  shows "wrote P L (mst_raise_to_layer P car (tree_cid P t) n) (lift P n t)"
proof (cases "t = MNil")
  case True
  then show ?thesis by (simp add: mst_raise_to_layer_def wrote_return)
next
  case False
  with load_wtree [OF assms(1,2)] have "mst_raise_to_layer P car (tree_cid P t) n =
      raise_loop P car (tree_cid P t) (Suc m) n"
    by (auto simp: mst_raise_to_layer_def mst_raise_subtree_def)
  moreover have "tlayer P t = m" using assms(2) False by (auto simp: wtree_def lay_tlayer)
  ultimately show ?thesis using raise_wrote [OF assms(1,2) False assms(3,4)] False by (simp add: lift_def)
qed

section \<open>Finalising\<close>

definition lift_entries :: "nat \<Rightarrow> (bytes \<times> wf_cid \<times> mst) list \<Rightarrow> (bytes \<times> wf_cid \<times> mst) list" where
  "lift_entries n es = map (\<lambda>(k, v, s). (k, v, lift P n s)) es"

lemma lift_entries_simps [simp]:
  "lift_entries n [] = []"
  "lift_entries n ((k, v, s) # es) = (k, v, lift P n s) # lift_entries n es"
  "ent_leaves (lift_entries n es) = ent_leaves es"
  "lift_entries n es = [] \<longleftrightarrow> es = []"
proof -
  show "ent_leaves (lift_entries n es) = ent_leaves es"
    by (induction es) (auto simp: lift_entries_def)
qed (auto simp: lift_entries_def)

lemma normalise_entries_wrote:
  assumes "\<And>k v s. (k, v, s) \<in> set es \<Longrightarrow> mst_stored P car s \<and> (s \<noteq> MNil \<longrightarrow> (\<exists>m < n. wtree P st L m s))"
    "n \<le> 1024" "collision_free P (fst (normalise_entries P car (tree_entries P es) n)) L"
  shows "\<exists>car'. normalise_entries P car (tree_entries P es) n = (car', Inr (tree_entries P (lift_entries n es))) \<and>
    (\<forall>(k, v, s) \<in> set (lift_entries n es). mst_stored P car' s)"
  using assms
proof (induction es arbitrary: car)
  case (Cons e es)
  obtain k v s where e: "e = (k, v, s)" by (cases e)
  let ?r1 = "if tree_cid P s = [] then (car, Inr []) else mst_normalise_child P car (tree_cid P s) n"
  let ?f1 = "\<lambda>car sub. and_then (normalise_entries P car (tree_entries P es) n) (\<lambda>car es'. (car,
    Inr (\<lparr>ent_key = k, ent_value = v, ent_subtree = tree_cid P s\<rparr>\<lparr>ent_subtree := sub\<rparr> # es')))"
  have eq: "normalise_entries P car (tree_entries P (e # es)) n = and_then ?r1 ?f1"
    by (simp add: e)
  have ext1: "car_ext car' (fst (?f1 car' x))" for car' x
    by (intro ext_and_then ext_finalize_raise) simp
  have w1: "wrote P L ?r1 (lift P n s)"
  proof (cases "s = MNil")
    case False
    then obtain m where "m < n" "wtree P st L m s" using Cons.prems(1) [of k v s] e by auto
    then show ?thesis using normalise_wrote Cons.prems(1) [of k v s] Cons.prems(2) False e by simp
  qed (simp add: wrote_return)
  have cf1: "collision_free P (fst ?r1) L"
    by (rule collision_free_ext [OF Cons.prems(3)]) (unfold eq, rule ext_and_then_right, rule ext1)
  from wroteD [OF w1 this] obtain car1 where r1: "?r1 = (car1, Inr (tree_cid P (lift P n s)))"
    "mst_stored P car1 (lift P n s)" by (metis fst_conv)
  have ext: "car_ext car car1"
    using ext_finalize_raise(3) [of car P "tree_cid P s" n] r1(1) by (auto split: if_splits)
  have c2: "collision_free P (fst (normalise_entries P car1 (tree_entries P es) n)) L"
    by (rule collision_free_ext [OF Cons.prems(3)])
      (unfold eq r1(1) and_then_simps, rule ext_and_then_right, simp)
  have "\<exists>car'. normalise_entries P car1 (tree_entries P es) n = (car', Inr (tree_entries P (lift_entries n es))) \<and>
    (\<forall>(k, v, s) \<in> set (lift_entries n es). mst_stored P car' s)"
    by (rule Cons.IH [OF _ Cons.prems(2) c2]) (use Cons.prems(1) stored_ext [OF _ ext] in \<open>meson list.set_intros(2)\<close>)
  then obtain car2 where r2: "normalise_entries P car1 (tree_entries P es) n =
      (car2, Inr (tree_entries P (lift_entries n es)))"
    "\<forall>(k, v, s) \<in> set (lift_entries n es). mst_stored P car2 s" by blast
  have "car_ext car1 car2" using ext_finalize_raise(2) [of car1 P "tree_entries P es" n] r2(1) by simp
  then show ?case
    unfolding eq r1(1) using r2 stored_ext [OF r1(2)] by (simp add: e)
qed simp

text \<open>What may be handed to \<open>mst_write_node\<close>: keys of the node's layer, children anywhere below it.\<close>

definition wnode :: "bool \<Rightarrow> (bytes \<times> wf_cid) set \<Rightarrow> nat \<Rightarrow> mst \<Rightarrow> (bytes \<times> wf_cid \<times> mst) list \<Rightarrow> bool" where
  "wnode st L n l es \<longleftrightarrow> leaves_ok (leaves l @ ent_leaves es) \<and> set (leaves l @ ent_leaves es) \<subseteq> L \<and> n \<le> 1024 \<and>
     (l \<noteq> MNil \<longrightarrow> (\<exists>m < n. lay P st m l)) \<and>
     (\<forall>(k, v, s) \<in> set es. wf_mst_key_layer P k = n \<and> (s \<noteq> MNil \<longrightarrow> (\<exists>m < n. lay P st m s)))"

definition written :: "nat \<Rightarrow> mst \<Rightarrow> (bytes \<times> wf_cid \<times> mst) list \<Rightarrow> mst" where
  "written n l es = MNode (lift P n l) (lift_entries n es)"

lemma leaves_written [simp]: "leaves (written n l es) = leaves l @ ent_leaves es"
  by (simp add: written_def)

lemma wnode_sub: "wnode st L n l es \<Longrightarrow> (k, v, s) \<in> set es \<Longrightarrow> s \<noteq> MNil \<Longrightarrow> \<exists>m < n. wtree P st L m s"
proof -
  assume a: "wnode st L n l es" "(k, v, s) \<in> set es" "s \<noteq> MNil"
  then obtain m where "m < n" "lay P st m s" unfolding wnode_def by fastforce
  moreover have "leaves_ok (leaves s)" "set (leaves s) \<subseteq> L"
    using a(1) leaves_ok_sub [of l es k v s] set_leaves_sub [OF a(2)] a(2) by (auto simp: wnode_def)
  ultimately show ?thesis using a(1) by (auto simp: wtree_def wnode_def intro!: exI [of _ m])
qed

lemma wnode_left: "wnode st L n l es \<Longrightarrow> l \<noteq> MNil \<Longrightarrow> \<exists>m < n. wtree P st L m l"
  using leaves_ok_append [of "leaves l" "ent_leaves es"] by (auto simp: wtree_def wnode_def)

lemma wtree_written:
  assumes "wnode st L n l es" "es \<noteq> [] \<or> l \<noteq> MNil"
  shows "wtree P st L n (written n l es)"
proof -
  have "0 < n \<and> lay P st (n - 1) (lift P n l)" if "l \<noteq> MNil"
    using that assms(1) lay_lift by (fastforce simp: wnode_def)
  moreover have "wf_mst_key_layer P k = n \<and> (s \<noteq> MNil \<longrightarrow> 0 < n \<and> lay P st (n - 1) (lift P n s))"
    if "(k, v, s) \<in> set es" for k v s
    using that assms(1) lay_lift by (fastforce simp: wnode_def)
  ultimately have "lay P st n (written n l es)"
    using assms(2) by (fastforce simp: written_def lift_entries_def)
  then show ?thesis using assms(1) by (simp add: wtree_def wnode_def)
qed

lemma write_wrote:
  assumes "wnode st L n l es" "es \<noteq> [] \<or> l \<noteq> MNil" "mst_stored P car l"
    "\<And>k v s. (k, v, s) \<in> set es \<Longrightarrow> mst_stored P car s"
    "c = tree_cid P l" "ents = tree_entries P es"
  shows "wrote P L (mst_write_node P car n c ents) (written n l es)"
proof -
  let ?node = "wf_mst_node_build n (tree_cid P l) (tree_entries P es)"
  have eff: "effective_layer P ?node = n"
    using assms(1) by (cases es) (auto simp: effective_layer_def wf_mst_node_build_def wnode_def)
  note tree = wtree_weaken [OF wtree_written [OF assms(1,2)]]
  have n: "n \<le> 1024" using assms(1) by (simp add: wnode_def)
  have goal: "snd (mst_write_node P car n c ents) = Inr (tree_cid P (written n l es)) \<and>
      mst_stored P (fst (mst_write_node P car n c ents)) (written n l es)"
    if cf: "collision_free P (fst (mst_write_node P car n c ents)) L"
  proof (cases "n = 0")
    case True
    then have sub: "s = MNil" if "(k, v, s) \<in> set es" for k v s
      using assms(1) that by (auto simp: wnode_def)
    from True assms(1) have l: "l = MNil" by (auto simp: wnode_def)
    have same: "lift_entries n es = es"
      unfolding lift_entries_def by (intro map_idI) (use sub in fastforce)
    have w: "written n l es = MNode l es" by (simp add: written_def same l)
    have subs: "\<forall>(k, v, s) \<in> set es. mst_stored P car s" using assms(4) by blast
    have "node_left ?node = tree_cid P l" "node_entries ?node = tree_entries P es"
      by (simp_all add: wf_mst_node_build_def)
    from store_wrote [OF tree [unfolded w] assms(3) subs this] obtain car' where "mst_store_node P ?node car = (car', Inr (?node\<lparr>node_cid := tree_cid P (MNode l es)\<rparr>))"
      "collision_free P car' L \<longrightarrow> mst_stored P car' (MNode l es)"
      by blast
    then show ?thesis
      unfolding w using cf eff True assms(5,6)
      by (simp add: mst_write_node_def wf_mst_node_finalize.simps) (simp add: wf_mst_node_build_def)
  next
    case False
    let ?r1 = "if tree_cid P l = [] then (car, Inr []) else mst_normalise_child P car (tree_cid P l) n"
    let ?f2 = "\<lambda>left car entries. and_then (mst_store_node P (?node\<lparr>node_left := left, node_entries := entries\<rparr>) car)
      (\<lambda>car node. (car, Inr (node_cid node)))"
    let ?f1 = "\<lambda>car left. and_then (normalise_entries P car (tree_entries P es) n) (?f2 left)"
    have assoc: "and_then (and_then r f) g = and_then r (\<lambda>car x. and_then (f car x) g)" for r :: "wf_car \<times> 'x res"
      and f :: "wf_car \<Rightarrow> 'x \<Rightarrow> wf_car \<times> 'y res" and g :: "wf_car \<Rightarrow> 'y \<Rightarrow> wf_car \<times> 'z res"
      by (cases r; cases "snd r") auto
    have eq: "mst_write_node P car n c ents = and_then ?r1 ?f1"
      using False eff assms(2,5,6) unfolding mst_write_node_def
      by (subst wf_mst_node_finalize.simps) (auto simp: assoc wf_mst_node_build_def)
    have ext2: "car_ext car' (fst (?f2 left car' x))" for car' left x
      by (intro ext_and_then ext_store) simp
    have ext1: "car_ext car' (fst (?f1 car' x))" for car' x
      by (intro ext_and_then ext_finalize_raise ext2)
    have w1: "wrote P L ?r1 (lift P n l)"
    proof (cases "l = MNil")
      case False
      then obtain m where "m < n" "wtree P st L m l" using wnode_left [OF assms(1)] by auto
      then show ?thesis using normalise_wrote [OF assms(3)] n False by simp
    qed (simp add: wrote_return)
    have cf1: "collision_free P (fst ?r1) L"
      by (rule collision_free_ext [OF cf]) (unfold eq, rule ext_and_then_right, rule ext1)
    from wroteD [OF w1 this] obtain car1 where r1: "?r1 = (car1, Inr (tree_cid P (lift P n l)))"
      "mst_stored P car1 (lift P n l)" by (metis fst_conv)
    have e1: "car_ext car car1"
      using ext_finalize_raise(3) [of car P "tree_cid P l" n] r1(1) by (auto split: if_splits)
    have cf2: "collision_free P (fst (normalise_entries P car1 (tree_entries P es) n)) L"
      by (rule collision_free_ext [OF cf]) (unfold eq r1(1) and_then_simps, rule ext_and_then_right, rule ext2)
    from normalise_entries_wrote [OF _ n cf2, of st] assms(4) stored_ext [OF _ e1] wnode_sub [OF assms(1)]
    obtain car2 where r2: "normalise_entries P car1 (tree_entries P es) n = (car2, Inr (tree_entries P (lift_entries n es)))"
      "\<forall>(k, v, s) \<in> set (lift_entries n es). mst_stored P car2 s" by blast
    have e2: "car_ext car1 car2" using ext_finalize_raise(2) [of car1 P "tree_entries P es" n] r2(1) by simp
    from store_wrote [OF tree [unfolded written_def] stored_ext [OF r1(2) e2] r2(2),
        of "?node\<lparr>node_left := tree_cid P (lift P n l), node_entries := tree_entries P (lift_entries n es)\<rparr>"]
    obtain car3 where "mst_store_node P (?node\<lparr>node_left := tree_cid P (lift P n l),
          node_entries := tree_entries P (lift_entries n es)\<rparr>) car2 =
        (car3, Inr (?node\<lparr>node_left := tree_cid P (lift P n l),
          node_entries := tree_entries P (lift_entries n es), node_cid := tree_cid P (written n l es)\<rparr>))"
      "collision_free P car3 L \<longrightarrow> mst_stored P car3 (written n l es)"
      by (auto simp: written_def)
    then show ?thesis using cf unfolding eq r1(1) and_then_simps r2(1) by simp
  qed
  then show ?thesis by (simp add: wrote_def)
qed

lemma write_empty_wrote: "wrote P L (mst_write_node P car n [] []) (MNode MNil [])"
proof -
  let ?node = "wf_mst_node_build n [] []"
  have "wtree P False L 0 (MNode MNil [])" by (simp add: wtree_def leaves_ok_def)
  from store_wrote [OF this, of car ?node] obtain car' where
    "mst_store_node P ?node car = (car', Inr (?node\<lparr>node_cid := tree_cid P (MNode MNil [])\<rparr>))"
    "collision_free P car' L \<longrightarrow> mst_stored P car' (MNode MNil [])"
    by (auto simp: wf_mst_node_build_def)
  then show ?thesis
    by (simp add: wrote_def mst_write_node_def wf_mst_node_finalize.simps)
      (simp add: wf_mst_node_build_def)
qed

end

end
