(* ===== verification/Mst_Split.thy ===== *)
theory Mst_Split
  imports Mst_Write
begin

text \<open>
  Splitting a stored tree around a key: \<open>mst_split_around\<close> returns two stored trees at the layer of
  the tree, the lower with exactly the smaller keys and the upper with the others.
\<close>

section \<open>Items\<close>

text \<open>A leaf item carries its old subtree, which is never read; \<open>strip\<close> forgets it.\<close>

fun strip :: "mst_split_item \<Rightarrow> mst_split_item" where
  "strip (TREE c) = TREE c"
| "strip (LEAF k v s) = LEAF k v []"

definition sitems :: "platform \<Rightarrow> mst \<Rightarrow> (bytes \<times> wf_cid \<times> mst) list \<Rightarrow> mst_split_item list" where
  "sitems P l es = (if l = MNil then [] else [TREE (tree_cid P l)]) @
     concat (map (\<lambda>(k, v, s). LEAF k v [] # (if s = MNil then [] else [TREE (tree_cid P s)])) es)"

lemma is_tree_strip [simp]: "is_tree (strip i) = is_tree i"
  by (cases i) auto

lemma items_entries_strip [simp]: "items_entries (map strip items) = items_entries items"
proof (induction items rule: items_entries.induct)
  case (3 k v s items)
  then show ?case by (cases items; cases "hd items") auto
qed auto

lemma split_index_strip [simp]: "split_index key (map strip items) = split_index key items"
  by (induction key items rule: split_index.induct) auto

lemma build_strip: "mst_build_from_items P car n (map strip items) = mst_build_from_items P car n items"
proof (cases "items = [] \<or> list_all is_tree items")
  case True
  then have "map strip items = items"
    by (induction items) (auto elim: is_tree.elims)
  then show ?thesis by simp
next
  case False
  then have "list_all is_tree (map strip items) \<longleftrightarrow> list_all is_tree items" "hd (map strip items) = strip (hd items)"
    by (auto simp: list_all_iff hd_map)
  with False show ?thesis by (cases "hd items") (auto simp: mst_build_from_items_def)
qed

lemma strip_collect:
  "node_left node = tree_cid P l \<Longrightarrow> node_entries node = tree_entries P es \<Longrightarrow>
     map strip (mst_collect_items node) = sitems P l es"
proof -
  assume a: "node_left node = tree_cid P l" "node_entries node = tree_entries P es"
  have "map strip (concat (map (\<lambda>e. LEAF (ent_key e) (ent_value e) (ent_subtree e) #
      (if ent_subtree e = [] then [] else [TREE (ent_subtree e)])) (tree_entries P es))) =
    concat (map (\<lambda>(k, v, s). LEAF k v [] # (if s = MNil then [] else [TREE (tree_cid P s)])) es)"
    by (induction es) auto
  with a show ?thesis by (auto simp: mst_collect_items_def sitems_def)
qed

lemma sitems_simps:
  "sitems P MNil [] = []"
  "sitems P l (es @ es') = sitems P l es @ sitems P MNil es'"
  "sitems P MNil ((k, v, s) # es) =
     LEAF k v [] # (if s = MNil then [] else [TREE (tree_cid P s)]) @ sitems P MNil es"
  "l \<noteq> MNil \<Longrightarrow> sitems P l es = TREE (tree_cid P l) # sitems P MNil es"
  by (auto simp: sitems_def)

lemma sitems_empty_iff: "sitems P l es = [] \<longleftrightarrow> l = MNil \<and> es = []"
  by (cases es) (auto simp: sitems_def)

lemma items_entries_sitems: "items_entries (sitems P MNil es) = tree_entries P es"
proof (induction es)
  case (Cons e es)
  obtain k v s where e: "e = (k, v, s)" by (cases e)
  have "(case sitems P MNil es of TREE c # _ \<Rightarrow> c | _ \<Rightarrow> []) = []"
    by (cases es) (auto simp: sitems_def)
  with Cons show ?case by (auto simp: e sitems_simps)
qed (simp add: sitems_simps)

lemma build_sitems:
  assumes "map strip items = sitems P l es"
  shows "mst_build_from_items P car n items =
    (if l = MNil \<and> es = [] then (car, Inr []) else mst_write_node P car n (tree_cid P l) (tree_entries P es))"
proof -
  have "mst_build_from_items P car n items = mst_build_from_items P car n (sitems P l es)"
    using build_strip [of P car n items] assms by simp
  also have "\<dots> = (if l = MNil \<and> es = [] then (car, Inr [])
      else mst_write_node P car n (tree_cid P l) (tree_entries P es))"
  proof (cases "es = []")
    case True
    then show ?thesis by (auto simp: mst_build_from_items_def sitems_def)
  next
    case False
    then obtain k v s es' where es: "es = (k, v, s) # es'" by (metis prod_cases3 list.exhaust)
    have "\<not> list_all is_tree (sitems P l es)" by (auto simp: es sitems_def)
    moreover have "items_entries (sitems P l es) = tree_entries P es"
      using items_entries_sitems [of P es] by (cases "l = MNil") (auto simp: sitems_simps(4))
    moreover have "(case hd (sitems P l es) of TREE c \<Rightarrow> c | _ \<Rightarrow> []) = tree_cid P l"
      by (auto simp: es sitems_def)
    ultimately show ?thesis using False by (simp add: mst_build_from_items_def sitems_empty_iff)
  qed
  finally show ?thesis .
qed

section \<open>Where the key falls\<close>

abbreviation below :: "bytes \<Rightarrow> bytes \<times> wf_cid \<times> mst \<Rightarrow> bool" where
  "below key e \<equiv> fst e < key"

definition predt :: "mst \<Rightarrow> (bytes \<times> wf_cid \<times> mst) list \<Rightarrow> mst" where
  "predt l es = (if es = [] then l else snd (snd (last es)))"

definition with_pred ::
  "mst \<Rightarrow> (bytes \<times> wf_cid \<times> mst) list \<Rightarrow> mst \<Rightarrow> mst \<times> (bytes \<times> wf_cid \<times> mst) list" where
  "with_pred l es t =
     (if es = [] then (t, []) else (l, butlast es @ [(fst (last es), fst (snd (last es)), t)]))"

definition pre_leaves :: "mst \<Rightarrow> (bytes \<times> wf_cid \<times> mst) list \<Rightarrow> (bytes \<times> wf_cid) list" where
  "pre_leaves l es =
     (if es = [] then [] else leaves l @ ent_leaves (butlast es) @ [(fst (last es), fst (snd (last es)))])"

lemma leaves_predt: "leaves l @ ent_leaves es = pre_leaves l es @ leaves (predt l es)"
  by (cases es rule: rev_cases) (auto simp: predt_def pre_leaves_def)

lemma leaves_with_pred: "with_pred l es t = (l', es') \<Longrightarrow> leaves l' @ ent_leaves es' = pre_leaves l es @ leaves t"
  by (cases es rule: rev_cases) (auto simp: with_pred_def pre_leaves_def)

lemma sitems_with_pred:
  assumes "predt l es \<noteq> MNil" "with_pred l es MNil = (l0, es0)"
  shows "sitems P l es = sitems P l0 es0 @ [TREE (tree_cid P (predt l es))]"
  using assms by (cases es rule: rev_cases) (auto simp: predt_def with_pred_def sitems_simps)

lemma sitems_with_pred_tree:
  assumes "t \<noteq> MNil" "with_pred l es MNil = (l0, es0)" "with_pred l es t = (l1, es1)"
  shows "sitems P l0 es0 @ [TREE (tree_cid P t)] = sitems P l1 es1"
  using assms by (cases es rule: rev_cases) (auto simp: with_pred_def sitems_simps)

lemma sitems_last:
  assumes "predt l es = MNil" "sitems P l es \<noteq> []"
  shows "\<not> is_tree (last (sitems P l es))"
  using assms by (cases es rule: rev_cases) (auto simp: predt_def sitems_simps split: if_splits)

lemma split_index_sitems:
  assumes "length key < 2 ^ 31" "\<forall>e \<in> set es. length (fst e) < 2 ^ 31"
  shows "split_index key (sitems P l es) = length (sitems P l (takeWhile (below key) es))"
proof -
  have "split_index key (sitems P MNil es) = length (sitems P MNil (takeWhile (below key) es))"
    using assms(2)
  proof (induction es)
    case (Cons e es)
    obtain k v s where e: "e = (k, v, s)" by (cases e)
    then have "wf_mst_key_cmp key k \<le> 0 \<longleftrightarrow> \<not> k < key"
      using key_cmp_order [OF assms(1), of k] Cons.prems by (auto simp: wf_mst_key_cmp_def not_less)
    then show ?case using Cons by (auto simp: e sitems_simps)
  qed (simp add: sitems_simps)
  then show ?thesis by (cases "l = MNil") (simp_all add: sitems_simps(4))
qed

text \<open>The keys before the split point are smaller, those after are not.\<close>

lemma split_leaves:
  fixes es :: "(bytes \<times> wf_cid \<times> mst) list" and key :: bytes
  assumes "keys_sorted (leaves l @ ent_leaves es)"
  defines "es1 \<equiv> takeWhile (below key) es" and "es2 \<equiv> dropWhile (below key) es"
  shows "filter (\<lambda>x. fst x < key) (leaves l @ ent_leaves es) =
      pre_leaves l es1 @ filter (\<lambda>x. fst x < key) (leaves (predt l es1))"
    "filter (\<lambda>x. \<not> fst x < key) (leaves l @ ent_leaves es) =
      filter (\<lambda>x. \<not> fst x < key) (leaves (predt l es1)) @ ent_leaves es2"
proof -
  have all: "leaves l @ ent_leaves es = pre_leaves l es1 @ leaves (predt l es1) @ ent_leaves es2"
  proof -
    have "ent_leaves es = ent_leaves es1 @ ent_leaves es2"
      unfolding es1_def es2_def by (metis ent_leaves_simps(3) takeWhile_dropWhile_id)
    then show ?thesis using leaves_predt [of l es1] by simp
  qed
  have low: "\<forall>x \<in> set (pre_leaves l es1). fst x < key"
  proof (cases es1 rule: rev_cases)
    case (snoc es1' e)
    then have e: "fst e < key" using set_takeWhileD [of e "below key" es] by (simp add: es1_def)
    have "keys_sorted (pre_leaves l es1)" using assms(1) unfolding all by (simp add: sorted_wrt_append)
    then have "\<forall>x \<in> set (pre_leaves l es1). fst x \<le> fst e"
      by (auto simp: snoc pre_leaves_def sorted_wrt_append)
    with e show ?thesis by auto
  qed (simp add: pre_leaves_def)
  have high: "\<forall>x \<in> set (ent_leaves es2). \<not> fst x < key"
  proof (cases es2)
    case (Cons e es2')
    obtain k v s where e: "e = (k, v, s)" by (cases e)
    have k: "\<not> k < key" using Cons e hd_dropWhile [of "below key" es] by (simp add: es2_def)
    have "keys_sorted (ent_leaves es2)" using assms(1) unfolding all by (simp add: sorted_wrt_append)
    then have "\<forall>x \<in> fst ` set (ent_leaves es2). k \<le> x"
      by (simp add: Cons e image_Un less_imp_le)
    with k show ?thesis by (meson image_eqI le_less_trans not_less)
  qed simp
  show "filter (\<lambda>x. fst x < key) (leaves l @ ent_leaves es) =
      pre_leaves l es1 @ filter (\<lambda>x. fst x < key) (leaves (predt l es1))"
    "filter (\<lambda>x. \<not> fst x < key) (leaves l @ ent_leaves es) =
      filter (\<lambda>x. \<not> fst x < key) (leaves (predt l es1)) @ ent_leaves es2"
    unfolding all using low high by (auto simp: filter_empty_conv)
qed

lemma leaves_ok_filter: "leaves_ok ls \<Longrightarrow> leaves_ok (filter Q ls)"
proof -
  assume a: "leaves_ok ls"
  have "keys_sorted (filter Q ls)"
    using a by (simp add: leaves_ok_def sorted_wrt_map sorted_wrt_filter)
  moreover have "length (filter Q ls) \<le> length ls" by simp
  ultimately show ?thesis using a by (auto simp: leaves_ok_def list_all_iff simp del: length_filter_le)
qed

section \<open>Results of writers\<close>

text \<open>
  \<open>yields P L r Q\<close>: unless the CAR it leaves has a collision among trees over \<open>L\<close>, the step \<open>r\<close> succeeds
  with a result that satisfies \<open>Q\<close> there.
\<close>

definition yields ::
  "platform \<Rightarrow> (bytes \<times> wf_cid) set \<Rightarrow> wf_car \<times> 'a res \<Rightarrow> (wf_car \<Rightarrow> 'a \<Rightarrow> bool) \<Rightarrow> bool" where
  "yields P L r Q \<longleftrightarrow> (collision_free P (fst r) L \<longrightarrow> (\<exists>x. snd r = Inr x \<and> Q (fst r) x))"

lemma yields_return [simp]: "yields P L (car, Inr x) Q \<longleftrightarrow> (collision_free P car L \<longrightarrow> Q car x)"
  by (simp add: yields_def)

lemma yields_weaken: "yields P L r Q \<Longrightarrow> (\<And>car x. Q car x \<Longrightarrow> R car x) \<Longrightarrow> yields P L r R"
  by (auto simp: yields_def)

lemma yields_and_then:
  assumes "yields P L r Q" "car_ext car (fst r)" "\<And>car x. car_ext car (fst (f car x))"
    "\<And>car' x. car_ext car car' \<Longrightarrow> Q car' x \<Longrightarrow> yields P L (f car' x) R"
  shows "yields P L (and_then r f) R"
  unfolding yields_def
proof
  assume cf: "collision_free P (fst (and_then r f)) L"
  then have "collision_free P (fst r) L"
    by (rule collision_free_ext) (rule ext_and_then_right, rule assms(3))
  with assms(1) obtain x where x: "r = (fst r, Inr x)" "Q (fst r) x"
    by (auto simp: yields_def prod_eq_iff)
  then have eq: "and_then r f = f (fst r) x" by (metis and_then_simps(2))
  from assms(4) [OF assms(2) x(2)] cf show "\<exists>x. snd (and_then r f) = Inr x \<and> R (fst (and_then r f)) x"
    by (simp add: yields_def eq)
qed

lemma and_then_assoc: "and_then (and_then r f) g = and_then r (\<lambda>car x. and_then (f car x) g)"
  by (cases r; cases "snd r") auto

lemma wrote_yields: "wrote P L r t \<Longrightarrow> yields P L r (\<lambda>car c. c = tree_cid P t \<and> mst_stored P car t)"
  by (simp add: wrote_def yields_def)

text \<open>\<open>made\<close>: a CID names a stored tree of the given layer with the given leaves.\<close>

definition made ::
  "platform \<Rightarrow> bool \<Rightarrow> (bytes \<times> wf_cid) set \<Rightarrow> nat \<Rightarrow> (bytes \<times> wf_cid) list \<Rightarrow> wf_car \<Rightarrow> wf_cid \<Rightarrow> bool" where
  "made P st L n ls car c \<longleftrightarrow>
     (\<exists>t. c = tree_cid P t \<and> mst_stored P car t \<and> wtree P st L n t \<and> leaves t = ls)"

lemma made_ext: "made P st L n ls car c \<Longrightarrow> car_ext car car' \<Longrightarrow> made P st L n ls car' c"
  by (auto simp: made_def intro: stored_ext)

lemma made_tree: "mst_stored P car t \<Longrightarrow> wtree P st L n t \<Longrightarrow> made P st L n (leaves t) car (tree_cid P t)"
  by (auto simp: made_def)

lemma madeE:
  assumes "made P st L n ls car c"
  obtains t where "c = tree_cid P t" "mst_stored P car t" "lay P st n t" "leaves t = ls" "wtree P st L n t"
  using assms by (auto simp: made_def wtree_def)

lemma made_empty: "n \<le> 1024 \<Longrightarrow> made P st L n [] car []"
  by (auto simp: made_def wtree_def leaves_ok_def intro!: exI [of _ MNil])

lemma room_ext: "room car d t \<Longrightarrow> car_ext car car' \<Longrightarrow> room car' d t"
  by (auto simp: room_def car_ext_def)

context car_step
begin

lemma step_build: "R P car (fst (mst_build_from_items P car n items))"
  by (auto simp: mst_build_from_items_def step_write split: list.splits mst_split_item.splits)

lemma step_split: "R P car (fst (mst_split_around P car c key d))"
proof (induction P car c key d rule: mst_split_around.induct)
  case (1 P car c key d)
  show ?case
    unfolding mst_split_around.simps [of P car c key d] Let_def
    using "1.IH" by (auto simp: Let_def intro!: step_and_then_when step_build split: sum.splits prod.splits if_splits)
qed

end

lemmas ext_build = ext.step_build
  and ext_split = ext.step_split

section \<open>The split\<close>

lemma predt_child:
  assumes "es = es1 @ es2" "predt l es1 \<noteq> MNil"
  shows "predt l es1 = l \<or> (\<exists>k v. (k, v, predt l es1) \<in> set es)"
proof (cases es1 rule: rev_cases)
  case (snoc es1' e)
  obtain k v s where "e = (k, v, s)" by (cases e)
  with snoc assms(1) have "(k, v, predt l es1) \<in> set es" by (simp add: predt_def)
  then show ?thesis by blast
qed (simp add: predt_def)

lemma predt_height:
  assumes "es = es1 @ es2"
  shows "height (predt l es1) < height (MNode l es)"
proof (cases "predt l es1 = MNil")
  case False
  then consider "predt l es1 = l" | k v where "(k, v, predt l es1) \<in> set es" using predt_child [OF assms] by blast
  then show ?thesis by cases (metis height_left, rule height_sub)
qed simp

lemma pred_strip: "strip i = TREE c \<Longrightarrow> i = TREE c"
  by (cases i) auto

context platform_laws
begin

lemma write_made:
  assumes "wnode st L n l es" "es \<noteq> [] \<or> l \<noteq> MNil" "mst_stored P car l"
    "\<And>k v s. (k, v, s) \<in> set es \<Longrightarrow> mst_stored P car s" "c = tree_cid P l" "ents = tree_entries P es"
  shows "yields P L (mst_write_node P car n c ents) (made P st L n (leaves l @ ent_leaves es))"
proof -
  have "wrote P L (mst_write_node P car n c ents) (written n l es)"
    by (rule write_wrote [OF assms(1-3)]) (use assms(4-6) in auto)
  from wrote_yields [OF this] show ?thesis
    by (rule yields_weaken) (use made_tree [OF _ wtree_written [OF assms(1,2)]] in auto)
qed

lemma build_made:
  assumes "wnode st L n l es" "mst_stored P car l" "\<And>k v s. (k, v, s) \<in> set es \<Longrightarrow> mst_stored P car s"
    "map strip items = sitems P l es"
  shows "yields P L (mst_build_from_items P car n items) (made P st L n (leaves l @ ent_leaves es))"
proof (cases "l = MNil \<and> es = []")
  case True
  then show ?thesis using assms(1,4) by (simp add: build_sitems made_empty wnode_def)
next
  case False
  with write_made [OF assms(1) _ assms(2,3)] assms(4) show ?thesis by (auto simp: build_sitems)
qed

lemma wnode_cover:
  assumes "leaves_ok ls" "set ls \<subseteq> L" "n \<le> 1024"
    "leaves l @ ent_leaves es = ls"
    "l = MNil \<or> 0 < n \<and> lay P st (n - 1) l"
    "\<And>k v s. (k, v, s) \<in> set es \<Longrightarrow> wf_mst_key_layer P k = n \<and> (s = MNil \<or> 0 < n \<and> lay P st (n - 1) s)"
  shows "wnode st L n l es"
proof -
  have "\<exists>m < n. lay P st m x" if "0 < n \<and> lay P st (n - 1) x" for x
    using that by (intro exI [of _ "n - 1"]) auto
  then show ?thesis unfolding wnode_def assms(4) using assms(1-3,5,6) by fast
qed

text \<open>The nodes a split builds: a prefix whose last subtree is replaced, and a suffix below a new left tree.\<close>

lemma split_low:
  assumes "wtree P st L n (MNode l es)" "set es1 \<subseteq> set es" "with_pred l es1 t = (l0, es0)"
    "t = MNil \<or> 0 < n \<and> lay P st (n - 1) t" "leaves_ok (pre_leaves l es1 @ leaves t)"
    "set (pre_leaves l es1 @ leaves t) \<subseteq> L"
  shows "wnode st L n l0 es0" "leaves l0 @ ent_leaves es0 = pre_leaves l es1 @ leaves t"
proof -
  have lay: "lay P st n (MNode l es)" and n: "n \<le> 1024" using assms(1) by (auto simp: wtree_def)
  show ls: "leaves l0 @ ent_leaves es0 = pre_leaves l es1 @ leaves t" by (rule leaves_with_pred [OF assms(3)])
  have "(k, v, s) \<in> set es0 \<Longrightarrow> \<exists>s'. (k, v, s') \<in> set es1 \<and> (s = s' \<or> s = t)" for k v s
    using assms(3) by (cases es1 rule: rev_cases) (auto simp: with_pred_def)
  then have "wf_mst_key_layer P k = n \<and> (s = MNil \<or> 0 < n \<and> lay P st (n - 1) s)" if "(k, v, s) \<in> set es0" for k v s
    using that lay_key [OF lay] lay_sub [OF lay] assms(2,4) by blast
  moreover have "l0 = MNil \<or> 0 < n \<and> lay P st (n - 1) l0"
    using assms(3,4) lay_left [OF lay] by (auto simp: with_pred_def split: if_splits)
  ultimately show "wnode st L n l0 es0"
    using wnode_cover [OF assms(5,6) n ls] by blast
qed

lemma split_high:
  assumes "wtree P st L n (MNode l es)" "set es2 \<subseteq> set es"
    "t = MNil \<or> 0 < n \<and> lay P st (n - 1) t" "leaves_ok (leaves t @ ent_leaves es2)"
    "set (leaves t @ ent_leaves es2) \<subseteq> L"
  shows "wnode st L n t es2"
proof -
  have lay: "lay P st n (MNode l es)" and n: "n \<le> 1024" using assms(1) by (auto simp: wtree_def)
  show ?thesis
    by (rule wnode_cover [OF assms(4,5) n refl assms(3)]) (use assms(2) lay_key [OF lay] lay_sub [OF lay] in blast)
qed

lemma with_pred_predt: "with_pred l es (predt l es) = (l, es)"
  by (cases es rule: rev_cases) (auto simp: with_pred_def predt_def)

lemma with_pred_stored:
  assumes "with_pred l es t = (l0, es0)" "mst_stored P car l" "\<And>k v s. (k, v, s) \<in> set es \<Longrightarrow> mst_stored P car s"
    "mst_stored P car t"
  shows "mst_stored P car l0" "(k, v, s) \<in> set es0 \<Longrightarrow> mst_stored P car s"
  using assms by (cases es rule: rev_cases; auto simp: with_pred_def)+

lemma key_short: "wf_mst_key_is_valid k \<Longrightarrow> length k < 2 ^ 31"
  by (auto simp: wf_mst_key_is_valid_def split: if_splits)

lemma leaves_ok_keys:
  assumes "leaves_ok (leaves (MNode l es))" "e \<in> set es"
  shows "length (fst e) < 2 ^ 31"
proof -
  obtain k v s where e: "e = (k, v, s)" by (cases e)
  with assms(2) have "(k, v) \<in> set (leaves (MNode l es))" by (auto simp: set_ent_leaves)
  with assms(1) have "wf_mst_key_is_valid k" by (auto simp: leaves_ok_def list_all_iff)
  from key_short [OF this] show ?thesis unfolding e fst_conv .
qed

lemma split_items:
  assumes "leaves_ok (leaves (MNode l es))" "length key < 2 ^ 31" "map strip items = sitems P l es"
    "i = split_index key items"
  defines "es1 \<equiv> takeWhile (below key) es" and "es2 \<equiv> dropWhile (below key) es"
  shows "map strip (take i items) = sitems P l es1" "map strip (drop i items) = sitems P MNil es2"
    "predt l es1 = MNil \<Longrightarrow> \<not> (0 < i \<and> is_tree (items ! (i - 1)))"
    "predt l es1 \<noteq> MNil \<Longrightarrow> 0 < i \<and> items ! (i - 1) = TREE (tree_cid P (predt l es1))"
    "predt l es1 \<noteq> MNil \<Longrightarrow> with_pred l es1 MNil = (l0, es0) \<Longrightarrow> map strip (take (i - 1) items) = sitems P l0 es0"
proof -
  have es: "es = es1 @ es2" by (simp add: es1_def es2_def)
  have i: "i = length (sitems P l es1)"
    unfolding assms(4) split_index_strip [of key items, symmetric] assms(3) es1_def
    by (rule split_index_sitems [OF assms(2)]) (use leaves_ok_keys [OF assms(1)] in blast)
  have sit: "sitems P l es = sitems P l es1 @ sitems P MNil es2" unfolding es by (rule sitems_simps)
  show t: "map strip (take i items) = sitems P l es1" "map strip (drop i items) = sitems P MNil es2"
    unfolding take_map [symmetric] drop_map [symmetric] assms(3) sit i by simp_all
  have len: "i \<le> length items" using arg_cong [OF t(1), of length] i by simp
  have last: "strip (items ! (i - 1)) = last (sitems P l es1)" "sitems P l es1 \<noteq> []" if "0 < i"
  proof -
    show ne: "sitems P l es1 \<noteq> []" using that i by auto
    have "last (sitems P l es1) = map strip (take i items) ! (i - 1)"
      unfolding t(1) using last_conv_nth [OF ne] i by simp
    then show "strip (items ! (i - 1)) = last (sitems P l es1)" using that len by simp
  qed
  show "\<not> (0 < i \<and> is_tree (items ! (i - 1)))" if "predt l es1 = MNil"
    using sitems_last [OF that] last by (metis is_tree_strip)
  assume X: "predt l es1 \<noteq> MNil"
  obtain a b where ab: "with_pred l es1 MNil = (a, b)" by (metis surj_pair)
  note wp = sitems_with_pred [OF X ab, of P]
  have pos: "0 < i" using wp i by simp
  with last wp show "0 < i \<and> items ! (i - 1) = TREE (tree_cid P (predt l es1))"
    by (simp add: pred_strip)
  assume "with_pred l es1 MNil = (l0, es0)"
  with ab wp i have "take (i - 1) (map strip items) = sitems P l0 es0" unfolding assms(3) sit by simp
  then show "map strip (take (i - 1) items) = sitems P l0 es0" by (simp add: take_map)
qed

abbreviation halves ::
  "bool \<Rightarrow> (bytes \<times> wf_cid) set \<Rightarrow> nat \<Rightarrow> bytes \<Rightarrow> (bytes \<times> wf_cid) list \<Rightarrow> wf_car \<Rightarrow> wf_cid \<times> wf_cid \<Rightarrow> bool" where
  "halves st L n key ls car p \<equiv>
     made P st L n (filter (\<lambda>x. fst x < key) ls) car (fst p) \<and>
     made P st L n (filter (\<lambda>x. \<not> fst x < key) ls) car (snd p)"

text \<open>The part after the recursive split: the halves of the straddling subtree are put in place.\<close>

lemma rebuild_made:
  assumes "wtree P st L n (MNode l es)" "es = es1 @ es2" "mst_stored P car (MNode l es)"
    "ls1 = filter Q (leaves (predt l es1))" "ls2 = filter R (leaves (predt l es1))"
    "0 < n" "made P st L (n - 1) ls1 car sl" "made P st L (n - 1) ls2 car sr"
    "leaves_ok (pre_leaves l es1 @ ls1)" "leaves_ok (ls2 @ ent_leaves es2)"
    "with_pred l es1 MNil = (l0, es0)" "map strip it1 = sitems P l0 es0" "map strip it2 = sitems P MNil es2"
    "made P st L n (pre_leaves l es1) car base" "made P st L n (ent_leaves es2) car right"
  shows "yields P L
    (and_then (if sl \<noteq> [] then mst_build_from_items P car n (it1 @ [TREE sl]) else (car, Inr base)) (\<lambda>car left.
     and_then (if sr \<noteq> [] then mst_build_from_items P car n (TREE sr # it2) else (car, Inr right)) (\<lambda>car right.
     (car, Inr (left, right)))))
    (\<lambda>car p. made P st L n (pre_leaves l es1 @ ls1) car (fst p) \<and> made P st L n (ls2 @ ent_leaves es2) car (snd p))"
proof -
  have L: "set (leaves (MNode l es)) \<subseteq> L" using assms(1) by (simp add: wtree_def)
  have all: "leaves (MNode l es) = pre_leaves l es1 @ leaves (predt l es1) @ ent_leaves es2"
    using leaves_predt [of l es1] by (simp add: assms(2))
  have sub: "set (pre_leaves l es1 @ ls1) \<subseteq> L" "set (ls2 @ ent_leaves es2) \<subseteq> L"
    using L unfolding all assms(4,5) by auto
  from assms(7) obtain tl where tl: "sl = tree_cid P tl" "mst_stored P car tl" "lay P st (n - 1) tl" "leaves tl = ls1"
    by (auto simp: made_def wtree_def)
  from assms(8) obtain tr where tr: "sr = tree_cid P tr" "mst_stored P car tr" "lay P st (n - 1) tr" "leaves tr = ls2"
    by (auto simp: made_def wtree_def)
  have st: "mst_stored P car l" "\<And>k v s. (k, v, s) \<in> set es \<Longrightarrow> mst_stored P car s"
    using assms(3) stored_sub [OF assms(3)] by auto
  have left: "yields P L (if sl \<noteq> [] then mst_build_from_items P car n (it1 @ [TREE sl]) else (car, Inr base))
      (made P st L n (pre_leaves l es1 @ ls1))"
  proof (cases "tl = MNil")
    case True
    then show ?thesis using assms(14) tl by auto
  next
    case False
    obtain l1 es1' where w: "with_pred l es1 tl = (l1, es1')" by (metis surj_pair)
    from split_low [OF assms(1) _ w, of] assms(2,6,9) sub(1) tl(3,4)
    have wn: "wnode st L n l1 es1'" "leaves l1 @ ent_leaves es1' = pre_leaves l es1 @ ls1" by auto
    have "map strip (it1 @ [TREE sl]) = sitems P l1 es1'"
      using sitems_with_pred_tree [OF False assms(11) w, of P] assms(12) tl(1) by simp
    moreover have "mst_stored P car s" if "(k, v, s) \<in> set es1" for k v s
      by (rule st(2) [of k v]) (use that assms(2) in simp)
    note with_pred_stored [OF w st(1) this tl(2)]
    ultimately show ?thesis using build_made [OF wn(1)] wn(2) False tl(1) by auto
  qed
  have right: "yields P L (if sr \<noteq> [] then mst_build_from_items P car' n (TREE sr # it2) else (car', Inr right))
      (made P st L n (ls2 @ ent_leaves es2))" if e: "car_ext car car'" for car'
  proof (cases "tr = MNil")
    case True
    then show ?thesis using made_ext [OF assms(15) e] tr by auto
  next
    case False
    have wn: "wnode st L n tr es2"
      using split_high [OF assms(1), of es2 tr] assms(2,6,10) sub(2) tr(3,4) by simp
    have "map strip (TREE sr # it2) = sitems P tr es2"
      using assms(13) False tr(1) by (simp add: sitems_simps(4))
    moreover have "mst_stored P car' s" if "(k, v, s) \<in> set es2" for k v s
      by (rule stored_ext [OF st(2) [of k v] e]) (use that assms(2) in simp)
    ultimately show ?thesis using build_made [OF wn stored_ext [OF tr(2) e]] False tr(1,4) by auto
  qed
  show ?thesis
  proof (rule yields_and_then [OF left])
    show "car_ext car (fst (if sl \<noteq> [] then mst_build_from_items P car n (it1 @ [TREE sl]) else (car, Inr base)))"
      by (simp add: ext_build)
    show "car_ext car' (fst (and_then (if sr \<noteq> [] then mst_build_from_items P car' n (TREE sr # it2)
        else (car', Inr right)) (\<lambda>car right. (car, Inr (x, right)))))" for car' x
      by (intro ext_and_then ext_if ext_build) simp_all
    fix car' x assume e: "car_ext car car'" and x: "made P st L n (pre_leaves l es1 @ ls1) car' x"
    show "yields P L (and_then (if sr \<noteq> [] then mst_build_from_items P car' n (TREE sr # it2)
        else (car', Inr right)) (\<lambda>car right. (car, Inr (x, right))))
      (\<lambda>car p. made P st L n (pre_leaves l es1 @ ls1) car (fst p) \<and> made P st L n (ls2 @ ent_leaves es2) car (snd p))"
      by (rule yields_and_then [OF right [OF e], of car']) (use made_ext [OF x] in \<open>auto simp: ext_build\<close>)
  qed
qed

lemma split_made:
  assumes "mst_stored P car t" "wtree P st L n t" "t \<noteq> MNil" "room car d t" "length key < 2 ^ 31"
  shows "yields P L (mst_split_around P car (tree_cid P t) key d) (halves st L n key (leaves t))"
  using assms(1-4)
proof (induction t arbitrary: car n d rule: measure_induct_rule [of height])
  case (less t)
  from load_wtree [OF less.prems(1-3)] obtain l es and node :: wf_mst_node where t: "t = MNode l es"
    and load: "mst_load_node P car (tree_cid P t) = Inr node" "node_layer node = n"
    and node: "node_left node = tree_cid P l" "node_entries node = tree_entries P es"
    by fastforce
  define items where "items = mst_collect_items node"
  define i where "i = split_index key items"
  define es1 es2 where "es1 = takeWhile (below key) es" "es2 = dropWhile (below key) es"
  note tr = less.prems(2) [unfolded t]
  have es: "es = es1 @ es2" by (simp add: es1_es2_def)
  have ok: "leaves_ok (leaves (MNode l es))" and n: "n \<le> 1024" and L: "set (leaves (MNode l es)) \<subseteq> L"
    and lay: "lay P st n (MNode l es)"
    using tr by (auto simp: wtree_def)
  have sit: "map strip items = sitems P l es" unfolding items_def by (rule strip_collect [OF node])
  note sp = split_items [OF ok assms(5) sit i_def, folded es1_es2_def]
  have sorted: "keys_sorted (leaves l @ ent_leaves es)" using ok by (simp add: leaves_ok_def)
  note fl = split_leaves [OF sorted, of key, folded es1_es2_def]
  have all: "leaves (MNode l es) = pre_leaves l es1 @ leaves (predt l es1) @ ent_leaves es2"
    using leaves_predt [of l es1] by (simp add: es)
  have guard: "\<not> depth_exceeded car d" using room_guard less.prems(4) unfolding t .
  let ?X = "predt l es1"
  show ?case
  proof (cases "items = []")
    case True
    then have "l = MNil \<and> es = []" using sit sitems_empty_iff [of P l es] by simp
    with True show ?thesis
      using guard load n by (subst mst_split_around.simps) (simp add: items_def t made_empty Let_def)
  next
    case False
    let ?A = "mst_build_from_items P car n (take i items)"
    let ?B = "\<lambda>car. mst_build_from_items P car n (drop i items)"
    let ?D = "\<lambda>car base right. and_then (mst_split_around P car (tree_cid P ?X) key (d + 1)) (\<lambda>car (sl, sr).
      and_then (if sl \<noteq> [] then mst_build_from_items P car n (take (i - 1) items @ [TREE sl]) else (car, Inr base)) (\<lambda>car left.
      and_then (if sr \<noteq> [] then mst_build_from_items P car n (TREE sr # drop i items) else (car, Inr right)) (\<lambda>car right.
      (car, Inr (left, right)))))"
    let ?C = "\<lambda>car left right. if ?X = MNil then (car, Inr (left, right))
      else and_then (mst_build_from_items P car n (take (i - 1) items)) (\<lambda>car base. ?D car base right)"
    have eq: "mst_split_around P car (tree_cid P t) key d =
        and_then ?A (\<lambda>car left. and_then (?B car) (\<lambda>car right. ?C car left right))"
    proof (cases "?X = MNil")
      case True
      then show ?thesis
        using guard load False sp(3)
        by (subst mst_split_around.simps) (auto simp: items_def [symmetric] i_def [symmetric] Let_def)
    next
      case X: False
      then show ?thesis
        using guard load False sp(4) unfolding items_def i_def load(2) [symmetric]
        by (subst mst_split_around.simps) (simp add: Let_def)
    qed
    have extD: "car_ext car (fst (?D car base right))" for car base right
      by (intro ext_and_then ext_split) (auto intro!: ext_and_then ext_if ext_build split: prod.splits)
    have extC: "car_ext car (fst (?C car left right))" for car left right
      by (intro ext_if ext_and_then ext_build extD) simp
    have st: "mst_stored P car l" "\<And>k v s. (k, v, s) \<in> set es \<Longrightarrow> mst_stored P car s"
      using less.prems(1) stored_sub unfolding t by auto
    have st1: "mst_stored P car s" if "(k, v, s) \<in> set es1" for k v s
      using st(2) [of k v s] that by (simp add: es)
    have st2: "mst_stored P car s" if "(k, v, s) \<in> set es2" for k v s
      using st(2) [of k v s] that by (simp add: es)
    have low: "leaves_ok (leaves l @ ent_leaves es1)" "leaves_ok (ent_leaves es2)" "leaves_ok (pre_leaves l es1)"
    proof -
      have "leaves_ok ((pre_leaves l es1 @ leaves ?X) @ ent_leaves es2)" using ok unfolding all by simp
      from leaves_ok_append [OF this] leaves_ok_append [of "pre_leaves l es1" "leaves ?X"]
      show "leaves_ok (leaves l @ ent_leaves es1)" "leaves_ok (ent_leaves es2)" "leaves_ok (pre_leaves l es1)"
        unfolding leaves_predt by blast+
    qed
    have X: "?X = MNil \<or> 0 < n \<and> lay P st (n - 1) ?X"
      using predt_child [OF es, of l] lay_left [OF lay] lay_sub [OF lay] by metis
    have w1: "wnode st L n l es1" "wnode st L n MNil es2"
      using split_low(1) [OF tr _ with_pred_predt, of es1] split_high [OF tr, of es2 MNil] X low L [unfolded all]
      by (simp_all add: es leaves_predt [of l es1])
    have A: "yields P L ?A (made P st L n (leaves l @ ent_leaves es1))"
      by (rule build_made [OF w1(1) st(1) st1 sp(1)])
    have B: "yields P L (?B car') (made P st L n (ent_leaves es2))" if "car_ext car car'" for car'
      using build_made [OF w1(2) _ stored_ext [OF st2 that] sp(2)] by simp
    have C: "yields P L (?C car' left right) (halves st L n key (leaves t))"
      if ec: "car_ext car car'" and left: "made P st L n (leaves l @ ent_leaves es1) car' left"
        and right: "made P st L n (ent_leaves es2) car' right" for car' left right
    proof (cases "?X = MNil")
      case True
      then show ?thesis using left right leaves_predt [of l es1] fl by (simp add: t)
    next
      case XN: False
      obtain l0 es0 where w0: "with_pred l es1 MNil = (l0, es0)" by (metis surj_pair)
      note ext = car_ext_trans [OF ec]
      have base: "yields P L (mst_build_from_items P car' n (take (i - 1) items)) (made P st L n (pre_leaves l es1))"
      proof -
        have "wnode st L n l0 es0" "leaves l0 @ ent_leaves es0 = pre_leaves l es1"
          using split_low [OF tr _ w0] low(3) L unfolding all by (simp_all add: es)
        moreover note with_pred_stored [OF w0 stored_ext [OF st(1) ec] stored_ext [OF st1 ec]]
        ultimately show ?thesis
          using build_made [of st L n l0 es0 car' "take (i - 1) items"] sp(5) [OF XN w0] by simp
      qed
      have D: "yields P L (?D car'' base right) (halves st L n key (leaves t))"
        if "car_ext car' car''" "made P st L n (pre_leaves l es1) car'' base" for car'' base
      proof -
        have e: "car_ext car car''" by (rule ext [OF that(1)])
        have "height ?X < height t" "room car (Suc d) ?X" "mst_stored P car ?X" "leaves_ok (leaves ?X)"
          using predt_child [OF es XN] height_left [of l es] height_sub [of _ _ _ es l] room_left room_sub st less.prems(4)
            leaves_ok_left [OF ok] leaves_ok_sub [OF ok]
          unfolding t by metis+
        moreover have "set (leaves ?X) \<subseteq> L" using L unfolding all by auto
        ultimately have "yields P L (mst_split_around P car'' (tree_cid P ?X) key (Suc d)) (halves st L (n - 1) key (leaves ?X))"
          using less.IH [OF _ stored_ext [OF _ e], of ?X "n - 1" "Suc d"] XN X n room_ext [OF _ e] by (simp add: wtree_def)
        then have IH: "yields P L (mst_split_around P car'' (tree_cid P ?X) key (d + 1))
            (halves st L (n - 1) key (leaves ?X))" by simp
        have lk: "leaves_ok (pre_leaves l es1 @ filter (\<lambda>x. fst x < key) (leaves ?X))"
          "leaves_ok (filter (\<lambda>x. \<not> fst x < key) (leaves ?X) @ ent_leaves es2)"
          using leaves_ok_filter [OF ok] fl by (metis leaves_Node)+
        show ?thesis
        proof (rule yields_and_then [OF IH ext_split], goal_cases)
          case (1 car x)
          show ?case by (auto intro!: ext_and_then ext_if ext_build split: prod.splits)
        next
          case (2 car3 p)
          have e3: "car_ext car car3" by (rule car_ext_trans [OF e 2(1)])
          have "mst_stored P car3 (MNode l es)" using stored_ext [OF less.prems(1) e3] t by simp
          moreover obtain sl sr where p: "p = (sl, sr)" by (cases p)
          ultimately show ?case
            using rebuild_made [OF tr es _ refl refl _ _ _ lk w0 sp(5) [OF XN w0] sp(2) made_ext [OF that(2) 2(1)]
                made_ext [OF right car_ext_trans [OF that(1) 2(1)]], of sl sr] 2(2) X XN
            unfolding p prod.case fst_conv snd_conv t leaves_Node fl by blast
        qed
      qed
      show ?thesis
        unfolding if_not_P [OF XN] by (rule yields_and_then [OF base ext_build extD D])
    qed
    show ?thesis
      unfolding eq
    proof (rule yields_and_then [OF A ext_build])
      show "car_ext car (fst (and_then (?B car) (\<lambda>car right. ?C car left right)))" for car left
        by (intro ext_and_then ext_build extC)
      fix car' left assume e: "car_ext car car'" and left: "made P st L n (leaves l @ ent_leaves es1) car' left"
      show "yields P L (and_then (?B car') (\<lambda>car right. ?C car left right)) (halves st L n key (leaves t))"
        by (rule yields_and_then [OF B [OF e] ext_build extC])
          (use C car_ext_trans [OF e] made_ext [OF left] in blast)
    qed
  qed
qed

end

end
