(* ===== verification/Mst_Add.thy ===== *)
theory Mst_Add
  imports Mst_Split
begin

text \<open>
  Adding a key to a stored tree. Whatever the key's layer, \<open>wf_mst_add\<close> returns a stored tree, at the
  larger of the two layers, whose leaves are the old ones with the new one inserted in key order; a key
  that is already bound keeps its value. The recursion depth is bounded by the height of the tree, and
  so is the fuel.
\<close>

section \<open>The specification\<close>

definition ins_leaf :: "bytes \<Rightarrow> wf_cid \<Rightarrow> (bytes \<times> wf_cid) list \<Rightarrow> (bytes \<times> wf_cid) list" where
  "ins_leaf key v ls =
     (if key \<in> fst ` set ls then ls
      else filter (\<lambda>x. fst x < key) ls @ (key, v) # filter (\<lambda>x. \<not> fst x < key) ls)"

lemma set_ins_leaf: "set (ins_leaf key v ls) \<subseteq> insert (key, v) (set ls)"
  by (auto simp: ins_leaf_def)

lemma ins_leaf_keys: "fst ` set (ins_leaf key v ls) = insert key (fst ` set ls)"
  by (auto simp: ins_leaf_def image_iff)

lemma ins_leaf_nonempty [simp]: "ins_leaf key v ls \<noteq> []"
  by (auto simp: ins_leaf_def)

lemma ins_leaf_present: "key \<in> fst ` set ls \<Longrightarrow> ins_leaf key v ls = ls"
  by (simp add: ins_leaf_def)

lemma ins_leaf_context:
  assumes "\<forall>x \<in> set xs. fst x < key" "\<forall>x \<in> set ys. key < fst x"
  shows "ins_leaf key v (xs @ ms @ ys) = xs @ ins_leaf key v ms @ ys"
proof -
  have "key \<notin> fst ` set xs" "key \<notin> fst ` set ys" using assms by force+
  moreover have "filter (\<lambda>x. fst x < key) xs = xs" "filter (\<lambda>x. fst x < key) ys = []"
    "filter (\<lambda>x. \<not> fst x < key) xs = []" "filter (\<lambda>x. \<not> fst x < key) ys = ys"
    using assms by (fastforce simp: filter_empty_conv filter_id_conv)+
  ultimately show ?thesis by (auto simp: ins_leaf_def)
qed

lemma map_of_key_filter: "map_of (filter (\<lambda>x. Q (fst x)) ls) k = (if Q k then map_of ls k else None)"
  by (induction ls) auto

lemma map_of_ins_leaf:
  "map_of (ins_leaf key v ls) k = (if k = key \<and> key \<notin> fst ` set ls then Some v else map_of ls k)"
proof -
  have "map_of (filter (\<lambda>x. fst x < key) ls) k = (if k < key then map_of ls k else None)"
    "map_of (filter (\<lambda>x. \<not> fst x < key) ls) k = (if \<not> k < key then map_of ls k else None)"
    by (rule map_of_key_filter)+
  moreover have "map_of ls key = None" if "key \<notin> fst ` set ls" using that by (simp add: map_of_eq_None_iff)
  ultimately show ?thesis by (auto simp: ins_leaf_def map_add_def split: option.splits)
qed

lemma leaves_ok_ins:
  assumes "leaves_ok ls" "wf_mst_key_is_valid key" "cid_ok v" "Suc (length ls) < 2 ^ 64"
  shows "leaves_ok (ins_leaf key v ls)"
proof (cases "key \<in> fst ` set ls")
  case True
  then show ?thesis using assms(1) by (simp add: ins_leaf_def)
next
  case False
  let ?lo = "filter (\<lambda>x. fst x < key) ls" and ?hi = "filter (\<lambda>x. \<not> fst x < key) ls"
  have s: "keys_sorted ?lo" "keys_sorted ?hi"
    using leaves_ok_filter [OF assms(1)] by (auto simp: leaves_ok_def)
  have hi: "key < fst x" if "x \<in> set ?hi" for x
    using that False by (auto simp: not_less order_le_less)
  have "keys_sorted (?lo @ (key, v) # ?hi)"
    using s hi by (auto simp: sorted_wrt_append intro: less_trans)
  moreover have "length ?lo + length ?hi = length ls" by (rule sum_length_filter_compl)
  ultimately show ?thesis
    using assms False by (auto simp: leaves_ok_def ins_leaf_def list_all_iff)
qed

section \<open>Positions in a node\<close>

lemma find_ge_tree:
  assumes "length key < 2 ^ 31" "\<forall>e \<in> set es. length (fst e) < 2 ^ 31"
  shows "find_ge_loop key (tree_entries P es) = length (takeWhile (below key) es)"
  using assms(2)
proof (induction es)
  case (Cons e es)
  obtain k v s where e: "e = (k, v, s)" by (cases e)
  then have "wf_mst_key_cmp key k \<le> 0 \<longleftrightarrow> \<not> k < key"
    using key_cmp_order [OF assms(1), of k] Cons.prems by (auto simp: wf_mst_key_cmp_def not_less)
  then show ?case using Cons by (auto simp: e)
qed simp

lemma child_tree:
  assumes "node_left node = tree_cid P l" "node_entries node = tree_entries P (es1 @ es2)"
  shows "mst_use_prev node (length es1) = (if es1 = [] then None else Some (length es1 - 1))"
    "mst_child node (if es1 = [] then None else Some (length es1 - 1)) = tree_cid P (predt l es1)"
    "(if length es1 = 0 then node_left node else ent_subtree (node_entries node ! (length es1 - 1))) =
       tree_cid P (predt l es1)"
proof -
  show "mst_use_prev node (length es1) = (if es1 = [] then None else Some (length es1 - 1))"
    using assms by (auto simp: mst_use_prev_def)
  have "ent_subtree (node_entries node ! (length es1 - 1)) = tree_cid P (predt l es1)" if "es1 \<noteq> []"
    using that assms(2) by (cases es1 rule: rev_cases; cases "last es1") (auto simp: predt_def nth_append)
  then show "mst_child node (if es1 = [] then None else Some (length es1 - 1)) = tree_cid P (predt l es1)"
    "(if length es1 = 0 then node_left node else ent_subtree (node_entries node ! (length es1 - 1))) =
       tree_cid P (predt l es1)"
    using assms(1) by (auto simp: mst_child_def predt_def)
qed

lemma insert_entry_tree:
  assumes "with_pred l es1 t = (l1, es1')"
  shows "insert_entry (tree_entries P (es1 @ es2)) (length es1)
      \<lparr>ent_key = key, ent_value = v, ent_subtree = tree_cid P u\<rparr> (tree_cid P t) =
    tree_entries P (es1' @ (key, v, u) # es2)"
    "(if length es1 = 0 then tree_cid P t else tree_cid P l) = tree_cid P l1"
  using assms by (cases es1 rule: rev_cases; cases "last es1";
    force simp: insert_entry_def with_pred_def butlast_append)+

lemma replace_child_tree:
  assumes "node_left node = tree_cid P l" "node_entries node = tree_entries P (es1 @ es2)"
    "with_pred l es1 t = (l1, es1')"
  shows "mst_replace_child P car node (if es1 = [] then None else Some (length es1 - 1)) (tree_cid P t) =
    mst_write_node P car (node_layer node) (tree_cid P l1) (tree_entries P (es1' @ es2))"
  using assms by (cases es1 rule: rev_cases; cases "last es1")
    (auto simp: mst_replace_child_def with_pred_def nth_append list_update_append)

context car_step
begin

lemma step_add_at_layer: "R P car (fst (mst_add_at_layer P car node key v))"
  unfolding mst_add_at_layer_def Let_def by (auto intro!: step_intros step_split split: prod.splits)

lemma step_add_at_higher_layer: "R P car (fst (mst_add_at_higher_layer P car node key v K))"
  unfolding mst_add_at_higher_layer_def by (auto intro!: step_intros step_split split: prod.splits)

lemma step_add_lower_finish: "R P car (fst (mst_add_lower_finish P car node use c))"
  unfolding mst_add_lower_finish_def mst_replace_child_def
  by (auto intro!: step_intros split: sum.splits option.splits)

end

lemmas ext_add_at_layer = ext.step_add_at_layer
  and ext_add_at_higher_layer = ext.step_add_at_higher_layer
  and ext_add_lower_finish = ext.step_add_lower_finish

context platform_laws
begin

text \<open>Rewriting a node: the subtree before the position is replaced and new entries are put there.\<close>

lemma rewrite_made:
  assumes "wtree P st L n (MNode l es)" "set es1 \<union> set es2 \<subseteq> set es" "mst_stored P car (MNode l es)"
    "with_pred l es1 t = (l1, es1')" "mst_stored P car t" "t = MNil \<or> (\<exists>m < n. lay P st m t)"
    "\<And>k v s. (k, v, s) \<in> set mid \<Longrightarrow>
       mst_stored P car s \<and> wf_mst_key_layer P k = n \<and> (s = MNil \<or> (\<exists>m < n. lay P st m s))"
    "ls = pre_leaves l es1 @ leaves t @ ent_leaves mid @ ent_leaves es2" "leaves_ok ls" "set ls \<subseteq> L"
    "es1' @ mid @ es2 \<noteq> [] \<or> l1 \<noteq> MNil"
  shows "yields P L (mst_write_node P car n (tree_cid P l1) (tree_entries P (es1' @ mid @ es2))) (made P st L n ls)"
proof -
  have lay: "lay P st n (MNode l es)" and n: "n \<le> 1024" using assms(1) by (auto simp: wtree_def)
  have st: "mst_stored P car l" using assms(3) by simp
  have st1: "mst_stored P car s" if "(k, v, s) \<in> set es1" for k v s
    using stored_sub [OF assms(3), of k v s] that assms(2) by blast
  have st2: "mst_stored P car s" if "(k, v, s) \<in> set es2" for k v s
    using stored_sub [OF assms(3), of k v s] that assms(2) by blast
  note ws = with_pred_stored [OF assms(4) st st1 assms(5)]
  have ls: "leaves l1 @ ent_leaves (es1' @ mid @ es2) = ls"
    using leaves_with_pred [OF assms(4)] assms(8) by simp
  have low: "\<exists>m < n. lay P st m x" if "0 < n \<and> lay P st (n - 1) x" for x
    using that by (intro exI [of _ "n - 1"]) auto
  have sub: "wf_mst_key_layer P k = n \<and> (s = MNil \<or> (\<exists>m < n. lay P st m s))" if "(k, v, s) \<in> set es" for k v s
    using lay_key [OF lay that] lay_sub [OF lay that] low by blast
  have "(k, v, s) \<in> set es1' \<Longrightarrow> \<exists>s'. (k, v, s') \<in> set es1 \<and> (s = s' \<or> s = t)" for k v s
    using assms(4) by (cases es1 rule: rev_cases) (auto simp: with_pred_def)
  then have sub1: "wf_mst_key_layer P k = n \<and> (s = MNil \<or> (\<exists>m < n. lay P st m s))" if "(k, v, s) \<in> set es1'" for k v s
    using that sub assms(2,6) by blast
  have l1: "l1 = MNil \<or> (\<exists>m < n. lay P st m l1)"
    using assms(4,6) lay_left [OF lay] low [of l] by (auto simp: with_pred_def split: if_splits)
  have "wf_mst_key_layer P k = n \<and> (s = MNil \<or> (\<exists>m < n. lay P st m s))" if "(k, v, s) \<in> set (es1' @ mid @ es2)" for k v s
  proof -
    from that consider "(k, v, s) \<in> set es1'" | "(k, v, s) \<in> set mid" | "(k, v, s) \<in> set es" using assms(2) by auto
    then show ?thesis using sub sub1 assms(7) by cases blast+
  qed
  then have wn: "wnode st L n l1 (es1' @ mid @ es2)"
    unfolding wnode_def ls using assms(9,10) n l1 by blast
  have "mst_stored P car s" if "(k, v, s) \<in> set (es1' @ mid @ es2)" for k v s
    using that ws(2) assms(7) st2 by auto
  from write_made [OF wn assms(11) ws(1) this refl refl] show ?thesis unfolding ls .
qed

lemma raise_made:
  assumes "made P st L m ls car c" "m < n" "n \<le> 1024"
  shows "yields P L (mst_raise_to_layer P car c n) (made P st L (n - 1) ls)"
proof -
  from assms(1) obtain t where t: "c = tree_cid P t" "mst_stored P car t" "wtree P st L m t" "leaves t = ls"
    by (auto simp: made_def)
  have "wtree P st L (n - 1) (lift P n t)" using t(3) lay_lift [of P st m t n] assms(2,3) by (auto simp: wtree_def)
  with yields_weaken [OF wrote_yields [OF raise_to_layer_wrote [OF t(2,3) assms(2,3)]]] t(1,4)
  show ?thesis by (metis (mono_tags, lifting) leaves_lift made_tree)
qed

lemma raise_pair_made:
  assumes "made P st L m ls car a" "made P st L m us car b" "m < n" "n \<le> 1024"
  shows "yields P L
    (and_then (mst_raise_to_layer P car a n) (\<lambda>car a. and_then (mst_raise_to_layer P car b n) (\<lambda>car b. (car, Inr (a, b)))))
    (\<lambda>car p. made P st L (n - 1) ls car (fst p) \<and> made P st L (n - 1) us car (snd p))"
proof (rule yields_and_then [OF raise_made [OF assms(1,3,4)] ext_raise_to_layer], goal_cases)
  case (2 car' x)
  show ?case
    by (rule yields_and_then [OF raise_made [OF made_ext [OF assms(2) 2(1)] assms(3,4)] ext_raise_to_layer])
      (use made_ext [OF 2(2)] in auto)
qed (intro ext_intros; simp)

text \<open>Where a key that is not among a node's own keys falls.\<close>

lemma node_gap:
  assumes "leaves_ok (leaves (MNode l es))" "key \<notin> fst ` set es"
  defines "es1 \<equiv> takeWhile (below key) es" and "es2 \<equiv> dropWhile (below key) es"
  shows "leaves (MNode l es) = pre_leaves l es1 @ leaves (predt l es1) @ ent_leaves es2"
    "\<forall>x \<in> set (pre_leaves l es1). fst x < key" "\<forall>x \<in> set (ent_leaves es2). key < fst x"
proof -
  have es: "es = es1 @ es2" by (simp add: es1_def es2_def)
  show all: "leaves (MNode l es) = pre_leaves l es1 @ leaves (predt l es1) @ ent_leaves es2"
    using leaves_predt [of l es1] by (simp add: es)
  have sorted: "keys_sorted (leaves l @ ent_leaves es)" using assms(1) by (simp add: leaves_ok_def)
  have "filter (\<lambda>x. fst x < key) (leaves (MNode l es)) = pre_leaves l es1 @ filter (\<lambda>x. fst x < key) (leaves (predt l es1))"
    "filter (\<lambda>x. \<not> fst x < key) (leaves (MNode l es)) = filter (\<lambda>x. \<not> fst x < key) (leaves (predt l es1)) @ ent_leaves es2"
    using split_leaves [OF sorted, of key] by (simp_all add: es1_def es2_def)
  then have lo: "\<forall>x \<in> set (pre_leaves l es1). fst x < key" and hi: "\<forall>x \<in> set (ent_leaves es2). \<not> fst x < key"
    by (metis (mono_tags, lifting) UnCI filter_set mem_Collect_eq set_append set_filter)+
  show "\<forall>x \<in> set (pre_leaves l es1). fst x < key" by (rule lo)
  show "\<forall>x \<in> set (ent_leaves es2). key < fst x"
  proof (cases es2)
    case (Cons e es')
    obtain k v s where e: "e = (k, v, s)" by (cases e)
    have "k \<noteq> key" using assms(2) Cons e es by force
    moreover have "\<not> k < key" using hi Cons e by simp
    moreover have "keys_sorted (ent_leaves es2)" using sorted by (simp add: es sorted_wrt_append)
    ultimately have "key < k" "\<forall>x \<in> set (leaves s @ ent_leaves es'). k < fst x" by (auto simp: Cons e)
    moreover from this have "\<forall>x \<in> set (leaves s @ ent_leaves es'). key < fst x"
      using less_trans [of key k] by blast
    ultimately show ?thesis by (simp add: Cons e)
  qed simp
qed

lemma find_hit:
  assumes "leaves_ok (leaves (MNode l es))" "length key < 2 ^ 31" "node_entries node = tree_entries P es"
  shows "mst_find_ge node key = length (takeWhile (below key) es)"
    "(mst_find_ge node key < node_count node \<and>
        wf_mst_key_cmp key (ent_key (node_entries node ! mst_find_ge node key)) = 0) \<longleftrightarrow> key \<in> fst ` set es"
proof -
  show idx: "mst_find_ge node key = length (takeWhile (below key) es)"
    unfolding mst_find_ge_def assms(3) by (rule find_ge_tree [OF assms(2)]) (use leaves_ok_keys [OF assms(1)] in blast)
  define es1 es2 where d: "es1 = takeWhile (below key) es" "es2 = dropWhile (below key) es"
  have es: "es = es1 @ es2" by (simp add: d)
  have idx1: "mst_find_ge node key = length es1" by (simp add: idx d)
  have s: "sorted_wrt (<) (map fst es)"
    using assms(1) by (intro keys_sorted_entries) (simp add: leaves_ok_def sorted_wrt_append)
  have "\<forall>e \<in> set es1. fst e < key" unfolding d by (meson set_takeWhileD)
  then have not1: "key \<notin> fst ` set es1" by force
  show "(mst_find_ge node key < node_count node \<and>
      wf_mst_key_cmp key (ent_key (node_entries node ! mst_find_ge node key)) = 0) \<longleftrightarrow> key \<in> fst ` set es"
  proof (cases es2)
    case Nil
    then have "es = es1" using es by simp
    then show ?thesis using not1 idx1 assms(3) by simp
  next
    case (Cons e es')
    obtain k v s where e: "e = (k, v, s)" by (cases e)
    have k: "\<not> k < key" using Cons e hd_dropWhile [of "below key" es] d by simp
    have "key \<notin> fst ` set es'" if "key \<noteq> k"
      using s k that by (auto simp: es Cons e sorted_wrt_append)
    then have "key \<in> fst ` set es \<longleftrightarrow> key = k" using not1 by (auto simp: es Cons e)
    moreover have "wf_mst_key_cmp key k = 0 \<longleftrightarrow> key = k"
      using key_cmp_order [OF assms(2), of k] leaves_ok_keys [OF assms(1), of e] es Cons e
      by (simp add: wf_mst_key_cmp_def)
    ultimately show ?thesis using idx1 by (simp add: assms(3) es Cons e nth_append)
  qed
qed

lemma child_layer_key:
  assumes "wtree P st L n (MNode l es)" "es = es1 @ es2" "n \<le> wf_mst_key_layer P key"
  shows "key \<notin> fst ` set (leaves (predt l es1))"
proof (cases "predt l es1 = MNil")
  case False
  have lay: "lay P st n (MNode l es)" using assms(1) by (simp add: wtree_def)
  have "0 < n \<and> lay P st (n - 1) (predt l es1)"
    using predt_child [OF assms(2) False] lay_left [OF lay] lay_sub [OF lay] False by metis
  with lay_child_keys [of "predt l es1" n P st key] assms(3) show ?thesis by fastforce
qed simp

lemma predt_wtree:
  assumes "wtree P st L n (MNode l es)" "mst_stored P car (MNode l es)" "es = es1 @ es2" "predt l es1 \<noteq> MNil"
  shows "0 < n" "wtree P st L (n - 1) (predt l es1)" "mst_stored P car (predt l es1)"
proof -
  let ?X = "predt l es1"
  have lay: "lay P st n (MNode l es)" and ok: "leaves_ok (leaves (MNode l es))" and L: "set (leaves (MNode l es)) \<subseteq> L"
    and n: "n \<le> 1024" using assms(1) by (auto simp: wtree_def)
  consider "?X = l" | k v where "(k, v, ?X) \<in> set es" using predt_child [OF assms(3,4)] by blast
  then have "0 < n \<and> lay P st (n - 1) ?X \<and> mst_stored P car ?X \<and> leaves_ok (leaves ?X) \<and> set (leaves ?X) \<subseteq> L"
  proof cases
    case 1
    with lay_left [OF lay] leaves_ok_left [OF ok] assms(2,4) L show ?thesis by auto
  next
    case 2
    with lay_sub [OF lay 2 assms(4)] leaves_ok_sub [OF ok 2] stored_sub [OF assms(2) 2] set_leaves_sub [OF 2] L
    show ?thesis by auto
  qed
  with n show "0 < n" "wtree P st L (n - 1) ?X" "mst_stored P car ?X" by (auto simp: wtree_def)
qed

text \<open>Splitting the tree before the new key and raising both halves below layer \<open>n\<close>.\<close>

lemma split_raise_made:
  assumes "mst_stored P car t" "wtree P st L m t" "t \<noteq> MNil" "m < n" "n \<le> 1024" "length key < 2 ^ 31"
  shows "yields P L
    (and_then (mst_split_around P car (tree_cid P t) key 0) (\<lambda>car (a, b).
     and_then (mst_raise_to_layer P car a n) (\<lambda>car a. and_then (mst_raise_to_layer P car b n) (\<lambda>car b. (car, Inr (a, b))))))
    (halves st L (n - 1) key (leaves t))"
proof -
  have "height t \<le> 1025" using lay_height [of P st m t] assms(2) by (auto simp: wtree_def)
  moreover have "mst_rep P car (tree_cid P t) t" using stored_rep [OF assms(1)] assms(2) by (simp add: wtree_def)
  ultimately have "room car 0 t" by (rule room_root [rotated])
  from split_made [OF assms(1-3) this assms(6)] show ?thesis
  proof (rule yields_and_then [OF _ ext_split], goal_cases)
    case (1 car x)
    then show ?case by (auto intro!: ext_intros split: prod.splits)
  next
    case (2 car' p)
    obtain a b where "p = (a, b)" by (cases p)
    with raise_pair_made [OF conjunct1 [OF 2(2)] conjunct2 [OF 2(2)] assms(4,5)] show ?case by simp
  qed
qed

lemma add_at_layer_made:
  assumes "mst_stored P car (MNode l es)" "wtree P st L n (MNode l es)"
    "node_cid node = tree_cid P (MNode l es)" "node_layer node = n" "node_left node = tree_cid P l"
    "node_entries node = tree_entries P es" "wf_mst_key_layer P key = n" "length key < 2 ^ 31" "(key, v) \<in> L"
    "leaves_ok (ins_leaf key v (leaves (MNode l es)))"
  shows "yields P L (mst_add_at_layer P car node key v) (made P st L n (ins_leaf key v (leaves (MNode l es))))"
proof -
  define es1 es2 where d: "es1 = takeWhile (below key) es" "es2 = dropWhile (below key) es"
  have es: "es = es1 @ es2" by (simp add: d)
  have ok: "leaves_ok (leaves (MNode l es))" and n: "n \<le> 1024" and L: "set (leaves (MNode l es)) \<subseteq> L"
    and lay: "lay P st n (MNode l es)" using assms(2) by (auto simp: wtree_def)
  note hit = find_hit [OF ok assms(8,6)]
  show ?thesis
  proof (cases "key \<in> fst ` set es")
    case True
    then have "key \<in> fst ` set (leaves (MNode l es))" by (force simp: set_ent_leaves)
    moreover have "mst_add_at_layer P car node key v = (car, Inr (tree_cid P (MNode l es)))"
      using hit(2) True assms(3) by (simp add: mst_add_at_layer_def Let_def)
    ultimately show ?thesis using made_tree [OF assms(1,2)] by (simp add: ins_leaf_present del: leaves_Node)
  next
    case False
    note gap = node_gap [OF ok False, folded d]
    have ins: "ins_leaf key v (leaves (MNode l es)) =
        pre_leaves l es1 @ ins_leaf key v (leaves (predt l es1)) @ ent_leaves es2"
      unfolding gap(1) by (rule ins_leaf_context [OF gap(2,3)])
    let ?X = "predt l es1"
    let ?r = "if tree_cid P ?X \<noteq> [] then and_then (mst_split_around P car (tree_cid P ?X) key 0) (\<lambda>car (a, b).
      and_then (mst_raise_to_layer P car a n) (\<lambda>car a. and_then (mst_raise_to_layer P car b n) (\<lambda>car b. (car, Inr (a, b)))))
      else (car, Inr ([], []))"
    have r: "yields P L ?r (\<lambda>car p. halves st L (n - 1) key (leaves ?X) car p \<and> (p = ([], []) \<or> 0 < n))"
    proof (cases "?X = MNil")
      case True
      then show ?thesis using made_empty [of "n - 1"] n by simp
    next
      case XN: False
      note X = predt_wtree [OF assms(2,1) es XN]
      from split_raise_made [OF X(3,2) XN _ n assms(8)] X(1) XN show ?thesis
        by (auto intro: yields_weaken)
    qed
    have ext: "car_ext car (fst ?r)"
      by (auto intro!: ext_intros ext_split split: prod.splits)
    have eq: "mst_add_at_layer P car node key v = and_then ?r (\<lambda>car (a, b). mst_write_node P car n
        (if length es1 = 0 then a else tree_cid P l)
        (insert_entry (tree_entries P es) (length es1) \<lparr>ent_key = key, ent_value = v, ent_subtree = b\<rparr> a))"
    proof -
      have idx: "mst_find_ge node key = length es1" using hit(1) d(1) by simp
      have "node_entries node = tree_entries P (es1 @ es2)" using assms(6) es by simp
      note c = child_tree(3) [OF assms(5) this]
      show ?thesis
        unfolding mst_add_at_layer_def Let_def hit(2) if_not_P [OF False] unfolding idx unfolding c unfolding assms(4-6) ..
    qed
    show ?thesis
      unfolding eq
    proof (rule yields_and_then [OF r ext], goal_cases)
      case (1 car x)
      show ?case by (auto simp: ext_write split: prod.splits)
    next
      case (2 car' p)
      from 2(2) obtain a where a: "fst p = tree_cid P a" "mst_stored P car' a" "lay P st (n - 1) a"
        "leaves a = filter (\<lambda>x. fst x < key) (leaves ?X)" by (blast elim: madeE)
      from 2(2) obtain b where b: "snd p = tree_cid P b" "mst_stored P car' b" "lay P st (n - 1) b"
        "leaves b = filter (\<lambda>x. \<not> fst x < key) (leaves ?X)" by (blast elim: madeE)
      have p: "p = (tree_cid P a, tree_cid P b)" using a(1) b(1) by (simp add: prod_eq_iff)
      have n0: "0 < n \<or> a = MNil \<and> b = MNil" using 2(2) p by auto
      obtain l1 es1' where w: "with_pred l es1 a = (l1, es1')" by (metis surj_pair)
      have X': "ins_leaf key v (leaves ?X) = leaves a @ ent_leaves [(key, v, b)]"
        using child_layer_key [OF assms(2) es, of key] assms(7) a(4) b(4) by (simp add: ins_leaf_def)
      have "yields P L (mst_write_node P car' n (tree_cid P l1) (tree_entries P (es1' @ [(key, v, b)] @ es2)))
          (made P st L n (ins_leaf key v (leaves (MNode l es))))"
      proof (rule rewrite_made [OF assms(2) _ stored_ext [OF assms(1) 2(1)] w a(2)])
        show "ins_leaf key v (leaves (MNode l es)) =
            pre_leaves l es1 @ leaves a @ ent_leaves [(key, v, b)] @ ent_leaves es2"
          unfolding ins X' by simp
        show "set (ins_leaf key v (leaves (MNode l es))) \<subseteq> L"
          using set_ins_leaf [of key v "leaves (MNode l es)"] L assms(9) by blast
      qed (use n0 a(3) b(2,3) assms(7,10) es in \<open>auto intro!: exI [of _ "n - 1"]\<close>)
      then show ?case
        unfolding p prod.case insert_entry_tree(2) [OF w] insert_entry_tree(1) [OF w, of P es2 key v b, folded es] by simp
    qed
  qed
qed

lemma key_layer_loop_bound: "key_layer_loop bs \<le> 4 * length bs"
  by (induction bs) auto

lemma key_layer_bound: "wf_mst_key_layer P key \<le> 128"
  using key_layer_loop_bound [of "SHA256 P key"] by (simp add: wf_mst_key_layer_def sha256_length)

lemma add_at_higher_layer_made:
  assumes "mst_stored P car t" "wtree P st L n t" "t \<noteq> MNil" "node_cid node = tree_cid P t"
    "K = wf_mst_key_layer P key" "n < K" "length key < 2 ^ 31" "(key, v) \<in> L" "leaves_ok (ins_leaf key v (leaves t))"
  shows "yields P L (mst_add_at_higher_layer P car node key v K) (made P st L K (ins_leaf key v (leaves t)))"
proof -
  have K: "K \<le> 1024" using key_layer_bound [of key] assms(5) by simp
  have "key \<notin> fst ` set (leaves t)"
    using lay_keys_le [of P st n t key] assms(2,5,6) by (fastforce simp: wtree_def)
  then have ins: "ins_leaf key v (leaves t) =
      filter (\<lambda>x. fst x < key) (leaves t) @ (key, v) # filter (\<lambda>x. \<not> fst x < key) (leaves t)"
    by (simp add: ins_leaf_def)
  have eq: "mst_add_at_higher_layer P car node key v K =
      and_then (and_then (mst_split_around P car (tree_cid P t) key 0) (\<lambda>car (a, b).
        and_then (mst_raise_to_layer P car a K) (\<lambda>car a. and_then (mst_raise_to_layer P car b K) (\<lambda>car b. (car, Inr (a, b))))))
      (\<lambda>car (a, b). mst_write_node P car K a [\<lparr>ent_key = key, ent_value = v, ent_subtree = b\<rparr>])"
    by (simp add: mst_add_at_higher_layer_def and_then_assoc assms(4) case_prod_beta')
  show ?thesis
    unfolding eq
  proof (rule yields_and_then [where car = car, OF split_raise_made [OF assms(1-3,6) K assms(7)]], goal_cases)
    case 1
    show ?case by (auto intro!: ext_intros ext_split split: prod.splits)
  next
    case (2 car x)
    show ?case by (auto simp: ext_write split: prod.splits)
  next
    case (3 car' p)
    from 3(2) obtain a where a: "fst p = tree_cid P a" "mst_stored P car' a" "lay P st (K - 1) a"
      "leaves a = filter (\<lambda>x. fst x < key) (leaves t)" by (blast elim: madeE)
    from 3(2) obtain b where b: "snd p = tree_cid P b" "mst_stored P car' b" "lay P st (K - 1) b"
      "leaves b = filter (\<lambda>x. \<not> fst x < key) (leaves t)" by (blast elim: madeE)
    have ls: "leaves a @ ent_leaves [(key, v, b)] = ins_leaf key v (leaves t)" by (simp add: ins a b)
    have L: "set (ins_leaf key v (leaves t)) \<subseteq> L"
      using set_ins_leaf [of key v "leaves t"] assms(2,8) by (auto simp: wtree_def)
    have "wnode st L K a [(key, v, b)]"
      by (rule wnode_cover [OF assms(9) L K ls]) (use a(3) b(3) assms(5,6) in auto)
    from write_made [OF this _ a(2) _ refl refl] b(2) ls show ?case
      by (auto simp: a(1) b(1) case_prod_beta)
  qed
qed

lemma raise_subtree_made:
  assumes "made P st L m ls car c" "m < n" "n \<le> 1024"
  shows "yields P L (mst_raise_subtree P car c m n) (made P st L (n - 1) ls)"
proof -
  from assms(1) obtain t where t: "c = tree_cid P t" "mst_stored P car t" "wtree P st L m t" by (blast elim: madeE)
  have "mst_raise_subtree P car c m n = mst_raise_to_layer P car c n"
    using load_wtree [OF t(2,3)] t(1) by (cases "t = MNil") (auto simp: mst_raise_to_layer_def mst_raise_subtree_def)
  with raise_made [OF assms] show ?thesis by simp
qed

lemma add_lower_finish_made:
  assumes "mst_stored P car (MNode l es)" "wtree P st L n (MNode l es)"
    "node_layer node = n" "node_left node = tree_cid P l" "node_entries node = tree_entries P es"
    "wf_mst_key_layer P key < n" "(key, v) \<in> L" "leaves_ok (ins_leaf key v (leaves (MNode l es)))"
  defines "es1 \<equiv> takeWhile (below key) es"
  assumes "made P st L (n - 1) (ins_leaf key v (leaves (predt l es1))) car c"
  shows "yields P L (mst_add_lower_finish P car node (if es1 = [] then None else Some (length es1 - 1)) c)
    (made P st L n (ins_leaf key v (leaves (MNode l es))))"
proof -
  define es2 where "es2 = dropWhile (below key) es"
  have es: "es = es1 @ es2" by (simp add: es1_def es2_def)
  have ok: "leaves_ok (leaves (MNode l es))" and L: "set (leaves (MNode l es)) \<subseteq> L"
    and lay: "lay P st n (MNode l es)" using assms(2) by (auto simp: wtree_def)
  have key: "key \<notin> fst ` set es" using lay_key [OF lay] assms(6) by fastforce
  note gap = node_gap [OF ok key, folded es1_def es2_def]
  have ins: "ins_leaf key v (leaves (MNode l es)) =
      pre_leaves l es1 @ ins_leaf key v (leaves (predt l es1)) @ ent_leaves es2"
    unfolding gap(1) by (rule ins_leaf_context [OF gap(2,3)])
  from assms(10) obtain t where t: "c = tree_cid P t" "mst_stored P car t" "lay P st (n - 1) t"
    "leaves t = ins_leaf key v (leaves (predt l es1))" "wtree P st L (n - 1) t"
    by (rule madeE)
  have tn: "t \<noteq> MNil" using t(4) ins_leaf_nonempty by (metis leaves.simps(1))
  obtain l1 es1' where w: "with_pred l es1 t = (l1, es1')" by (metis surj_pair)
  have "mst_add_lower_finish P car node (if es1 = [] then None else Some (length es1 - 1)) c =
      mst_replace_child P car node (if es1 = [] then None else Some (length es1 - 1)) c"
    using load_wtree [OF t(2,5) tn] assms(3) t(1) by (auto simp: mst_add_lower_finish_def)
  also have "\<dots> = mst_write_node P car n (tree_cid P l1) (tree_entries P (es1' @ [] @ es2))"
    using replace_child_tree [OF assms(4) assms(5) [unfolded es] w] assms(3) t(1) by simp
  finally have eq: "mst_add_lower_finish P car node (if es1 = [] then None else Some (length es1 - 1)) c =
    mst_write_node P car n (tree_cid P l1) (tree_entries P (es1' @ [] @ es2))" .
  show ?thesis
    unfolding eq
  proof (rule rewrite_made [OF assms(2) _ assms(1) w t(2) _ _ _ assms(8)])
    show "set (ins_leaf key v (leaves (MNode l es))) \<subseteq> L"
      using set_ins_leaf [of key v "leaves (MNode l es)"] L assms(7) by blast
    show "es1' @ [] @ es2 \<noteq> [] \<or> l1 \<noteq> MNil" using w tn by (auto simp: with_pred_def split: if_splits)
  qed (use t(3,4) assms(6) ins es in \<open>auto intro!: exI [of _ "n - 1"]\<close>)
qed

text \<open>The layer of the result.\<close>

definition add_layer :: "nat \<Rightarrow> mst \<Rightarrow> nat \<Rightarrow> nat" where
  "add_layer n t K = (if t = MNil then K else max n K)"

lemma add_at_lower_layer_made:
  assumes "mst_stored P car (MNode l es)" "wtree P st L n (MNode l es)"
    "node_layer node = n" "node_left node = tree_cid P l" "node_entries node = tree_entries P es"
    "wf_mst_key_layer P key < n" "(key, v) \<in> L" "leaves_ok (ins_leaf key v (leaves (MNode l es)))" "length key < 2 ^ 31"
  defines "X \<equiv> predt l (takeWhile (below key) es)"
  assumes "wf_mst_add fuel P car (tree_cid P X) key v = Some r" "car_ext car (fst r)"
    "yields P L r (made P st L (add_layer (n - 1) X (wf_mst_key_layer P key)) (ins_leaf key v (leaves X)))"
  shows "\<exists>r. mst_add_at_lower_layer fuel P car node key v (wf_mst_key_layer P key) = Some r \<and> car_ext car (fst r) \<and>
    yields P L r (made P st L n (ins_leaf key v (leaves (MNode l es))))"
proof -
  let ?K = "wf_mst_key_layer P key"
  define es1 es2 where d: "es1 = takeWhile (below key) es" "es2 = dropWhile (below key) es"
  have es: "es = es1 @ es2" by (simp add: d)
  define use where "use = (if es1 = [] then None else Some (length es1 - 1))"
  have ok: "leaves_ok (leaves (MNode l es))" and n: "n \<le> 1024" using assms(2) by (auto simp: wtree_def)
  have idx: "mst_find_ge node key = length es1" using find_hit(1) [OF ok assms(9,5)] d(1) by simp
  have "node_entries node = tree_entries P (es1 @ es2)" using assms(5) es by simp
  note ch = child_tree [OF assms(4) this, folded use_def]
  have fin: "yields P L (mst_add_lower_finish P car' node use c) (made P st L n (ins_leaf key v (leaves (MNode l es))))"
    if "car_ext car car'" "made P st L (n - 1) (ins_leaf key v (leaves X)) car' c" for car' c
    unfolding use_def d(1)
    by (rule add_lower_finish_made [OF stored_ext [OF assms(1) that(1)] assms(2-8)]) (use that(2) in \<open>simp add: X_def\<close>)
  show ?thesis
  proof (cases "X = MNil")
    case True
    let ?f = "\<lambda>car c. and_then (mst_raise_subtree P car c ?K n) (\<lambda>car c. mst_add_lower_finish P car node use c)"
    have eq: "mst_add_at_lower_layer fuel P car node key v ?K = Some (and_then r ?f)"
      using assms(11) ch(1,2) True by (simp add: idx Let_def assms(3) X_def d)
    have y: "yields P L r (made P st L ?K (ins_leaf key v (leaves X)))" using assms(13) True by (simp add: add_layer_def)
    have "yields P L (and_then r ?f) (made P st L n (ins_leaf key v (leaves (MNode l es))))"
    proof (rule yields_and_then [OF y assms(12)], goal_cases)
      case (2 car' c)
      show ?case
        by (rule yields_and_then [OF raise_subtree_made [OF 2(2) assms(6) n] ext_raise_subtree ext_add_lower_finish])
          (use fin car_ext_trans [OF 2(1)] in blast)
    qed (intro ext_intros ext_add_lower_finish)
    moreover have "car_ext car (fst (and_then r ?f))"
      by (intro ext_and_then assms(12) ext_raise_subtree ext_add_lower_finish)
    ultimately show ?thesis using eq by blast
  next
    case False
    let ?f = "\<lambda>car c. mst_add_lower_finish P car node use c"
    have XD: "X = predt l es1" by (simp add: X_def d)
    note X = predt_wtree [OF assms(2,1) es False [unfolded XD], folded XD]
    have err: "(if use = None then mst_load_error P car (tree_cid P X) else None) = None"
      using load_wtree [OF X(3,2) False] by (auto simp: mst_load_error_def)
    have eq: "mst_add_at_lower_layer fuel P car node key v ?K = Some (and_then r ?f)"
      using assms(11) False
      unfolding mst_add_at_lower_layer.simps Let_def idx ch(1) ch(2) [folded XD] err by simp
    have "yields P L r (made P st L (n - 1) (ins_leaf key v (leaves X)))"
      using assms(6,13) False by (simp add: add_layer_def max_absorb1)
    from yields_and_then [OF this assms(12) ext_add_lower_finish fin]
    have "yields P L (and_then r ?f) (made P st L n (ins_leaf key v (leaves (MNode l es))))" .
    moreover have "car_ext car (fst (and_then r ?f))" by (intro ext_and_then assms(12) ext_add_lower_finish)
    ultimately show ?thesis using eq by blast
  qed
qed

theorem add_made:
  assumes "mst_stored P car t" "wtree P st L n t" "height t < fuel" "wf_mst_key_is_valid key" "(key, v) \<in> L"
    "leaves_ok (ins_leaf key v (leaves t))"
  shows "\<exists>r. wf_mst_add fuel P car (tree_cid P t) key v = Some r \<and> car_ext car (fst r) \<and>
    yields P L r (made P st L (add_layer n t (wf_mst_key_layer P key)) (ins_leaf key v (leaves t)))"
  using assms(1-3,6)
proof (induction fuel arbitrary: car t n)
  case (Suc fuel)
  let ?K = "wf_mst_key_layer P key"
  note kl = key_short [OF assms(4)]
  have kn: "key \<noteq> []" using assms(4) by (auto simp: wf_mst_key_is_valid_def)
  have K: "?K \<le> 1024" using key_layer_bound [of key] by simp
  show ?case
  proof (cases t)
    case MNil
    have "wnode st L ?K MNil [(key, v, MNil)]"
      by (rule wnode_cover [OF Suc.prems(4) _ K]) (use assms(5) MNil in \<open>auto simp: ins_leaf_def\<close>)
    from write_made [OF this, of car "[]"] kn assms(4) MNil show ?thesis
      by (simp add: ext_write add_layer_def ins_leaf_def)
  next
    case t: (MNode l es)
    define es1 es2 where d: "es1 = takeWhile (below key) es" "es2 = dropWhile (below key) es"
    have es: "es = es1 @ es2" by (simp add: d)
    from load_wtree [OF Suc.prems(1,2)] t obtain node :: wf_mst_node where
      load: "mst_load_node P car (tree_cid P t) = Inr node" and node: "node_cid node = tree_cid P (MNode l es)"
      "node_layer node = n" "node_left node = tree_cid P l" "node_entries node = tree_entries P es" by fastforce
    have step: "wf_mst_add (Suc fuel) P car (tree_cid P t) key v =
        (if ?K = n then Some (mst_add_at_layer P car node key v)
         else if n < ?K then Some (mst_add_at_higher_layer P car node key v ?K)
         else mst_add_at_lower_layer fuel P car node key v ?K)"
      using kn assms(4) load node(2) by (simp add: t Let_def)
    consider "?K = n" | "n < ?K" | "?K < n" by linarith
    then show ?thesis
    proof cases
      case 1
      with add_at_layer_made [of car l es st L n node key v] Suc.prems node assms(5) kl show ?thesis
        unfolding step by (simp add: ext_add_at_layer add_layer_def t)
    next
      case 2
      with add_at_higher_layer_made [OF Suc.prems(1,2), of node ?K key v] Suc.prems node assms(5) kl show ?thesis
        unfolding step by (simp add: ext_add_at_higher_layer add_layer_def t max_def)
    next
      case 3
      let ?X = "predt l es1"
      have ok: "leaves_ok (leaves (MNode l es))" and n: "n \<le> 1024" and lay: "lay P st n (MNode l es)"
        using Suc.prems(2) t by (auto simp: wtree_def)
      have "key \<notin> fst ` set es" using lay_key [OF lay] 3 by fastforce
      note gap = node_gap [OF ok this, folded d]
      have "leaves_ok (ins_leaf key v (leaves ?X))"
        using Suc.prems(4) leaves_ok_append [of "pre_leaves l es1" "ins_leaf key v (leaves ?X) @ ent_leaves es2"]
          leaves_ok_append [of "ins_leaf key v (leaves ?X)" "ent_leaves es2"]
        unfolding t gap(1) ins_leaf_context [OF gap(2,3)] by blast
      moreover have "height ?X < fuel"
        using Suc.prems(3) predt_height [OF es, of l] unfolding t by linarith
      moreover have "mst_stored P car ?X \<and> wtree P st L (n - 1) ?X"
      proof (cases "?X = MNil")
        case True
        then show ?thesis using n by (simp add: wtree_def leaves_ok_def)
      next
        case False
        show ?thesis using predt_wtree(2,3) [OF Suc.prems(2,1) [unfolded t] es False] by blast
      qed
      ultimately obtain r where "wf_mst_add fuel P car (tree_cid P ?X) key v = Some r" "car_ext car (fst r)"
        "yields P L r (made P st L (add_layer (n - 1) ?X ?K) (ins_leaf key v (leaves ?X)))"
        using Suc.IH [of car ?X "n - 1"] by blast
      from add_at_lower_layer_made [OF _ _ node(2-4) 3 assms(5) _ kl, folded d(1), OF _ _ _ this] Suc.prems t 3
      show ?thesis unfolding step by (simp add: add_layer_def max_def)
    qed
  qed
qed simp

end

end
