(* ===== verification/Mst_Delete.thy ===== *)
theory Mst_Delete
  imports Mst_Add
begin

text \<open>
  Deleting a key from a stored tree. A key that is not bound is reported and nothing is written. A bound
  key is removed: the returned root stores a tree, in the weak shape that allows empty nodes, whose
  leaves are the old ones without the key.
\<close>

section \<open>Merging\<close>

definition merge_room :: "wf_car \<Rightarrow> nat \<Rightarrow> mst \<Rightarrow> bool" where
  "merge_room car d t \<longleftrightarrow> d + height t \<le> 1024 \<and> d + height t \<le> length (car_blocks car)"

lemma merge_room_guard: "merge_room car d t \<Longrightarrow> \<not> depth_exceeded car d"
  by (auto simp: merge_room_def depth_exceeded_def)

lemma merge_room_left: "merge_room car d (MNode l es) \<Longrightarrow> merge_room car (d + 1) l"
  using height_left [of l es] by (auto simp: merge_room_def)

lemma merge_room_sub: "merge_room car d (MNode l es) \<Longrightarrow> (k, v, s) \<in> set es \<Longrightarrow> merge_room car (d + 1) s"
  using height_sub [of k v s es l] by (auto simp: merge_room_def)

context car_step
begin

lemma step_merge: "R P car (fst (mst_merge_subtrees P car a b d))"
proof (induction P car a b d rule: mst_merge_subtrees.induct)
  case (1 P car a b d)
  show ?case
    unfolding mst_merge_subtrees.simps [of P car a b d]
    using "1.IH" by (auto intro!: step_and_then_when step_write split: sum.splits if_splits)
qed

lemma step_delete_at_layer: "R P car (fst (mst_delete_at_layer P car node key))"
  unfolding mst_delete_at_layer_def Let_def by (auto intro!: step_and_then step_if step_merge step_write)

lemma step_replace_child: "R P car (fst (mst_replace_child P car node use c))"
  by (auto simp: mst_replace_child_def step_write split: option.splits)

end

lemmas ext_merge = ext.step_merge
  and ext_delete_at_layer = ext.step_delete_at_layer
  and ext_replace_child = ext.step_replace_child

context platform_laws
begin

lemma kid_wtree:
  assumes "wtree P st L n (MNode l es)"
  shows "wtree P st L (n - 1) l" "(k, v, s) \<in> set es \<Longrightarrow> wtree P st L (n - 1) s"
    "l \<noteq> MNil \<Longrightarrow> 0 < n" "(k, v, s) \<in> set es \<Longrightarrow> s \<noteq> MNil \<Longrightarrow> 0 < n"
proof -
  have lay: "lay P st n (MNode l es)" and ok: "leaves_ok (leaves (MNode l es))" and L: "set (leaves (MNode l es)) \<subseteq> L"
    and n: "n \<le> 1024" using assms by (auto simp: wtree_def)
  show "wtree P st L (n - 1) l"
    using lay_left [OF lay] leaves_ok_left [OF ok] L n by (cases "l = MNil") (auto simp: wtree_def)
  show "wtree P st L (n - 1) s" if "(k, v, s) \<in> set es"
    using lay_sub [OF lay that] leaves_ok_sub [OF ok that] L n set_leaves_sub [OF that]
    by (cases "s = MNil") (auto simp: wtree_def)
  show "l \<noteq> MNil \<Longrightarrow> 0 < n" using lay_left [OF lay] by blast
  show "(k, v, s) \<in> set es \<Longrightarrow> s \<noteq> MNil \<Longrightarrow> 0 < n" using lay_sub [OF lay] by blast
qed

abbreviation merged ::
  "bool \<Rightarrow> (bytes \<times> wf_cid) set \<Rightarrow> nat \<Rightarrow> mst \<Rightarrow> mst \<Rightarrow> wf_car \<Rightarrow> wf_cid \<Rightarrow> bool" where
  "merged st L n a b car c \<equiv> made P st L n (leaves a @ leaves b) car c \<and> (c = [] \<longleftrightarrow> a = MNil \<and> b = MNil)"

lemma last_leaf_less:
  assumes "keys_sorted (leaves (MNode l es) @ leaves (MNode l' es'))" "es \<noteq> []" "es' \<noteq> []"
  shows "fst (last es) < fst (hd es')"
proof -
  obtain k v s where e: "last es = (k, v, s)" by (metis prod_cases3)
  obtain k' v' s' where e': "hd es' = (k', v', s')" by (metis prod_cases3)
  have "(k, v) \<in> set (leaves (MNode l es))" "(k', v') \<in> set (leaves (MNode l' es'))"
    using last_in_set [OF assms(2)] hd_in_set [OF assms(3)] e e' by (auto simp: set_ent_leaves)
  with assms(1) have "k < k'" unfolding map_append sorted_wrt_append
    by (metis (no_types, lifting) fst_conv image_eqI list.set_map)
  then show ?thesis by (simp add: e e')
qed

text \<open>Writing the node that joins two nodes of a layer around a tree.\<close>

lemma join_made:
  assumes "wtree P st L n (MNode l es)" "wtree P st L n (MNode l' es')"
    "mst_stored P car (MNode l es)" "mst_stored P car (MNode l' es')"
    "with_pred l es t = (l1, es1)" "mst_stored P car t" "lay P st (n - 1) t" "t \<noteq> MNil \<Longrightarrow> 0 < n"
    "ls = pre_leaves l es @ leaves t @ ent_leaves es'" "leaves_ok ls" "set ls \<subseteq> L"
    "es1 @ es' \<noteq> [] \<or> l1 \<noteq> MNil"
  shows "yields P L (mst_write_node P car n (tree_cid P l1) (tree_entries P (es1 @ es'))) (made P st L n ls)"
proof -
  have "mst_stored P car s \<and> wf_mst_key_layer P k = n \<and> (s = MNil \<or> (\<exists>m < n. lay P st m s))"
    if "(k, v, s) \<in> set es'" for k v s
    using kid_wtree(2,4) [OF assms(2) that] stored_sub [OF assms(4) that] lay_key [of P st n l' es' k v s] that assms(2)
    unfolding wtree_def by (cases "s = MNil") (auto intro!: exI [of _ "n - 1"])
  moreover have "t = MNil \<or> (\<exists>m < n. lay P st m t)"
    using assms(7,8) by (cases "t = MNil") (auto intro!: exI [of _ "n - 1"])
  ultimately have "yields P L (mst_write_node P car n (tree_cid P l1) (tree_entries P (es1 @ es' @ []))) (made P st L n ls)"
    using rewrite_made [where mid = es' and ?es2.0 = "[]" and ls = ls, OF assms(1) _ assms(3,5,6)] assms(9-12) by simp
  then show ?thesis by simp
qed

lemma predt_mem: "predt l es = l \<or> (\<exists>k v. (k, v, predt l es) \<in> set es)"
proof (cases es rule: rev_cases)
  case (snoc es1 e)
  obtain k v s where "e = (k, v, s)" by (cases e)
  with snoc have "(k, v, predt l es) \<in> set es" by (simp add: predt_def)
  then show ?thesis by blast
qed (simp add: predt_def)

text \<open>A written node has a CID.\<close>

lemma store_nonempty: "mst_store_node P node car = (car', Inr node') \<Longrightarrow> node_cid node' \<noteq> []"
  by (auto simp: mst_store_node_def wf_cid_of_block_def wf_cid_from_hash_def wf_cid_from_hash_codec_def
      split: option.splits sum.splits if_splits)

lemma and_then_Inr: "snd (and_then r f) = Inr y \<longleftrightarrow> (\<exists>car x. r = (car, Inr x) \<and> snd (f car x) = Inr y)"
  by (cases r; cases "snd r") auto

lemma write_nonempty: "snd (mst_write_node P car n l es) = Inr c \<Longrightarrow> c \<noteq> []"
  unfolding mst_write_node_def and_then_Inr
  by (auto simp: wf_mst_node_finalize.simps wf_mst_node_build_def and_then_def
      dest!: store_nonempty split: if_splits prod.splits sum.splits)

lemma yields_nonempty:
  "(\<And>c. snd r = Inr c \<Longrightarrow> c \<noteq> []) \<Longrightarrow> yields P L r Q \<Longrightarrow> yields P L r (\<lambda>car c. Q car c \<and> c \<noteq> [])"
  by (auto simp: yields_def)

text \<open>Two nodes that carry data are joined around the merge of the trees at the boundary.\<close>

lemma merge_eq:
  assumes "\<not> depth_exceeded car d" "ca \<noteq> []" "cb \<noteq> []"
    "mst_load_node P car ca = Inr nl" "node_layer nl = n" "node_left nl = tree_cid P l" "node_entries nl = tree_entries P es"
    "mst_load_node P car cb = Inr nr" "node_layer nr = n" "node_left nr = tree_cid P l'" "node_entries nr = tree_entries P es'"
    "\<not> (es = [] \<and> l = MNil)" "\<not> (es' = [] \<and> l' = MNil)" "leaves_ok (leaves (MNode l es) @ leaves (MNode l' es'))"
  shows "mst_merge_subtrees P car ca cb d =
    and_then (mst_merge_subtrees P car (tree_cid P (predt l es)) (tree_cid P l') (d + 1))
      (\<lambda>car c. mst_write_node P car n (if es = [] then c else tree_cid P l) (if es = [] then tree_entries P es'
          else butlast (tree_entries P es) @ [(last (tree_entries P es))\<lparr>ent_subtree := c\<rparr>] @ tree_entries P es'))"
proof -
  have empty: "\<not> node_is_empty nl" "\<not> node_is_empty nr"
    using assms(12,13) by (simp_all add: node_is_empty_def assms)
  show ?thesis
  proof (cases "es = []")
    case True
    with assms(1-11) empty show ?thesis by (subst mst_merge_subtrees.simps) (simp add: predt_def)
  next
    case False
    have X: "ent_subtree (last (tree_entries P es)) = tree_cid P (predt l es)"
      using False by (cases es rule: rev_cases; cases "last es") (auto simp: predt_def)
    have "\<not> 0 \<le> wf_mst_key_cmp (ent_key (last (tree_entries P es))) (ent_key (hd (tree_entries P es')))" if "es' \<noteq> []"
    proof -
      have ok: "leaves_ok (leaves (MNode l es))" "leaves_ok (leaves (MNode l' es'))"
        using leaves_ok_append [OF assms(14)] by auto
      have "ent_key (last (tree_entries P es)) = fst (last es)" "ent_key (hd (tree_entries P es')) = fst (hd es')"
        using False that by (simp_all add: tree_entries_def last_map hd_map split_beta)
      moreover have "fst (last es) < fst (hd es')"
        using last_leaf_less [OF _ False that] assms(14) by (auto simp: leaves_ok_def)
      moreover have "length (fst (last es)) < 2 ^ 31" "length (fst (hd es')) < 2 ^ 31"
        using leaves_ok_keys [OF ok(1)] leaves_ok_keys [OF ok(2)] False that by auto
      ultimately show ?thesis
        using key_cmp_order(1) [of "fst (last es)" "fst (hd es')"] by (simp add: wf_mst_key_cmp_def)
    qed
    with assms(1-11) empty False X show ?thesis by (subst mst_merge_subtrees.simps) auto
  qed
qed

lemma merge_made:
  assumes "mst_stored P car a" "mst_stored P car b" "wtree P st L n a" "wtree P st L n b"
    "leaves_ok (leaves a @ leaves b)" "merge_room car d a" "merge_room car d b"
  shows "yields P L (mst_merge_subtrees P car (tree_cid P a) (tree_cid P b) d) (merged st L n a b)"
  using assms
proof (induction a arbitrary: b n d rule: measure_induct_rule [of height])
  case (less a)
  note guard = merge_room_guard [OF less.prems(6)]
  show ?case
  proof (cases "a = MNil \<or> b = MNil")
    case True
    then show ?thesis
      using guard made_tree [OF less.prems(1,3)] made_tree [OF less.prems(2,4)]
      by (subst mst_merge_subtrees.simps) (auto simp: made_empty)
  next
    case False
    from load_wtree [OF less.prems(1,3)] False obtain l es and nl :: wf_mst_node where a: "a = MNode l es"
      and nl: "mst_load_node P car (tree_cid P a) = Inr nl" "node_layer nl = n" "node_left nl = tree_cid P l"
        "node_entries nl = tree_entries P es" by fastforce
    from load_wtree [OF less.prems(2,4)] False obtain l' es' and nr :: wf_mst_node where b: "b = MNode l' es'"
      and nr: "mst_load_node P car (tree_cid P b) = Inr nr" "node_layer nr = n" "node_left nr = tree_cid P l'"
        "node_entries nr = tree_entries P es'" by fastforce
    have empty: "node_is_empty nl \<longleftrightarrow> es = [] \<and> l = MNil" "node_is_empty nr \<longleftrightarrow> es' = [] \<and> l' = MNil"
      by (simp_all add: node_is_empty_def nl nr)
    have ne: "tree_cid P a \<noteq> []" "tree_cid P b \<noteq> []" using False by auto
    consider "es = [] \<and> l = MNil" | "es' = [] \<and> l' = MNil" "\<not> (es = [] \<and> l = MNil)"
      | "\<not> (es = [] \<and> l = MNil)" "\<not> (es' = [] \<and> l' = MNil)" by blast
    then show ?thesis
    proof cases
      case 1
      then show ?thesis using guard ne nl nr empty made_tree [OF less.prems(2,4)] a b
        by (subst mst_merge_subtrees.simps) simp
    next
      case 2
      then show ?thesis using guard ne nl nr empty made_tree [OF less.prems(1,3)] a b
        by (subst mst_merge_subtrees.simps) auto
    next
      case 3
      let ?X = "predt l es"
      let ?w = "\<lambda>car c. mst_write_node P car n (if es = [] then c else tree_cid P l) (if es = [] then tree_entries P es'
          else butlast (tree_entries P es) @ [(last (tree_entries P es))\<lparr>ent_subtree := c\<rparr>] @ tree_entries P es')"
      have all: "leaves a @ leaves b = pre_leaves l es @ (leaves ?X @ leaves l') @ ent_leaves es'"
        using leaves_predt [of l es] by (simp add: a b)
      have lX: "leaves_ok (leaves ?X @ leaves l')"
        using less.prems(5) leaves_ok_append [of "pre_leaves l es" "(leaves ?X @ leaves l') @ ent_leaves es'"]
          leaves_ok_append [of "leaves ?X @ leaves l'" "ent_leaves es'"] unfolding all by blast
      have eq: "mst_merge_subtrees P car (tree_cid P a) (tree_cid P b) d =
          and_then (mst_merge_subtrees P car (tree_cid P ?X) (tree_cid P l') (d + 1)) ?w"
        by (rule merge_eq [OF guard _ _ nl nr 3]) (use less.prems(5) a b in auto)
      have "height ?X < height a" using predt_height [of es es "[]" l] a by simp
      moreover have kids: "mst_stored P car ?X" "wtree P st L (n - 1) ?X" "merge_room car (d + 1) ?X" "?X \<noteq> MNil \<longrightarrow> 0 < n"
      proof -
        note k = kid_wtree [OF less.prems(3) [unfolded a]]
        consider "?X = l" | k v where "(k, v, ?X) \<in> set es" using predt_mem by blast
        then have "mst_stored P car ?X \<and> wtree P st L (n - 1) ?X \<and> merge_room car (d + 1) ?X \<and> (?X \<noteq> MNil \<longrightarrow> 0 < n)"
        proof cases
          case 1
          then show ?thesis using less.prems(1) k(1,3) merge_room_left [OF less.prems(6) [unfolded a]] unfolding a by simp
        next
          case 2
          then show ?thesis using stored_sub [OF less.prems(1) [unfolded a] 2] k(2,4) [OF 2]
              merge_room_sub [OF less.prems(6) [unfolded a] 2] by blast
        qed
        then show "mst_stored P car ?X" "wtree P st L (n - 1) ?X" "merge_room car (d + 1) ?X" "?X \<noteq> MNil \<longrightarrow> 0 < n"
          by blast+
      qed
      ultimately have IH: "yields P L (mst_merge_subtrees P car (tree_cid P ?X) (tree_cid P l') (d + 1)) (merged st L (n - 1) ?X l')"
        using less.IH [of ?X l' "n - 1" "d + 1"] less.prems lX kid_wtree(1) merge_room_left unfolding b by simp
      show ?thesis
        unfolding eq
      proof (rule yields_and_then [OF IH ext_merge], goal_cases)
        case (2 car' c)
        from 2(2) obtain t where t: "c = tree_cid P t" "mst_stored P car' t" "lay P st (n - 1) t" "leaves t = leaves ?X @ leaves l'"
          by (blast elim: madeE)
        obtain l1 es1 where w: "with_pred l es t = (l1, es1)" by (metis surj_pair)
        have "?w car' c = mst_write_node P car' n (tree_cid P l1) (tree_entries P (es1 @ es'))"
          using w t(1) by (cases es rule: rev_cases; cases "last es") (auto simp: with_pred_def)
        moreover have "yields P L (mst_write_node P car' n (tree_cid P l1) (tree_entries P (es1 @ es')))
          (made P st L n (leaves a @ leaves b))"
        proof (rule join_made [OF less.prems(3) [unfolded a] less.prems(4) [unfolded b] stored_ext [OF _ 2(1)] stored_ext [OF _ 2(1)]
              w t(2,3) _ _ less.prems(5)])
          show "t \<noteq> MNil \<Longrightarrow> 0 < n" using 2(2) t(1) kids(4) kid_wtree(3) [OF less.prems(4) [unfolded b]] by auto
          show "leaves a @ leaves b = pre_leaves l es @ leaves t @ ent_leaves es'" unfolding all t(4) ..
          show "set (leaves a @ leaves b) \<subseteq> L" using less.prems(3,4) by (auto simp: wtree_def)
          show "es1 @ es' \<noteq> [] \<or> l1 \<noteq> MNil"
            using w 2(2) t(1) 3 by (auto simp: with_pred_def predt_def split: if_splits)
        qed (use less.prems(1,2) a b in auto)
        ultimately have "yields P L (?w car' c) (\<lambda>car c. made P st L n (leaves a @ leaves b) car c \<and> c \<noteq> [])"
          using yields_nonempty [OF write_nonempty] by simp
        then show ?case by (rule yields_weaken) (use False in blast)
      qed (simp add: ext_write)
    qed
  qed
qed

end

section \<open>Deleting\<close>

definition del_leaf :: "bytes \<Rightarrow> (bytes \<times> wf_cid) list \<Rightarrow> (bytes \<times> wf_cid) list" where
  "del_leaf key ls = filter (\<lambda>x. fst x \<noteq> key) ls"

lemma del_leaf_context:
  assumes "key \<notin> fst ` set xs" "key \<notin> fst ` set ys"
  shows "del_leaf key (xs @ ms @ ys) = xs @ del_leaf key ms @ ys"
proof -
  have "filter (\<lambda>x. fst x \<noteq> key) xs = xs" "filter (\<lambda>x. fst x \<noteq> key) ys = ys"
    using assms by (auto simp: filter_id_conv)
  then show ?thesis by (simp add: del_leaf_def)
qed

lemma leaves_ok_del: "leaves_ok ls \<Longrightarrow> leaves_ok (del_leaf key ls)"
  unfolding del_leaf_def by (rule leaves_ok_filter)

lemma set_del_leaf: "set (del_leaf key ls) = {x \<in> set ls. fst x \<noteq> key}"
  by (auto simp: del_leaf_def)

lemma map_of_del_leaf: "map_of (del_leaf key ls) k = (if k = key then None else map_of ls k)"
  using map_of_key_filter [of "\<lambda>k. k \<noteq> key" ls k] by (auto simp: del_leaf_def)

lemma remove_entry_tree:
  assumes "with_pred l es1 t = (l1, es1')" "es1 @ es2 \<noteq> []"
  shows "(let rest = take (length es1) (tree_entries P (es1 @ e # es2)) @ drop (Suc (length es1)) (tree_entries P (es1 @ e # es2))
     in if length es1 = 0 then mst_write_node P car n (tree_cid P t) rest
        else mst_write_node P car n (tree_cid P l) (rest[length es1 - 1 := (rest ! (length es1 - 1))\<lparr>ent_subtree := tree_cid P t\<rparr>])) =
    mst_write_node P car n (tree_cid P l1) (tree_entries P (es1' @ es2))"
  using assms by (cases es1 rule: rev_cases; cases "last es1"; cases e)
    (auto simp: with_pred_def nth_append list_update_append)

context platform_laws
begin

lemma predt_kid:
  assumes "mst_stored P car (MNode l es)" "wtree P st L n (MNode l es)" "set es1 \<subseteq> set es"
  shows "mst_stored P car (predt l es1)" "wtree P st L (n - 1) (predt l es1)" "predt l es1 \<noteq> MNil \<longrightarrow> 0 < n"
proof -
  consider "predt l es1 = l" | k v where "(k, v, predt l es1) \<in> set es" using predt_mem assms(3) by blast
  then have "mst_stored P car (predt l es1) \<and> wtree P st L (n - 1) (predt l es1) \<and> (predt l es1 \<noteq> MNil \<longrightarrow> 0 < n)"
  proof cases
    case 1
    then show ?thesis using assms(1) kid_wtree(1,3) [OF assms(2)] by simp
  next
    case 2
    then show ?thesis using stored_sub [OF assms(1) 2] kid_wtree(2,4) [OF assms(2) 2] by blast
  qed
  then show "mst_stored P car (predt l es1)" "wtree P st L (n - 1) (predt l es1)" "predt l es1 \<noteq> MNil \<longrightarrow> 0 < n" by auto
qed

lemma kid_room:
  assumes "mst_stored P car t" "wtree P st L (n - 1) t" "t \<noteq> MNil \<longrightarrow> 0 < n" "n \<le> 1024"
  shows "merge_room car 0 t"
proof (cases "t = MNil")
  case False
  have "height t \<le> n" using lay_height [of P st "n - 1" t] assms(2,3) False by (auto simp: wtree_def)
  moreover have "height t \<le> length (car_blocks car)"
    using mst_rep_height_bound [OF stored_rep [OF assms(1)]] assms(2) by (simp add: wtree_def)
  ultimately show ?thesis using assms(4) by (simp add: merge_room_def)
qed (simp add: merge_room_def)

lemma entry_position:
  assumes "leaves_ok (leaves (MNode l es))" "key \<in> fst ` set es"
  shows "\<exists>v s es2. es = takeWhile (below key) es @ (key, v, s) # es2"
proof -
  have s: "sorted_wrt (<) (map fst es)"
    using assms(1) by (intro keys_sorted_entries) (simp add: leaves_ok_def sorted_wrt_append)
  from assms(2) obtain v s' where "(key, v, s') \<in> set es" by force
  then obtain xs ys where es: "es = xs @ (key, v, s') # ys" by (meson split_list)
  with s have "\<forall>e \<in> set xs. fst e < key" by (auto simp: sorted_wrt_append)
  then have "takeWhile (below key) es = xs" using es by (simp add: takeWhile_append)
  then show ?thesis using es by blast
qed

lemma delete_at_layer_made:
  assumes "mst_stored P car (MNode l es)" "wtree P False L n (MNode l es)"
    "node_layer node = n" "node_left node = tree_cid P l" "node_entries node = tree_entries P es"
    "length key < 2 ^ 31" "key \<in> fst ` set es"
  shows "yields P L (mst_delete_at_layer P car node key)
    (\<lambda>car c. \<exists>m \<le> n. made P False L m (del_leaf key (leaves (MNode l es))) car c)"
proof -
  have ok: "leaves_ok (leaves (MNode l es))" and L: "set (leaves (MNode l es)) \<subseteq> L" and n: "n \<le> 1024"
    using assms(2) by (auto simp: wtree_def)
  define es1 where "es1 = takeWhile (below key) es"
  from entry_position [OF ok assms(7)] obtain v s es2 where es: "es = es1 @ (key, v, s) # es2"
    by (auto simp: es1_def)
  let ?X = "predt l es1"
  note hit = find_hit [OF ok assms(6,5)]
  have idx: "mst_find_ge node key = length es1" using hit(1) by (simp add: es1_def)
  have all: "leaves (MNode l es) = pre_leaves l es1 @ leaves ?X @ (key, v) # leaves s @ ent_leaves es2"
    using leaves_predt [of l es1] by (simp add: es)
  have "keys_sorted (leaves (MNode l es))" using ok by (simp add: leaves_ok_def)
  then have notin: "key \<notin> fst ` set (pre_leaves l es1 @ leaves ?X)" "key \<notin> fst ` set (leaves s @ ent_leaves es2)"
    unfolding all by (auto simp: sorted_wrt_append)
  have del: "del_leaf key (leaves (MNode l es)) = pre_leaves l es1 @ (leaves ?X @ leaves s) @ ent_leaves es2"
    using del_leaf_context [OF notin, of "[(key, v)]"] unfolding all by (simp add: del_leaf_def)
  have sub: "(key, v, s) \<in> set es" using es by simp
  have kids: "mst_stored P car ?X" "wtree P False L (n - 1) ?X" "?X \<noteq> MNil \<longrightarrow> 0 < n"
  proof -
    have "set es1 \<subseteq> set es" using es by auto
    from predt_kid [OF assms(1,2) this]
    show "mst_stored P car ?X" "wtree P False L (n - 1) ?X" "?X \<noteq> MNil \<longrightarrow> 0 < n" .
  qed
  have kid: "mst_stored P car s" "wtree P False L (n - 1) s" "s \<noteq> MNil \<longrightarrow> 0 < n"
    using stored_sub [OF assms(1) sub] kid_wtree(2,4) [OF assms(2) sub] by auto
  have room: "merge_room car 0 ?X" "merge_room car 0 s"
    using kid_room [OF kids n] kid_room [OF kid n] .
  have okm: "leaves_ok (leaves ?X @ leaves s)"
    using leaves_ok_del [OF ok, of key] leaves_ok_append [of "pre_leaves l es1" "(leaves ?X @ leaves s) @ ent_leaves es2"]
      leaves_ok_append [of "leaves ?X @ leaves s" "ent_leaves es2"] unfolding del by blast
  let ?rest = "take (length es1) (tree_entries P es) @ drop (Suc (length es1)) (tree_entries P es)"
  let ?f = "\<lambda>car c. if length es - 1 = 0 then (car, Inr c) else let rest = ?rest
     in if length es1 = 0 then mst_write_node P car n c rest
        else mst_write_node P car n (tree_cid P l) (rest[length es1 - 1 := (rest ! (length es1 - 1))\<lparr>ent_subtree := c\<rparr>])"
  have eq: "mst_delete_at_layer P car node key = and_then (mst_merge_subtrees P car (tree_cid P ?X) (tree_cid P s) 0) ?f"
  proof -
    have hit': "\<not> (node_count node \<le> length es1 \<or> wf_mst_key_cmp key (ent_key (node_entries node ! length es1)) \<noteq> 0)"
      using hit(2) assms(7) idx by auto
    have "node_entries node = tree_entries P (es1 @ (key, v, s) # es2)" using assms(5) es by simp
    note c = child_tree(3) [OF assms(4) this]
    have e: "ent_subtree (node_entries node ! length es1) = tree_cid P s" by (simp add: assms(5) es nth_append)
    show ?thesis
      unfolding mst_delete_at_layer_def Let_def idx if_not_P [OF hit'] unfolding c e unfolding assms(3-5) by simp
  qed
  show ?thesis
    unfolding eq
  proof (rule yields_and_then [OF merge_made [OF kids(1) kid(1) kids(2) kid(2) okm room] ext_merge], goal_cases)
    case (1 car x)
    show ?case by (simp add: ext_write Let_def)
  next
    case (2 car' c)
    show ?case
    proof (cases "es1 @ es2 = []")
      case True
      then have "made P False L (n - 1) (del_leaf key (leaves (MNode l es))) car' c"
        unfolding del using 2(2) by (simp add: pre_leaves_def)
      then show ?thesis using True by (auto simp: es intro!: exI [of _ "n - 1"])
    next
      case False
      from 2(2) obtain t where t: "c = tree_cid P t" "mst_stored P car' t" "lay P False (n - 1) t" "leaves t = leaves ?X @ leaves s"
        by (blast elim: madeE)
      obtain l1 es1' where w: "with_pred l es1 t = (l1, es1')" by (metis surj_pair)
      have "yields P L (mst_write_node P car' n (tree_cid P l1) (tree_entries P (es1' @ [] @ es2)))
          (made P False L n (del_leaf key (leaves (MNode l es))))"
      proof (rule rewrite_made [OF assms(2) _ stored_ext [OF assms(1) 2(1)] w t(2)])
        show "t = MNil \<or> (\<exists>m < n. lay P False m t)"
          using 2(2) t(1,3) kids(3) kid(3) by (auto intro!: exI [of _ "n - 1"])
        show "es1' @ [] @ es2 \<noteq> [] \<or> l1 \<noteq> MNil" using w False by (auto simp: with_pred_def split: if_splits)
        show "set (del_leaf key (leaves (MNode l es))) \<subseteq> L" using L by (auto simp: set_del_leaf)
        show "leaves_ok (del_leaf key (leaves (MNode l es)))" by (rule leaves_ok_del [OF ok])
      qed (use es del t(4) in auto)
      moreover have "?f car' c = mst_write_node P car' n (tree_cid P l1) (tree_entries P (es1' @ [] @ es2))"
      proof -
        have nz: "length es - 1 \<noteq> 0" using False es by (cases es1) auto
        show ?thesis
          unfolding if_not_P [OF nz] t(1) unfolding es
          using remove_entry_tree [OF w False, of P "(key, v, s)" car' n] by simp
      qed
      ultimately show ?thesis by (auto elim!: yields_weaken)
    qed
  qed
qed

text \<open>Relinking the changed child: it may be gone, or sit lower than before.\<close>

lemma replace_child_made:
  assumes "mst_stored P car (MNode l es)" "wtree P False L n (MNode l es)"
    "node_layer node = n" "node_left node = tree_cid P l" "node_entries node = tree_entries P es"
    "key \<notin> fst ` set es"
  defines "es1 \<equiv> takeWhile (below key) es"
  assumes "m < n" "made P False L m (del_leaf key (leaves (predt l es1))) car c"
  shows "yields P L (mst_replace_child P car node (if es1 = [] then None else Some (length es1 - 1)) c)
    (\<lambda>car c. \<exists>m \<le> n. made P False L m (del_leaf key (leaves (MNode l es))) car c)"
proof -
  define es2 where "es2 = dropWhile (below key) es"
  have es: "es = es1 @ es2" by (simp add: es1_def es2_def)
  have ok: "leaves_ok (leaves (MNode l es))" and L: "set (leaves (MNode l es)) \<subseteq> L"
    using assms(2) by (auto simp: wtree_def)
  note gap = node_gap [OF ok assms(6), folded es1_def es2_def]
  have "key \<notin> fst ` set (pre_leaves l es1)" "key \<notin> fst ` set (ent_leaves es2)" using gap(2,3) by force+
  from del_leaf_context [OF this] have del: "del_leaf key (leaves (MNode l es)) =
      pre_leaves l es1 @ del_leaf key (leaves (predt l es1)) @ ent_leaves es2" unfolding gap(1) .
  from assms(9) obtain t where t: "c = tree_cid P t" "mst_stored P car t" "lay P False m t"
    "leaves t = del_leaf key (leaves (predt l es1))" by (blast elim: madeE)
  obtain l1 es1' where w: "with_pred l es1 t = (l1, es1')" by (metis surj_pair)
  have eq: "mst_replace_child P car node (if es1 = [] then None else Some (length es1 - 1)) c =
      mst_write_node P car n (tree_cid P l1) (tree_entries P (es1' @ [] @ es2))"
    using replace_child_tree [OF assms(4) assms(5) [unfolded es] w] assms(3) t(1) by simp
  show ?thesis
  proof (cases "es1' @ es2 = [] \<and> l1 = MNil")
    case True
    have "del_leaf key (leaves (MNode l es)) = []"
      unfolding del t(4) [symmetric] using leaves_with_pred [OF w] True by simp
    moreover have "wtree P False L 0 (MNode MNil [])" by (simp add: wtree_def leaves_ok_def)
    ultimately show ?thesis
      unfolding eq using True wrote_yields [OF write_empty_wrote [of L car n]] made_tree [of P _ "MNode MNil []" False L 0]
      by (auto elim!: yields_weaken)
  next
    case False
    have "yields P L (mst_write_node P car n (tree_cid P l1) (tree_entries P (es1' @ [] @ es2)))
        (made P False L n (del_leaf key (leaves (MNode l es))))"
    proof (rule rewrite_made [OF assms(2) _ assms(1) w t(2)])
      show "leaves_ok (del_leaf key (leaves (MNode l es)))" by (rule leaves_ok_del [OF ok])
      show "set (del_leaf key (leaves (MNode l es))) \<subseteq> L" using L by (auto simp: set_del_leaf)
    qed (use es del t(3,4) assms(8) False in auto)
    then show ?thesis unfolding eq by (auto elim!: yields_weaken)
  qed
qed

lemma delete_recursive_made:
  assumes "mst_stored P car t" "wtree P False L n t" "t \<noteq> MNil" "mst_load_node P car (tree_cid P t) = Inr node"
    "height t \<le> fuel" "length key < 2 ^ 31"
  shows "\<exists>r. mst_delete_recursive fuel P car node key (wf_mst_key_layer P key) = Some r \<and> car_ext car (fst r) \<and>
    (if key \<in> fst ` set (leaves t)
     then yields P L r (\<lambda>car c. \<exists>m \<le> n. made P False L m (del_leaf key (leaves t)) car c)
     else r = (car, Inl WF_ERR_NOT_FOUND))"
  using assms(1-5)
proof (induction fuel arbitrary: t n node)
  case 0
  then show ?case by (cases t) auto
next
  case (Suc fuel)
  let ?K = "wf_mst_key_layer P key"
  from load_wtree [OF Suc.prems(1-3)] Suc.prems(4) obtain l es where t: "t = MNode l es"
    and node: "node_layer node = n" "node_left node = tree_cid P l" "node_entries node = tree_entries P es"
    by fastforce
  have ok: "leaves_ok (leaves (MNode l es))" and lay: "lay P False n (MNode l es)"
    using Suc.prems(2) t by (auto simp: wtree_def)
  define es1 es2 where d: "es1 = takeWhile (below key) es" "es2 = dropWhile (below key) es"
  have es: "es = es1 @ es2" by (simp add: d)
  let ?X = "predt l es1"
  define use where "use = (if es1 = [] then None else Some (length es1 - 1))"
  note hit = find_hit [OF ok assms(6) node(3)]
  have idx: "mst_find_ge node key = length es1" using hit(1) by (simp add: d)
  have ents: "node_entries node = tree_entries P (es1 @ es2)" using node(3) es by simp
  note ch = child_tree [OF node(2) ents, folded use_def]
  have use': "(if length es1 = 0 then None else Some (if node_count node \<le> length es1 then node_count node - 1 else length es1 - 1)) = use"
    by (auto simp: use_def ents)
  have X: "mst_stored P car ?X" "wtree P False L (n - 1) ?X" "?X \<noteq> MNil \<longrightarrow> 0 < n"
    using predt_kid [OF Suc.prems(1,2) [unfolded t], of es1] es by auto
  have mem: "key \<in> fst ` set (leaves t) \<longleftrightarrow> key \<in> fst ` set (leaves ?X)" if "key \<notin> fst ` set es"
  proof -
    note gap = node_gap [OF ok that, folded d]
    have "key \<notin> fst ` set (pre_leaves l es1)" "key \<notin> fst ` set (ent_leaves es2)" using gap(2,3) by force+
    then show ?thesis unfolding t gap(1) by auto
  qed
  have child: "\<exists>c r. mst_load_node P car (tree_cid P ?X) = Inr c \<and> mst_delete_recursive fuel P car c key ?K = Some r \<and>
      car_ext car (fst r) \<and> (if key \<in> fst ` set (leaves ?X)
       then yields P L r (\<lambda>car c. \<exists>m \<le> n - 1. made P False L m (del_leaf key (leaves ?X)) car c)
       else r = (car, Inl WF_ERR_NOT_FOUND))" if XN: "?X \<noteq> MNil"
  proof -
    from load_wtree [OF X(1,2) XN] obtain c where c: "mst_load_node P car (tree_cid P ?X) = Inr c" by blast
    have "height ?X \<le> fuel" using predt_height [OF es, of l] Suc.prems(5) unfolding t by linarith
    from Suc.IH [OF X(1,2) XN c this] c show ?thesis by blast
  qed
  consider (same) "?K = n" | (above) "n < ?K" | (below) "?K < n" by linarith
  then show ?case
  proof cases
    case same
    show ?thesis
    proof (cases "key \<in> fst ` set es")
      case True
      then have "key \<in> fst ` set (leaves t)" unfolding t by (force simp: set_ent_leaves)
      moreover have "mst_delete_recursive (Suc fuel) P car node key ?K = Some (mst_delete_at_layer P car node key)"
        using hit(2) True same node(1) by (simp add: Let_def)
      ultimately show ?thesis
        using delete_at_layer_made [OF Suc.prems(1,2) [unfolded t] node assms(6) True] ext_delete_at_layer by (simp add: t)
    next
      case False
      have notin: "key \<notin> fst ` set (leaves ?X)"
        using child_layer_key [OF Suc.prems(2) [unfolded t] es] same by simp
      have step: "mst_delete_recursive (Suc fuel) P car node key ?K =
          (if ?X = MNil then Some (car, Inl WF_ERR_NOT_FOUND)
           else case mst_load_node P car (tree_cid P ?X) of
                  Inl s \<Rightarrow> Some (car, Inl s)
                | Inr c \<Rightarrow> (case mst_delete_recursive fuel P car c key ?K of None \<Rightarrow> None
                    | Some r \<Rightarrow> Some (and_then r (\<lambda>car s. mst_replace_child P car node use (mst_drop_if_empty P car s)))))"
        using False same node(1) hit(2) unfolding mst_delete_recursive.simps Let_def hit(2) unfolding idx use' ch(2) by simp
      have "mst_delete_recursive (Suc fuel) P car node key ?K = Some (car, Inl WF_ERR_NOT_FOUND)"
        using child notin unfolding step by (cases "?X = MNil") auto
      then show ?thesis using mem [OF False] notin by simp
    qed
  next
    case above
    then have "key \<notin> fst ` set (leaves t)"
      using lay_keys_le [OF lay, of key] unfolding t by fastforce
    moreover have "mst_delete_recursive (Suc fuel) P car node key ?K = Some (car, Inl WF_ERR_NOT_FOUND)"
      using above node(1) by (simp add: Let_def)
    ultimately show ?thesis by simp
  next
    case below
    have notin: "key \<notin> fst ` set es" using lay_key [OF lay] below by fastforce
    have step: "mst_delete_recursive (Suc fuel) P car node key ?K =
        (if ?X = MNil then Some (car, Inl WF_ERR_NOT_FOUND)
         else case mst_load_node P car (tree_cid P ?X) of
                Inl s \<Rightarrow> Some (car, Inl s)
              | Inr c \<Rightarrow> (case mst_delete_recursive fuel P car c key ?K of None \<Rightarrow> None
                  | Some r \<Rightarrow> Some (and_then r (\<lambda>car s. mst_replace_child P car node use s))))"
      using below node(1) unfolding mst_delete_recursive.simps Let_def idx ch(1,2) by simp
    show ?thesis
    proof (cases "?X = MNil")
      case True
      then show ?thesis using step mem [OF notin] by simp
    next
      case XN: False
      from child [OF XN] obtain c r where r: "mst_load_node P car (tree_cid P ?X) = Inr c"
        "mst_delete_recursive fuel P car c key ?K = Some r" "car_ext car (fst r)"
        "if key \<in> fst ` set (leaves ?X) then yields P L r (\<lambda>car c. \<exists>m \<le> n - 1. made P False L m (del_leaf key (leaves ?X)) car c)
         else r = (car, Inl WF_ERR_NOT_FOUND)" by blast
      let ?f = "\<lambda>car s. mst_replace_child P car node use s"
      have eq: "mst_delete_recursive (Suc fuel) P car node key ?K = Some (and_then r ?f)"
        using XN r(1,2) step by simp
      have ext: "car_ext car (fst (and_then r ?f))" by (intro ext_and_then r(3) ext_replace_child)
      show ?thesis
      proof (cases "key \<in> fst ` set (leaves ?X)")
        case True
        then have y: "yields P L r (\<lambda>car c. \<exists>m \<le> n - 1. made P False L m (del_leaf key (leaves ?X)) car c)" using r(4) by simp
        have "yields P L (and_then r ?f) (\<lambda>car c. \<exists>m \<le> n. made P False L m (del_leaf key (leaves t)) car c)"
        proof (rule yields_and_then [OF y r(3) ext_replace_child])
          fix car' s assume e: "car_ext car car'" and "\<exists>m \<le> n - 1. made P False L m (del_leaf key (leaves ?X)) car' s"
          then obtain m where "m \<le> n - 1" and m2: "made P False L m (del_leaf key (leaves ?X)) car' s" by blast
          then have m1: "m < n" using below by linarith
          show "yields P L (?f car' s) (\<lambda>car c. \<exists>m \<le> n. made P False L m (del_leaf key (leaves t)) car c)"
            unfolding use_def t d(1)
            by (rule replace_child_made [OF stored_ext [OF Suc.prems(1) [unfolded t] e] Suc.prems(2) [unfolded t] node notin m1])
              (use m2 d(1) in simp)
        qed
        then show ?thesis using eq ext True mem [OF notin] by simp
      next
        case False
        then show ?thesis using eq r(4) mem [OF notin] by simp
      qed
    qed
  qed
qed

text \<open>Leafless nodes are removed from the top.\<close>

fun has_top_leaf :: "mst \<Rightarrow> bool" where
  "has_top_leaf MNil = True"
| "has_top_leaf (MNode l es) \<longleftrightarrow> es \<noteq> []"

lemma strip_made:
  assumes "mst_stored P car t" "wtree P False L n t"
  shows "\<exists>u. mst_strip_loop P car (tree_cid P t) = Inr (tree_cid P u) \<and> mst_stored P car u \<and>
    (\<exists>m \<le> n. wtree P False L m u) \<and> leaves u = leaves t \<and> has_top_leaf u"
  using assms
proof (induction t arbitrary: n rule: measure_induct_rule [of height])
  case (less t)
  show ?case
  proof (cases "t = MNil")
    case True
    then show ?thesis using less.prems by (subst mst_strip_loop.simps) (auto intro!: exI [of _ MNil])
  next
    case False
    from load_wtree [OF less.prems False] obtain l es and node :: wf_mst_node where t: "t = MNode l es"
      and load: "mst_load_node P car (tree_cid P t) = Inr node" and node: "node_left node = tree_cid P l"
        "node_entries node = tree_entries P es" by fastforce
    show ?thesis
    proof (cases "es = []")
      case True
      have "height l < height t" using height_left [of l es] t by simp
      from less.IH [OF this _ kid_wtree(1) [OF less.prems(2) [unfolded t]]] less.prems(1) obtain u where
        u: "mst_strip_loop P car (tree_cid P l) = Inr (tree_cid P u)" "mst_stored P car u"
        "\<exists>m \<le> n - 1. wtree P False L m u" "leaves u = leaves l" "has_top_leaf u" using t by auto
      have "mst_strip_loop P car (tree_cid P t) = Inr (tree_cid P u)"
        using load node True u(1) False by (subst mst_strip_loop.simps) simp
      with u True show ?thesis by (auto simp: t intro!: exI [of _ u]) (use diff_le_self le_trans in blast)
    next
      case F: False
      have "mst_strip_loop P car (tree_cid P t) = Inr (tree_cid P t)"
        using load node F False by (subst mst_strip_loop.simps) simp
      then show ?thesis using less.prems F t by (intro exI [of _ t]) auto
    qed
  qed
qed

theorem delete_made:
  assumes "mst_stored P car t" "wtree P False L n t" "t \<noteq> MNil" "height t \<le> fuel" "key \<noteq> []" "length key < 2 ^ 31"
  shows "\<exists>r. wf_mst_delete fuel P car (tree_cid P t) key = Some r \<and> car_ext car (fst r) \<and>
    (if key \<in> fst ` set (leaves t)
     then yields P L r (\<lambda>car c. \<exists>m \<le> n. made P False L m (del_leaf key (leaves t)) car c)
     else r = (car, Inl WF_ERR_NOT_FOUND))"
proof -
  from load_wtree [OF assms(1-3)] obtain node where load: "mst_load_node P car (tree_cid P t) = Inr node" by blast
  from delete_recursive_made [OF assms(1-3) load assms(4,6)] obtain r where r:
    "mst_delete_recursive fuel P car node key (wf_mst_key_layer P key) = Some r" "car_ext car (fst r)"
    "if key \<in> fst ` set (leaves t) then yields P L r (\<lambda>car c. \<exists>m \<le> n. made P False L m (del_leaf key (leaves t)) car c)
     else r = (car, Inl WF_ERR_NOT_FOUND)" by blast
  let ?f = "\<lambda>car new_root. (car, mst_strip_loop P car new_root)"
  have eq: "wf_mst_delete fuel P car (tree_cid P t) key = Some (and_then r ?f)"
    using assms(3,5) load r(1) by (simp add: wf_mst_delete_def Let_def)
  have ext: "car_ext car (fst (and_then r ?f))" by (intro ext_and_then r(2)) simp
  have "yields P L (and_then r ?f) (\<lambda>car c. \<exists>m \<le> n. made P False L m (del_leaf key (leaves t)) car c)"
    if "key \<in> fst ` set (leaves t)"
  proof -
    from that r(3) have y: "yields P L r (\<lambda>car c. \<exists>m \<le> n. made P False L m (del_leaf key (leaves t)) car c)" by simp
    show ?thesis
    proof (rule yields_and_then [OF y r(2)])
      fix car' c assume "\<exists>m \<le> n. made P False L m (del_leaf key (leaves t)) car' c"
      then obtain m u where u: "m \<le> n" "c = tree_cid P u" "mst_stored P car' u" "wtree P False L m u"
        "leaves u = del_leaf key (leaves t)" by (blast elim: madeE)
      from strip_made [OF u(3,4)] obtain w m' where "mst_strip_loop P car' c = Inr (tree_cid P w)" "mst_stored P car' w"
        "m' \<le> m" "wtree P False L m' w" "leaves w = leaves u" using u(2) by blast
      with u(1,5) made_tree [of P car' w False L m'] show "yields P L (?f car' c) (\<lambda>car c. \<exists>m \<le> n. made P False L m (del_leaf key (leaves t)) car c)"
        using le_trans by fastforce
    qed simp
  qed
  with eq ext r(3) show ?thesis by auto
qed

end

end
