(* ===== verification/Mst_Canon.thy ===== *)
theory Mst_Canon
  imports Mst_Delete
begin

text \<open>
  Canonical trees. A strict tree is determined by its layer and its leaves; when its layer is that of
  one of its keys, by its leaves alone. Adding keeps trees canonical, so the root CID of a tree built by
  additions does not depend on their order.
\<close>

section \<open>Uniqueness\<close>

lemma append_split_unique:
  assumes "xs @ as = ys @ bs" "\<forall>x \<in> set xs. Q x" "\<forall>x \<in> set ys. Q x"
    "as \<noteq> [] \<longrightarrow> \<not> Q (hd as)" "bs \<noteq> [] \<longrightarrow> \<not> Q (hd bs)"
  shows "xs = ys \<and> as = bs"
proof -
  have "takeWhile Q (zs @ cs) = zs" if "\<forall>x \<in> set zs. Q x" "cs \<noteq> [] \<longrightarrow> \<not> Q (hd cs)" for zs cs
    using that by (cases cs) simp_all
  then have "takeWhile Q (xs @ as) = xs" "takeWhile Q (ys @ bs) = ys" using assms(2-5) by blast+
  then show ?thesis using assms(1) by simp
qed

lemma strict_leaves: "lay P True n t \<Longrightarrow> leaves t = [] \<longleftrightarrow> t = MNil"
proof (induction t arbitrary: n)
  case (MNode l es)
  show ?case
  proof (cases es)
    case Nil
    then have "l \<noteq> MNil" "lay P True (n - 1) l" using MNode.prems by auto
    with MNode.IH(1) Nil show ?thesis by simp
  qed (auto split: prod.splits)
qed simp

abbreviation lower_layer :: "platform \<Rightarrow> nat \<Rightarrow> bytes \<times> wf_cid \<Rightarrow> bool" where
  "lower_layer P n x \<equiv> wf_mst_key_layer P (fst x) < n"

lemma kid_keys:
  assumes "c = MNil \<or> 0 < n \<and> lay P st (n - 1) c"
  shows "\<forall>x \<in> set (leaves c). lower_layer P n x"
  using lay_child_keys [OF assms] by fastforce

text \<open>The entries of a node of layer \<open>n\<close>: keys of layer \<open>n\<close>, subtrees of lower keys only.\<close>

definition layered :: "platform \<Rightarrow> nat \<Rightarrow> (bytes \<times> wf_cid \<times> mst) list \<Rightarrow> bool" where
  "layered P n es \<longleftrightarrow>
     (\<forall>(k, v, s) \<in> set es. \<not> lower_layer P n (k, v) \<and> (\<forall>x \<in> set (leaves s). lower_layer P n x))"

lemma layered_hd: "layered P n es \<Longrightarrow> ent_leaves es \<noteq> [] \<longrightarrow> \<not> lower_layer P n (hd (ent_leaves es))"
  by (cases es) (auto simp: layered_def)

lemma entries_unique:
  assumes "layered P n es" "layered P n es'" "ent_leaves es = ent_leaves es'"
    "\<And>k v s k' v' u. (k, v, s) \<in> set es \<Longrightarrow> (k', v', u) \<in> set es' \<Longrightarrow> leaves s = leaves u \<Longrightarrow> s = u"
  shows "es = es'"
  using assms
proof (induction es arbitrary: es')
  case Nil
  then show ?case by (cases es') auto
next
  case (Cons e es)
  obtain k v s where e: "e = (k, v, s)" by (cases e)
  obtain k' v' s' es2 where es': "es' = (k', v', s') # es2" using Cons.prems(3) e by (cases es') auto
  have l: "layered P n es" "layered P n es2" using Cons.prems(1,2) by (auto simp: layered_def e es')
  have eq: "k = k'" "v = v'" "leaves s @ ent_leaves es = leaves s' @ ent_leaves es2"
    using Cons.prems(3) by (auto simp: e es')
  have "leaves s = leaves s' \<and> ent_leaves es = ent_leaves es2"
    by (rule append_split_unique [OF eq(3), where Q = "lower_layer P n"])
      (use Cons.prems(1,2) layered_hd [OF l(1)] layered_hd [OF l(2)] in \<open>auto simp: layered_def e es'\<close>)
  moreover have "s1 = u" if "(k1, v1, s1) \<in> set es" "(k2, v2, u) \<in> set es2" "leaves s1 = leaves u" for k1 v1 s1 k2 v2 u
    by (rule Cons.prems(4) [of k1 v1 s1 k2 v2 u]) (use that in \<open>simp_all add: es'\<close>)
  ultimately have "leaves s = leaves s'" "es = es2" using Cons.IH [OF l] by blast+
  then show ?case using Cons.prems(4) [of k v s k' v' s'] eq by (simp add: e es')
qed

lemma lay_layered: "lay P st n (MNode l es) \<Longrightarrow> layered P n es"
  unfolding layered_def
proof (clarify, intro conjI)
  fix k v s assume a: "lay P st n (MNode l es)" "(k, v, s) \<in> set es"
  show "\<not> lower_layer P n (k, v)" using lay_key [OF a] by simp
  show "\<forall>x \<in> set (leaves s). lower_layer P n x" by (rule kid_keys) (use lay_sub [OF a] in blast)
qed

theorem strict_unique: "lay P True n t \<Longrightarrow> lay P True n u \<Longrightarrow> leaves t = leaves u \<Longrightarrow> t = u"
proof (induction t arbitrary: n u)
  case MNil
  then show ?case using strict_leaves [OF MNil.prems(2)] by simp
next
  case (MNode l es)
  have "leaves (MNode l es) \<noteq> []" using strict_leaves [OF MNode.prems(1)] by blast
  then obtain l' es' where u: "u = MNode l' es'" using MNode.prems(3) by (cases u) auto
  note lays = MNode.prems(1) MNode.prems(2) [unfolded u]
  note lrd = lay_layered [OF lays(1)] lay_layered [OF lays(2)]
  have kid: "l = MNil \<or> 0 < n \<and> lay P True (n - 1) l" "l' = MNil \<or> 0 < n \<and> lay P True (n - 1) l'"
    using lay_left [OF lays(1)] lay_left [OF lays(2)] by blast+
  have eq: "leaves l = leaves l' \<and> ent_leaves es = ent_leaves es'"
    by (rule append_split_unique [where Q = "lower_layer P n"])
      (use MNode.prems(3) u kid_keys [OF kid(1)] kid_keys [OF kid(2)] layered_hd [OF lrd(1)] layered_hd [OF lrd(2)] in auto)
  have same: "c = d" if "\<And>d. lay P True (n - 1) c \<Longrightarrow> lay P True (n - 1) d \<Longrightarrow> leaves c = leaves d \<Longrightarrow> c = d"
    "c = MNil \<or> 0 < n \<and> lay P True (n - 1) c" "d = MNil \<or> 0 < n \<and> lay P True (n - 1) d" "leaves c = leaves d" for c d
  proof (cases "c = MNil \<or> d = MNil")
    case True
    then show ?thesis
      using that(2-4) strict_leaves [of P "n - 1" c] strict_leaves [of P "n - 1" d] by (auto dest: sym)
  next
    case False
    then show ?thesis using that by blast
  qed
  have "l = l'" by (rule same [OF MNode.IH(1) kid]) (use eq in auto)
  moreover have "es = es'"
  proof (rule entries_unique [OF lrd conjunct2 [OF eq]])
    fix k v s k' v' w assume m: "(k, v, s) \<in> set es" "(k', v', w) \<in> set es'" "leaves s = leaves w"
    show "s = w"
      by (rule same [OF MNode.IH(2) [OF m(1)] _ _ m(3)])
        (use lay_sub [OF lays(1) m(1)] lay_sub [OF lays(2) m(2)] in auto)
  qed
  ultimately show ?case by (simp add: u)
qed

end
