(* ===== verification/Mst_Ops.thy ===== *)
theory Mst_Ops
  imports Mst_Canon Mst_Read
begin

text \<open>
  Sequences of additions and deletions from the empty tree, as a state machine over a CAR and a root,
  against the specification: a list of leaves in key order.
\<close>

section \<open>The machine\<close>

datatype mst_op = Put bytes wf_cid | Del bytes

text \<open>The status of an operation is \<open>None\<close> for \<^verbatim>\<open>WF_OK\<close>. A tree of layer at most 1024 has height at most 1025, which bounds the recursion of both operations.\<close>

definition mst_exec :: "platform \<Rightarrow> wf_car \<Rightarrow> wf_cid \<Rightarrow> mst_op \<Rightarrow> (wf_car \<times> wf_cid res) option" where
  "mst_exec P car root op =
     (case op of Put k v \<Rightarrow> wf_mst_add 1026 P car root k v | Del k \<Rightarrow> wf_mst_delete 1026 P car root k)"

inductive mst_reach :: "platform \<Rightarrow> (mst_op \<times> wf_status option) list \<Rightarrow> wf_car \<Rightarrow> wf_cid \<Rightarrow> bool"
  for P where
  reach_empty: "mst_reach P [] \<lparr>car_roots = [], car_blocks = []\<rparr> []"
| reach_ok: "mst_reach P tr car root \<Longrightarrow> mst_exec P car root op = Some (car', Inr root') \<Longrightarrow>
    mst_reach P (tr @ [(op, None)]) car' root'"
| reach_error: "mst_reach P tr car root \<Longrightarrow> mst_exec P car root op = Some (car', Inl e) \<Longrightarrow>
    mst_reach P (tr @ [(op, Some e)]) car' root"

section \<open>The specification\<close>

fun spec_op :: "(bytes \<times> wf_cid) list \<Rightarrow> mst_op \<Rightarrow> (bytes \<times> wf_cid) list \<times> wf_status option" where
  "spec_op ls (Put k v) =
     (if wf_mst_key_is_valid k then (ins_leaf k v ls, None) else (ls, Some WF_ERR_INVALID_ARG))"
| "spec_op ls (Del k) =
     (if k = [] then (ls, Some WF_ERR_INVALID_ARG)
      else if k \<in> fst ` set ls then (del_leaf k ls, None) else (ls, Some WF_ERR_NOT_FOUND))"

fun spec_run :: "(bytes \<times> wf_cid) list \<Rightarrow> mst_op list \<Rightarrow> (bytes \<times> wf_cid) list" where
  "spec_run ls [] = ls"
| "spec_run ls (op # ops) = spec_run (fst (spec_op ls op)) ops"

fun spec_statuses :: "(bytes \<times> wf_cid) list \<Rightarrow> mst_op list \<Rightarrow> wf_status option list" where
  "spec_statuses ls [] = []"
| "spec_statuses ls (op # ops) = snd (spec_op ls op) # spec_statuses (fst (spec_op ls op)) ops"

lemma spec_append [simp]:
  "spec_run ls (xs @ ys) = spec_run (spec_run ls xs) ys"
  "spec_statuses ls (xs @ ys) = spec_statuses ls xs @ spec_statuses (spec_run ls xs) ys"
  by (induction xs arbitrary: ls) auto

fun op_ok :: "mst_op \<Rightarrow> bool" where
  "op_ok (Put k v) \<longleftrightarrow> cid_ok v"
| "op_ok (Del k) \<longleftrightarrow> length k < 2 ^ 31"

fun op_leaf :: "mst_op \<Rightarrow> (bytes \<times> wf_cid) set" where
  "op_leaf (Put k v) = {(k, v)}"
| "op_leaf (Del k) = {}"

definition added :: "mst_op list \<Rightarrow> (bytes \<times> wf_cid) set" where
  "added ops = (\<Union>op \<in> set ops. op_leaf op)"

lemma length_spec_op: "length (fst (spec_op ls op)) \<le> Suc (length ls)"
proof (cases op)
  case (Put k v)
  have "length (ins_leaf k v ls) \<le> Suc (length ls)"
    using sum_length_filter_compl [of "\<lambda>x. fst x < k" ls] by (auto simp: ins_leaf_def)
  then show ?thesis by (simp add: Put)
qed (auto simp: del_leaf_def le_SucI)

lemma length_spec_run: "length (spec_run ls ops) \<le> length ls + length ops"
proof (induction ops arbitrary: ls)
  case (Cons op ops)
  from Cons.IH [of "fst (spec_op ls op)"] length_spec_op [of ls op] show ?case by simp
qed simp

section \<open>Independence of the order\<close>

fun is_put :: "mst_op \<Rightarrow> bool" where
  "is_put (Put k v) \<longleftrightarrow> wf_mst_key_is_valid k \<and> cid_ok v"
| "is_put (Del k) \<longleftrightarrow> False"

fun op_key :: "mst_op \<Rightarrow> bytes" where
  "op_key (Put k v) = k"
| "op_key (Del k) = k"

lemma sorted_keys_unique: "keys_sorted xs \<Longrightarrow> keys_sorted ys \<Longrightarrow> set xs = set ys \<Longrightarrow> xs = ys"
  by (rule sorted_map_unique)

lemma spec_puts:
  "\<forall>op \<in> set ops. is_put op \<Longrightarrow> distinct (map op_key ops) \<Longrightarrow> fst ` set ls \<inter> op_key ` set ops = {} \<Longrightarrow>
     set (spec_run ls ops) = set ls \<union> added ops"
proof (induction ops arbitrary: ls)
  case (Cons op ops)
  then obtain k v where op: "op = Put k v" "wf_mst_key_is_valid k" by (cases op) auto
  with Cons.prems(3) have "k \<notin> fst ` set ls" by auto
  then have "set (ins_leaf k v ls) = insert (k, v) (set ls)" by (auto simp: ins_leaf_def)
  moreover have "fst ` set (ins_leaf k v ls) \<inter> op_key ` set ops = {}"
    using Cons.prems(2,3) op(1) unfolding ins_leaf_keys by auto
  ultimately show ?case using Cons.IH [of "ins_leaf k v ls"] Cons.prems op by (auto simp: added_def)
qed (simp add: added_def)

section \<open>Simulation\<close>

definition canon_root :: "platform \<Rightarrow> (bytes \<times> wf_cid) set \<Rightarrow> wf_car \<Rightarrow> wf_cid \<Rightarrow> (bytes \<times> wf_cid) list \<Rightarrow> bool" where
  "canon_root P L car root ls \<longleftrightarrow>
     (\<exists>n. made P True L n ls car root \<and> (ls \<noteq> [] \<longrightarrow> n \<in> wf_mst_key_layer P ` fst ` set ls))"

text \<open>A root refines a list of leaves: it names a stored tree with these leaves.\<close>

definition refines :: "platform \<Rightarrow> (bytes \<times> wf_cid) set \<Rightarrow> wf_car \<Rightarrow> wf_cid \<Rightarrow> (bytes \<times> wf_cid) list \<Rightarrow> bool" where
  "refines P L car root ls \<longleftrightarrow> (\<exists>n. made P False L n ls car root)"

text \<open>Both operations are such steps.\<close>

context car_step
begin

lemma step_add_some: "wf_mst_add fuel P car root k v = Some r \<Longrightarrow> R P car (fst r)"
proof (induction fuel arbitrary: car root r)
  case (Suc fuel)
  have low: "R P car (fst r')" if "mst_add_at_lower_layer fuel P car node k v K = Some r'" for node K r'
    using that Suc.IH
    by (auto simp: Let_def split: if_splits option.splits
        intro!: step_and_then step_raise_subtree step_add_lower_finish)
  show ?case
    using Suc.prems low
    by (auto simp: Let_def step_write step_add_at_layer step_add_at_higher_layer simp del: mst_add_at_lower_layer.simps
        split: if_splits sum.splits)
qed simp

lemma step_delete_rec_some: "mst_delete_recursive fuel P car node k K = Some r \<Longrightarrow> R P car (fst r)"
proof (induction fuel arbitrary: node r K)
  case (Suc fuel)
  from Suc.prems show ?case
    by (auto simp: Let_def split: if_splits sum.splits option.splits
        intro!: step_and_then step_delete_at_layer step_replace_child dest: Suc.IH)
qed simp

lemma step_delete_some: "wf_mst_delete fuel P car root k = Some r \<Longrightarrow> R P car (fst r)"
  by (auto simp: wf_mst_delete_def Let_def split: if_splits sum.splits option.splits
      intro!: step_and_then dest: step_delete_rec_some)

lemma step_exec: "mst_exec P car root op = Some r \<Longrightarrow> R P car (fst r)"
  by (cases op) (auto simp: mst_exec_def dest: step_add_some step_delete_some)

end

lemmas ext_add_some = ext.step_add_some
  and ext_delete_rec_some = ext.step_delete_rec_some
  and ext_delete_some = ext.step_delete_some
  and ext_exec = ext.step_exec

context platform_laws
begin

lemma exec_refines:
  assumes "refines P L car root ls" "op_ok op" "op_leaf op \<subseteq> L" "Suc (length ls) < 2 ^ 64"
  shows "\<exists>r. mst_exec P car root op = Some r \<and> car_ext car (fst r) \<and>
    (collision_free P (fst r) L \<longrightarrow>
      (case spec_op ls op of
         (ls', None) \<Rightarrow> \<exists>root'. snd r = Inr root' \<and> refines P L (fst r) root' ls'
       | (ls', Some e) \<Rightarrow> r = (car, Inl e) \<and> ls' = ls))"
proof -
  from assms(1) obtain n t where t: "root = tree_cid P t" "mst_stored P car t" "wtree P False L n t" "leaves t = ls"
    by (auto simp: refines_def elim: madeE)
  have n: "n \<le> 1024" and lay: "lay P False n t" and ok: "leaves_ok ls" using t(3,4) by (auto simp: wtree_def)
  have h: "height t \<le> 1025" using lay_height [OF lay] n by simp
  show ?thesis
  proof (cases op)
    case (Put k v)
    show ?thesis
    proof (cases "wf_mst_key_is_valid k")
      case True
      have "leaves_ok (ins_leaf k v (leaves t))" using leaves_ok_ins [OF ok True] assms(2,4) Put t(4) by simp
      with add_made [OF t(2,3) _ True, of 1026 v] assms(3) h Put obtain r where
        r: "wf_mst_add 1026 P car root k v = Some r" "car_ext car (fst r)"
        "yields P L r (made P False L (add_layer n t (wf_mst_key_layer P k)) (ins_leaf k v ls))"
        using t(1,4) by auto
      then show ?thesis using True by (auto simp: mst_exec_def Put yields_def refines_def)
    next
      case False
      then have "wf_mst_add 1026 P car root k v = Some (car, Inl WF_ERR_INVALID_ARG)"
        by (simp add: numeral_eq_Suc)
      then show ?thesis using False by (simp add: mst_exec_def Put)
    qed
  next
    case (Del k)
    show ?thesis
    proof (cases "k = [] \<or> t = MNil")
      case True
      then show ?thesis using t by (auto simp: mst_exec_def Del wf_mst_delete_def)
    next
      case False
      then obtain r where r: "wf_mst_delete 1026 P car root k = Some r" "car_ext car (fst r)"
        "if k \<in> fst ` set ls then yields P L r (\<lambda>car c. \<exists>m \<le> n. made P False L m (del_leaf k ls) car c)
         else r = (car, Inl WF_ERR_NOT_FOUND)"
        using delete_made [OF t(2,3), of 1026 k] h assms(2) t(1,4) Del by auto
      then show ?thesis using False
        by (cases "k \<in> fst ` set ls") (auto simp: mst_exec_def Del yields_def refines_def)
    qed
  qed
qed

theorem reach_refines:
  assumes "mst_reach P tr car root" "\<forall>op \<in> set (map fst tr). op_ok op" "added (map fst tr) \<subseteq> L"
    "length tr < 2 ^ 64" "collision_free P car L"
  shows "refines P L car root (spec_run [] (map fst tr)) \<and> map snd tr = spec_statuses [] (map fst tr)"
  using assms
proof (induction rule: mst_reach.induct)
  case reach_empty
  show ?case using made_empty [of 0] by (auto simp: refines_def intro!: exI [of _ 0])
next
  case (reach_ok tr car root op car' root')
  let ?ls = "spec_run [] (map fst tr)"
  have pre: "op_ok op" "op_leaf op \<subseteq> L" "added (map fst tr) \<subseteq> L" "Suc (length ?ls) < 2 ^ 64"
    using reach_ok.prems length_spec_run [of "[]" "map fst tr"] by (auto simp: added_def)
  have ext: "car_ext car car'"
    using ext_exec [OF reach_ok.hyps(2)] by simp
  have IH: "refines P L car root ?ls" "map snd tr = spec_statuses [] (map fst tr)"
    using reach_ok.IH reach_ok.prems pre(3) collision_free_ext [OF reach_ok.prems(4) ext] by auto
  from exec_refines [OF IH(1) pre(1,2,4)] reach_ok.hyps(2) reach_ok.prems(4) IH(2) show ?case
    by (auto split: prod.splits option.splits)
next
  case (reach_error tr car root op car' e)
  let ?ls = "spec_run [] (map fst tr)"
  have pre: "op_ok op" "op_leaf op \<subseteq> L" "added (map fst tr) \<subseteq> L" "Suc (length ?ls) < 2 ^ 64"
    using reach_error.prems length_spec_run [of "[]" "map fst tr"] by (auto simp: added_def)
  have ext: "car_ext car car'"
    using ext_exec [OF reach_error.hyps(2)] by simp
  have IH: "refines P L car root ?ls" "map snd tr = spec_statuses [] (map fst tr)"
    using reach_error.IH reach_error.prems pre(3) collision_free_ext [OF reach_error.prems(4) ext] by auto
  from exec_refines [OF IH(1) pre(1,2,4)] reach_error.hyps(2) reach_error.prems(4) IH show ?case
    by (auto split: prod.splits option.splits)
qed

section \<open>Reading a refined root\<close>

lemma refines_rep:
  assumes "refines P L car root ls"
  obtains t where "mst_rep P car root t" "leaves t = ls" "height t \<le> 1025" "keys_sorted ls" "leaves_ok ls"
proof -
  from assms obtain n t where t: "root = tree_cid P t" "mst_stored P car t" "lay P False n t" "leaves t = ls" "wtree P False L n t"
    by (auto simp: refines_def elim: madeE)
  have "height t \<le> 1025" using lay_height [OF t(3)] t(5) by (auto simp: wtree_def)
  moreover have "leaves_ok (leaves t)" using t(5) by (simp add: wtree_def)
  ultimately show ?thesis using that [of t] stored_rep [OF t(2)] t(1,4) by (simp add: leaves_ok_def)
qed

lemma refines_list: "refines P L car root ls \<Longrightarrow> wf_mst_list P car root = Inr ls"
proof -
  assume "refines P L car root ls"
  then obtain t where t: "mst_rep P car root t" "leaves t = ls" "height t \<le> 1025" by (rule refines_rep)
  show ?thesis
    using mst_collect_rep [OF t(1) _ t(3), of None] t(1,2)
    by (cases "root = []") (auto simp: wf_mst_list_def split_beta)
qed

lemma refines_find:
  assumes "refines P L car root ls" "root \<noteq> []" "key \<noteq> []" "length key < 2 ^ 31"
  shows "wf_mst_find P car root key = (case map_of ls key of None \<Rightarrow> Inl WF_ERR_NOT_FOUND | Some v \<Rightarrow> Inr v)"
proof -
  from assms(1) obtain t where t: "mst_rep P car root t" "leaves t = ls" "height t \<le> 1025" "keys_sorted ls"
    by (rule refines_rep)
  from mst_find_rep [OF t(1) assms(2) _ t(3) assms(3,4)] t(2,4) show ?thesis by simp
qed

section \<open>Additions only\<close>

lemma canonical_unique:
  assumes "canon_root P L car root ls" "canon_root P L' car' root' ls"
  shows "root = root'"
proof -
  from assms(1) obtain n t where t: "root = tree_cid P t" "lay P True n t" "leaves t = ls"
    "ls \<noteq> [] \<longrightarrow> n \<in> wf_mst_key_layer P ` fst ` set ls" by (auto simp: canon_root_def elim!: madeE)
  from assms(2) obtain m u where u: "root' = tree_cid P u" "lay P True m u" "leaves u = ls"
    "ls \<noteq> [] \<longrightarrow> m \<in> wf_mst_key_layer P ` fst ` set ls" by (auto simp: canon_root_def elim!: madeE)
  show ?thesis
  proof (cases "ls = []")
    case True
    then show ?thesis using strict_leaves [OF t(2)] strict_leaves [OF u(2)] t(1,3) u(1,3) by simp
  next
    case False
    then obtain k where k: "k \<in> fst ` set ls" "n = wf_mst_key_layer P k" using t(4) by blast
    from False obtain k' where k': "k' \<in> fst ` set ls" "m = wf_mst_key_layer P k'" using u(4) by blast
    from k(1) obtain v where "(k, v) \<in> set ls" by auto
    moreover from k'(1) obtain v' where "(k', v') \<in> set ls" by auto
    ultimately have "n \<le> m" "m \<le> n"
      using lay_keys_le [OF u(2), of k v] lay_keys_le [OF t(2), of k' v'] t(3) u(3) k(2) k'(2) by auto
    then have "n = m" by simp
    then have "t = u" by (intro strict_unique [OF t(2)]) (simp_all add: t(3) u(2,3))
    then show ?thesis by (simp add: t(1) u(1))
  qed
qed

lemma put_canonical:
  assumes "canon_root P L car root ls" "is_put op" "op_leaf op \<subseteq> L" "Suc (length ls) < 2 ^ 64"
    "mst_exec P car root op = Some r" "collision_free P (fst r) L"
  shows "\<exists>root'. snd r = Inr root' \<and> canon_root P L (fst r) root' (fst (spec_op ls op))"
proof -
  from assms(2) obtain k v where op: "op = Put k v" "wf_mst_key_is_valid k" "cid_ok v" by (cases op) auto
  from assms(1) obtain n t where t: "root = tree_cid P t" "mst_stored P car t" "lay P True n t" "leaves t = ls" "wtree P True L n t"
    and n: "ls \<noteq> [] \<longrightarrow> n \<in> wf_mst_key_layer P ` fst ` set ls" by (auto simp: canon_root_def elim!: madeE)
  have "height t < 1026" using lay_height [OF t(3)] t(5) by (simp add: wtree_def)
  moreover have "leaves_ok (ins_leaf k v (leaves t))"
    using leaves_ok_ins [of ls k v] op(2,3) assms(4) t(4,5) by (simp add: wtree_def)
  ultimately have "yields P L r (made P True L (add_layer n t (wf_mst_key_layer P k)) (ins_leaf k v ls))"
    using add_made [OF t(2,5) _ op(2), of 1026 v] assms(3,5) op(1) t(1,4) by (auto simp: mst_exec_def)
  with assms(6) obtain root' where root': "snd r = Inr root'"
    "made P True L (add_layer n t (wf_mst_key_layer P k)) (ins_leaf k v ls) (fst r) root'" by (auto simp: yields_def)
  moreover have "add_layer n t (wf_mst_key_layer P k) \<in> wf_mst_key_layer P ` fst ` set (ins_leaf k v ls)"
    unfolding ins_leaf_keys using n strict_leaves [OF t(3)] t(4) by (auto simp: add_layer_def max_def)
  ultimately show ?thesis using op(1,2) by (auto simp: canon_root_def)
qed

theorem reach_canonical:
  assumes "mst_reach P tr car root" "\<forall>op \<in> set (map fst tr). is_put op" "added (map fst tr) \<subseteq> L"
    "length tr < 2 ^ 64" "collision_free P car L"
  shows "canon_root P L car root (spec_run [] (map fst tr))"
  using assms
proof (induction rule: mst_reach.induct)
  case reach_empty
  show ?case using made_empty [of 0] by (auto simp: canon_root_def intro!: exI [of _ 0])
next
  case (reach_ok tr car root op car' root')
  have pre: "is_put op" "op_leaf op \<subseteq> L" "Suc (length (spec_run [] (map fst tr))) < 2 ^ 64"
    using reach_ok.prems length_spec_run [of "[]" "map fst tr"] by (auto simp: added_def)
  have "collision_free P car L" using collision_free_ext [OF reach_ok.prems(4)] ext_exec [OF reach_ok.hyps(2)] by simp
  then have "canon_root P L car root (spec_run [] (map fst tr))" using reach_ok.IH reach_ok.prems by (auto simp: added_def)
  from put_canonical [OF this pre reach_ok.hyps(2)] reach_ok.prems(4) show ?case by auto
next
  case (reach_error tr car root op car' e)
  have pre: "is_put op" "op_leaf op \<subseteq> L" "Suc (length (spec_run [] (map fst tr))) < 2 ^ 64"
    using reach_error.prems length_spec_run [of "[]" "map fst tr"] by (auto simp: added_def)
  have "collision_free P car L" using collision_free_ext [OF reach_error.prems(4)] ext_exec [OF reach_error.hyps(2)] by simp
  then have "canon_root P L car root (spec_run [] (map fst tr))" using reach_error.IH reach_error.prems by (auto simp: added_def)
  from put_canonical [OF this pre reach_error.hyps(2)] reach_error.prems(4) show ?case by auto
qed

end

end
