(* ===== verification/Mst_Example.thy ===== *)
theory Mst_Example
  imports Mst_Shape
begin

text \<open>
  A concrete platform and concrete trees for the witnesses. Its hash tells three node blocks apart
  from every other input, which is all that the witnesses need of collision freedom; every key has
  layer 0.
\<close>

definition ex_value :: wf_cid where
  "ex_value = wf_cid_from_hash (replicate 32 7)"

definition ex_entry :: "bytes \<Rightarrow> wf_mst_entry" where
  "ex_entry k = \<lparr>ent_key = k, ent_value = ex_value, ent_subtree = []\<rparr>"

definition ka :: bytes where "ka = ascii ''a/a''"
definition kb :: bytes where "kb = ascii ''a/b''"
definition kc :: bytes where "kc = ascii ''b/c''"

definition ex_sha :: "bytes \<Rightarrow> bytes" where
  "ex_sha d =
     (if d = node_bytes [] [ex_entry ka] then replicate 32 0xf1
      else if d = node_bytes [] [ex_entry kb] then replicate 32 0xf2
      else if d = node_bytes [] [ex_entry ka, ex_entry kb] then replicate 32 0xf3
      else replicate 32 0xff)"

definition ex_plat :: platform where
  "ex_plat = ref_platform ex_sha"

interpretation ex: platform_laws ex_plat
  unfolding ex_plat_def by (rule ref_platform_laws) (simp add: ex_sha_def)

lemma ex_sha: "SHA256 ex_plat d = ex_sha d"
  by (simp add: ex_plat_def ref_platform_def)

lemma ex_keys: "wf_mst_key_is_valid ka" "wf_mst_key_is_valid kb" "wf_mst_key_is_valid kc"
  by code_simp+

lemma ex_keys_less: "ka < kb" "kb < kc" "ka < kc"
  by code_simp+

lemma ex_value_ok: "cid_ok ex_value"
  unfolding ex_value_def wf_cid_from_hash_def by (rule cid_ok_from_hash_codec) auto

lemma ex_nodes_ok: "node_ok [] [ex_entry ka]" "node_ok [] [ex_entry kb]" "node_ok [] [ex_entry ka, ex_entry kb]"
  by (auto simp: node_ok_def entry_ok_def ex_entry_def ex_keys ex_value_ok ex_keys_less)

lemma ex_nodes_differ:
  "node_bytes [] [ex_entry ka] \<noteq> node_bytes [] [ex_entry kb]"
  "node_bytes [] [ex_entry ka] \<noteq> node_bytes [] [ex_entry ka, ex_entry kb]"
  "node_bytes [] [ex_entry kb] \<noteq> node_bytes [] [ex_entry ka, ex_entry kb]"
  using ex.node_bytes_inject [OF ex_nodes_ok(1,2)] ex.node_bytes_inject [OF ex_nodes_ok(1,3)]
    ex.node_bytes_inject [OF ex_nodes_ok(2,3)] ex_keys_less by (auto simp: ex_entry_def)

section \<open>A tree of two levels\<close>

definition ex_low :: mst where
  "ex_low = MNode MNil [(ka, ex_value, MNil)]"

definition ex_tree :: mst where
  "ex_tree = MNode ex_low [(kb, ex_value, MNil), (kc, ex_value, MNil)]"

definition ex_block :: "mst \<Rightarrow> wf_car_block" where
  "ex_block t = \<lparr>blk_cid = tree_cid ex_plat t, blk_data = tree_bytes ex_plat t\<rparr>"

definition ex_car :: wf_car where
  "ex_car = \<lparr>car_roots = [tree_cid ex_plat ex_tree], car_blocks = [ex_block ex_low, ex_block ex_tree]\<rparr>"

definition ex_root :: wf_cid where
  "ex_root = tree_cid ex_plat ex_tree"

lemma ex_leaves: "leaves ex_tree = [(ka, ex_value), (kb, ex_value), (kc, ex_value)]"
  "leaves ex_low = [(ka, ex_value)]"
  by (simp_all add: ex_tree_def ex_low_def)

lemma ex_leaves_ok: "leaves_ok (leaves ex_tree)"
  by (simp add: ex_leaves leaves_ok_def ex_keys ex_value_ok ex_keys_less)

lemma ex_cids_differ: "tree_cid ex_plat ex_low \<noteq> tree_cid ex_plat ex_tree"
proof -
  have ok: "node_ok (tree_cid ex_plat ex_low) (tree_entries ex_plat [(kb, ex_value, MNil), (kc, ex_value, MNil)])"
    using ex_leaves_ok unfolding ex_tree_def by (rule ex.node_ok_tree)
  have ne: "tree_cid ex_plat ex_low \<noteq> []" by (simp add: ex_low_def)
  have "tree_bytes ex_plat ex_tree \<noteq> node_bytes [] [ex_entry ka]"
    using ex.node_bytes_inject [OF ok ex_nodes_ok(1)] ne by (auto simp: ex_tree_def tree_bytes.simps)
  moreover have "tree_bytes ex_plat ex_low = node_bytes [] [ex_entry ka]"
    by (simp add: ex_low_def tree_bytes.simps ex_entry_def)
  ultimately have "ex_sha (tree_bytes ex_plat ex_low) \<noteq> ex_sha (tree_bytes ex_plat ex_tree)"
    by (simp add: ex_sha_def)
  then show ?thesis
    by (simp add: ex_low_def ex_tree_def tree_cid_Node wf_cid_from_hash_def wf_cid_from_hash_codec_def
        ex_sha) (simp add: ex_sha_def split: if_splits)
qed

lemma ex_stored: "mst_stored ex_plat ex_car ex_tree"
proof -
  have "wf_car_find_block ex_car (tree_cid ex_plat ex_low) = Some (ex_block ex_low)"
    "wf_car_find_block ex_car (tree_cid ex_plat ex_tree) = Some (ex_block ex_tree)"
    using ex_cids_differ by (auto simp: wf_car_find_block_eq ex_car_def ex_block_def)
  moreover from this(1) have "mst_stored ex_plat ex_car ex_low"
    by (simp add: ex_low_def ex_block_def)
  ultimately show ?thesis by (auto simp: ex_tree_def ex_block_def)
qed

lemma ex_rep: "mst_rep ex_plat ex_car ex_root ex_tree"
  unfolding ex_root_def by (rule ex.stored_rep [OF ex_stored ex_leaves_ok])

lemma ex_root_nonempty: "ex_root \<noteq> []"
  by (simp add: ex_root_def ex_tree_def)

lemma ex_sorted: "keys_sorted (leaves ex_tree)" "height ex_tree \<le> 1025"
  using ex_keys_less by (simp_all add: ex_leaves) (simp add: ex_tree_def ex_low_def)

lemma ex_key_facts: "ka \<noteq> []" "length ka < 2 ^ 31"
  by (simp_all add: ka_def ascii_def)

end
