(* ===== verification/Mst_Props.thy ===== *)
theory Mst_Props
  imports Mst_Example
begin

text \<open>
  Properties of the reading side of the Merkle search tree: node parsing, lookup, the ordered walk
  and the listings built on it, counting, and paths as proofs. They hold for every CAR whose blocks
  represent a tree with ascending keys; the witnesses use a stored tree of two levels.
\<close>

text \<open>A node that \<open>wf_mst_node_finalize\<close> serialises is read back by \<open>wf_mst_node_parse\<close> with the same
  left link and the same entries: the prefix compression of the keys, the optional subtree links and
  the DAG-CBOR maps are all inverted, and the layer is that of the first key.\<close>

theorem mst_node_roundtrip:
  assumes "platform_laws P" "node_ok left ents"
  shows "\<exists>d. wf_cbor_serialize (mst_node_item left ents) = Some d \<and>
    wf_mst_node_parse P d cid =
      Inr \<lparr>node_cid = cid, node_layer = entries_layer P ents, node_left = left, node_entries = ents\<rparr>"
  using platform_laws.serialize_node [OF assms] platform_laws.parse_node_bytes [OF assms] by blast

theorem mst_node_roundtrip_witness:
  "\<exists>d. wf_cbor_serialize (mst_node_item [] [ex_entry ka, ex_entry kb]) = Some d \<and>
    wf_mst_node_parse ex_plat d [] =
      Inr \<lparr>node_cid = [], node_layer = entries_layer ex_plat [ex_entry ka, ex_entry kb], node_left = [],
           node_entries = [ex_entry ka, ex_entry kb]\<rparr>"
  by (rule mst_node_roundtrip [OF ex.platform_laws_axioms ex_nodes_ok(3)])

text \<open>Lookup is correct and always ends with an answer: on a CAR that represents a tree with ascending
  keys, \<open>wf_mst_find\<close> returns the value bound to the key, or \<open>WF_ERR_NOT_FOUND\<close> when there is none; the
  step guard never fires.\<close>

theorem mst_find_correct:
  assumes "mst_rep P car root t" "root \<noteq> []" "keys_sorted (leaves t)" "height t \<le> 1025"
    "key \<noteq> []" "length key < 2 ^ 31"
  shows "wf_mst_find P car root key =
    (case map_of (leaves t) key of None \<Rightarrow> Inl WF_ERR_NOT_FOUND | Some v \<Rightarrow> Inr v)"
  using assms by (rule mst_find_rep)

theorem mst_find_correct_witness: "wf_mst_find ex_plat ex_car ex_root ka = Inr ex_value"
  using mst_find_correct [OF ex_rep ex_root_nonempty ex_sorted ex_key_facts] by (simp add: ex_leaves)

text \<open>The walk calls the callback on exactly the leaves at or after \<open>from_key\<close>, in ascending order,
  threads the context through the calls and stops at the first error.\<close>

theorem mst_walk_correct:
  assumes "mst_rep P car root t" "height t \<le> 1025"
  shows "wf_mst_walk_from P car root from_key cb ctx =
    run_cb cb ctx (filter (\<lambda>(k, v). case from_key of None \<Rightarrow> True | Some f \<Rightarrow> 0 \<le> wf_mst_key_cmp k f) (leaves t))"
proof -
  have eq: "(\<lambda>(k, v). case from_key of None \<Rightarrow> True | Some f \<Rightarrow> 0 \<le> wf_mst_key_cmp k f) = from_ok from_key"
    by (auto simp: fun_eq_iff from_ok_def split: option.splits)
  show ?thesis
    unfolding eq using walk_node_rep [OF assms(1) _ room_root [OF assms]] assms(1)
    by (cases "root = []") (auto simp: wf_mst_walk_from_def)
qed

theorem mst_walk_correct_witness:
  "wf_mst_walk_from ex_plat ex_car ex_root None (\<lambda>n k v. (n + 1, Inr ())) (0 :: nat) = (3, Inr ())"
  using mst_walk_correct [OF ex_rep ex_sorted(2), of None "\<lambda>n k v. (n + 1, Inr ())" "0 :: nat"]
  by (simp add: ex_leaves)

text \<open>Listing a collection returns the leaves whose key is the collection, a slash and a rest, in
  order; listing everything returns all leaves.\<close>

theorem mst_paths_correct:
  assumes "mst_rep P car root t" "height t \<le> 1025" "coll \<noteq> []"
  shows "wf_mst_list P car root = Inr (leaves t) \<and>
    wf_mst_paths P car root coll = Inr (filter (\<lambda>(k, v). \<exists>r. k = coll @ 47 # r) (leaves t))"
proof (cases "root = []")
  case True
  then show ?thesis using assms by (simp add: wf_mst_list_def wf_mst_paths_def)
next
  case False
  have "filter (\<lambda>(k, v). True) (leaves t) = leaves t" by (simp add: split_beta)
  with mst_collect_rep [OF assms(1) False assms(2)] False assms(3) show ?thesis
    by (simp add: wf_mst_list_def wf_mst_paths_def)
qed

theorem mst_paths_correct_witness:
  "wf_mst_list ex_plat ex_car ex_root = Inr [(ka, ex_value), (kb, ex_value), (kc, ex_value)]"
  using mst_paths_correct [OF ex_rep ex_sorted(2), of "[97]"] by (simp add: ex_leaves)

text \<open>C31: the node path returned for a key is a proof of its presence or absence: it starts at the root,
  the leaf CID is the value bound to the key (empty when absent), and any CAR that agrees on the blocks
  of the path answers the lookup exactly as the full CAR does.\<close>

theorem mst_path_is_proof:
  assumes "mst_rep P car root t" "root \<noteq> []" "keys_sorted (leaves t)" "height t \<le> 1025"
    "key \<noteq> []" "length key < 2 ^ 31"
  shows "\<exists>path. wf_mst_cids_for_path P car root key =
      Inr (root # path, case map_of (leaves t) key of None \<Rightarrow> [] | Some v \<Rightarrow> v) \<and>
    (\<forall>car'. (\<forall>c \<in> set (root # path). wf_car_find_block car' c = wf_car_find_block car c) \<longrightarrow>
       wf_mst_find P car' root key = wf_mst_find P car root key)"
  using assms by (rule cids_for_path_rep)

theorem mst_path_is_proof_witness:
  "\<exists>path. wf_mst_cids_for_path ex_plat ex_car ex_root ka = Inr (ex_root # path, ex_value)"
  using mst_path_is_proof [OF ex_rep ex_root_nonempty ex_sorted ex_key_facts] by (auto simp: ex_leaves)

text \<open>Counting leaves in a range counts exactly the leaves in the range.\<close>

theorem mst_count_correct:
  assumes "mst_rep P car root t" "height t \<le> 1025"
  shows "mst_count_in_range P car from_key to_key root 0 =
    Inr (length (filter (\<lambda>l. key_in_range from_key to_key (fst l)) (leaves t)))"
  using assms(1) room_root [OF assms] by (rule count_in_range_rep)

theorem mst_count_correct_witness: "mst_count_in_range ex_plat ex_car ka None ex_root 0 = Inr 3"
proof -
  have "key_in_range ka None ka" "key_in_range ka None kb" "key_in_range ka None kc" by code_simp+
  then show ?thesis using mst_count_correct [OF ex_rep ex_sorted(2), of ka None] by (simp add: ex_leaves)
qed

lemma ascend_sorted:
  "mst_keys_ascend es \<Longrightarrow> \<forall>e \<in> set es. length (ent_key e) < 2 ^ 31 \<Longrightarrow> sorted_wrt (<) (map ent_key es)"
proof (induction es rule: mst_keys_ascend.induct)
  case (1 a b es)
  then have "ent_key a < ent_key b" by (simp add: wf_mst_key_cmp_def not_le key_cmp_less)
  moreover have "sorted_wrt (<) (map ent_key (b # es))" using 1 by simp
  ultimately show ?case by (auto intro: less_trans)
qed auto

lemma link36_length: "length (link36 it) \<in> {0, 36}"
  by (auto simp: link36_def split: option.split wf_cbor_item.split)

lemma parse_entries_links: "mst_parse_entries prev items = Inr ents \<Longrightarrow> \<forall>e \<in> set ents. length (ent_subtree e) \<in> {0, 36}"
proof (induction items arbitrary: prev ents)
  case (Cons entry items)
  from Cons.prems show ?case
    using link36_length [of "wf_cbor_map_find entry (ascii ''t'')"]
    by (fastforce simp: Let_def split: option.splits wf_cbor_item.splits if_splits sum.splits dest: Cons.IH)
qed simp

lemma node_parse_links:
  "wf_mst_node_parse P d c = Inr node \<Longrightarrow> length (node_left node) \<in> {0, 36} \<and> (\<forall>e \<in> set (node_entries node). length (ent_subtree e) \<in> {0, 36})"
  using link36_length parse_entries_links
  by (fastforce simp: wf_mst_node_parse_def Let_def split: option.splits wf_cbor_item.splits if_splits sum.splits)

text \<open>C39: what the node parser returns is well typed, whatever the bytes: the keys are repository keys in
  strictly ascending order, the values and the links that are present are CIDs of 36 bytes, and the layer is
  that of the first key.\<close>

theorem mst_node_typed:
  assumes "wf_mst_node_parse P d c = Inr node"
  shows "node_cid node = c \<and> sorted_wrt (<) (map ent_key (node_entries node)) \<and>
    (\<forall>e \<in> set (node_entries node). wf_mst_key_is_valid (ent_key e) \<and> length (ent_value e) = 36 \<and> length (ent_subtree e) \<in> {0, 36}) \<and>
    length (node_left node) \<in> {0, 36} \<and> node_layer node = entries_layer P (node_entries node)"
proof -
  note ok = node_parse_ok [OF assms]
  have short: "\<forall>e \<in> set (node_entries node). length (ent_key e) < 2 ^ 31" using ok(1) key_valid_length by (fastforce simp: list_all_iff)
  have "sorted_wrt (<) (map ent_key (node_entries node))" using ascend_sorted [OF ok(3) short] .
  then show ?thesis using ok node_parse_links [OF assms] by (auto simp: list_all_iff entries_layer_def)
qed

theorem mst_node_typed_witness:
  "wf_mst_node_parse ex_plat (node_bytes [] [ex_entry ka, ex_entry kb]) ex_value =
     Inr \<lparr>node_cid = ex_value, node_layer = entries_layer ex_plat [ex_entry ka, ex_entry kb], node_left = [], node_entries = [ex_entry ka, ex_entry kb]\<rparr> \<and>
   ent_key (ex_entry ka) < ent_key (ex_entry kb)"
  using mst_node_typed [OF ex.parse_node_bytes [OF ex_nodes_ok(3)]] ex.parse_node_bytes [OF ex_nodes_ok(3)] by simp

end
