(* ===== verification/Mst_Ops_Props.thy ===== *)
theory Mst_Ops_Props
  imports Mst_Ops Mst_Props
begin

text \<open>
  Properties of the writing side of the Merkle search tree: addition, deletion, and sequences of both
  refine an ordered map, and the root of a tree built by additions depends on its content only. The
  witnesses add two keys of layer 0 in both orders and delete one.
\<close>

section \<open>Two additions on the example platform\<close>

definition ex_empty :: wf_car where
  "ex_empty = \<lparr>car_roots = [], car_blocks = []\<rparr>"

definition ex_node :: "bytes list \<Rightarrow> mst" where
  "ex_node ks = MNode MNil (map (\<lambda>k. (k, ex_value, MNil)) ks)"

definition ex_cars :: "bytes list list \<Rightarrow> wf_car" where
  "ex_cars kss = \<lparr>car_roots = [], car_blocks = map (\<lambda>ks. ex_block (ex_node ks)) kss\<rparr>"

lemma ex_node_bytes: "tree_bytes ex_plat (ex_node ks) = node_bytes [] (map ex_entry ks)"
  by (simp add: ex_node_def tree_bytes.simps ex_entry_def [abs_def] tree_entries_def comp_def)

lemma ex_node_hash:
  "ex_sha (node_bytes [] [ex_entry ka]) = replicate 32 0xf1"
  "ex_sha (node_bytes [] [ex_entry kb]) = replicate 32 0xf2"
  "ex_sha (node_bytes [] [ex_entry ka, ex_entry kb]) = replicate 32 0xf3"
  using ex_nodes_differ by (auto simp: ex_sha_def)

lemma ex_node_cid: "tree_cid ex_plat (ex_node ks) = wf_cid_from_hash (ex_sha (node_bytes [] (map ex_entry ks)))"
proof -
  have "tree_cid ex_plat (ex_node ks) = wf_cid_from_hash (SHA256 ex_plat (tree_bytes ex_plat (ex_node ks)))"
    unfolding ex_node_def by (rule tree_cid_Node)
  then show ?thesis by (simp add: ex_node_bytes ex_sha)
qed

lemma from_hash_inject: "wf_cid_from_hash a = wf_cid_from_hash b \<longleftrightarrow> a = b" if "length a = 32" "length b = 32"
  using that by (auto simp: wf_cid_from_hash_def wf_cid_from_hash_codec_def)

abbreviation ex_keysets :: "bytes list set" where
  "ex_keysets \<equiv> {[ka], [kb], [ka, kb]}"

lemma ex_cids_inject:
  assumes "ks \<in> ex_keysets" "ks' \<in> ex_keysets"
  shows "tree_cid ex_plat (ex_node ks) = tree_cid ex_plat (ex_node ks') \<longleftrightarrow> ks = ks'"
proof -
  have "ka \<noteq> kb" using ex_keys_less by auto
  with assms show ?thesis by (auto simp: ex_node_cid ex_node_hash from_hash_inject)
qed

lemma ex_collision_free:
  assumes "set kss \<subseteq> ex_keysets"
  shows "collision_free ex_plat (ex_cars kss) L"
  unfolding collision_free_def
proof (intro allI impI)
  fix t :: mst and n :: nat and b
  assume t: "t \<noteq> MNil" "b \<in> set (car_blocks (ex_cars kss))" "blk_cid b = tree_cid ex_plat t"
  from t(2) assms obtain ks where b: "b = ex_block (ex_node ks)" "ks \<in> ex_keysets" by (auto simp: ex_cars_def)
  obtain l es where "t = MNode l es" using t(1) by (cases t) auto
  then have cid: "tree_cid ex_plat t = wf_cid_from_hash (ex_sha (tree_bytes ex_plat t))" using tree_cid_Node ex_sha by simp
  have "length (ex_sha d) = 32" for d by (simp add: ex_sha_def)
  then have "ex_sha (tree_bytes ex_plat t) = ex_sha (node_bytes [] (map ex_entry ks))"
    using t(3) b(1) cid by (simp add: ex_block_def ex_node_cid from_hash_inject)
  then have "tree_bytes ex_plat t = node_bytes [] (map ex_entry ks)"
    using b(2) ex_nodes_differ by (auto simp: ex_sha_def split: if_splits)
  then show "blk_data b = tree_bytes ex_plat t" by (simp add: b(1) ex_block_def ex_node_bytes)
qed

lemma ex_layer: "wf_mst_key_layer ex_plat k = 0"
proof -
  have "key_layer_loop (replicate 32 0xf1) = 0" "key_layer_loop (replicate 32 0xf2) = 0"
    "key_layer_loop (replicate 32 0xf3) = 0" "key_layer_loop (replicate 32 0xff) = 0"
    by code_simp+
  then show ?thesis by (simp add: wf_mst_key_layer_def ex_sha ex_sha_def)
qed

lemma ex_find:
  assumes "ks \<in> ex_keysets" "set kss \<subseteq> ex_keysets"
  shows "wf_car_find_block (ex_cars kss) (tree_cid ex_plat (ex_node ks)) =
    (if ks \<in> set kss then Some (ex_block (ex_node ks)) else None)"
  using assms(2)
proof (induction kss)
  case (Cons ks' kss)
  then show ?case using ex_cids_inject [of ks' ks] assms(1) by (auto simp: wf_car_find_block_eq ex_cars_def ex_block_def)
qed (simp add: wf_car_find_block_eq ex_cars_def)

lemma ex_write:
  assumes "ks \<in> ex_keysets" "set kss \<subseteq> ex_keysets" "ks \<notin> set kss"
  shows "mst_write_node ex_plat (ex_cars kss) 0 [] (map ex_entry ks) =
    (ex_cars (kss @ [ks]), Inr (tree_cid ex_plat (ex_node ks)))"
proof -
  have ok: "node_ok [] (map ex_entry ks)" using assms(1) ex_nodes_ok by auto
  have "effective_layer ex_plat (wf_mst_node_build 0 [] (map ex_entry ks)) = 0"
    using assms(1) ex_layer by (auto simp: effective_layer_def wf_mst_node_build_def ex_entry_def)
  then have "mst_write_node ex_plat (ex_cars kss) 0 [] (map ex_entry ks) =
      and_then (mst_store_node ex_plat (wf_mst_node_build 0 [] (map ex_entry ks)) (ex_cars kss)) (\<lambda>car node. (car, Inr (node_cid node)))"
    by (simp add: mst_write_node_def wf_mst_node_finalize.simps) (simp add: wf_mst_node_build_def)
  then show ?thesis
    using ex.serialize_node [OF ok] ex_find [OF assms(1,2)] assms(3) ex.node_bytes_nonempty [OF ok]
    by (simp add: mst_store_node_def wf_mst_node_build_def wf_cid_of_block_def ex_node_cid ex_sha)
      (simp add: ex_cars_def ex_block_def ex_node_cid ex_node_bytes)
qed

lemma ex_cmp: "wf_mst_key_cmp ka kb < 0" "0 < wf_mst_key_cmp kb ka" "wf_mst_key_cmp ka ka = 0"
  by code_simp+

lemma ex_valid_nonempty: "ka \<noteq> []" "kb \<noteq> []"
  by (simp_all add: ka_def kb_def ascii_def)

lemma ex_put_first:
  assumes "k \<in> {ka, kb}"
  shows "mst_exec ex_plat ex_empty [] (Put k ex_value) = Some (ex_cars [[k]], Inr (tree_cid ex_plat (ex_node [k])))"
proof -
  have "wf_mst_key_is_valid k" "k \<noteq> []" using assms ex_keys ex_valid_nonempty by auto
  then have "mst_exec ex_plat ex_empty [] (Put k ex_value) = Some (mst_write_node ex_plat ex_empty 0 [] [ex_entry k])"
    using ex_layer by (simp add: mst_exec_def numeral_eq_Suc ex_entry_def Let_def)
  moreover have "ex_empty = ex_cars []" by (simp add: ex_empty_def ex_cars_def)
  ultimately show ?thesis using ex_write [of "[k]" "[]"] assms by auto
qed

lemma ex_load:
  assumes "k \<in> {ka, kb}" "[k] \<in> set kss" "set kss \<subseteq> ex_keysets"
  shows "mst_load_node ex_plat (ex_cars kss) (tree_cid ex_plat (ex_node [k])) =
    Inr \<lparr>node_cid = tree_cid ex_plat (ex_node [k]), node_layer = 0, node_left = [], node_entries = [ex_entry k]\<rparr>"
proof -
  have "mst_stored ex_plat (ex_cars kss) (ex_node [k])"
    using ex_find [of "[k]" kss] assms unfolding ex_node_def by (auto simp: ex_block_def)
  moreover have "leaves_ok (leaves (ex_node [k]))"
    using assms(1) by (auto simp: ex_node_def leaves_ok_def ex_keys ex_value_ok)
  moreover have "lay ex_plat True 0 (ex_node [k])" using ex_layer by (simp add: ex_node_def)
  ultimately show ?thesis
    using ex.load_stored [of "ex_cars kss" MNil "[(k, ex_value, MNil)]" True 0] by (simp add: ex_node_def ex_entry_def)
qed

lemma ex_put_second:
  "mst_exec ex_plat (ex_cars [[ka]]) (tree_cid ex_plat (ex_node [ka])) (Put kb ex_value) =
     Some (ex_cars [[ka], [ka, kb]], Inr (tree_cid ex_plat (ex_node [ka, kb])))"
  "mst_exec ex_plat (ex_cars [[kb]]) (tree_cid ex_plat (ex_node [kb])) (Put ka ex_value) =
     Some (ex_cars [[kb], [ka, kb]], Inr (tree_cid ex_plat (ex_node [ka, kb])))"
proof -
  have ne: "tree_cid ex_plat (ex_node [k]) \<noteq> []" for k by (simp add: ex_node_def)
  have up: "ex_entry ka\<lparr>ent_subtree := []\<rparr> = ex_entry ka" by (simp add: ex_entry_def)
  show "mst_exec ex_plat (ex_cars [[ka]]) (tree_cid ex_plat (ex_node [ka])) (Put kb ex_value) =
      Some (ex_cars [[ka], [ka, kb]], Inr (tree_cid ex_plat (ex_node [ka, kb])))"
    using ex_load [of ka "[[ka]]"] ex_write [of "[ka, kb]" "[[ka]]"] ex_keys ex_valid_nonempty ex_layer ex_cmp ne
    by (simp add: mst_exec_def numeral_eq_Suc Let_def mst_add_at_layer_def mst_find_ge_def insert_entry_def up)
      (simp add: ex_entry_def)
  show "mst_exec ex_plat (ex_cars [[kb]]) (tree_cid ex_plat (ex_node [kb])) (Put ka ex_value) =
      Some (ex_cars [[kb], [ka, kb]], Inr (tree_cid ex_plat (ex_node [ka, kb])))"
    using ex_load [of kb "[[kb]]"] ex_write [of "[ka, kb]" "[[kb]]"] ex_keys ex_valid_nonempty ex_layer ex_cmp ne
    by (simp add: mst_exec_def numeral_eq_Suc Let_def mst_add_at_layer_def mst_find_ge_def insert_entry_def up)
      (simp add: ex_entry_def)
qed

lemma ex_del: "mst_exec ex_plat (ex_cars [[ka]]) (tree_cid ex_plat (ex_node [ka])) (Del ka) = Some (ex_cars [[ka]], Inr [])"
proof -
  have ne: "tree_cid ex_plat (ex_node [k]) \<noteq> []" for k by (simp add: ex_node_def)
  show ?thesis
    using ex_load [of ka "[[ka]]"] ex_valid_nonempty ex_layer ex_cmp ne
    by (simp add: mst_exec_def wf_mst_delete_def numeral_eq_Suc Let_def mst_find_ge_def mst_delete_at_layer_def
        mst_merge_subtrees.simps depth_exceeded_def mst_strip_loop.simps ex_entry_def)
qed

lemma ex_refines: "refines ex_plat {(ka, ex_value), (kb, ex_value)} (ex_cars [[ka]]) (tree_cid ex_plat (ex_node [ka])) [(ka, ex_value)]"
proof -
  have st: "mst_stored ex_plat (ex_cars [[ka]]) (ex_node [ka])"
    using ex_find [of "[ka]" "[[ka]]"] unfolding ex_node_def by (auto simp: ex_block_def)
  have "wtree ex_plat False {(ka, ex_value), (kb, ex_value)} 0 (ex_node [ka])"
    using ex_layer by (simp add: wtree_def ex_node_def leaves_ok_def ex_keys ex_value_ok)
  from made_tree [OF st this] show ?thesis by (auto simp: refines_def ex_node_def)
qed

lemma refines_nonempty: "refines P L car [] ls \<Longrightarrow> ls = []"
  by (auto simp: refines_def made_def dest: sym)

section \<open>Properties\<close>

text \<open>Adding a key: on any root that stores a layered tree with the leaves \<open>ls\<close>, \<open>wf_mst_add\<close> returns within the
  recursion bound of the tree, only appends blocks, and, unless a hash collision has occurred, returns a
  root that stores the leaves with the key inserted in order. Every lookup on the new root then finds
  the new value at the key (an already bound key keeps its value) and the old answer elsewhere.\<close>

theorem mst_add_correct:
  assumes "platform_laws P" "refines P L car root ls" "wf_mst_key_is_valid key" "cid_ok v" "(key, v) \<in> L"
    "Suc (length ls) < 2 ^ 64"
  shows "\<exists>car' res. wf_mst_add 1026 P car root key v = Some (car', res) \<and> car_ext car car' \<and>
    (collision_free P car' L \<longrightarrow> (\<exists>root'. res = Inr root' \<and> refines P L car' root' (ins_leaf key v ls) \<and>
      (\<forall>k. k \<noteq> [] \<and> length k < 2 ^ 31 \<longrightarrow> wf_mst_find P car' root' k =
         (if k = key \<and> key \<notin> fst ` set ls then Inr v
          else case map_of ls k of None \<Rightarrow> Inl WF_ERR_NOT_FOUND | Some w \<Rightarrow> Inr w))))"
proof -
  note pl = assms(1)
  from platform_laws.exec_refines [OF pl assms(2), of "Put key v"] assms(3-6)
  obtain r where r: "wf_mst_add 1026 P car root key v = Some r" "car_ext car (fst r)"
    "collision_free P (fst r) L \<longrightarrow> (\<exists>root'. snd r = Inr root' \<and> refines P L (fst r) root' (ins_leaf key v ls))"
    by (auto simp: mst_exec_def)
  have "wf_mst_find P (fst r) root' k = (if k = key \<and> key \<notin> fst ` set ls then Inr v
      else case map_of ls k of None \<Rightarrow> Inl WF_ERR_NOT_FOUND | Some w \<Rightarrow> Inr w)"
    if "refines P L (fst r) root' (ins_leaf key v ls)" "k \<noteq> []" "length k < 2 ^ 31" for root' k
  proof -
    have "root' \<noteq> []" using refines_nonempty that(1) ins_leaf_nonempty by blast
    from platform_laws.refines_find [OF pl that(1) this that(2,3)] show ?thesis by (simp add: map_of_ins_leaf)
  qed
  with r show ?thesis by (intro exI [of _ "fst r"] exI [of _ "snd r"]) auto
qed

theorem mst_add_correct_witness:
  "\<exists>car' root'. wf_mst_add 1026 ex_plat (ex_cars [[ka]]) (tree_cid ex_plat (ex_node [ka])) kb ex_value = Some (car', Inr root') \<and>
    wf_mst_find ex_plat car' root' kb = Inr ex_value"
proof -
  let ?L = "{(ka, ex_value), (kb, ex_value)}"
  have r: "wf_mst_add 1026 ex_plat (ex_cars [[ka]]) (tree_cid ex_plat (ex_node [ka])) kb ex_value =
      Some (ex_cars [[ka], [ka, kb]], Inr (tree_cid ex_plat (ex_node [ka, kb])))"
    using ex_put_second(1) by (simp add: mst_exec_def)
  have len: "length kb < 2 ^ 31" by (simp add: kb_def ascii_def)
  have "kb \<noteq> ka" using ex_keys_less by auto
  with mst_add_correct [OF ex.platform_laws_axioms ex_refines ex_keys(2) ex_value_ok] ex_valid_nonempty(2) len
    ex_collision_free [of "[[ka], [ka, kb]]" ?L] show ?thesis
    by (simp add: r)
qed

text \<open>Deleting a key: a key that is not bound (or an empty tree) gives \<open>WF_ERR_NOT_FOUND\<close> and leaves the CAR as it
  is; a bound key is removed, the blocks are only appended to, and, unless a hash collision has occurred,
  the returned root stores exactly the other leaves (the empty root when there are none).\<close>

theorem mst_delete_correct:
  assumes "platform_laws P" "refines P L car root ls" "key \<noteq> []" "length key < 2 ^ 31" "Suc (length ls) < 2 ^ 64"
  shows "\<exists>car' res. wf_mst_delete 1026 P car root key = Some (car', res) \<and> car_ext car car' \<and>
    (collision_free P car' L \<longrightarrow>
      (if key \<in> fst ` set ls
       then \<exists>root'. res = Inr root' \<and> refines P L car' root' (del_leaf key ls) \<and> wf_mst_list P car' root' = Inr (del_leaf key ls)
       else car' = car \<and> res = Inl WF_ERR_NOT_FOUND))"
proof -
  from platform_laws.exec_refines [OF assms(1,2), of "Del key"] assms(3-5)
  obtain r where r: "wf_mst_delete 1026 P car root key = Some r" "car_ext car (fst r)"
    "collision_free P (fst r) L \<longrightarrow> (if key \<in> fst ` set ls
       then \<exists>root'. snd r = Inr root' \<and> refines P L (fst r) root' (del_leaf key ls) else r = (car, Inl WF_ERR_NOT_FOUND))"
    by (auto simp: mst_exec_def split: if_splits)
  show ?thesis
  proof (cases "key \<in> fst ` set ls")
    case True
    then show ?thesis
      using r platform_laws.refines_list [OF assms(1), of L "fst r"]
      by (intro exI [of _ "fst r"] exI [of _ "snd r"]) auto
  next
    case False
    then show ?thesis using r by (intro exI [of _ "fst r"] exI [of _ "snd r"]) (simp add: prod_eq_iff)
  qed
qed

theorem mst_delete_correct_witness:
  "wf_mst_delete 1026 ex_plat (ex_cars [[ka]]) (tree_cid ex_plat (ex_node [ka])) ka = Some (ex_cars [[ka]], Inr []) \<and>
   wf_mst_list ex_plat (ex_cars [[ka]]) [] = Inr []"
proof -
  have r: "wf_mst_delete 1026 ex_plat (ex_cars [[ka]]) (tree_cid ex_plat (ex_node [ka])) ka = Some (ex_cars [[ka]], Inr [])"
    using ex_del by (simp add: mst_exec_def)
  from mst_delete_correct [OF ex.platform_laws_axioms ex_refines ex_key_facts] r
    ex_collision_free [of "[[ka]]" "{(ka, ex_value), (kb, ex_value)}"] show ?thesis
    by (simp add: del_leaf_def)
qed


lemma ex_reach:
  "mst_reach ex_plat [(Put ka ex_value, None), (Put kb ex_value, None)] (ex_cars [[ka], [ka, kb]]) (tree_cid ex_plat (ex_node [ka, kb]))"
  "mst_reach ex_plat [(Put kb ex_value, None), (Put ka ex_value, None)] (ex_cars [[kb], [ka, kb]]) (tree_cid ex_plat (ex_node [ka, kb]))"
  using reach_ok [OF reach_ok [OF reach_empty, folded ex_empty_def, OF ex_put_first], OF _ ex_put_second(1)]
    reach_ok [OF reach_ok [OF reach_empty, folded ex_empty_def, OF ex_put_first], OF _ ex_put_second(2)] by simp_all


text \<open>C13: the root CID depends on the content only: two sequences that add the same bindings of distinct keys, in any
  order, end with the same root, whatever CARs they went through.\<close>

theorem mst_add_order:
  assumes "platform_laws P" "mst_reach P tr car root" "mst_reach P tr' car' root'"
    "\<forall>op \<in> set (map fst tr). is_put op" "distinct (map op_key (map fst tr))"
    "distinct (map op_key (map fst tr'))" "set (map fst tr) = set (map fst tr')"
    "length tr < 2 ^ 64" "length tr' < 2 ^ 64"
    "collision_free P car (added (map fst tr))" "collision_free P car' (added (map fst tr))"
  shows "root = root'"
proof -
  let ?L = "added (map fst tr)"
  have puts: "\<forall>op \<in> set (map fst tr'). is_put op" using assms(4,7) by blast
  have L: "added (map fst tr') = ?L" using assms(7) by (simp add: added_def)
  have c: "canon_root P ?L car root (spec_run [] (map fst tr))" "canon_root P ?L car' root' (spec_run [] (map fst tr'))"
    using platform_laws.reach_canonical [OF assms(1,2,4) order_refl assms(8,10)]
      platform_laws.reach_canonical [OF assms(1,3) puts _ assms(9,11)] L by auto
  have "set (spec_run [] (map fst tr)) = set (spec_run [] (map fst tr'))"
    using spec_puts [OF assms(4,5), of "[]"] spec_puts [OF puts assms(6), of "[]"] L by simp
  then have "spec_run [] (map fst tr) = spec_run [] (map fst tr')"
    using c by (intro sorted_keys_unique) (auto simp: canon_root_def leaves_ok_def wtree_def elim!: madeE)
  with c platform_laws.canonical_unique [OF assms(1)] show ?thesis by metis
qed

theorem mst_add_order_witness:
  "\<exists>root. mst_reach ex_plat [(Put ka ex_value, None), (Put kb ex_value, None)] (ex_cars [[ka], [ka, kb]]) root \<and>
     mst_reach ex_plat [(Put kb ex_value, None), (Put ka ex_value, None)] (ex_cars [[kb], [ka, kb]]) root"
proof -
  obtain root where r: "mst_reach ex_plat [(Put kb ex_value, None), (Put ka ex_value, None)] (ex_cars [[kb], [ka, kb]]) root"
    using ex_reach(2) by blast
  have "ka \<noteq> kb" using ex_keys_less by auto
  then have "tree_cid ex_plat (ex_node [ka, kb]) = root"
    by (intro mst_add_order [OF ex.platform_laws_axioms ex_reach(1) r])
      (use ex_collision_free [of "[[ka], [ka, kb]]"] ex_collision_free [of "[[kb], [ka, kb]]"] ex_keys ex_value_ok in auto)
  with ex_reach(1) r show ?thesis by blast
qed

end
