(* ===== verification/Base58.thy ===== *)
theory Base58
  imports Digits
begin

text \<open>
  base58btc, the text form of public keys: the model of \<^verbatim>\<open>wf_b58_encode\<close> and \<^verbatim>\<open>wf_b58_decode\<close> in
  \<^verbatim>\<open>src/crypto/crypto.c\<close>, and of the second decoder that \<^verbatim>\<open>wf_verify_internal\<close> has inlined, which
  works in a fixed buffer of 67 bytes. The \<^verbatim>\<open>unsigned\<close> carries stay below \<open>2 ^ 16\<close> and are
  naturals; a buffer of \<^verbatim>\<open>unsigned char\<close> used as digits is a list of naturals.
\<close>

section \<open>The code\<close>

definition wf_b58_alphabet :: bytes where
  "wf_b58_alphabet = ascii ''123456789ABCDEFGHJKLMNPQRSTUVWXYZabcdefghijkmnopqrstuvwxyz''"

text \<open>
  The inner loop of both conversions, from the last digit to the first: multiply the buffer by
  \<open>mul\<close>, add the carry, and keep the digits at \<open>radix\<close>. Also returned is the carry out of the buffer,
  which the callers drop.
\<close>

fun carry_loop :: "nat \<Rightarrow> nat \<Rightarrow> nat list \<Rightarrow> nat \<Rightarrow> nat list \<times> nat" where
  "carry_loop mul radix [] carry = ([], carry)"
| "carry_loop mul radix (x # xs) carry =
     (let (ys, c) = carry_loop mul radix xs carry; v = c + x * mul in (v mod radix # ys, v div radix))"

definition wf_b58_encode :: "bytes \<Rightarrow> bytes" where
  "wf_b58_encode data =
     (let zeros = length (takeWhile (\<lambda>b. b = 0) data);
          out_size = length data * 138 div 100 + 1;
          buf = foldl (\<lambda>buf b. fst (carry_loop 256 58 buf (unat b))) (replicate out_size 0) (drop zeros data)
      in replicate zeros (wf_b58_alphabet ! 0) @ map ((!) wf_b58_alphabet) (dropWhile (\<lambda>d. d = 0) buf))"

text \<open>\<^verbatim>\<open>strchr\<close> in the alphabet.\<close>

definition b58_digit :: "byte \<Rightarrow> nat option" where
  "b58_digit c =
     (let i = length (takeWhile (\<lambda>a. a \<noteq> c) wf_b58_alphabet)
      in if i < length wf_b58_alphabet then Some i else None)"

fun b58_decode_loop :: "nat list \<Rightarrow> bytes \<Rightarrow> nat list option" where
  "b58_decode_loop buf [] = Some buf"
| "b58_decode_loop buf (c # cs) =
     (case b58_digit c of
        None \<Rightarrow> None
      | Some d \<Rightarrow> b58_decode_loop (fst (carry_loop 58 256 buf d)) cs)"

definition wf_b58_decode :: "bytes \<Rightarrow> bytes res" where
  "wf_b58_decode str =
     (if str = [] then Inl WF_ERR_INVALID_ARG
      else
        let zeros = length (takeWhile (\<lambda>c. c = wf_b58_alphabet ! 0) str);
            buf_size = length str * 733 div 1000 + 1
        in case b58_decode_loop (replicate buf_size 0) (drop zeros str) of
             None \<Rightarrow> Inl WF_ERR_INVALID_ARG
           | Some buf \<Rightarrow> Inr (replicate zeros 0 @ map of_nat (dropWhile (\<lambda>d. d = 0) buf)))"

text \<open>The decoder of \<^verbatim>\<open>wf_verify_internal\<close>: the buffer grows in front, up to 67 bytes.\<close>

function push_carry :: "nat list \<Rightarrow> nat \<Rightarrow> nat list option" where
  "push_carry pk_buf carry =
     (if carry = 0 then Some pk_buf
      else if length pk_buf = 67 then None
      else push_carry (carry mod 256 # pk_buf) (carry div 256))"
  by pat_completeness auto
termination by (relation "measure snd") auto

declare push_carry.simps [simp del]

fun pk_digits_loop :: "nat list \<Rightarrow> bytes \<Rightarrow> nat list option" where
  "pk_digits_loop pk_buf [] = Some pk_buf"
| "pk_digits_loop pk_buf (c # cs) =
     (case b58_digit c of
        None \<Rightarrow> None
      | Some d \<Rightarrow>
          (case carry_loop 58 256 pk_buf d of
             (buf, carry) \<Rightarrow>
               (case push_carry buf carry of None \<Rightarrow> None | Some buf' \<Rightarrow> pk_digits_loop buf' cs)))"

fun pk_zeros_loop :: "nat list \<Rightarrow> bytes \<Rightarrow> nat list option" where
  "pk_zeros_loop pk_buf [] = Some pk_buf"
| "pk_zeros_loop pk_buf (c # cs) =
     (if c = wf_b58_alphabet ! 0
      then if length pk_buf = 67 then None else pk_zeros_loop (0 # pk_buf) cs
      else Some pk_buf)"

definition pk_b58_decode :: "bytes \<Rightarrow> bytes option" where
  "pk_b58_decode encoded =
     (case pk_digits_loop [] encoded of
        None \<Rightarrow> None
      | Some buf \<Rightarrow> map_option (map of_nat) (pk_zeros_loop buf encoded))"

section \<open>Digits\<close>

text \<open>The one list of digits without a leading zero for a number.\<close>

abbreviation unpad :: "nat list \<Rightarrow> nat list" where
  "unpad \<equiv> dropWhile (\<lambda>d. d = 0)"

definition plain :: "nat \<Rightarrow> nat list \<Rightarrow> bool" where
  "plain b ds \<longleftrightarrow> list_all (\<lambda>d. d < b) ds \<and> (ds \<noteq> [] \<longrightarrow> hd ds \<noteq> 0)"

lemma plain_Nil [simp]: "plain b []"
  by (simp add: plain_def)

lemma digits_num_unpad [simp]: "digits_num b (unpad ds) = digits_num b ds"
  by (induction ds) (auto simp: digits_num_Cons)

lemma plain_unpad: "list_all (\<lambda>d. d < b) ds \<Longrightarrow> plain b (unpad ds)"
  by (induction ds) (auto simp: plain_def)

lemma digits_num_replicate [simp]: "digits_num b (replicate n 0) = 0"
  by (induction n) (auto simp: digits_num_Cons)

lemma plain_length:
  assumes "plain b xs" "plain b ys" "digits_num b xs \<le> digits_num b ys"
  shows "length xs \<le> length ys"
proof (cases xs)
  case (Cons x xs')
  have "b ^ length xs' \<le> x * b ^ length xs'" using assms(1) Cons by (simp add: plain_def)
  also have "\<dots> \<le> digits_num b xs" by (simp add: Cons digits_num_Cons)
  also have "\<dots> < b ^ length ys" using digits_num_less [of b ys] assms(2) le_less_trans [OF assms(3)] by (simp add: plain_def)
  finally have less: "b ^ length xs' < b ^ length ys" .
  have "1 \<le> b" using assms(1) Cons by (auto simp: plain_def)
  then have "length xs' < length ys"
    using less power_increasing [of "length ys" "length xs'" b] by (meson not_less)
  then show ?thesis by (simp add: Cons)
qed simp

lemma plain_inject:
  assumes "plain b xs" "plain b ys" "digits_num b xs = digits_num b ys"
  shows "xs = ys"
  using assms plain_length [OF assms(1,2)] plain_length [OF assms(2,1)]
  by (intro digits_num_inject [of b]) (auto simp: plain_def)

lemma carry_loop:
  assumes "carry_loop m r xs c = (ys, d)" "0 < r"
  shows "length ys = length xs \<and> list_all (\<lambda>d. d < r) ys \<and>
    digits_num r ys + d * r ^ length xs = digits_num r xs * m + c"
  using assms
proof (induction xs arbitrary: ys d)
  case (Cons x xs)
  obtain zs e where z: "carry_loop m r xs c = (zs, e)" by fastforce
  with Cons.prems have y: "ys = (e + x * m) mod r # zs" "d = (e + x * m) div r" by (auto simp: Let_def)
  from Cons.IH [OF z Cons.prems(2)] have IH: "length zs = length xs" "list_all (\<lambda>d. d < r) zs"
    "digits_num r zs + e * r ^ length xs = digits_num r xs * m + c" by auto
  define u w R where uwR: "u = (e + x * m) mod r" "w = (e + x * m) div r" "R = r ^ length xs"
  have uw: "u + w * r = e + x * m" unfolding uwR by (rule mod_div_mult_eq)
  have y': "ys = u # zs" "d = w" by (simp_all add: y uwR)
  have "digits_num r ys + d * r ^ length (x # xs) = (u + w * r) * R + digits_num r zs"
    by (simp add: y' IH(1) digits_num_Cons uwR(3) algebra_simps)
  also have "\<dots> = (e + x * m) * R + digits_num r zs" by (simp only: uw)
  also have "\<dots> = digits_num r (x # xs) * m + c"
    using IH(3) by (simp add: digits_num_Cons uwR(3) algebra_simps)
  finally show ?case using IH y Cons.prems(2) by simp
qed simp

text \<open>While the value fits the buffer the carry out is zero.\<close>

lemma carry_loop_fits:
  assumes "digits_num r xs * m + c < r ^ length xs" "0 < r"
  shows "list_all (\<lambda>d. d < r) (fst (carry_loop m r xs c)) \<and> length (fst (carry_loop m r xs c)) = length xs \<and>
    digits_num r (fst (carry_loop m r xs c)) = digits_num r xs * m + c"
proof -
  obtain ys d where y: "carry_loop m r xs c = (ys, d)" by fastforce
  from carry_loop [OF y assms(2)] have l: "length ys = length xs" "list_all (\<lambda>d. d < r) ys"
    "digits_num r ys + d * r ^ length xs = digits_num r xs * m + c" by auto
  have "d = 0"
  proof (rule ccontr)
    assume "d \<noteq> 0"
    then have "r ^ length xs \<le> d * r ^ length xs" by simp
    with l(3) assms(1) show False by linarith
  qed
  with l y show ?thesis by simp
qed

text \<open>The sizes of the two buffers suffice.\<close>

lemma power_ratio:
  fixes a b :: nat
  assumes "a ^ q \<le> b ^ p" "1 < b" "0 < q"
  shows "a ^ n < b ^ (n * p div q + 1)"
proof -
  have "(a ^ n) ^ q = (a ^ q) ^ n" by (simp add: power_mult [symmetric] mult.commute)
  also have "\<dots> \<le> (b ^ p) ^ n" using assms(1) by (rule power_mono) simp
  also have "\<dots> = b ^ (n * p)" by (simp add: power_mult [symmetric] mult.commute)
  also have "\<dots> < b ^ ((n * p div q + 1) * q)"
    using assms(2,3) dividend_less_times_div [of q "n * p"]
    by (intro power_strict_increasing) (auto simp: algebra_simps)
  also have "\<dots> = (b ^ (n * p div q + 1)) ^ q" by (rule power_mult)
  finally show ?thesis by (rule power_less_imp_less_base) simp
qed

lemma encode_size: "256 ^ n < (58 :: nat) ^ (n * 138 div 100 + 1)"
  by (rule power_ratio) simp_all

lemma decode_size: "58 ^ n < (256 :: nat) ^ (n * 733 div 1000 + 1)"
proof -
  have "58 ^ n < (256 :: nat) ^ (n * 52 div 71 + 1)" by (rule power_ratio) simp_all
  also have "\<dots> \<le> 256 ^ (n * 733 div 1000 + 1)" by (intro power_increasing) linarith+
  finally show ?thesis .
qed

section \<open>The alphabet\<close>

lemma alphabet_length [simp]: "length wf_b58_alphabet = 58"
  by code_simp

lemma alphabet_distinct: "distinct wf_b58_alphabet"
  by code_simp

lemma b58_digit_nth: "d < 58 \<Longrightarrow> b58_digit (wf_b58_alphabet ! d) = Some d"
proof -
  assume d: "d < 58"
  let ?A = wf_b58_alphabet
  have "takeWhile (\<lambda>a. a \<noteq> ?A ! d) ?A = take d ?A"
    using d alphabet_distinct by (intro takeWhile_eq_take_P_nth) (auto simp: nth_eq_iff_index_eq)
  then show ?thesis using d by (simp add: b58_digit_def)
qed

lemma b58_digit_Some: "b58_digit c = Some d \<Longrightarrow> d < 58 \<and> wf_b58_alphabet ! d = c"
  using nth_length_takeWhile [of "\<lambda>a. a \<noteq> c" wf_b58_alphabet]
  by (auto simp: b58_digit_def Let_def split: if_splits)

lemma b58_digit_zero: "b58_digit c = Some 0 \<longleftrightarrow> c = wf_b58_alphabet ! 0"
  using b58_digit_Some [of c 0] b58_digit_nth [of 0] by auto

lemma alphabet_zero_iff: "d < 58 \<Longrightarrow> wf_b58_alphabet ! d = wf_b58_alphabet ! 0 \<longleftrightarrow> d = 0"
  using alphabet_distinct by (simp add: nth_eq_iff_index_eq)

section \<open>What the conversions compute\<close>

text \<open>
  A byte string and its text: as many leading zero digits on both sides, followed by the same number
  written without leading zeros.
\<close>

definition b58_pair :: "bytes \<Rightarrow> bytes \<Rightarrow> bool" where
  "b58_pair data str \<longleftrightarrow>
     (\<exists>z ds es. data = replicate z 0 @ map of_nat ds \<and> str = replicate z (wf_b58_alphabet ! 0) @ map ((!) wf_b58_alphabet) es \<and>
        plain 256 ds \<and> plain 58 es \<and> digits_num 256 ds = digits_num 58 es)"

lemma unpad_bytes:
  "data = replicate (length (takeWhile (\<lambda>b. b = 0) data)) 0 @ dropWhile (\<lambda>b. b = 0) data"
  for data :: bytes
  by (induction data) auto

lemma leading_unique:
  assumes "replicate z a @ xs = replicate z' a @ ys" "xs \<noteq> [] \<longrightarrow> hd xs \<noteq> a" "ys \<noteq> [] \<longrightarrow> hd ys \<noteq> a"
  shows "z = z' \<and> xs = ys"
  using assms(1)
proof (induction z arbitrary: z')
  case 0
  then show ?case using assms(2) by (cases z') auto
next
  case (Suc z)
  then show ?case using assms(3) by (cases z') auto
qed

lemma takeWhile_leading:
  assumes "xs \<noteq> [] \<longrightarrow> hd xs \<noteq> a"
  shows "length (takeWhile (\<lambda>b. b = a) (replicate z a @ xs)) = z" "drop z (replicate z a @ xs) = xs"
  using assms by (induction z) (auto simp: takeWhile_eq_Nil_iff)

lemma unat_byte_of_nat: "n < 256 \<Longrightarrow> unat (of_nat n :: byte) = n"
  by (simp add: unat_of_nat)

lemma of_nat_byte_zero: "d < 256 \<Longrightarrow> (of_nat d :: byte) = 0 \<longleftrightarrow> d = 0"
  using unat_byte_of_nat [of d] by auto

lemma plain_hd_byte: "plain 256 ds \<Longrightarrow> map of_nat ds \<noteq> [] \<longrightarrow> hd (map of_nat ds) \<noteq> (0 :: byte)"
  by (cases ds) (auto simp: plain_def of_nat_byte_zero)

lemma plain_hd_char:
  "plain 58 es \<Longrightarrow> map ((!) wf_b58_alphabet) es \<noteq> [] \<longrightarrow> hd (map ((!) wf_b58_alphabet) es) \<noteq> wf_b58_alphabet ! 0"
  by (cases es) (auto simp: plain_def alphabet_zero_iff)

lemma map_of_nat_inject:
  assumes "list_all (\<lambda>d. d < 256) xs" "list_all (\<lambda>d. d < 256) ys" "map of_nat xs = (map of_nat ys :: bytes)"
  shows "xs = ys"
proof -
  have "map unat (map of_nat zs :: bytes) = zs" if "list_all (\<lambda>d. d < 256) zs" for zs
    using that by (induction zs) (auto simp: unat_byte_of_nat)
  with assms show ?thesis by metis
qed

lemma map_alphabet_inject:
  assumes "list_all (\<lambda>d. d < 58) xs" "list_all (\<lambda>d. d < 58) ys" "map ((!) wf_b58_alphabet) xs = map ((!) wf_b58_alphabet) ys"
  shows "xs = ys"
proof -
  have "inj_on ((!) wf_b58_alphabet) {..<58}"
    using alphabet_distinct by (auto simp: inj_on_def nth_eq_iff_index_eq)
  then show ?thesis using assms by (intro map_inj_on [of "(!) wf_b58_alphabet" xs ys]) (auto simp: list_all_iff elim!: inj_on_subset)
qed

lemma b58_pair_functional:
  assumes "b58_pair data str" "b58_pair data' str'"
  shows "data = data' \<longleftrightarrow> str = str'"
proof -
  obtain z ds es where a: "data = replicate z 0 @ map of_nat ds" "str = replicate z (wf_b58_alphabet ! 0) @ map ((!) wf_b58_alphabet) es"
    "plain 256 ds" "plain 58 es" "digits_num 256 ds = digits_num 58 es" using assms(1) unfolding b58_pair_def by blast
  obtain z' ds' es' where b: "data' = replicate z' 0 @ map of_nat ds'" "str' = replicate z' (wf_b58_alphabet ! 0) @ map ((!) wf_b58_alphabet) es'"
    "plain 256 ds'" "plain 58 es'" "digits_num 256 ds' = digits_num 58 es'" using assms(2) unfolding b58_pair_def by blast
  have "data = data' \<longleftrightarrow> z = z' \<and> ds = ds'"
    using leading_unique [of z 0 "map of_nat ds :: bytes" z' "map of_nat ds'"] plain_hd_byte [OF a(3)] plain_hd_byte [OF b(3)]
      map_of_nat_inject [of ds ds'] a(1,3) b(1,3) by (auto simp: plain_def)
  moreover have "str = str' \<longleftrightarrow> z = z' \<and> es = es'"
    using leading_unique [of z "wf_b58_alphabet ! 0" "map ((!) wf_b58_alphabet) es" z' "map ((!) wf_b58_alphabet) es'"]
      plain_hd_char [OF a(4)] plain_hd_char [OF b(4)] map_alphabet_inject [of es es'] a(2,4) b(2,4) by (auto simp: plain_def)
  moreover have "ds = ds' \<longleftrightarrow> es = es'"
    using plain_inject [OF a(3) b(3)] plain_inject [OF a(4) b(4)] a(5) b(5) by auto
  ultimately show ?thesis by auto
qed

lemma encode_loop:
  assumes "digits_num 58 buf * 256 ^ length bs + digits_num 256 (map unat bs) < 58 ^ length buf" "list_all (\<lambda>d. d < 58) buf"
  shows "list_all (\<lambda>d. d < 58) (foldl (\<lambda>buf b. fst (carry_loop 256 58 buf (unat b))) buf bs) \<and>
    digits_num 58 (foldl (\<lambda>buf b. fst (carry_loop 256 58 buf (unat b))) buf bs) =
      digits_num 58 buf * 256 ^ length bs + digits_num 256 (map unat bs)"
  using assms
proof (induction bs arbitrary: buf)
  case (Cons b bs)
  let ?n = "digits_num 58 buf * 256 + unat b"
  have split: "digits_num 58 buf * 256 ^ length (b # bs) + digits_num 256 (map unat (b # bs)) =
      ?n * 256 ^ length bs + digits_num 256 (map unat bs)" by (simp add: digits_num_Cons algebra_simps)
  have "n \<le> n * 256 ^ k + d" for n k d :: nat by (rule trans_le_add1) simp
  then have "?n < 58 ^ length buf" using Cons.prems(1) unfolding split by (rule le_less_trans)
  from carry_loop_fits [OF this] have c: "list_all (\<lambda>d. d < 58) (fst (carry_loop 256 58 buf (unat b)))"
    "length (fst (carry_loop 256 58 buf (unat b))) = length buf"
    "digits_num 58 (fst (carry_loop 256 58 buf (unat b))) = ?n" by auto
  from Cons.IH [of "fst (carry_loop 256 58 buf (unat b))"] Cons.prems(1) c show ?case
    unfolding split by simp
qed simp

lemma wf_b58_encode_pair: "b58_pair data (wf_b58_encode data)"
proof -
  define S where "S = length data * 138 div 100 + 1"
  let ?z = "length (takeWhile (\<lambda>b. b = 0) data)" and ?rest = "dropWhile (\<lambda>b. b = 0) data"
  define buf where "buf = foldl (\<lambda>buf b. fst (carry_loop 256 58 buf (unat b))) (replicate S 0) ?rest"
  have "digits_num 256 (map unat ?rest) < 256 ^ length ?rest"
    using digits_num_less [OF bytes_digits, of ?rest] by simp
  also have "\<dots> \<le> 256 ^ length data" by (intro power_increasing length_dropWhile_le) simp
  also have "\<dots> < 58 ^ S" unfolding S_def by (rule encode_size)
  finally have buf: "list_all (\<lambda>d. d < 58) buf" "digits_num 58 buf = digits_num 256 (map unat ?rest)"
    using encode_loop [of "replicate S 0" ?rest] unfolding buf_def by (auto simp: list_all_iff)
  have "plain 256 (map unat ?rest)"
    using bytes_digits [of ?rest] hd_dropWhile [of "\<lambda>b. b = 0" data] by (auto simp: plain_def hd_map unat_eq_0 dropWhile_eq_Nil_conv)
  moreover have "data = replicate ?z 0 @ map of_nat (map unat ?rest)"
    using unpad_bytes [of data] by (simp add: comp_def)
  moreover have "wf_b58_encode data = replicate ?z (wf_b58_alphabet ! 0) @ map ((!) wf_b58_alphabet) (unpad buf)"
    unfolding wf_b58_encode_def Let_def buf_def S_def dropWhile_eq_drop ..
  ultimately show ?thesis
    unfolding b58_pair_def using plain_unpad [OF buf(1)] buf(2) by (metis digits_num_unpad)
qed

lemma decode_loop:
  assumes "digits_num 256 buf * 58 ^ length es + digits_num 58 es < 256 ^ length buf" "list_all (\<lambda>d. d < 256) buf"
    "list_all (\<lambda>d. d < 58) es"
  shows "\<exists>buf'. b58_decode_loop buf (map ((!) wf_b58_alphabet) es) = Some buf' \<and> list_all (\<lambda>d. d < 256) buf' \<and>
    digits_num 256 buf' = digits_num 256 buf * 58 ^ length es + digits_num 58 es"
  using assms
proof (induction es arbitrary: buf)
  case (Cons e es)
  let ?n = "digits_num 256 buf * 58 + e"
  have split: "digits_num 256 buf * 58 ^ length (e # es) + digits_num 58 (e # es) = ?n * 58 ^ length es + digits_num 58 es"
    by (simp add: digits_num_Cons algebra_simps)
  have "n \<le> n * 58 ^ k + d" for n k d :: nat by (rule trans_le_add1) simp
  then have "?n < 256 ^ length buf" using Cons.prems(1) unfolding split by (rule le_less_trans)
  from carry_loop_fits [OF this] have c: "list_all (\<lambda>d. d < 256) (fst (carry_loop 58 256 buf e))"
    "length (fst (carry_loop 58 256 buf e)) = length buf" "digits_num 256 (fst (carry_loop 58 256 buf e)) = ?n" by auto
  from Cons.IH [of "fst (carry_loop 58 256 buf e)"] Cons.prems(1,3) c show ?case
    unfolding split by (simp add: b58_digit_nth)
qed simp

lemma b58_chars:
  assumes "\<forall>c \<in> set cs. b58_digit c \<noteq> None"
  obtains es where "list_all (\<lambda>d. d < 58) es" "cs = map ((!) wf_b58_alphabet) es"
proof
  let ?es = "map (\<lambda>c. the (b58_digit c)) cs"
  show "list_all (\<lambda>d. d < 58) ?es" "cs = map ((!) wf_b58_alphabet) ?es"
    using assms b58_digit_Some by (auto simp: list_all_iff intro!: map_idI [symmetric])
qed

lemma decode_loop_bad: "c \<in> set cs \<Longrightarrow> b58_digit c = None \<Longrightarrow> b58_decode_loop buf cs = None"
  by (induction cs arbitrary: buf) (auto split: option.splits)

lemma pair_chars: "b58_pair data str \<Longrightarrow> c \<in> set str \<Longrightarrow> b58_digit c \<noteq> None"
  by (auto simp: b58_pair_def plain_def list_all_iff b58_digit_nth split: if_splits)

text \<open>Valid text is a run of zero digits and a plain number.\<close>

lemma valid_text:
  assumes "\<forall>c \<in> set str. b58_digit c \<noteq> None"
  obtains es where "plain 58 es"
    "str = replicate (length (takeWhile (\<lambda>c. c = wf_b58_alphabet ! 0) str)) (wf_b58_alphabet ! 0) @ map ((!) wf_b58_alphabet) es"
proof -
  let ?one = "wf_b58_alphabet ! 0"
  let ?rest = "dropWhile (\<lambda>c. c = ?one) str"
  obtain es where es: "list_all (\<lambda>d. d < 58) es" "?rest = map ((!) wf_b58_alphabet) es"
    using b58_chars [of ?rest] assms set_dropWhileD [of _ "\<lambda>c. c = ?one" str] by metis
  have "hd es \<noteq> 0" if "es \<noteq> []"
  proof -
    have "?rest \<noteq> []" using es(2) that by simp
    then have "hd ?rest \<noteq> ?one" by (rule hd_dropWhile)
    moreover have "hd ?rest = wf_b58_alphabet ! hd es" unfolding es(2) using that by (rule hd_map)
    ultimately show ?thesis by metis
  qed
  moreover have "str = replicate (length (takeWhile (\<lambda>c. c = ?one) str)) ?one @ ?rest"
    by (induction str) auto
  ultimately show ?thesis using that [of es] es by (simp add: plain_def)
qed

lemma wf_b58_decode_valid:
  assumes "str \<noteq> []" "\<forall>c \<in> set str. b58_digit c \<noteq> None"
  shows "\<exists>data. wf_b58_decode str = Inr data \<and> b58_pair data str"
proof -
  define z where "z = length (takeWhile (\<lambda>c. c = wf_b58_alphabet ! 0) str)"
  obtain es where es: "plain 58 es" "str = replicate z (wf_b58_alphabet ! 0) @ map ((!) wf_b58_alphabet) es"
    using valid_text [OF assms(2)] unfolding z_def by blast
  define S where "S = length str * 733 div 1000 + 1"
  have d: "list_all (\<lambda>d. d < 58) es" using es(1) by (simp add: plain_def)
  have "digits_num 58 es < 58 ^ length es" by (rule digits_num_less [OF d])
  also have "\<dots> \<le> 58 ^ length str" by (intro power_increasing) (use es(2) in auto)
  also have "\<dots> < 256 ^ S" unfolding S_def by (rule decode_size)
  finally obtain buf where buf: "b58_decode_loop (replicate S 0) (map ((!) wf_b58_alphabet) es) = Some buf"
    "list_all (\<lambda>d. d < 256) buf" "digits_num 256 buf = digits_num 58 es"
    using decode_loop [of "replicate S 0" es] d by (auto simp: list_all_iff)
  have "drop z str = map ((!) wf_b58_alphabet) es" using es(2) by (metis append_eq_conv_conj length_replicate)
  then have "wf_b58_decode str = Inr (replicate z 0 @ map of_nat (unpad buf))"
    using assms(1) buf(1) unfolding wf_b58_decode_def Let_def z_def [symmetric] S_def [symmetric] by simp
  moreover have "b58_pair (replicate z 0 @ map of_nat (unpad buf)) str"
    unfolding b58_pair_def using es plain_unpad [OF buf(2)] buf(3) by (metis digits_num_unpad)
  ultimately show ?thesis by blast
qed

text \<open>The decoder accepts exactly the text of a byte string.\<close>

lemma wf_b58_decode_pair:
  assumes "str \<noteq> []"
  shows "wf_b58_decode str = Inr data \<longleftrightarrow> b58_pair data str"
proof (cases "\<forall>c \<in> set str. b58_digit c \<noteq> None")
  case False
  then obtain c where c: "c \<in> set str" "b58_digit c = None" by blast
  let ?z = "\<lambda>c. c = wf_b58_alphabet ! 0"
  have "\<not> ?z c" using c(2) b58_digit_nth [of 0] by auto
  then have "c \<in> set (dropWhile ?z str)" using c(1) by (induction str) auto
  from decode_loop_bad [OF this c(2)] have "wf_b58_decode str = Inl WF_ERR_INVALID_ARG"
    using assms unfolding wf_b58_decode_def Let_def dropWhile_eq_drop [symmetric] by simp
  then show ?thesis using pair_chars [of data str c] c by auto
next
  case True
  obtain d where d: "wf_b58_decode str = Inr d" "b58_pair d str"
    using wf_b58_decode_valid [OF assms True] by blast
  have "b58_pair data str \<longleftrightarrow> data = d" using b58_pair_functional [OF _ d(2), of data str] d(2) by blast
  with d(1) show ?thesis by auto
qed

section \<open>The decoder of the verifier\<close>

lemma push_carry_small:
  assumes "c < 256"
  shows "push_carry buf c = (if c = 0 then Some buf else if length buf = 67 then None else Some (c # buf))"
  using assms by (simp add: push_carry.simps [of buf] push_carry.simps [of _ 0])

lemma carry_out_small:
  assumes "carry_loop 58 256 buf d = (ys, c)" "list_all (\<lambda>d. d < 256) buf" "d < 58"
  shows "c < 58"
proof -
  define B where "B = (256 :: nat) ^ length buf"
  from carry_loop [OF assms(1)] have l: "digits_num 256 ys + c * B = digits_num 256 buf * 58 + d" by (simp add: B_def)
  have "digits_num 256 buf < B" using digits_num_less [OF assms(2)] by (simp add: B_def)
  then have "c * B < 58 * B" using l assms(3) by linarith
  then show ?thesis by simp
qed

text \<open>One step keeps the buffer plain, and multiplies and adds; it fails only when 67 bytes are not enough.\<close>

lemma pk_step:
  assumes "plain 256 buf" "d < 58" "length buf \<le> 67"
  shows "case carry_loop 58 256 buf d of (ys, c) \<Rightarrow>
    \<exists>buf'. plain 256 buf' \<and> digits_num 256 buf' = digits_num 256 buf * 58 + d \<and> length buf \<le> length buf' \<and>
      push_carry ys c = (if length buf' \<le> 67 then Some buf' else None)"
proof -
  obtain ys c where y: "carry_loop 58 256 buf d = (ys, c)" by fastforce
  from carry_loop [OF y] have l: "length ys = length buf" "list_all (\<lambda>d. d < 256) ys"
    "digits_num 256 ys + c * 256 ^ length buf = digits_num 256 buf * 58 + d" by auto
  have buf: "list_all (\<lambda>d. d < 256) buf" using assms(1) by (simp add: plain_def)
  have c: "c < 58" by (rule carry_out_small [OF y buf assms(2)])
  show ?thesis
  proof (cases "c = 0")
    case True
    have "plain 256 ys"
    proof (cases buf)
      case (Cons b bs)
      have "256 ^ length bs \<le> b * 256 ^ length bs" using assms(1) Cons by (simp add: plain_def)
      also have "\<dots> \<le> digits_num 256 ys" using l(3) True Cons by (simp add: digits_num_Cons algebra_simps)
      finally have big: "256 ^ length bs \<le> digits_num 256 ys" .
      from l(1) Cons obtain y' ys' where ys: "ys = y' # ys'" "length ys' = length bs" by (cases ys) auto
      have "digits_num 256 ys' < 256 ^ length bs" using digits_num_less [of 256 ys'] l(2) ys by simp
      then have "y' \<noteq> 0" using big ys(1) by (cases "y' = 0") (simp_all add: digits_num_Cons)
      then show ?thesis using l(2) ys by (simp add: plain_def)
    qed (use l(1) in simp)
    then show ?thesis using y l True push_carry_small [of 0 ys] assms(3) by auto
  next
    case False
    have "plain 256 (c # ys)" using l(2) c False by (simp add: plain_def)
    moreover have "digits_num 256 (c # ys) = digits_num 256 buf * 58 + d" using l by (simp add: digits_num_Cons)
    ultimately show ?thesis using y l c False push_carry_small [of c ys] assms(3) by (auto intro!: exI [of _ "c # ys"])
  qed
qed

lemma pk_digits_loop:
  assumes "plain 256 buf" "list_all (\<lambda>d. d < 58) es" "length buf \<le> 67" "plain 256 ds"
    "digits_num 256 ds = digits_num 256 buf * 58 ^ length es + digits_num 58 es"
  shows "pk_digits_loop buf (map ((!) wf_b58_alphabet) es) = (if length ds \<le> 67 then Some ds else None)"
  using assms
proof (induction es arbitrary: buf)
  case Nil
  then show ?case using plain_inject [of 256 ds buf] by auto
next
  case (Cons e es)
  obtain ys c where y: "carry_loop 58 256 buf e = (ys, c)" by fastforce
  obtain b1 where b1: "plain 256 b1" "digits_num 256 b1 = digits_num 256 buf * 58 + e" "length buf \<le> length b1"
    "push_carry ys c = (if length b1 \<le> 67 then Some b1 else None)"
    using pk_step [of buf e] Cons.prems(1-3) y by auto
  have split: "digits_num 256 ds = digits_num 256 b1 * 58 ^ length es + digits_num 58 es"
    using Cons.prems(5) by (simp add: b1(2) digits_num_Cons algebra_simps)
  have "n \<le> n * 58 ^ k + d" for n k d :: nat by (rule trans_le_add1) simp
  then have "length b1 \<le> length ds" unfolding split using b1(1) Cons.prems(4) split by (intro plain_length [of 256]) auto
  then show ?case
    using Cons.prems(2) y b1(4) Cons.IH [OF b1(1) _ _ Cons.prems(4) split] by (simp add: b58_digit_nth)
qed

lemma pk_zeros_loop:
  assumes "length buf \<le> 67" "rest \<noteq> [] \<longrightarrow> hd rest \<noteq> wf_b58_alphabet ! 0"
  shows "pk_zeros_loop buf (replicate z (wf_b58_alphabet ! 0) @ rest) =
    (if length buf + z \<le> 67 then Some (replicate z 0 @ buf) else None)"
  using assms(1)
proof (induction z arbitrary: buf)
  case 0
  then show ?case using assms(2) by (cases rest) auto
next
  case (Suc z)
  have "replicate z 0 @ 0 # buf = 0 # replicate z 0 @ buf" by (metis append_Cons replicate_app_Cons_same)
  with Suc.IH [of "0 # buf"] Suc.prems show ?case by auto
qed

lemma pk_digits_bad: "c \<in> set cs \<Longrightarrow> b58_digit c = None \<Longrightarrow> pk_digits_loop buf cs = None"
  by (induction cs arbitrary: buf) (auto split: option.splits prod.splits)

text \<open>The two decoders agree, up to the fixed size of the second.\<close>

lemma pk_b58_decode_eq:
  assumes "str \<noteq> []"
  shows "pk_b58_decode str =
    (case wf_b58_decode str of Inl _ \<Rightarrow> None | Inr data \<Rightarrow> if length data \<le> 67 then Some data else None)"
proof (cases "wf_b58_decode str")
  case (Inl e)
  have "\<exists>c \<in> set str. b58_digit c = None"
  proof (rule ccontr)
    assume "\<not> (\<exists>c \<in> set str. b58_digit c = None)"
    then have "\<forall>c \<in> set str. b58_digit c \<noteq> None" by auto
    from wf_b58_decode_valid [OF assms this] Inl show False by auto
  qed
  then show ?thesis using Inl pk_digits_bad by (auto simp: pk_b58_decode_def)
next
  case (Inr data)
  then have "b58_pair data str" using wf_b58_decode_pair [OF assms] by simp
  then obtain z ds es where a: "data = replicate z 0 @ map of_nat ds"
    "str = replicate z (wf_b58_alphabet ! 0) @ map ((!) wf_b58_alphabet) es"
    "plain 256 ds" "plain 58 es" "digits_num 256 ds = digits_num 58 es" unfolding b58_pair_def by blast
  have str: "str = map ((!) wf_b58_alphabet) (replicate z 0 @ es)" by (simp add: a(2))
  have "pk_digits_loop [] str = (if length ds \<le> 67 then Some ds else None)"
    unfolding str using a(3,4,5)
    by (intro pk_digits_loop) (auto simp: plain_def list_all_iff digits_num_append)
  moreover have "pk_zeros_loop ds str = (if length ds + z \<le> 67 then Some (replicate z 0 @ ds) else None)" if "length ds \<le> 67"
    unfolding a(2) using plain_hd_char [OF a(4)] by (intro pk_zeros_loop that) auto
  ultimately show ?thesis using Inr a(1) by (auto simp: pk_b58_decode_def)
qed

text \<open>Text and bytes determine each other.\<close>

lemma wf_b58_decode_encode: "data \<noteq> [] \<Longrightarrow> wf_b58_decode (wf_b58_encode data) = Inr data"
proof -
  assume ne: "data \<noteq> []"
  from wf_b58_encode_pair [of data] have p: "b58_pair data (wf_b58_encode data)" .
  have "wf_b58_encode data \<noteq> []"
    using b58_pair_functional [OF p, of "[]" "[]"] ne by (auto simp: b58_pair_def intro!: exI [of _ 0] exI [of _ "[]"])
  then show ?thesis using p wf_b58_decode_pair by blast
qed

lemma wf_b58_encode_decode: "wf_b58_decode str = Inr data \<Longrightarrow> wf_b58_encode data = str"
  using wf_b58_decode_pair [of str data] b58_pair_functional [OF wf_b58_encode_pair [of data], of data str]
  by (cases "str = []") (auto simp: wf_b58_decode_def [of "[]"])

end
