(* ===== verification/Signing.thy ===== *)
theory Signing
  imports Base58 Ref_Platform
begin

unbundle bit_operations_syntax

text \<open>
  Signing keys, their \<^verbatim>\<open>did:key\<close> text, and signatures: the model of \<^verbatim>\<open>src/crypto/crypto.c\<close>. The curve
  arithmetic is OpenSSL's and libsecp256k1's, and is a parameter \<open>ec_lib\<close>; what the code does around
  it is modelled: multicodec prefixes, text forms, the low-S normalisation on signing and the low-S
  check on verification, and every guard. A \<^verbatim>\<open>BIGNUM\<close> is an \<open>int\<close>. A C string argument is the list of
  its bytes, without the terminating NUL.
\<close>

section \<open>The curve libraries\<close>

text \<open>
  Points are in compressed SEC1 form. \<open>p256_sign\<close> stands for \<^verbatim>\<open>EVP_PKEY_sign\<close> followed by the decoding of
  its DER result, \<open>p256_verify\<close> for \<^verbatim>\<open>EVP_PKEY_verify\<close> on the encoding of a pair. Signatures of
  libsecp256k1 are given by their compact form; \<open>secp256k1_normalize\<close> also tells whether its
  argument was in the upper half.
\<close>

record ec_lib =
  have_secp256k1 :: bool
  p256_order :: int
  p256_keygen :: "bytes option"
  p256_keypair :: "bytes \<Rightarrow> bool"
  p256_point :: "bytes \<Rightarrow> bytes option"
  p256_sign :: "bytes \<Rightarrow> bytes \<Rightarrow> (int \<times> int) option"
  p256_public :: "bytes \<Rightarrow> bool"
  p256_verify :: "bytes \<Rightarrow> bytes \<Rightarrow> int \<times> int \<Rightarrow> bool"
  p256_compress :: "bytes \<Rightarrow> bytes option"
  secp256k1_seckey_verify :: "bytes \<Rightarrow> bool"
  secp256k1_point :: "bytes \<Rightarrow> bytes option"
  secp256k1_sign :: "bytes \<Rightarrow> bytes \<Rightarrow> bytes option"
  secp256k1_pubkey_parse :: "bytes \<Rightarrow> bool"
  secp256k1_parse_compact :: "bytes \<Rightarrow> bool"
  secp256k1_normalize :: "bytes \<Rightarrow> bool \<times> bytes"
  secp256k1_verify :: "bytes \<Rightarrow> bytes \<Rightarrow> bytes \<Rightarrow> bool"
  secp256k1_compress :: "bytes \<Rightarrow> bytes option"

definition BN_bin2bn :: "bytes \<Rightarrow> int" where
  "BN_bin2bn bs = int (digits_num 256 (map unat bs))"

text \<open>\<^verbatim>\<open>BN_bn2binpad(n, to, 32)\<close> writes the magnitude, and fails when it does not fit.\<close>

definition BN_bn2binpad32 :: "int \<Rightarrow> bytes option" where
  "BN_bn2binpad32 n = (if nat \<bar>n\<bar> < 256 ^ 32 then Some (be_bytes 32 (nat \<bar>n\<bar>)) else None)"

section \<open>Keys and their text\<close>

datatype wf_key_type = WF_KEY_TYPE_UNKNOWN | WF_KEY_TYPE_SECP256K1 | WF_KEY_TYPE_P256

record wf_signing_key =
  key_type :: wf_key_type
  key_bytes :: bytes

definition strncmp_eq :: "bytes \<Rightarrow> string \<Rightarrow> bool" where
  "strncmp_eq s lit \<longleftrightarrow> take (length lit) s = ascii lit"

text \<open>Both parsers of keys skip an optional \<^verbatim>\<open>did:key:\<close>.\<close>

definition multikey_payload :: "bytes \<Rightarrow> bytes" where
  "multikey_payload s = (if strncmp_eq s ''did:key:'' then drop 8 s else s)"

definition wf_didkey_encode :: "wf_key_type \<Rightarrow> bytes \<Rightarrow> bytes res" where
  "wf_didkey_encode type raw_pub =
     (if length raw_pub \<noteq> 33 then Inl WF_ERR_INVALID_ARG
      else case type of
             WF_KEY_TYPE_P256 \<Rightarrow> Inr (ascii ''did:key:z'' @ wf_b58_encode (0x80 # 0x24 # raw_pub))
           | WF_KEY_TYPE_SECP256K1 \<Rightarrow> Inr (ascii ''did:key:z'' @ wf_b58_encode (0xe7 # 0x01 # raw_pub))
           | _ \<Rightarrow> Inl WF_ERR_INVALID_ARG)"

definition wf_didkey_decode :: "bytes \<Rightarrow> (wf_key_type \<times> bytes) res" where
  "wf_didkey_decode didkey =
     (let payload = multikey_payload didkey
      in if \<not> strncmp_eq payload ''z'' then Inl WF_ERR_INVALID_ARG
         else case wf_b58_decode (drop 1 payload) of
                Inl s \<Rightarrow> Inl s
              | Inr decoded \<Rightarrow>
                  (if length decoded \<noteq> 35 then Inl WF_ERR_PARSE
                   else if decoded ! 0 = 0x80 \<and> decoded ! 1 = 0x24 then Inr (WF_KEY_TYPE_P256, drop 2 decoded)
                   else if decoded ! 0 = 0xe7 \<and> decoded ! 1 = 0x01 then Inr (WF_KEY_TYPE_SECP256K1, drop 2 decoded)
                   else Inl WF_ERR_PARSE))"

definition wf_signing_key_public_didkey :: "ec_lib \<Rightarrow> wf_signing_key \<Rightarrow> bytes res" where
  "wf_signing_key_public_didkey E key =
     (let finish = (\<lambda>prefixed. Inr (ascii ''did:key:z'' @ wf_b58_encode prefixed))
      in case key_type key of
           WF_KEY_TYPE_P256 \<Rightarrow>
             (case p256_point E (key_bytes key) of
                None \<Rightarrow> Inl WF_ERR_ALLOC
              | Some raw \<Rightarrow> if length raw \<noteq> 33 then Inl WF_ERR_ALLOC else finish (0x80 # 0x24 # raw))
         | WF_KEY_TYPE_SECP256K1 \<Rightarrow>
             (if \<not> have_secp256k1 E then Inl WF_ERR_INVALID_ARG
              else case secp256k1_point E (key_bytes key) of
                     None \<Rightarrow> Inl WF_ERR_ALLOC
                   | Some raw \<Rightarrow> finish (0xe7 # 0x01 # raw))
         | _ \<Rightarrow> Inl WF_ERR_INVALID_ARG)"

text \<open>Normalising the key material of a DID document.\<close>

definition wf_didkey_from_verification_method :: "ec_lib \<Rightarrow> bytes \<Rightarrow> bytes \<Rightarrow> bytes res" where
  "wf_didkey_from_verification_method E verification_type public_key_multibase =
     (if verification_type = ascii ''Multikey''
      then case wf_didkey_decode public_key_multibase of
             Inl s \<Rightarrow> Inl s
           | Inr (type, raw) \<Rightarrow> wf_didkey_encode type raw
      else
        let legacy = (\<lambda>type compress.
              if \<not> strncmp_eq public_key_multibase ''z'' then Inl WF_ERR_INVALID_ARG
              else case wf_b58_decode (drop 1 public_key_multibase) of
                     Inl s \<Rightarrow> Inl s
                   | Inr raw \<Rightarrow>
                       (if length raw = 65
                        then case compress raw of
                               None \<Rightarrow> Inl WF_ERR_PARSE
                             | Some compressed \<Rightarrow>
                                 if length compressed \<noteq> 33 then Inl WF_ERR_PARSE else wf_didkey_encode type compressed
                        else wf_didkey_encode type raw))
        in if verification_type = ascii ''EcdsaSecp256k1VerificationKey2019''
           then legacy WF_KEY_TYPE_SECP256K1 (secp256k1_compress E)
           else if verification_type = ascii ''EcdsaSecp256r1VerificationKey2019''
           then legacy WF_KEY_TYPE_P256 (p256_compress E)
           else Inl WF_ERR_NOT_IMPLEMENTED)"

definition wf_didkey_verification_method_id :: "bytes \<Rightarrow> bytes" where
  "wf_didkey_verification_method_id didkey = didkey @ ascii ''#'' @ didkey"

text \<open>Loading a private scalar from text.\<close>

definition wf_hex_nibble :: "byte \<Rightarrow> int" where
  "wf_hex_nibble c =
     (if of_char (CHR ''0'') \<le> c \<and> c \<le> of_char (CHR ''9'') then int (unat (c - of_char (CHR ''0'')))
      else if of_char (CHR ''a'') \<le> c \<and> c \<le> of_char (CHR ''f'') then int (unat (c - of_char (CHR ''a''))) + 10
      else if of_char (CHR ''A'') \<le> c \<and> c \<le> of_char (CHR ''F'') then int (unat (c - of_char (CHR ''A''))) + 10
      else -1)"

fun hex_loop :: "bytes \<Rightarrow> bytes option" where
  "hex_loop (h # l # cs) =
     (let high = wf_hex_nibble h; low = wf_hex_nibble l
      in if high < 0 \<or> low < 0 then None
         else map_option ((#) (of_int (push_bit 4 high OR low))) (hex_loop cs))"
| "hex_loop _ = Some []"

definition wf_signing_key_from_hex :: "wf_key_type \<Rightarrow> bytes \<Rightarrow> wf_signing_key res" where
  "wf_signing_key_from_hex type hex =
     (if (type \<noteq> WF_KEY_TYPE_P256 \<and> type \<noteq> WF_KEY_TYPE_SECP256K1) \<or> length hex \<noteq> 32 * 2 then Inl WF_ERR_INVALID_ARG
      else case hex_loop hex of
             None \<Rightarrow> Inl WF_ERR_INVALID_ARG
           | Some bs \<Rightarrow>
               if list_all (\<lambda>b. b = 0) bs then Inl WF_ERR_INVALID_ARG
               else Inr \<lparr>key_type = type, key_bytes = bs\<rparr>)"

text \<open>Generation; \<open>random i\<close> is the result of the \<open>i\<close>-th call of \<^verbatim>\<open>RAND_bytes\<close>.\<close>

fun keygen_loop :: "ec_lib \<Rightarrow> (nat \<Rightarrow> bytes option) \<Rightarrow> nat \<Rightarrow> nat \<Rightarrow> wf_signing_key res" where
  "keygen_loop E random attempt 0 = Inl WF_ERR_ALLOC"
| "keygen_loop E random attempt (Suc remaining) =
     (case random attempt of
        None \<Rightarrow> Inl WF_ERR_ALLOC
      | Some bs \<Rightarrow>
          if secp256k1_seckey_verify E bs
          then Inr \<lparr>key_type = WF_KEY_TYPE_SECP256K1, key_bytes = bs\<rparr>
          else keygen_loop E random (Suc attempt) remaining)"

definition wf_signing_key_generate :: "ec_lib \<Rightarrow> (nat \<Rightarrow> bytes option) \<Rightarrow> wf_key_type \<Rightarrow> wf_signing_key res" where
  "wf_signing_key_generate E random type =
     (case type of
        WF_KEY_TYPE_P256 \<Rightarrow>
          (case p256_keygen E of
             None \<Rightarrow> Inl WF_ERR_ALLOC
           | Some priv \<Rightarrow> Inr \<lparr>key_type = WF_KEY_TYPE_P256, key_bytes = priv\<rparr>)
      | WF_KEY_TYPE_SECP256K1 \<Rightarrow>
          (if have_secp256k1 E then keygen_loop E random 0 10 else Inl WF_ERR_INVALID_ARG)
      | _ \<Rightarrow> Inl WF_ERR_INVALID_ARG)"

section \<open>Signatures\<close>

definition wf_p256_is_low_s :: "ec_lib \<Rightarrow> int \<Rightarrow> bool" where
  "wf_p256_is_low_s E s \<longleftrightarrow> s \<le> p256_order E div 2"

definition wf_p256_normalize_s :: "ec_lib \<Rightarrow> int \<Rightarrow> int" where
  "wf_p256_normalize_s E s = (if p256_order E div 2 < s then p256_order E - s else s)"

definition wf_p256_sign_hash :: "ec_lib \<Rightarrow> bytes \<Rightarrow> bytes \<Rightarrow> bytes res" where
  "wf_p256_sign_hash E pkey hash =
     (case p256_sign E pkey hash of
        None \<Rightarrow> Inl WF_ERR_ALLOC
      | Some (r, s) \<Rightarrow>
          (case (BN_bn2binpad32 r, BN_bn2binpad32 (wf_p256_normalize_s E s)) of
             (Some rb, Some sb) \<Rightarrow> Inr (rb @ sb)
           | _ \<Rightarrow> Inl WF_ERR_ALLOC))"

definition wf_p256_verify_hash_pkey :: "ec_lib \<Rightarrow> bytes \<Rightarrow> bytes \<Rightarrow> bytes \<Rightarrow> bool \<Rightarrow> unit res" where
  "wf_p256_verify_hash_pkey E pkey hash sig allow_malleable =
     (let r = BN_bin2bn (take 32 sig); s = BN_bin2bn (take 32 (drop 32 sig))
      in if \<not> allow_malleable \<and> \<not> wf_p256_is_low_s E s then Inl WF_ERR_PARSE
         else if p256_verify E pkey hash (r, s) then Inr () else Inl WF_ERR_PARSE)"

definition wf_sign :: "platform \<Rightarrow> ec_lib \<Rightarrow> wf_signing_key \<Rightarrow> bytes \<Rightarrow> nat \<Rightarrow> bytes res" where
  "wf_sign P E key msg sig_out_cap =
     (if msg = [] \<or> sig_out_cap < 64 then Inl WF_ERR_INVALID_ARG
      else case key_type key of
             WF_KEY_TYPE_P256 \<Rightarrow>
               (if p256_keypair E (key_bytes key)
                then wf_p256_sign_hash E (key_bytes key) (SHA256 P msg) else Inl WF_ERR_ALLOC)
           | WF_KEY_TYPE_SECP256K1 \<Rightarrow>
               (if have_secp256k1 E
                then case secp256k1_sign E (key_bytes key) (SHA256 P msg) of
                       None \<Rightarrow> Inl WF_ERR_ALLOC
                     | Some sig \<Rightarrow> Inr sig
                else Inl WF_ERR_INVALID_ARG)
           | _ \<Rightarrow> Inl WF_ERR_INVALID_ARG)"

definition wf_verify_internal :: "platform \<Rightarrow> ec_lib \<Rightarrow> bytes \<Rightarrow> bytes \<Rightarrow> bytes \<Rightarrow> bool \<Rightarrow> unit res" where
  "wf_verify_internal P E public_key_multibase msg sig allow_malleable =
     (if msg = [] \<or> sig = [] then Inl WF_ERR_INVALID_ARG
      else
        let encoded = multikey_payload public_key_multibase
        in if \<not> strncmp_eq encoded ''z'' \<or> drop 1 encoded = [] then Inl WF_ERR_INVALID_ARG
           else case pk_b58_decode (drop 1 encoded) of
                  None \<Rightarrow> Inl WF_ERR_INVALID_ARG
                | Some pk_buf \<Rightarrow>
                    (if length pk_buf = 35 \<and> pk_buf ! 0 = 0x80 \<and> pk_buf ! 1 = 0x24
                     then if length sig \<noteq> 64 then Inl WF_ERR_INVALID_ARG
                          else if \<not> p256_public E (drop 2 pk_buf) then Inl WF_ERR_PARSE
                          else wf_p256_verify_hash_pkey E (drop 2 pk_buf) (SHA256 P msg) sig allow_malleable
                     else if length pk_buf = 35 \<and> pk_buf ! 0 = 0xe7 \<and> pk_buf ! 1 = 0x01
                     then if \<not> have_secp256k1 E then Inl WF_ERR_INVALID_ARG
                          else if \<not> secp256k1_pubkey_parse E (drop 2 pk_buf) then Inl WF_ERR_PARSE
                          else if length sig \<noteq> 64 then Inl WF_ERR_INVALID_ARG
                          else if \<not> secp256k1_parse_compact E sig then Inl WF_ERR_PARSE
                          else case secp256k1_normalize E sig of
                                 (was_high, normalized_sig) \<Rightarrow>
                                   (if was_high \<and> \<not> allow_malleable then Inl WF_ERR_PARSE
                                    else if secp256k1_verify E (drop 2 pk_buf) (SHA256 P msg) normalized_sig
                                    then Inr () else Inl WF_ERR_PARSE)
                     else Inl WF_ERR_INVALID_ARG))"

definition wf_verify :: "platform \<Rightarrow> ec_lib \<Rightarrow> bytes \<Rightarrow> bytes \<Rightarrow> bytes \<Rightarrow> unit res" where
  "wf_verify P E public_key_multibase msg sig = wf_verify_internal P E public_key_multibase msg sig False"

definition wf_verify_allow_malleable :: "platform \<Rightarrow> ec_lib \<Rightarrow> bytes \<Rightarrow> bytes \<Rightarrow> bytes \<Rightarrow> unit res" where
  "wf_verify_allow_malleable P E public_key_multibase msg sig =
     wf_verify_internal P E public_key_multibase msg sig True"

section \<open>What the code relies on\<close>

text \<open>
  ECDSA as the libraries document it: the order of P-256 is odd and fits 256 bits; a signature
  verifies under the public point of its key; verification demands both halves in range, and does not
  distinguish \<open>s\<close> from \<open>n - s\<close>. libsecp256k1 signs in the lower half; its compact parser refuses a half
  that is not below the order, and normalising replaces \<open>s\<close> in the upper half by \<open>n - s\<close> and reports that.
\<close>

definition secp256k1_n :: int where
  "secp256k1_n = 0xfffffffffffffffffffffffffffffffebaaedce6af48a03bbfd25e8cd0364141"

locale ec_laws =
  fixes E :: ec_lib
  assumes p256_order: "odd (p256_order E)" "2 < p256_order E" "p256_order E < 256 ^ 32"
    and p256_sign_range: "p256_sign E k h = Some (r, s) \<Longrightarrow> 0 < r \<and> r < p256_order E \<and> 0 < s \<and> s < p256_order E"
    and p256_sign_verify: "p256_keypair E k \<Longrightarrow> p256_sign E k h = Some (r, s) \<Longrightarrow> p256_point E k = Some pub \<Longrightarrow>
      p256_public E pub \<and> p256_verify E pub h (r, s)"
    and p256_verify_range: "p256_verify E pub h (r, s) \<Longrightarrow> 0 < r \<and> r < p256_order E \<and> 0 < s \<and> s < p256_order E"
    and p256_verify_negate: "p256_verify E pub h (r, s) \<Longrightarrow> p256_verify E pub h (r, p256_order E - s)"
    and secp256k1_point_size: "secp256k1_point E k = Some pub \<Longrightarrow> length pub = 33"
    and secp256k1_sign_verify: "secp256k1_sign E k h = Some sig \<Longrightarrow> secp256k1_point E k = Some pub \<Longrightarrow>
      length sig = 64 \<and> secp256k1_pubkey_parse E pub \<and> secp256k1_parse_compact E sig \<and>
      secp256k1_normalize E sig = (False, sig) \<and> secp256k1_verify E pub h sig"
    and secp256k1_parse_compact: "length sig = 64 \<Longrightarrow> secp256k1_parse_compact E sig \<longleftrightarrow>
      BN_bin2bn (take 32 sig) < secp256k1_n \<and> BN_bin2bn (drop 32 sig) < secp256k1_n"
    and secp256k1_normalize: "length sig = 64 \<Longrightarrow> secp256k1_parse_compact E sig \<Longrightarrow> s = BN_bin2bn (drop 32 sig) \<Longrightarrow>
      secp256k1_normalize E sig =
        (if secp256k1_n div 2 < s then (True, take 32 sig @ be_bytes 32 (nat (secp256k1_n - s))) else (False, sig))"
    and secp256k1_verify_range: "secp256k1_verify E pub h sig \<Longrightarrow> 0 < BN_bin2bn (drop 32 sig)"
begin

lemma normalize_s_low:
  assumes "0 < s" "s < p256_order E"
  shows "0 < wf_p256_normalize_s E s \<and> wf_p256_normalize_s E s < p256_order E \<and> wf_p256_is_low_s E (wf_p256_normalize_s E s)"
  using assms p256_order(1) by (auto simp: wf_p256_normalize_s_def wf_p256_is_low_s_def elim!: oddE)

text \<open>Exactly one of \<open>s\<close> and \<open>n - s\<close> passes the low-S check.\<close>

lemma low_s_unique:
  assumes "0 < s" "s < p256_order E"
  shows "wf_p256_is_low_s E (p256_order E - s) \<longleftrightarrow> \<not> wf_p256_is_low_s E s"
  using assms p256_order(1) by (auto simp: wf_p256_is_low_s_def elim!: oddE)

end

section \<open>Text of keys\<close>

lemma digits_be_bytes: "digits_num 256 (map unat (be_bytes k n)) = n mod 256 ^ k"
proof (induction k)
  case (Suc k)
  have "unat (of_nat (n div 256 ^ k) :: byte) = (n div 256 ^ k) mod 256" by (simp add: unat_of_nat)
  with Suc show ?case
    using mod_mult2_eq [of n "256 ^ k" 256] by (simp add: be_bytes_Suc digits_num_Cons mult.commute)
qed (simp add: be_bytes_def)

lemma be_bytes_digits: "be_bytes (length bs) (digits_num 256 (map unat bs)) = bs"
  by (rule bytes_num_inject) (simp_all add: digits_be_bytes digits_num_less [OF bytes_digits, of bs, simplified])

lemma BN_bin2bn_bn2binpad: "BN_bn2binpad32 n = Some bs \<Longrightarrow> 0 \<le> n \<Longrightarrow> length bs = 32 \<and> BN_bin2bn bs = n"
  by (auto simp: BN_bn2binpad32_def BN_bin2bn_def digits_be_bytes split: if_splits)

lemma BN_bin2bn_be_bytes: "0 \<le> n \<Longrightarrow> n < 256 ^ 32 \<Longrightarrow> length (be_bytes 32 (nat n)) = 32 \<and> BN_bin2bn (be_bytes 32 (nat n)) = n"
  using BN_bin2bn_bn2binpad [of n "be_bytes 32 (nat n)"] by (simp add: BN_bn2binpad32_def nat_less_iff)

lemma multikey_text [simp]:
  "multikey_payload (ascii ''did:key:z'' @ str) = ascii ''z'' @ str"
  "strncmp_eq (ascii ''z'' @ str) ''z''" "drop (Suc 0) (ascii ''z'' @ str) = str" "drop 1 (ascii ''z'' @ str) = str"
  by (simp_all add: multikey_payload_def strncmp_eq_def ascii_def)

lemma multikey_cases: "s = multikey_payload s \<or> s = ascii ''did:key:'' @ multikey_payload s"
proof -
  have "s = ascii ''did:key:'' @ drop 8 s" if "strncmp_eq s ''did:key:''"
    using that append_take_drop_id [of 8 s] by (simp add: strncmp_eq_def numeral_eq_Suc)
  then show ?thesis by (auto simp: multikey_payload_def)
qed

lemma strncmp_prefix: "strncmp_eq s lit \<Longrightarrow> s = ascii lit @ drop (length lit) s"
  unfolding strncmp_eq_def by (metis append_take_drop_id)

text \<open>The text of a key decodes to the key, and whatever decodes is the text of its key, up to the
  optional \<^verbatim>\<open>did:key:\<close>.\<close>

lemma didkey_encode_decode:
  assumes "wf_didkey_encode type raw = Inr s"
  shows "wf_didkey_decode s = Inr (type, raw)"
proof -
  obtain a b where s: "s = ascii ''did:key:z'' @ wf_b58_encode (a # b # raw)" "length raw = 33"
    "(type, a, b) \<in> {(WF_KEY_TYPE_P256, 0x80, 0x24), (WF_KEY_TYPE_SECP256K1, 0xe7, 0x01)}"
    using assms by (auto simp: wf_didkey_encode_def split: if_splits wf_key_type.splits)
  then show ?thesis
    using wf_b58_decode_encode [of "a # b # raw"]
    by (auto simp: wf_didkey_decode_def Let_def simp del: drop_append)
qed

lemma didkey_decode_encode:
  assumes "wf_didkey_decode s = Inr (type, raw)"
  shows "wf_didkey_encode type raw = Inr s \<or> wf_didkey_encode type raw = Inr (ascii ''did:key:'' @ s)"
proof -
  define payload where "payload = multikey_payload s"
  obtain decoded where d: "strncmp_eq payload ''z''" "wf_b58_decode (drop 1 payload) = Inr decoded" "length decoded = 35"
    "(type, decoded ! 0, decoded ! 1) \<in> {(WF_KEY_TYPE_P256, 0x80, 0x24), (WF_KEY_TYPE_SECP256K1, 0xe7, 0x01)}"
    "raw = drop 2 decoded"
    using assms unfolding wf_didkey_decode_def payload_def [symmetric] Let_def by (auto split: if_splits sum.splits)
  then obtain a b rest where ab: "decoded = a # b # rest" "length rest = 33" by (auto simp: length_Suc_conv numeral_eq_Suc)
  have pay: "payload = ascii ''z'' @ wf_b58_encode decoded"
    using strncmp_prefix [OF d(1)] wf_b58_encode_decode [OF d(2)] by simp
  have "wf_didkey_encode type raw = Inr (ascii ''did:key:z'' @ wf_b58_encode decoded)"
    using d(4,5) ab by (auto simp: wf_didkey_encode_def)
  also have "ascii ''did:key:z'' @ wf_b58_encode decoded = ascii ''did:key:'' @ payload" by (simp add: pay ascii_def)
  finally show ?thesis using multikey_cases [of s] by (auto simp: payload_def)
qed

lemma public_didkey_decode:
  assumes "ec_laws E" "wf_signing_key_public_didkey E key = Inr s"
  obtains pub where "s = ascii ''did:key:z'' @ wf_b58_encode (0x80 # 0x24 # pub)" "length pub = 33"
      "key_type key = WF_KEY_TYPE_P256" "p256_point E (key_bytes key) = Some pub"
    | pub where "s = ascii ''did:key:z'' @ wf_b58_encode (0xe7 # 0x01 # pub)" "length pub = 33" "have_secp256k1 E"
      "key_type key = WF_KEY_TYPE_SECP256K1" "secp256k1_point E (key_bytes key) = Some pub"
  using assms(2) ec_laws.secp256k1_point_size [OF assms(1)]
  by (auto simp: wf_signing_key_public_didkey_def Let_def split: wf_key_type.splits option.splits if_splits)

section \<open>Signatures\<close>

lemma verify_decoded:
  assumes "length pub = 33" "msg \<noteq> []" "sig \<noteq> []"
  shows "wf_verify_internal P E (ascii ''did:key:z'' @ wf_b58_encode (0x80 # 0x24 # pub)) msg sig mall =
      (if length sig \<noteq> 64 then Inl WF_ERR_INVALID_ARG else if \<not> p256_public E pub then Inl WF_ERR_PARSE
       else wf_p256_verify_hash_pkey E pub (SHA256 P msg) sig mall)"
    "wf_verify_internal P E (ascii ''did:key:z'' @ wf_b58_encode (0xe7 # 0x01 # pub)) msg sig mall =
      (if \<not> have_secp256k1 E then Inl WF_ERR_INVALID_ARG
       else if \<not> secp256k1_pubkey_parse E pub then Inl WF_ERR_PARSE
       else if length sig \<noteq> 64 then Inl WF_ERR_INVALID_ARG
       else if \<not> secp256k1_parse_compact E sig then Inl WF_ERR_PARSE
       else case secp256k1_normalize E sig of (was_high, norm) \<Rightarrow>
         if was_high \<and> \<not> mall then Inl WF_ERR_PARSE
         else if secp256k1_verify E pub (SHA256 P msg) norm then Inr () else Inl WF_ERR_PARSE)"
proof -
  have dec: "pk_b58_decode (wf_b58_encode (a # b # pub)) = Some (a # b # pub)" for a b
    using wf_b58_decode_encode [of "a # b # pub"] pk_b58_decode_eq [of "wf_b58_encode (a # b # pub)"] assms(1)
    by (cases "wf_b58_encode (a # b # pub) = []") (auto simp: wf_b58_decode_def [of "[]"])
  have ne: "wf_b58_encode (a # b # pub) \<noteq> []" for a b
    using wf_b58_decode_encode [of "a # b # pub"] by (auto simp: wf_b58_decode_def [of "[]"])
  from assms show "wf_verify_internal P E (ascii ''did:key:z'' @ wf_b58_encode (0x80 # 0x24 # pub)) msg sig mall =
      (if length sig \<noteq> 64 then Inl WF_ERR_INVALID_ARG else if \<not> p256_public E pub then Inl WF_ERR_PARSE
       else wf_p256_verify_hash_pkey E pub (SHA256 P msg) sig mall)"
    by (simp add: wf_verify_internal_def Let_def dec ne del: drop_append drop_eq_Nil)
  from assms show "wf_verify_internal P E (ascii ''did:key:z'' @ wf_b58_encode (0xe7 # 0x01 # pub)) msg sig mall =
      (if \<not> have_secp256k1 E then Inl WF_ERR_INVALID_ARG
       else if \<not> secp256k1_pubkey_parse E pub then Inl WF_ERR_PARSE
       else if length sig \<noteq> 64 then Inl WF_ERR_INVALID_ARG
       else if \<not> secp256k1_parse_compact E sig then Inl WF_ERR_PARSE
       else case secp256k1_normalize E sig of (was_high, norm) \<Rightarrow>
         if was_high \<and> \<not> mall then Inl WF_ERR_PARSE
         else if secp256k1_verify E pub (SHA256 P msg) norm then Inr () else Inl WF_ERR_PARSE)"
    by (simp add: wf_verify_internal_def Let_def dec ne del: drop_append drop_eq_Nil split: prod.split) auto
qed

context ec_laws
begin

lemma p256_sign_hash_verifies:
  assumes "p256_keypair E k" "wf_p256_sign_hash E k h = Inr sig" "p256_point E k = Some pub"
  shows "length sig = 64 \<and> p256_public E pub \<and> wf_p256_verify_hash_pkey E pub h sig mall = Inr ()"
proof -
  from assms(2) obtain r s rb sb where rs: "p256_sign E k h = Some (r, s)" "BN_bn2binpad32 r = Some rb"
    "BN_bn2binpad32 (wf_p256_normalize_s E s) = Some sb" "sig = rb @ sb"
    by (auto simp: wf_p256_sign_hash_def split: option.splits prod.splits)
  from p256_sign_range [OF rs(1)] have r: "0 < r" "r < p256_order E" "0 < s" "s < p256_order E" by auto
  have b: "length rb = 32" "BN_bin2bn rb = r" "length sb = 32" "BN_bin2bn sb = wf_p256_normalize_s E s"
    using BN_bin2bn_bn2binpad [OF rs(2)] BN_bin2bn_bn2binpad [OF rs(3)] normalize_s_low [OF r(3,4)] r by auto
  have v: "p256_public E pub" "p256_verify E pub h (r, s)" using p256_sign_verify [OF assms(1) rs(1) assms(3)] by auto
  then have "p256_verify E pub h (r, wf_p256_normalize_s E s)"
    using p256_verify_negate by (auto simp: wf_p256_normalize_s_def)
  with b v normalize_s_low [OF r(3,4)] rs(4) show ?thesis by (simp add: wf_p256_verify_hash_pkey_def)
qed

lemma sign_verifies:
  assumes "wf_sign P E key msg cap = Inr sig" "wf_signing_key_public_didkey E key = Inr pub"
  shows "wf_verify_internal P E pub msg sig mall = Inr ()"
proof -
  have msg: "msg \<noteq> []" using assms(1) by (auto simp: wf_sign_def)
  from ec_laws_axioms assms(2) show ?thesis
  proof (cases rule: public_didkey_decode)
    case (1 raw)
    with assms(1) have "p256_keypair E (key_bytes key)" "wf_p256_sign_hash E (key_bytes key) (SHA256 P msg) = Inr sig"
      by (auto simp: wf_sign_def split: if_splits)
    from p256_sign_hash_verifies [OF this 1(4)] show ?thesis
      using verify_decoded(1) [OF 1(2) msg, of sig] 1(1) by (cases sig) auto
  next
    case (2 raw)
    with assms(1) have "secp256k1_sign E (key_bytes key) (SHA256 P msg) = Some sig"
      by (auto simp: wf_sign_def split: if_splits option.splits)
    from secp256k1_sign_verify [OF this 2(5)] show ?thesis
      using verify_decoded(2) [OF 2(2) msg, of sig] 2(1,3) by (cases sig) auto
  qed
qed

text \<open>An accepted signature is in the lower half, and the other one of the pair is refused.\<close>

lemma verify_low_s:
  assumes "wf_p256_verify_hash_pkey E pub h (rb @ sb) False = Inr ()" "length rb = 32" "length sb = 32"
    "sb' = be_bytes 32 (nat (p256_order E - BN_bin2bn sb))"
  shows "2 * BN_bin2bn sb < p256_order E \<and>
    wf_p256_verify_hash_pkey E pub h (rb @ sb') False = Inl WF_ERR_PARSE \<and>
    wf_p256_verify_hash_pkey E pub h (rb @ sb') True = Inr ()"
proof -
  let ?s = "BN_bin2bn sb"
  from assms(1-3) have v: "p256_verify E pub h (BN_bin2bn rb, ?s)" "wf_p256_is_low_s E ?s"
    by (auto simp: wf_p256_verify_hash_pkey_def Let_def split: if_splits)
  from p256_verify_range [OF v(1)] have r: "0 < ?s" "?s < p256_order E" by auto
  have b: "length sb' = 32" "BN_bin2bn sb' = p256_order E - ?s"
    using BN_bin2bn_be_bytes [of "p256_order E - ?s"] r p256_order(3) by (simp_all add: assms(4))
  have "2 * ?s < p256_order E" using v(2) p256_order(1) by (auto simp: wf_p256_is_low_s_def elim!: oddE)
  with b p256_verify_negate [OF v(1)] low_s_unique [OF r] v(2) assms(2) show ?thesis
    by (simp add: wf_p256_verify_hash_pkey_def)
qed

lemma secp256k1_low_s:
  assumes "length rb = 32" "length sb = 32" "secp256k1_parse_compact E (rb @ sb)"
    "secp256k1_normalize E (rb @ sb) = (False, norm)" "secp256k1_verify E pub h norm"
    "sb' = be_bytes 32 (nat (secp256k1_n - BN_bin2bn sb))"
  shows "2 * BN_bin2bn sb < secp256k1_n \<and> secp256k1_parse_compact E (rb @ sb') \<and>
    secp256k1_normalize E (rb @ sb') = (True, norm)"
proof -
  let ?s = "BN_bin2bn sb" and ?n = secp256k1_n
  have low: "?s \<le> ?n div 2" "norm = rb @ sb"
    using secp256k1_normalize [OF _ assms(3) refl] assms(1,2,4) by (auto split: if_splits)
  have pos: "0 < ?s" using secp256k1_verify_range [OF assms(5)] assms(1) low(2) by simp
  have lt: "BN_bin2bn rb < ?n" "?s < ?n" using secp256k1_parse_compact [of "rb @ sb"] assms(1-3) by auto
  have half: "2 * ?s < ?n" "?n div 2 < ?n - ?s" using low(1) by (simp_all add: secp256k1_n_def)
  have sb': "length sb' = 32" "BN_bin2bn sb' = ?n - ?s"
    using BN_bin2bn_be_bytes [of "?n - ?s"] pos lt by (simp_all add: assms(6) secp256k1_n_def)
  have parse: "secp256k1_parse_compact E (rb @ sb')"
    using secp256k1_parse_compact [of "rb @ sb'"] assms(1) sb' lt pos by simp
  have "be_bytes 32 (nat ?s) = sb" using be_bytes_digits [of sb] assms(2) by (simp add: BN_bin2bn_def)
  then show ?thesis
    using secp256k1_normalize [OF _ parse refl] assms(1) sb' half low(2) parse by simp
qed

end

section \<open>An example library\<close>

text \<open>
  A keyed function in the place of ECDSA, with the order of P-256 and its symmetry: the point of a
  key is the key itself, the signature of a hash is computed from both, and verification recomputes
  it. It shows that the laws can hold and serves the witnesses.
\<close>

definition ex_order :: int where
  "ex_order = 0xffffffff00000000ffffffffffffffffbce6faada7179e84f3b9cac2fc632551"

definition ex_mac :: "bytes \<Rightarrow> bytes \<Rightarrow> int" where
  "ex_mac k h = 1 + (BN_bin2bn k + BN_bin2bn h) mod (ex_order - 1)"

definition ex_point :: "bytes \<Rightarrow> bytes option" where
  "ex_point k = (if length k = 32 then Some (2 # k) else None)"

text \<open>For secp256k1 likewise, in the lower half.\<close>

definition ex_low :: "bytes \<Rightarrow> bytes \<Rightarrow> int" where
  "ex_low k h = 1 + (BN_bin2bn k + BN_bin2bn h) mod (secp256k1_n div 2)"

definition ex_compact :: "bytes \<Rightarrow> bytes \<Rightarrow> bytes" where
  "ex_compact k h = be_bytes 32 (nat 1) @ be_bytes 32 (nat (ex_low k h))"

definition ex_parse_compact :: "bytes \<Rightarrow> bool" where
  "ex_parse_compact sig \<longleftrightarrow>
     length sig = 64 \<and> BN_bin2bn (take 32 sig) < secp256k1_n \<and> BN_bin2bn (drop 32 sig) < secp256k1_n"

definition ex_normalize :: "bytes \<Rightarrow> bool \<times> bytes" where
  "ex_normalize sig =
     (let s = BN_bin2bn (drop 32 sig)
      in if secp256k1_n div 2 < s then (True, take 32 sig @ be_bytes 32 (nat (secp256k1_n - s))) else (False, sig))"

definition ex_ec :: ec_lib where
  "ex_ec = \<lparr>have_secp256k1 = True, p256_order = ex_order, p256_keygen = None, p256_keypair = (\<lambda>k. length k = 32),
     p256_point = ex_point, p256_sign = (\<lambda>k h. Some (ex_mac k h, ex_mac k h)),
     p256_public = (\<lambda>pub. length pub = 33),
     p256_verify = (\<lambda>pub h (r, s). r = ex_mac (tl pub) h \<and> (s = ex_mac (tl pub) h \<or> s = ex_order - ex_mac (tl pub) h)),
     p256_compress = (\<lambda>_. None), secp256k1_seckey_verify = (\<lambda>k. length k = 32), secp256k1_point = ex_point,
     secp256k1_sign = (\<lambda>k h. Some (ex_compact k h)), secp256k1_pubkey_parse = (\<lambda>pub. length pub = 33),
     secp256k1_parse_compact = ex_parse_compact, secp256k1_normalize = ex_normalize,
     secp256k1_verify = (\<lambda>pub h sig. sig = ex_compact (tl pub) h), secp256k1_compress = (\<lambda>_. None)\<rparr>"

lemma ex_mac_range: "0 < ex_mac k h" "ex_mac k h < ex_order"
proof -
  have o: "0 < ex_order - 1" by (simp add: ex_order_def)
  show "0 < ex_mac k h" "ex_mac k h < ex_order"
    using pos_mod_sign [OF o, of "BN_bin2bn k + BN_bin2bn h"] pos_mod_bound [OF o, of "BN_bin2bn k + BN_bin2bn h"]
    unfolding ex_mac_def by linarith+
qed

lemma ex_low_range: "0 < ex_low k h" "ex_low k h \<le> secp256k1_n div 2"
proof -
  have o: "0 < secp256k1_n div 2" by (simp add: secp256k1_n_def)
  show "0 < ex_low k h" "ex_low k h \<le> secp256k1_n div 2"
    using pos_mod_sign [OF o, of "BN_bin2bn k + BN_bin2bn h"] pos_mod_bound [OF o, of "BN_bin2bn k + BN_bin2bn h"]
    unfolding ex_low_def by linarith+
qed

lemma ex_compact_low:
  "length (ex_compact k h) = 64" "BN_bin2bn (drop 32 (ex_compact k h)) = ex_low k h" "ex_parse_compact (ex_compact k h)"
  "ex_normalize (ex_compact k h) = (False, ex_compact k h)"
proof -
  have half: "secp256k1_n div 2 < 256 ^ 32" "secp256k1_n div 2 < secp256k1_n" "1 < secp256k1_n"
    by (simp_all add: secp256k1_n_def)
  note r = BN_bin2bn_be_bytes [of 1]
  have s: "length (be_bytes 32 (nat (ex_low k h))) = 32" "BN_bin2bn (be_bytes 32 (nat (ex_low k h))) = ex_low k h"
    using BN_bin2bn_be_bytes [of "ex_low k h"] ex_low_range [of k h] half(1) by linarith+
  show l: "length (ex_compact k h) = 64" "BN_bin2bn (drop 32 (ex_compact k h)) = ex_low k h"
    using r s by (simp_all add: ex_compact_def)
  have "BN_bin2bn (take 32 (ex_compact k h)) = 1" using r by (simp add: ex_compact_def)
  then show "ex_parse_compact (ex_compact k h)"
    unfolding ex_parse_compact_def l using ex_low_range(2) [of k h] half(2,3) by linarith
  show "ex_normalize (ex_compact k h) = (False, ex_compact k h)"
    unfolding ex_normalize_def l Let_def using ex_low_range(2) [of k h] by (simp add: not_less)
qed

lemma ex_ec_sel [simp]:
  "have_secp256k1 ex_ec" "p256_order ex_ec = ex_order" "p256_keypair ex_ec k \<longleftrightarrow> length k = 32"
  "p256_point ex_ec = ex_point" "p256_sign ex_ec k h = Some (ex_mac k h, ex_mac k h)"
  "p256_public ex_ec pub \<longleftrightarrow> length pub = 33"
  "p256_verify ex_ec pub h (r, s) \<longleftrightarrow>
     r = ex_mac (tl pub) h \<and> (s = ex_mac (tl pub) h \<or> s = ex_order - ex_mac (tl pub) h)"
  "secp256k1_point ex_ec = ex_point" "secp256k1_sign ex_ec k h = Some (ex_compact k h)"
  "secp256k1_pubkey_parse ex_ec pub \<longleftrightarrow> length pub = 33" "secp256k1_parse_compact ex_ec = ex_parse_compact"
  "secp256k1_normalize ex_ec = ex_normalize" "secp256k1_verify ex_ec pub h sig \<longleftrightarrow> sig = ex_compact (tl pub) h"
  by (simp_all add: ex_ec_def)

interpretation ex_ec: ec_laws ex_ec
proof unfold_locales
  show "odd (p256_order ex_ec)" "2 < p256_order ex_ec" "p256_order ex_ec < 256 ^ 32"
    by (simp_all add: ex_order_def)
  fix k h pub sig
  assume "secp256k1_sign ex_ec k h = Some sig" "secp256k1_point ex_ec k = Some pub"
  then show "length sig = 64 \<and> secp256k1_pubkey_parse ex_ec pub \<and> secp256k1_parse_compact ex_ec sig \<and>
      secp256k1_normalize ex_ec sig = (False, sig) \<and> secp256k1_verify ex_ec pub h sig"
    using ex_compact_low [of k h] by (auto simp: ex_point_def split: if_splits)
next
  fix sig :: bytes and s :: int
  assume "s = BN_bin2bn (drop 32 sig)"
  then show "secp256k1_normalize ex_ec sig =
      (if secp256k1_n div 2 < s then (True, take 32 sig @ be_bytes 32 (nat (secp256k1_n - s))) else (False, sig))"
    by (simp only: ex_ec_sel ex_normalize_def Let_def)
next
  fix pub h sig
  assume "secp256k1_verify ex_ec pub h sig"
  then show "0 < BN_bin2bn (drop 32 sig)" using ex_compact_low(2) ex_low_range(1) by (simp only: ex_ec_sel)
next
  fix sig :: bytes
  assume "length sig = 64"
  then show "secp256k1_parse_compact ex_ec sig \<longleftrightarrow>
      BN_bin2bn (take 32 sig) < secp256k1_n \<and> BN_bin2bn (drop 32 sig) < secp256k1_n"
    by (simp only: ex_ec_sel ex_parse_compact_def simp_thms)
qed (use ex_mac_range in \<open>auto simp: ex_point_def split: if_splits\<close>)

section \<open>Properties\<close>

text \<open>Base58 is a bijection between non-empty byte strings and valid text: decoding inverts encoding,
  encoding inverts decoding (so a byte string has one text), and the decoder inlined in the signature
  verifier accepts exactly what the library's decoder accepts, with the same result, up to its
  buffer of 67 bytes.\<close>

theorem b58_roundtrip:
  "(data \<noteq> [] \<longrightarrow> wf_b58_decode (wf_b58_encode data) = Inr data) \<and>
   (wf_b58_decode str = Inr data \<longrightarrow> wf_b58_encode data = str) \<and>
   (str \<noteq> [] \<longrightarrow> pk_b58_decode str =
      (case wf_b58_decode str of Inl _ \<Rightarrow> None | Inr d \<Rightarrow> if length d \<le> 67 then Some d else None))"
  using wf_b58_decode_encode wf_b58_encode_decode pk_b58_decode_eq by blast

theorem b58_roundtrip_witness:
  "wf_b58_decode (ascii ''1Ldp'') = Inr [0, 1, 2, 3] \<and> wf_b58_encode [0, 1, 2, 3] = ascii ''1Ldp'' \<and>
   pk_b58_decode (ascii ''1Ldp'') = Some [0, 1, 2, 3]"
proof -
  have d: "wf_b58_decode (ascii ''1Ldp'') = Inr [0, 1, 2, 3]" by code_simp
  from b58_roundtrip [of "[0, 1, 2, 3]" "ascii ''1Ldp''"] d show ?thesis by (simp add: ascii_def)
qed

text \<open>The text of a public key is faithful: \<open>wf_didkey_decode\<close> returns the type and point that
  \<open>wf_didkey_encode\<close> was given, and what it accepts is exactly the encoding of its result, with or
  without the \<^verbatim>\<open>did:key:\<close> in front.\<close>

theorem didkey_roundtrip:
  "(wf_didkey_encode type raw = Inr s \<longrightarrow> wf_didkey_decode s = Inr (type, raw)) \<and>
   (wf_didkey_decode s = Inr (type, raw) \<longrightarrow>
      wf_didkey_encode type raw = Inr s \<or> wf_didkey_encode type raw = Inr (ascii ''did:key:'' @ s))"
  using didkey_encode_decode didkey_decode_encode by blast

theorem didkey_roundtrip_witness:
  "\<exists>s. wf_didkey_encode WF_KEY_TYPE_P256 (2 # replicate 32 9) = Inr s \<and>
     wf_didkey_decode s = Inr (WF_KEY_TYPE_P256, 2 # replicate 32 9)"
proof -
  obtain s where s: "wf_didkey_encode WF_KEY_TYPE_P256 (2 # replicate 32 9) = Inr s"
    by (simp add: wf_didkey_encode_def)
  with didkey_roundtrip [of WF_KEY_TYPE_P256 "2 # replicate 32 9" s] show ?thesis by auto
qed

text \<open>Whatever \<open>wf_sign\<close> returns for a key, \<open>wf_verify\<close> accepts for the same message under the
  \<^verbatim>\<open>did:key\<close> of that key: the low-S normalisation, the encodings and the strict low-S check fit
  together.\<close>

theorem sign_verify:
  assumes "ec_laws E" "wf_sign P E key msg cap = Inr sig" "wf_signing_key_public_didkey E key = Inr pub"
  shows "wf_verify P E pub msg sig = Inr () \<and> wf_verify_allow_malleable P E pub msg sig = Inr ()"
  using ec_laws.sign_verifies [OF assms] by (simp add: wf_verify_def wf_verify_allow_malleable_def)

definition ex_key :: "wf_key_type \<Rightarrow> wf_signing_key" where
  "ex_key type = \<lparr>key_type = type, key_bytes = replicate 32 5\<rparr>"

lemma be_mac: "BN_bn2binpad32 (ex_mac k h) \<noteq> None" "BN_bn2binpad32 (ex_order - ex_mac k h) \<noteq> None"
proof -
  have "nat \<bar>n\<bar> < 256 ^ 32" if "0 < n" "n < ex_order" for n
  proof -
    have "n < 256 ^ 32" using that(2) by (simp add: ex_order_def)
    with that(1) show ?thesis by (simp add: nat_less_iff)
  qed
  then show "BN_bn2binpad32 (ex_mac k h) \<noteq> None" "BN_bn2binpad32 (ex_order - ex_mac k h) \<noteq> None"
    using ex_mac_range [of k h] by (auto simp: BN_bn2binpad32_def)
qed

lemma ex_sign: "msg \<noteq> [] \<Longrightarrow> \<exists>sig. wf_sign P ex_ec (ex_key WF_KEY_TYPE_P256) msg 64 = Inr sig"
  using be_mac [of "replicate 32 5" "SHA256 P msg"]
  by (auto simp: wf_sign_def ex_key_def ex_ec_def wf_p256_sign_hash_def wf_p256_normalize_s_def split: option.splits)

lemma ex_pub: "\<exists>pub. wf_signing_key_public_didkey ex_ec (ex_key WF_KEY_TYPE_P256) = Inr pub"
  by (simp add: wf_signing_key_public_didkey_def ex_key_def ex_ec_def ex_point_def)

theorem sign_verify_witness:
  "\<exists>pub sig. wf_signing_key_public_didkey ex_ec (ex_key WF_KEY_TYPE_P256) = Inr pub \<and>
     wf_sign (ref_platform toy_sha) ex_ec (ex_key WF_KEY_TYPE_P256) [1, 2, 3] 64 = Inr sig \<and>
     wf_verify (ref_platform toy_sha) ex_ec pub [1, 2, 3] sig = Inr ()"
proof -
  obtain sig where s: "wf_sign (ref_platform toy_sha) ex_ec (ex_key WF_KEY_TYPE_P256) [1, 2, 3] 64 = Inr sig"
    using ex_sign [of "[1, 2, 3]" "ref_platform toy_sha"] by auto
  obtain pub where p: "wf_signing_key_public_didkey ex_ec (ex_key WF_KEY_TYPE_P256) = Inr pub" using ex_pub by blast
  from sign_verify [OF ex_ec.ec_laws_axioms s p] s p show ?thesis by blast
qed

text \<open>
  C32: Signatures accepted by \<open>wf_verify\<close> are not malleable, for P-256 and for secp256k1: if \<open>r || s\<close> is accepted then
  \<open>s\<close> is in the lower half of the order \<open>n\<close> of the curve, and \<open>r || (n - s)\<close>, which plain ECDSA accepts as
  well, is refused with \<open>WF_ERR_PARSE\<close>; only \<open>wf_verify_allow_malleable\<close> takes it.
\<close>

definition curve_order :: "ec_lib \<Rightarrow> wf_key_type \<Rightarrow> int" where
  "curve_order E type = (if type = WF_KEY_TYPE_P256 then p256_order E else secp256k1_n)"

theorem verify_not_malleable:
  assumes "ec_laws E" "wf_didkey_encode type pub = Inr didkey" "length rb = 32" "length sb = 32"
    "wf_verify P E didkey msg (rb @ sb) = Inr ()" "n = curve_order E type"
    "sb' = be_bytes 32 (nat (n - BN_bin2bn sb))"
  shows "2 * BN_bin2bn sb < n \<and> wf_verify P E didkey msg (rb @ sb') = Inl WF_ERR_PARSE \<and>
    wf_verify_allow_malleable P E didkey msg (rb @ sb') = Inr ()"
proof -
  have msg: "msg \<noteq> []" using assms(5) by (auto simp: wf_verify_def wf_verify_internal_def)
  have len: "length sb' = 32" by (simp add: assms(7) be_bytes_def)
  have ne: "rb @ sb \<noteq> []" "rb @ sb' \<noteq> []" using assms(3) by auto
  have pub: "length pub = 33" using assms(2) by (auto simp: wf_didkey_encode_def split: if_splits)
  consider "type = WF_KEY_TYPE_P256" "didkey = ascii ''did:key:z'' @ wf_b58_encode (0x80 # 0x24 # pub)"
    | "type = WF_KEY_TYPE_SECP256K1" "didkey = ascii ''did:key:z'' @ wf_b58_encode (0xe7 # 0x01 # pub)"
    using assms(2) pub by (auto simp: wf_didkey_encode_def split: wf_key_type.splits)
  then show ?thesis
  proof cases
    case 1
    note v = verify_decoded(1) [OF pub msg]
    have ok: "p256_public E pub" "wf_p256_verify_hash_pkey E pub (SHA256 P msg) (rb @ sb) False = Inr ()"
      using assms(5) v [OF ne(1), of P E False] by (auto simp: wf_verify_def 1 split: if_splits)
    from ec_laws.verify_low_s [OF assms(1) ok(2) assms(3,4)] ok(1) show ?thesis
      using v [OF ne(2)] assms(3,6,7) len by (simp add: wf_verify_def wf_verify_allow_malleable_def 1 curve_order_def)
  next
    case 2
    note v = verify_decoded(2) [OF pub msg]
    obtain norm where ok: "have_secp256k1 E" "secp256k1_pubkey_parse E pub" "secp256k1_parse_compact E (rb @ sb)"
      "secp256k1_normalize E (rb @ sb) = (False, norm)" "secp256k1_verify E pub (SHA256 P msg) norm"
      using assms(5) v [OF ne(1), of P E False] by (auto simp: wf_verify_def 2 split: if_splits prod.splits)
    have n: "n = secp256k1_n" using assms(6) 2(1) by (simp add: curve_order_def)
    note low = ec_laws.secp256k1_low_s [OF assms(1,3,4) ok(3-5) assms(7) [unfolded n]]
    show ?thesis
      using low ok v [OF ne(2)] assms(3) len by (simp add: wf_verify_def wf_verify_allow_malleable_def 2 n)
  qed
qed

lemma ex_accepted:
  assumes "type = WF_KEY_TYPE_P256 \<or> type = WF_KEY_TYPE_SECP256K1" "msg \<noteq> []"
  obtains didkey rb sb where "wf_didkey_encode type (2 # replicate 32 5) = Inr didkey" "length rb = 32" "length sb = 32"
    "wf_verify P ex_ec didkey msg (rb @ sb) = Inr ()"
proof -
  obtain sig where s: "wf_sign P ex_ec (ex_key type) msg 64 = Inr sig" "length sig = 64"
  proof (cases "type = WF_KEY_TYPE_P256")
    case True
    obtain rb sb where "BN_bn2binpad32 (ex_mac (replicate 32 5) (SHA256 P msg)) = Some rb"
      "BN_bn2binpad32 (wf_p256_normalize_s ex_ec (ex_mac (replicate 32 5) (SHA256 P msg))) = Some sb"
      using be_mac [of "replicate 32 5" "SHA256 P msg"] by (cases "ex_order div 2 < ex_mac (replicate 32 5) (SHA256 P msg)") (auto simp: wf_p256_normalize_s_def)
    then show ?thesis using that [of "rb @ sb"] True assms(2)
      by (auto simp: wf_sign_def ex_key_def wf_p256_sign_hash_def BN_bn2binpad32_def be_bytes_def split: if_splits)
  next
    case False
    then show ?thesis
      using that [of "ex_compact (replicate 32 5) (SHA256 P msg)"] assms ex_compact_low(1)
      by (auto simp: wf_sign_def ex_key_def)
  qed
  obtain didkey where d: "wf_didkey_encode type (2 # replicate 32 5) = Inr didkey"
    using assms(1) by (auto simp: wf_didkey_encode_def)
  have p: "wf_signing_key_public_didkey ex_ec (ex_key type) = Inr didkey"
    using d assms(1) by (auto simp: wf_signing_key_public_didkey_def ex_key_def ex_ec_def ex_point_def wf_didkey_encode_def)
  have "wf_verify P ex_ec didkey msg (take 32 sig @ drop 32 sig) = Inr ()"
    using ex_ec.sign_verifies [OF s(1) p] by (simp add: wf_verify_def)
  with d s(2) show thesis by (intro that [of didkey "take 32 sig" "drop 32 sig"]) simp_all
qed

theorem verify_not_malleable_witness:
  "\<exists>didkey rb sb sb'. wf_verify (ref_platform toy_sha) ex_ec didkey [1] (rb @ sb) = Inr () \<and>
     2 * BN_bin2bn sb < secp256k1_n \<and> wf_verify (ref_platform toy_sha) ex_ec didkey [1] (rb @ sb') = Inl WF_ERR_PARSE \<and>
     wf_verify_allow_malleable (ref_platform toy_sha) ex_ec didkey [1] (rb @ sb') = Inr ()"
proof -
  obtain didkey rb sb where d: "wf_didkey_encode WF_KEY_TYPE_SECP256K1 (2 # replicate 32 5) = Inr didkey"
    "length rb = 32" "length sb = 32" "wf_verify (ref_platform toy_sha) ex_ec didkey [1] (rb @ sb) = Inr ()"
    by (rule ex_accepted [of WF_KEY_TYPE_SECP256K1 "[1]"]) auto
  have "secp256k1_n = curve_order ex_ec WF_KEY_TYPE_SECP256K1" by (simp add: curve_order_def)
  from verify_not_malleable [OF ex_ec.ec_laws_axioms d this refl] d(4) show ?thesis by blast
qed

end
