(* ===== verification/Commit.thy ===== *)
theory Commit
  imports Mst_Encode Signing
begin

unbundle bit_operations_syntax

text \<open>
  Commits: the model of \<^verbatim>\<open>src/repo/commit.c\<close>, and of \<^verbatim>\<open>commit_unsigned_bytes\<close> of \<^verbatim>\<open>diff.c\<close>, which
  rebuilds the bytes that a commit's signature covers. The \<^verbatim>\<open>char\<close> arrays of a \<^verbatim>\<open>wf_commit\<close> are the bytes
  copied into them; where the code reads one as a C string it stops at the first NUL (\<open>c_str\<close>). The
  \<^verbatim>\<open>int version\<close> is a \<open>32 word\<close>.
\<close>

section \<open>The code\<close>

record wf_commit =
  cm_did :: bytes
  cm_version :: "32 word"
  cm_data :: wf_cid
  cm_rev :: bytes
  cm_prev :: wf_cid
  cm_has_prev :: bool
  cm_cid :: wf_cid
  cm_sig :: bytes

definition c_str :: "bytes \<Rightarrow> bytes" where
  "c_str s = takeWhile (\<lambda>b. b \<noteq> 0) s"

definition cbor_str_of :: "bytes \<Rightarrow> wf_cbor_item" where
  "cbor_str_of s = WF_CBOR_STRING (c_str s)"

text \<open>The field readers of \<^verbatim>\<open>wf_commit_parse\<close>: a string below a buffer size, an unsigned, a link.\<close>

definition commit_string :: "wf_cbor_item option \<Rightarrow> nat \<Rightarrow> bytes option" where
  "commit_string item cap =
     (case item of Some (WF_CBOR_STRING s) \<Rightarrow> if cap \<le> length s then None else Some s | _ \<Rightarrow> None)"

definition commit_version :: "wf_cbor_item option \<Rightarrow> (32 word) option" where
  "commit_version item = (case item of Some (WF_CBOR_UNSIGNED v) \<Rightarrow> Some (ucast v) | _ \<Rightarrow> None)"

definition commit_link :: "wf_cbor_item option \<Rightarrow> wf_cid option" where
  "commit_link item =
     (case item of Some (WF_CBOR_LINK c) \<Rightarrow> if length c = 36 then Some c else None | _ \<Rightarrow> None)"

text \<open>\<^verbatim>\<open>prev\<close> may be absent, null or a link; \<^verbatim>\<open>sig\<close> may be absent or 64 bytes.\<close>

definition commit_prev :: "wf_cbor_item option \<Rightarrow> wf_cid option option" where
  "commit_prev item =
     (case commit_link item of
        Some c \<Rightarrow> Some (Some c)
      | None \<Rightarrow> if item = None \<or> item = Some (WF_CBOR_SIMPLE 22) then Some None else None)"

definition commit_sig :: "wf_cbor_item option \<Rightarrow> bytes option" where
  "commit_sig item =
     (case item of
        None \<Rightarrow> Some []
      | Some (WF_CBOR_BYTES s) \<Rightarrow> if length s \<noteq> 64 then None else Some s
      | _ \<Rightarrow> None)"

definition wf_commit_parse :: "platform \<Rightarrow> bytes \<Rightarrow> wf_commit res" where
  "wf_commit_parse P cbor =
     (if cbor = [] then Inl WF_ERR_INVALID_ARG
      else case wf_cbor_parse P cbor of
             Some (WF_CBOR_MAP pairs) \<Rightarrow>
               (let find = (\<lambda>key. wf_cbor_map_find (WF_CBOR_MAP pairs) (ascii key))
                in case commit_string (find ''did'') 256 of None \<Rightarrow> Inl WF_ERR_PARSE | Some did \<Rightarrow>
                   case commit_version (find ''version'') of None \<Rightarrow> Inl WF_ERR_PARSE | Some version \<Rightarrow>
                   case commit_link (find ''data'') of None \<Rightarrow> Inl WF_ERR_PARSE | Some data \<Rightarrow>
                   case commit_string (find ''rev'') 64 of None \<Rightarrow> Inl WF_ERR_PARSE | Some rv \<Rightarrow>
                   case commit_prev (find ''prev'') of None \<Rightarrow> Inl WF_ERR_PARSE | Some prev \<Rightarrow>
                   case commit_sig (find ''sig'') of None \<Rightarrow> Inl WF_ERR_PARSE | Some sig \<Rightarrow>
                   Inr \<lparr>cm_did = did, cm_version = version, cm_data = data, cm_rev = rv,
                        cm_prev = (case prev of None \<Rightarrow> [] | Some c \<Rightarrow> c), cm_has_prev = (prev \<noteq> None),
                        cm_cid = [], cm_sig = sig\<rparr>)
           | _ \<Rightarrow> Inl WF_ERR_PARSE)"

text \<open>The map that is signed; with the signature, the map that is stored.\<close>

definition commit_pairs :: "bytes \<Rightarrow> bytes \<Rightarrow> wf_cid \<Rightarrow> wf_cbor_item \<Rightarrow> u64 \<Rightarrow> (wf_cbor_item \<times> wf_cbor_item) list" where
  "commit_pairs did rv data prev version =
     [(cbor_str ''did'', cbor_str_of did), (cbor_str ''rev'', cbor_str_of rv), (cbor_str ''data'', cbor_cid data),
      (cbor_str ''prev'', prev), (cbor_str ''version'', cbor_uint version)]"

definition wf_commit_create ::
  "platform \<Rightarrow> ec_lib \<Rightarrow> bytes \<Rightarrow> bytes \<Rightarrow> wf_cid \<Rightarrow> wf_cid option \<Rightarrow> wf_signing_key \<Rightarrow> wf_car \<Rightarrow>
   wf_car \<times> wf_commit res" where
  "wf_commit_create P E did_str rev_str data_cid prev_cid key car =
     (if 256 \<le> length (c_str did_str) \<or> 64 \<le> length (c_str rev_str) then (car, Inl WF_ERR_INVALID_ARG)
      else
        let pairs = commit_pairs did_str rev_str data_cid cbor_null 3
        in case wf_cbor_serialize (WF_CBOR_MAP pairs) of
             None \<Rightarrow> (car, Inl WF_ERR_ALLOC)
           | Some cbor \<Rightarrow>
               (case wf_sign P E key cbor 64 of
                  Inl s \<Rightarrow> (car, Inl s)
                | Inr sig \<Rightarrow>
                    (case wf_cbor_serialize (WF_CBOR_MAP (take 2 pairs @ [(cbor_str ''sig'', cbor_bytes sig)] @ drop 2 pairs)) of
                       None \<Rightarrow> (car, Inl WF_ERR_ALLOC)
                     | Some final_cbor \<Rightarrow>
                         (case wf_cid_of_block P final_cbor of
                            Inl s \<Rightarrow> (car, Inl s)
                          | Inr final_cid \<Rightarrow>
                              (car\<lparr>car_blocks := car_blocks car @ [\<lparr>blk_cid = final_cid, blk_data = final_cbor\<rparr>]\<rparr>,
                               Inr \<lparr>cm_did = c_str did_str, cm_version = 3, cm_data = data_cid, cm_rev = c_str rev_str,
                                    cm_prev = [], cm_has_prev = False, cm_cid = final_cid, cm_sig = sig\<rparr>)))))"

definition commit_unsigned_bytes :: "wf_commit \<Rightarrow> bytes res" where
  "commit_unsigned_bytes commit =
     (case wf_cbor_serialize (WF_CBOR_MAP (commit_pairs (cm_did commit) (cm_rev commit) (cm_data commit)
             (if cm_has_prev commit then cbor_cid (cm_prev commit) else cbor_null) (scast (cm_version commit)))) of
        None \<Rightarrow> Inl WF_ERR_ALLOC
      | Some out \<Rightarrow> Inr out)"

section \<open>Commits as canonical maps\<close>

text \<open>All six fields of a stored commit, in the order of their keys.\<close>

definition commit_map :: "wf_cbor_item \<Rightarrow> wf_cbor_item \<Rightarrow> wf_cbor_item \<Rightarrow> wf_cbor_item \<Rightarrow> wf_cbor_item \<Rightarrow> wf_cbor_item \<Rightarrow>
    (wf_cbor_item \<times> wf_cbor_item) list" where
  "commit_map did rv sig data prev version =
     [(cbor_str ''did'', did), (cbor_str ''rev'', rv), (cbor_str ''sig'', sig), (cbor_str ''data'', data),
      (cbor_str ''prev'', prev), (cbor_str ''version'', version)]"

lemma commit_map_find:
  fixes did rv sig data prev version :: wf_cbor_item
  defines "m \<equiv> WF_CBOR_MAP (commit_map did rv sig data prev version)"
  shows "wf_cbor_map_find m (ascii ''did'') = Some did" "wf_cbor_map_find m (ascii ''rev'') = Some rv"
    "wf_cbor_map_find m (ascii ''sig'') = Some sig" "wf_cbor_map_find m (ascii ''data'') = Some data"
    "wf_cbor_map_find m (ascii ''prev'') = Some prev" "wf_cbor_map_find m (ascii ''version'') = Some version"
  by (simp_all add: m_def wf_cbor_map_find_def commit_map_def cbor_str_def ascii_def)

lemma commit_keys_order:
  "sorted_wrt (<) (map (\<lambda>s. rfc_enc (to_libcbor (cbor_str s))) [''did'', ''rev'', ''sig'', ''data'', ''prev'', ''version''])"
  by code_simp

lemma map_find_loop_mem: "map_find_loop ps key = Some v \<Longrightarrow> (WF_CBOR_STRING key, v) \<in> set ps"
  by (induction ps key rule: map_find_loop.induct) (auto simp: memcmp_eq_iff split: wf_cbor_item.splits if_splits)

definition text_ok :: "platform \<Rightarrow> bytes \<Rightarrow> bool" where
  "text_ok P s \<longleftrightarrow> (c_str s \<noteq> [] \<longrightarrow> 0 < cbor_string_codepoint_count P (c_str s))"

lemma length_c_str: "length (c_str s) \<le> length s"
  by (simp add: c_str_def length_takeWhile_le)

lemma c_str_id: "0 \<notin> set s \<Longrightarrow> c_str s = s"
  by (auto simp: c_str_def takeWhile_eq_all_conv)

lemma c_str_c_str [simp]: "c_str (c_str s) = c_str s"
  by (simp add: c_str_def)

context platform_laws
begin

lemma canonical_literal:
  assumes "\<forall>c \<in> set s. of_char c < (0x80 :: byte)" "s \<noteq> []" "length s < 2 ^ 64"
  shows "canonical P (cbor_str s)"
proof -
  have "cbor_string_codepoint_count P (ascii s) = length (ascii s)"
    using assms(1) by (intro codepoints_ascii) (auto simp: ascii_def)
  then show ?thesis using assms(2,3) by (simp add: cbor_str_def ascii_def)
qed

lemma canonical_commit_keys:
  "canonical P (cbor_str ''did'')" "canonical P (cbor_str ''rev'')" "canonical P (cbor_str ''sig'')"
  "canonical P (cbor_str ''data'')" "canonical P (cbor_str ''prev'')" "canonical P (cbor_str ''version'')"
  by (rule canonical_literal; simp)+

lemma canonical_commit_map:
  assumes "canonical P did" "canonical P rv" "canonical P sig" "canonical P data" "canonical P prev" "canonical P version"
  shows "canonical P (WF_CBOR_MAP (commit_map did rv sig data prev version))"
  using assms canonical_commit_keys commit_keys_order by (simp add: commit_map_def cbor_str_def)

lemma canonical_unsigned_map:
  assumes "canonical P (cbor_str_of did)" "canonical P (cbor_str_of rv)" "canonical P (cbor_cid data)" "canonical P prev"
  shows "canonical P (WF_CBOR_MAP (commit_pairs did rv data prev version))"
  using assms canonical_commit_keys commit_keys_order by (simp add: commit_pairs_def cbor_str_def cbor_uint_def)

lemma canonical_text: "text_ok P s \<Longrightarrow> length (c_str s) < 256 \<Longrightarrow> canonical P (cbor_str_of s)"
  by (auto simp: text_ok_def cbor_str_of_def)

end

lemma commit_map_nesting:
  assumes "\<And>i. i \<in> {did, rv, sig, data, prev, version} \<Longrightarrow> cbor_nesting (to_libcbor i) \<le> 2"
  shows "cbor_nesting (to_libcbor (WF_CBOR_MAP (commit_map did rv sig data prev version))) \<le> 65"
proof -
  have "cbor_nesting (to_libcbor (cbor_str s)) \<le> 2" for s by (simp add: cbor_str_def)
  with assms have "cbor_nesting (to_libcbor (WF_CBOR_MAP (commit_map did rv sig data prev version))) \<le> Suc 2"
    unfolding commit_map_def to_libcbor.simps by (intro nesting_le(2)) auto
  then show ?thesis by linarith
qed

section \<open>Creating and parsing\<close>

lemma commit_create_cases:
  assumes "wf_commit_create P E did rv data prev key car = (car', Inr commit)"
  obtains cbor sig stored where
    "length (c_str did) < 256" "length (c_str rv) < 64"
    "wf_cbor_serialize (WF_CBOR_MAP (commit_pairs did rv data cbor_null 3)) = Some cbor"
    "wf_sign P E key cbor 64 = Inr sig"
    "wf_cbor_serialize (WF_CBOR_MAP (commit_map (cbor_str_of did) (cbor_str_of rv) (cbor_bytes sig) (cbor_cid data) cbor_null (cbor_uint 3))) = Some stored"
    "wf_cid_of_block P stored = Inr (cm_cid commit)"
    "car' = car\<lparr>car_blocks := car_blocks car @ [\<lparr>blk_cid = cm_cid commit, blk_data = stored\<rparr>]\<rparr>"
    "commit = \<lparr>cm_did = c_str did, cm_version = 3, cm_data = data, cm_rev = c_str rv, cm_prev = [], cm_has_prev = False,
       cm_cid = cm_cid commit, cm_sig = sig\<rparr>"
proof -
  have "take 2 (commit_pairs did rv data cbor_null 3) @ [(cbor_str ''sig'', cbor_bytes sig)] @ drop 2 (commit_pairs did rv data cbor_null 3) =
      commit_map (cbor_str_of did) (cbor_str_of rv) (cbor_bytes sig) (cbor_cid data) cbor_null (cbor_uint 3)" for sig
    by (simp add: commit_pairs_def commit_map_def)
  with assms that show thesis
    by (auto simp: wf_commit_create_def Let_def not_le split: if_splits option.splits sum.splits)
qed

lemma sign_length:
  assumes "ec_laws E" "wf_sign P E key msg 64 = Inr sig" "wf_signing_key_public_didkey E key = Inr pub"
  shows "length sig = 64"
proof -
  have "wf_verify_internal P E pub msg sig True = Inr ()" by (rule ec_laws.sign_verifies [OF assms])
  then show ?thesis
    by (auto simp: wf_verify_internal_def Let_def split: if_splits option.splits prod.splits)
qed

context platform_laws
begin

lemma commit_stored_map:
  assumes "canonical P (cbor_str_of did)" "canonical P (cbor_str_of rv)" "cid_ok data" "length sig = 64"
    "wf_cbor_serialize (WF_CBOR_MAP (commit_map (cbor_str_of did) (cbor_str_of rv) (cbor_bytes sig) (cbor_cid data) cbor_null (cbor_uint 3))) = Some stored"
  shows "wf_cbor_parse P stored =
    Some (WF_CBOR_MAP (commit_map (cbor_str_of did) (cbor_str_of rv) (cbor_bytes sig) (cbor_cid data) cbor_null (cbor_uint 3)))"
proof -
  let ?m = "WF_CBOR_MAP (commit_map (cbor_str_of did) (cbor_str_of rv) (cbor_bytes sig) (cbor_cid data) cbor_null (cbor_uint 3))"
  have can: "canonical P ?m"
    using assms(1-4) by (intro canonical_commit_map)
      (auto simp: cbor_bytes_def cbor_cid_def cbor_null_def cbor_uint_def cid_ok_def)
  have "cbor_nesting (to_libcbor ?m) \<le> 65"
    by (rule commit_map_nesting) (auto simp: cbor_str_of_def cbor_bytes_def cbor_cid_def cbor_null_def cbor_uint_def)
  then show ?thesis
    using parse_write [OF can] wf_cbor_serialize_some [OF canonical_simple_fits [OF can]] assms(5) by simp
qed

lemma commit_parse_stored:
  assumes "canonical P (cbor_str_of did)" "canonical P (cbor_str_of rv)" "cid_ok data" "length sig = 64"
    "length (c_str did) < 256" "length (c_str rv) < 64"
    "wf_cbor_serialize (WF_CBOR_MAP (commit_map (cbor_str_of did) (cbor_str_of rv) (cbor_bytes sig) (cbor_cid data) cbor_null (cbor_uint 3))) = Some stored"
  shows "wf_commit_parse P stored = Inr \<lparr>cm_did = c_str did, cm_version = 3, cm_data = data, cm_rev = c_str rv, cm_prev = [],
      cm_has_prev = False, cm_cid = [], cm_sig = sig\<rparr>"
proof -
  note parse = commit_stored_map [OF assms(1-4,7)]
  then have "stored \<noteq> []" by (auto simp: wf_cbor_parse_def)
  then show ?thesis
    using parse assms(3-6) by (simp add: wf_commit_parse_def commit_map_find Let_def commit_string_def commit_version_def
        commit_link_def commit_prev_def commit_sig_def cbor_str_of_def cbor_uint_def cbor_cid_def cbor_null_def cbor_bytes_def cid_ok_def)
qed

end

section \<open>What the signature covers\<close>

lemma commit_string_Some: "commit_string it cap = Some s \<longleftrightarrow> it = Some (WF_CBOR_STRING s) \<and> length s < cap"
  by (auto simp: commit_string_def split: option.splits wf_cbor_item.splits)

lemma commit_version_Some: "commit_version it = Some w \<longleftrightarrow> (\<exists>v. it = Some (WF_CBOR_UNSIGNED v) \<and> w = ucast v)"
  by (auto simp: commit_version_def split: option.splits wf_cbor_item.splits)

lemma commit_link_Some: "commit_link it = Some c \<longleftrightarrow> it = Some (WF_CBOR_LINK c) \<and> length c = 36"
  by (auto simp: commit_link_def split: option.splits wf_cbor_item.splits)

lemma commit_prev_Some:
  "commit_prev it = Some (Some c) \<longleftrightarrow> it = Some (WF_CBOR_LINK c) \<and> length c = 36"
  "commit_prev it = Some None \<longleftrightarrow> it = None \<or> it = Some (WF_CBOR_SIMPLE 22)"
  by (auto simp: commit_prev_def commit_link_Some split: option.splits) (simp_all add: commit_link_def)

lemma commit_sig_Some: "commit_sig it = Some s \<longleftrightarrow> it = None \<and> s = [] \<or> it = Some (WF_CBOR_BYTES s) \<and> length s = 64"
  by (auto simp: commit_sig_def split: option.splits wf_cbor_item.splits)

lemma case_option_Inr: "(case x of None \<Rightarrow> Inl e | Some a \<Rightarrow> f a) = Inr c \<longleftrightarrow> (\<exists>a. x = Some a \<and> f a = Inr c)"
  by (cases x) auto

lemma commit_parse_fields:
  assumes "wf_commit_parse P cbor = Inr commit"
  obtains pairs prev where "cbor \<noteq> []" "wf_cbor_parse P cbor = Some (WF_CBOR_MAP pairs)"
    "commit_string (map_find_loop pairs (ascii ''did'')) 256 = Some (cm_did commit)"
    "commit_version (map_find_loop pairs (ascii ''version'')) = Some (cm_version commit)"
    "commit_link (map_find_loop pairs (ascii ''data'')) = Some (cm_data commit)"
    "commit_string (map_find_loop pairs (ascii ''rev'')) 64 = Some (cm_rev commit)"
    "commit_prev (map_find_loop pairs (ascii ''prev'')) = Some prev" "cm_has_prev commit \<longleftrightarrow> prev \<noteq> None"
    "cm_prev commit = (case prev of None \<Rightarrow> [] | Some c \<Rightarrow> c)"
    "commit_sig (map_find_loop pairs (ascii ''sig'')) = Some (cm_sig commit)" "cm_cid commit = []"
proof -
  from assms have ne: "cbor \<noteq> []" by (auto simp: wf_commit_parse_def)
  with assms obtain pairs where p: "wf_cbor_parse P cbor = Some (WF_CBOR_MAP pairs)"
    by (auto simp: wf_commit_parse_def split: option.splits wf_cbor_item.splits)
  from assms ne show thesis
    unfolding wf_commit_parse_def p
    by (auto simp: Let_def wf_cbor_map_find_def case_option_Inr intro: that [OF ne p])
qed

lemma scast_ucast_u64:
  fixes v :: u64
  assumes "v < 2 ^ 31"
  shows "scast (ucast v :: 32 word) = v"
proof -
  have "uint v < 2 ^ 31" using assms by (simp add: word_less_def)
  then have "uint (take_bit 31 v) = uint v" by (simp add: unsigned_take_bit_eq take_bit_int_eq_self)
  then have "take_bit 31 v = v" by (simp add: word_uint_eq_iff)
  then have b: "bit v n \<Longrightarrow> n < 31" for n by (metis bit_take_bit_iff)
  show ?thesis
  proof (rule bit_word_eqI)
    fix n
    show "bit (scast (ucast v :: 32 word) :: u64) n \<longleftrightarrow> bit v n" if "n < LENGTH(64)"
      using that b [of n] b [of "min 31 n"] by (auto simp: bit_simps min_def split: if_splits)
  qed
qed

lemma six_pairs:
  assumes "canonical P (WF_CBOR_MAP pairs)" "length pairs = 6"
    "map_find_loop pairs (ascii ''did'') = Some did" "map_find_loop pairs (ascii ''rev'') = Some rv"
    "map_find_loop pairs (ascii ''sig'') = Some sig" "map_find_loop pairs (ascii ''data'') = Some data"
    "map_find_loop pairs (ascii ''prev'') = Some prev" "map_find_loop pairs (ascii ''version'') = Some version"
  shows "pairs = commit_map did rv sig data prev version"
proof -
  let ?M = "commit_map did rv sig data prev version" and ?f = "\<lambda>(k, v :: wf_cbor_item). rfc_enc (to_libcbor k)"
  have sub: "set ?M \<subseteq> set pairs"
    using assms(3-8) map_find_loop_mem by (auto simp: commit_map_def cbor_str_def)
  have sorted: "sorted_wrt (<) (map ?f pairs)" using assms(1) by simp
  have sortedM: "sorted_wrt (<) (map ?f ?M)" using commit_keys_order by (simp add: commit_map_def)
  have "distinct ?M" using sortedM by (metis distinct_map strict_sorted_iff)
  then have "card (set ?M) = 6" by (simp add: distinct_card commit_map_def)
  moreover have "card (set pairs) \<le> 6" using assms(2) card_length [of pairs] by simp
  ultimately have "set pairs = set ?M" using sub card_seteq [OF _ sub] by simp
  with sorted sortedM show ?thesis by (intro sorted_map_unique [of ?f]) auto
qed

context platform_laws
begin

lemma unsigned_of_parsed:
  assumes "wf_commit_parse P cbor = Inr commit" "wf_cbor_parse P cbor = Some (WF_CBOR_MAP pairs)" "length pairs = 6"
    "wf_cbor_map_find (WF_CBOR_MAP pairs) (ascii ''prev'') \<noteq> None" "cm_sig commit \<noteq> []"
    "cbor_load P cbor = Some (c, n)" "no_undef c" "0 \<notin> set (cm_did commit)" "0 \<notin> set (cm_rev commit)"
    "wf_cbor_map_find (WF_CBOR_MAP pairs) (ascii ''version'') = Some (WF_CBOR_UNSIGNED v)" "v < 2 ^ 31"
  shows "\<exists>u. commit_unsigned_bytes commit = Inr u \<and>
    wf_cbor_serialize (WF_CBOR_MAP (filter (\<lambda>(k, _). k \<noteq> cbor_str ''sig'') pairs)) = Some u"
proof -
  obtain ps prev where g: "cbor \<noteq> []" "wf_cbor_parse P cbor = Some (WF_CBOR_MAP ps)"
    "commit_string (map_find_loop ps (ascii ''did'')) 256 = Some (cm_did commit)"
    "commit_version (map_find_loop ps (ascii ''version'')) = Some (cm_version commit)"
    "commit_link (map_find_loop ps (ascii ''data'')) = Some (cm_data commit)"
    "commit_string (map_find_loop ps (ascii ''rev'')) 64 = Some (cm_rev commit)"
    "commit_prev (map_find_loop ps (ascii ''prev'')) = Some prev" "cm_has_prev commit \<longleftrightarrow> prev \<noteq> None"
    "cm_prev commit = (case prev of None \<Rightarrow> [] | Some c \<Rightarrow> c)"
    "commit_sig (map_find_loop ps (ascii ''sig'')) = Some (cm_sig commit)" "cm_cid commit = []"
    by (rule commit_parse_fields [OF assms(1)])
  have ps: "ps = pairs" using g(2) assms(2) by simp
  have f: "map_find_loop pairs (ascii ''did'') = Some (WF_CBOR_STRING (cm_did commit))"
    "map_find_loop pairs (ascii ''data'') = Some (WF_CBOR_LINK (cm_data commit))"
    "map_find_loop pairs (ascii ''rev'') = Some (WF_CBOR_STRING (cm_rev commit))"
    "map_find_loop pairs (ascii ''sig'') = Some (WF_CBOR_BYTES (cm_sig commit))" "cm_version commit = ucast v"
    using g assms(5,10) by (auto simp: ps wf_cbor_map_find_def commit_string_Some commit_version_Some commit_link_Some commit_sig_Some)
  have prev: "map_find_loop pairs (ascii ''prev'') = Some (if cm_has_prev commit then cbor_cid (cm_prev commit) else cbor_null)"
    using g(7-9) assms(4) by (cases prev) (auto simp: ps wf_cbor_map_find_def commit_prev_Some cbor_cid_def cbor_null_def)
  have v: "map_find_loop pairs (ascii ''version'') = Some (WF_CBOR_UNSIGNED v)"
    using assms(10) by (simp add: wf_cbor_map_find_def)
  have can: "canonical P (WF_CBOR_MAP pairs)"
    using parse_sound [OF assms(2)] assms(6,7) by (metis option.inject prod.inject)
  note pairs = six_pairs [OF can assms(3) f(1,3,4,2) prev v]
  have "scast (ucast v :: 32 word) = v" by (rule scast_ucast_u64 [OF assms(11)])
  then have eq: "filter (\<lambda>(k, _). k \<noteq> cbor_str ''sig'') pairs = commit_pairs (cm_did commit) (cm_rev commit) (cm_data commit)
      (if cm_has_prev commit then cbor_cid (cm_prev commit) else cbor_null) (scast (cm_version commit))"
    using assms(8,9) f(5) by (simp add: pairs commit_map_def commit_pairs_def cbor_str_of_def c_str_id cbor_str_def ascii_def
        cbor_cid_def cbor_uint_def)
  have "canonical P (WF_CBOR_MAP (filter (\<lambda>(k, _). k \<noteq> cbor_str ''sig'') pairs))"
    using can by (auto simp: list_all_iff sorted_wrt_map sorted_wrt_filter intro: le_less_trans [OF length_filter_le])
  then show ?thesis
    using wf_cbor_serialize_some [OF canonical_simple_fits] unfolding commit_unsigned_bytes_def eq by auto
qed

end

text \<open>Everything a successful \<open>wf_commit_create\<close> establishes.\<close>

text \<open>A commit as it is stored: a map of six fields, with \<^verbatim>\<open>prev\<close> among them.\<close>

definition stored_commit :: "platform \<Rightarrow> bytes \<Rightarrow> bool" where
  "stored_commit P stored \<longleftrightarrow> (\<exists>pairs. wf_cbor_parse P stored = Some (WF_CBOR_MAP pairs) \<and> length pairs = 6 \<and>
     wf_cbor_map_find (WF_CBOR_MAP pairs) (ascii ''prev'') \<noteq> None)"

lemma commit_created:
  assumes "platform_laws P" "ec_laws E" "text_ok P did" "text_ok P rv" "cid_ok data"
    "wf_signing_key_public_didkey E key = Inr pub" "wf_commit_create P E did rv data prev key car = (car', Inr commit)"
  obtains stored u where "car' = car\<lparr>car_blocks := car_blocks car @ [\<lparr>blk_cid = cm_cid commit, blk_data = stored\<rparr>]\<rparr>"
    "wf_cid_of_block P stored = Inr (cm_cid commit)" "wf_commit_parse P stored = Inr (commit\<lparr>cm_cid := []\<rparr>)"
    "cm_version commit = 3" "\<not> cm_has_prev commit" "cm_data commit = data"
    "commit_unsigned_bytes commit = Inr u" "wf_verify P E pub u (cm_sig commit) = Inr ()"
    "cm_did commit = c_str did" "length (cm_sig commit) = 64" "stored_commit P stored"
proof -
  obtain cbor sig stored where c: "length (c_str did) < 256" "length (c_str rv) < 64"
    "wf_cbor_serialize (WF_CBOR_MAP (commit_pairs did rv data cbor_null 3)) = Some cbor"
    "wf_sign P E key cbor 64 = Inr sig"
    "wf_cbor_serialize (WF_CBOR_MAP (commit_map (cbor_str_of did) (cbor_str_of rv) (cbor_bytes sig) (cbor_cid data) cbor_null (cbor_uint 3))) = Some stored"
    "wf_cid_of_block P stored = Inr (cm_cid commit)"
    "car' = car\<lparr>car_blocks := car_blocks car @ [\<lparr>blk_cid = cm_cid commit, blk_data = stored\<rparr>]\<rparr>"
    "commit = \<lparr>cm_did = c_str did, cm_version = 3, cm_data = data, cm_rev = c_str rv, cm_prev = [], cm_has_prev = False,
       cm_cid = cm_cid commit, cm_sig = sig\<rparr>"
    by (rule commit_create_cases [OF assms(7)])
  have can: "canonical P (cbor_str_of did)" "canonical P (cbor_str_of rv)"
    using platform_laws.canonical_text [OF assms(1,3)] platform_laws.canonical_text [OF assms(1,4)] c(1,2) by auto
  note len = sign_length [OF assms(2) c(4) assms(6)]
  note parsed = platform_laws.commit_parse_stored [OF assms(1) can assms(5) sign_length [OF assms(2) c(4) assms(6)] c(1,2,5)]
  have fields: "cm_did commit = c_str did" "cm_version commit = 3" "cm_data commit = data" "cm_rev commit = c_str rv"
    "\<not> cm_has_prev commit" "cm_sig commit = sig" by (subst c(8), simp)+
  have "commit\<lparr>cm_cid := []\<rparr> = \<lparr>cm_did = c_str did, cm_version = 3, cm_data = data, cm_rev = c_str rv, cm_prev = [],
      cm_has_prev = False, cm_cid = [], cm_sig = sig\<rparr>" by (subst c(8)) simp
  with parsed have p: "wf_commit_parse P stored = Inr (commit\<lparr>cm_cid := []\<rparr>)" by simp
  have "commit_unsigned_bytes commit = Inr cbor"
    using c(3) by (simp add: commit_unsigned_bytes_def fields commit_pairs_def cbor_str_of_def)
  moreover have "wf_verify P E pub cbor (cm_sig commit) = Inr ()"
    using ec_laws.sign_verifies [OF assms(2) c(4) assms(6)] by (simp add: wf_verify_def fields)
  moreover have "stored_commit P stored"
    using platform_laws.commit_stored_map [OF assms(1) can assms(5) len c(5)]
    by (auto simp: stored_commit_def commit_map_find) (simp add: commit_map_def)
  moreover have "length (cm_sig commit) = 64" using len fields(6) by simp
  ultimately show thesis using that p c(6,7) fields by blast
qed

section \<open>Properties\<close>

text \<open>C20: a commit made by \<open>wf_commit_create\<close> is sound: one block is appended, under the CID of its bytes; it parses back
  to the commit that was returned (version 3, no \<^verbatim>\<open>prev\<close>, whatever the caller passed for it); and the bytes that the
  verifier rebuilds from the commit are those that were signed, so that the signature verifies under
  the \<^verbatim>\<open>did:key\<close> of the signing key.\<close>

theorem commit_create_sound:
  assumes "platform_laws P" "ec_laws E" "text_ok P did" "text_ok P rv" "cid_ok data"
    "wf_signing_key_public_didkey E key = Inr pub" "wf_commit_create P E did rv data prev key car = (car', Inr commit)"
  shows "(\<exists>blk. car' = car\<lparr>car_blocks := car_blocks car @ [blk]\<rparr> \<and> blk_cid blk = cm_cid commit \<and>
      wf_cid_of_block P (blk_data blk) = Inr (cm_cid commit) \<and>
      wf_commit_parse P (blk_data blk) = Inr (commit\<lparr>cm_cid := []\<rparr>)) \<and>
    cm_version commit = 3 \<and> \<not> cm_has_prev commit \<and> cm_data commit = data \<and>
    (\<exists>u. commit_unsigned_bytes commit = Inr u \<and> wf_verify P E pub u (cm_sig commit) = Inr ())"
  by (rule commit_created [OF assms]) auto

definition ex_did :: bytes where
  "ex_did = ascii ''did:plc:abc''"

definition ex_rev :: bytes where
  "ex_rev = ascii ''3jzfcijpj2z2a''"

definition ex_data :: wf_cid where
  "ex_data = wf_cid_from_hash (replicate 32 7)"

definition ex_pub :: bytes where
  "ex_pub = ascii ''did:key:z'' @ wf_b58_encode (0x80 # 0x24 # 2 # replicate 32 5)"

lemma ex_pub_key: "wf_signing_key_public_didkey ex_ec (ex_key WF_KEY_TYPE_P256) = Inr ex_pub"
  by (simp add: wf_signing_key_public_didkey_def ex_key_def ex_ec_def ex_point_def ex_pub_def)

context platform_laws
begin

lemma text_ok_ascii: "\<forall>b \<in> set s. b < 0x80 \<Longrightarrow> text_ok P s"
proof -
  assume "\<forall>b \<in> set s. b < 0x80"
  then have "cbor_string_codepoint_count P (c_str s) = length (c_str s)"
    by (intro codepoints_ascii) (auto simp: c_str_def dest: set_takeWhileD)
  then show ?thesis by (simp add: text_ok_def)
qed

lemma commit_create_ok:
  assumes "text_ok P did" "text_ok P rv" "cid_ok data" "length (c_str did) < 256" "length (c_str rv) < 64"
    "\<And>msg. msg \<noteq> [] \<Longrightarrow> \<exists>sig. wf_sign P E key msg 64 = Inr sig \<and> length sig = 64"
  shows "\<exists>car' commit. wf_commit_create P E did rv data prev key car = (car', Inr commit)"
proof -
  have can: "canonical P (cbor_str_of did)" "canonical P (cbor_str_of rv)" "canonical P (cbor_cid data)" "canonical P cbor_null"
    "canonical P (cbor_uint 3)"
    using canonical_text assms(1-5) by (auto simp: cbor_cid_def cid_ok_def cbor_null_def cbor_uint_def)
  let ?u = "WF_CBOR_MAP (commit_pairs did rv data cbor_null 3)"
  have u: "canonical P ?u" by (rule canonical_unsigned_map [OF can(1-4)])
  have "wf_cbor_ser_write_item ?u \<noteq> []"
    using write_item_rfc [OF u] rfc_enc_nonempty [of "to_libcbor ?u"] by auto
  then obtain sig where sig: "wf_sign P E key (wf_cbor_ser_write_item ?u) 64 = Inr sig" "length sig = 64" using assms(6) by blast
  let ?m = "WF_CBOR_MAP (commit_map (cbor_str_of did) (cbor_str_of rv) (cbor_bytes sig) (cbor_cid data) cbor_null (cbor_uint 3))"
  have m: "canonical P ?m" using can sig(2) by (intro canonical_commit_map) (auto simp: cbor_bytes_def)
  have "wf_cbor_ser_write_item ?m \<noteq> []"
    using write_item_rfc [OF m] rfc_enc_nonempty [of "to_libcbor ?m"] by auto
  then obtain c where "wf_cid_of_block P (wf_cbor_ser_write_item ?m) = Inr c" by (auto simp: wf_cid_of_block_def)
  moreover have "take 2 (commit_pairs did rv data cbor_null 3) @ [(cbor_str ''sig'', cbor_bytes sig)] @ drop 2 (commit_pairs did rv data cbor_null 3) =
      commit_map (cbor_str_of did) (cbor_str_of rv) (cbor_bytes sig) (cbor_cid data) cbor_null (cbor_uint 3)"
    by (simp add: commit_pairs_def commit_map_def)
  ultimately show ?thesis
    using assms(4,5) sig wf_cbor_serialize_some [OF canonical_simple_fits [OF u]] wf_cbor_serialize_some [OF canonical_simple_fits [OF m]]
    by (simp add: wf_commit_create_def Let_def)
qed

end

lemma ex_sign_64: "msg \<noteq> [] \<Longrightarrow> \<exists>sig. wf_sign P ex_ec (ex_key WF_KEY_TYPE_P256) msg 64 = Inr sig \<and> length sig = 64"
  using ex_sign sign_length [OF ex_ec.ec_laws_axioms _ ex_pub_key] by blast

lemma ex_text: "\<forall>b \<in> set ex_did. b < 0x80" "\<forall>b \<in> set ex_rev. b < 0x80" "c_str ex_did = ex_did" "c_str ex_rev = ex_rev"
  "length ex_did < 256" "length ex_rev < 64"
  by code_simp+

lemma ex_data_ok: "cid_ok ex_data"
  unfolding ex_data_def wf_cid_from_hash_def by (rule cid_ok_from_hash_codec) auto

theorem commit_create_sound_witness:
  "\<exists>car commit u. wf_commit_create (ref_platform toy_sha) ex_ec ex_did ex_rev ex_data None (ex_key WF_KEY_TYPE_P256)
       \<lparr>car_roots = [], car_blocks = []\<rparr> = (car, Inr commit) \<and>
     commit_unsigned_bytes commit = Inr u \<and> wf_verify (ref_platform toy_sha) ex_ec ex_pub u (cm_sig commit) = Inr ()"
proof -
  have t: "text_ok (ref_platform toy_sha) ex_did" "text_ok (ref_platform toy_sha) ex_rev"
    using ref.text_ok_ascii ex_text by blast+
  obtain car commit where c: "wf_commit_create (ref_platform toy_sha) ex_ec ex_did ex_rev ex_data None (ex_key WF_KEY_TYPE_P256)
       \<lparr>car_roots = [], car_blocks = []\<rparr> = (car, Inr commit)"
    using ref.commit_create_ok [OF t ex_data_ok _ _ ex_sign_64, of None "\<lparr>car_roots = [], car_blocks = []\<rparr>"] ex_text by auto
  from commit_create_sound [OF ref.platform_laws_axioms ex_ec.ec_laws_axioms t ex_data_ok ex_pub_key c] c show ?thesis by blast
qed

text \<open>C19: if a stored commit that parses has exactly six fields with \<^verbatim>\<open>prev\<close> among them, no NUL in its \<^verbatim>\<open>did\<close> and \<^verbatim>\<open>rev\<close>, no
  \<open>undefined\<close>, a non-empty signature and a version below \<open>2 ^ 31\<close>, then the bytes that \<open>commit_unsigned_bytes\<close> rebuilds for
  verification are the encoding of the stored map without its \<^verbatim>\<open>sig\<close>, so that the signature covers every other
  field. (Without the conditions on NUL and the version it does not: \<open>commit_rebuild_cuts\<close>.)\<close>

theorem commit_signature_covers:
  assumes "platform_laws P" "wf_commit_parse P cbor = Inr commit" "wf_cbor_parse P cbor = Some (WF_CBOR_MAP pairs)" "length pairs = 6"
    "wf_cbor_map_find (WF_CBOR_MAP pairs) (ascii ''prev'') \<noteq> None" "cm_sig commit \<noteq> []"
    "cbor_load P cbor = Some (c, n)" "no_undef c" "0 \<notin> set (cm_did commit)" "0 \<notin> set (cm_rev commit)"
    "wf_cbor_map_find (WF_CBOR_MAP pairs) (ascii ''version'') = Some (WF_CBOR_UNSIGNED v)" "v < 2 ^ 31"
  shows "\<exists>u. commit_unsigned_bytes commit = Inr u \<and>
    wf_cbor_serialize (WF_CBOR_MAP (filter (\<lambda>(k, _). k \<noteq> cbor_str ''sig'') pairs)) = Some u"
  by (rule platform_laws.unsigned_of_parsed [OF assms])

definition ex_commit_pairs :: "(wf_cbor_item \<times> wf_cbor_item) list" where
  "ex_commit_pairs = commit_map (cbor_str_of ex_did) (cbor_str_of ex_rev) (cbor_bytes (replicate 64 1)) (cbor_cid ex_data) cbor_null (cbor_uint 3)"

lemma ex_commit_canonical: "canonical (ref_platform toy_sha) (WF_CBOR_MAP ex_commit_pairs)"
proof -
  have t: "text_ok (ref_platform toy_sha) ex_did" "text_ok (ref_platform toy_sha) ex_rev"
    using ref.text_ok_ascii ex_text by blast+
  show ?thesis
    unfolding ex_commit_pairs_def using ref.canonical_text [OF t(1)] ref.canonical_text [OF t(2)] ex_text ex_data_ok
    by (intro ref.canonical_commit_map) (auto simp: cbor_bytes_def cbor_cid_def cbor_null_def cbor_uint_def cid_ok_def)
qed

theorem commit_signature_covers_witness:
  "\<exists>commit u. wf_commit_parse (ref_platform toy_sha) (wf_cbor_ser_write_item (WF_CBOR_MAP ex_commit_pairs)) = Inr commit \<and>
     commit_unsigned_bytes commit = Inr u \<and>
     wf_cbor_serialize (WF_CBOR_MAP (filter (\<lambda>(k, _). k \<noteq> cbor_str ''sig'') ex_commit_pairs)) = Some u"
proof -
  let ?P = "ref_platform toy_sha" and ?m = "WF_CBOR_MAP ex_commit_pairs"
  have can: "canonical ?P ?m" by (rule ex_commit_canonical)
  have t: "canonical ?P (cbor_str_of ex_did)" "canonical ?P (cbor_str_of ex_rev)"
    using can by (auto simp: ex_commit_pairs_def commit_map_def)
  have nest: "cbor_nesting (to_libcbor ?m) \<le> 65"
    unfolding ex_commit_pairs_def
    by (rule commit_map_nesting) (auto simp: cbor_str_of_def cbor_bytes_def cbor_cid_def cbor_null_def cbor_uint_def)
  have ser: "wf_cbor_serialize ?m = Some (wf_cbor_ser_write_item ?m)"
    by (rule wf_cbor_serialize_some [OF canonical_simple_fits [OF can]])
  have p: "wf_commit_parse ?P (wf_cbor_ser_write_item ?m) = Inr \<lparr>cm_did = c_str ex_did, cm_version = 3, cm_data = ex_data,
      cm_rev = c_str ex_rev, cm_prev = [], cm_has_prev = False, cm_cid = [], cm_sig = replicate 64 1\<rparr>"
    using ex_text ser unfolding ex_commit_pairs_def by (intro ref.commit_parse_stored t ex_data_ok) auto
  have l: "cbor_load ?P (wf_cbor_ser_write_item ?m) = Some (to_libcbor ?m, length (wf_cbor_ser_write_item ?m))"
    unfolding write_item_rfc [OF can] by (rule ref.load_encoded) (use to_libcbor_shape [OF can] nest in auto)
  have "no_undef (to_libcbor ?m)"
    by (simp add: ex_commit_pairs_def commit_map_def cbor_str_of_def cbor_bytes_def cbor_cid_def cbor_null_def cbor_uint_def cbor_str_def)
  moreover have "length ex_commit_pairs = 6" by (simp add: ex_commit_pairs_def commit_map_def)
  moreover have "0 \<notin> set ex_did" "0 \<notin> set ex_rev" by code_simp+
  ultimately show ?thesis
    using commit_signature_covers [OF ref.platform_laws_axioms p ref.parse_write [OF can nest] _ _ _ l] p ex_text(3,4)
    by (simp add: ex_commit_pairs_def commit_map_find cbor_uint_def)
qed

text \<open>
  The side conditions of the last property are needed. The parser accepts a \<^verbatim>\<open>did\<close> with an embedded NUL and
  a version that wraps to 3 at 32 bits, and the bytes it rebuilds for verification are then those of
  another commit: the one with the \<^verbatim>\<open>did\<close> cut at the NUL, and with version 3.
\<close>

lemma commit_rebuild_cuts:
  "commit_unsigned_bytes (commit\<lparr>cm_did := did @ 0 # junk\<rparr>) = commit_unsigned_bytes (commit\<lparr>cm_did := did\<rparr>)"
  "commit_version (Some (WF_CBOR_UNSIGNED 0x100000003)) = Some 3"
proof -
  have "c_str (did @ 0 # junk) = c_str did" by (induction did) (auto simp: c_str_def)
  then show "commit_unsigned_bytes (commit\<lparr>cm_did := did @ 0 # junk\<rparr>) = commit_unsigned_bytes (commit\<lparr>cm_did := did\<rparr>)"
    by (simp add: commit_unsigned_bytes_def commit_pairs_def cbor_str_of_def)
  show "commit_version (Some (WF_CBOR_UNSIGNED 0x100000003)) = Some 3" by code_simp
qed

end
