(* ===== verification/Repo.thy ===== *)
theory Repo
  imports Mst_Ops Commit Tid
begin

text \<open>
  Repositories: the model of \<^verbatim>\<open>src/repo/repo.c\<close>, which keeps records as blocks of a CAR, indexes them in the
  Merkle search tree under \<^verbatim>\<open>collection/rkey\<close>, and signs a commit over the root after each write or
  batch of writes. The state of an operation is the CAR and the process-wide TID clock, from which a
  commit takes its revision; what the operating system supplies to the clock is an argument.

  A function that changes the CAR returns it also when it fails. As in theory \<open>Mst\<close>, fuel bounds the
  recursions that the code leaves unguarded, and \<open>None\<close> stands for running out of it.
\<close>

section \<open>Replacing a value in the tree\<close>

text \<open>\<^verbatim>\<open>repo.c\<close> has its own copies of the key comparison, of the search in a node and of loading a node.\<close>

definition repo_mst_key_cmp :: "bytes \<Rightarrow> bytes \<Rightarrow> int" where
  "repo_mst_key_cmp a b = key_cmp a b"

fun repo_find_ge_loop :: "bytes \<Rightarrow> wf_mst_entry list \<Rightarrow> nat" where
  "repo_find_ge_loop key [] = 0"
| "repo_find_ge_loop key (e # es) =
     (if repo_mst_key_cmp key (ent_key e) \<le> 0 then 0 else Suc (repo_find_ge_loop key es))"

definition repo_mst_find_ge :: "wf_mst_node \<Rightarrow> bytes \<Rightarrow> nat" where
  "repo_mst_find_ge node key = repo_find_ge_loop key (node_entries node)"

function repo_mst_load_node_depth :: "platform \<Rightarrow> wf_car \<Rightarrow> wf_cid \<Rightarrow> nat \<Rightarrow> wf_mst_node res" where
  "repo_mst_load_node_depth P car cid depth =
     (if depth_exceeded car depth then Inl WF_ERR_PARSE
      else case wf_car_find_block car cid of
             None \<Rightarrow> Inl WF_ERR_PARSE
           | Some block \<Rightarrow>
               (case wf_mst_node_parse P (blk_data block) cid of
                  Inl s \<Rightarrow> Inl s
                | Inr out \<Rightarrow>
                    (case node_entries out of
                       e # _ \<Rightarrow> Inr (out\<lparr>node_layer := wf_mst_key_layer P (ent_key e)\<rparr>)
                     | [] \<Rightarrow>
                         (if node_left out = [] then Inr out
                          else case repo_mst_load_node_depth P car (node_left out) (depth + 1) of
                                 Inl s \<Rightarrow> Inl s
                               | Inr child \<Rightarrow> Inr (out\<lparr>node_layer := node_layer child + 1\<rparr>)))))"
  by pat_completeness auto
termination
  by (relation "measure (\<lambda>(_, _, _, depth). 1025 - depth)") (auto simp: depth_exceeded_def)

declare repo_mst_load_node_depth.simps [simp del]

definition repo_mst_load_node :: "platform \<Rightarrow> wf_car \<Rightarrow> wf_cid \<Rightarrow> wf_mst_node res" where
  "repo_mst_load_node P car cid = repo_mst_load_node_depth P car cid 0"

fun mst_update_value :: "nat \<Rightarrow> platform \<Rightarrow> wf_car \<Rightarrow> wf_cid \<Rightarrow> bytes \<Rightarrow> wf_cid \<Rightarrow> (wf_car \<times> wf_cid res) option" where
  "mst_update_value 0 P car cid key value = None"
| "mst_update_value (Suc fuel) P car cid key value =
     (case repo_mst_load_node P car cid of
        Inl s \<Rightarrow> Some (car, Inl s)
      | Inr node \<Rightarrow>
          (let idx = repo_mst_find_ge node key;
               found = (idx < node_count node \<and> repo_mst_key_cmp key (ent_key (node_entries node ! idx)) = 0)
           in if found
              then Some (mst_write_node P car (node_layer node) (node_left node)
                     ((node_entries node)[idx := (node_entries node ! idx)\<lparr>ent_value := value\<rparr>]))
              else
                let child = (if idx = 0 then node_left node else ent_subtree (node_entries node ! (idx - 1)))
                in if child = [] then Some (car, Inl WF_ERR_NOT_FOUND)
                   else case mst_update_value fuel P car child key value of
                          None \<Rightarrow> None
                        | Some r \<Rightarrow> Some (and_then r (\<lambda>car updated_child.
                            if idx = 0 then mst_write_node P car (node_layer node) updated_child (node_entries node)
                            else mst_write_node P car (node_layer node) (node_left node)
                                   ((node_entries node)[idx - 1 := (node_entries node ! (idx - 1))\<lparr>ent_subtree := updated_child\<rparr>])))))"

section \<open>Common steps\<close>

text \<open>The record's key in the tree.\<close>

definition repo_mst_key :: "bytes \<Rightarrow> bytes \<Rightarrow> bytes" where
  "repo_mst_key collection rkey = collection @ ascii ''/'' @ rkey"

definition repo_put_block :: "wf_car \<Rightarrow> wf_cid \<Rightarrow> bytes \<Rightarrow> wf_car" where
  "repo_put_block car cid data =
     (case wf_car_find_block car cid of
        Some _ \<Rightarrow> car
      | None \<Rightarrow> car\<lparr>car_blocks := car_blocks car @ [\<lparr>blk_cid = cid, blk_data = data\<rparr>]\<rparr>)"

text \<open>The commit a CID names, and the root of the tree at the head (the empty CID without a head).\<close>

definition repo_load_commit :: "platform \<Rightarrow> wf_car \<Rightarrow> wf_cid \<Rightarrow> wf_commit res" where
  "repo_load_commit P car commit_cid =
     (case wf_car_find_block car commit_cid of
        None \<Rightarrow> Inl WF_ERR_PARSE
      | Some block \<Rightarrow> wf_commit_parse P (blk_data block))"

definition repo_head_root :: "platform \<Rightarrow> wf_car \<Rightarrow> wf_cid option \<Rightarrow> wf_cid res" where
  "repo_head_root P car prev_commit =
     (case prev_commit of
        None \<Rightarrow> Inr []
      | Some c \<Rightarrow>
          (if c = [] then Inr []
           else case repo_load_commit P car c of Inl s \<Rightarrow> Inl s | Inr commit \<Rightarrow> Inr (cm_data commit)))"

text \<open>An emptied tree is committed as a node without entries.\<close>

definition repo_concrete_root :: "platform \<Rightarrow> wf_car \<Rightarrow> wf_cid \<Rightarrow> wf_car \<times> wf_cid res" where
  "repo_concrete_root P car root = (if root = [] then mst_write_node P car 0 [] [] else (car, Inr root))"

text \<open>What an operation draws from its environment, and how each ends: a fresh revision, and a signed commit.\<close>

record repo_env =
  env_plat :: platform
  env_ec :: ec_lib
  env_now :: u64
  env_rand :: "32 word"

type_synonym repo_state = "wf_car \<times> tid_clock"

definition repo_commit ::
  "repo_env \<Rightarrow> bytes \<Rightarrow> wf_cid \<Rightarrow> wf_cid option \<Rightarrow> wf_signing_key \<Rightarrow> repo_state \<Rightarrow> repo_state \<times> wf_cid res" where
  "repo_commit env did root prev_commit key st =
     (case wf_tid_now (env_now env) (env_rand env) (snd st) of
        (clock, rv) \<Rightarrow>
          (case wf_commit_create (env_plat env) (env_ec env) did rv root prev_commit key (fst st) of
             (car, Inl s) \<Rightarrow> ((car, clock), Inl s)
           | (car, Inr commit) \<Rightarrow> ((car, clock), Inr (cm_cid commit))))"

text \<open>Sequencing of a step on the CAR with a continuation on the whole state.\<close>

definition then_commit ::
  "(wf_car \<times> 'a res) option \<Rightarrow> tid_clock \<Rightarrow> (wf_car \<Rightarrow> 'a \<Rightarrow> repo_state \<times> 'b res) \<Rightarrow> (repo_state \<times> 'b res) option" where
  "then_commit r clock f =
     (case r of
        None \<Rightarrow> None
      | Some (car, Inl s) \<Rightarrow> Some ((car, clock), Inl s)
      | Some (car, Inr x) \<Rightarrow> Some (f car x))"

section \<open>Reading\<close>

definition wf_repo_get_record :: "platform \<Rightarrow> wf_car \<Rightarrow> wf_cid \<Rightarrow> bytes \<Rightarrow> bytes \<Rightarrow> (bytes \<times> wf_cid) res" where
  "wf_repo_get_record P car commit_cid collection rkey =
     (case repo_load_commit P car commit_cid of
        Inl s \<Rightarrow> Inl s
      | Inr commit \<Rightarrow>
          (case wf_mst_find P car (cm_data commit) (repo_mst_key collection rkey) of
             Inl s \<Rightarrow> Inl s
           | Inr found \<Rightarrow>
               (case wf_car_find_block car found of
                  None \<Rightarrow> Inl WF_ERR_PARSE
                | Some rec_block \<Rightarrow> Inr (blk_data rec_block, found))))"

definition wf_repo_get_record_proof :: "platform \<Rightarrow> wf_car \<Rightarrow> wf_cid \<Rightarrow> bytes \<Rightarrow> bytes \<Rightarrow> (wf_cid list \<times> wf_cid) res" where
  "wf_repo_get_record_proof P car commit_cid collection rkey =
     (case repo_load_commit P car commit_cid of
        Inl s \<Rightarrow> Inl s
      | Inr commit \<Rightarrow> wf_mst_cids_for_path P car (cm_data commit) (repo_mst_key collection rkey))"

section \<open>Writing single records\<close>

definition wf_repo_create_record ::
  "nat \<Rightarrow> repo_env \<Rightarrow> wf_cid option \<Rightarrow> bytes \<Rightarrow> bytes \<Rightarrow> bytes \<Rightarrow> bytes \<Rightarrow> wf_signing_key \<Rightarrow> repo_state \<Rightarrow>
   (repo_state \<times> (wf_cid \<times> wf_cid) res) option" where
  "wf_repo_create_record fuel env prev_commit did collection rkey record_cbor key st =
     (let P = env_plat env; car = fst st; clock = snd st
      in if record_cbor = [] then Some (st, Inl WF_ERR_INVALID_ARG)
         else case wf_cid_of_block P record_cbor of
                Inl s \<Rightarrow> Some (st, Inl s)
              | Inr out_record \<Rightarrow>
                  (let car = repo_put_block car out_record record_cbor
                   in case repo_head_root P car prev_commit of
                        Inl s \<Rightarrow> Some ((car, clock), Inl s)
                      | Inr mst_root \<Rightarrow>
                          then_commit (wf_mst_add fuel P car mst_root (repo_mst_key collection rkey) out_record) clock
                            (\<lambda>car new_mst_root.
                               case repo_commit env did new_mst_root prev_commit key (car, clock) of
                                 (st, Inl s) \<Rightarrow> (st, Inl s)
                               | (st, Inr out_commit) \<Rightarrow> (st, Inr (out_commit, out_record)))))"

definition wf_repo_update_record ::
  "nat \<Rightarrow> repo_env \<Rightarrow> wf_cid \<Rightarrow> bytes \<Rightarrow> bytes \<Rightarrow> bytes \<Rightarrow> bytes \<Rightarrow> wf_signing_key \<Rightarrow> repo_state \<Rightarrow>
   (repo_state \<times> (wf_cid \<times> wf_cid) res) option" where
  "wf_repo_update_record fuel env prev_commit did collection rkey record_cbor key st =
     (let P = env_plat env; car = fst st; clock = snd st
      in if prev_commit = [] \<or> record_cbor = [] then Some (st, Inl WF_ERR_INVALID_ARG)
         else case repo_load_commit P car prev_commit of
                Inl s \<Rightarrow> Some (st, Inl s)
              | Inr previous \<Rightarrow>
                  (case wf_cid_of_block P record_cbor of
                     Inl s \<Rightarrow> Some (st, Inl s)
                   | Inr out_record \<Rightarrow>
                       then_commit (mst_update_value fuel P car (cm_data previous) (repo_mst_key collection rkey) out_record) clock
                         (\<lambda>car new_mst_root.
                            case repo_commit env did new_mst_root (Some prev_commit) key
                                   (repo_put_block car out_record record_cbor, clock) of
                              (st, Inl s) \<Rightarrow> (st, Inl s)
                            | (st, Inr out_commit) \<Rightarrow> (st, Inr (out_commit, out_record)))))"

definition wf_repo_delete_record ::
  "nat \<Rightarrow> repo_env \<Rightarrow> wf_cid option \<Rightarrow> bytes \<Rightarrow> bytes \<Rightarrow> bytes \<Rightarrow> wf_signing_key \<Rightarrow> repo_state \<Rightarrow>
   (repo_state \<times> wf_cid res) option" where
  "wf_repo_delete_record fuel env prev_commit did collection rkey key st =
     (let P = env_plat env; car = fst st; clock = snd st
      in case repo_head_root P car prev_commit of
           Inl s \<Rightarrow> Some (st, Inl s)
         | Inr mst_root \<Rightarrow>
             then_commit
               (map_option (\<lambda>r. and_then r (\<lambda>car new_root. repo_concrete_root P car new_root))
                  (wf_mst_delete fuel P car mst_root (repo_mst_key collection rkey))) clock
               (\<lambda>car new_mst_root. repo_commit env did new_mst_root prev_commit key (car, clock)))"

section \<open>Batches\<close>

datatype wf_repo_write_action = WF_REPO_WRITE_CREATE | WF_REPO_WRITE_UPDATE | WF_REPO_WRITE_DELETE

record wf_repo_write =
  wr_action :: wf_repo_write_action
  wr_collection :: bytes
  wr_rkey :: bytes
  wr_record :: bytes

text \<open>One write against a working root: the new root and the CID of the record (empty for a deletion).\<close>

definition repo_stage_write ::
  "nat \<Rightarrow> platform \<Rightarrow> wf_repo_write \<Rightarrow> wf_car \<Rightarrow> wf_cid \<Rightarrow> (wf_car \<times> (wf_cid \<times> wf_cid) res) option" where
  "repo_stage_write fuel P w car mst_root =
     (if wr_collection w = [] \<or> wr_rkey w = [] then Some (car, Inl WF_ERR_INVALID_ARG)
      else
        let mst_key = repo_mst_key (wr_collection w) (wr_rkey w);
            found = (mst_root \<noteq> [] \<and> (case wf_mst_find P car mst_root mst_key of Inl _ \<Rightarrow> False | Inr _ \<Rightarrow> True));
            finish = (\<lambda>out_record r. map_option (\<lambda>r. and_then r (\<lambda>car new_root.
              and_then (repo_concrete_root P car new_root) (\<lambda>car new_root. (car, Inr (new_root, out_record))))) r)
        in if wr_action w = WF_REPO_WRITE_DELETE
           then if \<not> found then Some (car, Inl WF_ERR_NOT_FOUND)
                else finish [] (wf_mst_delete fuel P car mst_root mst_key)
           else if wr_record w = [] then Some (car, Inl WF_ERR_INVALID_ARG)
           else if wr_action w = WF_REPO_WRITE_CREATE \<and> found then Some (car, Inl WF_ERR_CONFLICT)
           else if wr_action w = WF_REPO_WRITE_UPDATE \<and> \<not> found then Some (car, Inl WF_ERR_NOT_FOUND)
           else case wf_cid_of_block P (wr_record w) of
                  Inl s \<Rightarrow> Some (car, Inl s)
                | Inr out_record \<Rightarrow>
                    (let car = repo_put_block car out_record (wr_record w)
                     in finish out_record
                          (if found then mst_update_value fuel P car mst_root mst_key out_record
                           else wf_mst_add fuel P car mst_root mst_key out_record)))"

fun repo_stage_loop ::
  "nat \<Rightarrow> platform \<Rightarrow> wf_repo_write list \<Rightarrow> wf_car \<Rightarrow> wf_cid \<Rightarrow> (wf_car \<times> (wf_cid \<times> wf_cid list) res) option" where
  "repo_stage_loop fuel P [] car mst_root = Some (car, Inr (mst_root, []))"
| "repo_stage_loop fuel P (w # ws) car mst_root =
     (case repo_stage_write fuel P w car mst_root of
        None \<Rightarrow> None
      | Some (car, Inl s) \<Rightarrow> Some (car, Inl s)
      | Some (car, Inr (mst_root, out_record)) \<Rightarrow>
          map_option (\<lambda>r. and_then r (\<lambda>car (root, outs). (car, Inr (root, out_record # outs))))
            (repo_stage_loop fuel P ws car mst_root))"

definition wf_repo_apply_writes ::
  "nat \<Rightarrow> repo_env \<Rightarrow> wf_cid option \<Rightarrow> bytes \<Rightarrow> wf_repo_write list \<Rightarrow> wf_signing_key \<Rightarrow> repo_state \<Rightarrow>
   (repo_state \<times> (wf_cid \<times> wf_cid list) res) option" where
  "wf_repo_apply_writes fuel env prev_commit did writes key st =
     (let P = env_plat env; car = fst st; clock = snd st
      in case repo_head_root P car prev_commit of
           Inl s \<Rightarrow> Some (st, Inl s)
         | Inr mst_root \<Rightarrow>
             then_commit
               (map_option (\<lambda>r. and_then r (\<lambda>car (root, outs).
                   and_then (repo_concrete_root P car root) (\<lambda>car root. (car, Inr (root, outs)))))
                 (repo_stage_loop fuel P writes car mst_root)) clock
               (\<lambda>car (root, outs).
                  case repo_commit env did root prev_commit key (car, clock) of
                    (st, Inl s) \<Rightarrow> (st, Inl s)
                  | (st, Inr out_commit) \<Rightarrow> (st, Inr (out_commit, outs))))"

end
