(* ===== verification/Repo_Update.thy ===== *)
theory Repo_Update
  imports Repo
begin

text \<open>
  Replacing a value: \<open>mst_update_value\<close> keeps the shape of the tree and changes one leaf. With it, every
  step that a repository operation takes on the tree refines a step on the list of leaves.
\<close>

lemma repo_find_ge_eq: "repo_mst_find_ge node key = mst_find_ge node key"
proof -
  have "repo_find_ge_loop key es = find_ge_loop key es" for es
    by (induction es) (auto simp: repo_mst_key_cmp_def wf_mst_key_cmp_def)
  then show ?thesis by (simp add: repo_mst_find_ge_def mst_find_ge_def)
qed

lemma repo_load_eq: "repo_mst_load_node P car cid = mst_load_node P car cid"
proof -
  have "repo_mst_load_node_depth P car cid d = mst_load_node_depth P car cid d" for d
  proof (induction P car cid d rule: repo_mst_load_node_depth.induct)
    case (1 P car cid d)
    then show ?case
      unfolding repo_mst_load_node_depth.simps [of P car cid d] mst_load_node_depth.simps [of P car cid d]
      by (simp cong: option.case_cong sum.case_cong list.case_cong if_cong)
  qed
  then show ?thesis by (simp add: repo_mst_load_node_def mst_load_node_def)
qed

lemma repo_cmp_eq: "repo_mst_key_cmp = wf_mst_key_cmp"
  by (simp add: fun_eq_iff repo_mst_key_cmp_def wf_mst_key_cmp_def)

lemmas repo_copies = repo_find_ge_eq repo_load_eq repo_cmp_eq

section \<open>Setting a leaf\<close>

definition set_leaf :: "bytes \<Rightarrow> wf_cid \<Rightarrow> (bytes \<times> wf_cid) list \<Rightarrow> (bytes \<times> wf_cid) list" where
  "set_leaf key v ls = map (\<lambda>(k, w). (k, if k = key then v else w)) ls"

lemma set_leaf_keys [simp]: "map fst (set_leaf key v ls) = map fst ls"
  by (induction ls) (auto simp: set_leaf_def)

lemma set_leaf_append [simp]: "set_leaf key v (xs @ ys) = set_leaf key v xs @ set_leaf key v ys"
  by (simp add: set_leaf_def)

lemma set_leaf_other: "key \<notin> fst ` set ls \<Longrightarrow> set_leaf key v ls = ls"
  by (induction ls) (auto simp: set_leaf_def)

lemma set_set_leaf: "set (set_leaf key v ls) \<subseteq> insert (key, v) (set ls)"
  by (auto simp: set_leaf_def split: if_splits)

lemma length_set_leaf [simp]: "length (set_leaf key v ls) = length ls"
  by (simp add: set_leaf_def)

lemma set_leaf_Cons: "set_leaf key v (x # ls) = (fst x, if fst x = key then v else snd x) # set_leaf key v ls"
  by (simp add: set_leaf_def split_beta)

lemma map_of_set_leaf: "map_of (set_leaf key v ls) k = (if k = key \<and> key \<in> fst ` set ls then Some v else map_of ls k)"
proof (induction ls)
  case (Cons x ls)
  then show ?case by (cases "fst x = k"; cases "k = key") (simp_all add: set_leaf_Cons)
qed (simp add: set_leaf_def)

lemma leaves_ok_set:
  assumes "leaves_ok ls" "cid_ok v"
  shows "leaves_ok (set_leaf key v ls)"
proof -
  have all: "\<forall>x \<in> set ls. wf_mst_key_is_valid (fst x) \<and> cid_ok (snd x)" and "keys_sorted ls" "length ls < 2 ^ 64"
    using assms(1) unfolding leaves_ok_def list_all_iff by (simp_all add: case_prod_beta)
  moreover have "\<forall>x \<in> set (set_leaf key v ls). wf_mst_key_is_valid (fst x) \<and> cid_ok (snd x)"
    using all assms(2) by (simp add: set_leaf_def split_beta)
  ultimately show ?thesis unfolding leaves_ok_def list_all_iff by (simp add: case_prod_beta)
qed

lemma set_leaf_position:
  assumes "keys_sorted (xs @ (key, w) # ys)"
  shows "set_leaf key v (xs @ (key, w) # ys) = xs @ (key, v) # ys"
proof -
  have "key \<notin> fst ` set xs" "key \<notin> fst ` set ys" using assms by (auto simp: sorted_wrt_append)
  from this [THEN set_leaf_other, of v] show ?thesis by (simp add: set_leaf_def)
qed

context platform_laws
begin

lemma ext_update: "mst_update_value fuel P car c key v = Some r \<Longrightarrow> car_ext car (fst r)"
proof (induction fuel arbitrary: c r)
  case (Suc fuel)
  then show ?case
    by (auto simp: Let_def ext_write split: sum.splits if_splits option.splits intro!: ext_and_then)
qed simp

lemma update_hit_made:
  assumes "mst_stored P car (MNode l es)" "wtree P st L n (MNode l es)" "cid_ok v" "(key, v) \<in> L"
    "es = es1 @ (key, w, s) # es2"
  shows "yields P L (mst_write_node P car n (tree_cid P l) (tree_entries P (es1 @ [(key, v, s)] @ es2)))
    (made P st L n (set_leaf key v (leaves (MNode l es))))"
proof -
  let ?X = "predt l es1"
  have lay: "lay P st n (MNode l es)" and ok: "leaves_ok (leaves (MNode l es))" and L: "set (leaves (MNode l es)) \<subseteq> L"
    using assms(2) by (auto simp: wtree_def)
  have X: "mst_stored P car ?X" "wtree P st L (n - 1) ?X" "?X \<noteq> MNil \<longrightarrow> 0 < n"
    using predt_kid [OF assms(1,2), of es1] assms(5) by auto
  have all: "leaves (MNode l es) = (pre_leaves l es1 @ leaves ?X) @ (key, w) # leaves s @ ent_leaves es2"
    using leaves_predt [of l es1] by (simp add: assms(5))
  have set: "set_leaf key v (leaves (MNode l es)) = pre_leaves l es1 @ leaves ?X @ ent_leaves [(key, v, s)] @ ent_leaves es2"
  proof -
    have "keys_sorted (leaves (MNode l es))" using ok unfolding leaves_ok_def by blast
    from set_leaf_position [OF this [unfolded all], of v] show ?thesis unfolding all by simp
  qed
  have mem: "(key, w, s) \<in> set es" by (simp add: assms(5))
  show ?thesis
  proof (rule rewrite_made [OF assms(2) _ assms(1) with_pred_predt X(1)])
    show "?X = MNil \<or> (\<exists>m < n. lay P st m ?X)" using X(2,3) by (auto simp: wtree_def intro!: exI [of _ "n - 1"])
    show "mst_stored P car s' \<and> wf_mst_key_layer P k' = n \<and> (s' = MNil \<or> (\<exists>m < n. lay P st m s'))"
      if "(k', v', s') \<in> set [(key, v, s)]" for k' v' s'
      using that lay_key [OF lay mem] lay_sub [OF lay mem] stored_sub [OF assms(1) mem] by (auto intro!: exI [of _ "n - 1"])
    show "leaves_ok (set_leaf key v (leaves (MNode l es)))" by (rule leaves_ok_set [OF ok assms(3)])
    show "set (set_leaf key v (leaves (MNode l es))) \<subseteq> L" using set_set_leaf [of key v] L assms(4) by blast
  qed (use set assms(5) in auto)
qed

lemma update_child_made:
  assumes "mst_stored P car (MNode l es)" "wtree P st L n (MNode l es)" "cid_ok v" "(key, v) \<in> L"
    "node_layer node = n" "node_left node = tree_cid P l" "node_entries node = tree_entries P es" "key \<notin> fst ` set es"
  defines "es1 \<equiv> takeWhile (below key) es"
  assumes "0 < n" "made P st L (n - 1) (set_leaf key v (leaves (predt l es1))) car c"
    "key \<in> fst ` set (leaves (predt l es1))"
  shows "yields P L (mst_replace_child P car node (if es1 = [] then None else Some (length es1 - 1)) c)
    (made P st L n (set_leaf key v (leaves (MNode l es))))"
proof -
  define es2 where "es2 = dropWhile (below key) es"
  have es: "es = es1 @ es2" by (simp add: es1_def es2_def)
  have ok: "leaves_ok (leaves (MNode l es))" and L: "set (leaves (MNode l es)) \<subseteq> L"
    using assms(2) by (auto simp: wtree_def)
  note gap = node_gap [OF ok assms(8), folded es1_def es2_def]
  have "key \<notin> fst ` set (pre_leaves l es1)" "key \<notin> fst ` set (ent_leaves es2)" using gap(2,3) by force+
  then have set: "set_leaf key v (leaves (MNode l es)) =
      pre_leaves l es1 @ set_leaf key v (leaves (predt l es1)) @ ent_leaves es2"
    unfolding gap(1) by (simp add: set_leaf_other)
  from assms(11) obtain t where t: "c = tree_cid P t" "mst_stored P car t" "lay P st (n - 1) t"
    "leaves t = set_leaf key v (leaves (predt l es1))" by (blast elim: madeE)
  obtain l1 es1' where w: "with_pred l es1 t = (l1, es1')" by (metis surj_pair)
  have eq: "mst_replace_child P car node (if es1 = [] then None else Some (length es1 - 1)) c =
      mst_write_node P car n (tree_cid P l1) (tree_entries P (es1' @ [] @ es2))"
    using replace_child_tree [OF assms(6) assms(7) [unfolded es] w] assms(5) t(1) by simp
  have nonempty: "es1' @ [] @ es2 \<noteq> [] \<or> l1 \<noteq> MNil"
    using leaves_with_pred [OF w] t(4) assms(12) by (auto simp: set_leaf_def)
  show ?thesis
    unfolding eq
  proof (rule rewrite_made [OF assms(2) _ assms(1) w t(2)])
    show "t = MNil \<or> (\<exists>m < n. lay P st m t)" using t(3) assms(10) by (auto intro!: exI [of _ "n - 1"])
    show "leaves_ok (set_leaf key v (leaves (MNode l es)))" by (rule leaves_ok_set [OF ok assms(3)])
    show "set (set_leaf key v (leaves (MNode l es))) \<subseteq> L" using set_set_leaf [of key v] L assms(4) by blast
  qed (use es set t(4) nonempty in auto)
qed

text \<open>The whole descent, on a key that is bound and on one that is not.\<close>

lemma update_made:
  assumes "mst_stored P car t" "wtree P st L n t" "t \<noteq> MNil" "height t \<le> fuel" "length key < 2 ^ 31" "cid_ok v" "(key, v) \<in> L"
  shows "\<exists>r. mst_update_value fuel P car (tree_cid P t) key v = Some r \<and>
    (if key \<in> fst ` set (leaves t) then yields P L r (made P st L n (set_leaf key v (leaves t)))
     else r = (car, Inl WF_ERR_NOT_FOUND))"
  using assms(1-4)
proof (induction fuel arbitrary: t n)
  case 0
  then show ?case by (cases t) auto
next
  case (Suc fuel)
  from load_wtree [OF Suc.prems(1-3)] obtain l es node where t: "t = MNode l es"
    and load: "mst_load_node P car (tree_cid P t) = Inr node"
    and node: "node_layer node = n" "node_left node = tree_cid P l" "node_entries node = tree_entries P es"
    by fastforce
  have ok: "leaves_ok (leaves (MNode l es))" using Suc.prems(2) t by (auto simp: wtree_def)
  define es1 es2 where d: "es1 = takeWhile (below key) es" "es2 = dropWhile (below key) es"
  have es: "es = es1 @ es2" by (simp add: d)
  have idx: "mst_find_ge node key = length es1" using find_hit(1) [OF ok assms(5) node(3)] by (simp add: d)
  note hit = find_hit(2) [OF ok assms(5) node(3)]
  show ?case
  proof (cases "key \<in> fst ` set es")
    case True
    obtain w s es3 where pos: "es = es1 @ (key, w, s) # es3" using entry_position [OF ok True] unfolding d by blast
    have "(node_entries node)[length es1 := (node_entries node ! length es1)\<lparr>ent_value := v\<rparr>] = tree_entries P (es1 @ [(key, v, s)] @ es3)"
      unfolding node(3) pos by (simp add: nth_append list_update_append)
    then have "mst_update_value (Suc fuel) P car (tree_cid P t) key v =
        Some (mst_write_node P car n (tree_cid P l) (tree_entries P (es1 @ [(key, v, s)] @ es3)))"
      using hit True load idx node by (simp add: repo_copies)
    moreover have "key \<in> fst ` set (leaves t)" using True by (force simp: t set_ent_leaves)
    ultimately show ?thesis using update_hit_made [OF Suc.prems(1,2) [unfolded t] assms(6,7) pos] t by auto
  next
    case False
    let ?X = "predt l es1" and ?use = "if es1 = [] then None else Some (length es1 - 1)"
    note gap = node_gap [OF ok False, folded d]
    have mem: "key \<in> fst ` set (leaves t) \<longleftrightarrow> key \<in> fst ` set (leaves ?X)"
      using gap unfolding t by force
    have ents: "node_entries node = tree_entries P (es1 @ es2)" using node(3) es by simp
    note ch = child_tree [OF node(2) ents]
    have step: "mst_update_value (Suc fuel) P car (tree_cid P t) key v =
        (if ?X = MNil then Some (car, Inl WF_ERR_NOT_FOUND)
         else case mst_update_value fuel P car (tree_cid P ?X) key v of None \<Rightarrow> None
              | Some r \<Rightarrow> Some (and_then r (\<lambda>car c. mst_replace_child P car node ?use c)))"
    proof -
      have nohit: "\<not> (length es1 < node_count node \<and> wf_mst_key_cmp key (ent_key (node_entries node ! length es1)) = 0)"
        using hit False idx by simp
      show ?thesis
        unfolding mst_update_value.simps repo_copies load sum.case idx Let_def if_not_P [OF nohit] ch(3)
        by (cases "es1 = []") (simp_all add: mst_replace_child_def del: mst_update_value.simps cong: option.case_cong)
    qed
    show ?thesis
    proof (cases "?X = MNil")
      case True
      then show ?thesis using mem by (simp add: step del: mst_update_value.simps)
    next
      case X: False
      have x: "mst_stored P car ?X" "wtree P st L (n - 1) ?X" "0 < n"
        using predt_kid [OF Suc.prems(1,2) [unfolded t], of es1] es X by auto
      have h: "height ?X \<le> fuel" using predt_height [OF es, of l] Suc.prems(4) unfolding t by linarith
      from Suc.IH [OF x(1,2) X h] obtain r where r: "mst_update_value fuel P car (tree_cid P ?X) key v = Some r"
        "if key \<in> fst ` set (leaves ?X) then yields P L r (made P st L (n - 1) (set_leaf key v (leaves ?X)))
         else r = (car, Inl WF_ERR_NOT_FOUND)" by blast
      show ?thesis
      proof (cases "key \<in> fst ` set (leaves ?X)")
        case True
        have "yields P L (and_then r (\<lambda>car c. mst_replace_child P car node ?use c)) (made P st L n (set_leaf key v (leaves t)))"
        proof (rule yields_and_then [where car = car, OF _ ext_update [OF r(1)]])
          show "yields P L r (made P st L (n - 1) (set_leaf key v (leaves ?X)))" using r(2) True by simp
          show "car_ext car (fst (mst_replace_child P car node ?use c))" for car c
            by (auto simp: mst_replace_child_def ext_write split: option.splits)
          show "yields P L (mst_replace_child P car' node ?use c) (made P st L n (set_leaf key v (leaves t)))"
            if "car_ext car car'" "made P st L (n - 1) (set_leaf key v (leaves ?X)) car' c" for car' c
            using update_child_made [OF stored_ext [OF Suc.prems(1) that(1), unfolded t] Suc.prems(2) [unfolded t] assms(6,7) node False x(3)] that(2) True
            unfolding t d by blast
        qed
        then show ?thesis using mem True r(1) X by (simp add: step del: mst_update_value.simps)
      next
        case False
        then show ?thesis using mem r X by (simp add: step del: mst_update_value.simps)
      qed
    qed
  qed
qed

end

end
