(* ===== verification/Mst_Term.thy ===== *)
theory Mst_Term
  imports Repo_Update Mst_Example
begin

text \<open>
  Termination of the tree mutations, which recurse without a depth check: on every root that represents a
  tree, of whatever shape, as many levels as the CAR has blocks are enough. A CAR whose blocks are
  linked in a circle represents no tree; there the recursion of \<open>wf_mst_add\<close> does not end.
\<close>

section \<open>Children\<close>

lemma load_node_parse:
  assumes "mst_load_node P car c = Inr node"
  obtains b out where "wf_car_find_block car c = Some b" "wf_mst_node_parse P (blk_data b) c = Inr out"
    "node_left node = node_left out" "node_entries node = node_entries out"
  using assms that unfolding mst_load_node_def load_depth_iff [of P car c] by fastforce

lemma child_rep:
  assumes "mst_rep P car c t" "c \<noteq> []" "mst_load_node P car c = Inr node" "s = node_left node \<or> s \<in> ent_subtree ` set (node_entries node)"
  obtains u where "mst_rep P car s u" "height u < height t"
proof -
  obtain b out where o: "wf_car_find_block car c = Some b" "wf_mst_node_parse P (blk_data b) c = Inr out"
    "node_left node = node_left out" "node_entries node = node_entries out" by (rule load_node_parse [OF assms(3)])
  obtain l es where t: "t = MNode l es" using assms(1,2) by (cases t) auto
  with assms(1) o(1,2) have n: "mst_rep P car (node_left out) l" "list_all2 (entry_rep (mst_rep P car)) (node_entries out) es"
    by (auto simp: mst_rep_Node_iff)
  from assms(4) consider "s = node_left out" | e where "e \<in> set (node_entries out)" "s = ent_subtree e" using o(3,4) by auto
  then show thesis
  proof cases
    case 1
    then show ?thesis using that [of l] n(1) height_left [of l es] t by simp
  next
    case 2
    then obtain i where i: "i < length (node_entries out)" "e = node_entries out ! i" by (metis in_set_conv_nth)
    have len: "length es = length (node_entries out)" using list_all2_lengthD [OF n(2)] by simp
    obtain k v u where kv: "es ! i = (k, v, u)" by (cases "es ! i") auto
    have "mst_rep P car s u" using list_all2_nthD [OF n(2) i(1)] kv i(2) 2(2) by simp
    moreover have "(k, v, u) \<in> set es" using kv i(1) len nth_mem by metis
    then have "height u < height t" unfolding t by (rule height_sub)
    ultimately show ?thesis using that by blast
  qed
qed

lemma find_ge_le: "mst_find_ge node key \<le> node_count node"
proof -
  have "find_ge_loop key es \<le> length es" for es by (induction es) auto
  then show ?thesis by (simp add: mst_find_ge_def)
qed

lemma child_cases: "mst_child node (mst_use_prev node (mst_find_ge node key)) = node_left node \<or>
    mst_child node (mst_use_prev node (mst_find_ge node key)) \<in> ent_subtree ` set (node_entries node)"
  using find_ge_le [of node key] by (auto simp: mst_child_def mst_use_prev_def)

lemma child_rep_at:
  assumes "mst_rep P car c t" "c \<noteq> []" "mst_load_node P car c = Inr node" "i < length (node_entries node)"
  obtains u where "mst_rep P car (ent_subtree (node_entries node ! i)) u" "height u < height t"
  using child_rep [OF assms(1-3), of "ent_subtree (node_entries node ! i)"] assms(4) by auto

section \<open>Enough levels\<close>

lemma add_terminates:
  "mst_rep P car root t \<Longrightarrow> height t < fuel \<Longrightarrow> \<exists>r. wf_mst_add fuel P car root key v = Some r"
proof (induction fuel arbitrary: root t)
  case (Suc fuel)
  show ?case
  proof (cases "root = [] \<or> key = [] \<or> \<not> wf_mst_key_is_valid key")
    case False
    then have ne: "root \<noteq> []" by blast
    show ?thesis
    proof (cases "mst_load_node P car root")
      case (Inr node)
      let ?target = "mst_child node (mst_use_prev node (mst_find_ge node key))"
      obtain u where u: "mst_rep P car ?target u" "height u < height t"
        by (rule child_rep [OF Suc.prems(1) ne Inr child_cases])
      obtain r where "wf_mst_add fuel P car ?target key v = Some r" using Suc.IH [OF u(1)] u(2) Suc.prems(2) by auto
      then have "\<exists>r. mst_add_at_lower_layer fuel P car node key v K = Some r" for K
        by (cases "?target = []"; cases "if mst_use_prev node (mst_find_ge node key) = None then mst_load_error P car ?target else None")
          (simp_all add: Let_def)
      then show ?thesis using False Inr by (auto simp: Let_def simp del: mst_add_at_lower_layer.simps)
    qed (use False in \<open>simp add: Let_def\<close>)
  qed (auto simp: Let_def)
qed simp

lemma delete_rec_terminates:
  "mst_rep P car root t \<Longrightarrow> root \<noteq> [] \<Longrightarrow> mst_load_node P car root = Inr node \<Longrightarrow> height t \<le> fuel \<Longrightarrow>
     \<exists>r. mst_delete_recursive fuel P car node key K = Some r"
proof (induction fuel arbitrary: root t node)
  case 0
  then show ?case by (cases t) auto
next
  case (Suc fuel)
  have step: "\<exists>r. mst_delete_recursive fuel P car child key K = Some r"
    if h: "mst_child node use \<noteq> []" "mst_load_node P car (mst_child node use) = Inr child"
      "mst_child node use = node_left node \<or> mst_child node use \<in> ent_subtree ` set (node_entries node)" for child use
  proof -
    obtain u where "mst_rep P car (mst_child node use) u" "height u < height t" by (rule child_rep [OF Suc.prems(1-3) h(3)])
    then show ?thesis using Suc.IH h(1,2) Suc.prems(4) by auto
  qed
  let ?i = "mst_find_ge node key"
  let ?use = "if ?i = 0 then None else Some (if node_count node \<le> ?i then node_count node - 1 else ?i - 1)"
  have use: "mst_child node ?use = node_left node \<or> mst_child node ?use \<in> ent_subtree ` set (node_entries node)"
    using find_ge_le [of node key] by (auto simp: mst_child_def)
  have 1: "\<exists>r. mst_delete_recursive fuel P car child key K = Some r"
    if "mst_child node ?use \<noteq> []" "mst_load_node P car (mst_child node ?use) = Inr child" for child
    by (rule step [OF that use])
  have 2: "\<exists>r. mst_delete_recursive fuel P car child key K = Some r"
    if "mst_child node (mst_use_prev node ?i) \<noteq> []" "mst_load_node P car (mst_child node (mst_use_prev node ?i)) = Inr child" for child
    by (rule step [OF that child_cases])
  have via: "\<exists>r. (if c = [] then Some (car, Inl WF_ERR_NOT_FOUND)
      else case mst_load_node P car c of
             Inl s \<Rightarrow> Some (car, Inl s)
           | Inr child \<Rightarrow> (case mst_delete_recursive fuel P car child key K of None \<Rightarrow> None | Some r \<Rightarrow> Some (f r))) = Some r"
    if "\<And>child. c \<noteq> [] \<Longrightarrow> mst_load_node P car c = Inr child \<Longrightarrow> \<exists>r. mst_delete_recursive fuel P car child key K = Some r" for c f
    using that by (cases "mst_load_node P car c") auto
  have either: "\<exists>r. (if b then x else y) = Some r" if "b \<Longrightarrow> \<exists>r. x = Some r" "\<not> b \<Longrightarrow> \<exists>r. y = Some r" for b and x y :: "(wf_car \<times> wf_cid res) option"
    using that by simp
  show ?case unfolding mst_delete_recursive.simps Let_def
    by (rule either, rule either, blast, rule via, erule (1) 1, rule either, blast, rule via, erule (1) 2)
qed

lemma update_terminates:
  "mst_rep P car root t \<Longrightarrow> root \<noteq> [] \<Longrightarrow> height t < fuel \<Longrightarrow> \<exists>r. mst_update_value fuel P car root key v = Some r"
proof (induction fuel arbitrary: root t)
  case (Suc fuel)
  show ?case
  proof (cases "mst_load_node P car root")
    case (Inr node)
    let ?i = "mst_find_ge node key"
    let ?child = "if ?i = 0 then node_left node else ent_subtree (node_entries node ! (?i - 1))"
    have "?child = node_left node \<or> ?child \<in> ent_subtree ` set (node_entries node)"
      using find_ge_le [of node key] by auto
    then obtain u where u: "mst_rep P car ?child u" "height u < height t" by (rule child_rep [OF Suc.prems(1,2) Inr])
    have "\<exists>r. mst_update_value fuel P car ?child key v = Some r" if "?child \<noteq> []" using Suc.IH [OF u(1) that] u(2) Suc.prems(3) by simp
    then show ?thesis using Inr by (cases "?child = []") (auto simp: repo_load_eq repo_find_ge_eq Let_def)
  qed (simp add: repo_load_eq)
qed simp

text \<open>C36: the unguarded recursions end: on every root that represents a tree, whatever its shape and whatever
  the key, adding, deleting and replacing return with fewer recursive calls than the CAR has blocks,
  plus one.\<close>

theorem mst_mutation_terminates:
  assumes "mst_rep P car root t" "root \<noteq> []" "length (car_blocks car) < fuel"
  shows "(\<exists>r. wf_mst_add fuel P car root key v = Some r) \<and> (\<exists>r. wf_mst_delete fuel P car root key = Some r) \<and>
    (\<exists>r. mst_update_value fuel P car root key v = Some r)"
proof -
  have h: "height t < fuel" using mst_rep_height_bound [OF assms(1)] assms(3) by linarith
  have "\<exists>r. wf_mst_delete fuel P car root key = Some r"
  proof (cases "mst_load_node P car root")
    case (Inr node)
    obtain r where "mst_delete_recursive fuel P car node key (wf_mst_key_layer P key) = Some r"
      using delete_rec_terminates [OF assms(1,2) Inr] h by fastforce
    then show ?thesis using Inr assms(2) by (simp add: wf_mst_delete_def Let_def)
  qed (use assms(2) in \<open>simp add: wf_mst_delete_def Let_def\<close>)
  then show ?thesis using add_terminates [OF assms(1) h] update_terminates [OF assms(1,2) h] by blast
qed

theorem mst_mutation_terminates_witness:
  "\<exists>r. wf_mst_add 3 ex_plat ex_car ex_root kc ex_value = Some r"
  using mst_mutation_terminates [OF ex_rep ex_root_nonempty, of 3 kc ex_value] by (simp add: ex_car_def)

section \<open>A circle of links\<close>

text \<open>
  The parser of CARs does not compare blocks with their CIDs, so a block may link to itself. Where the
  descent of \<open>wf_mst_add\<close> meets such a node again and again it never returns, at any depth: the guard of
  the other recursions is missing.
\<close>

definition loop_sha :: "bytes \<Rightarrow> bytes" where
  "loop_sha d = (if d = kb then replicate 32 0 else replicate 32 0xff)"

definition loop_plat :: platform where
  "loop_plat = ref_platform loop_sha"

interpretation loop: platform_laws loop_plat
  unfolding loop_plat_def by (rule ref_platform_laws) (simp add: loop_sha_def)

definition loop_cid :: wf_cid where
  "loop_cid = wf_cid_from_hash (replicate 32 9)"

definition loop_car :: wf_car where
  "loop_car = \<lparr>car_roots = [loop_cid], car_blocks = [\<lparr>blk_cid = loop_cid, blk_data = node_bytes loop_cid [ex_entry kb]\<rparr>]\<rparr>"

lemma loop_layers: "wf_mst_key_layer loop_plat ka = 0" "wf_mst_key_layer loop_plat kb = 128"
proof -
  have "ka \<noteq> kb" by code_simp
  moreover have "key_layer_loop (replicate 32 0xff) = 0" "key_layer_loop (replicate 32 0) = 128" by code_simp+
  ultimately show "wf_mst_key_layer loop_plat ka = 0" "wf_mst_key_layer loop_plat kb = 128"
    by (simp_all add: wf_mst_key_layer_def loop_plat_def ref_platform_def loop_sha_def)
qed

lemma loop_load: "mst_load_node loop_plat loop_car loop_cid =
    Inr \<lparr>node_cid = loop_cid, node_layer = 128, node_left = loop_cid, node_entries = [ex_entry kb]\<rparr>"
proof -
  have "cid_ok loop_cid" unfolding loop_cid_def wf_cid_from_hash_def by (rule cid_ok_from_hash_codec) auto
  then have "node_ok loop_cid [ex_entry kb]" by (auto simp: node_ok_def entry_ok_def ex_entry_def ex_keys ex_value_ok)
  from loop.parse_node_bytes [OF this, of loop_cid] show ?thesis
    unfolding mst_load_node_def
    by (subst mst_load_node_depth.simps)
      (simp add: depth_exceeded_def loop_car_def wf_car_find_block_eq entries_layer_def ex_entry_def loop_layers)
qed

lemma add_circle_diverges: "wf_mst_add fuel loop_plat loop_car loop_cid ka ex_value = None"
proof (induction fuel)
  case (Suc fuel)
  let ?node = "\<lparr>node_cid = loop_cid, node_layer = 128, node_left = loop_cid, node_entries = [ex_entry kb]\<rparr>"
  have ne: "loop_cid \<noteq> []" by (simp add: loop_cid_def wf_cid_from_hash_def wf_cid_from_hash_codec_def)
  have "find_ge_loop ka [ex_entry kb] = 0" by code_simp
  then have "mst_use_prev ?node (mst_find_ge ?node ka) = None" by (simp add: mst_find_ge_def mst_use_prev_def)
  then have "mst_add_at_lower_layer fuel loop_plat loop_car ?node ka ex_value 0 = None"
    using ne loop_load Suc.IH by (simp add: Let_def mst_child_def mst_load_error_def)
  then show ?case using ne loop_load loop_layers ex_keys(1) ex_key_facts(1) by (simp add: Let_def)
qed simp

end
