(* ===== verification/Cid_Set.thy ===== *)
theory Cid_Set
  imports Car
begin

unbundle bit_operations_syntax

text \<open>
  The set of CIDs that \<^verbatim>\<open>src/repo/diff.c\<close> uses to reject CARs with duplicate blocks: an open-addressing hash
  table with linear probing over a capacity that is a power of two. A slot of length 0 is free. The
  invariant is that every CID is reached from its home slot over occupied slots; with it, inserting
  answers exactly whether the CID was present, and finds a slot whenever one is free.
\<close>

section \<open>The code\<close>

abbreviation SIZE_MAX :: nat where "SIZE_MAX \<equiv> 2 ^ 64 - 1"

text \<open>\<^verbatim>\<open>sizeof(wf_cid)\<close>: 36 bytes, padded, and a length.\<close>

abbreviation SIZEOF_WF_CID :: nat where "SIZEOF_WF_CID \<equiv> 48"

text \<open>The doubling loop of \<^verbatim>\<open>repo_cid_set_init\<close>, which starts at 8.\<close>

function cid_set_grow :: "nat \<Rightarrow> nat \<Rightarrow> nat option" where
  "cid_set_grow cap count =
     (if 0 < cap \<and> cap < count * 2 then if SIZE_MAX div 2 < cap then None else cid_set_grow (cap * 2) count
      else Some cap)"
  by pat_completeness auto
termination by (relation "measure (\<lambda>(cap, count). count * 2 - cap)") auto

declare cid_set_grow.simps [simp del]

type_synonym repo_cid_set = "wf_cid list"

definition repo_cid_set_init :: "nat \<Rightarrow> repo_cid_set res" where
  "repo_cid_set_init count =
     (if count = 0 then Inr []
      else if SIZE_MAX div 2 div SIZEOF_WF_CID < count then Inl WF_ERR_ALLOC
      else case cid_set_grow 8 count of None \<Rightarrow> Inl WF_ERR_ALLOC | Some cap \<Rightarrow> Inr (replicate cap []))"

definition repo_cid_hash :: "wf_cid \<Rightarrow> u64" where
  "repo_cid_hash cid = foldl (\<lambda>h b. (h XOR ucast b) * 1099511628211) 14695981039346656037 cid"

text \<open>The probing loop; the last argument is the number of probes left.\<close>

fun cid_set_probe :: "repo_cid_set \<Rightarrow> wf_cid \<Rightarrow> u64 \<Rightarrow> u64 \<Rightarrow> nat \<Rightarrow> (repo_cid_set \<times> bool) res" where
  "cid_set_probe slots cid msk slot 0 = Inl WF_ERR_ALLOC"
| "cid_set_probe slots cid msk slot (Suc n) =
     (if slots ! unat slot = [] then Inr (slots[unat slot := cid], False)
      else if cid_equal (slots ! unat slot) cid then Inr (slots, True)
      else cid_set_probe slots cid msk ((slot + 1) AND msk) n)"

definition repo_cid_set_insert :: "repo_cid_set \<Rightarrow> wf_cid \<Rightarrow> (repo_cid_set \<times> bool) res" where
  "repo_cid_set_insert slots cid =
     (if cid = [] \<or> slots = [] then Inl WF_ERR_INVALID_ARG
      else let msk = of_nat (length slots) - 1
           in cid_set_probe slots cid msk (repo_cid_hash cid AND msk) (length slots))"

section \<open>Probe sequences\<close>

text \<open>The slot of the \<open>i\<close>-th probe.\<close>

definition probe_at :: "repo_cid_set \<Rightarrow> wf_cid \<Rightarrow> nat \<Rightarrow> nat" where
  "probe_at slots cid i = (unat (repo_cid_hash cid) + i) mod length slots"

definition pow2_cap :: "repo_cid_set \<Rightarrow> bool" where
  "pow2_cap slots \<longleftrightarrow> (\<exists>k < 64. length slots = 2 ^ k)"

lemma pow2_cap_pos: "pow2_cap slots \<Longrightarrow> 0 < length slots \<and> length slots < 2 ^ 64"
  unfolding pow2_cap_def using power_strict_increasing [of _ 64 "2 :: nat"] by fastforce

lemma mask_and:
  assumes "pow2_cap slots"
  shows "unat (w AND (of_nat (length slots) - 1)) = unat (w :: u64) mod length slots"
proof -
  from assms obtain k where k: "k < 64" "length slots = 2 ^ k" by (auto simp: pow2_cap_def)
  have "of_nat (length slots) - 1 = (mask k :: u64)" by (simp add: k(2) mask_eq_exp_minus_1)
  then show ?thesis
    by (simp only: k(2) take_bit_eq_mask [symmetric] unsigned_take_bit_eq) (simp add: take_bit_eq_mod)
qed

lemma probe_first: "pow2_cap slots \<Longrightarrow> unat (repo_cid_hash cid AND (of_nat (length slots) - 1)) = probe_at slots cid 0"
  by (simp add: mask_and probe_at_def)

lemma probe_next:
  fixes slot :: u64
  assumes "pow2_cap slots" "unat slot = probe_at slots cid i"
  shows "unat ((slot + 1) AND (of_nat (length slots) - 1)) = probe_at slots cid (Suc i)"
proof -
  have "unat slot < length slots" using assms pow2_cap_pos by (simp add: probe_at_def)
  moreover from this pow2_cap_pos [OF assms(1)] have "unat (slot + 1) = unat slot + 1"
    using unat_of_nat_u64 [of "unat slot + 1"] by (simp add: add.commute)
  ultimately show ?thesis using assms by (simp add: mask_and probe_at_def mod_simps)
qed

lemma probe_at_less: "0 < length slots \<Longrightarrow> probe_at slots cid i < length slots"
  by (simp add: probe_at_def)

lemma probe_at_onto:
  assumes "j < length slots"
  obtains i where "i < length slots" "probe_at slots cid i = j"
proof -
  let ?n = "length slots" and ?h = "unat (repo_cid_hash cid) mod length slots"
  have h: "?h < ?n" using assms by (intro mod_less_divisor) linarith
  let ?i = "(j + ?n - ?h) mod ?n"
  have "probe_at slots cid ?i = (?h + (j + ?n - ?h)) mod ?n" by (simp add: probe_at_def mod_simps)
  also have "\<dots> = j" using h assms by simp
  finally show thesis using that [of ?i] h by (metis mod_less_divisor less_nat_zero_code neq0_conv)
qed

section \<open>The invariant\<close>

text \<open>Every CID is stored once, and reached from its home slot over occupied slots.\<close>

definition set_inv :: "repo_cid_set \<Rightarrow> bool" where
  "set_inv slots \<longleftrightarrow> pow2_cap slots \<and>
     (\<forall>j < length slots. slots ! j \<noteq> [] \<longrightarrow>
        (\<exists>d < length slots. probe_at slots (slots ! j) d = j \<and> (\<forall>i < d. slots ! probe_at slots (slots ! j) i \<noteq> []))) \<and>
     (\<forall>i < length slots. \<forall>j < length slots. slots ! i = slots ! j \<and> slots ! i \<noteq> [] \<longrightarrow> i = j)"

definition elems :: "repo_cid_set \<Rightarrow> wf_cid set" where
  "elems slots = set slots - {[]}"

lemma set_inv_empty: "pow2_cap (replicate n []) \<Longrightarrow> set_inv (replicate n [])"
  by (simp add: set_inv_def)

lemma probe_found:
  assumes "pow2_cap slots" "cid \<noteq> []" "probe_at slots cid d = j" "slots ! j = cid"
    "\<And>i. i < d \<Longrightarrow> slots ! probe_at slots cid i \<noteq> [] \<and> slots ! probe_at slots cid i \<noteq> cid" "unat slot = probe_at slots cid m" "m \<le> d" "d < m + n"
  shows "cid_set_probe slots cid (of_nat (length slots) - 1) slot n = Inr (slots, True)"
  using assms(6-8)
proof (induction n arbitrary: m slot)
  case (Suc n)
  show ?case
  proof (cases "m = d")
    case True
    then show ?thesis using Suc.prems assms(2-4) by simp
  next
    case False
    then have "m < d" using Suc.prems by simp
    with Suc.IH [OF probe_next [OF assms(1) Suc.prems(1)]] Suc.prems assms(5) [of m] show ?thesis by simp
  qed
qed simp

lemma probe_free:
  assumes "pow2_cap slots" "cid \<notin> set slots" "slots ! probe_at slots cid d = []"
    "\<And>i. i < d \<Longrightarrow> slots ! probe_at slots cid i \<noteq> []" "unat slot = probe_at slots cid m" "m \<le> d" "d < m + n"
  shows "cid_set_probe slots cid (of_nat (length slots) - 1) slot n = Inr (slots[probe_at slots cid d := cid], False)"
  using assms(5-7)
proof (induction n arbitrary: m slot)
  case (Suc n)
  show ?case
  proof (cases "m = d")
    case False
    then have "m < d" using Suc.prems by simp
    moreover have "slots ! probe_at slots cid m \<noteq> cid"
      using assms(1,2) pow2_cap_pos probe_at_less nth_mem by metis
    ultimately show ?thesis
      using Suc.IH [OF probe_next [OF assms(1) Suc.prems(1)]] Suc.prems assms(4) [of m] by simp
  qed (use Suc.prems assms(3) in simp)
qed simp

lemma insert_present:
  assumes "set_inv slots" "cid \<in> elems slots"
  shows "repo_cid_set_insert slots cid = Inr (slots, True)"
proof -
  have cap: "pow2_cap slots" and ne: "cid \<noteq> []" using assms by (auto simp: set_inv_def elems_def)
  from assms(2) obtain j where j: "j < length slots" "slots ! j = cid" by (auto simp: elems_def in_set_conv_nth)
  with assms(1) ne obtain d where d: "d < length slots" "probe_at slots cid d = j" "\<forall>i < d. slots ! probe_at slots cid i \<noteq> []"
    unfolding set_inv_def by blast
  define e where "e = (LEAST i. slots ! probe_at slots cid i = cid)"
  have e: "slots ! probe_at slots cid e = cid" "e \<le> d"
    unfolding e_def using d(2) j(2) by (auto intro: LeastI [of _ d] Least_le)
  have "slots ! probe_at slots cid i \<noteq> [] \<and> slots ! probe_at slots cid i \<noteq> cid" if "i < e" for i
    using that d(3) e(2) not_less_Least [of i "\<lambda>i. slots ! probe_at slots cid i = cid"] unfolding e_def by auto
  from probe_found [OF cap ne refl e(1) this probe_first [OF cap], of "length slots"] e(2) d(1) ne show ?thesis
    by (auto simp: repo_cid_set_insert_def)
qed

lemma insert_absent:
  assumes "set_inv slots" "cid \<noteq> []" "cid \<notin> set slots" "[] \<in> set slots"
  obtains j where "j < length slots" "slots ! j = []" "repo_cid_set_insert slots cid = Inr (slots[j := cid], False)" "set_inv (slots[j := cid])"
proof -
  have cap: "pow2_cap slots" using assms by (auto simp: set_inv_def)
  let ?p = "probe_at slots cid"
  obtain j where "j < length slots" "slots ! j = []" using assms(4) by (auto simp: in_set_conv_nth)
  then obtain d0 where d0: "d0 < length slots" "slots ! ?p d0 = []" using probe_at_onto [of j slots cid] by metis
  define d where "d = (LEAST i. slots ! ?p i = [])"
  have d: "slots ! ?p d = []" "d < length slots"
    unfolding d_def using d0 Least_le [of "\<lambda>i. slots ! ?p i = []" d0] by (auto intro: LeastI [of _ d0])
  have least: "slots ! ?p i \<noteq> []" if "i < d" for i using that not_less_Least unfolding d_def by blast
  have run: "repo_cid_set_insert slots cid = Inr (slots[?p d := cid], False)"
    using probe_free [OF cap assms(3) d(1) least probe_first [OF cap], of "length slots"] d(2) assms(2)
    by (auto simp: repo_cid_set_insert_def)
  have less: "?p d < length slots" using cap pow2_cap_pos probe_at_less by blast
  let ?new = "slots[?p d := cid]"
  have at: "probe_at ?new c i = probe_at slots c i" for c i by (simp add: probe_at_def)
  have keep: "?new ! i \<noteq> []" if "slots ! i \<noteq> []" "i < length slots" for i
    using that assms(2) less by (cases "i = ?p d") auto
  have "set_inv ?new"
    unfolding set_inv_def at length_list_update
  proof (intro conjI allI impI)
    show "pow2_cap ?new" using cap by (simp add: pow2_cap_def)
    fix j assume j: "j < length slots" "?new ! j \<noteq> []"
    have probes: "probe_at slots c i < length slots" for c i using cap pow2_cap_pos probe_at_less by blast
    show "\<exists>d < length slots. probe_at slots (?new ! j) d = j \<and> (\<forall>i < d. ?new ! probe_at slots (?new ! j) i \<noteq> [])"
    proof (cases "j = ?p d")
      case True
      then show ?thesis using d(2) least keep probes less by (intro exI [of _ d]) auto
    next
      case False
      with j assms(1) obtain e where "e < length slots" "probe_at slots (slots ! j) e = j" "\<forall>i < e. slots ! probe_at slots (slots ! j) i \<noteq> []"
        unfolding set_inv_def by auto
      then show ?thesis using False keep probes by (intro exI [of _ e]) auto
    qed
  next
    fix i j assume ij: "i < length slots" "j < length slots" "?new ! i = ?new ! j \<and> ?new ! i \<noteq> []"
    have "slots ! i \<noteq> cid" "slots ! j \<noteq> cid" using assms(3) ij by (metis nth_mem)+
    then show "i = j"
      using ij assms(1) less unfolding set_inv_def by (cases "i = ?p d"; cases "j = ?p d") auto
  qed
  with less d(1) run show thesis using that by blast
qed

section \<open>Capacity\<close>

lemma grow_pow2:
  assumes "cap = 2 ^ k" "k < 64" "count * 2 \<le> 2 ^ 63"
  shows "\<exists>j < 64. cid_set_grow cap count = Some (2 ^ j) \<and> count * 2 \<le> 2 ^ j"
  using assms
proof (induction cap count arbitrary: k rule: cid_set_grow.induct)
  case (1 cap count)
  show ?case
  proof (cases "0 < cap \<and> cap < count * 2")
    case True
    then have lt: "2 ^ k < (2 :: nat) ^ 63" using "1.prems" by linarith
    then have "k < 63" by (rule power_less_imp_less_exp [rotated]) simp
    then have "Suc k < 64" by simp
    moreover have cap: "\<not> SIZE_MAX div 2 < cap" using lt "1.prems"(1) by simp
    moreover have "cid_set_grow cap count = cid_set_grow (cap * 2) count"
      using True cap by (simp only: cid_set_grow.simps [of cap count] simp_thms if_True if_False)
    ultimately show ?thesis using "1.IH" [OF True cap, of "Suc k"] "1.prems" by simp
  next
    case False
    then have "cid_set_grow cap count = Some cap" by (simp only: cid_set_grow.simps [of cap count] if_False)
    then show ?thesis using "1.prems" False by (intro exI [of _ k]) simp
  qed
qed

lemma set_init:
  assumes "0 < count" "count \<le> SIZE_MAX div 2 div SIZEOF_WF_CID"
  obtains cap where "repo_cid_set_init count = Inr (replicate cap [])" "set_inv (replicate cap [])" "2 * count \<le> cap"
proof -
  have "count * 2 \<le> 2 ^ 63" using assms(2) by simp
  with grow_pow2 [of 8 3 count] obtain j where j: "j < 64" "cid_set_grow 8 count = Some (2 ^ j)" "count * 2 \<le> 2 ^ j" by auto
  then have "set_inv (replicate (2 ^ j) [])" by (intro set_inv_empty) (auto simp: pow2_cap_def)
  then show thesis using that [of "2 ^ j"] j assms by (simp add: repo_cid_set_init_def)
qed

lemma set_inv_distinct: "set_inv slots \<Longrightarrow> [] \<notin> set slots \<Longrightarrow> card (elems slots) = length slots"
proof -
  assume a: "set_inv slots" "[] \<notin> set slots"
  then have "distinct slots" by (auto simp: set_inv_def distinct_conv_nth) (metis nth_mem)
  then show ?thesis using a(2) by (simp add: elems_def distinct_card)
qed

lemma insert_cases:
  assumes "set_inv slots" "cid \<noteq> []" "card (elems slots) < length slots"
  obtains slots' where "repo_cid_set_insert slots cid = Inr (slots', cid \<in> elems slots)" "set_inv slots'"
    "elems slots' = insert cid (elems slots)" "length slots' = length slots"
proof (cases "cid \<in> elems slots")
  case True
  then show thesis using that insert_present [OF assms(1)] assms(1) by (auto simp: insert_absorb)
next
  case False
  then have "cid \<notin> set slots" using assms(2) by (simp add: elems_def)
  moreover have "[] \<in> set slots" using set_inv_distinct [OF assms(1)] assms(3) by auto
  ultimately obtain j where j: "j < length slots" "slots ! j = []"
    "repo_cid_set_insert slots cid = Inr (slots[j := cid], False)" "set_inv (slots[j := cid])"
    using insert_absent [OF assms(1,2)] by metis
  have "elems (slots[j := cid]) = insert cid (elems slots)"
  proof -
    have "elems slots \<subseteq> set (slots[j := cid])"
    proof
      fix c assume "c \<in> elems slots"
      then obtain i where i: "i < length slots" "slots ! i = c" "c \<noteq> []" by (auto simp: elems_def in_set_conv_nth)
      then have "i \<noteq> j" using j(2) by auto
      with i show "c \<in> set (slots[j := cid])" by (metis length_list_update nth_list_update_neq nth_mem)
    qed
    moreover have "cid \<in> set (slots[j := cid])" using j(1) by (rule set_update_memI)
    moreover have "set (slots[j := cid]) \<subseteq> insert cid (set slots)" by (rule set_update_subset_insert)
    ultimately show ?thesis using assms(2) by (auto simp: elems_def)
  qed
  then show thesis using that [of "slots[j := cid]"] j False by simp
qed

lemma card_elems_insert: "card (insert c (elems slots)) \<le> Suc (card (elems slots))"
  by (rule card_insert_le_m1 [of "Suc (card (elems slots))", simplified]) simp

section \<open>Property\<close>

text \<open>A run of insertions and the duplicates that they report.\<close>

fun cid_set_run :: "repo_cid_set \<Rightarrow> wf_cid list \<Rightarrow> bool list res" where
  "cid_set_run slots [] = Inr []"
| "cid_set_run slots (c # cs) =
     (case repo_cid_set_insert slots c of
        Inl s \<Rightarrow> Inl s
      | Inr (slots, dup) \<Rightarrow> (case cid_set_run slots cs of Inl s \<Rightarrow> Inl s | Inr dups \<Rightarrow> Inr (dup # dups)))"

lemma run_elems:
  assumes "set_inv slots" "[] \<notin> set cs" "card (elems slots) + length cs \<le> length slots"
  shows "cid_set_run slots cs = Inr (map (\<lambda>i. cs ! i \<in> elems slots \<or> cs ! i \<in> set (take i cs)) [0..<length cs])"
  using assms
proof (induction cs arbitrary: slots)
  case (Cons c cs)
  from insert_cases [OF Cons.prems(1), of c] Cons.prems(2,3) obtain slots' where
    s: "repo_cid_set_insert slots c = Inr (slots', c \<in> elems slots)" "set_inv slots'" "elems slots' = insert c (elems slots)"
    "length slots' = length slots" by auto
  have "cid_set_run slots' cs = Inr (map (\<lambda>i. cs ! i \<in> elems slots' \<or> cs ! i \<in> set (take i cs)) [0..<length cs])"
    using Cons.IH [OF s(2)] Cons.prems(2,3) card_elems_insert [of c slots] s(3,4) by simp
  moreover have "[0..<length (c # cs)] = 0 # map Suc [0..<length cs]" by (simp add: upt_conv_Cons map_Suc_upt del: upt_Suc)
  ultimately show ?case using s(1,3) by (auto simp: comp_def)
qed simp

text \<open>C35: the CID set never fails and answers membership: from an initialised set, inserting up to the announced
  number of CIDs one after another always finds a slot within its capacity, and each insertion reports a
  duplicate exactly when the CID occurred before.\<close>

theorem cid_set_complete:
  assumes "repo_cid_set_init count = Inr slots" "length cs \<le> count" "[] \<notin> set cs"
  shows "cid_set_run slots cs = Inr (map (\<lambda>i. cs ! i \<in> set (take i cs)) [0..<length cs])"
proof (cases "count = 0")
  case False
  moreover from this have "count \<le> SIZE_MAX div 2 div SIZEOF_WF_CID" using assms(1) by (auto simp: repo_cid_set_init_def split: if_splits)
  ultimately obtain cap where cap: "slots = replicate cap []" "set_inv slots" "2 * count \<le> cap"
    using set_init [of count] assms(1) by auto
  have "elems slots = {}" by (auto simp: cap(1) elems_def)
  then show ?thesis using run_elems [OF cap(2) assms(3)] assms(2) cap(1,3) by simp
qed (use assms(2) in simp)

theorem cid_set_complete_witness:
  "\<exists>slots. repo_cid_set_init 3 = Inr slots \<and> cid_set_run slots [[1], [2], [1]] = Inr [False, False, True]"
proof -
  have "repo_cid_set_init 3 = Inr (replicate 8 [])" by (simp add: repo_cid_set_init_def cid_set_grow.simps)
  with cid_set_complete [OF this, of "[[1], [2], [1]]"] show ?thesis by simp
qed

end
