(* ===== verification/Diff.thy ===== *)
theory Diff
  imports Cid_Set Commit Mst_Tree
begin

text \<open>
  Verification of repositories and of their updates: the model of \<^verbatim>\<open>src/repo/diff.c\<close>. A CAR is accepted when
  every block has the CID of its bytes, no CID occurs twice, its root is a signed commit of the expected
  repository and every link of the tree resolves. The difference of two accepted repositories is the
  list of record operations, the blocks to add and the CIDs to drop; applying it to a repository replaces
  the CAR only after the result has been checked.
\<close>

section \<open>Blocks\<close>

text \<open>A test on the root of a CAR that has exactly one.\<close>

definition single_root :: "wf_car \<Rightarrow> (wf_cid \<Rightarrow> bool) \<Rightarrow> bool" where
  "single_root car p = (case car_roots car of [root] \<Rightarrow> p root | _ \<Rightarrow> False)"

fun validate_loop :: "platform \<Rightarrow> wf_car_block list \<Rightarrow> repo_cid_set \<Rightarrow> unit res" where
  "validate_loop P [] slots = Inr ()"
| "validate_loop P (b # bs) slots =
     (if blk_data b = [] \<or>
         (case wf_cid_of_block P (blk_data b) of Inl _ \<Rightarrow> True | Inr computed \<Rightarrow> \<not> cid_equal computed (blk_cid b))
      then Inl WF_ERR_PARSE
      else case repo_cid_set_insert slots (blk_cid b) of
             Inl s \<Rightarrow> Inl s
           | Inr (slots, dup) \<Rightarrow> if dup then Inl WF_ERR_PARSE else validate_loop P bs slots)"

definition repo_car_validate_blocks :: "platform \<Rightarrow> wf_car \<Rightarrow> unit res" where
  "repo_car_validate_blocks P car =
     (case repo_cid_set_init (length (car_blocks car)) of
        Inl s \<Rightarrow> Inl s
      | Inr slots \<Rightarrow> validate_loop P (car_blocks car) slots)"

definition repo_car_add_copy :: "wf_car \<Rightarrow> wf_car_block \<Rightarrow> wf_car res" where
  "repo_car_add_copy car block =
     (case wf_car_find_block car (blk_cid block) of
        Some existing \<Rightarrow> if blk_data existing = blk_data block then Inr car else Inl WF_ERR_PARSE
      | None \<Rightarrow> Inr (car\<lparr>car_blocks := car_blocks car @ [block]\<rparr>))"

definition repo_car_add_cid_copy :: "wf_car \<Rightarrow> wf_car \<Rightarrow> wf_cid \<Rightarrow> wf_car res" where
  "repo_car_add_cid_copy destination source cid =
     (case wf_car_find_block source cid of
        None \<Rightarrow> Inl WF_ERR_NOT_FOUND
      | Some block \<Rightarrow> repo_car_add_copy destination block)"

text \<open>One pass of \<^verbatim>\<open>repo_composite_car\<close> over the blocks of a source.\<close>

fun composite_loop :: "wf_car_block list \<Rightarrow> wf_car \<Rightarrow> wf_car res" where
  "composite_loop [] out = Inr out"
| "composite_loop (b # bs) out =
     (case wf_car_find_block out (blk_cid b) of
        Some present \<Rightarrow> if blk_data present \<noteq> blk_data b then Inl WF_ERR_PARSE else composite_loop bs out
      | None \<Rightarrow> composite_loop bs (out\<lparr>car_blocks := car_blocks out @ [b]\<rparr>))"

definition repo_composite_car :: "wf_car \<Rightarrow> wf_car \<Rightarrow> wf_car res" where
  "repo_composite_car base update =
     (case composite_loop (car_blocks update) \<lparr>car_roots = car_roots update, car_blocks = []\<rparr> of
        Inl s \<Rightarrow> Inl s
      | Inr out \<Rightarrow> composite_loop (car_blocks base) out)"

section \<open>Collecting a tree\<close>

definition repo_key_cmp :: "bytes \<Rightarrow> bytes \<Rightarrow> int" where
  "repo_key_cmp a b = key_cmp a b"

type_synonym repo_leaf = "bytes \<times> wf_cid"

definition repo_cid_list_has :: "wf_cid list \<Rightarrow> wf_cid \<Rightarrow> bool" where
  "repo_cid_list_has list cid = list_ex (\<lambda>c. cid_equal c cid) list"

definition repo_cid_list_add :: "wf_cid list \<Rightarrow> wf_cid \<Rightarrow> wf_cid list" where
  "repo_cid_list_add list cid = (if repo_cid_list_has list cid then list else list @ [cid])"

definition repo_leaf_add :: "repo_leaf list \<Rightarrow> bytes \<Rightarrow> wf_cid \<Rightarrow> repo_leaf list res" where
  "repo_leaf_add list key cid =
     (if key = [] \<or> length cid \<noteq> 36 then Inl WF_ERR_PARSE
      else if list \<noteq> [] \<and> 0 \<le> repo_key_cmp (fst (last list)) key then Inl WF_ERR_PARSE
      else Inr (list @ [(key, cid)]))"

type_synonym collected = "repo_leaf list \<times> wf_cid list"

function (sequential)
  repo_collect_mst :: "platform \<Rightarrow> wf_car \<Rightarrow> wf_cid \<Rightarrow> collected \<Rightarrow> nat \<Rightarrow> collected res"
  and collect_entries :: "platform \<Rightarrow> wf_car \<Rightarrow> wf_mst_entry list \<Rightarrow> collected \<Rightarrow> nat \<Rightarrow> collected res" where
  "repo_collect_mst P car root st depth =
     (if length root \<noteq> 36 \<or> depth_exceeded car depth then Inl WF_ERR_PARSE
      else if repo_cid_list_has (snd st) root then Inl WF_ERR_PARSE
      else case wf_car_find_block car root of
             None \<Rightarrow> Inl WF_ERR_NOT_FOUND
           | Some block \<Rightarrow>
               (case wf_mst_node_parse P (blk_data block) root of
                  Inl s \<Rightarrow> Inl s
                | Inr node \<Rightarrow>
                    (case (if node_left node = [] then Inr (fst st, repo_cid_list_add (snd st) root)
                           else repo_collect_mst P car (node_left node) (fst st, repo_cid_list_add (snd st) root) (depth + 1)) of
                       Inl s \<Rightarrow> Inl s
                     | Inr st \<Rightarrow> collect_entries P car (node_entries node) st (depth + 1))))"
| "collect_entries P car [] st depth = Inr st"
| "collect_entries P car (e # es) st depth =
     (case wf_car_find_block car (ent_value e) of
        None \<Rightarrow> Inl WF_ERR_NOT_FOUND
      | Some _ \<Rightarrow>
          (case repo_leaf_add (fst st) (ent_key e) (ent_value e) of
             Inl s \<Rightarrow> Inl s
           | Inr ls \<Rightarrow>
               (case (if ent_subtree e = [] then Inr (ls, snd st)
                      else repo_collect_mst P car (ent_subtree e) (ls, snd st) depth) of
                  Inl s \<Rightarrow> Inl s
                | Inr st \<Rightarrow> collect_entries P car es st depth)))"
  by pat_completeness auto
termination
  by (relation "measures
        [\<lambda>x. case x of Inl (_, _, _, _, d) \<Rightarrow> 2 * (1026 - d) | Inr (_, _, _, _, d) \<Rightarrow> 2 * (1026 - d) + 1,
         \<lambda>x. case x of Inl _ \<Rightarrow> 0 | Inr (_, _, es, _, _) \<Rightarrow> length es]")
    (auto simp: depth_exceeded_def)

declare repo_collect_mst.simps [simp del]

section \<open>Operations\<close>

datatype wf_repo_operation_action = WF_REPO_CREATE | WF_REPO_UPDATE | WF_REPO_DELETE

record wf_repo_operation =
  ro_action :: wf_repo_operation_action
  ro_collection :: bytes
  ro_rkey :: bytes
  ro_cid :: wf_cid
  ro_prev :: wf_cid

text \<open>The inversion of one operation, in the loop of \<^verbatim>\<open>wf_repo_operations_invert\<close>.\<close>

definition invert_one :: "wf_repo_operation \<Rightarrow> wf_repo_operation res" where
  "invert_one source =
     (if ro_collection source = [] \<or> ro_rkey source = [] \<or> length (ro_cid source) \<noteq> 36 \<or>
         (ro_action source = WF_REPO_UPDATE \<and> length (ro_prev source) \<noteq> 36)
      then Inl WF_ERR_INVALID_ARG
      else Inr (let target = \<lparr>ro_action = WF_REPO_DELETE, ro_collection = ro_collection source, ro_rkey = ro_rkey source,
                               ro_cid = ro_cid source, ro_prev = []\<rparr>
                in case ro_action source of
                     WF_REPO_CREATE \<Rightarrow> target
                   | WF_REPO_DELETE \<Rightarrow> target\<lparr>ro_action := WF_REPO_CREATE\<rparr>
                   | WF_REPO_UPDATE \<Rightarrow> target\<lparr>ro_action := WF_REPO_UPDATE, ro_cid := ro_prev source, ro_prev := ro_cid source\<rparr>))"

text \<open>Sequencing of an operation in front of those that follow.\<close>

definition push_op :: "'a res \<Rightarrow> 'a list res \<Rightarrow> 'a list res" where
  "push_op r rest =
     (case r of Inl s \<Rightarrow> Inl s | Inr x \<Rightarrow> (case rest of Inl s \<Rightarrow> Inl s | Inr xs \<Rightarrow> Inr (x # xs)))"

fun invert_loop :: "wf_repo_operation list \<Rightarrow> wf_repo_operation list res" where
  "invert_loop [] = Inr []"
| "invert_loop (source # rest) = push_op (invert_one source) (invert_loop rest)"

definition wf_repo_operations_invert :: "wf_repo_operation list \<Rightarrow> wf_repo_operation list res" where
  "wf_repo_operations_invert operations = invert_loop (rev operations)"

definition repo_operation_from_leaf :: "wf_repo_operation_action \<Rightarrow> repo_leaf \<Rightarrow> wf_repo_operation res" where
  "repo_operation_from_leaf action leaf =
     (let key = fst leaf; collection = takeWhile (\<lambda>b. b \<noteq> 0x2f) key; rkey = drop (Suc (length collection)) key
      in if length collection = length key \<or> collection = [] \<or> rkey = [] then Inl WF_ERR_PARSE
         else if 0x2f \<in> set rkey \<or> 0 \<in> set key then Inl WF_ERR_PARSE
         else Inr \<lparr>ro_action = action, ro_collection = collection, ro_rkey = rkey, ro_cid = snd leaf, ro_prev = []\<rparr>)"

text \<open>The merge of the previous and the current leaves.\<close>

function (sequential) repo_diff_operations :: "repo_leaf list \<Rightarrow> repo_leaf list \<Rightarrow> wf_repo_operation list res" where
  "repo_diff_operations [] [] = Inr []"
| "repo_diff_operations [] (c # cs) = push_op (repo_operation_from_leaf WF_REPO_CREATE c) (repo_diff_operations [] cs)"
| "repo_diff_operations (p # ps) [] = push_op (repo_operation_from_leaf WF_REPO_DELETE p) (repo_diff_operations ps [])"
| "repo_diff_operations (p # ps) (c # cs) =
     (let comparison = repo_key_cmp (fst p) (fst c)
      in if comparison < 0 then push_op (repo_operation_from_leaf WF_REPO_DELETE p) (repo_diff_operations ps (c # cs))
         else if 0 < comparison then push_op (repo_operation_from_leaf WF_REPO_CREATE c) (repo_diff_operations (p # ps) cs)
         else if cid_equal (snd p) (snd c) then repo_diff_operations ps cs
         else push_op (case repo_operation_from_leaf WF_REPO_UPDATE c of
                         Inl s \<Rightarrow> Inl s | Inr operation \<Rightarrow> Inr (operation\<lparr>ro_prev := snd p\<rparr>))
                (repo_diff_operations ps cs))"
  by pat_completeness auto
termination by (relation "measure (\<lambda>(ps, cs). length ps + length cs)") auto

section \<open>Verification\<close>

function (sequential)
  verify_mst_links :: "platform \<Rightarrow> wf_car \<Rightarrow> wf_cid \<Rightarrow> nat \<Rightarrow> unit res"
  and verify_entries :: "platform \<Rightarrow> wf_car \<Rightarrow> wf_mst_entry list \<Rightarrow> nat \<Rightarrow> unit res" where
  "verify_mst_links P car cid depth =
     (if depth_exceeded car depth then Inl WF_ERR_PARSE
      else case wf_car_find_block car cid of
             None \<Rightarrow> Inl WF_ERR_NOT_FOUND
           | Some block \<Rightarrow>
               (case wf_mst_node_parse P (blk_data block) cid of
                  Inl s \<Rightarrow> Inl s
                | Inr node \<Rightarrow>
                    (case (if node_left node = [] then Inr () else verify_mst_links P car (node_left node) (depth + 1)) of
                       Inl s \<Rightarrow> Inl s
                     | Inr _ \<Rightarrow> verify_entries P car (node_entries node) (depth + 1))))"
| "verify_entries P car [] depth = Inr ()"
| "verify_entries P car (e # es) depth =
     (case wf_car_find_block car (ent_value e) of
        None \<Rightarrow> Inl WF_ERR_NOT_FOUND
      | Some _ \<Rightarrow>
          (case (if ent_subtree e = [] then Inr () else verify_mst_links P car (ent_subtree e) depth) of
             Inl s \<Rightarrow> Inl s
           | Inr _ \<Rightarrow> verify_entries P car es depth))"
  by pat_completeness auto
termination
  by (relation "measures
        [\<lambda>x. case x of Inl (_, _, _, d) \<Rightarrow> 2 * (1026 - d) | Inr (_, _, _, d) \<Rightarrow> 2 * (1026 - d) + 1,
         \<lambda>x. case x of Inl _ \<Rightarrow> 0 | Inr (_, _, es, _) \<Rightarrow> length es]")
    (auto simp: depth_exceeded_def)

declare verify_mst_links.simps [simp del]

text \<open>The strings of the options are C strings; without \<^verbatim>\<open>expected_prev\<close> the field is \<open>None\<close>.\<close>

record wf_repo_verify_options =
  vo_expected_did :: bytes
  vo_signing_key :: bytes
  vo_expected_prev :: "wf_cid option"

text \<open>
  The checks of \<^verbatim>\<open>wf_repo_verify\<close> on the root block, up to the signature. The loop over the blocks that precedes
  them is the one of \<^verbatim>\<open>repo_car_validate_blocks\<close>, statement for statement.
\<close>

definition verify_commit_block :: "platform \<Rightarrow> wf_repo_verify_options \<Rightarrow> wf_car_block \<Rightarrow> wf_commit res" where
  "verify_commit_block P options root =
     (case wf_commit_parse P (blk_data root) of
        Inl _ \<Rightarrow> Inl WF_ERR_PARSE
      | Inr commit \<Rightarrow>
          if cm_version commit \<noteq> 3 \<or> length (cm_sig commit) \<noteq> 64 then Inl WF_ERR_PARSE
          else case wf_cbor_parse P (blk_data root) of
                 Some (WF_CBOR_MAP pairs) \<Rightarrow>
                   if length pairs \<noteq> 6 \<or> wf_cbor_map_find (WF_CBOR_MAP pairs) (ascii ''prev'') = None then Inl WF_ERR_PARSE
                   else if c_str (cm_did commit) \<noteq> c_str (vo_expected_did options) then Inl WF_ERR_PARSE
                   else if (case vo_expected_prev options of None \<Rightarrow> False
                              | Some expected \<Rightarrow> cm_has_prev commit \<and> \<not> cid_equal (cm_prev commit) expected) then Inl WF_ERR_PARSE
                   else Inr commit
               | _ \<Rightarrow> Inl WF_ERR_PARSE)"

definition wf_repo_verify :: "platform \<Rightarrow> ec_lib \<Rightarrow> wf_car \<Rightarrow> wf_repo_verify_options \<Rightarrow> wf_commit res" where
  "wf_repo_verify P E car options =
     (if c_str (vo_expected_did options) = [] \<or> vo_signing_key options = [] then Inl WF_ERR_INVALID_ARG
      else case car_roots car of
             [root_cid] \<Rightarrow>
               if length root_cid \<noteq> 36 then Inl WF_ERR_PARSE
               else (case repo_car_validate_blocks P car of
                       Inl s \<Rightarrow> Inl s
                     | Inr _ \<Rightarrow>
                         (case wf_car_find_block car root_cid of
                            None \<Rightarrow> Inl WF_ERR_NOT_FOUND
                          | Some root \<Rightarrow>
                              (case verify_commit_block P options root of
                                 Inl s \<Rightarrow> Inl s
                               | Inr commit \<Rightarrow>
                                   (case commit_unsigned_bytes commit of
                                      Inl s \<Rightarrow> Inl s
                                    | Inr unsigned_commit \<Rightarrow>
                                        (case wf_verify P E (vo_signing_key options) unsigned_commit (cm_sig commit) of
                                           Inl s \<Rightarrow> Inl s
                                         | Inr _ \<Rightarrow>
                                             (case verify_mst_links P car (cm_data commit) 0 of
                                                Inl s \<Rightarrow> Inl s
                                              | Inr _ \<Rightarrow> Inr (commit\<lparr>cm_cid := root_cid\<rparr>)))))))
           | _ \<Rightarrow> Inl WF_ERR_PARSE)"

definition wf_repo_import :: "platform \<Rightarrow> ec_lib \<Rightarrow> bytes \<Rightarrow> wf_repo_verify_options \<Rightarrow> (wf_car \<times> wf_commit) res" where
  "wf_repo_import P E bs options =
     (if bs = [] then Inl WF_ERR_INVALID_ARG
      else case wf_car_parse P bs of
             Inl s \<Rightarrow> Inl s
           | Inr car \<Rightarrow> (case wf_repo_verify P E car options of Inl s \<Rightarrow> Inl s | Inr commit \<Rightarrow> Inr (car, commit)))"

section \<open>Differences\<close>

record wf_repo_diff =
  df_operations :: "wf_repo_operation list"
  df_commit :: wf_commit
  df_previous_commit :: wf_cid
  df_since :: bytes
  df_new_blocks :: wf_car
  df_removed_cids :: "wf_cid list"

definition repo_leaves_have_cid :: "repo_leaf list \<Rightarrow> wf_cid \<Rightarrow> bool" where
  "repo_leaves_have_cid ls cid = list_ex (\<lambda>leaf. cid_equal (snd leaf) cid) ls"

definition repo_diff_add_removed :: "wf_cid list \<Rightarrow> wf_cid \<Rightarrow> wf_cid list" where
  "repo_diff_add_removed removed cid = (if repo_cid_list_has removed cid then removed else removed @ [cid])"

text \<open>The loops of \<^verbatim>\<open>wf_repo_diff_verify\<close>: new nodes, new records, nodes and records to drop.\<close>

fun diff_add_nodes :: "wf_car \<Rightarrow> wf_cid list \<Rightarrow> wf_cid list \<Rightarrow> wf_car \<Rightarrow> wf_car res" where
  "diff_add_nodes composite previous_nodes [] new_blocks = Inr new_blocks"
| "diff_add_nodes composite previous_nodes (n # ns) new_blocks =
     (if repo_cid_list_has previous_nodes n then diff_add_nodes composite previous_nodes ns new_blocks
      else case repo_car_add_cid_copy new_blocks composite n of
             Inl s \<Rightarrow> Inl s
           | Inr new_blocks \<Rightarrow> diff_add_nodes composite previous_nodes ns new_blocks)"

fun diff_add_leaves :: "wf_car \<Rightarrow> wf_repo_operation list \<Rightarrow> wf_car \<Rightarrow> wf_car res" where
  "diff_add_leaves update [] new_blocks = Inr new_blocks"
| "diff_add_leaves update (operation # ops) new_blocks =
     (if ro_action operation = WF_REPO_DELETE then diff_add_leaves update ops new_blocks
      else case wf_car_find_block update (ro_cid operation) of
             None \<Rightarrow> Inl WF_ERR_NOT_FOUND
           | Some leaf \<Rightarrow>
               (case repo_car_add_copy new_blocks leaf of
                  Inl s \<Rightarrow> Inl s
                | Inr new_blocks \<Rightarrow> diff_add_leaves update ops new_blocks))"

fun diff_remove_nodes :: "wf_cid list \<Rightarrow> wf_cid list \<Rightarrow> wf_cid list \<Rightarrow> wf_cid list" where
  "diff_remove_nodes current_nodes [] removed = removed"
| "diff_remove_nodes current_nodes (n # ns) removed =
     diff_remove_nodes current_nodes ns
       (if repo_cid_list_has current_nodes n then removed else repo_diff_add_removed removed n)"

fun diff_remove_leaves :: "repo_leaf list \<Rightarrow> wf_repo_operation list \<Rightarrow> wf_cid list \<Rightarrow> wf_cid list" where
  "diff_remove_leaves current_leaves [] removed = removed"
| "diff_remove_leaves current_leaves (operation # ops) removed =
     diff_remove_leaves current_leaves ops
       (let old_cid = (if ro_action operation = WF_REPO_UPDATE then ro_prev operation else ro_cid operation)
        in if ro_action operation \<noteq> WF_REPO_CREATE \<and> \<not> repo_leaves_have_cid current_leaves old_cid
           then repo_diff_add_removed removed old_cid else removed)"

text \<open>The second half of \<^verbatim>\<open>wf_repo_diff_verify\<close>: from the two collected trees to the difference.\<close>

definition diff_assemble ::
  "wf_car \<Rightarrow> wf_car \<Rightarrow> wf_cid \<Rightarrow> wf_commit \<Rightarrow> wf_commit \<Rightarrow> collected \<Rightarrow> collected \<Rightarrow> wf_repo_diff res" where
  "diff_assemble composite update base_commit previous_commit current_commit previous current =
     (case repo_diff_operations (fst previous) (fst current) of
        Inl s \<Rightarrow> Inl s
      | Inr ops \<Rightarrow>
          (case diff_add_nodes composite (snd previous) (snd current) \<lparr>car_roots = [cm_cid current_commit], car_blocks = []\<rparr> of
             Inl s \<Rightarrow> Inl s
           | Inr new_blocks \<Rightarrow>
               (case diff_add_leaves update ops new_blocks of
                  Inl s \<Rightarrow> Inl s
                | Inr new_blocks \<Rightarrow>
                    (case (if cid_equal (cm_cid current_commit) base_commit then Inr new_blocks
                           else repo_car_add_cid_copy new_blocks composite (cm_cid current_commit)) of
                       Inl s \<Rightarrow> Inl s
                     | Inr new_blocks \<Rightarrow>
                         (let removed = diff_remove_leaves (fst current) ops (diff_remove_nodes (snd current) (snd previous) [])
                          in Inr \<lparr>df_operations = ops, df_commit = current_commit, df_previous_commit = base_commit,
                                   df_since = cm_rev previous_commit, df_new_blocks = new_blocks,
                                   df_removed_cids = (if cid_equal base_commit (cm_cid current_commit) then removed
                                                      else repo_diff_add_removed removed base_commit)\<rparr>)))))"

definition wf_repo_diff_verify ::
  "platform \<Rightarrow> ec_lib \<Rightarrow> wf_car \<Rightarrow> wf_cid \<Rightarrow> wf_car \<Rightarrow> wf_repo_verify_options \<Rightarrow> wf_repo_diff res" where
  "wf_repo_diff_verify P E base base_commit update options =
     (if length base_commit \<noteq> 36 then Inl WF_ERR_INVALID_ARG
      else if \<not> single_root base (\<lambda>r. cid_equal r base_commit) \<or> \<not> single_root update (\<lambda>r. length r = 36)
      then Inl WF_ERR_PARSE
      else case wf_repo_verify P E base (options\<lparr>vo_expected_prev := None\<rparr>) of
             Inl s \<Rightarrow> Inl s
           | Inr previous_commit \<Rightarrow>
               (case repo_car_validate_blocks P update of
                  Inl s \<Rightarrow> Inl s
                | Inr _ \<Rightarrow>
                    (case repo_composite_car base update of
                       Inl s \<Rightarrow> Inl s
                     | Inr composite \<Rightarrow>
                         (case wf_repo_verify P E composite options of
                            Inl s \<Rightarrow> Inl s
                          | Inr current_commit \<Rightarrow>
                              (case repo_collect_mst P composite (cm_data previous_commit) ([], []) 0 of
                                 Inl s \<Rightarrow> Inl s
                               | Inr previous \<Rightarrow>
                                   (case repo_collect_mst P composite (cm_data current_commit) ([], []) 0 of
                                      Inl s \<Rightarrow> Inl s
                                    | Inr current \<Rightarrow>
                                        diff_assemble composite update base_commit previous_commit current_commit previous current))))))"

section \<open>Applying a difference\<close>

definition repo_removed_has :: "wf_repo_diff \<Rightarrow> wf_cid \<Rightarrow> bool" where
  "repo_removed_has diff cid = list_ex (\<lambda>c. cid_equal c cid) (df_removed_cids diff)"

fun apply_copy_loop :: "(wf_cid \<Rightarrow> bool) \<Rightarrow> wf_car_block list \<Rightarrow> wf_car \<Rightarrow> wf_car res" where
  "apply_copy_loop skip [] staged = Inr staged"
| "apply_copy_loop skip (b # bs) staged =
     (if skip (blk_cid b) then apply_copy_loop skip bs staged
      else case repo_car_add_copy staged b of Inl s \<Rightarrow> Inl s | Inr staged \<Rightarrow> apply_copy_loop skip bs staged)"

text \<open>Whether the commit that was staged is the one the difference announces.\<close>

definition commit_agrees :: "wf_commit \<Rightarrow> wf_commit \<Rightarrow> bool" where
  "commit_agrees parsed commit \<longleftrightarrow>
     c_str (cm_did parsed) = c_str (cm_did commit) \<and> c_str (cm_rev parsed) = c_str (cm_rev commit) \<and>
     cm_version parsed = cm_version commit \<and> cm_has_prev parsed = cm_has_prev commit \<and>
     (cm_has_prev parsed \<longrightarrow> cid_equal (cm_prev parsed) (cm_prev commit)) \<and>
     cm_sig parsed = cm_sig commit \<and> cid_equal (cm_data parsed) (cm_data commit)"

text \<open>The repository is replaced only when everything succeeds; the result is the new CAR.\<close>

definition wf_repo_diff_apply :: "platform \<Rightarrow> wf_car \<Rightarrow> wf_repo_diff \<Rightarrow> wf_car res" where
  "wf_repo_diff_apply P repo diff =
     (if length (df_previous_commit diff) \<noteq> 36 \<or> length (cm_cid (df_commit diff)) \<noteq> 36 \<or>
         \<not> single_root repo (\<lambda>r. cid_equal r (df_previous_commit diff)) \<or>
         \<not> single_root (df_new_blocks diff) (\<lambda>r. cid_equal r (cm_cid (df_commit diff)))
      then Inl WF_ERR_INVALID_ARG
      else case repo_car_validate_blocks P (df_new_blocks diff) of
             Inl s \<Rightarrow> Inl s
           | Inr _ \<Rightarrow>
               (case apply_copy_loop (repo_removed_has diff) (car_blocks repo) \<lparr>car_roots = [cm_cid (df_commit diff)], car_blocks = []\<rparr> of
                  Inl s \<Rightarrow> Inl s
                | Inr staged \<Rightarrow>
                    (case apply_copy_loop (\<lambda>_. False) (car_blocks (df_new_blocks diff)) staged of
                       Inl s \<Rightarrow> Inl s
                     | Inr staged \<Rightarrow>
                         (case wf_car_find_block staged (cm_cid (df_commit diff)) of
                            None \<Rightarrow> Inl WF_ERR_NOT_FOUND
                          | Some commit_block \<Rightarrow>
                              (case wf_commit_parse P (blk_data commit_block) of
                                 Inl _ \<Rightarrow> Inl WF_ERR_PARSE
                               | Inr parsed \<Rightarrow>
                                   if \<not> commit_agrees parsed (df_commit diff) then Inl WF_ERR_PARSE
                                   else (case verify_mst_links P staged (cm_data parsed) 0 of
                                           Inl s \<Rightarrow> Inl s
                                         | Inr _ \<Rightarrow> Inr staged))))))"

end
