(* ===== verification/Repo_Spec.thy ===== *)
theory Repo_Spec
  imports Repo_Update
begin

text \<open>
  The specification of a repository, a list of leaves (record keys with the CIDs of the records) in key
  order, and the refinement: the head of a CAR (the commit that a CID names, or no commit yet) refines a
  list of leaves, and each operation of \<^verbatim>\<open>repo.c\<close> refines an operation on the list.
\<close>

section \<open>The specification\<close>

definition record_cid :: "platform \<Rightarrow> bytes \<Rightarrow> wf_cid" where
  "record_cid P record_cbor = wf_cid_from_hash (SHA256 P record_cbor)"

definition write_key :: "wf_repo_write \<Rightarrow> bytes" where
  "write_key w = repo_mst_key (wr_collection w) (wr_rkey w)"

text \<open>One write: the error, or the new leaves and the CID of the record.\<close>

definition spec_write :: "platform \<Rightarrow> (bytes \<times> wf_cid) list \<Rightarrow> wf_repo_write \<Rightarrow> ((bytes \<times> wf_cid) list \<times> wf_cid) res" where
  "spec_write P ls w =
     (if wr_collection w = [] \<or> wr_rkey w = [] then Inl WF_ERR_INVALID_ARG
      else case wr_action w of
             WF_REPO_WRITE_DELETE \<Rightarrow>
               if write_key w \<in> fst ` set ls then Inr (del_leaf (write_key w) ls, []) else Inl WF_ERR_NOT_FOUND
           | WF_REPO_WRITE_CREATE \<Rightarrow>
               if wr_record w = [] then Inl WF_ERR_INVALID_ARG
               else if write_key w \<in> fst ` set ls then Inl WF_ERR_CONFLICT
               else if \<not> wf_mst_key_is_valid (write_key w) then Inl WF_ERR_INVALID_ARG
               else Inr (ins_leaf (write_key w) (record_cid P (wr_record w)) ls, record_cid P (wr_record w))
           | WF_REPO_WRITE_UPDATE \<Rightarrow>
               if wr_record w = [] then Inl WF_ERR_INVALID_ARG
               else if write_key w \<notin> fst ` set ls then Inl WF_ERR_NOT_FOUND
               else Inr (set_leaf (write_key w) (record_cid P (wr_record w)) ls, record_cid P (wr_record w)))"

text \<open>A batch: the first error, or the leaves after all writes and the CIDs of the records.\<close>

fun spec_writes :: "platform \<Rightarrow> (bytes \<times> wf_cid) list \<Rightarrow> wf_repo_write list \<Rightarrow> ((bytes \<times> wf_cid) list \<times> wf_cid list) res" where
  "spec_writes P ls [] = Inr (ls, [])"
| "spec_writes P ls (w # ws) =
     (case spec_write P ls w of
        Inl e \<Rightarrow> Inl e
      | Inr (ls', c) \<Rightarrow> (case spec_writes P ls' ws of Inl e \<Rightarrow> Inl e | Inr (ls'', cs) \<Rightarrow> Inr (ls'', c # cs)))"

text \<open>The bindings that a batch can create.\<close>

definition write_leaf :: "platform \<Rightarrow> wf_repo_write \<Rightarrow> bytes \<times> wf_cid" where
  "write_leaf P w = (write_key w, record_cid P (wr_record w))"

definition write_ok :: "platform \<Rightarrow> (bytes \<times> wf_cid) set \<Rightarrow> wf_repo_write \<Rightarrow> bool" where
  "write_ok P L w \<longleftrightarrow> length (write_key w) < 2 ^ 31 \<and> (wr_action w \<noteq> WF_REPO_WRITE_DELETE \<longrightarrow> write_leaf P w \<in> L)"

lemma length_del_leaf: "length (del_leaf k ls) \<le> length ls"
  by (simp add: del_leaf_def)

lemma length_ins_leaf: "length (ins_leaf k v ls) \<le> Suc (length ls)"
  using sum_length_filter_compl [of "\<lambda>x. fst x < k" ls] by (auto simp: ins_leaf_def)

lemma length_spec_write: "spec_write P ls w = Inr (ls', c) \<Longrightarrow> length ls' \<le> Suc (length ls)"
  using length_del_leaf [of "write_key w" ls] length_ins_leaf [of "write_key w" "record_cid P (wr_record w)" ls]
  by (auto simp: spec_write_def le_SucI split: if_splits wf_repo_write_action.splits)

section \<open>Staging\<close>

lemma put_block_ext: "car_ext car (repo_put_block car cid data)"
  by (auto simp: repo_put_block_def car_ext_def split: option.split)

lemma put_block_find: "wf_car_find_block (repo_put_block car cid data) cid \<noteq> None"
proof (cases "wf_car_find_block car cid")
  case None
  then have "repo_put_block car cid data = car\<lparr>car_blocks := car_blocks car @ [\<lparr>blk_cid = cid, blk_data = data\<rparr>]\<rparr>"
    by (simp add: repo_put_block_def)
  then show ?thesis by (simp only: wf_car_find_block_eq find_None_iff) auto
qed (simp add: repo_put_block_def)

text \<open>Every record that the leaves name is a block of the CAR.\<close>

definition records_stored :: "wf_car \<Rightarrow> (bytes \<times> wf_cid) list \<Rightarrow> bool" where
  "records_stored car ls \<longleftrightarrow> (\<forall>c \<in> snd ` set ls. wf_car_find_block car c \<noteq> None)"

lemma records_stored_ext: "records_stored car ls \<Longrightarrow> car_ext car car' \<Longrightarrow> records_stored car' ls"
  unfolding records_stored_def using find_block_ext by fastforce

lemma records_stored_insert:
  "records_stored car ls \<Longrightarrow> wf_car_find_block car c \<noteq> None \<Longrightarrow> set ls' \<subseteq> insert (k, c) (set ls) \<Longrightarrow> records_stored car ls'"
  unfolding records_stored_def by fastforce

text \<open>What a root of the tree stands for.\<close>

definition root_holds :: "platform \<Rightarrow> (bytes \<times> wf_cid) set \<Rightarrow> wf_car \<Rightarrow> wf_cid \<Rightarrow> (bytes \<times> wf_cid) list \<Rightarrow> bool" where
  "root_holds P L car root ls \<longleftrightarrow> refines P L car root ls \<and> records_stored car ls"

lemma refines_ext: "refines P L car root ls \<Longrightarrow> car_ext car car' \<Longrightarrow> refines P L car' root ls"
  by (auto simp: refines_def intro: made_ext)

lemma repo_mst_key_nonempty [simp]: "repo_mst_key c r \<noteq> []"
  by (simp add: repo_mst_key_def ascii_def)

lemma cid_of_block_record [simp]: "d \<noteq> [] \<Longrightarrow> wf_cid_of_block P d = Inr (record_cid P d)"
  by (simp add: wf_cid_of_block_def record_cid_def)

context platform_laws
begin

lemma record_cid_ok: "cid_ok (record_cid P d)"
  using cid_ok_from_hash_codec [of "SHA256 P d"] sha256_length by (simp add: record_cid_def wf_cid_from_hash_def)

lemma refines_root_ok: "refines P L car root ls \<Longrightarrow> root \<noteq> [] \<Longrightarrow> cid_ok root"
  using cid_ok_tree_cid by (auto simp: refines_def made_def)

lemma refines_root_empty: "refines P L car [] ls \<Longrightarrow> ls = []"
  by (auto simp: refines_def made_def eq_commute [of "[]"])

lemma concrete_refines:
  assumes "refines P L car root ls"
  shows "car_ext car (fst (repo_concrete_root P car root)) \<and>
    yields P L (repo_concrete_root P car root) (\<lambda>car root. refines P L car root ls \<and> root \<noteq> [])"
proof (cases "root = []")
  case True
  with assms have ls: "ls = []" by (auto dest: refines_root_empty)
  let ?r = "mst_write_node P car 0 [] []"
  have "refines P L (fst ?r) root' [] \<and> root' \<noteq> []" if "collision_free P (fst ?r) L" "snd ?r = Inr root'" for root'
  proof -
    have "snd ?r = Inr (tree_cid P (MNode MNil []))" "mst_stored P (fst ?r) (MNode MNil [])"
      using write_empty_wrote [of L car 0] that(1) by (auto simp: wrote_def)
    moreover have "wtree P False L 0 (MNode MNil [])" by (simp add: wtree_def leaves_ok_def)
    ultimately show ?thesis using that(2) made_tree [of P "fst ?r" "MNode MNil []" False L 0] by (auto simp: refines_def)
  qed
  moreover have "\<exists>x. snd ?r = Inr x" if "collision_free P (fst ?r) L"
    using write_empty_wrote [of L car 0] that by (auto simp: wrote_def)
  ultimately show ?thesis using True ls ext_write by (auto simp: repo_concrete_root_def yields_def)
qed (use assms in \<open>auto simp: repo_concrete_root_def\<close>)

text \<open>The test for an existing record.\<close>

lemma found_iff:
  assumes "refines P L car root ls" "key \<noteq> []" "length key < 2 ^ 31"
  shows "(root \<noteq> [] \<and> (case wf_mst_find P car root key of Inl _ \<Rightarrow> False | Inr _ \<Rightarrow> True)) \<longleftrightarrow> key \<in> fst ` set ls"
proof (cases "root = []")
  case True
  with assms(1) have "ls = []" using refines_root_empty by blast
  with True show ?thesis by simp
next
  case False
  from refines_find [OF assms(1) False assms(2,3)] False show ?thesis
    by (cases "map_of ls key") (auto simp: map_of_eq_None_iff dest!: map_of_SomeD intro: rev_image_eqI)
qed

text \<open>The three tree operations on a refined root.\<close>

lemma add_refines:
  assumes "refines P L car root ls" "wf_mst_key_is_valid key" "cid_ok v" "(key, v) \<in> L" "Suc (length ls) < 2 ^ 64"
  shows "\<exists>r. wf_mst_add 1026 P car root key v = Some r \<and> car_ext car (fst r) \<and>
    yields P L r (\<lambda>car root. refines P L car root (ins_leaf key v ls))"
  using exec_refines [OF assms(1), of "Put key v"] assms(2-5) by (auto simp: mst_exec_def yields_def)

lemma delete_refines:
  assumes "refines P L car root ls" "key \<noteq> []" "length key < 2 ^ 31"
  shows "\<exists>r. wf_mst_delete 1026 P car root key = Some r \<and> car_ext car (fst r) \<and>
    (if key \<in> fst ` set ls then yields P L r (\<lambda>car root. refines P L car root (del_leaf key ls))
     else r = (car, Inl WF_ERR_NOT_FOUND))"
proof -
  from assms(1) obtain n t where t: "root = tree_cid P t" "mst_stored P car t" "wtree P False L n t" "leaves t = ls" "lay P False n t"
    by (auto simp: refines_def elim: madeE)
  have h: "height t < 1026" using lay_height [OF t(5)] t(3) by (auto simp: wtree_def)
  show ?thesis
  proof (cases "t = MNil")
    case True
    then show ?thesis using t(1,4) assms(2) by (auto simp: wf_mst_delete_def)
  next
    case False
    then obtain r where r: "wf_mst_delete 1026 P car root key = Some r" "car_ext car (fst r)"
      "if key \<in> fst ` set ls then yields P L r (\<lambda>car c. \<exists>m \<le> n. made P False L m (del_leaf key ls) car c)
       else r = (car, Inl WF_ERR_NOT_FOUND)"
      using delete_made [OF t(2,3), of 1026 key] h assms(2,3) t(1,4) by auto
    then show ?thesis
      by (cases "key \<in> fst ` set ls") (auto simp: yields_def refines_def)
  qed
qed

lemma update_refines:
  assumes "refines P L car root ls" "root \<noteq> []" "cid_ok v" "(key, v) \<in> L" "length key < 2 ^ 31"
  shows "\<exists>r. mst_update_value 1026 P car root key v = Some r \<and> car_ext car (fst r) \<and>
    (if key \<in> fst ` set ls then yields P L r (\<lambda>car root. refines P L car root (set_leaf key v ls))
     else r = (car, Inl WF_ERR_NOT_FOUND))"
proof -
  from assms(1) obtain n t where t: "root = tree_cid P t" "mst_stored P car t" "wtree P False L n t" "leaves t = ls" "lay P False n t"
    by (auto simp: refines_def elim: madeE)
  have "height t \<le> 1026" using lay_height [OF t(5)] t(3) by (auto simp: wtree_def)
  moreover have "t \<noteq> MNil" using assms(2) t(1) by auto
  ultimately obtain r where r: "mst_update_value 1026 P car root key v = Some r"
    "if key \<in> fst ` set ls then yields P L r (made P False L n (set_leaf key v ls)) else r = (car, Inl WF_ERR_NOT_FOUND)"
    using update_made [OF t(2,3), of 1026 key v] assms(3-5) t(1,4) by auto
  then show ?thesis
    using ext_update [OF r(1)]
    by (cases "key \<in> fst ` set ls") (simp_all add: refines_def yields_weaken [of P L r "made P False L n (set_leaf key v ls)"] exI)
qed

text \<open>The end of a write: a concrete root.\<close>

lemma finish_holds:
  fixes c :: wf_cid
  assumes "car_ext car (fst r)" "yields P L r (\<lambda>car root. refines P L car root ls)" "records_stored car ls"
  defines "R \<equiv> and_then r (\<lambda>car new_root. and_then (repo_concrete_root P car new_root) (\<lambda>car new_root. (car, Inr (new_root, c))))"
  shows "car_ext car (fst R) \<and> yields P L R (\<lambda>car (root, c'). c' = c \<and> root_holds P L car root ls \<and> root \<noteq> [])"
proof -
  have ext: "car_ext car (fst (and_then (repo_concrete_root P car new_root) (\<lambda>car new_root. (car, Inr (new_root, c)))))" for car new_root
    by (rule ext_and_then) (simp_all add: repo_concrete_root_def ext_write)
  have "yields P L R (\<lambda>car (root, c'). c' = c \<and> root_holds P L car root ls \<and> root \<noteq> [])"
    unfolding R_def
  proof (rule yields_and_then [OF assms(2,1) ext])
    fix car' root
    assume r: "car_ext car car'" "refines P L car' root ls"
    note cr = concrete_refines [OF r(2)]
    show "yields P L (and_then (repo_concrete_root P car' root) (\<lambda>car new_root. (car, Inr (new_root, c))))
        (\<lambda>car (root, c'). c' = c \<and> root_holds P L car root ls \<and> root \<noteq> [])"
    proof (rule yields_and_then [where car = car'])
      show "yields P L (repo_concrete_root P car' root) (\<lambda>car root. refines P L car root ls \<and> root \<noteq> [])" "car_ext car' (fst (repo_concrete_root P car' root))"
        using cr by auto
    qed (use records_stored_ext [OF assms(3)] r(1) in \<open>auto simp: root_holds_def intro: car_ext_trans\<close>)
  qed
  moreover have "car_ext car (fst R)"
    unfolding R_def by (rule ext_and_then [OF assms(1) ext])
  ultimately show ?thesis by blast
qed

lemma stage_write_holds:
  assumes "root_holds P L car root ls" "write_ok P L w" "Suc (length ls) < 2 ^ 64"
  shows "\<exists>r. repo_stage_write 1026 P w car root = Some r \<and> car_ext car (fst r) \<and>
    (case spec_write P ls w of
       Inl e \<Rightarrow> snd r = Inl e
     | Inr (ls', c) \<Rightarrow> yields P L r (\<lambda>car (root, c'). c' = c \<and> root_holds P L car root ls' \<and> root \<noteq> []))"
proof -
  have ref: "refines P L car root ls" and stored: "records_stored car ls" using assms(1) by (auto simp: root_holds_def)
  let ?k = "write_key w" and ?c = "record_cid P (wr_record w)"
  have k: "length ?k < 2 ^ 31" "?k \<noteq> []" using assms(2) by (auto simp: write_ok_def write_key_def)
  have inL: "(?k, ?c) \<in> L" if "wr_action w \<noteq> WF_REPO_WRITE_DELETE"
    using that assms(2) by (simp add: write_ok_def write_leaf_def)
  note found = found_iff [OF ref k(2,1)]
  have kdef: "repo_mst_key (wr_collection w) (wr_rkey w) = ?k" by (simp add: write_key_def)
  note unfold = repo_stage_write_def [of 1026 P w car root, unfolded Let_def kdef found] spec_write_def
  let ?car = "repo_put_block car ?c (wr_record w)"
  have ref': "refines P L ?car root ls" using refines_ext [OF ref put_block_ext] .
  have stored': "records_stored ?car ls'" if "set ls' \<subseteq> insert (?k, ?c) (set ls)" for ls'
    using records_stored_insert [OF records_stored_ext [OF stored put_block_ext] put_block_find that] .
  show ?thesis
  proof (cases "wr_collection w = [] \<or> wr_rkey w = []")
    case True
    then show ?thesis by (auto simp: unfold)
  next
    case ne: False
    show ?thesis
    proof (cases "wr_action w")
      case del: WF_REPO_WRITE_DELETE
      show ?thesis
      proof (cases "?k \<in> fst ` set ls")
        case True
        from delete_refines [OF ref k(2,1)] True obtain r where
          r: "wf_mst_delete 1026 P car root ?k = Some r" "car_ext car (fst r)" "yields P L r (\<lambda>car root. refines P L car root (del_leaf ?k ls))"
          by auto
        have "records_stored car (del_leaf ?k ls)" using stored by (auto simp: records_stored_def del_leaf_def)
        from finish_holds [OF r(2,3) this, of "[]"] show ?thesis using ne del True r(1) by (simp add: unfold)
      qed (use ne del in \<open>simp add: unfold\<close>)
    next
      case cr: WF_REPO_WRITE_CREATE
      show ?thesis
      proof (cases "wr_record w = [] \<or> ?k \<in> fst ` set ls")
        case False
        show ?thesis
        proof (cases "wf_mst_key_is_valid ?k")
          case True
          have "(?k, ?c) \<in> L" using inL cr by simp
          from add_refines [OF ref' True record_cid_ok this assms(3)] obtain r where
            r: "wf_mst_add 1026 P ?car root ?k ?c = Some r" "car_ext ?car (fst r)" "yields P L r (\<lambda>car root. refines P L car root (ins_leaf ?k ?c ls))"
            by blast
          from finish_holds [OF r(2,3) stored' [OF set_ins_leaf], of ?c] put_block_ext show ?thesis
            using ne cr False True r(1) by (auto simp: unfold intro: car_ext_trans)
        next
          case inv: False
          then have "wf_mst_add 1026 P ?car root ?k ?c = Some (?car, Inl WF_ERR_INVALID_ARG)" by (simp add: numeral_eq_Suc)
          then show ?thesis using ne cr False inv put_block_ext by (simp add: unfold)
        qed
      qed (use ne cr in \<open>auto simp: unfold\<close>)
    next
      case up: WF_REPO_WRITE_UPDATE
      show ?thesis
      proof (cases "wr_record w = [] \<or> ?k \<notin> fst ` set ls")
        case False
        then have "root \<noteq> []" "(?k, ?c) \<in> L" using refines_root_empty ref inL up by fastforce+
        from update_refines [OF ref' this(1) record_cid_ok this(2) k(1)] False obtain r where
          r: "mst_update_value 1026 P ?car root ?k ?c = Some r" "car_ext ?car (fst r)" "yields P L r (\<lambda>car root. refines P L car root (set_leaf ?k ?c ls))"
          by auto
        from finish_holds [OF r(2,3) stored' [OF set_set_leaf], of ?c] put_block_ext show ?thesis
          using ne up False r(1) by (auto simp: unfold intro: car_ext_trans)
      qed (use ne up in \<open>auto simp: unfold\<close>)
    qed
  qed
qed

lemma stage_loop_holds:
  assumes "root_holds P L car root ls" "\<forall>w \<in> set ws. write_ok P L w" "length ls + length ws < 2 ^ 64"
    "\<And>n r. 0 < n \<Longrightarrow> repo_stage_loop 1026 P (take n ws) car root = Some r \<Longrightarrow> collision_free P (fst r) L"
  shows "\<exists>r. repo_stage_loop 1026 P ws car root = Some r \<and> car_ext car (fst r) \<and>
    (case spec_writes P ls ws of
       Inl e \<Rightarrow> snd r = Inl e
     | Inr (ls', cs) \<Rightarrow> \<exists>root'. snd r = Inr (root', cs) \<and> root_holds P L (fst r) root' ls')"
  using assms
proof (induction ws arbitrary: car root ls)
  case (Cons w ws)
  have "write_ok P L w" "Suc (length ls) < 2 ^ 64" using Cons.prems(2,3) by auto
  from stage_write_holds [OF Cons.prems(1) this] obtain r where
    r: "repo_stage_write 1026 P w car root = Some r" "car_ext car (fst r)"
    "case spec_write P ls w of Inl e \<Rightarrow> snd r = Inl e
     | Inr (ls', c) \<Rightarrow> yields P L r (\<lambda>car (root, c'). c' = c \<and> root_holds P L car root ls' \<and> root \<noteq> [])" by blast
  have "collision_free P (fst r) L"
    using Cons.prems(4) [of 1] r(1) by (cases r; cases "snd r") auto
  then have r': "case spec_write P ls w of Inl e \<Rightarrow> snd r = Inl e
     | Inr (ls', c) \<Rightarrow> \<exists>root'. snd r = Inr (root', c) \<and> root_holds P L (fst r) root' ls'"
    using r(3) by (auto simp: yields_def split: sum.splits prod.splits)
  show ?case
  proof (cases "spec_write P ls w")
    case (Inl e)
    then show ?thesis using r(1,2) r' by (cases r) auto
  next
    case (Inr y)
    then obtain ls1 c where sp: "spec_write P ls w = Inr (ls1, c)" by (cases y) auto
    with r' obtain car1 root1 where r1: "r = (car1, Inr (root1, c))" "root_holds P L car1 root1 ls1" by (cases r) auto
    have "length ls1 + length ws < 2 ^ 64" using length_spec_write [OF sp] Cons.prems(3) by simp
    moreover have "collision_free P (fst r2) L" if "repo_stage_loop 1026 P (take n ws) car1 root1 = Some r2" for n r2
      using Cons.prems(4) [of "Suc n"] that r(1) r1(1) by (cases r2; cases "snd r2") auto
    ultimately obtain r2 where r2: "repo_stage_loop 1026 P ws car1 root1 = Some r2" "car_ext car1 (fst r2)"
      "case spec_writes P ls1 ws of Inl e \<Rightarrow> snd r2 = Inl e
       | Inr (ls', cs) \<Rightarrow> \<exists>root'. snd r2 = Inr (root', cs) \<and> root_holds P L (fst r2) root' ls'"
      using Cons.IH [OF r1(2)] Cons.prems(2) by auto
    then show ?thesis
      using r(1,2) r1(1) sp car_ext_trans [of car car1 "fst r2"]
      by (cases r2; cases "snd r2") (auto split: sum.splits)
  qed
qed (auto simp: root_holds_def)

end

section \<open>Heads\<close>

text \<open>A head (no commit, or a commit of the CAR) stands for the leaves of the tree it names.\<close>

definition head_holds :: "platform \<Rightarrow> (bytes \<times> wf_cid) set \<Rightarrow> wf_car \<Rightarrow> wf_cid option \<Rightarrow> (bytes \<times> wf_cid) list \<Rightarrow> bool" where
  "head_holds P L car head ls \<longleftrightarrow> head \<noteq> Some [] \<and> (\<exists>root. repo_head_root P car head = Inr root \<and> root_holds P L car root ls)"

text \<open>No two blocks with one CID differ: looking up a commit finds the commit.\<close>

definition one_content :: "wf_car \<Rightarrow> bool" where
  "one_content car \<longleftrightarrow> (\<forall>b \<in> set (car_blocks car). \<forall>b' \<in> set (car_blocks car). blk_cid b = blk_cid b' \<longrightarrow> blk_data b = blk_data b')"

lemma head_root_ext:
  assumes "repo_head_root P car head = Inr root" "car_ext car car'"
  shows "repo_head_root P car' head = Inr root"
  using assms(1) find_block_ext [OF assms(2)]
  by (auto simp: repo_head_root_def repo_load_commit_def split: option.splits if_splits sum.splits)

lemma commit_data_length: "wf_commit_parse P d = Inr commit \<Longrightarrow> length (cm_data commit) = 36"
  by (rule commit_parse_fields) (auto simp: commit_link_Some)

lemma head_root_commit:
  assumes "repo_head_root P car (Some c) = Inr root" "c \<noteq> []"
  obtains commit where "repo_load_commit P car c = Inr commit" "cm_data commit = root" "root \<noteq> []"
proof -
  from assms obtain commit where c: "repo_load_commit P car c = Inr commit" "cm_data commit = root"
    by (auto simp: repo_head_root_def split: sum.splits)
  then have "length root = 36" using commit_data_length by (auto simp: repo_load_commit_def split: option.splits)
  then have "root \<noteq> []" by auto
  with c show thesis using that by blast
qed

lemma head_holds_ext: "head_holds P L car head ls \<Longrightarrow> car_ext car car' \<Longrightarrow> head_holds P L car' head ls"
  unfolding head_holds_def root_holds_def using head_root_ext refines_ext records_stored_ext by meson

lemma head_holds_empty: "head_holds P L car None []"
  using made_empty [of 0] by (auto simp: head_holds_def repo_head_root_def root_holds_def records_stored_def refines_def intro!: exI [of _ 0])

lemma tid_now_text:
  assumes "wf_tid_now now rnd clock = (clock', rv)"
  shows "length rv = 13" "\<forall>b \<in> set rv. b < 0x80"
proof -
  obtain v where rv: "rv = wf_tid_encode v" using assms by (auto simp: wf_tid_now_def Let_def)
  show "length rv = 13" by (simp add: rv length_tid_encode)
  have "list_all (\<lambda>b. b < 0x80) WF_TID_S32" by code_simp
  moreover have "set rv \<subseteq> set WF_TID_S32"
    using s32_digits_less [of 13 "unat v"] unfolding rv wf_tid_encode_def encode_loop_digits
    by (auto simp: list_all_iff intro!: nth_mem)
  ultimately show "\<forall>b \<in> set rv. b < 0x80" by (auto simp: list_all_iff)
qed

text \<open>Reading a head.\<close>

lemma get_record_holds:
  assumes "platform_laws P" "head_holds P L car (Some c) ls" "length (repo_mst_key coll rkey) < 2 ^ 31"
  shows "wf_repo_get_record P car c coll rkey =
    (case map_of ls (repo_mst_key coll rkey) of
       None \<Rightarrow> Inl WF_ERR_NOT_FOUND
     | Some v \<Rightarrow> (case wf_car_find_block car v of None \<Rightarrow> Inl WF_ERR_PARSE | Some b \<Rightarrow> Inr (blk_data b, v)))"
    "v \<in> snd ` set ls \<Longrightarrow> wf_car_find_block car v \<noteq> None"
proof -
  from assms(2) obtain root where root: "repo_head_root P car (Some c) = Inr root" "refines P L car root ls" "records_stored car ls"
    and ne: "c \<noteq> []" by (auto simp: head_holds_def root_holds_def)
  then obtain commit where "repo_load_commit P car c = Inr commit" "cm_data commit = root" "root \<noteq> []"
    using head_root_commit [OF _ ne] by blast
  then show "wf_repo_get_record P car c coll rkey =
    (case map_of ls (repo_mst_key coll rkey) of
       None \<Rightarrow> Inl WF_ERR_NOT_FOUND
     | Some v \<Rightarrow> (case wf_car_find_block car v of None \<Rightarrow> Inl WF_ERR_PARSE | Some b \<Rightarrow> Inr (blk_data b, v)))"
    using platform_laws.refines_find [OF assms(1) root(2) _ repo_mst_key_nonempty assms(3)]
    by (auto simp: wf_repo_get_record_def split: option.split)
  show "v \<in> snd ` set ls \<Longrightarrow> wf_car_find_block car v \<noteq> None" using root(3) by (auto simp: records_stored_def)
qed

text \<open>
  A published head: it stands for the leaves, and its commit names the DID and carries a signature that
  the public key verifies.
\<close>

definition head_signed :: "repo_env \<Rightarrow> bytes \<Rightarrow> bytes \<Rightarrow> wf_car \<Rightarrow> wf_cid \<Rightarrow> bool" where
  "head_signed env did pub car c \<longleftrightarrow> length c = 36 \<and>
     (\<exists>b commit u. wf_car_find_block car c = Some b \<and> stored_commit (env_plat env) (blk_data b) \<and>
        wf_commit_parse (env_plat env) (blk_data b) = Inr commit \<and> cm_version commit = 3 \<and> length (cm_sig commit) = 64 \<and>
        \<not> cm_has_prev commit \<and> cm_did commit = c_str did \<and>
        commit_unsigned_bytes commit = Inr u \<and> wf_verify (env_plat env) (env_ec env) pub u (cm_sig commit) = Inr ())"

definition published ::
  "repo_env \<Rightarrow> bytes \<Rightarrow> bytes \<Rightarrow> (bytes \<times> wf_cid) set \<Rightarrow> wf_car \<Rightarrow> wf_cid \<Rightarrow> (bytes \<times> wf_cid) list \<Rightarrow> bool" where
  "published env did pub L car c ls \<longleftrightarrow> head_holds (env_plat env) L car (Some c) ls \<and> head_signed env did pub car c"

lemma published_holds: "published env did pub L car c ls \<Longrightarrow> head_holds (env_plat env) L car (Some c) ls"
  by (simp add: published_def)

text \<open>The writer of a repository: its keys sign, and its DID fits a commit.\<close>

locale repo_writer =
  fixes env :: repo_env and did :: bytes and key :: wf_signing_key and pub :: bytes
  assumes plat: "platform_laws (env_plat env)"
    and ec: "ec_laws (env_ec env)"
    and did_text: "text_ok (env_plat env) did" "length (c_str did) < 256"
    and public_key: "wf_signing_key_public_didkey (env_ec env) key = Inr pub"
    and signs: "msg \<noteq> [] \<Longrightarrow> \<exists>sig. wf_sign (env_plat env) (env_ec env) key msg 64 = Inr sig"
begin

lemma commit_holds:
  assumes "root_holds (env_plat env) L car root ls" "root \<noteq> []"
  shows "\<exists>car' clock' c. repo_commit env did root prev key (car, clock) = ((car', clock'), Inr c) \<and> car_ext car car' \<and>
    (one_content car' \<longrightarrow> published env did pub L car' c ls)"
proof -
  obtain clock' rv where tid: "wf_tid_now (env_now env) (env_rand env) clock = (clock', rv)" by fastforce
  have rv: "text_ok (env_plat env) rv" "length (c_str rv) < 64"
    using platform_laws.text_ok_ascii [OF plat tid_now_text(2) [OF tid]] tid_now_text(1) [OF tid] length_c_str [of rv] by auto
  have root: "cid_ok root" using platform_laws.refines_root_ok [OF plat _ assms(2)] assms(1) by (auto simp: root_holds_def)
  have "\<exists>sig. wf_sign (env_plat env) (env_ec env) key msg 64 = Inr sig \<and> length sig = 64" if "msg \<noteq> []" for msg
    using signs [OF that] sign_length [OF ec _ public_key] by blast
  from platform_laws.commit_create_ok [OF plat did_text(1) rv(1) root did_text(2) rv(2) this] obtain car' commit where
    cr: "wf_commit_create (env_plat env) (env_ec env) did rv root prev key car = (car', Inr commit)" by blast
  obtain stored u where c: "car' = car\<lparr>car_blocks := car_blocks car @ [\<lparr>blk_cid = cm_cid commit, blk_data = stored\<rparr>]\<rparr>"
    "wf_cid_of_block (env_plat env) stored = Inr (cm_cid commit)" "wf_commit_parse (env_plat env) stored = Inr (commit\<lparr>cm_cid := []\<rparr>)"
    "cm_version commit = 3" "\<not> cm_has_prev commit" "cm_data commit = root"
    "commit_unsigned_bytes commit = Inr u" "wf_verify (env_plat env) (env_ec env) pub u (cm_sig commit) = Inr ()"
    "cm_did commit = c_str did" "length (cm_sig commit) = 64" "stored_commit (env_plat env) stored"
    by (rule commit_created [OF plat ec did_text(1) rv(1) root public_key cr])
  have ext: "car_ext car car'" by (simp add: car_ext_def c(1))
  have ne: "cm_cid commit \<noteq> []" using c(2) by (auto simp: wf_cid_of_block_def wf_cid_from_hash_def wf_cid_from_hash_codec_def split: if_splits)
  have "published env did pub L car' (cm_cid commit) ls" if "one_content car'"
  proof -
    have "wf_car_find_block car' (cm_cid commit) \<noteq> None"
      by (simp only: wf_car_find_block_eq find_None_iff c(1)) auto
    then obtain b where b: "wf_car_find_block car' (cm_cid commit) = Some b" by blast
    then have "blk_data b = stored" using that find_block_mem [OF b] unfolding one_content_def by (fastforce simp: c(1))
    then have "repo_head_root (env_plat env) car' (Some (cm_cid commit)) = Inr root"
      using b c(3,6) ne by (simp add: repo_head_root_def repo_load_commit_def)
    moreover have "root_holds (env_plat env) L car' root ls"
      using assms(1) ext by (auto simp: root_holds_def intro: refines_ext records_stored_ext)
    ultimately have "head_holds (env_plat env) L car' (Some (cm_cid commit)) ls" using ne by (auto simp: head_holds_def)
    moreover have "length (cm_cid commit) = 36"
      using c(2) platform_laws.record_cid_ok [OF plat, of stored] cid_of_block_record [of stored "env_plat env"]
      by (cases "stored = []") (auto simp: cid_ok_def wf_cid_of_block_def)
    then have "head_signed env did pub car' (cm_cid commit)"
      unfolding head_signed_def using b c \<open>blk_data b = stored\<close>
      by (intro conjI exI [of _ b] exI [of _ "commit\<lparr>cm_cid := []\<rparr>"] exI [of _ u]) (auto simp: commit_unsigned_bytes_def)
    ultimately show ?thesis by (simp add: published_def)
  qed
  then show ?thesis using tid cr ext by (auto simp: repo_commit_def)
qed

lemma ext_commit: "car_ext car (fst (fst (repo_commit env did root prev key (car, clock))))"
proof -
  have "car_ext car (fst (wf_commit_create (env_plat env) (env_ec env) did rv root prev key car))" for rv
    by (auto simp: wf_commit_create_def Let_def car_ext_def split: option.splits sum.splits)
  then show ?thesis
    by (auto simp: repo_commit_def split: prod.splits sum.splits) (metis fst_conv)+
qed

text \<open>The batch as its staging, a concrete root and a commit.\<close>

definition commit_root where
  "commit_root head clock car root outs =
     (case repo_concrete_root (env_plat env) car root of
        (car, Inl e) \<Rightarrow> ((car, clock), Inl e)
      | (car, Inr root) \<Rightarrow>
          (case repo_commit env did root head key (car, clock) of
             (st, Inl s) \<Rightarrow> (st, Inl s)
           | (st, Inr c) \<Rightarrow> (st, Inr (c, outs))))"

lemma apply_writes_eq:
  assumes "repo_head_root (env_plat env) car head = Inr root" "repo_stage_loop 1026 (env_plat env) ws car root = Some (car1, res)"
  shows "wf_repo_apply_writes 1026 env head did ws key (car, clock) =
    Some (case res of Inl e \<Rightarrow> ((car1, clock), Inl e) | Inr (root, outs) \<Rightarrow> commit_root head clock car1 root outs)"
proof (cases res)
  case (Inr y)
  then show ?thesis
    using assms by (cases y; cases "repo_concrete_root (env_plat env) car1 (fst y)"; cases "snd (repo_concrete_root (env_plat env) car1 (fst y))")
      (auto simp: wf_repo_apply_writes_def Let_def then_commit_def commit_root_def)
qed (use assms in \<open>simp add: wf_repo_apply_writes_def Let_def then_commit_def\<close>)

lemma ext_commit_root: "car_ext car (fst (fst (commit_root head clock car root outs)))"
proof -
  obtain car1 x where cr: "repo_concrete_root (env_plat env) car root = (car1, x)" by fastforce
  have "car_ext car (fst (repo_concrete_root (env_plat env) car root))"
    using ext_write by (simp add: repo_concrete_root_def)
  then have ext: "car_ext car car1" using cr by simp
  show ?thesis
  proof (cases x)
    case (Inr root1)
    obtain st y where c: "repo_commit env did root1 head key (car1, clock) = (st, y)" by fastforce
    then have "car_ext car1 (fst st)" using ext_commit [of car1 root1 head clock] by simp
    then show ?thesis using cr Inr c car_ext_trans [OF ext] by (cases y) (auto simp: commit_root_def)
  qed (use cr ext in \<open>simp add: commit_root_def\<close>)
qed

lemma commit_root_holds:
  assumes "root_holds (env_plat env) L car root ls" and r_def: "r = commit_root head clock car root outs"
    and "collision_free (env_plat env) (fst (fst r)) L" "one_content (fst (fst r))"
  shows "\<exists>c. snd r = Inr (c, outs) \<and> published env did pub L (fst (fst r)) c ls"
proof -
  obtain car1 x where cr: "repo_concrete_root (env_plat env) car root = (car1, x)" by fastforce
  have ref: "refines (env_plat env) L car root ls" "records_stored car ls" using assms(1) by (auto simp: root_holds_def)
  note con = platform_laws.concrete_refines [OF plat ref(1), unfolded cr]
  have "car_ext car1 (fst (fst r))"
  proof (cases x)
    case (Inr root1)
    then show ?thesis using cr ext_commit [of car1 root1 head clock]
      by (auto simp: r_def commit_root_def split: prod.splits sum.splits)
  qed (simp add: r_def commit_root_def cr)
  then have "collision_free (env_plat env) car1 L" using assms(3) collision_free_ext by blast
  with con ref obtain root1 where root1: "x = Inr root1" "root_holds (env_plat env) L car1 root1 ls" "root1 \<noteq> []"
    by (auto simp: yields_def root_holds_def intro: records_stored_ext)
  from commit_holds [OF root1(2,3), of head clock] obtain car2 clock' c where
    c: "repo_commit env did root1 head key (car1, clock) = ((car2, clock'), Inr c)"
    "one_content car2 \<longrightarrow> published env did pub L car2 c ls" by blast
  then have "r = ((car2, clock'), Inr (c, outs))" by (simp add: r_def commit_root_def cr root1(1))
  then show ?thesis using c(2) assms(4) by simp
qed

text \<open>The batch: all of it or nothing.\<close>

lemma apply_writes_holds:
  assumes "head_holds (env_plat env) L car head ls" "\<forall>w \<in> set ws. write_ok (env_plat env) L w" "length ls + length ws < 2 ^ 64"
    "ws \<noteq> []"
    "\<And>n st' res. 0 < n \<Longrightarrow> wf_repo_apply_writes 1026 env head did (take n ws) key (car, clock) = Some (st', res) \<Longrightarrow>
        collision_free (env_plat env) (fst st') L \<and> one_content (fst st')"
  shows "\<exists>st' res. wf_repo_apply_writes 1026 env head did ws key (car, clock) = Some (st', res) \<and> car_ext car (fst st') \<and>
    (case spec_writes (env_plat env) ls ws of
       Inl e \<Rightarrow> res = Inl e
     | Inr (ls', cs) \<Rightarrow> \<exists>c. res = Inr (c, cs) \<and> published env did pub L (fst st') c ls')"
proof -
  from assms(1) obtain root where root: "repo_head_root (env_plat env) car head = Inr root" "root_holds (env_plat env) L car root ls"
    by (auto simp: head_holds_def)
  have clean: "collision_free (env_plat env) (fst r) L" if "0 < n" and loop: "repo_stage_loop 1026 (env_plat env) (take n ws) car root = Some r" for n r
  proof -
    obtain car1 x where r: "r = (car1, x)" by fastforce
    define R where "R = (case x of Inl e \<Rightarrow> ((car1, clock), Inl e) | Inr (root, outs) \<Rightarrow> commit_root head clock car1 root outs)"
    have "car_ext car1 (fst (fst R))" unfolding R_def using ext_commit_root by (auto split: sum.split)
    moreover have "wf_repo_apply_writes 1026 env head did (take n ws) key (car, clock) = Some (fst R, snd R)"
      using apply_writes_eq [OF root(1) loop [unfolded r], of clock] by (simp add: R_def)
    ultimately show ?thesis using assms(5) [OF that(1)] collision_free_ext r by fastforce
  qed
  obtain car1 x where
    r: "repo_stage_loop 1026 (env_plat env) ws car root = Some (car1, x)" "car_ext car car1"
    "case spec_writes (env_plat env) ls ws of Inl e \<Rightarrow> x = Inl e
     | Inr (ls', cs) \<Rightarrow> \<exists>root'. x = Inr (root', cs) \<and> root_holds (env_plat env) L car1 root' ls'"
  proof -
    have "\<exists>r. repo_stage_loop 1026 (env_plat env) ws car root = Some r \<and> car_ext car (fst r) \<and>
      (case spec_writes (env_plat env) ls ws of Inl e \<Rightarrow> snd r = Inl e
       | Inr (ls', cs) \<Rightarrow> \<exists>root'. snd r = Inr (root', cs) \<and> root_holds (env_plat env) L (fst r) root' ls')"
      by (rule platform_laws.stage_loop_holds [OF plat root(2) assms(2,3)]) (rule clean)
    then show thesis by (elim exE conjE, intro that) simp_all
  qed
  note run = apply_writes_eq [OF root(1) r(1), of clock]
  show ?thesis
  proof (cases "spec_writes (env_plat env) ls ws")
    case (Inl e)
    then show ?thesis using run r by simp
  next
    case (Inr y)
    then obtain ls' cs root' where sp: "spec_writes (env_plat env) ls ws = Inr (ls', cs)" "x = Inr (root', cs)"
      "root_holds (env_plat env) L car1 root' ls'" using r(3) by (cases y) auto
    let ?r = "commit_root head clock car1 root' cs"
    have run: "wf_repo_apply_writes 1026 env head did ws key (car, clock) = Some (fst ?r, snd ?r)" using run sp(2) by simp
    have "collision_free (env_plat env) (fst (fst ?r)) L" "one_content (fst (fst ?r))" using assms(5) [of "length ws" "fst ?r" "snd ?r"] assms(4) run by auto
    from commit_root_holds [OF sp(3) refl this] run sp(1) car_ext_trans [OF r(2) ext_commit_root]
    show ?thesis by (intro exI [of _ "fst ?r"] exI [of _ "snd ?r"]) auto
  qed
qed

text \<open>Single writes: a step on the tree, then a commit on what \<open>g\<close> makes of the CAR.\<close>

lemma then_commit_holds:
  assumes "yields (env_plat env) L r (\<lambda>car root. refines (env_plat env) L car root ls \<and> root \<noteq> [])" "car_ext car (fst r)"
    "\<And>car. car_ext car (g car)" "\<And>car'. car_ext car car' \<Longrightarrow> records_stored (g car') ls"
  shows "\<exists>st' res. then_commit (Some r) clock (\<lambda>car root.
        case repo_commit env did root head key (g car, clock) of (st, Inl s) \<Rightarrow> (st, Inl s) | (st, Inr c) \<Rightarrow> (st, Inr (f c))) = Some (st', res) \<and>
    car_ext car (fst st') \<and>
    (collision_free (env_plat env) (fst st') L \<and> one_content (fst st') \<longrightarrow>
      (\<exists>c. res = Inr (f c) \<and> published env did pub L (fst st') c ls))"
proof -
  obtain car1 x where r: "r = (car1, x)" by fastforce
  show ?thesis
  proof (cases x)
    case (Inl e)
    then have "\<not> collision_free (env_plat env) car1 L" using assms(1) r by (auto simp: yields_def)
    then show ?thesis using Inl r assms(2) by (simp add: then_commit_def)
  next
    case (Inr root)
    obtain car2 clock2 y where c: "repo_commit env did root head key (g car1, clock) = ((car2, clock2), y)"
      by (metis surj_pair)
    have ext: "car_ext car1 car2" using ext_commit [of "g car1" root head clock] c assms(3) [of car1] car_ext_trans by fastforce
    then have ext': "car_ext car car2" using assms(2) r car_ext_trans by auto
    have "\<exists>c. y = Inr c \<and> published env did pub L car2 c ls"
      if clean: "collision_free (env_plat env) car2 L" "one_content car2"
    proof -
      have "refines (env_plat env) L car1 root ls" "root \<noteq> []"
        using assms(1) collision_free_ext [OF clean(1) ext] r Inr by (auto simp: yields_def)
      then have "root_holds (env_plat env) L (g car1) root ls"
        using assms(2,3,4) r by (auto simp: root_holds_def intro: refines_ext)
      from commit_holds [OF this \<open>root \<noteq> []\<close>, of head clock] c clean(2) show ?thesis by auto
    qed
    then show ?thesis using r Inr c ext' by (cases y) (auto simp: then_commit_def)
  qed
qed

lemma create_record_holds:
  assumes "head_holds (env_plat env) L car head ls" "record_cbor \<noteq> []" "wf_mst_key_is_valid (repo_mst_key coll rkey)"
    "(repo_mst_key coll rkey, record_cid (env_plat env) record_cbor) \<in> L" "Suc (length ls) < 2 ^ 64"
  shows "\<exists>st' res. wf_repo_create_record 1026 env head did coll rkey record_cbor key (car, clock) = Some (st', res) \<and> car_ext car (fst st') \<and>
    (collision_free (env_plat env) (fst st') L \<and> one_content (fst st') \<longrightarrow>
      (\<exists>c. res = Inr (c, record_cid (env_plat env) record_cbor) \<and>
        published env did pub L (fst st') c (ins_leaf (repo_mst_key coll rkey) (record_cid (env_plat env) record_cbor) ls)))"
proof -
  let ?P = "env_plat env" and ?k = "repo_mst_key coll rkey"
  let ?c = "record_cid ?P record_cbor"
  let ?car = "repo_put_block car ?c record_cbor" and ?ls = "ins_leaf ?k ?c ls"
  from head_holds_ext [OF assms(1) put_block_ext] obtain root where
    root: "repo_head_root ?P ?car head = Inr root" "root_holds ?P L ?car root ls" by (auto simp: head_holds_def)
  have ref: "refines ?P L ?car root ls" and rs: "records_stored ?car ls" using root(2) by (auto simp: root_holds_def)
  from platform_laws.add_refines [OF plat ref assms(3) platform_laws.record_cid_ok [OF plat] assms(4,5)] obtain r where
    r: "wf_mst_add 1026 ?P ?car root ?k ?c = Some r" "car_ext ?car (fst r)" "yields ?P L r (\<lambda>car root. refines ?P L car root ?ls)" by blast
  have ne: "yields ?P L r (\<lambda>car root. refines ?P L car root ?ls \<and> root \<noteq> [])"
    by (rule yields_weaken [OF r(3)]) (metis ins_leaf_nonempty platform_laws.refines_root_empty [OF plat])
  have "records_stored ?car ?ls" by (rule records_stored_insert [OF rs put_block_find set_ins_leaf])
  note commits = then_commit_holds [OF ne r(2) car_ext_refl records_stored_ext [OF this], where clock = clock and head = head and f = "\<lambda>c. (c, ?c)"]
  have "wf_repo_create_record 1026 env head did coll rkey record_cbor key (car, clock) = then_commit (Some r) clock (\<lambda>car root.
      case repo_commit env did root head key (car, clock) of (st, Inl s) \<Rightarrow> (st, Inl s) | (st, Inr c) \<Rightarrow> (st, Inr (c, ?c)))"
    using root(1) r(1) assms(2) by (simp add: wf_repo_create_record_def Let_def)
  with commits show ?thesis using car_ext_trans [OF put_block_ext] by (simp only:) blast
qed

lemma update_record_holds:
  assumes "head_holds (env_plat env) L car (Some head) ls" "record_cbor \<noteq> []" "length (repo_mst_key coll rkey) < 2 ^ 31"
    "(repo_mst_key coll rkey, record_cid (env_plat env) record_cbor) \<in> L"
  shows "\<exists>st' res. wf_repo_update_record 1026 env head did coll rkey record_cbor key (car, clock) = Some (st', res) \<and> car_ext car (fst st') \<and>
    (if repo_mst_key coll rkey \<in> fst ` set ls
     then collision_free (env_plat env) (fst st') L \<and> one_content (fst st') \<longrightarrow>
      (\<exists>c. res = Inr (c, record_cid (env_plat env) record_cbor) \<and>
        published env did pub L (fst st') c (set_leaf (repo_mst_key coll rkey) (record_cid (env_plat env) record_cbor) ls))
     else st' = (car, clock) \<and> res = Inl WF_ERR_NOT_FOUND)"
proof -
  let ?P = "env_plat env" and ?k = "repo_mst_key coll rkey"
  let ?c = "record_cid ?P record_cbor"
  let ?g = "\<lambda>car. repo_put_block car ?c record_cbor" and ?ls = "set_leaf ?k ?c ls"
  from assms(1) obtain root where
    root: "repo_head_root ?P car (Some head) = Inr root" "root_holds ?P L car root ls" "head \<noteq> []" by (auto simp: head_holds_def)
  obtain previous where prev: "repo_load_commit ?P car head = Inr previous" "cm_data previous = root" "root \<noteq> []"
    by (rule head_root_commit [OF root(1,3)])
  have ref: "refines ?P L car root ls" and rs: "records_stored car ls" using root(2) by (auto simp: root_holds_def)
  from platform_laws.update_refines [OF plat ref prev(3) platform_laws.record_cid_ok [OF plat] assms(4,3)] obtain r where
    r: "mst_update_value 1026 ?P car root ?k ?c = Some r" "car_ext car (fst r)"
    "if ?k \<in> fst ` set ls then yields ?P L r (\<lambda>car root. refines ?P L car root ?ls) else r = (car, Inl WF_ERR_NOT_FOUND)" by blast
  show ?thesis
  proof (cases "?k \<in> fst ` set ls")
    case True
    then have "?ls \<noteq> []" by (auto simp: set_leaf_def)
    have y: "yields ?P L r (\<lambda>car root. refines ?P L car root ?ls)" using r(3) True by simp
    have ne: "yields ?P L r (\<lambda>car root. refines ?P L car root ?ls \<and> root \<noteq> [])"
      by (rule yields_weaken [OF y]) (metis \<open>?ls \<noteq> []\<close> platform_laws.refines_root_empty [OF plat])
    have "records_stored (?g car') ?ls" if "car_ext car car'" for car'
      by (rule records_stored_insert [OF records_stored_ext [OF records_stored_ext [OF rs that] put_block_ext] put_block_find set_set_leaf])
    from then_commit_holds [where g = ?g, OF ne r(2) put_block_ext this, where clock = clock and head = "Some head" and f = "\<lambda>c. (c, ?c)"]
    show ?thesis using prev r(1) assms(2) root(3) True by (simp add: wf_repo_update_record_def Let_def)
  next
    case False
    then show ?thesis using prev r(1,3) assms(2) root(3) by (simp add: wf_repo_update_record_def then_commit_def)
  qed
qed

lemma delete_record_holds:
  assumes "head_holds (env_plat env) L car head ls" "length (repo_mst_key coll rkey) < 2 ^ 31" "Suc (length ls) < 2 ^ 64"
  shows "\<exists>st' res. wf_repo_delete_record 1026 env head did coll rkey key (car, clock) = Some (st', res) \<and> car_ext car (fst st') \<and>
    (if repo_mst_key coll rkey \<in> fst ` set ls
     then collision_free (env_plat env) (fst st') L \<and> one_content (fst st') \<longrightarrow>
      (\<exists>c. res = Inr c \<and> published env did pub L (fst st') c (del_leaf (repo_mst_key coll rkey) ls))
     else st' = (car, clock) \<and> res = Inl WF_ERR_NOT_FOUND)"
proof -
  let ?P = "env_plat env" and ?k = "repo_mst_key coll rkey"
  from assms(1) obtain root where
    root: "repo_head_root ?P car head = Inr root" "root_holds ?P L car root ls" by (auto simp: head_holds_def)
  have ref: "refines ?P L car root ls" and rs: "records_stored car ls" using root(2) by (auto simp: root_holds_def)
  have id: "(case x of (st, Inl s) \<Rightarrow> (st, Inl s) | (st, Inr c) \<Rightarrow> (st, Inr c)) = x" for x :: "repo_state \<times> wf_cid res"
    by (auto split: prod.split sum.split)
  from platform_laws.delete_refines [OF plat ref repo_mst_key_nonempty assms(2)] obtain r where
    r: "wf_mst_delete 1026 ?P car root ?k = Some r" "car_ext car (fst r)"
    "if ?k \<in> fst ` set ls then yields ?P L r (\<lambda>car root. refines ?P L car root (del_leaf ?k ls))
     else r = (car, Inl WF_ERR_NOT_FOUND)" by blast
  show ?thesis
  proof (cases "?k \<in> fst ` set ls")
    case True
    have y: "yields ?P L r (\<lambda>car root. refines ?P L car root (del_leaf ?k ls))" using r(3) True by simp
    let ?r = "and_then r (\<lambda>car new_root. repo_concrete_root ?P car new_root)"
    have ext: "car_ext car (fst (repo_concrete_root ?P car root))" for car root by (simp add: repo_concrete_root_def ext_write)
    have ne: "yields ?P L ?r (\<lambda>car root. refines ?P L car root (del_leaf ?k ls) \<and> root \<noteq> [])"
      by (rule yields_and_then [OF y r(2) ext]) (use platform_laws.concrete_refines [OF plat] in blast)
    have "records_stored car (del_leaf ?k ls)" using rs by (auto simp: records_stored_def del_leaf_def)
    from then_commit_holds [OF ne ext_and_then [OF r(2) ext] car_ext_refl records_stored_ext [OF this], where clock = clock and head = head and f = "\<lambda>c. c"]
    show ?thesis using root(1) r(1) True by (simp add: wf_repo_delete_record_def id)
  next
    case False
    then show ?thesis using r(1,3) root(1) by (simp add: wf_repo_delete_record_def then_commit_def)
  qed
qed

end

end
