(* ===== verification/Diff_Verify.thy ===== *)
theory Diff_Verify
  imports Diff Mst_Read Repo_Spec
begin

text \<open>
  What verification accepts: the validation of blocks is equivalent to a direct specification, the links
  of a verified tree are those of a represented tree, and an accepted CAR is complete and signed.
\<close>

section \<open>Validation of the blocks\<close>

definition block_ok :: "platform \<Rightarrow> wf_car_block \<Rightarrow> bool" where
  "block_ok P b \<longleftrightarrow> wf_cid_of_block P (blk_data b) = Inr (blk_cid b)"

definition blocks_ok :: "platform \<Rightarrow> wf_car_block list \<Rightarrow> bool" where
  "blocks_ok P bs \<longleftrightarrow> (\<forall>b \<in> set bs. block_ok P b) \<and> distinct (map blk_cid bs)"

lemma block_ok_iff:
  "block_ok P b \<longleftrightarrow> \<not> (blk_data b = [] \<or>
     (case wf_cid_of_block P (blk_data b) of Inl _ \<Rightarrow> True | Inr computed \<Rightarrow> \<not> cid_equal computed (blk_cid b)))"
  by (auto simp: block_ok_def wf_cid_of_block_def wf_cid_from_hash_def wf_cid_from_hash_codec_def)

lemma block_ok_nonempty: "block_ok P b \<Longrightarrow> blk_cid b \<noteq> []"
  by (auto simp: block_ok_def wf_cid_of_block_def wf_cid_from_hash_def wf_cid_from_hash_codec_def split: if_splits)

lemma validate_loop_eq:
  assumes "set_inv slots" "card (elems slots) + length bs \<le> length slots"
  shows "validate_loop P bs slots =
    (if blocks_ok P bs \<and> blk_cid ` set bs \<inter> elems slots = {} then Inr () else Inl WF_ERR_PARSE)"
  using assms
proof (induction bs arbitrary: slots)
  case (Cons b bs)
  show ?case
  proof (cases "block_ok P b")
    case True
    from insert_cases [OF Cons.prems(1) block_ok_nonempty [OF True]] Cons.prems(2) obtain slots' where
      s: "repo_cid_set_insert slots (blk_cid b) = Inr (slots', blk_cid b \<in> elems slots)" "set_inv slots'"
      "elems slots' = insert (blk_cid b) (elems slots)" "length slots' = length slots" by auto
    have "validate_loop P bs slots' = (if blocks_ok P bs \<and> blk_cid ` set bs \<inter> elems slots' = {} then Inr () else Inl WF_ERR_PARSE)"
      using Cons.IH [OF s(2)] Cons.prems(2) card_elems_insert [of "blk_cid b" slots] s(3,4) by simp
    moreover have "validate_loop P (b # bs) slots = (if blk_cid b \<in> elems slots then Inl WF_ERR_PARSE else validate_loop P bs slots')"
    proof -
      have "\<not> (blk_data b = [] \<or> (case wf_cid_of_block P (blk_data b) of Inl _ \<Rightarrow> True | Inr computed \<Rightarrow> \<not> cid_equal computed (blk_cid b)))"
        using True unfolding block_ok_iff .
      then show ?thesis unfolding validate_loop.simps by (simp only: if_False s(1) sum.case prod.case)
    qed
    ultimately show ?thesis using True s(3) by (auto simp: blocks_ok_def)
  next
    case False
    then show ?thesis using block_ok_iff [of P b] by (auto simp: blocks_ok_def)
  qed
qed (simp add: blocks_ok_def)

lemma validate_blocks_eq:
  assumes "length (car_blocks car) \<le> SIZE_MAX div 2 div SIZEOF_WF_CID"
  shows "repo_car_validate_blocks P car = (if blocks_ok P (car_blocks car) then Inr () else Inl WF_ERR_PARSE)"
proof (cases "car_blocks car = []")
  case True
  then show ?thesis by (simp add: repo_car_validate_blocks_def repo_cid_set_init_def blocks_ok_def)
next
  case False
  then obtain cap where cap: "repo_cid_set_init (length (car_blocks car)) = Inr (replicate cap [])" "set_inv (replicate cap [])"
    "2 * length (car_blocks car) \<le> cap" using set_init [OF _ assms] by auto
  have "elems (replicate cap []) = {}" by (auto simp: elems_def)
  then show ?thesis using validate_loop_eq [OF cap(2), of "car_blocks car" P] cap(1,3) by (simp add: repo_car_validate_blocks_def)
qed

lemma validate_blocks_ok: "repo_car_validate_blocks P car = Inr () \<Longrightarrow> blocks_ok P (car_blocks car)"
proof -
  assume a: "repo_car_validate_blocks P car = Inr ()"
  then have "length (car_blocks car) \<le> SIZE_MAX div 2 div SIZEOF_WF_CID"
    by (auto simp: repo_car_validate_blocks_def repo_cid_set_init_def split: if_splits)
  from validate_blocks_eq [OF this, of P] a show ?thesis by (simp split: if_splits)
qed

section \<open>The links of a tree\<close>

lemma height_le: "height l \<le> n \<Longrightarrow> (\<And>k v s. (k, v, s) \<in> set es \<Longrightarrow> height s \<le> n) \<Longrightarrow> height (MNode l es) \<le> Suc n"
  by auto

lemma links_sound:
  "verify_mst_links P car c depth = Inr () \<Longrightarrow> c \<noteq> [] \<Longrightarrow>
     \<exists>t. mst_rep P car c t \<and> depth + height t \<le> 1025 \<and> (\<forall>x \<in> set (leaves t). wf_car_find_block car (snd x) \<noteq> None)"
  "verify_entries P car es depth = Inr () \<Longrightarrow> depth \<le> 1025 \<Longrightarrow>
     \<exists>ts. list_all2 (entry_rep (mst_rep P car)) es ts \<and> (\<forall>k v s. (k, v, s) \<in> set ts \<longrightarrow> depth + height s \<le> 1025) \<and>
       (\<forall>x \<in> set (ent_leaves ts). wf_car_find_block car (snd x) \<noteq> None)"
proof (induction P car c depth and P car es depth rule: verify_mst_links_verify_entries.induct)
  case (1 P car cid depth)
  from "1.prems"(1) obtain b node where n: "\<not> depth_exceeded car depth" "wf_car_find_block car cid = Some b"
    "wf_mst_node_parse P (blk_data b) cid = Inr node"
    "node_left node = [] \<or> verify_mst_links P car (node_left node) (depth + 1) = Inr ()"
    "verify_entries P car (node_entries node) (depth + 1) = Inr ()"
    unfolding verify_mst_links.simps [of P car cid depth] by (auto split: if_splits option.splits sum.splits)
  have d: "depth + 1 \<le> 1025" using n(1) by (simp add: depth_exceeded_def)
  obtain l where l: "mst_rep P car (node_left node) l" "depth + 1 + height l \<le> 1025" "\<forall>x \<in> set (leaves l). wf_car_find_block car (snd x) \<noteq> None"
  proof (cases "node_left node = []")
    case True
    then show thesis using that [of MNil] d by simp
  next
    case False
    then show thesis using "1.IH"(1) [OF n(1,2,3) False] n(4) that by auto
  qed
  obtain ts where ts: "list_all2 (entry_rep (mst_rep P car)) (node_entries node) ts"
    "\<forall>k v s. (k, v, s) \<in> set ts \<longrightarrow> depth + 1 + height s \<le> 1025" "\<forall>x \<in> set (ent_leaves ts). wf_car_find_block car (snd x) \<noteq> None"
    using "1.IH"(2) [OF n(1,2,3) _ n(5) d] n(4) by (cases "node_left node = []") auto
  have "mst_rep P car cid (MNode l ts)" using "1.prems"(2) n(2,3) l(1) ts(1) by (auto simp: mst_rep_Node_iff)
  moreover have "height (MNode l ts) \<le> Suc (1025 - (depth + 1))"
  proof (rule height_le)
    show "height l \<le> 1025 - (depth + 1)" using l(2) by linarith
    show "height s \<le> 1025 - (depth + 1)" if "(k, v, s) \<in> set ts" for k v s
    proof -
      have "depth + 1 + height s \<le> 1025" using ts(2) that by blast
      then show ?thesis by linarith
    qed
  qed
  then have "depth + height (MNode l ts) \<le> 1025" using d by linarith
  ultimately show ?case using l(3) ts(3) by (intro exI [of _ "MNode l ts"]) auto
next
  case (3 P car e es depth)
  from "3.prems"(1) have e: "wf_car_find_block car (ent_value e) \<noteq> None"
    "ent_subtree e = [] \<or> verify_mst_links P car (ent_subtree e) depth = Inr ()" "verify_entries P car es depth = Inr ()"
    by (auto split: if_splits option.splits sum.splits)
  obtain s where s: "mst_rep P car (ent_subtree e) s" "depth + height s \<le> 1025" "\<forall>x \<in> set (leaves s). wf_car_find_block car (snd x) \<noteq> None"
  proof (cases "ent_subtree e = []")
    case True
    then show thesis using that [of MNil] "3.prems"(2) by simp
  next
    case False
    then show thesis using "3.IH"(1) e that by blast
  qed
  obtain ts where ts: "list_all2 (entry_rep (mst_rep P car)) es ts" "\<forall>k v s. (k, v, s) \<in> set ts \<longrightarrow> depth + height s \<le> 1025"
    "\<forall>x \<in> set (ent_leaves ts). wf_car_find_block car (snd x) \<noteq> None"
    using "3.IH"(2) e "3.prems"(2) by (cases "ent_subtree e = []") auto
  show ?case
    by (rule exI [of _ "(ent_key e, ent_value e, s) # ts"]) (use s ts e(1) in auto)
qed simp

text \<open>Conversely, the links of a represented tree are accepted.\<close>

lemma links_complete:
  "mst_rep P car c t \<Longrightarrow> c \<noteq> [] \<Longrightarrow> room car depth t \<Longrightarrow> \<forall>x \<in> set (leaves t). wf_car_find_block car (snd x) \<noteq> None \<Longrightarrow>
     verify_mst_links P car c depth = Inr ()"
proof (induction t arbitrary: c depth)
  case (MNode l es)
  from MNode.prems(1) obtain b node where n: "wf_car_find_block car c = Some b" "wf_mst_node_parse P (blk_data b) c = Inr node"
    "mst_rep P car (node_left node) l" "list_all2 (entry_rep (mst_rep P car)) (node_entries node) es" by (rule mst_rep_NodeD)
  have left: "node_left node = [] \<or> verify_mst_links P car (node_left node) (depth + 1) = Inr ()"
    using MNode.IH(1) [OF n(3)] room_left [OF MNode.prems(3)] MNode.prems(4) by auto
  have "verify_entries P car ents (depth + 1) = Inr ()"
    if "list_all2 (entry_rep (mst_rep P car)) ents ts" "set ts \<subseteq> set es" for ents ts
    using that
  proof (induction rule: list_all2_induct)
    case (Cons e ents kvs ts)
    obtain k v s where kvs: "kvs = (k, v, s)" "(k, v, s) \<in> set es" using Cons.prems by (cases kvs) auto
    have sub: "ent_subtree e = [] \<or> verify_mst_links P car (ent_subtree e) (depth + 1) = Inr ()"
      using MNode.IH(2) [of "(k, v, s)" "(v, s)" s "ent_subtree e" "depth + 1"] kvs Cons.hyps(1)
        room_sub [OF MNode.prems(3) kvs(2)] MNode.prems(4) set_leaves_sub [OF kvs(2)] by auto
    have "(k, v) \<in> set (ent_leaves es)" using kvs(2) by (force simp: set_ent_leaves)
    then have "wf_car_find_block car v \<noteq> None" using MNode.prems(4) by (metis Un_iff leaves_Node set_append snd_conv)
    then obtain b where "wf_car_find_block car (ent_value e) = Some b" using Cons.hyps(1) kvs(1) by auto
    then show ?case using sub Cons.IH Cons.prems by auto
  qed simp
  from this [OF n(4) order_refl] show ?case
    using n(1,2) left room_guard [OF MNode.prems(3)] by (auto simp: verify_mst_links.simps [of P car c depth])
qed simp

section \<open>Accepted repositories\<close>

lemma unsigned_ignores_cid [simp]: "commit_unsigned_bytes (commit\<lparr>cm_cid := c\<rparr>) = commit_unsigned_bytes commit"
  by (simp add: commit_unsigned_bytes_def)

lemma commit_block_parsed: "verify_commit_block P options root = Inr commit \<Longrightarrow> wf_commit_parse P (blk_data root) = Inr commit"
  by (auto simp: verify_commit_block_def split: sum.splits if_splits option.splits wf_cbor_item.splits)

lemma commit_block_fields:
  assumes "verify_commit_block P options root = Inr commit"
  shows "cm_version commit = 3" "length (cm_sig commit) = 64" "c_str (cm_did commit) = c_str (vo_expected_did options)" "cm_cid commit = []"
    "length (cm_data commit) = 36"
proof -
  show "cm_version commit = 3" "length (cm_sig commit) = 64" "c_str (cm_did commit) = c_str (vo_expected_did options)"
    using assms by (auto simp: verify_commit_block_def split: sum.splits if_splits option.splits wf_cbor_item.splits)
  note p = commit_block_parsed [OF assms]
  show "cm_cid commit = []" using p by (rule commit_parse_fields) simp
  show "length (cm_data commit) = 36" by (rule commit_data_length [OF p])
qed

lemma verify_cases:
  assumes "wf_repo_verify P E car options = Inr commit"
  obtains root commit0 u where
    "c_str (vo_expected_did options) \<noteq> []" "vo_signing_key options \<noteq> []"
    "car_roots car = [cm_cid commit]" "length (cm_cid commit) = 36" "repo_car_validate_blocks P car = Inr ()"
    "wf_car_find_block car (cm_cid commit) = Some root" "verify_commit_block P options root = Inr commit0"
    "commit = commit0\<lparr>cm_cid := cm_cid commit\<rparr>"
    "commit_unsigned_bytes commit = Inr u" "wf_verify P E (vo_signing_key options) u (cm_sig commit) = Inr ()"
    "verify_mst_links P car (cm_data commit) 0 = Inr ()"
proof -
  from assms obtain r where r: "c_str (vo_expected_did options) \<noteq> []" "vo_signing_key options \<noteq> []" "car_roots car = [r]" "length r = 36"
    by (auto simp: wf_repo_verify_def split: if_splits list.splits)
  from assms r obtain root commit0 u where v: "repo_car_validate_blocks P car = Inr ()" "wf_car_find_block car r = Some root"
    "verify_commit_block P options root = Inr commit0" "commit_unsigned_bytes commit0 = Inr u"
    "wf_verify P E (vo_signing_key options) u (cm_sig commit0) = Inr ()" "verify_mst_links P car (cm_data commit0) 0 = Inr ()"
    "commit = commit0\<lparr>cm_cid := r\<rparr>"
    by (auto simp: wf_repo_verify_def split: sum.splits option.splits)
  show thesis by (rule that [of root commit0 u]) (use r v in simp_all)
qed

lemma verify_intro:
  assumes "c_str (vo_expected_did options) \<noteq> []" "vo_signing_key options \<noteq> []" "car_roots car = [r]" "length r = 36"
    "repo_car_validate_blocks P car = Inr ()" "wf_car_find_block car r = Some root" "verify_commit_block P options root = Inr commit"
    "commit_unsigned_bytes commit = Inr u" "wf_verify P E (vo_signing_key options) u (cm_sig commit) = Inr ()"
    "verify_mst_links P car (cm_data commit) 0 = Inr ()"
  shows "wf_repo_verify P E car options = Inr (commit\<lparr>cm_cid := r\<rparr>)"
  using assms by (simp add: wf_repo_verify_def)

text \<open>The tree of an accepted repository can be read completely.\<close>

lemma verified_tree:
  assumes "verify_mst_links P car c 0 = Inr ()" "c \<noteq> []"
  obtains ls where "wf_mst_list P car c = Inr ls" "\<forall>x \<in> set ls. wf_car_find_block car (snd x) \<noteq> None"
proof -
  from links_sound(1) [OF assms] obtain t where t: "mst_rep P car c t" "height t \<le> 1025"
    "\<forall>x \<in> set (leaves t). wf_car_find_block car (snd x) \<noteq> None" by auto
  have "wf_mst_list P car c = Inr (leaves t)"
    using mst_collect_rep [OF t(1) assms(2) t(2), of None] assms(2) by (simp add: wf_mst_list_def split_beta)
  then show thesis using that t(3) by blast
qed

section \<open>What the writers keep of the blocks\<close>

text \<open>A node is written as a map of two pairs, so its bytes are never those of a commit, which has more fields: what
  the parser accepts starts with the head of the map it returns.\<close>

lemma from_libcbor_definite:
  "wf_cbor_from_libcbor P d c = Some i \<Longrightarrow> cbor_definite c"
  "from_libcbor_items P d cs = Some is \<Longrightarrow> list_all cbor_definite cs"
  "from_libcbor_pairs P d prev ps = Some qs \<Longrightarrow> list_all (\<lambda>(k, v). cbor_definite k \<and> cbor_definite v) ps \<and> length qs = length ps"
proof (induction P d c and P d cs and P d prev ps arbitrary: i and "is" and qs
    rule: wf_cbor_from_libcbor_from_libcbor_items_from_libcbor_pairs.induct)
  case (1 P d source)
  show ?case using "1.prems" "1.IH" unfolding wf_cbor_from_libcbor.simps [of P d source]
    by (auto split: if_splits cbor_item.splits)
next
  case (5 P d prev k v ps)
  then show ?case by (fastforce split: if_splits option.splits)
qed (auto split: option.splits)

lemma parsed_map_head:
  assumes "platform_laws P" "wf_cbor_parse P d = Some (WF_CBOR_MAP pairs)"
  shows "\<exists>rest. d = rfc_head 5 (length pairs) @ rest"
proof -
  from assms(2) obtain c where c: "cbor_load P d = Some (c, length d)" "cbor_serialize_alloc P c = Some d"
    "wf_cbor_from_libcbor P 0 c = Some (WF_CBOR_MAP pairs)" by (auto simp: wf_cbor_parse_def split: if_splits option.splits)
  have "d = rfc_enc c"
    using platform_laws.serialize_encoded [OF assms(1) platform_laws.load_sized [OF assms(1) c(1)] from_libcbor_definite(1) [OF c(3)]] c(2) by simp
  moreover obtain ps where "c = CBOR_TYPE_MAP True ps" "from_libcbor_pairs P 1 None ps = Some pairs"
    using c(3) unfolding wf_cbor_from_libcbor.simps [of P 0 c] by (auto split: if_splits cbor_item.splits cbor_ctrl.splits)
  ultimately show ?thesis using from_libcbor_definite(3) by fastforce
qed

lemma rfc_head_two: "rfc_head 5 n @ xs = 0xa2 # rest \<Longrightarrow> n = 2"
proof -
  assume a: "rfc_head 5 n @ xs = 0xa2 # rest"
  have "of_nat (160 + n) = (0xa2 :: byte) \<Longrightarrow> n < 24 \<Longrightarrow> n = 2"
    by (drule arg_cong [where f = unat]) (simp add: unat_of_nat del: of_nat_add)
  then show "n = 2" using a by (auto simp: rfc_head_def simp del: of_nat_add split: if_splits)
qed

lemma node_item_head: "wf_cbor_serialize (mst_node_item l es) = Some d \<Longrightarrow> \<exists>rest. d = 0xa2 # rest"
  by (auto simp: wf_cbor_serialize_def Let_def mst_node_item_def wf_cbor_ser_write_uint_def split: if_splits)

lemma two_pairs_find:
  assumes "length pairs = 2" "map_find_loop pairs a \<noteq> None" "map_find_loop pairs b \<noteq> None" "map_find_loop pairs c \<noteq> None" "distinct [a, b, c]"
  shows False
proof -
  obtain p q where "pairs = [p, q]" using assms(1) by (auto simp: length_Suc_conv numeral_2_eq_2)
  then have "WF_CBOR_STRING x \<in> {fst p, fst q}" if "map_find_loop pairs x \<noteq> None" for x
    using that map_find_loop_mem [of pairs x] by force
  from this [OF assms(2)] this [OF assms(3)] this [OF assms(4)] show False
    using assms(5) by (auto simp: wf_cbor_item.inject dest: sym)
qed

lemma node_no_commit:
  assumes "platform_laws P" "wf_cbor_serialize (mst_node_item l es) = Some d"
  shows "wf_commit_parse P d \<noteq> Inr commit"
proof
  assume "wf_commit_parse P d = Inr commit"
  then obtain pairs where p: "wf_cbor_parse P d = Some (WF_CBOR_MAP pairs)"
    "map_find_loop pairs (ascii ''did'') \<noteq> None" "map_find_loop pairs (ascii ''rev'') \<noteq> None" "map_find_loop pairs (ascii ''data'') \<noteq> None"
    by (auto simp: wf_commit_parse_def Let_def wf_cbor_map_find_def commit_string_def commit_link_def split: if_splits option.splits wf_cbor_item.splits)
  obtain rest where "rfc_head 5 (length pairs) @ rest = d" using parsed_map_head [OF assms(1) p(1)] by auto
  moreover obtain rest' where "d = 0xa2 # rest'" using node_item_head [OF assms(2)] by auto
  ultimately have "length pairs = 2" using rfc_head_two by metis
  from two_pairs_find [OF this p(2-4)] show False by (simp add: ascii_def)
qed

text \<open>The operations on the tree append only nodes, each under the CID of its bytes and only when the CAR has no block
  of that CID yet.\<close>

definition adds_nodes :: "platform \<Rightarrow> wf_car \<Rightarrow> wf_car \<Rightarrow> bool" where
  "adds_nodes P car car' \<longleftrightarrow> (blocks_ok P (car_blocks car) \<longrightarrow> blocks_ok P (car_blocks car')) \<and>
     (\<forall>b \<in> set (car_blocks car') - set (car_blocks car). \<exists>l es. wf_cbor_serialize (mst_node_item l es) = Some (blk_data b))"

lemma blocks_ok_append:
  "blocks_ok P (bs @ [b]) \<longleftrightarrow> blocks_ok P bs \<and> block_ok P b \<and> blk_cid b \<notin> blk_cid ` set bs"
  by (auto simp: blocks_ok_def)

lemma find_block_None: "wf_car_find_block car c = None \<Longrightarrow> c \<notin> blk_cid ` set (car_blocks car)"
  by (auto simp: wf_car_find_block_eq find_None_iff)

interpretation nodes: car_step adds_nodes
proof
  fix P car node
  show "adds_nodes P car (fst (mst_store_node P node car))"
    by (auto simp: adds_nodes_def mst_store_node_def blocks_ok_append block_ok_def dest: find_block_None split: option.splits sum.splits) blast
qed (auto simp: adds_nodes_def)

lemma put_block_ok: 
  assumes "wf_cid_of_block P d = Inr c" "blocks_ok P (car_blocks car)"
  shows "blocks_ok P (car_blocks (repo_put_block car c d))"
  using assms by (auto simp: repo_put_block_def blocks_ok_append block_ok_def dest: find_block_None split: option.splits)

lemma put_block_data: "blk_data ` set (car_blocks (repo_put_block car c d)) \<subseteq> insert d (blk_data ` set (car_blocks car))"
  by (auto simp: repo_put_block_def split: option.splits)

text \<open>A commit is appended without that test. It is a new block when its revision is new: no block of the CAR is a
  commit with the revision that the clock gives next.\<close>

definition new_rev :: "repo_env \<Rightarrow> tid_clock \<Rightarrow> bytes \<Rightarrow> bool" where
  "new_rev env clock d \<longleftrightarrow> (\<forall>commit. wf_commit_parse (env_plat env) d = Inr commit \<longrightarrow>
     cm_rev commit \<noteq> c_str (snd (wf_tid_now (env_now env) (env_rand env) clock)))"

context repo_writer
begin

lemma commit_blocks_ok:
  assumes "cid_ok root" "blocks_ok (env_plat env) (car_blocks car)" "\<forall>b \<in> set (car_blocks car). new_rev env clock (blk_data b)"
    "repo_commit env did root prev key (car, clock) = ((car', clock'), y)" "one_content car'"
  shows "blocks_ok (env_plat env) (car_blocks car')"
proof -
  obtain clock1 rv where tid: "wf_tid_now (env_now env) (env_rand env) clock = (clock1, rv)" by fastforce
  have rv: "text_ok (env_plat env) rv" using platform_laws.text_ok_ascii [OF plat tid_now_text(2) [OF tid]] .
  obtain x where cr: "wf_commit_create (env_plat env) (env_ec env) did rv root prev key car = (car', x)"
    using assms(4) by (auto simp: repo_commit_def tid split: prod.splits sum.splits)
  show ?thesis
  proof (cases x)
    case (Inl e)
    then have "car' = car" using cr by (auto simp: wf_commit_create_def Let_def split: if_splits option.splits sum.splits)
    then show ?thesis using assms(2) by simp
  next
    case (Inr commit)
    note cr = cr [unfolded Inr]
    have rev: "cm_rev commit = c_str rv" by (rule commit_create_cases [OF cr]) (metis wf_commit.select_convs(4))
    obtain stored where c: "car_blocks car' = car_blocks car @ [\<lparr>blk_cid = cm_cid commit, blk_data = stored\<rparr>]"
      "wf_cid_of_block (env_plat env) stored = Inr (cm_cid commit)" "wf_commit_parse (env_plat env) stored = Inr (commit\<lparr>cm_cid := []\<rparr>)"
      by (rule commit_created [OF plat ec did_text(1) rv assms(1) public_key cr]) simp
    have "blk_cid b \<noteq> cm_cid commit" if b: "b \<in> set (car_blocks car)" for b
    proof
      assume "blk_cid b = cm_cid commit"
      moreover have "b \<in> set (car_blocks car')" "\<lparr>blk_cid = cm_cid commit, blk_data = stored\<rparr> \<in> set (car_blocks car')"
        using b by (simp_all add: c(1))
      ultimately have "blk_data b = stored"
        using assms(5) unfolding one_content_def by (metis wf_car_block.select_convs)
      moreover have "new_rev env clock (blk_data b)" using assms(3) b by blast
      ultimately show False using c(3) rev by (simp add: new_rev_def tid)
    qed
    then have "cm_cid commit \<notin> blk_cid ` set (car_blocks car)" by (metis imageE)
    then show ?thesis using assms(2) c(1,2) by (simp add: blocks_ok_append block_ok_def)
  qed
qed

lemma create_record_blocks_ok:
  assumes "head_holds (env_plat env) L car head ls" "record_cbor \<noteq> []" "wf_mst_key_is_valid (repo_mst_key coll rkey)"
    "(repo_mst_key coll rkey, record_cid (env_plat env) record_cbor) \<in> L" "Suc (length ls) < 2 ^ 64"
    "blocks_ok (env_plat env) (car_blocks car)" "\<forall>d \<in> insert record_cbor (blk_data ` set (car_blocks car)). new_rev env clock d"
    "wf_repo_create_record 1026 env head did coll rkey record_cbor key (car, clock) = Some ((car', clock'), res)"
    "collision_free (env_plat env) car' L" "one_content car'"
  shows "blocks_ok (env_plat env) (car_blocks car')"
proof -
  let ?P = "env_plat env" and ?k = "repo_mst_key coll rkey"
  let ?c = "record_cid ?P record_cbor"
  let ?car = "repo_put_block car ?c record_cbor"
  from head_holds_ext [OF assms(1) put_block_ext] obtain root where
    root: "repo_head_root ?P ?car head = Inr root" "refines ?P L ?car root ls" by (auto simp: head_holds_def root_holds_def)
  from platform_laws.add_refines [OF plat root(2) assms(3) platform_laws.record_cid_ok [OF plat] assms(4,5)] obtain car1 x where
    r: "wf_mst_add 1026 ?P ?car root ?k ?c = Some (car1, x)" "yields ?P L (car1, x) (\<lambda>car root. refines ?P L car root (ins_leaf ?k ?c ls))"
    by auto
  have nodes: "adds_nodes ?P ?car car1" using nodes.step_add_some [OF r(1)] by simp
  have ok: "blocks_ok ?P (car_blocks car1)"
    using nodes put_block_ok [OF cid_of_block_record [OF assms(2)] assms(6)] by (simp add: adds_nodes_def)
  have new: "new_rev env clock (blk_data b)" if b: "b \<in> set (car_blocks car1)" for b
  proof (cases "b \<in> set (car_blocks ?car)")
    case True
    then show ?thesis using put_block_data [of car ?c record_cbor] assms(7) by blast
  next
    case False
    then obtain l es where "wf_cbor_serialize (mst_node_item l es) = Some (blk_data b)"
      using b bspec [OF conjunct2 [OF nodes [unfolded adds_nodes_def]], of b] by auto
    from node_no_commit [OF plat this] show ?thesis by (simp add: new_rev_def)
  qed
  have run: "then_commit (Some (car1, x)) clock (\<lambda>car root. case repo_commit env did root head key (car, clock) of
      (st, Inl s) \<Rightarrow> (st, Inl s) | (st, Inr c) \<Rightarrow> (st, Inr (c, ?c))) = Some ((car', clock'), res)"
    using root(1) r(1) assms(2,8) by (simp add: wf_repo_create_record_def Let_def)
  show ?thesis
  proof (cases x)
    case (Inl e)
    then show ?thesis using run ok by (auto simp: then_commit_def)
  next
    case (Inr new_root)
    then obtain y where commit: "repo_commit env did new_root head key (car1, clock) = ((car', clock'), y)"
      using run by (auto simp: then_commit_def split: prod.splits sum.splits)
    have "car_ext car1 car'" using ext_commit [of car1 new_root head clock] commit by simp
    then have "refines ?P L car1 new_root (ins_leaf ?k ?c ls)" using r(2) Inr collision_free_ext [OF assms(9)] by simp
    then have "cid_ok new_root"
      using platform_laws.refines_root_ok [OF plat] platform_laws.refines_root_empty [OF plat] ins_leaf_nonempty by metis
    then show ?thesis using commit_blocks_ok [OF _ ok _ commit assms(10)] new by blast
  qed
qed

end

end
