(* ===== verification/Diff_Ops.thy ===== *)
theory Diff_Ops
  imports Diff
begin

text \<open>
  The record operations of a difference: their effect on the map of records, that the merge of two sorted
  leaf lists yields exactly the operations that lead from one to the other, and that inverting them
  leads back.
\<close>

section \<open>Keys and operations\<close>

definition ro_key :: "wf_repo_operation \<Rightarrow> bytes" where
  "ro_key op = ro_collection op @ 0x2f # ro_rkey op"

text \<open>What an operation says of its key: the record before and after it.\<close>

definition ro_before :: "wf_repo_operation \<Rightarrow> wf_cid option" where
  "ro_before op = (case ro_action op of WF_REPO_CREATE \<Rightarrow> None | WF_REPO_UPDATE \<Rightarrow> Some (ro_prev op) | WF_REPO_DELETE \<Rightarrow> Some (ro_cid op))"

definition ro_after :: "wf_repo_operation \<Rightarrow> wf_cid option" where
  "ro_after op = (case ro_action op of WF_REPO_CREATE \<Rightarrow> Some (ro_cid op) | WF_REPO_UPDATE \<Rightarrow> Some (ro_cid op) | WF_REPO_DELETE \<Rightarrow> None)"

definition apply_op :: "(bytes \<rightharpoonup> wf_cid) \<Rightarrow> wf_repo_operation \<Rightarrow> (bytes \<rightharpoonup> wf_cid)" where
  "apply_op m op = m(ro_key op := ro_after op)"

definition apply_ops :: "(bytes \<rightharpoonup> wf_cid) \<Rightarrow> wf_repo_operation list \<Rightarrow> (bytes \<rightharpoonup> wf_cid)" where
  "apply_ops m ops = foldl apply_op m ops"

lemma apply_ops_other: "k \<notin> ro_key ` set ops \<Longrightarrow> apply_ops m ops k = m k"
  unfolding apply_ops_def by (induction ops arbitrary: m) (auto simp: apply_op_def)

lemma apply_ops_at:
  "distinct (map ro_key ops) \<Longrightarrow> op \<in> set ops \<Longrightarrow> apply_ops m ops (ro_key op) = ro_after op"
proof (induction ops arbitrary: m)
  case (Cons x xs)
  have step: "apply_ops m (x # xs) = apply_ops (apply_op m x) xs" by (simp add: apply_ops_def)
  show ?case
  proof (cases "op \<in> set xs")
    case True
    then show ?thesis using Cons by (simp add: step)
  next
    case False
    then have "op = x" "ro_key x \<notin> ro_key ` set xs" using Cons.prems by auto
    then show ?thesis by (simp add: step apply_ops_other) (simp add: apply_op_def)
  qed
qed simp

text \<open>Operations are exact between two maps when they state the records of both, and all differences.\<close>

definition ops_exact :: "(bytes \<rightharpoonup> wf_cid) \<Rightarrow> (bytes \<rightharpoonup> wf_cid) \<Rightarrow> wf_repo_operation list \<Rightarrow> bool" where
  "ops_exact m m' ops \<longleftrightarrow> distinct (map ro_key ops) \<and>
     (\<forall>op \<in> set ops. m (ro_key op) = ro_before op \<and> m' (ro_key op) = ro_after op \<and> ro_before op \<noteq> ro_after op) \<and>
     (\<forall>k. k \<notin> ro_key ` set ops \<longrightarrow> m k = m' k)"

lemma exact_apply: "ops_exact m m' ops \<Longrightarrow> apply_ops m ops = m'"
proof
  fix k assume e: "ops_exact m m' ops"
  show "apply_ops m ops k = m' k"
  proof (cases "k \<in> ro_key ` set ops")
    case True
    then obtain op where "op \<in> set ops" "k = ro_key op" by blast
    then show ?thesis using e apply_ops_at [of ops op m] by (simp add: ops_exact_def)
  qed (use e in \<open>simp add: apply_ops_other ops_exact_def\<close>)
qed

section \<open>Operations from leaves\<close>

lemma from_leaf_Inr:
  assumes "repo_operation_from_leaf action leaf = Inr op"
  shows "ro_key op = fst leaf" "ro_action op = action" "ro_cid op = snd leaf" "ro_prev op = []" "ro_collection op \<noteq> []" "ro_rkey op \<noteq> []"
proof -
  let ?c = "takeWhile (\<lambda>b. b \<noteq> 0x2f) (fst leaf)"
  from assms have op: "op = \<lparr>ro_action = action, ro_collection = ?c, ro_rkey = drop (Suc (length ?c)) (fst leaf), ro_cid = snd leaf, ro_prev = []\<rparr>"
    "?c \<noteq> []" "drop (Suc (length ?c)) (fst leaf) \<noteq> []"
    by (auto simp: repo_operation_from_leaf_def Let_def split: if_splits)
  have lt: "length ?c < length (fst leaf)" using op(3) by (metis Suc_lessD drop_all not_less)
  then have "fst leaf ! length ?c = 0x2f" using nth_length_takeWhile [OF lt] by simp
  then have "?c @ 0x2f # drop (Suc (length ?c)) (fst leaf) = fst leaf"
    using takeWhile_eq_take [of "\<lambda>b. b \<noteq> 0x2f" "fst leaf"] lt by (metis Cons_nth_drop_Suc append_take_drop_id)
  then show "ro_key op = fst leaf" by (simp add: op(1) ro_key_def)
qed (use assms in \<open>auto simp: repo_operation_from_leaf_def Let_def split: if_splits\<close>)

lemma slash_loop_Some: "key_slash_loop i (Some j) cs = (if 47 \<in> set cs then None else Some j)"
  by (induction cs arbitrary: i) auto

lemma slash_loop_None: "key_slash_loop i None cs = Some n \<Longrightarrow> \<exists>a b. cs = a @ 47 # b \<and> 47 \<notin> set a \<and> 47 \<notin> set b \<and> n = i + length a"
proof (induction cs arbitrary: i)
  case (Cons c cs)
  show ?case
  proof (cases "c = 47")
    case True
    then show ?thesis using Cons.prems by (intro exI [of _ "[]"] exI [of _ cs]) (auto simp: slash_loop_Some split: if_splits)
  next
    case False
    with Cons.prems Cons.IH [of "i + 1"] obtain a b where "cs = a @ 47 # b" "47 \<notin> set a" "47 \<notin> set b" "n = i + 1 + length a" by auto
    then show ?thesis using False by (intro exI [of _ "c # a"] exI [of _ b]) auto
  qed
qed simp

lemma valid_key_parts:
  assumes "wf_mst_key_is_valid k"
  obtains a b where "k = a @ 47 # b" "47 \<notin> set a" "47 \<notin> set b" "a \<noteq> []" "b \<noteq> []" "0 \<notin> set k"
proof -
  from assms obtain n where n: "key_slash_loop 0 None k = Some n" "n \<noteq> 0" "n \<noteq> length k - 1"
    "\<forall>i < length k. i = n \<or> key_char_ok (k ! i)"
    by (auto simp: wf_mst_key_is_valid_def list_all_iff split: if_splits option.splits)
  then obtain a b where ab: "k = a @ 47 # b" "47 \<notin> set a" "47 \<notin> set b" "n = length a" using slash_loop_None [OF n(1)] by auto
  have "k ! i \<noteq> 0" if "i < length k" for i
  proof (cases "i = n")
    case True
    then show ?thesis by (simp add: ab)
  next
    case False
    then have "key_char_ok (k ! i)" using n(4) that by blast
    then show ?thesis by (auto simp: key_char_ok_def)
  qed
  then have "0 \<notin> set k" by (auto simp: in_set_conv_nth)
  then show thesis using that ab n(2,3) by auto
qed

lemma from_leaf_valid:
  assumes "wf_mst_key_is_valid (fst leaf)"
  shows "\<exists>op. repo_operation_from_leaf action leaf = Inr op"
proof -
  obtain a b where k: "fst leaf = a @ 47 # b" "47 \<notin> set a" "47 \<notin> set b" "a \<noteq> []" "b \<noteq> []" "0 \<notin> set (fst leaf)"
    by (rule valid_key_parts [OF assms])
  have "takeWhile (\<lambda>x. x \<noteq> 47) (a @ 47 # b) = a" using k(2) by (subst takeWhile_append2) auto
  then show ?thesis using k by (simp add: repo_operation_from_leaf_def Let_def)
qed

section \<open>The merge\<close>

lemma push_op_Inr: "push_op r rest = Inr ys \<longleftrightarrow> (\<exists>x xs. r = Inr x \<and> rest = Inr xs \<and> ys = x # xs)"
  by (auto simp: push_op_def split: sum.splits)

definition leaf_list :: "repo_leaf list \<Rightarrow> bool" where
  "leaf_list ls \<longleftrightarrow> keys_sorted ls \<and> (\<forall>x \<in> set ls. length (fst x) < 2 ^ 31 \<and> length (snd x) = 36)"

lemma leaf_list_Cons:
  "leaf_list (x # ls) \<longleftrightarrow> leaf_list ls \<and> (\<forall>y \<in> set ls. fst x < fst y) \<and> length (fst x) < 2 ^ 31 \<and> length (snd x) = 36"
  by (auto simp: leaf_list_def)

lemma map_of_lower: "leaf_list ls \<Longrightarrow> (\<forall>y \<in> set ls. k < fst y) \<Longrightarrow> map_of ls k = None"
  by (auto simp: map_of_eq_None_iff)

text \<open>An operation on the smallest key in front of an exact list for the rest.\<close>

lemma exact_Cons:
  assumes "ops_exact m m' ops" "m (ro_key op) = None" "m' (ro_key op) = None" "ro_before op \<noteq> ro_after op"
  shows "ops_exact (m(ro_key op := ro_before op)) (m'(ro_key op := ro_after op)) (op # ops)"
proof -
  have other: "ro_key op \<notin> ro_key ` set ops"
  proof
    assume "ro_key op \<in> ro_key ` set ops"
    then obtain x where "x \<in> set ops" "ro_key x = ro_key op" by auto
    then have "ro_before x = None" "ro_after x = None" using assms(1-3) by (auto simp: ops_exact_def)
    then show False by (auto simp: ro_before_def ro_after_def split: wf_repo_operation_action.splits)
  qed
  moreover from this have "ro_key x \<noteq> ro_key op" if "x \<in> set ops" for x using that by (metis imageI)
  ultimately show ?thesis using assms(1,4) unfolding ops_exact_def by auto
qed

lemma map_of_Cons_upd: "map_of (x # ls) = (map_of ls)(fst x := Some (snd x))"
  by (cases x) auto

lemma exact_create:
  assumes "ops_exact m (map_of cs) ops" "m (fst c) = None" "map_of cs (fst c) = None" "repo_operation_from_leaf WF_REPO_CREATE c = Inr op"
  shows "ops_exact m (map_of (c # cs)) (op # ops)"
proof -
  note f = from_leaf_Inr [OF assms(4)]
  have "ro_before op = None" "ro_after op = Some (snd c)" using f by (simp_all add: ro_before_def ro_after_def)
  with exact_Cons [OF assms(1), of op] assms(2,3) f(1) show ?thesis unfolding map_of_Cons_upd [of c] by (simp add: fun_upd_idem)
qed

lemma exact_delete:
  assumes "ops_exact (map_of ps) m ops" "map_of ps (fst p) = None" "m (fst p) = None" "repo_operation_from_leaf WF_REPO_DELETE p = Inr op"
  shows "ops_exact (map_of (p # ps)) m (op # ops)"
proof -
  note f = from_leaf_Inr [OF assms(4)]
  have "ro_before op = Some (snd p)" "ro_after op = None" using f by (simp_all add: ro_before_def ro_after_def)
  with exact_Cons [OF assms(1), of op] assms(2,3) f(1) show ?thesis unfolding map_of_Cons_upd [of p] by (simp add: fun_upd_idem)
qed

lemma exact_update:
  assumes "ops_exact (map_of ps) (map_of cs) ops" "map_of ps (fst c) = None" "map_of cs (fst c) = None" "fst p = fst c" "snd p \<noteq> snd c"
    "repo_operation_from_leaf WF_REPO_UPDATE c = Inr op"
  shows "ops_exact (map_of (p # ps)) (map_of (c # cs)) (op\<lparr>ro_prev := snd p\<rparr> # ops)"
proof -
  note f = from_leaf_Inr [OF assms(6)]
  let ?op = "op\<lparr>ro_prev := snd p\<rparr>"
  have "ro_before ?op = Some (snd p)" "ro_after ?op = Some (snd c)" "ro_key ?op = fst c"
    using f by (simp_all add: ro_before_def ro_after_def ro_key_def)
  with exact_Cons [OF assms(1), of ?op] assms(2-5) show ?thesis unfolding map_of_Cons_upd [of p] map_of_Cons_upd [of c] by simp
qed

lemma exact_same:
  assumes "ops_exact (map_of ps) (map_of cs) ops" "map_of ps (fst c) = None" "map_of cs (fst c) = None" "p = c"
  shows "ops_exact (map_of (p # ps)) (map_of (c # cs)) ops"
proof -
  have "ro_key x \<noteq> fst c" if "x \<in> set ops" for x
  proof
    assume "ro_key x = fst c"
    then have "ro_before x = None" "ro_after x = None" using assms(1-3) that by (auto simp: ops_exact_def)
    then show False by (auto simp: ro_before_def ro_after_def split: wf_repo_operation_action.splits)
  qed
  then show ?thesis using assms(1) unfolding map_of_Cons_upd [of p] map_of_Cons_upd [of c] by (auto simp: ops_exact_def assms(4))
qed

lemma diff_exact:
  "leaf_list ps \<Longrightarrow> leaf_list cs \<Longrightarrow> repo_diff_operations ps cs = Inr ops \<Longrightarrow> ops_exact (map_of ps) (map_of cs) ops"
proof (induction ps cs arbitrary: ops rule: repo_diff_operations.induct)
  case 1
  then show ?case by (simp add: ops_exact_def)
next
  case (2 c cs)
  then obtain op rest where op: "repo_operation_from_leaf WF_REPO_CREATE c = Inr op" "repo_diff_operations [] cs = Inr rest" "ops = op # rest"
    by (auto simp: push_op_Inr)
  have ll: "leaf_list cs" "\<forall>y \<in> set cs. fst c < fst y" using "2.prems"(2) by (auto simp: leaf_list_Cons)
  show ?case unfolding op(3) by (rule exact_create [OF "2.IH" [OF "2.prems"(1) ll(1) op(2)] _ map_of_lower [OF ll] op(1)]) simp
next
  case (3 p ps)
  then obtain op rest where op: "repo_operation_from_leaf WF_REPO_DELETE p = Inr op" "repo_diff_operations ps [] = Inr rest" "ops = op # rest"
    by (auto simp: push_op_Inr)
  have ll: "leaf_list ps" "\<forall>y \<in> set ps. fst p < fst y" using "3.prems"(1) by (auto simp: leaf_list_Cons)
  show ?case unfolding op(3) by (rule exact_delete [OF "3.IH" [OF ll(1) "3.prems"(2) op(2)] map_of_lower [OF ll] _ op(1)]) simp
next
  case (4 p ps c cs)
  have ll: "leaf_list ps" "leaf_list cs" "\<forall>y \<in> set ps. fst p < fst y" "\<forall>y \<in> set cs. fst c < fst y" "length (fst p) < 2 ^ 31" "length (fst c) < 2 ^ 31"
    using "4.prems"(1,2) by (auto simp: leaf_list_Cons)
  note cmp = key_cmp_order [OF ll(5,6)]
  have none: "map_of ps (fst p) = None" "map_of cs (fst c) = None" using ll map_of_lower by auto
  consider "fst p < fst c" | "fst c < fst p" | "fst p = fst c" by fastforce
  then show ?case
  proof cases
    case 1
    then obtain op rest where op: "repo_operation_from_leaf WF_REPO_DELETE p = Inr op" "repo_diff_operations ps (c # cs) = Inr rest" "ops = op # rest"
      using "4.prems"(3) cmp by (auto simp: push_op_Inr repo_key_cmp_def)
    have "ops_exact (map_of ps) (map_of (c # cs)) rest" by (rule "4.IH"(1)) (use 1 cmp ll "4.prems" op in \<open>auto simp: repo_key_cmp_def\<close>)
    moreover have "map_of (c # cs) (fst p) = None" using 1 ll(4) by (intro map_of_lower "4.prems"(2)) auto
    ultimately show ?thesis unfolding op(3) using none(1) op(1) by (intro exact_delete)
  next
    case 2
    then obtain op rest where op: "repo_operation_from_leaf WF_REPO_CREATE c = Inr op" "repo_diff_operations (p # ps) cs = Inr rest" "ops = op # rest"
      using "4.prems"(3) cmp by (auto simp: push_op_Inr repo_key_cmp_def)
    have "ops_exact (map_of (p # ps)) (map_of cs) rest" by (rule "4.IH"(2)) (use 2 cmp ll "4.prems" op in \<open>auto simp: repo_key_cmp_def\<close>)
    moreover have "map_of (p # ps) (fst c) = None" using 2 ll(3) by (intro map_of_lower "4.prems"(1)) auto
    ultimately show ?thesis unfolding op(3) using none(2) op(1) by (intro exact_create)
  next
    case 3
    then have eq: "repo_key_cmp (fst p) (fst c) = 0" using cmp by (simp add: repo_key_cmp_def)
    have ne: "snd p \<noteq> []" using "4.prems"(1) by (auto simp: leaf_list_Cons)
    show ?thesis
    proof (cases "snd p = snd c")
      case True
      then have "repo_diff_operations ps cs = Inr ops" using "4.prems"(3) eq ne by simp
      then have "ops_exact (map_of ps) (map_of cs) ops" using "4.IH"(3) [OF refl] eq ll True ne by auto
      then show ?thesis using none 3 True by (intro exact_same) (auto simp: prod_eq_iff)
    next
      case False
      then obtain op rest where op: "repo_operation_from_leaf WF_REPO_UPDATE c = Inr op" "repo_diff_operations ps cs = Inr rest" "ops = op\<lparr>ro_prev := snd p\<rparr> # rest"
        using "4.prems"(3) eq by (auto simp: push_op_Inr split: sum.splits)
      have "ops_exact (map_of ps) (map_of cs) rest" using "4.IH"(4) [OF refl] eq ll False op(2) by auto
      then show ?thesis unfolding op(3) using none 3 False op(1) by (intro exact_update) auto
    qed
  qed
qed

text \<open>With well-formed keys the merge succeeds.\<close>

lemma push_op_ok: "\<exists>x. r = Inr x \<Longrightarrow> \<exists>xs. rest = Inr xs \<Longrightarrow> \<exists>ys. push_op r rest = Inr ys"
  by (auto simp: push_op_Inr)

lemma diff_succeeds:
  "\<forall>x \<in> set ps \<union> set cs. wf_mst_key_is_valid (fst x) \<Longrightarrow> \<exists>ops. repo_diff_operations ps cs = Inr ops"
proof (induction ps cs rule: repo_diff_operations.induct)
  case (4 p ps c cs)
  have u: "\<exists>op. (case repo_operation_from_leaf WF_REPO_UPDATE c of Inl s \<Rightarrow> Inl s | Inr operation \<Rightarrow> Inr (operation\<lparr>ro_prev := snd p\<rparr>)) = Inr op"
    using from_leaf_valid [of c WF_REPO_UPDATE] 4(5) by auto
  consider "repo_key_cmp (fst p) (fst c) < 0" | "0 < repo_key_cmp (fst p) (fst c)" | "repo_key_cmp (fst p) (fst c) = 0" by linarith
  then show ?case
  proof cases
    case 1
    then show ?thesis using "4.IH"(1) "4.prems" from_leaf_valid [of p] by (simp add: push_op_ok)
  next
    case 2
    then show ?thesis using "4.IH"(2) "4.prems" from_leaf_valid [of c] by (simp add: push_op_ok)
  next
    case 3
    then show ?thesis using "4.IH"(3,4) "4.prems" u by (cases "cid_equal (snd p) (snd c)") (simp_all add: push_op_ok)
  qed
qed (simp_all add: push_op_ok from_leaf_valid)

section \<open>Inversion\<close>

definition op_wf :: "wf_repo_operation \<Rightarrow> bool" where
  "op_wf op \<longleftrightarrow> ro_collection op \<noteq> [] \<and> ro_rkey op \<noteq> [] \<and> length (ro_cid op) = 36 \<and>
     (if ro_action op = WF_REPO_UPDATE then length (ro_prev op) = 36 else ro_prev op = [])"

lemma invert_one_ok:
  assumes "op_wf op"
  obtains op' where "invert_one op = Inr op'" "invert_one op' = Inr op" "op_wf op'" "ro_key op' = ro_key op"
    "ro_before op' = ro_after op" "ro_after op' = ro_before op"
  using assms that
  by (cases "ro_action op")
    (auto simp: invert_one_def op_wf_def ro_key_def ro_before_def ro_after_def Let_def)

lemma invert_loop_append: "invert_loop (xs @ ys) =
    (case invert_loop xs of Inl e \<Rightarrow> Inl e | Inr as \<Rightarrow> (case invert_loop ys of Inl e \<Rightarrow> Inl e | Inr bs \<Rightarrow> Inr (as @ bs)))"
  by (induction xs) (auto simp: push_op_def split: sum.splits)

text \<open>Position by position, the inverse swaps what an operation says.\<close>

lemma invert_ok:
  assumes "\<forall>op \<in> set ops. op_wf op"
  obtains inv where "wf_repo_operations_invert ops = Inr inv" "wf_repo_operations_invert inv = Inr ops" "\<forall>op \<in> set inv. op_wf op"
    "map (\<lambda>op. (ro_key op, ro_before op, ro_after op)) inv = rev (map (\<lambda>op. (ro_key op, ro_after op, ro_before op)) ops)"
proof -
  have "\<exists>inv. invert_loop (rev ops) = Inr inv \<and> invert_loop (rev inv) = Inr ops \<and> (\<forall>op \<in> set inv. op_wf op) \<and>
      map (\<lambda>op. (ro_key op, ro_before op, ro_after op)) inv = rev (map (\<lambda>op. (ro_key op, ro_after op, ro_before op)) ops)"
    using assms
  proof (induction ops)
    case (Cons op ops)
    then obtain inv where inv: "invert_loop (rev ops) = Inr inv" "invert_loop (rev inv) = Inr ops" "\<forall>op \<in> set inv. op_wf op"
      "map (\<lambda>op. (ro_key op, ro_before op, ro_after op)) inv = rev (map (\<lambda>op. (ro_key op, ro_after op, ro_before op)) ops)" by auto
    from Cons.prems obtain op' where "invert_one op = Inr op'" "invert_one op' = Inr op" "op_wf op'" "ro_key op' = ro_key op"
      "ro_before op' = ro_after op" "ro_after op' = ro_before op" using invert_one_ok [of op] by auto
    then show ?case using inv by (intro exI [of _ "inv @ [op']"]) (auto simp: invert_loop_append push_op_def)
  qed simp
  then show thesis using that by (auto simp: wf_repo_operations_invert_def)
qed

lemma invert_exact:
  assumes "ops_exact m m' ops" "\<forall>op \<in> set ops. op_wf op"
  obtains inv where "wf_repo_operations_invert ops = Inr inv" "wf_repo_operations_invert inv = Inr ops" "ops_exact m' m inv"
proof -
  obtain inv where inv: "wf_repo_operations_invert ops = Inr inv" "wf_repo_operations_invert inv = Inr ops"
    "map (\<lambda>op. (ro_key op, ro_before op, ro_after op)) inv = rev (map (\<lambda>op. (ro_key op, ro_after op, ro_before op)) ops)"
    using invert_ok [OF assms(2)] by blast
  have keys: "map ro_key inv = rev (map ro_key ops)"
    using arg_cong [OF inv(3), of "map fst"] by (simp add: comp_def rev_map)
  have "(\<lambda>op. (ro_key op, ro_before op, ro_after op)) ` set inv = (\<lambda>op. (ro_key op, ro_after op, ro_before op)) ` set ops"
    using arg_cong [OF inv(3), of set] by simp
  then have "(ro_key op, ro_before op, ro_after op) \<in> (\<lambda>op. (ro_key op, ro_after op, ro_before op)) ` set ops" if "op \<in> set inv" for op
    using that by blast
  then have swap: "\<exists>x \<in> set ops. ro_key op = ro_key x \<and> ro_before op = ro_after x \<and> ro_after op = ro_before x" if "op \<in> set inv" for op
    using that by fastforce
  have "m' (ro_key op) = ro_before op \<and> m (ro_key op) = ro_after op \<and> ro_before op \<noteq> ro_after op" if h: "op \<in> set inv" for op
  proof -
    obtain x where "x \<in> set ops" "ro_key op = ro_key x" "ro_before op = ro_after x" "ro_after op = ro_before x" using swap [OF h] by blast
    moreover have "m (ro_key x) = ro_before x" "m' (ro_key x) = ro_after x" "ro_before x \<noteq> ro_after x"
      using assms(1) \<open>x \<in> set ops\<close> unfolding ops_exact_def by blast+
    ultimately show ?thesis by simp
  qed
  moreover have "distinct (map ro_key inv)" using assms(1) unfolding keys ops_exact_def by simp
  moreover have "ro_key ` set inv = ro_key ` set ops" using arg_cong [OF keys, of set] by simp
  ultimately have "ops_exact m' m inv" using assms(1) unfolding ops_exact_def by simp
  with inv show thesis using that by blast
qed

lemma from_leaf_wf:
  assumes "repo_operation_from_leaf action leaf = Inr op" "length (snd leaf) = 36"
  shows "action \<noteq> WF_REPO_UPDATE \<Longrightarrow> op_wf op"
    and "action = WF_REPO_UPDATE \<Longrightarrow> length p = 36 \<Longrightarrow> op_wf (op\<lparr>ro_prev := p\<rparr>)"
  using from_leaf_Inr [OF assms(1)] assms(2) by (simp_all add: op_wf_def)

lemma push_op_wf:
  assumes "push_op r rest = Inr ops" "\<And>x. r = Inr x \<Longrightarrow> op_wf x" "\<And>xs. rest = Inr xs \<Longrightarrow> \<forall>op \<in> set xs. op_wf op"
  shows "\<forall>op \<in> set ops. op_wf op"
  using assms by (auto simp: push_op_Inr)

lemma diff_wf:
  "leaf_list ps \<Longrightarrow> leaf_list cs \<Longrightarrow> repo_diff_operations ps cs = Inr ops \<Longrightarrow> \<forall>op \<in> set ops. op_wf op"
proof (induction ps cs arbitrary: ops rule: repo_diff_operations.induct)
  case (2 c cs)
  have "push_op (repo_operation_from_leaf WF_REPO_CREATE c) (repo_diff_operations [] cs) = Inr ops" using "2.prems" by simp
  then show ?case by (rule push_op_wf) (use "2.IH" "2.prems" in \<open>auto simp: leaf_list_Cons intro: from_leaf_wf(1)\<close>)
next
  case (3 p ps)
  have "push_op (repo_operation_from_leaf WF_REPO_DELETE p) (repo_diff_operations ps []) = Inr ops" using "3.prems" by simp
  then show ?case by (rule push_op_wf) (use "3.IH" "3.prems" in \<open>auto simp: leaf_list_Cons intro: from_leaf_wf(1)\<close>)
next
  case (4 p ps c cs)
  have ll: "leaf_list ps" "leaf_list cs" "length (snd p) = 36" "length (snd c) = 36"
    using "4.prems"(1,2) by (auto simp: leaf_list_Cons)
  consider "repo_key_cmp (fst p) (fst c) < 0" | "0 < repo_key_cmp (fst p) (fst c)" | "repo_key_cmp (fst p) (fst c) = 0" by linarith
  then show ?case
  proof cases
    case 1
    then have "push_op (repo_operation_from_leaf WF_REPO_DELETE p) (repo_diff_operations ps (c # cs)) = Inr ops" using "4.prems"(3) by simp
    then show ?thesis by (rule push_op_wf) (use "4.IH"(1) "4.prems"(2) 1 ll in \<open>auto intro: from_leaf_wf(1)\<close>)
  next
    case 2
    then have "push_op (repo_operation_from_leaf WF_REPO_CREATE c) (repo_diff_operations (p # ps) cs) = Inr ops" using "4.prems"(3) by simp
    then show ?thesis by (rule push_op_wf) (use "4.IH"(2) "4.prems"(1) 2 ll in \<open>auto intro: from_leaf_wf(1)\<close>)
  next
    case 3
    show ?thesis
    proof (cases "cid_equal (snd p) (snd c)")
      case True
      then have "repo_diff_operations ps cs = Inr ops" using "4.prems"(3) 3 by (simp del: cid_equal_iff)
      then show ?thesis using "4.IH"(3) [OF refl _ _ True ll(1,2)] 3 by simp
    next
      case False
      then have "push_op (case repo_operation_from_leaf WF_REPO_UPDATE c of Inl s \<Rightarrow> Inl s | Inr operation \<Rightarrow> Inr (operation\<lparr>ro_prev := snd p\<rparr>)) (repo_diff_operations ps cs) = Inr ops"
        using "4.prems"(3) 3 by (simp del: cid_equal_iff)
      then show ?thesis by (rule push_op_wf) (use "4.IH"(4) [OF refl _ _ False ll(1,2)] 3 ll in \<open>auto split: sum.splits intro: from_leaf_wf(2) [OF _ ll(4)]\<close>)
    qed
  qed
qed simp

end
