(* ===== verification/Diff_Apply.thy ===== *)
theory Diff_Apply
  imports Diff_Verify Diff_Ops
begin

text \<open>
  Verified differences: the collection of a tree returns its leaves in order, the composite of a base and an
  update contains both, and every block a difference carries or leaves in place is the block of that CID in
  the composite. So a difference that has been applied yields the repository that was verified.
\<close>

section \<open>Collecting a tree\<close>

lemma leaf_add_Inr:
  assumes "repo_leaf_add ls key cid = Inr ls'"
  shows "ls' = ls @ [(key, cid)]" "ls = [] \<or> repo_key_cmp (fst (last ls)) key < 0"
  using assms by (auto simp: repo_leaf_add_def split: if_splits)

lemma keys_sorted_snoc:
  assumes "keys_sorted ls" "ls = [] \<or> repo_key_cmp (fst (last ls)) k < 0" "\<forall>x \<in> set ls. length (fst x) < 2 ^ 31" "length k < 2 ^ 31"
  shows "keys_sorted (ls @ [(k, v)])"
proof (cases "ls = []")
  case False
  then have "fst (last ls) < k" using assms(2-4) key_cmp_order [of "fst (last ls)" k] by (simp add: repo_key_cmp_def)
  moreover have "fst x \<le> fst (last ls)" if "x \<in> set ls" for x
  proof -
    obtain xs where "ls = xs @ [last ls]" using False by (metis append_butlast_last_id)
    moreover define y where "y = last ls"
    ultimately have "ls = xs @ [y]" by simp
    then show ?thesis using assms(1) that unfolding y_def [symmetric] by (auto simp: sorted_wrt_append)
  qed
  ultimately have "fst x < k" if "x \<in> set ls" for x using that by fastforce
  then show ?thesis using assms(1) by (auto simp: sorted_wrt_append)
qed simp

text \<open>The list stays sorted when it grows, for keys of sensible length.\<close>

definition stays_sorted :: "repo_leaf list \<Rightarrow> repo_leaf list \<Rightarrow> bool" where
  "stays_sorted ls ls' \<longleftrightarrow> ((\<forall>x \<in> set ls'. length (fst x) < 2 ^ 31) \<longrightarrow> keys_sorted ls \<longrightarrow> keys_sorted ls')"

lemma stays_sorted_refl [simp]: "stays_sorted ls ls"
  by (simp add: stays_sorted_def)

lemma stays_sorted_trans: "stays_sorted a b \<Longrightarrow> stays_sorted b c \<Longrightarrow> set b \<subseteq> set c \<Longrightarrow> stays_sorted a c"
  unfolding stays_sorted_def by blast

lemma stays_sorted_add:
  assumes "repo_leaf_add ls key cid = Inr ls'"
  shows "stays_sorted ls ls'"
  unfolding stays_sorted_def leaf_add_Inr(1) [OF assms]
  by (intro impI keys_sorted_snoc [OF _ leaf_add_Inr(2) [OF assms]]) simp_all

text \<open>A collection that succeeds appends the leaves of a represented tree, in ascending order.\<close>

lemma collect_sound:
  "repo_collect_mst P car c st depth = Inr st' \<Longrightarrow>
     \<exists>t. mst_rep P car c t \<and> fst st' = fst st @ leaves t \<and>
       stays_sorted (fst st) (fst st')"
  "collect_entries P car es st depth = Inr st' \<Longrightarrow>
     \<exists>ts. list_all2 (entry_rep (mst_rep P car)) es ts \<and> fst st' = fst st @ ent_leaves ts \<and>
       stays_sorted (fst st) (fst st')"
proof (induction P car c st depth and P car es st depth arbitrary: st' and st' rule: repo_collect_mst_collect_entries.induct)
  case (1 P car root st depth)
  let ?st = "(fst st, repo_cid_list_add (snd st) root)"
  from "1.prems" obtain b node st1 where n: "length root = 36" "\<not> depth_exceeded car depth" "\<not> repo_cid_list_has (snd st) root"
    "wf_car_find_block car root = Some b" "wf_mst_node_parse P (blk_data b) root = Inr node"
    "(if node_left node = [] then Inr ?st else repo_collect_mst P car (node_left node) ?st (depth + 1)) = Inr st1"
    "collect_entries P car (node_entries node) st1 (depth + 1) = Inr st'"
    unfolding repo_collect_mst.simps [of P car root st depth] by (auto split: if_splits option.splits sum.splits)
  have g: "\<not> (length root \<noteq> 36 \<or> depth_exceeded car depth)" using n(1,2) by simp
  obtain l where l: "mst_rep P car (node_left node) l" "fst st1 = fst st @ leaves l"
    "stays_sorted (fst st) (fst st1)"
  proof (cases "node_left node = []")
    case True
    then show thesis using that [of MNil] n(6) by auto
  next
    case False
    then show thesis using "1.IH"(1) [OF g n(3,4,5) False, of st1] n(6) that by auto
  qed
  obtain ts where ts: "list_all2 (entry_rep (mst_rep P car)) (node_entries node) ts" "fst st' = fst st1 @ ent_leaves ts"
    "stays_sorted (fst st1) (fst st')"
    using "1.IH"(2) [OF g n(3,4,5,6,7)] by blast
  have "mst_rep P car root (MNode l ts)" using n(1,4,5) l(1) ts(1) by (auto simp: mst_rep_Node_iff)
  moreover have "stays_sorted (fst st) (fst st')" using stays_sorted_trans [OF l(3) ts(3)] ts(2) by simp
  ultimately show ?case using l(2) ts(2) by (intro exI [of _ "MNode l ts"]) auto
next
  case (3 P car e es st depth)
  from "3.prems" obtain b ls st1 where e: "wf_car_find_block car (ent_value e) = Some b"
    "repo_leaf_add (fst st) (ent_key e) (ent_value e) = Inr ls"
    "(if ent_subtree e = [] then Inr (ls, snd st) else repo_collect_mst P car (ent_subtree e) (ls, snd st) depth) = Inr st1"
    "collect_entries P car es st1 depth = Inr st'"
    by (auto split: option.splits sum.splits)
  obtain s where s: "mst_rep P car (ent_subtree e) s" "fst st1 = ls @ leaves s"
    "stays_sorted ls (fst st1)"
  proof (cases "ent_subtree e = []")
    case True
    then show thesis using that [of MNil] e(3) by auto
  next
    case False
    then show thesis using "3.IH"(1) [OF e(1,2) False, of st1] e(3) that by auto
  qed
  obtain ts where ts: "list_all2 (entry_rep (mst_rep P car)) es ts" "fst st' = fst st1 @ ent_leaves ts"
    "stays_sorted (fst st1) (fst st')"
    using "3.IH"(2) [OF e] by blast
  note add = leaf_add_Inr [OF e(2)]
  have "stays_sorted (fst st) (fst st1)" using stays_sorted_trans [OF stays_sorted_add [OF e(2)] s(3)] s(2) by simp
  then have "stays_sorted (fst st) (fst st')" using stays_sorted_trans ts(2,3) by simp
  then show ?case
    by (intro exI [of _ "(ent_key e, ent_value e, s) # ts"]) (use s ts add(1) in auto)
qed simp

lemma collected_leaves:
  assumes "repo_collect_mst P car c ([], []) 0 = Inr (ls, ns)"
  obtains t where "mst_rep P car c t" "leaves t = ls" "leaf_list ls" "\<forall>x \<in> set ls. wf_mst_key_is_valid (fst x)"
proof -
  from collect_sound(1) [OF assms] obtain t where t: "mst_rep P car c t" "ls = leaves t"
    "stays_sorted [] ls" by auto
  have ok: "wf_mst_key_is_valid (fst x) \<and> length (snd x) = 36 \<and> length (fst x) < 2 ^ 31" if "x \<in> set ls" for x
    using mst_rep_keys [OF t(1), of "fst x" "snd x"] key_valid_length [of "fst x"] that t(2) by auto
  show thesis by (rule that [OF t(1)]) (use t ok in \<open>auto simp: leaf_list_def stays_sorted_def\<close>)
qed

section \<open>Parts of a CAR\<close>

text \<open>Every block of one CAR is the block that the other finds for its CID.\<close>

definition car_part :: "wf_car \<Rightarrow> wf_car \<Rightarrow> bool" where
  "car_part car whole \<longleftrightarrow> (\<forall>b \<in> set (car_blocks car). wf_car_find_block whole (blk_cid b) = Some b)"

lemma car_part_find: "car_part car whole \<Longrightarrow> wf_car_find_block car c = Some b \<Longrightarrow> wf_car_find_block whole c = Some b"
  using find_block_mem unfolding car_part_def by metis

lemma mst_rep_part: "mst_rep P car c t \<Longrightarrow> car_part car whole \<Longrightarrow> mst_rep P whole c t"
  by (induction rule: mst_rep.induct)
    (auto simp: mst_rep_Node_iff car_part_find elim: list.rel_mono_strong)

lemma car_part_ext: "car_part car whole \<Longrightarrow> car_ext whole whole' \<Longrightarrow> car_part car whole'"
  unfolding car_part_def using find_block_ext by blast

lemma find_snoc: "wf_car_find_block car (blk_cid b) = None \<Longrightarrow> wf_car_find_block (car\<lparr>car_blocks := car_blocks car @ [b]\<rparr>) (blk_cid b) = Some b"
proof -
  have "find p xs = None \<Longrightarrow> p b \<Longrightarrow> find p (xs @ [b]) = Some b" for p xs by (induction xs) (auto split: if_splits)
  then show "wf_car_find_block car (blk_cid b) = None \<Longrightarrow> wf_car_find_block (car\<lparr>car_blocks := car_blocks car @ [b]\<rparr>) (blk_cid b) = Some b"
    by (simp add: wf_car_find_block_eq)
qed

lemma block_eqI: "wf_car_find_block car (blk_cid b) = Some b' \<Longrightarrow> blk_data b' = blk_data (b :: wf_car_block) \<Longrightarrow> b' = b"
  using find_block_mem [of car "blk_cid b" b'] by (cases b; cases b') auto

text \<open>The composite of a base and an update holds both.\<close>

lemma composite_loop_part:
  "composite_loop bs out = Inr out' \<Longrightarrow> car_ext out out' \<and> (\<forall>b \<in> set bs. wf_car_find_block out' (blk_cid b) = Some b)"
proof (induction bs arbitrary: out)
  case (Cons b bs)
  show ?case
  proof (cases "wf_car_find_block out (blk_cid b)")
    case None
    let ?out = "out\<lparr>car_blocks := car_blocks out @ [b]\<rparr>"
    have "composite_loop bs ?out = Inr out'" using Cons.prems None by simp
    then have "car_ext ?out out'" "\<forall>b \<in> set bs. wf_car_find_block out' (blk_cid b) = Some b" using Cons.IH by blast+
    moreover have "car_ext out ?out" by (simp add: car_ext_def)
    ultimately show ?thesis using find_block_ext find_snoc [OF None] by (auto intro: car_ext_trans)
  next
    case (Some present)
    then have eq: "blk_data present = blk_data b" "composite_loop bs out = Inr out'" using Cons.prems by (auto split: if_splits)
    then have "car_ext out out'" "\<forall>b \<in> set bs. wf_car_find_block out' (blk_cid b) = Some b" using Cons.IH by blast+
    moreover have "present = b" by (rule block_eqI [OF Some eq(1)])
    ultimately show ?thesis using find_block_ext [of out out'] Some by auto
  qed
qed simp

lemma composite_part:
  assumes "repo_composite_car base update = Inr composite"
  shows "car_part base composite" "car_part update composite" "car_roots composite = car_roots update"
proof -
  from assms obtain out where out: "composite_loop (car_blocks update) \<lparr>car_roots = car_roots update, car_blocks = []\<rparr> = Inr out"
    "composite_loop (car_blocks base) out = Inr composite"
    by (auto simp: repo_composite_car_def split: sum.splits)
  note u = composite_loop_part [OF out(1)] and b = composite_loop_part [OF out(2)]
  show "car_part base composite" using b by (simp add: car_part_def)
  have "car_part update out" using u by (simp add: car_part_def)
  then show "car_part update composite" using b car_part_ext by blast
  show "car_roots composite = car_roots update" using u b by (simp add: car_ext_def)
qed

section \<open>Copied blocks\<close>

text \<open>What copying keeps: the roots, distinct CIDs, and a bound on the blocks.\<close>

lemma add_copy_Inr:
  assumes "repo_car_add_copy car b = Inr car'"
  shows "car_roots car' = car_roots car" "set (car_blocks car') \<subseteq> insert b (set (car_blocks car))" "car_ext car car'"
    "wf_car_find_block car' (blk_cid b) = Some b" "distinct (map blk_cid (car_blocks car)) \<Longrightarrow> distinct (map blk_cid (car_blocks car'))"
proof -
  have "car_roots car' = car_roots car \<and> set (car_blocks car') \<subseteq> insert b (set (car_blocks car)) \<and> car_ext car car' \<and>
    wf_car_find_block car' (blk_cid b) = Some b \<and> (distinct (map blk_cid (car_blocks car)) \<longrightarrow> distinct (map blk_cid (car_blocks car')))"
  proof (cases "wf_car_find_block car (blk_cid b)")
    case None
    then have "car' = car\<lparr>car_blocks := car_blocks car @ [b]\<rparr>" using assms by (simp add: repo_car_add_copy_def)
    moreover have "blk_cid b \<notin> blk_cid ` set (car_blocks car)" using None by (auto simp: wf_car_find_block_eq find_None_iff)
    ultimately show ?thesis using find_snoc [OF None] by (auto simp: car_ext_def)
  next
    case (Some b')
    then have "blk_data b' = blk_data b" "car' = car" using assms by (auto simp: repo_car_add_copy_def split: if_splits)
    then show ?thesis using Some block_eqI [OF Some] by auto
  qed
  then show "car_roots car' = car_roots car" "set (car_blocks car') \<subseteq> insert b (set (car_blocks car))" "car_ext car car'"
    "wf_car_find_block car' (blk_cid b) = Some b" "distinct (map blk_cid (car_blocks car)) \<Longrightarrow> distinct (map blk_cid (car_blocks car'))"
    by blast+
qed

lemma add_copy_part:
  "repo_car_add_copy car b = Inr car' \<Longrightarrow> car_part car whole \<Longrightarrow> wf_car_find_block whole (blk_cid b) = Some b \<Longrightarrow> car_part car' whole"
  using add_copy_Inr(2) unfolding car_part_def by blast

lemma add_cid_copy_part:
  assumes "repo_car_add_cid_copy car whole c = Inr car'" "car_part car whole"
  shows "car_part car' whole" "car_roots car' = car_roots car"
proof -
  from assms(1) obtain b where b: "wf_car_find_block whole c = Some b" "repo_car_add_copy car b = Inr car'"
    by (auto simp: repo_car_add_cid_copy_def split: option.splits)
  then have "wf_car_find_block whole (blk_cid b) = Some b" using find_block_mem [OF b(1)] by simp
  then show "car_part car' whole" "car_roots car' = car_roots car" using add_copy_part [OF b(2) assms(2)] add_copy_Inr(1) [OF b(2)] by auto
qed

lemma add_nodes_part:
  "diff_add_nodes whole ns' ns car = Inr car' \<Longrightarrow> car_part car whole \<Longrightarrow> car_part car' whole \<and> car_roots car' = car_roots car"
proof (induction ns arbitrary: car)
  case (Cons n ns)
  show ?case
  proof (cases "repo_cid_list_has ns' n")
    case False
    then obtain car1 where c: "repo_car_add_cid_copy car whole n = Inr car1" "diff_add_nodes whole ns' ns car1 = Inr car'"
      using Cons.prems(1) by (auto split: sum.splits)
    then show ?thesis using add_cid_copy_part [OF c(1) Cons.prems(2)] Cons.IH [OF c(2)] by simp
  qed (use Cons in auto)
qed simp

lemma add_leaves_part:
  "diff_add_leaves update ops car = Inr car' \<Longrightarrow> car_part car whole \<Longrightarrow> car_part update whole \<Longrightarrow> car_part car' whole \<and> car_roots car' = car_roots car"
proof (induction ops arbitrary: car)
  case (Cons op ops)
  show ?case
  proof (cases "ro_action op = WF_REPO_DELETE")
    case False
    then obtain b car1 where c: "wf_car_find_block update (ro_cid op) = Some b" "repo_car_add_copy car b = Inr car1"
      "diff_add_leaves update ops car1 = Inr car'" using Cons.prems(1) by (auto split: sum.splits option.splits)
    have "wf_car_find_block whole (blk_cid b) = Some b" using find_block_mem [OF c(1)] car_part_find [OF Cons.prems(3) c(1)] by simp
    then show ?thesis using add_copy_part [OF c(2) Cons.prems(2)] add_copy_Inr(1) [OF c(2)] Cons.IH [OF c(3)] Cons.prems(3) by simp
  qed (use Cons in auto)
qed simp

lemma copy_loop_part:
  "apply_copy_loop skip bs car = Inr car' \<Longrightarrow> car_roots car' = car_roots car \<and> set (car_blocks car') \<subseteq> set (car_blocks car) \<union> set bs \<and>
     (distinct (map blk_cid (car_blocks car)) \<longrightarrow> distinct (map blk_cid (car_blocks car')))"
proof (induction bs arbitrary: car)
  case (Cons b bs)
  show ?case
  proof (cases "skip (blk_cid b)")
    case False
    then obtain car1 where c: "repo_car_add_copy car b = Inr car1" "apply_copy_loop skip bs car1 = Inr car'"
      using Cons.prems(1) by (auto split: sum.splits)
    from Cons.IH [OF c(2)] add_copy_Inr [OF c(1)] show ?thesis by auto
  qed (use Cons in auto)
qed simp

section \<open>Verified differences\<close>

lemma assemble_cases:
  assumes "diff_assemble composite update base_commit prev_commit commit previous current = Inr diff" "car_part update composite"
  shows "repo_diff_operations (fst previous) (fst current) = Inr (df_operations diff)" "df_commit diff = commit"
    "df_previous_commit diff = base_commit" "df_since diff = cm_rev prev_commit"
    "car_part (df_new_blocks diff) composite" "car_roots (df_new_blocks diff) = [cm_cid commit]"
proof -
  let ?new = "\<lparr>car_roots = [cm_cid commit], car_blocks = []\<rparr>"
  from assms(1) obtain ops nb1 nb2 nb3 where d: "repo_diff_operations (fst previous) (fst current) = Inr ops"
    "diff_add_nodes composite (snd previous) (snd current) ?new = Inr nb1" "diff_add_leaves update ops nb1 = Inr nb2"
    "(if cid_equal (cm_cid commit) base_commit then Inr nb2 else repo_car_add_cid_copy nb2 composite (cm_cid commit)) = Inr nb3"
    and diff: "df_operations diff = ops" "df_commit diff = commit" "df_previous_commit diff = base_commit"
      "df_since diff = cm_rev prev_commit" "df_new_blocks diff = nb3"
    unfolding diff_assemble_def Let_def by (auto split: sum.splits simp del: cid_equal_iff)
  show "repo_diff_operations (fst previous) (fst current) = Inr (df_operations diff)" "df_commit diff = commit"
    "df_previous_commit diff = base_commit" "df_since diff = cm_rev prev_commit" using d(1) diff by simp_all
  have "car_part nb1 composite" "car_roots nb1 = [cm_cid commit]"
    using add_nodes_part [OF d(2)] by (simp_all add: car_part_def)
  then have nb2: "car_part nb2 composite" "car_roots nb2 = [cm_cid commit]"
    using add_leaves_part [OF d(3) _ assms(2)] by simp_all
  have "car_part nb3 composite \<and> car_roots nb3 = [cm_cid commit]"
  proof (cases "cid_equal (cm_cid commit) base_commit")
    case True
    then show ?thesis using d(4) nb2 by (simp del: cid_equal_iff)
  next
    case False
    then show ?thesis using d(4) add_cid_copy_part [OF _ nb2(1), of "cm_cid commit" nb3] nb2(2) by (simp del: cid_equal_iff)
  qed
  then show "car_part (df_new_blocks diff) composite" "car_roots (df_new_blocks diff) = [cm_cid commit]"
    using diff(5) by simp_all
qed

lemma diff_verify_cases:
  assumes "wf_repo_diff_verify P E base base_commit update options = Inr diff"
  obtains prev_commit composite previous current where
    "length base_commit = 36" "car_roots base = [base_commit]"
    "wf_repo_verify P E base (options\<lparr>vo_expected_prev := None\<rparr>) = Inr prev_commit"
    "repo_car_validate_blocks P update = Inr ()" "repo_composite_car base update = Inr composite"
    "wf_repo_verify P E composite options = Inr (df_commit diff)"
    "repo_collect_mst P composite (cm_data prev_commit) ([], []) 0 = Inr previous"
    "repo_collect_mst P composite (cm_data (df_commit diff)) ([], []) 0 = Inr current"
    "diff_assemble composite update base_commit prev_commit (df_commit diff) previous current = Inr diff"
proof -
  from assms obtain prev_commit composite commit previous current where
    d: "length base_commit = 36" "single_root base (\<lambda>r. cid_equal r base_commit)"
    "wf_repo_verify P E base (options\<lparr>vo_expected_prev := None\<rparr>) = Inr prev_commit"
    "repo_car_validate_blocks P update = Inr ()" "repo_composite_car base update = Inr composite"
    "wf_repo_verify P E composite options = Inr commit"
    "repo_collect_mst P composite (cm_data prev_commit) ([], []) 0 = Inr previous"
    "repo_collect_mst P composite (cm_data commit) ([], []) 0 = Inr current"
    "diff_assemble composite update base_commit prev_commit commit previous current = Inr diff"
    unfolding wf_repo_diff_verify_def by (auto split: if_splits sum.splits simp del: cid_equal_iff)
  have "car_roots base = [base_commit]" using d(2) by (auto simp: single_root_def split: list.splits)
  moreover have "df_commit diff = commit" by (rule assemble_cases(2) [OF d(9) composite_part(2) [OF d(5)]])
  ultimately show thesis using that d by blast
qed

text \<open>The records of a verified repository.\<close>

lemma verified_rep:
  assumes "wf_repo_verify P E car options = Inr commit"
  obtains t where "mst_rep P car (cm_data commit) t" "wf_mst_list P car (cm_data commit) = Inr (leaves t)" "cm_data commit \<noteq> []"
    "\<forall>x \<in> set (leaves t). wf_car_find_block car (snd x) \<noteq> None"
proof -
  obtain root commit0 where v: "verify_commit_block P options root = Inr commit0" "commit = commit0\<lparr>cm_cid := cm_cid commit\<rparr>"
    "verify_mst_links P car (cm_data commit) 0 = Inr ()" by (rule verify_cases [OF assms])
  have "cm_data commit = cm_data commit0" by (subst v(2)) simp
  then have ne: "cm_data commit \<noteq> []" using commit_block_fields(5) [OF v(1)] by auto
  from links_sound(1) [OF v(3) ne] obtain t where t: "mst_rep P car (cm_data commit) t" "height t \<le> 1025"
    "\<forall>x \<in> set (leaves t). wf_car_find_block car (snd x) \<noteq> None" by auto
  have "wf_mst_list P car (cm_data commit) = Inr (leaves t)"
    using mst_collect_rep [OF t(1) ne t(2), of None] ne by (simp add: wf_mst_list_def split_beta)
  then show thesis using that t(1,3) ne by blast
qed

lemma collected_list:
  assumes "repo_collect_mst P composite c ([], []) 0 = Inr st" "mst_rep P car c t" "car_part car composite"
  shows "fst st = leaves t" "leaf_list (fst st)" "\<forall>x \<in> set (fst st). wf_mst_key_is_valid (fst x)"
proof -
  have "repo_collect_mst P composite c ([], []) 0 = Inr (fst st, snd st)" using assms(1) by simp
  from collected_leaves [OF this] obtain u where u: "mst_rep P composite c u" "leaves u = fst st" "leaf_list (fst st)"
    "\<forall>x \<in> set (fst st). wf_mst_key_is_valid (fst x)" by blast
  have "t = u" using mst_rep_functional [OF mst_rep_part [OF assms(2,3)] u(1)] .
  then show "fst st = leaves t" "leaf_list (fst st)" "\<forall>x \<in> set (fst st). wf_mst_key_is_valid (fst x)" using u by auto
qed

lemma verified_part: "wf_repo_verify P E car options = Inr commit \<Longrightarrow> car_part car car"
proof (elim verify_cases)
  assume "repo_car_validate_blocks P car = Inr ()"
  then have d: "distinct (map blk_cid (car_blocks car))" using validate_blocks_ok by (auto simp: blocks_ok_def)
  have "find (\<lambda>x. blk_cid x = blk_cid b) bs = Some b" if "b \<in> set bs" "distinct (map blk_cid bs)" for b :: wf_car_block and bs
    using that by (induction bs) (auto simp: image_iff)
  then show ?thesis using d by (simp add: car_part_def wf_car_find_block_eq)
qed

lemma diff_verify_records:
  assumes "wf_repo_diff_verify P E base base_commit update options = Inr diff"
  obtains prev_commit composite ps cs where
    "wf_repo_verify P E base (options\<lparr>vo_expected_prev := None\<rparr>) = Inr prev_commit" "cm_cid prev_commit = base_commit"
    "repo_composite_car base update = Inr composite" "wf_repo_verify P E composite options = Inr (df_commit diff)"
    "wf_mst_list P base (cm_data prev_commit) = Inr ps" "wf_mst_list P composite (cm_data (df_commit diff)) = Inr cs"
    "ops_exact (map_of ps) (map_of cs) (df_operations diff)" "\<forall>op \<in> set (df_operations diff). op_wf op"
    "df_since diff = cm_rev prev_commit"
proof -
  obtain prev_commit composite previous current where d: "car_roots base = [base_commit]"
    "wf_repo_verify P E base (options\<lparr>vo_expected_prev := None\<rparr>) = Inr prev_commit"
    "repo_composite_car base update = Inr composite" "wf_repo_verify P E composite options = Inr (df_commit diff)"
    "repo_collect_mst P composite (cm_data prev_commit) ([], []) 0 = Inr previous"
    "repo_collect_mst P composite (cm_data (df_commit diff)) ([], []) 0 = Inr current"
    "diff_assemble composite update base_commit prev_commit (df_commit diff) previous current = Inr diff"
    by (rule diff_verify_cases [OF assms])
  obtain t where t: "mst_rep P base (cm_data prev_commit) t" "wf_mst_list P base (cm_data prev_commit) = Inr (leaves t)"
    by (rule verified_rep [OF d(2)])
  obtain u where u: "mst_rep P composite (cm_data (df_commit diff)) u" "wf_mst_list P composite (cm_data (df_commit diff)) = Inr (leaves u)"
    by (rule verified_rep [OF d(4)])
  note p = collected_list [OF d(5) t(1) composite_part(1) [OF d(3)]]
  note c = collected_list [OF d(6) u(1) verified_part [OF d(4)]]
  note a = assemble_cases [OF d(7) composite_part(2) [OF d(3)]]
  have "cm_cid prev_commit = base_commit" by (rule verify_cases [OF d(2)]) (use d(1) in simp)
  moreover have "ops_exact (map_of (leaves t)) (map_of (leaves u)) (df_operations diff)"
    using diff_exact [OF p(2) c(2) a(1)] p(1) c(1) by simp
  ultimately show thesis using that [OF d(2) _ d(3,4) t(2) u(2)] diff_wf [OF p(2) c(2) a(1)] a(4) by blast
qed

text \<open>All that an accepted repository satisfies.\<close>

lemma verify_accepts:
  assumes "wf_repo_verify P E car options = Inr commit"
  shows "blocks_ok P (car_blocks car) \<and> car_roots car = [cm_cid commit] \<and>
    (\<exists>b. wf_car_find_block car (cm_cid commit) = Some b \<and> wf_commit_parse P (blk_data b) = Inr (commit\<lparr>cm_cid := []\<rparr>)) \<and>
    cm_version commit = 3 \<and> c_str (cm_did commit) = c_str (vo_expected_did options) \<and>
    (\<exists>u. commit_unsigned_bytes commit = Inr u \<and> wf_verify P E (vo_signing_key options) u (cm_sig commit) = Inr ()) \<and>
    (\<exists>ls. wf_mst_list P car (cm_data commit) = Inr ls \<and> (\<forall>x \<in> set ls. wf_car_find_block car (snd x) \<noteq> None))"
proof -
  obtain root commit0 u where v: "car_roots car = [cm_cid commit]" "repo_car_validate_blocks P car = Inr ()"
    "wf_car_find_block car (cm_cid commit) = Some root" "verify_commit_block P options root = Inr commit0"
    "commit = commit0\<lparr>cm_cid := cm_cid commit\<rparr>"
    "commit_unsigned_bytes commit = Inr u" "wf_verify P E (vo_signing_key options) u (cm_sig commit) = Inr ()"
    by (rule verify_cases [OF assms])
  note f = commit_block_fields [OF v(4)]
  have "commit\<lparr>cm_cid := []\<rparr> = commit0" using f(4) by (subst v(5)) simp
  moreover have "cm_version commit = 3" "c_str (cm_did commit) = c_str (vo_expected_did options)" using f by (subst v(5), simp)+
  moreover have "\<exists>ls. wf_mst_list P car (cm_data commit) = Inr ls \<and> (\<forall>x \<in> set ls. wf_car_find_block car (snd x) \<noteq> None)"
    using verified_rep [OF assms] by metis
  ultimately show ?thesis using v commit_block_parsed [OF v(4)] validate_blocks_ok [OF v(2)] by auto
qed

section \<open>Applied differences\<close>

lemma diff_apply_cases:
  assumes "wf_repo_diff_apply P repo diff = Inr staged"
  obtains staged1 b parsed where "repo_car_validate_blocks P (df_new_blocks diff) = Inr ()"
    "apply_copy_loop (repo_removed_has diff) (car_blocks repo) \<lparr>car_roots = [cm_cid (df_commit diff)], car_blocks = []\<rparr> = Inr staged1"
    "apply_copy_loop (\<lambda>_. False) (car_blocks (df_new_blocks diff)) staged1 = Inr staged"
    "wf_car_find_block staged (cm_cid (df_commit diff)) = Some b" "wf_commit_parse P (blk_data b) = Inr parsed"
    "commit_agrees parsed (df_commit diff)" "verify_mst_links P staged (cm_data parsed) 0 = Inr ()"
  using assms that unfolding wf_repo_diff_apply_def by (auto split: if_splits sum.splits option.splits simp del: cid_equal_iff)

lemma applied_verifies:
  assumes "wf_repo_diff_verify P E base base_commit update options = Inr diff" "wf_repo_diff_apply P base diff = Inr repo"
    "length (car_blocks repo) \<le> SIZE_MAX div 2 div SIZEOF_WF_CID" "repo_composite_car base update = Inr composite"
  shows "wf_repo_verify P E repo options = Inr (df_commit diff)" "car_part repo composite"
proof -
  let ?c = "cm_cid (df_commit diff)"
  obtain prev_commit composite' previous current where d:
    "wf_repo_verify P E base (options\<lparr>vo_expected_prev := None\<rparr>) = Inr prev_commit" "repo_composite_car base update = Inr composite'"
    "wf_repo_verify P E composite' options = Inr (df_commit diff)"
    "diff_assemble composite' update base_commit prev_commit (df_commit diff) previous current = Inr diff"
    by (rule diff_verify_cases [OF assms(1)])
  have comp: "composite' = composite" using d(2) assms(4) by simp
  obtain staged1 b parsed where s: "repo_car_validate_blocks P (df_new_blocks diff) = Inr ()"
    "apply_copy_loop (repo_removed_has diff) (car_blocks base) \<lparr>car_roots = [?c], car_blocks = []\<rparr> = Inr staged1"
    "apply_copy_loop (\<lambda>_. False) (car_blocks (df_new_blocks diff)) staged1 = Inr repo"
    "wf_car_find_block repo ?c = Some b" "wf_commit_parse P (blk_data b) = Inr parsed"
    "verify_mst_links P repo (cm_data parsed) 0 = Inr ()"
    by (rule diff_apply_cases [OF assms(2)])
  note c1 = copy_loop_part [OF s(2)] and c2 = copy_loop_part [OF s(3)]
  have sub: "set (car_blocks repo) \<subseteq> set (car_blocks base) \<union> set (car_blocks (df_new_blocks diff))" using c1 c2 by auto
  then show part: "car_part repo composite"
    using composite_part(1) [OF assms(4)] assemble_cases(5) [OF d(4) composite_part(2) [OF d(2)]] by (auto simp: car_part_def comp)
  have "repo_car_validate_blocks P base = Inr ()" by (rule verify_cases [OF d(1)])
  then have "blocks_ok P (car_blocks repo)" using validate_blocks_ok [OF s(1)] validate_blocks_ok sub c1 c2 by (auto simp: blocks_ok_def)
  then have valid: "repo_car_validate_blocks P repo = Inr ()" by (simp add: validate_blocks_eq [OF assms(3)])
  obtain root commit0 u where v: "c_str (vo_expected_did options) \<noteq> []" "vo_signing_key options \<noteq> []" "length ?c = 36"
    "wf_car_find_block composite ?c = Some root" "verify_commit_block P options root = Inr commit0"
    "df_commit diff = commit0\<lparr>cm_cid := ?c\<rparr>" "commit_unsigned_bytes (df_commit diff) = Inr u"
    "wf_verify P E (vo_signing_key options) u (cm_sig (df_commit diff)) = Inr ()"
    by (rule verify_cases [OF d(3) [unfolded comp]])
  have "b = root" using car_part_find [OF part s(4)] v(4) by simp
  then have "parsed = commit0" using s(5) commit_block_parsed [OF v(5)] by simp
  have "wf_repo_verify P E repo options = Inr (commit0\<lparr>cm_cid := ?c\<rparr>)"
  proof (rule verify_intro [OF v(1,2) _ v(3) valid s(4) _ _ _ s(6) [unfolded \<open>parsed = commit0\<close>]])
    show "car_roots repo = [?c]" using c1 c2 by simp
    show "verify_commit_block P options b = Inr commit0" using v(5) \<open>b = root\<close> by simp
    show "commit_unsigned_bytes commit0 = Inr u" using v(7) by (subst (asm) v(6)) simp
    show "wf_verify P E (vo_signing_key options) u (cm_sig commit0) = Inr ()" using v(8) by (subst (asm) v(6)) simp
  qed
  then show "wf_repo_verify P E repo options = Inr (df_commit diff)" using v(6) by simp
qed

section \<open>Repositories that this library writes\<close>

lemma distinct_part: "distinct (map blk_cid (car_blocks car)) \<Longrightarrow> car_part car (car\<lparr>car_roots := rs\<rparr>)"
proof -
  have "find (\<lambda>x. blk_cid x = blk_cid b) bs = Some b" if "b \<in> set bs" "distinct (map blk_cid bs)" for b :: wf_car_block and bs
    using that by (induction bs) (auto simp: image_iff)
  then show "distinct (map blk_cid (car_blocks car)) \<Longrightarrow> car_part car (car\<lparr>car_roots := rs\<rparr>)"
    by (simp add: car_part_def wf_car_find_block_eq)
qed

lemma blocks_ok_one_content: "blocks_ok P (car_blocks car) \<Longrightarrow> one_content car"
  using eq_key_imp_eq_value unfolding blocks_ok_def one_content_def by (metis inj_onD distinct_map)

lemma verify_nonempty_key: "wf_verify P E k msg sig = Inr () \<Longrightarrow> k \<noteq> []"
  by (auto simp: wf_verify_def wf_verify_internal_def multikey_payload_def strncmp_eq_def Let_def split: if_splits)

lemma published_verifies:
  fixes env did pub c expected
  defines "options \<equiv> \<lparr>vo_expected_did = did, vo_signing_key = pub, vo_expected_prev = expected\<rparr>"
  assumes "platform_laws (env_plat env)" "published env did pub L car c ls" "c_str did \<noteq> []" "blocks_ok (env_plat env) (car_blocks car)"
    "length (car_blocks car) \<le> SIZE_MAX div 2 div SIZEOF_WF_CID"
  shows "\<exists>commit. wf_repo_verify (env_plat env) (env_ec env) (car\<lparr>car_roots := [c]\<rparr>) options = Inr commit \<and> cm_cid commit = c \<and>
    wf_mst_list (env_plat env) (car\<lparr>car_roots := [c]\<rparr>) (cm_data commit) = Inr ls"
proof -
  let ?P = "env_plat env" and ?car = "car\<lparr>car_roots := [c]\<rparr>"
  from assms(3) obtain b commit u where s: "length c = 36" "wf_car_find_block car c = Some b" "stored_commit ?P (blk_data b)"
    "wf_commit_parse ?P (blk_data b) = Inr commit" "cm_version commit = 3" "length (cm_sig commit) = 64" "\<not> cm_has_prev commit"
    "cm_did commit = c_str did" "commit_unsigned_bytes commit = Inr u" "wf_verify ?P (env_ec env) pub u (cm_sig commit) = Inr ()"
    by (auto simp: published_def head_signed_def)
  have "repo_head_root ?P car (Some c) = Inr (cm_data commit)"
    using s(1,2,4) by (auto simp: repo_head_root_def repo_load_commit_def)
  then have root: "refines ?P L car (cm_data commit) ls" "records_stored car ls"
    using assms(3) by (auto simp: published_def head_holds_def root_holds_def)
  have part: "car_part car ?car" using assms(5) by (intro distinct_part) (simp add: blocks_ok_def)
  obtain t where t: "mst_rep ?P car (cm_data commit) t" "leaves t = ls" "height t \<le> 1025"
    by (rule platform_laws.refines_rep [OF assms(2) root(1)])
  note rep = mst_rep_part [OF t(1) part]
  have ne: "cm_data commit \<noteq> []" using commit_data_length [OF s(4)] by auto
  have links: "verify_mst_links ?P ?car (cm_data commit) 0 = Inr ()"
    using root(2) t(2) by (intro links_complete [OF rep ne room_root [OF rep t(3)]]) (auto simp: records_stored_def wf_car_find_block_eq)
  have block: "verify_commit_block ?P options b = Inr commit"
    using s(3-8) by (auto simp: verify_commit_block_def stored_commit_def options_def split: option.split)
  have "wf_repo_verify ?P (env_ec env) ?car options = Inr (commit\<lparr>cm_cid := c\<rparr>)"
    by (rule verify_intro [OF _ _ _ s(1) _ _ block s(9) _ links])
      (use assms(4-6) s(2,10) verify_nonempty_key [OF s(10)] in \<open>auto simp: options_def validate_blocks_eq wf_car_find_block_eq\<close>)
  moreover have "wf_mst_list ?P ?car (cm_data commit) = Inr ls"
    using mst_collect_rep [OF rep ne t(3), of None] ne t(2) by (simp add: wf_mst_list_def split_beta)
  ultimately show ?thesis by (intro exI [of _ "commit\<lparr>cm_cid := c\<rparr>"]) simp
qed

text \<open>A verified CAR stays verified when blocks are added.\<close>

lemma verify_more:
  assumes "wf_repo_verify P E car options = Inr commit" "car_part car whole" "car_roots whole = car_roots car"
    "repo_car_validate_blocks P whole = Inr ()"
  shows "wf_repo_verify P E whole options = Inr commit"
proof -
  obtain root commit0 u where v: "c_str (vo_expected_did options) \<noteq> []" "vo_signing_key options \<noteq> []"
    "car_roots car = [cm_cid commit]" "length (cm_cid commit) = 36"
    "wf_car_find_block car (cm_cid commit) = Some root" "verify_commit_block P options root = Inr commit0"
    "commit = commit0\<lparr>cm_cid := cm_cid commit\<rparr>"
    "commit_unsigned_bytes commit = Inr u" "wf_verify P E (vo_signing_key options) u (cm_sig commit) = Inr ()"
    "verify_mst_links P car (cm_data commit) 0 = Inr ()"
    by (rule verify_cases [OF assms(1)])
  have eq: "cm_data commit = cm_data commit0" "cm_sig commit = cm_sig commit0" "commit_unsigned_bytes commit = commit_unsigned_bytes commit0"
    by (subst v(7), simp)+
  have ne: "cm_data commit \<noteq> []" using commit_block_fields(5) [OF v(6)] eq(1) by auto
  from links_sound(1) [OF v(10) ne] obtain t where t: "mst_rep P car (cm_data commit) t" "height t \<le> 1025"
    "\<forall>x \<in> set (leaves t). wf_car_find_block car (snd x) \<noteq> None" by auto
  note rep = mst_rep_part [OF t(1) assms(2)]
  have "verify_mst_links P whole (cm_data commit) 0 = Inr ()"
    using t(3) car_part_find [OF assms(2)] by (intro links_complete [OF rep ne room_root [OF rep t(2)]]) fastforce
  then have links: "verify_mst_links P whole (cm_data commit0) 0 = Inr ()" using eq(1) by simp
  have "commit_unsigned_bytes commit0 = Inr u" "wf_verify P E (vo_signing_key options) u (cm_sig commit0) = Inr ()"
    using v(8,9) eq by simp_all
  from verify_intro [OF v(1,2) _ v(4) assms(4) car_part_find [OF assms(2) v(5)] v(6) this links] v(3) assms(3) show ?thesis by (subst v(7)) simp
qed

end
