(* ===== verification/Repo_Example.thy ===== *)
theory Repo_Example
  imports Repo_Spec Mst_Example
begin

text \<open>
  A concrete repository for the witnesses: one record is created in an empty repository, then replaced
  or deleted. The hash of the platform tells the blocks of these runs apart (every other input
  has one more digest), so the runs are free of collisions; every key has layer 0.
\<close>

section \<open>A platform that knows some items\<close>

definition digest_at :: "nat \<Rightarrow> bytes" where
  "digest_at i = replicate 32 (of_nat (0xf0 + i))"

definition cid_at :: "nat \<Rightarrow> wf_cid" where
  "cid_at i = wf_cid_from_hash (digest_at i)"

definition position :: "'a \<Rightarrow> 'a list \<Rightarrow> nat" where
  "position x xs = length (takeWhile (\<lambda>y. y \<noteq> x) xs)"

definition known_sha :: "bytes list \<Rightarrow> bytes \<Rightarrow> bytes" where
  "known_sha ks d = digest_at (position d ks)"

lemma position_le: "position x xs \<le> length xs"
  by (simp add: position_def length_takeWhile_le)

lemma position_less_iff: "position x xs < length xs \<longleftrightarrow> x \<in> set xs"
proof
  assume "position x xs < length xs"
  then have "xs ! position x xs = x" using nth_length_takeWhile [of "\<lambda>y. y \<noteq> x" xs] by (simp add: position_def)
  then show "x \<in> set xs" using \<open>position x xs < length xs\<close> nth_mem by metis
next
  assume "x \<in> set xs"
  then show "position x xs < length xs" by (induction xs) (auto simp: position_def)
qed

lemma position_inject: "x \<in> set xs \<Longrightarrow> position x xs = position y xs \<Longrightarrow> x = y"
  by (induction xs) (auto simp: position_def split: if_splits)

lemma digest_at_inject: "i \<le> 15 \<Longrightarrow> j \<le> 15 \<Longrightarrow> digest_at i = digest_at j \<longleftrightarrow> i = j"
proof -
  assume "i \<le> 15" "j \<le> 15"
  then have "unat (of_nat (240 + i) :: byte) = 240 + i" "unat (of_nat (240 + j) :: byte) = 240 + j"
    by (simp_all add: unat_of_nat del: of_nat_add)
  then show ?thesis unfolding digest_at_def by (metis add_left_cancel replicate_eq_replicate zero_neq_numeral)
qed

lemma cid_at_inject: "i \<le> 15 \<Longrightarrow> j \<le> 15 \<Longrightarrow> cid_at i = cid_at j \<longleftrightarrow> i = j"
  using digest_at_inject [of i j] by (auto simp: cid_at_def wf_cid_from_hash_def wf_cid_from_hash_codec_def digest_at_def)

lemma cid_at_ok [simp]: "cid_ok (cid_at i)" "cid_at i \<noteq> []"
proof -
  show "cid_ok (cid_at i)"
    unfolding cid_at_def wf_cid_from_hash_def by (rule cid_ok_from_hash_codec) (auto simp: digest_at_def)
qed (simp add: cid_at_def wf_cid_from_hash_def wf_cid_from_hash_codec_def)

text \<open>A CAR of known blocks, given by their positions.\<close>

definition known_car :: "bytes list \<Rightarrow> nat list \<Rightarrow> wf_car" where
  "known_car ks is = \<lparr>car_roots = [], car_blocks = map (\<lambda>i. \<lparr>blk_cid = cid_at i, blk_data = ks ! i\<rparr>) is\<rparr>"

lemma known_find:
  assumes "i \<le> 15" "\<forall>j \<in> set is. j \<le> 15"
  shows "wf_car_find_block (known_car ks is) (cid_at i) = (if i \<in> set is then Some \<lparr>blk_cid = cid_at i, blk_data = ks ! i\<rparr> else None)"
  using assms(2)
proof (induction "is")
  case (Cons j "is")
  then show ?case using cid_at_inject [OF _ assms(1), of j] by (auto simp: known_car_def wf_car_find_block_eq)
qed (simp add: known_car_def wf_car_find_block_eq)

lemma known_one_content: "\<forall>j \<in> set is. j \<le> 15 \<Longrightarrow> one_content (known_car ks is)"
  using cid_at_inject by (auto simp: one_content_def known_car_def)

definition known_plat :: "bytes list \<Rightarrow> platform" where
  "known_plat ks = ref_platform (known_sha ks)"

lemma known_plat_sha: "SHA256 (known_plat ks) d = digest_at (position d ks)"
  by (simp add: known_plat_def ref_platform_def known_sha_def)

lemma known_plat_laws: "platform_laws (known_plat ks)"
  unfolding known_plat_def by (rule ref_platform_laws) (simp add: known_sha_def digest_at_def)

lemma position_nth: "distinct ks \<Longrightarrow> i < length ks \<Longrightarrow> position (ks ! i) ks = i"
proof -
  assume a: "distinct ks" "i < length ks"
  then have "position (ks ! i) ks < length ks" by (simp add: position_less_iff)
  moreover from this have "ks ! position (ks ! i) ks = ks ! i"
    using nth_length_takeWhile [of "\<lambda>y. y \<noteq> ks ! i" ks] by (simp add: position_def)
  ultimately show ?thesis using a by (simp add: nth_eq_iff_index_eq)
qed

lemma known_layer: "length ks \<le> 15 \<Longrightarrow> wf_mst_key_layer (known_plat ks) k = 0"
proof -
  assume "length ks \<le> 15"
  then have "position k ks \<le> 15" using position_le [of k ks] by linarith
  then have "unat (of_nat (240 + position k ks) :: byte) = 240 + position k ks" by (simp add: unat_of_nat del: of_nat_add)
  then have "\<not> of_nat (240 + position k ks) < (64 :: byte)" "\<not> of_nat (240 + position k ks) < (16 :: byte)"
    "\<not> of_nat (240 + position k ks) < (4 :: byte)" "of_nat (240 + position k ks) \<noteq> (0 :: byte)"
    by (auto simp: word_less_nat_alt simp del: of_nat_add)
  then show ?thesis by (simp add: wf_mst_key_layer_def known_plat_sha digest_at_def numeral_eq_Suc del: of_nat_add of_nat_Suc)
qed

lemma known_collision_free:
  assumes "length ks \<le> 15" "\<forall>j \<in> set is. j < length ks"
  shows "collision_free (known_plat ks) (known_car ks is) L"
  unfolding collision_free_def
proof (intro allI impI)
  fix t :: mst and n :: nat and b
  assume t: "t \<noteq> MNil" "b \<in> set (car_blocks (known_car ks is))" "blk_cid b = tree_cid (known_plat ks) t"
  let ?d = "tree_bytes (known_plat ks) t"
  from t(2) assms(2) obtain i where b: "b = \<lparr>blk_cid = cid_at i, blk_data = ks ! i\<rparr>" "i < length ks" by (auto simp: known_car_def)
  have "tree_cid (known_plat ks) t = cid_at (position ?d ks)"
    using t(1) by (cases t) (simp_all add: tree_cid_Node known_plat_sha cid_at_def)
  then have "i = position ?d ks"
    using t(3) b assms(1) position_le [of ?d ks] cid_at_inject [of i "position ?d ks"] by simp
  then show "blk_data b = ?d" using b nth_length_takeWhile [of "\<lambda>y. y \<noteq> ?d" ks] by (simp add: position_def)
qed

section \<open>The blocks of the runs\<close>

definition rx_coll :: bytes where "rx_coll = ascii ''a''"
definition rx_rkey :: bytes where "rx_rkey = ascii ''a''"
definition rx_clock :: tid_clock where "rx_clock = fst (wf_tid_now 1 0 tid_clock_init)"

definition rx_entry :: "nat \<Rightarrow> wf_mst_entry" where
  "rx_entry i = \<lparr>ent_key = ka, ent_value = cid_at i, ent_subtree = []\<rparr>"

definition rx_sig :: bytes where
  "rx_sig = (case wf_p256_sign_hash ex_ec (replicate 32 5) (digest_at 8) of Inr s \<Rightarrow> s | Inl _ \<Rightarrow> [])"

definition rx_commit :: "tid_clock \<Rightarrow> nat \<Rightarrow> wf_cbor_item" where
  "rx_commit clock i = WF_CBOR_MAP (commit_map (cbor_str_of ex_did) (cbor_str_of (snd (wf_tid_now 1 0 clock))) (cbor_bytes rx_sig)
     (cbor_cid (cid_at i)) cbor_null (cbor_uint 3))"

text \<open>The record, its node and commit; another record, its node and commit; the empty node and its commit.\<close>

definition rx_items :: "wf_cbor_item list" where
  "rx_items =
     [WF_CBOR_MAP [], mst_node_item [] [rx_entry 0], rx_commit tid_clock_init 1,
      cbor_null, mst_node_item [] [rx_entry 3], rx_commit rx_clock 4,
      mst_node_item [] [], rx_commit rx_clock 6]"

definition rx_known :: "bytes list" where
  "rx_known = map wf_cbor_ser_write_item rx_items"

definition rx_plat :: platform where
  "rx_plat = known_plat rx_known"

definition rx_env :: repo_env where
  "rx_env = \<lparr>env_plat = rx_plat, env_ec = ex_ec, env_now = 1, env_rand = 0\<rparr>"

interpretation rx: platform_laws rx_plat
  unfolding rx_plat_def by (rule known_plat_laws)

lemma rx_key: "repo_mst_key rx_coll rx_rkey = ka"
  by (simp add: repo_mst_key_def rx_coll_def rx_rkey_def ka_def ascii_def)

text \<open>Canonical items of small depth are told apart by their encodings.\<close>

definition plain_item :: "wf_cbor_item \<Rightarrow> bool" where
  "plain_item i \<longleftrightarrow> canonical rx_plat i \<and> cbor_nesting (to_libcbor i) \<le> 65"

lemma plain_item_inject: "plain_item i \<Longrightarrow> plain_item j \<Longrightarrow> wf_cbor_ser_write_item i = wf_cbor_ser_write_item j \<longleftrightarrow> i = j"
  using rx.parse_write unfolding plain_item_def by (metis option.inject)

lemma rx_sign: "wf_p256_sign_hash ex_ec (replicate 32 5) h = Inr (case wf_p256_sign_hash ex_ec (replicate 32 5) h of Inr s \<Rightarrow> s | Inl _ \<Rightarrow> [])"
  using be_mac [of "replicate 32 5" h]
  by (auto simp: ex_ec_def wf_p256_sign_hash_def wf_p256_normalize_s_def split: option.splits)

lemma rx_sign_msg: "msg \<noteq> [] \<Longrightarrow> SHA256 P msg = digest_at 8 \<Longrightarrow> wf_sign P ex_ec (ex_key WF_KEY_TYPE_P256) msg 64 = Inr rx_sig"
  using rx_sign [of "digest_at 8"] unfolding rx_sig_def [symmetric] by (simp add: wf_sign_def ex_key_def)

lemma rx_sig_length: "length rx_sig = 64"
proof -
  have "length (be_bytes 32 n) = 32" for n by (simp add: be_bytes_def)
  then show ?thesis
    using be_mac [of "replicate 32 5" "digest_at 8"]
    by (auto simp: rx_sig_def ex_ec_def wf_p256_sign_hash_def wf_p256_normalize_s_def BN_bn2binpad32_def split: option.splits if_splits)
qed

lemma rx_text:
  "text_ok rx_plat ex_did" "length (c_str ex_did) < 256"
  "text_ok rx_plat (snd (wf_tid_now 1 0 clock))" "length (c_str (snd (wf_tid_now 1 0 clock))) < 64"
proof -
  obtain clock' rv where tid: "wf_tid_now 1 0 clock = (clock', rv)" by fastforce
  show "text_ok rx_plat (snd (wf_tid_now 1 0 clock))" "length (c_str (snd (wf_tid_now 1 0 clock))) < 64"
    using rx.text_ok_ascii tid_now_text [OF tid] length_c_str [of rv] by (auto simp: tid)
qed (use rx.text_ok_ascii ex_text in auto)

lemma plain_commit: "plain_item (rx_commit clock i)"
proof -
  have "canonical rx_plat (rx_commit clock i)"
    unfolding rx_commit_def
    using rx.canonical_text [OF rx_text(1,2)] rx.canonical_text [OF rx_text(3) less_trans [OF rx_text(4)]] rx_sig_length cid_at_ok(1) [of i]
    by (intro rx.canonical_commit_map) (auto simp: cbor_bytes_def cbor_cid_def cbor_null_def cbor_uint_def cid_ok_def)
  moreover have "cbor_nesting (to_libcbor (rx_commit clock i)) \<le> 65"
    unfolding rx_commit_def by (rule commit_map_nesting) (auto simp: cbor_str_of_def cbor_bytes_def cbor_cid_def cbor_null_def cbor_uint_def)
  ultimately show ?thesis by (simp add: plain_item_def)
qed

lemma rx_node_ok: "node_ok [] [rx_entry i]" "node_ok [] []"
  by (auto simp: node_ok_def entry_ok_def rx_entry_def ex_keys)

lemma plain_items: "list_all plain_item rx_items"
proof -
  have "plain_item (mst_node_item [] es)" if "node_ok [] es" for es
    using rx.canonical_node [OF that] node_nesting by (simp add: plain_item_def)
  then show ?thesis using plain_commit rx_node_ok
    by (simp add: rx_items_def) (simp add: plain_item_def cbor_null_def)
qed

lemma rx_items_distinct: "distinct rx_items"
proof -
  have "mst_node_item [] [rx_entry 0] \<noteq> mst_node_item [] [rx_entry 3]" "rx_commit c 1 \<noteq> rx_commit c' 4"
    "rx_commit c 1 \<noteq> rx_commit c' 6" "rx_commit c 4 \<noteq> rx_commit c' 6" for c c'
    using cid_at_inject [of 0 3] cid_at_inject [of 1 4] cid_at_inject [of 1 6] cid_at_inject [of 4 6]
    by (auto simp: mst_node_item_def rx_entry_def rx_commit_def commit_map_def Let_def cbor_cid_def)
  then show ?thesis
    by (auto simp: rx_items_def mst_node_item_def rx_commit_def commit_map_def cbor_null_def)
qed

lemma rx_known_distinct: "distinct rx_known" "length rx_known = 8"
proof -
  have "inj_on wf_cbor_ser_write_item (set rx_items)"
    using plain_items plain_item_inject by (auto simp: inj_on_def list_all_iff)
  then show "distinct rx_known" using rx_items_distinct by (simp add: rx_known_def distinct_map)
qed (simp add: rx_known_def rx_items_def)

text \<open>Digests: of a block its position, of anything else that is plain the next one.\<close>

lemma rx_sha_known: "i < 8 \<Longrightarrow> SHA256 rx_plat (wf_cbor_ser_write_item (rx_items ! i)) = digest_at i"
  using position_nth [of rx_known i] rx_known_distinct by (simp add: rx_plat_def known_plat_sha rx_known_def)

lemma rx_sha_other: "plain_item i \<Longrightarrow> i \<notin> set rx_items \<Longrightarrow> SHA256 rx_plat (wf_cbor_ser_write_item i) = digest_at 8"
proof -
  assume "plain_item i" "i \<notin> set rx_items"
  then have "wf_cbor_ser_write_item i \<notin> set rx_known"
    using plain_items plain_item_inject by (auto simp: rx_known_def list_all_iff)
  then have "position (wf_cbor_ser_write_item i) rx_known = 8"
    using position_less_iff [of "wf_cbor_ser_write_item i" rx_known] position_le [of "wf_cbor_ser_write_item i" rx_known] rx_known_distinct(2) by simp
  then show ?thesis by (simp add: rx_plat_def known_plat_sha)
qed

lemma rx_layer [simp]: "wf_mst_key_layer rx_plat k = 0"
  unfolding rx_plat_def by (rule known_layer) (simp add: rx_known_distinct)

section \<open>The runs\<close>

definition rx_car :: "nat list \<Rightarrow> wf_car" where
  "rx_car is = known_car rx_known is"

abbreviation rx_signer :: wf_signing_key where
  "rx_signer \<equiv> ex_key WF_KEY_TYPE_P256"

lemma rx_car_snoc: "rx_car is\<lparr>car_blocks := car_blocks (rx_car is) @ [\<lparr>blk_cid = cid_at i, blk_data = rx_known ! i\<rparr>]\<rparr> = rx_car (is @ [i])"
  by (simp add: rx_car_def known_car_def)

lemma rx_find:
  assumes "i < 8" "\<forall>j \<in> set is. j < 8"
  shows "wf_car_find_block (rx_car is) (cid_at i) = (if i \<in> set is then Some \<lparr>blk_cid = cid_at i, blk_data = rx_known ! i\<rparr> else None)"
  unfolding rx_car_def by (rule known_find) (use assms in force)+

lemma rx_clean: "\<forall>j \<in> set is. j < 8 \<Longrightarrow> collision_free rx_plat (rx_car is) L \<and> one_content (rx_car is)"
  using known_collision_free [of rx_known "is" L] known_one_content [of "is" rx_known] rx_known_distinct(2)
  by (fastforce simp: rx_car_def rx_plat_def)

lemma rx_known_nth: "i < 8 \<Longrightarrow> rx_known ! i = wf_cbor_ser_write_item (rx_items ! i)"
  using rx_known_distinct(2) by (simp add: rx_known_def)

lemma rx_write_nonempty: "plain_item i \<Longrightarrow> wf_cbor_ser_write_item i \<noteq> []"
  using write_item_rfc [of rx_plat i] rfc_enc_nonempty [of "to_libcbor i"] by (auto simp: plain_item_def)

lemma plain_item_at: "i < 8 \<Longrightarrow> plain_item (rx_items ! i)"
  using plain_items rx_known_distinct(2) by (simp add: list_all_length rx_known_def)

lemma plain_serialize: "plain_item i \<Longrightarrow> wf_cbor_serialize i = Some (wf_cbor_ser_write_item i)"
  using canonical_simple_fits [THEN wf_cbor_serialize_some] unfolding plain_item_def by blast

lemma rx_cid_of_block: "i < 8 \<Longrightarrow> wf_cid_of_block rx_plat (rx_known ! i) = Inr (cid_at i)"
  using rx_sha_known [of i] rx_write_nonempty [of "rx_items ! i"] plain_items
  by (simp add: rx_known_nth wf_cid_of_block_def cid_at_def list_all_length rx_items_def)

lemma rx_put:
  assumes "i < 8" "\<forall>j \<in> set is. j < 8" "i \<notin> set is"
  shows "repo_put_block (rx_car is) (cid_at i) (rx_known ! i) = rx_car (is @ [i])"
  using rx_find [OF assms(1,2)] assms(3) rx_car_snoc by (simp add: repo_put_block_def)

lemma rx_write:
  assumes "i < 8" "\<forall>j \<in> set is. j < 8" "i \<notin> set is" "rx_items ! i = mst_node_item [] es" "node_ok [] es" "es = [] \<or> es = [rx_entry k]"
  shows "mst_write_node rx_plat (rx_car is) 0 [] es = (rx_car (is @ [i]), Inr (cid_at i))"
proof -
  have "mst_write_node rx_plat (rx_car is) 0 [] es =
      and_then (mst_store_node rx_plat (wf_mst_node_build 0 [] es) (rx_car is)) (\<lambda>car node. (car, Inr (node_cid node)))"
    using assms(6) by (auto simp: mst_write_node_def wf_mst_node_finalize.simps) (simp_all add: wf_mst_node_build_def rx_entry_def effective_layer_def)
  moreover have "wf_cbor_serialize (mst_node_item [] es) = Some (rx_known ! i)"
    using rx.serialize_node [OF assms(5)] assms(1,4) by (simp add: rx_known_nth node_bytes_def)
  ultimately show ?thesis
    using rx_find [OF assms(1,2)] assms(3) rx_cid_of_block [OF assms(1)] rx_car_snoc
    by (simp add: mst_store_node_def wf_mst_node_build_def)
qed

lemma rx_commit_run:
  assumes "i < 8" "\<forall>j \<in> set is. j < 8" "rx_items ! i = rx_commit clock n"
  shows "repo_commit rx_env ex_did (cid_at n) prev rx_signer (rx_car is, clock) =
    ((rx_car (is @ [i]), fst (wf_tid_now 1 0 clock)), Inr (cid_at i))"
proof -
  obtain clock' rv where tid: "wf_tid_now 1 0 clock = (clock', rv)" by fastforce
  let ?u = "WF_CBOR_MAP (commit_pairs ex_did rv (cid_at n) cbor_null 3)"
  have "canonical rx_plat ?u"
    using rx.canonical_text [OF rx_text(1,2)] rx.canonical_text [OF rx_text(3) less_trans [OF rx_text(4)], of clock] cid_at_ok(1) [of n]
    by (intro rx.canonical_unsigned_map) (auto simp: tid cbor_cid_def cbor_null_def cid_ok_def)
  moreover have "cbor_nesting (to_libcbor ?u) \<le> Suc 2"
    unfolding commit_pairs_def to_libcbor.simps
    by (intro nesting_le(2)) (auto simp: cbor_str_def cbor_str_of_def cbor_cid_def cbor_null_def cbor_uint_def)
  ultimately have u: "plain_item ?u" unfolding plain_item_def by linarith
  have "?u \<notin> set rx_items"
    by (auto simp: rx_items_def mst_node_item_def rx_commit_def commit_map_def commit_pairs_def cbor_null_def cbor_str_def ascii_def)
  then have sign: "wf_sign rx_plat ex_ec rx_signer (wf_cbor_ser_write_item ?u) 64 = Inr rx_sig"
    using rx_sign_msg [OF rx_write_nonempty [OF u] rx_sha_other [OF u]] by blast
  have m: "take 2 (commit_pairs ex_did rv (cid_at n) cbor_null 3) @ (cbor_str ''sig'', cbor_bytes rx_sig) #
      drop 2 (commit_pairs ex_did rv (cid_at n) cbor_null 3) =
      commit_map (cbor_str_of ex_did) (cbor_str_of rv) (cbor_bytes rx_sig) (cbor_cid (cid_at n)) cbor_null (cbor_uint 3)"
    by (simp add: commit_pairs_def commit_map_def)
  have "WF_CBOR_MAP (commit_map (cbor_str_of ex_did) (cbor_str_of rv) (cbor_bytes rx_sig) (cbor_cid (cid_at n)) cbor_null (cbor_uint 3)) = rx_items ! i"
    by (simp add: assms(3) rx_commit_def tid)
  moreover have "wf_cbor_serialize ?u = Some (wf_cbor_ser_write_item ?u)" "wf_cbor_serialize (rx_items ! i) = Some (rx_known ! i)"
    using plain_serialize [OF u] plain_serialize [OF plain_item_at [OF assms(1)]] by (simp_all only: rx_known_nth [OF assms(1)])
  ultimately show ?thesis
    using rx_text(2) rx_text(4) [of clock] sign rx_cid_of_block [OF assms(1)] rx_car_snoc [of "is" i]
    by (simp add: repo_commit_def rx_env_def tid wf_commit_create_def m Let_def del: wf_cbor_ser_write_item.simps)
qed

interpretation rx_writer: repo_writer rx_env ex_did rx_signer ex_pub
proof (rule repo_writer.intro)
  show "platform_laws (env_plat rx_env)" using rx.platform_laws_axioms by (simp add: rx_env_def)
  show "ec_laws (env_ec rx_env)" using ex_ec.ec_laws_axioms by (simp add: rx_env_def)
  show "\<exists>sig. wf_sign (env_plat rx_env) (env_ec rx_env) rx_signer msg 64 = Inr sig" if "msg \<noteq> []" for msg
    using ex_sign [OF that] by (simp add: rx_env_def)
qed (use rx_text ex_pub_key in \<open>simp_all add: rx_env_def\<close>)

definition rx_rec :: bytes where "rx_rec = rx_known ! 0"
definition rx_rec2 :: bytes where "rx_rec2 = rx_known ! 3"

lemma rx_rec_nonempty: "rx_rec \<noteq> []" "rx_rec2 \<noteq> []"
  using rx_cid_of_block [of 0] rx_cid_of_block [of 3] by (auto simp: rx_rec_def rx_rec2_def wf_cid_of_block_def)

lemma rx_rec_no_commit: "wf_commit_parse rx_plat rx_rec \<noteq> Inr commit"
proof -
  have "plain_item (rx_items ! 0)" "rx_items ! 0 = WF_CBOR_MAP []" using plain_item_at [of 0] by (simp_all add: rx_items_def)
  then have "wf_cbor_parse rx_plat rx_rec = Some (WF_CBOR_MAP [])"
    using rx.parse_write [of "WF_CBOR_MAP []"] rx_known_nth [of 0] unfolding plain_item_def rx_rec_def by simp
  then show ?thesis by (simp add: wf_commit_parse_def wf_cbor_map_find_def commit_string_def)
qed

lemma rx_record_cid: "record_cid rx_plat rx_rec = cid_at 0" "record_cid rx_plat rx_rec2 = cid_at 3"
  using rx_cid_of_block [of 0] rx_cid_of_block [of 3] rx_rec_nonempty by (auto simp: rx_rec_def rx_rec2_def)

lemma rx_item_at:
  "rx_items ! 1 = mst_node_item [] [rx_entry 0]" "rx_items ! 2 = rx_commit tid_clock_init 1" "rx_items ! 4 = mst_node_item [] [rx_entry 3]"
  "rx_items ! 5 = rx_commit rx_clock 4" "rx_items ! 6 = mst_node_item [] []" "rx_items ! 7 = rx_commit rx_clock 6"
  by (simp_all add: rx_items_def)

lemma rx_add: "wf_mst_add 1026 rx_plat (rx_car [0]) [] ka (cid_at 0) = Some (rx_car [0, 1], Inr (cid_at 1))"
proof -
  have "wf_mst_add 1026 rx_plat (rx_car [0]) [] ka (cid_at 0) = Some (mst_write_node rx_plat (rx_car [0]) 0 [] [rx_entry 0])"
    using ex_keys(1) by (simp add: numeral_eq_Suc rx_entry_def Let_def ka_def ascii_def)
  then show ?thesis using rx_write [of 1 "[0]"] rx_item_at rx_node_ok by simp
qed

lemma rx_create: "wf_repo_create_record 1026 rx_env None ex_did rx_coll rx_rkey rx_rec rx_signer (rx_car [], tid_clock_init) =
    Some ((rx_car [0, 1, 2], rx_clock), Inr (cid_at 2, cid_at 0))"
  using rx_rec_nonempty(1) rx_cid_of_block [of 0] rx_put [of 0 "[]"] rx_add rx_commit_run [of 2 "[0, 1]" tid_clock_init 1 None] rx_item_at(2)
  by (simp add: wf_repo_create_record_def Let_def rx_key repo_head_root_def then_commit_def rx_rec_def rx_clock_def)
    (simp add: rx_env_def rx_key repo_head_root_def then_commit_def)

text \<open>The head after the creation.\<close>

lemma rx_head: "head_holds rx_plat L (rx_car [0, 1, 2]) (Some (cid_at 2)) [(ka, cid_at 0)]" if "(ka, cid_at 0) \<in> L"
proof -
  have "ins_leaf ka (cid_at 0) [] = [(ka, cid_at 0)]" by (simp add: ins_leaf_def)
  with rx_writer.create_record_holds [OF head_holds_empty rx_rec_nonempty(1), of rx_coll rx_rkey L "rx_car []" tid_clock_init] rx_create
    rx_clean [of "[0, 1, 2]" L] that
  have "published rx_env ex_did ex_pub L (rx_car [0, 1, 2]) (cid_at 2) [(ka, cid_at 0)]"
    by (simp add: rx_key ex_keys rx_record_cid) (simp add: rx_env_def rx_record_cid)
  then show ?thesis by (auto simp: rx_env_def dest: published_holds)
qed

lemma rx_load:
  "mst_load_node rx_plat (rx_car [0, 1, 2]) (cid_at 1) = Inr \<lparr>node_cid = cid_at 1, node_layer = 0, node_left = [], node_entries = [rx_entry 0]\<rparr>"
proof -
  let ?t = "MNode MNil [(ka, cid_at 0, MNil)]"
  have b: "tree_bytes rx_plat ?t = rx_known ! 1"
    by (simp add: tree_bytes.simps rx_known_nth [of 1, simplified] rx_item_at(1) [simplified] node_bytes_def rx_entry_def)
  have c: "tree_cid rx_plat ?t = cid_at 1"
    unfolding tree_cid_Node b using rx_sha_known [of 1] rx_known_nth [of 1] by (simp add: cid_at_def)
  have "mst_stored rx_plat (rx_car [0, 1, 2]) ?t"
    using rx_find [of 1 "[0, 1, 2]"] by (simp add: b [simplified] c [simplified])
  moreover have "leaves_ok (leaves ?t)" by (simp add: leaves_ok_def ex_keys)
  ultimately show ?thesis
    using rx.load_stored [of "rx_car [0, 1, 2]" MNil "[(ka, cid_at 0, MNil)]" True 0] by (simp add: c [simplified] rx_entry_def)
qed

lemma rx_update_value: "mst_update_value 1026 rx_plat (rx_car [0, 1, 2]) (cid_at 1) ka (cid_at 3) = Some (rx_car [0, 1, 2, 4], Inr (cid_at 4))"
proof -
  have "ka \<noteq> []" by (simp add: ka_def ascii_def)
  moreover have "key_cmp ka ka = 0" by code_simp
  moreover have "rx_entry 0\<lparr>ent_value := cid_at 3\<rparr> = rx_entry 3" by (simp add: rx_entry_def)
  ultimately have "mst_update_value 1026 rx_plat (rx_car [0, 1, 2]) (cid_at 1) ka (cid_at 3) =
      Some (mst_write_node rx_plat (rx_car [0, 1, 2]) 0 [] [rx_entry 3])"
    using rx_load by (simp add: numeral_eq_Suc repo_load_eq repo_mst_find_ge_def repo_mst_key_cmp_def rx_entry_def)
  then show ?thesis using rx_write [of 4 "[0, 1, 2]" "[rx_entry 3]" 3] rx_item_at rx_node_ok by simp
qed

lemma rx_parse_commit:
  assumes "i < 8" "rx_items ! i = rx_commit clock n"
  obtains commit where "wf_commit_parse rx_plat (rx_known ! i) = Inr commit" "cm_data commit = cid_at n" "\<not> cm_has_prev commit"
proof -
  let ?rv = "snd (wf_tid_now 1 0 clock)"
  have "canonical rx_plat (cbor_str_of ex_did)" "canonical rx_plat (cbor_str_of ?rv)"
    using rx.canonical_text [OF rx_text(1,2)] rx.canonical_text [OF rx_text(3) less_trans [OF rx_text(4)]] by auto
  moreover have "wf_cbor_serialize (rx_commit clock n) = Some (rx_known ! i)"
    using plain_serialize [OF plain_commit] rx_known_nth [OF assms(1)] assms(2) by simp
  ultimately show thesis
    using that rx.commit_parse_stored [OF _ _ cid_at_ok(1) rx_sig_length rx_text(2,4)] unfolding rx_commit_def by fastforce
qed

lemma rx_load_commit: "\<exists>commit. repo_load_commit rx_plat (rx_car [0, 1, 2]) (cid_at 2) = Inr commit \<and> cm_data commit = cid_at 1"
proof -
  obtain commit where "wf_commit_parse rx_plat (rx_known ! 2) = Inr commit" "cm_data commit = cid_at 1"
    by (rule rx_parse_commit [OF _ rx_item_at(2)]) simp
  then show ?thesis using rx_find [of 2 "[0, 1, 2]"] by (simp add: repo_load_commit_def)
qed

lemma rx_update: "wf_repo_update_record 1026 rx_env (cid_at 2) ex_did rx_coll rx_rkey rx_rec2 rx_signer (rx_car [0, 1, 2], rx_clock) =
    Some ((rx_car [0, 1, 2, 4, 3, 5], fst (wf_tid_now 1 0 rx_clock)), Inr (cid_at 5, cid_at 3))"
  using rx_load_commit rx_rec_nonempty(2) rx_cid_of_block [of 3] rx_put [of 3 "[0, 1, 2, 4]"] rx_update_value
    rx_commit_run [of 5 "[0, 1, 2, 4, 3]" rx_clock 4 "Some (cid_at 2)"] rx_item_at(4)
  by (auto simp: wf_repo_update_record_def Let_def rx_key then_commit_def rx_rec2_def rx_env_def)

lemma rx_mst_delete: "wf_mst_delete 1026 rx_plat (rx_car [0, 1, 2]) (cid_at 1) ka = Some (rx_car [0, 1, 2], Inr [])"
proof -
  have "ka \<noteq> []" by (simp add: ka_def ascii_def)
  moreover have "wf_mst_key_cmp ka ka = 0" by code_simp
  ultimately show ?thesis
    using rx_load
    by (simp add: wf_mst_delete_def numeral_eq_Suc Let_def mst_find_ge_def mst_delete_at_layer_def
        mst_merge_subtrees.simps depth_exceeded_def mst_strip_loop.simps rx_entry_def)
qed

lemma rx_delete: "wf_repo_delete_record 1026 rx_env (Some (cid_at 2)) ex_did rx_coll rx_rkey rx_signer (rx_car [0, 1, 2], rx_clock) =
    Some ((rx_car [0, 1, 2, 6, 7], fst (wf_tid_now 1 0 rx_clock)), Inr (cid_at 7))"
  using rx_load_commit rx_mst_delete rx_write [of 6 "[0, 1, 2]" "[]"] rx_node_ok rx_item_at(5,6)
    rx_commit_run [of 7 "[0, 1, 2, 6]" rx_clock 6 "Some (cid_at 2)"]
  by (auto simp: wf_repo_delete_record_def Let_def rx_key then_commit_def rx_env_def repo_head_root_def repo_concrete_root_def)

definition rx_write_create :: wf_repo_write where
  "rx_write_create = \<lparr>wr_action = WF_REPO_WRITE_CREATE, wr_collection = rx_coll, wr_rkey = rx_rkey, wr_record = rx_rec\<rparr>"

lemma rx_batch: "wf_repo_apply_writes 1026 rx_env None ex_did [rx_write_create] rx_signer (rx_car [], tid_clock_init) =
    Some ((rx_car [0, 1, 2], rx_clock), Inr (cid_at 2, [cid_at 0]))"
proof -
  have "rx_coll \<noteq> []" "rx_rkey \<noteq> []" by (simp_all add: rx_coll_def rx_rkey_def ascii_def)
  then have "repo_stage_write 1026 rx_plat rx_write_create (rx_car []) [] = Some (rx_car [0, 1], Inr (cid_at 1, cid_at 0))"
    using rx_rec_nonempty(1) rx_record_cid(1) rx_put [of 0 "[]"] rx_add
    by (simp add: repo_stage_write_def rx_write_create_def rx_key Let_def repo_concrete_root_def)
      (simp add: rx_rec_def)
  then show ?thesis
    using rx_commit_run [of 2 "[0, 1]" tid_clock_init 1 None] rx_item_at(2)
    by (simp add: wf_repo_apply_writes_def Let_def repo_head_root_def then_commit_def repo_concrete_root_def rx_clock_def)
      (simp add: rx_env_def then_commit_def repo_concrete_root_def)
qed

end
