(* ===== verification/Diff_Example.thy ===== *)
theory Diff_Example
  imports Diff_Apply Repo_Example
begin

text \<open>
  A concrete difference for the witnesses: the repository with one record is the base, the blocks of
  the run that replaces the record are the update.
\<close>

definition rx_at :: "nat list \<Rightarrow> nat \<Rightarrow> wf_car" where
  "rx_at is c = rx_car is\<lparr>car_roots := [cid_at c]\<rparr>"

definition rx_options :: wf_repo_verify_options where
  "rx_options = \<lparr>vo_expected_did = ex_did, vo_signing_key = ex_pub, vo_expected_prev = None\<rparr>"

definition rx_block :: "nat \<Rightarrow> wf_car_block" where
  "rx_block i = \<lparr>blk_cid = cid_at i, blk_data = rx_known ! i\<rparr>"

lemma rx_block_sel [simp]: "blk_cid (rx_block i) = cid_at i" "blk_data (rx_block i) = rx_known ! i"
  by (simp_all add: rx_block_def)

lemma rx_at_blocks [simp]: "car_blocks (rx_at is c) = map rx_block is" "car_roots (rx_at is c) = [cid_at c]"
  by (simp_all add: rx_at_def rx_car_def known_car_def rx_block_def [abs_def])

lemma rx_at_find:
  "i < 8 \<Longrightarrow> \<forall>j \<in> set is. j < 8 \<Longrightarrow> wf_car_find_block (rx_at is c) (cid_at i) = (if i \<in> set is then Some (rx_block i) else None)"
  using rx_find [of i "is"] by (simp add: rx_at_def wf_car_find_block_eq rx_block_def)

lemma rx_at_snoc: "rx_at is c\<lparr>car_blocks := map rx_block is @ [rx_block i]\<rparr> = rx_at (is @ [i]) c"
  by (simp add: rx_at_def rx_car_def known_car_def rx_block_def [abs_def])

lemma rx_at_empty: "\<lparr>car_roots = [cid_at c], car_blocks = []\<rparr> = rx_at [] c"
  by (simp add: rx_at_def rx_car_def known_car_def)

lemma rx_blocks_ok: "\<forall>j \<in> set is. j < 8 \<Longrightarrow> distinct is \<Longrightarrow> blocks_ok rx_plat (map rx_block is)"
proof -
  assume a: "\<forall>j \<in> set is. j < 8" "distinct is"
  have "inj_on cid_at (set is)"
  proof (rule inj_onI)
    fix x y assume "x \<in> set is" "y \<in> set is" "cid_at x = cid_at y"
    then show "x = y" using cid_at_inject [of x y] a(1) by fastforce
  qed
  then show ?thesis using a rx_cid_of_block by (auto simp: blocks_ok_def block_ok_def distinct_map comp_def)
qed

lemma rx_valid:
  assumes "\<forall>j \<in> set is. j < 8" "distinct is"
  shows "repo_car_validate_blocks rx_plat (rx_at is c) = Inr ()" "length is \<le> SIZE_MAX div 2 div SIZEOF_WF_CID"
proof -
  have "card (set is) \<le> card {..<8 :: nat}" using assms(1) by (intro card_mono) auto
  then have "length is \<le> 8" using assms(2) by (simp add: distinct_card)
  then show bound: "length is \<le> SIZE_MAX div 2 div SIZEOF_WF_CID" by simp
  show "repo_car_validate_blocks rx_plat (rx_at is c) = Inr ()"
    using validate_blocks_eq [of "rx_at is c" rx_plat] rx_blocks_ok [OF assms] bound by simp
qed

lemma rx_part: "\<forall>j \<in> set js. j < 8 \<Longrightarrow> set is \<subseteq> set js \<Longrightarrow> car_part (rx_at is c) (rx_at js d)"
  by (auto simp: car_part_def rx_at_find)

section \<open>Verification\<close>

lemma ex_did_text: "c_str ex_did \<noteq> []"
  by code_simp

lemma rx_base_published: "published rx_env ex_did ex_pub UNIV (rx_car [0, 1, 2]) (cid_at 2) [(ka, cid_at 0)]"
proof -
  have "ins_leaf ka (cid_at 0) [] = [(ka, cid_at 0)]" by (simp add: ins_leaf_def)
  with rx_writer.create_record_holds [OF head_holds_empty rx_rec_nonempty(1), of rx_coll rx_rkey UNIV "rx_car []" tid_clock_init] rx_create
    rx_clean [of "[0, 1, 2]" UNIV]
  show ?thesis by (simp add: rx_key ex_keys rx_record_cid) (simp add: rx_env_def rx_record_cid)
qed

lemma rx_update_published: "published rx_env ex_did ex_pub UNIV (rx_car [0, 1, 2, 4, 3, 5]) (cid_at 5) [(ka, cid_at 3)]"
proof -
  have "head_holds (env_plat rx_env) UNIV (rx_car [0, 1, 2]) (Some (cid_at 2)) [(ka, cid_at 0)]"
    using rx_head [of UNIV] by (simp add: rx_env_def)
  from rx_writer.update_record_holds [OF this rx_rec_nonempty(2), of rx_coll rx_rkey rx_clock]
    rx_update rx_clean [of "[0, 1, 2, 4, 3, 5]" UNIV] ex_key_facts
  show ?thesis by (simp add: rx_key set_leaf_def) (simp add: rx_env_def rx_record_cid)
qed

lemma rx_verify_published:
  assumes "published rx_env ex_did ex_pub UNIV (rx_car is) (cid_at c) ls" "\<forall>j \<in> set is. j < 8" "distinct is"
  obtains commit where "wf_repo_verify rx_plat ex_ec (rx_at is c) rx_options = Inr commit" "cm_cid commit = cid_at c"
    "wf_mst_list rx_plat (rx_at is c) (cm_data commit) = Inr ls"
proof -
  have env: "env_plat rx_env = rx_plat" "env_ec rx_env = ex_ec" by (simp_all add: rx_env_def)
  have car: "car_blocks (rx_car is) = map rx_block is" using rx_at_blocks(1) [of "is" c] by (simp add: rx_at_def)
  from published_verifies [OF _ assms(1) ex_did_text, of None, unfolded env car length_map, OF rx.platform_laws_axioms rx_blocks_ok [OF assms(2,3)] rx_valid(2) [OF assms(2,3)]]
  show thesis using that by (auto simp: rx_at_def rx_options_def)
qed

section \<open>The difference\<close>

lemma rx_node_parse:
  assumes "n = 1 \<and> r = 0 \<or> n = 4 \<and> r = 3"
  shows "wf_mst_node_parse rx_plat (rx_known ! n) (cid_at n) =
    Inr \<lparr>node_cid = cid_at n, node_layer = 0, node_left = [], node_entries = [rx_entry r]\<rparr>"
proof -
  have "rx_known ! n = node_bytes [] [rx_entry r]" using assms rx_item_at by (auto simp: rx_known_nth node_bytes_def)
  then show ?thesis using rx.parse_node_bytes [OF rx_node_ok(1), of r "cid_at n"] by (simp add: entries_layer_def)
qed

text \<open>A commit, its node and its record are a verified repository, with any other blocks.\<close>

lemma rx_verified_small:
  assumes "published rx_env ex_did ex_pub UNIV (rx_car js) (cid_at i) ls" "\<forall>j \<in> set js. j < 8" "distinct js"
    "rx_items ! i = rx_commit clock n" "i < 8" "{i, n, r} \<subseteq> set ks" "\<forall>j \<in> set ks. j < 8" "distinct ks" "n = 1 \<and> r = 0 \<or> n = 4 \<and> r = 3"
  obtains commit where "wf_repo_verify rx_plat ex_ec (rx_at js i) rx_options = Inr commit"
    "wf_repo_verify rx_plat ex_ec (rx_at ks i) rx_options = Inr commit" "cm_cid commit = cid_at i" "cm_data commit = cid_at n" "\<not> cm_has_prev commit"
proof -
  obtain commit where big: "wf_repo_verify rx_plat ex_ec (rx_at js i) rx_options = Inr commit" "cm_cid commit = cid_at i"
    by (rule rx_verify_published [OF assms(1-3)])
  obtain root commit0 u where v: "c_str (vo_expected_did rx_options) \<noteq> []" "vo_signing_key rx_options \<noteq> []" "length (cm_cid commit) = 36"
    "wf_car_find_block (rx_at js i) (cm_cid commit) = Some root" "verify_commit_block rx_plat rx_options root = Inr commit0"
    "commit = commit0\<lparr>cm_cid := cm_cid commit\<rparr>"
    "commit_unsigned_bytes commit = Inr u" "wf_verify rx_plat ex_ec (vo_signing_key rx_options) u (cm_sig commit) = Inr ()"
    by (rule verify_cases [OF big(1)])
  have root: "root = rx_block i" using v(4) rx_at_find [OF assms(5,2)] big(2) by (simp split: if_splits)
  obtain parsed where "wf_commit_parse rx_plat (rx_known ! i) = Inr parsed" "cm_data parsed = cid_at n" "\<not> cm_has_prev parsed"
    by (rule rx_parse_commit [OF assms(5,4)])
  then have c0: "cm_data commit0 = cid_at n" "\<not> cm_has_prev commit0" using commit_block_parsed [OF v(5)] root by auto
  have eq: "cm_data commit = cm_data commit0" "cm_sig commit = cm_sig commit0" "commit_unsigned_bytes commit = commit_unsigned_bytes commit0"
    "cm_has_prev commit = cm_has_prev commit0" by (subst v(6), simp)+
  have find: "wf_car_find_block (rx_at ks i) (cid_at j) = Some (rx_block j)" if "j \<in> {i, n, r}" for j
    using rx_at_find [of j ks i] that assms(5-7,9) by auto
  have links: "verify_mst_links rx_plat (rx_at ks i) (cid_at n) 0 = Inr ()"
    using find [of n] find [of r] rx_node_parse [OF assms(9)] assms(6)
    by (subst verify_mst_links.simps) (auto simp: depth_exceeded_def rx_entry_def)
  have "wf_repo_verify rx_plat ex_ec (rx_at ks i) rx_options = Inr (commit0\<lparr>cm_cid := cid_at i\<rparr>)"
    by (rule verify_intro [OF v(1,2) _ _ rx_valid(1) [OF assms(7,8)] find [of i] v(5) [unfolded root]])
      (use v(3,7,8) big(2) eq links c0 in simp_all)
  then show thesis using that big v(6) eq c0 by simp
qed

lemma rx_verified:
  obtains base cur where "wf_repo_verify rx_plat ex_ec (rx_at [0, 1, 2] 2) rx_options = Inr base" "cm_cid base = cid_at 2" "cm_data base = cid_at 1"
    "wf_repo_verify rx_plat ex_ec (rx_at [3, 4, 5, 0, 1, 2] 5) rx_options = Inr cur" "cm_cid cur = cid_at 5" "cm_data cur = cid_at 4"
    "wf_repo_verify rx_plat ex_ec (rx_at [4, 3, 5] 5) rx_options = Inr cur" "\<not> cm_has_prev cur"
proof -
  obtain base where b: "wf_repo_verify rx_plat ex_ec (rx_at [0, 1, 2] 2) rx_options = Inr base" "cm_cid base = cid_at 2" "cm_data base = cid_at 1"
    by (rule rx_verified_small [OF rx_base_published _ _ rx_item_at(2), where r = 0 and ks = "[0, 1, 2]"]) auto
  obtain cur where c: "wf_repo_verify rx_plat ex_ec (rx_at [4, 3, 5] 5) rx_options = Inr cur" "cm_cid cur = cid_at 5" "cm_data cur = cid_at 4"
    "\<not> cm_has_prev cur"
    by (rule rx_verified_small [OF rx_update_published _ _ rx_item_at(4), where r = 3 and ks = "[4, 3, 5]"]) auto
  have "wf_repo_verify rx_plat ex_ec (rx_at [3, 4, 5, 0, 1, 2] 5) rx_options = Inr cur"
    by (rule verify_more [OF c(1)]) (auto intro!: rx_part rx_valid(1))
  then show thesis using that b c by blast
qed

lemma rx_collect:
  assumes "n = 1 \<and> r = 0 \<or> n = 4 \<and> r = 3"
  shows "repo_collect_mst rx_plat (rx_at [3, 4, 5, 0, 1, 2] 5) (cid_at n) ([], []) 0 = Inr ([(ka, cid_at r)], [cid_at n])"
proof -
  have find: "wf_car_find_block (rx_at [3, 4, 5, 0, 1, 2] 5) (cid_at i) = Some (rx_block i)" if "i \<in> {0, 1, 3, 4}" for i
    using rx_at_find [of i "[3, 4, 5, 0, 1, 2]" 5] that by auto
  have "length (cid_at n) = 36" "length (cid_at r) = 36" using cid_at_ok(1) by (simp_all add: cid_ok_def)
  then show ?thesis
    using assms find [of n] find [of r] rx_node_parse [OF assms] ex_key_facts
    by (subst repo_collect_mst.simps)
      (auto simp: depth_exceeded_def repo_cid_list_has_def repo_cid_list_add_def rx_entry_def repo_leaf_add_def)
qed

lemma rx_composite: "repo_composite_car (rx_at [0, 1, 2] 2) (rx_at [3, 4, 5] 5) = Inr (rx_at [3, 4, 5, 0, 1, 2] 5)"
proof -
  have "composite_loop (map rx_block js) (rx_at is 5) = Inr (rx_at (is @ js) 5)"
    if "distinct (is @ js)" "\<forall>j \<in> set (is @ js). j < 8" for "is" js
    using that
  proof (induction js arbitrary: "is")
    case (Cons j js)
    then have "wf_car_find_block (rx_at is 5) (cid_at j) = None" by (subst rx_at_find) auto
    then show ?case using Cons.IH [of "is @ [j]"] Cons.prems by (simp add: rx_at_snoc)
  qed simp
  from this [of "[]" "[3, 4, 5]"] this [of "[3, 4, 5]" "[0, 1, 2]"] show ?thesis by (simp add: repo_composite_car_def rx_at_empty)
qed

definition rx_op :: wf_repo_operation where
  "rx_op = \<lparr>ro_action = WF_REPO_UPDATE, ro_collection = rx_coll, ro_rkey = rx_rkey, ro_cid = cid_at 3, ro_prev = cid_at 0\<rparr>"

lemma rx_ops: "repo_diff_operations [(ka, cid_at 0)] [(ka, cid_at 3)] = Inr [rx_op]"
proof -
  have "repo_key_cmp ka ka = 0" by code_simp
  moreover have "takeWhile (\<lambda>b. b \<noteq> 47) ka = rx_coll" "drop 2 ka = rx_rkey" "length ka = 3" "0 \<notin> set ka" "47 \<notin> set rx_rkey" "length rx_coll = 1" "rx_rkey \<noteq> []"
    by code_simp+
  moreover have "cid_at 0 \<noteq> cid_at 3" using cid_at_inject [of 0 3] by simp
  ultimately show ?thesis
    by (simp add: push_op_def repo_operation_from_leaf_def Let_def rx_op_def numeral_2_eq_2) auto
qed

text \<open>The difference, given the two commits.\<close>

definition rx_diff :: "wf_commit \<Rightarrow> wf_commit \<Rightarrow> wf_repo_diff" where
  "rx_diff base cur = \<lparr>df_operations = [rx_op], df_commit = cur, df_previous_commit = cid_at 2, df_since = cm_rev base,
     df_new_blocks = rx_at [4, 3, 5] 5, df_removed_cids = [cid_at 1, cid_at 0, cid_at 2]\<rparr>"

lemma rx_add_copy:
  assumes "i < 8" "\<forall>j \<in> set is. j < 8" "i \<notin> set is"
  shows "repo_car_add_copy (rx_at is c) (rx_block i) = Inr (rx_at (is @ [i]) c)"
  using rx_at_find [OF assms(1,2), of c] assms(3) rx_at_snoc by (simp add: repo_car_add_copy_def)

lemma rx_assemble:
  assumes "cm_cid cur = cid_at 5"
  shows "diff_assemble (rx_at [3, 4, 5, 0, 1, 2] 5) (rx_at [3, 4, 5] 5) (cid_at 2) base cur
    ([(ka, cid_at 0)], [cid_at 1]) ([(ka, cid_at 3)], [cid_at 4]) = Inr (rx_diff base cur)"
proof -
  have ne: "cid_at i = cid_at j \<longleftrightarrow> i = j" if "i < 8" "j < 8" for i j using cid_at_inject [of i j] that by simp
  have find: "wf_car_find_block (rx_at [3, 4, 5, 0, 1, 2] 5) (cid_at i) = Some (rx_block i)" if "i \<in> {4, 5}" for i
    using rx_at_find [of i "[3, 4, 5, 0, 1, 2]" 5] that by auto
  have upd: "wf_car_find_block (rx_at [3, 4, 5] 5) (cid_at 3) = Some (rx_block 3)" using rx_at_find [of 3 "[3, 4, 5]" 5] by simp
  note copy = rx_add_copy [of 4 "[]" 5, simplified] rx_add_copy [of 3 "[4]" 5, simplified] rx_add_copy [of 5 "[4, 3]" 5, simplified]
  have op: "ro_action rx_op = WF_REPO_UPDATE" "ro_cid rx_op = cid_at 3" "ro_prev rx_op = cid_at 0" by (simp_all add: rx_op_def)
  show ?thesis
    using find upd copy op ne rx_ops
    by (simp add: diff_assemble_def assms rx_at_empty repo_cid_list_has_def repo_car_add_cid_copy_def repo_diff_add_removed_def
        repo_leaves_have_cid_def Let_def rx_diff_def)
qed

lemma rx_diff_verify:
  assumes "wf_repo_verify rx_plat ex_ec (rx_at [0, 1, 2] 2) rx_options = Inr base" "cm_data base = cid_at 1"
    "wf_repo_verify rx_plat ex_ec (rx_at [3, 4, 5, 0, 1, 2] 5) rx_options = Inr cur" "cm_cid cur = cid_at 5" "cm_data cur = cid_at 4"
  shows "wf_repo_diff_verify rx_plat ex_ec (rx_at [0, 1, 2] 2) (cid_at 2) (rx_at [3, 4, 5] 5) rx_options = Inr (rx_diff base cur)"
proof -
  have "rx_options\<lparr>vo_expected_prev := None\<rparr> = rx_options" by (simp add: rx_options_def)
  moreover have "length (cid_at i) = 36" for i using cid_at_ok(1) [of i] by (simp add: cid_ok_def)
  ultimately show ?thesis
    using assms rx_composite rx_valid(1) [of "[3, 4, 5]" 5] rx_collect [of 1 0] rx_collect [of 4 3] rx_assemble [OF assms(4), of base]
    by (simp add: wf_repo_diff_verify_def single_root_def)
qed

lemma rx_diff_apply:
  assumes "wf_repo_verify rx_plat ex_ec (rx_at [4, 3, 5] 5) rx_options = Inr cur" "cm_cid cur = cid_at 5" "\<not> cm_has_prev cur"
  shows "wf_repo_diff_apply rx_plat (rx_at [0, 1, 2] 2) (rx_diff base cur) = Inr (rx_at [4, 3, 5] 5)"
proof -
  obtain root commit0 where v: "repo_car_validate_blocks rx_plat (rx_at [4, 3, 5] 5) = Inr ()"
    "wf_car_find_block (rx_at [4, 3, 5] 5) (cm_cid cur) = Some root"
    "verify_commit_block rx_plat rx_options root = Inr commit0" "cur = commit0\<lparr>cm_cid := cm_cid cur\<rparr>" "length (cm_cid cur) = 36"
    "verify_mst_links rx_plat (rx_at [4, 3, 5] 5) (cm_data cur) 0 = Inr ()"
    by (rule verify_cases [OF assms(1)])
  have len: "length (cid_at i) = 36" for i using cid_at_ok(1) [of i] by (simp add: cid_ok_def)
  have diff: "df_commit (rx_diff base cur) = cur" "df_new_blocks (rx_diff base cur) = rx_at [4, 3, 5] 5" "df_previous_commit (rx_diff base cur) = cid_at 2"
    by (simp_all add: rx_diff_def)
  have "commit_agrees commit0 cur" using assms(3) commit_block_fields(5) [OF v(3)]
    by (subst v(4), subst (asm) v(4)) (auto simp: commit_agrees_def)
  moreover have "apply_copy_loop (repo_removed_has (rx_diff base cur)) (map rx_block [0, 1, 2]) (rx_at [] 5) = Inr (rx_at [] 5)"
    using len by (simp add: repo_removed_has_def rx_diff_def)
  moreover have "apply_copy_loop (\<lambda>_. False) (map rx_block [4, 3, 5]) (rx_at [] 5) = Inr (rx_at [4, 3, 5] 5)"
    using rx_add_copy [of 4 "[]" 5] rx_add_copy [of 3 "[4]" 5] rx_add_copy [of 5 "[4, 3]" 5] by simp
  moreover have "cm_data cur = cm_data commit0" by (subst v(4)) simp
  ultimately show ?thesis
    using v(1,2,6) commit_block_parsed [OF v(3)] assms(2) len
    by (simp add: wf_repo_diff_apply_def single_root_def diff rx_at_empty del: apply_copy_loop.simps)
qed

end
