(* ===== verification/Repo_Props.thy ===== *)
theory Repo_Props
  imports Repo_Example
begin

text \<open>
  Properties of repositories: the batch of writes, and the single writes with what is read afterwards.
  The conclusions hold for runs whose CAR shows no hash collision: \<open>collision_free\<close> for nodes of the
  tree and \<open>one_content\<close> for blocks in general.
\<close>

text \<open>C1: a batch of writes is atomic and refines the specification. \<open>wf_repo_apply_writes\<close> always returns and only
  appends to the CAR, so the previous head still stands for the previous records. If the specification
  rejects a write of the batch (an empty name or record, an invalid key, a record that exists or does not
  exist), the call fails with that status and no commit is returned; otherwise it returns one commit,
  signed with the writer's key, which stands for the records after all writes in order, and the CID of each record written.\<close>

theorem apply_writes_refines:
  assumes "repo_writer env did key pub" "head_holds (env_plat env) L car head ls"
    "\<forall>w \<in> set ws. write_ok (env_plat env) L w" "length ls + length ws < 2 ^ 64" "ws \<noteq> []"
    "\<And>n st' res. 0 < n \<Longrightarrow> wf_repo_apply_writes 1026 env head did (take n ws) key (car, clock) = Some (st', res) \<Longrightarrow>
        collision_free (env_plat env) (fst st') L \<and> one_content (fst st')"
  shows "\<exists>st' res. wf_repo_apply_writes 1026 env head did ws key (car, clock) = Some (st', res) \<and> car_ext car (fst st') \<and>
    head_holds (env_plat env) L (fst st') head ls \<and>
    (case spec_writes (env_plat env) ls ws of
       Inl e \<Rightarrow> res = Inl e
     | Inr (ls', cs) \<Rightarrow> \<exists>c. res = Inr (c, cs) \<and> published env did pub L (fst st') c ls')"
proof -
  from repo_writer.apply_writes_holds [OF assms(1-5)] assms(6) obtain st' res where
    r: "wf_repo_apply_writes 1026 env head did ws key (car, clock) = Some (st', res)" "car_ext car (fst st')"
    "case spec_writes (env_plat env) ls ws of Inl e \<Rightarrow> res = Inl e
     | Inr (ls', cs) \<Rightarrow> \<exists>c. res = Inr (c, cs) \<and> published env did pub L (fst st') c ls'" by blast
  with head_holds_ext [OF assms(2) r(2)] show ?thesis by blast
qed

theorem apply_writes_refines_witness:
  "\<exists>c. wf_repo_apply_writes 1026 rx_env None ex_did [rx_write_create] rx_signer (rx_car [], tid_clock_init) =
      Some ((rx_car [0, 1, 2], rx_clock), Inr (c, [cid_at 0])) \<and>
    published rx_env ex_did ex_pub {(ka, cid_at 0)} (rx_car [0, 1, 2]) c [(ka, cid_at 0)]"
proof -
  let ?L = "{(ka, cid_at 0)}"
  have wk: "write_key rx_write_create = ka" by (simp add: write_key_def rx_write_create_def rx_key)
  have "write_ok rx_plat ?L rx_write_create"
    using ex_key_facts by (simp add: write_ok_def write_leaf_def wk) (simp add: rx_write_create_def rx_record_cid)
  moreover have "spec_writes rx_plat [] [rx_write_create] = Inr ([(ka, cid_at 0)], [cid_at 0])"
  proof -
    have "wr_collection rx_write_create \<noteq> []" "wr_rkey rx_write_create \<noteq> []" "wr_action rx_write_create = WF_REPO_WRITE_CREATE"
      "wr_record rx_write_create = rx_rec"
      by (simp_all add: rx_write_create_def rx_coll_def rx_rkey_def ascii_def)
    then show ?thesis using rx_rec_nonempty(1) by (simp add: spec_write_def wk ex_keys rx_record_cid ins_leaf_def)
  qed
  moreover have "take n [rx_write_create] = [rx_write_create]" if "0 < n" for n using that by (cases n) auto
  moreover have "collision_free (env_plat rx_env) (fst st') ?L \<and> one_content (fst st')"
    if "0 < n" "wf_repo_apply_writes 1026 rx_env None ex_did (take n [rx_write_create]) rx_signer (rx_car [], tid_clock_init) = Some (st', res)"
    for n st' res
    using calculation(3) [OF that(1)] that(2) rx_batch rx_clean [of "[0, 1, 2]" ?L] by (auto simp: rx_env_def)
  note clean = this
  have "\<exists>st' res. wf_repo_apply_writes 1026 rx_env None ex_did [rx_write_create] rx_signer (rx_car [], tid_clock_init) = Some (st', res) \<and>
      car_ext (rx_car []) (fst st') \<and> head_holds (env_plat rx_env) ?L (fst st') None [] \<and>
      (case spec_writes (env_plat rx_env) [] [rx_write_create] of Inl e \<Rightarrow> res = Inl e
       | Inr (ls', cs) \<Rightarrow> \<exists>c. res = Inr (c, cs) \<and> published rx_env ex_did ex_pub ?L (fst st') c ls')"
    by (rule apply_writes_refines [OF rx_writer.repo_writer_axioms head_holds_empty]) (use calculation(1) clean in \<open>auto simp: rx_env_def\<close>)
  ultimately show ?thesis using rx_batch by (auto simp: rx_env_def)
qed

text \<open>C16: creating and reading back: \<open>wf_repo_create_record\<close> of a new key returns a commit at which
  \<open>wf_repo_get_record\<close> answers with the bytes of the record and its CID; at every other key the answer is the
  record the previous head had there, or \<open>WF_ERR_NOT_FOUND\<close>.\<close>

theorem create_then_get:
  assumes "repo_writer env did key pub" "head_holds (env_plat env) L car head ls" "record_cbor \<noteq> []"
    "wf_mst_key_is_valid (repo_mst_key coll rkey)" "repo_mst_key coll rkey \<notin> fst ` set ls"
    "(repo_mst_key coll rkey, record_cid (env_plat env) record_cbor) \<in> L" "Suc (length ls) < 2 ^ 64"
  shows "\<exists>st' res. wf_repo_create_record 1026 env head did coll rkey record_cbor key (car, clock) = Some (st', res) \<and> car_ext car (fst st') \<and>
    (collision_free (env_plat env) (fst st') L \<and> one_content (fst st') \<and>
       (\<forall>b \<in> set (car_blocks (fst st')). blk_cid b = record_cid (env_plat env) record_cbor \<longrightarrow> blk_data b = record_cbor) \<longrightarrow>
     (\<exists>c. res = Inr (c, record_cid (env_plat env) record_cbor) \<and>
        wf_repo_get_record (env_plat env) (fst st') c coll rkey = Inr (record_cbor, record_cid (env_plat env) record_cbor) \<and>
        (\<forall>coll' rkey'. repo_mst_key coll' rkey' \<noteq> repo_mst_key coll rkey \<and> length (repo_mst_key coll' rkey') < 2 ^ 31 \<longrightarrow>
           wf_repo_get_record (env_plat env) (fst st') c coll' rkey' =
             (case map_of ls (repo_mst_key coll' rkey') of
                None \<Rightarrow> Inl WF_ERR_NOT_FOUND
              | Some v \<Rightarrow> Inr (blk_data (the (wf_car_find_block car v)), v)))))"
proof -
  let ?P = "env_plat env" and ?k = "repo_mst_key coll rkey"
  let ?rc = "record_cid ?P record_cbor"
  let ?ls = "ins_leaf ?k ?rc ls"
  have plat: "platform_laws ?P" using assms(1) by (simp add: repo_writer_def)
  from repo_writer.create_record_holds [OF assms(1-4,6,7), of clock] obtain st' res where
    run: "wf_repo_create_record 1026 env head did coll rkey record_cbor key (car, clock) = Some (st', res)" "car_ext car (fst st')"
    "collision_free ?P (fst st') L \<and> one_content (fst st') \<longrightarrow> (\<exists>c. res = Inr (c, ?rc) \<and> published env did pub L (fst st') c ?ls)" by blast
  have get: "wf_repo_get_record ?P (fst st') c coll rkey = Inr (record_cbor, ?rc)"
    if h: "published env did pub L (fst st') c ?ls" "\<forall>b \<in> set (car_blocks (fst st')). blk_cid b = ?rc \<longrightarrow> blk_data b = record_cbor" for c
  proof -
    have "map_of ?ls ?k = Some ?rc" using assms(5) by (simp add: map_of_ins_leaf)
    moreover from this have "?rc \<in> snd ` set ?ls" by (auto dest: map_of_SomeD intro: rev_image_eqI)
    then obtain b where b: "wf_car_find_block (fst st') ?rc = Some b"
      using get_record_holds(2) [OF plat published_holds [OF h(1)] platform_laws.key_short [OF plat assms(4)]] by blast
    ultimately show ?thesis
      using get_record_holds(1) [OF plat published_holds [OF h(1)] platform_laws.key_short [OF plat assms(4)]] h(2) find_block_mem [OF b] by simp
  qed
  have other: "wf_repo_get_record ?P (fst st') c coll' rkey' = (case map_of ls (repo_mst_key coll' rkey') of
        None \<Rightarrow> Inl WF_ERR_NOT_FOUND | Some v \<Rightarrow> Inr (blk_data (the (wf_car_find_block car v)), v))"
    if h: "published env did pub L (fst st') c ?ls" "repo_mst_key coll' rkey' \<noteq> ?k" "length (repo_mst_key coll' rkey') < 2 ^ 31" for c coll' rkey'
  proof -
    have "wf_car_find_block (fst st') v = wf_car_find_block car v \<and> wf_car_find_block car v \<noteq> None"
      if "map_of ls (repo_mst_key coll' rkey') = Some v" for v
    proof -
      have "v \<in> snd ` set ls" using map_of_SomeD [OF that] by force
      then have "wf_car_find_block car v \<noteq> None" using assms(2) by (auto simp: head_holds_def root_holds_def records_stored_def)
      then show ?thesis using find_block_ext [OF run(2)] by fastforce
    qed
    then show ?thesis
      using get_record_holds(1) [OF plat published_holds [OF h(1)] h(3)] h(2) by (auto simp: map_of_ins_leaf split: option.split)
  qed
  show ?thesis
    using run get other by blast
qed

theorem create_then_get_witness:
  "wf_repo_create_record 1026 rx_env None ex_did rx_coll rx_rkey rx_rec rx_signer (rx_car [], tid_clock_init) =
     Some ((rx_car [0, 1, 2], rx_clock), Inr (cid_at 2, cid_at 0)) \<and>
   wf_repo_get_record rx_plat (rx_car [0, 1, 2]) (cid_at 2) rx_coll rx_rkey = Inr (rx_rec, cid_at 0)"
proof -
  have "\<forall>b \<in> set (car_blocks (rx_car [0, 1, 2])). blk_cid b = cid_at 0 \<longrightarrow> blk_data b = rx_rec"
    using cid_at_inject [of _ 0] by (simp add: rx_car_def known_car_def rx_rec_def)
  then show ?thesis
    using create_then_get [OF rx_writer.repo_writer_axioms head_holds_empty rx_rec_nonempty(1), of rx_coll rx_rkey UNIV "rx_car []" tid_clock_init]
      rx_create rx_clean [of "[0, 1, 2]" UNIV]
    by (simp add: rx_key ex_keys) (simp add: rx_env_def rx_record_cid)
qed

text \<open>C17: replacing a record: \<open>wf_repo_update_record\<close> of a key that the head does not bind fails with
  \<open>WF_ERR_NOT_FOUND\<close> and changes nothing; otherwise it returns a signed commit that stands for the same records with
  this one replaced, under which reading the key gives the new CID.\<close>

theorem update_record_refines:
  assumes "repo_writer env did key pub" "head_holds (env_plat env) L car (Some head) ls" "record_cbor \<noteq> []"
    "length (repo_mst_key coll rkey) < 2 ^ 31" "(repo_mst_key coll rkey, record_cid (env_plat env) record_cbor) \<in> L"
  shows "\<exists>st' res. wf_repo_update_record 1026 env head did coll rkey record_cbor key (car, clock) = Some (st', res) \<and> car_ext car (fst st') \<and>
    (if repo_mst_key coll rkey \<in> fst ` set ls
     then collision_free (env_plat env) (fst st') L \<and> one_content (fst st') \<longrightarrow>
       (\<exists>c data. res = Inr (c, record_cid (env_plat env) record_cbor) \<and>
          published env did pub L (fst st') c (set_leaf (repo_mst_key coll rkey) (record_cid (env_plat env) record_cbor) ls) \<and>
          wf_repo_get_record (env_plat env) (fst st') c coll rkey = Inr (data, record_cid (env_plat env) record_cbor))
     else st' = (car, clock) \<and> res = Inl WF_ERR_NOT_FOUND)"
proof -
  let ?P = "env_plat env" and ?k = "repo_mst_key coll rkey"
  let ?rc = "record_cid ?P record_cbor"
  let ?ls = "set_leaf ?k ?rc ls"
  have plat: "platform_laws ?P" using assms(1) by (simp add: repo_writer_def)
  have get: "\<exists>data. wf_repo_get_record ?P car' c coll rkey = Inr (data, ?rc)"
    if "?k \<in> fst ` set ls" "published env did pub L car' c ?ls" for c car'
  proof -
    have m: "map_of ?ls ?k = Some ?rc" using that(1) by (simp add: map_of_set_leaf)
    then have "?rc \<in> snd ` set ?ls" by (auto dest: map_of_SomeD intro: rev_image_eqI)
    then show ?thesis using get_record_holds [OF plat published_holds [OF that(2)] assms(4)] m by (auto split: option.splits)
  qed
  from repo_writer.update_record_holds [OF assms, of clock] obtain st' res where
    run: "wf_repo_update_record 1026 env head did coll rkey record_cbor key (car, clock) = Some (st', res)" "car_ext car (fst st')"
    "if ?k \<in> fst ` set ls
     then collision_free ?P (fst st') L \<and> one_content (fst st') \<longrightarrow> (\<exists>c. res = Inr (c, ?rc) \<and> published env did pub L (fst st') c ?ls)
     else st' = (car, clock) \<and> res = Inl WF_ERR_NOT_FOUND" by blast
  show ?thesis
  proof (cases "?k \<in> fst ` set ls")
    case True
    have "\<exists>c data. res = Inr (c, ?rc) \<and> published env did pub L (fst st') c ?ls \<and>
        wf_repo_get_record ?P (fst st') c coll rkey = Inr (data, ?rc)"
      if clean: "collision_free ?P (fst st') L \<and> one_content (fst st')"
    proof -
      obtain c where c: "res = Inr (c, ?rc)" "published env did pub L (fst st') c ?ls" using run(3) True clean by auto
      then show ?thesis using get [OF True c(2)] by blast
    qed
    with run(1,2) True show ?thesis by (simp only: if_True) blast
  next
    case False
    with run show ?thesis by auto
  qed
qed

theorem update_record_refines_witness:
  "wf_repo_update_record 1026 rx_env (cid_at 2) ex_did rx_coll rx_rkey rx_rec2 rx_signer (rx_car [0, 1, 2], rx_clock) =
     Some ((rx_car [0, 1, 2, 4, 3, 5], fst (wf_tid_now 1 0 rx_clock)), Inr (cid_at 5, cid_at 3)) \<and>
   published rx_env ex_did ex_pub UNIV (rx_car [0, 1, 2, 4, 3, 5]) (cid_at 5) [(ka, cid_at 3)]"
proof -
  have "head_holds (env_plat rx_env) UNIV (rx_car [0, 1, 2]) (Some (cid_at 2)) [(ka, cid_at 0)]"
    using rx_head [of UNIV] by (simp add: rx_env_def)
  from update_record_refines [OF rx_writer.repo_writer_axioms this rx_rec_nonempty(2), of rx_coll rx_rkey rx_clock]
    rx_update rx_clean [of "[0, 1, 2, 4, 3, 5]" UNIV] ex_key_facts
  show ?thesis by (simp add: rx_key set_leaf_def) (simp add: rx_env_def rx_record_cid)
qed

text \<open>C18: deleting a record: \<open>wf_repo_delete_record\<close> of a key that is not bound fails with \<open>WF_ERR_NOT_FOUND\<close> and changes
  nothing; otherwise it returns a signed commit that stands for the other records (an empty node when there are
  none), and at which reading the key answers \<open>WF_ERR_NOT_FOUND\<close>.\<close>

theorem delete_record_refines:
  assumes "repo_writer env did key pub" "head_holds (env_plat env) L car head ls"
    "length (repo_mst_key coll rkey) < 2 ^ 31" "Suc (length ls) < 2 ^ 64"
  shows "\<exists>st' res. wf_repo_delete_record 1026 env head did coll rkey key (car, clock) = Some (st', res) \<and> car_ext car (fst st') \<and>
    (if repo_mst_key coll rkey \<in> fst ` set ls
     then collision_free (env_plat env) (fst st') L \<and> one_content (fst st') \<longrightarrow>
       (\<exists>c. res = Inr c \<and> published env did pub L (fst st') c (del_leaf (repo_mst_key coll rkey) ls) \<and>
          wf_repo_get_record (env_plat env) (fst st') c coll rkey = Inl WF_ERR_NOT_FOUND)
     else st' = (car, clock) \<and> res = Inl WF_ERR_NOT_FOUND)"
proof -
  let ?P = "env_plat env" and ?k = "repo_mst_key coll rkey"
  have plat: "platform_laws ?P" using assms(1) by (simp add: repo_writer_def)
  have m: "map_of (del_leaf ?k ls) ?k = None" by (simp add: map_of_eq_None_iff del_leaf_def image_iff)
  have get: "wf_repo_get_record ?P car' c coll rkey = Inl WF_ERR_NOT_FOUND"
    if "published env did pub L car' c (del_leaf ?k ls)" for c car'
    using get_record_holds(1) [OF plat published_holds [OF that] assms(3)] m by simp
  from repo_writer.delete_record_holds [OF assms, of clock] obtain st' res where
    run: "wf_repo_delete_record 1026 env head did coll rkey key (car, clock) = Some (st', res)" "car_ext car (fst st')"
    "if ?k \<in> fst ` set ls
     then collision_free ?P (fst st') L \<and> one_content (fst st') \<longrightarrow> (\<exists>c. res = Inr c \<and> published env did pub L (fst st') c (del_leaf ?k ls))
     else st' = (car, clock) \<and> res = Inl WF_ERR_NOT_FOUND" by blast
  show ?thesis
  proof (cases "?k \<in> fst ` set ls")
    case True
    with run get show ?thesis by (simp only: if_True) blast
  next
    case False
    with run show ?thesis by auto
  qed
qed

theorem delete_record_refines_witness:
  "wf_repo_delete_record 1026 rx_env (Some (cid_at 2)) ex_did rx_coll rx_rkey rx_signer (rx_car [0, 1, 2], rx_clock) =
     Some ((rx_car [0, 1, 2, 6, 7], fst (wf_tid_now 1 0 rx_clock)), Inr (cid_at 7)) \<and>
   wf_repo_get_record rx_plat (rx_car [0, 1, 2, 6, 7]) (cid_at 7) rx_coll rx_rkey = Inl WF_ERR_NOT_FOUND"
proof -
  have "head_holds (env_plat rx_env) UNIV (rx_car [0, 1, 2]) (Some (cid_at 2)) [(ka, cid_at 0)]"
    using rx_head [of UNIV] by (simp add: rx_env_def)
  from delete_record_refines [OF rx_writer.repo_writer_axioms this, of rx_coll rx_rkey rx_clock]
    rx_delete rx_clean [of "[0, 1, 2, 6, 7]" UNIV] ex_key_facts
  show ?thesis by (simp add: rx_key) (simp add: rx_env_def)
qed

section \<open>Creating a record that exists\<close>

text \<open>
  \<open>wf_repo_create_record\<close> does not test for an existing record: on a bound key it succeeds, returns the CID
  of the new record and a new commit, but the commit still stands for the old records.
\<close>

lemma create_existing_dropped:
  assumes "repo_writer env did key pub" "head_holds (env_plat env) L car head ls" "record_cbor \<noteq> []"
    "wf_mst_key_is_valid (repo_mst_key coll rkey)" "repo_mst_key coll rkey \<in> fst ` set ls"
    "(repo_mst_key coll rkey, record_cid (env_plat env) record_cbor) \<in> L" "Suc (length ls) < 2 ^ 64"
  shows "\<exists>st' res. wf_repo_create_record 1026 env head did coll rkey record_cbor key (car, clock) = Some (st', res) \<and>
    (collision_free (env_plat env) (fst st') L \<and> one_content (fst st') \<longrightarrow>
     (\<exists>c. res = Inr (c, record_cid (env_plat env) record_cbor) \<and> published env did pub L (fst st') c ls))"
  using repo_writer.create_record_holds [OF assms(1-4,6,7), of clock] by (simp add: ins_leaf_present [OF assms(5)]) blast

end
