(* ===== verification/Diff_Props.thy ===== *)
theory Diff_Props
  imports Diff_Example Repo_Props
begin

text \<open>
  The properties of \<^verbatim>\<open>src/repo/diff.c\<close>: what verification accepts, that it accepts what this library writes,
  that the operations of a difference lead exactly from one repository to the other and back, and that a
  difference that has been verified and applied leaves a verified repository.
\<close>

section \<open>Properties\<close>

text \<open>\<open>repo_car_validate_blocks\<close>, which records the CIDs it has seen in an open-addressing hash table, is
  equivalent to the direct specification: it accepts when every block has the CID of its own bytes
  and no CID occurs twice, and otherwise fails with \<open>WF_ERR_PARSE\<close> (never with an exhausted table).\<close>

theorem validate_blocks_spec:
  assumes "length (car_blocks car) \<le> SIZE_MAX div 2 div SIZEOF_WF_CID"
  shows "repo_car_validate_blocks P car =
    (if (\<forall>b \<in> set (car_blocks car). wf_cid_of_block P (blk_data b) = Inr (blk_cid b)) \<and> distinct (map blk_cid (car_blocks car))
     then Inr () else Inl WF_ERR_PARSE)"
  using validate_blocks_eq [OF assms, of P] by (simp add: blocks_ok_def block_ok_def)

theorem validate_blocks_spec_witness:
  "repo_car_validate_blocks rx_plat (rx_at [0, 1, 2] 2) = Inr () \<and> repo_car_validate_blocks rx_plat (rx_at [0, 0] 2) = Inl WF_ERR_PARSE"
  using validate_blocks_spec [of "rx_at [0, 1, 2] 2" rx_plat] validate_blocks_spec [of "rx_at [0, 0] 2" rx_plat]
    rx_blocks_ok [of "[0, 1, 2]"] by (simp add: blocks_ok_def block_ok_def)

text \<open>C4: what \<open>wf_repo_verify\<close> accepts is sound: every block has the CID of its bytes, the only root is the commit
  that is returned, its fields are those of the root block, its DID is the expected one, its signature
  verifies over the commit without the signature, and the tree below it can be listed completely, every
  record it names being a block of the CAR.\<close>

theorem verify_sound:
  assumes "wf_repo_verify P E car options = Inr commit"
  shows "blocks_ok P (car_blocks car) \<and> car_roots car = [cm_cid commit] \<and>
    (\<exists>b. wf_car_find_block car (cm_cid commit) = Some b \<and> wf_commit_parse P (blk_data b) = Inr (commit\<lparr>cm_cid := []\<rparr>)) \<and>
    cm_version commit = 3 \<and> c_str (cm_did commit) = c_str (vo_expected_did options) \<and>
    (\<exists>u. commit_unsigned_bytes commit = Inr u \<and> wf_verify P E (vo_signing_key options) u (cm_sig commit) = Inr ()) \<and>
    (\<exists>ls. wf_mst_list P car (cm_data commit) = Inr ls \<and> (\<forall>x \<in> set ls. wf_car_find_block car (snd x) \<noteq> None))"
  by (rule verify_accepts [OF assms])

theorem verify_sound_witness:
  "\<exists>commit u. wf_repo_verify rx_plat ex_ec (rx_at [0, 1, 2] 2) rx_options = Inr commit \<and>
     commit_unsigned_bytes commit = Inr u \<and> wf_verify rx_plat ex_ec ex_pub u (cm_sig commit) = Inr ()"
proof -
  obtain base where v: "wf_repo_verify rx_plat ex_ec (rx_at [0, 1, 2] 2) rx_options = Inr base" by (rule rx_verified)
  from verify_sound [OF v] v show ?thesis by (auto simp: rx_options_def)
qed



text \<open>The operations between two repositories are exact. On leaves in key order with well-formed keys
  \<open>repo_diff_operations\<close> succeeds; no key occurs twice in its result, each operation states the record of its key
  before and after, which differ, a key without an operation has the same record in both, and applying the
  operations in order to the previous records gives the current ones.\<close>

theorem diff_operations_exact:
  assumes "leaf_list previous" "leaf_list current" "\<forall>x \<in> set previous \<union> set current. wf_mst_key_is_valid (fst x)"
  shows "\<exists>ops. repo_diff_operations previous current = Inr ops \<and> distinct (map ro_key ops) \<and>
    (\<forall>op \<in> set ops. map_of previous (ro_key op) = ro_before op \<and> map_of current (ro_key op) = ro_after op \<and> ro_before op \<noteq> ro_after op) \<and>
    (\<forall>k. k \<notin> ro_key ` set ops \<longrightarrow> map_of previous k = map_of current k) \<and>
    apply_ops (map_of previous) ops = map_of current"
proof -
  obtain ops where ops: "repo_diff_operations previous current = Inr ops" using diff_succeeds [OF assms(3)] by blast
  note e = diff_exact [OF assms(1,2) ops]
  show ?thesis using ops e exact_apply [OF e] unfolding ops_exact_def by blast
qed

theorem diff_operations_exact_witness:
  "repo_diff_operations [(ka, cid_at 0)] [(ka, cid_at 3)] = Inr [rx_op] \<and>
   apply_ops (map_of [(ka, cid_at 0)]) [rx_op] = map_of [(ka, cid_at 3)]"
proof -
  have "leaf_list [(ka, cid_at i)]" for i using ex_key_facts cid_at_ok(1) [of i] by (simp add: leaf_list_def cid_ok_def)
  from diff_operations_exact [OF this this, of 0 3] rx_ops ex_keys show ?thesis by auto
qed

text \<open>C37: inversion is a round trip: the operations that \<open>repo_diff_operations\<close> finds are accepted by
  \<open>wf_repo_operations_invert\<close>, the inverse leads from the current records back to the previous ones, and inverting
  the inverse gives the operations again.\<close>

theorem invert_roundtrip:
  assumes "leaf_list previous" "leaf_list current" "repo_diff_operations previous current = Inr ops"
  shows "\<exists>inverse. wf_repo_operations_invert ops = Inr inverse \<and> apply_ops (map_of current) inverse = map_of previous \<and>
    wf_repo_operations_invert inverse = Inr ops"
proof -
  obtain inverse where i: "wf_repo_operations_invert ops = Inr inverse" "wf_repo_operations_invert inverse = Inr ops"
    "ops_exact (map_of current) (map_of previous) inverse"
    by (rule invert_exact [OF diff_exact [OF assms] diff_wf [OF assms]])
  then show ?thesis using exact_apply [OF i(3)] by blast
qed

theorem invert_roundtrip_witness:
  "\<exists>inverse. wf_repo_operations_invert [rx_op] = Inr inverse \<and> wf_repo_operations_invert inverse = Inr [rx_op] \<and>
     apply_ops (map_of [(ka, cid_at 3)]) inverse = map_of [(ka, cid_at 0)]"
proof -
  have "leaf_list [(ka, cid_at i)]" for i using ex_key_facts cid_at_ok(1) [of i] by (simp add: leaf_list_def cid_ok_def)
  from invert_roundtrip [OF this this rx_ops] show ?thesis by blast
qed

text \<open>C14: a verified difference refines the difference of the records: when \<open>wf_repo_diff_verify\<close> succeeds, the base and
  the base with the update's blocks are verified repositories (the base under its announced commit, of which the
  difference states the revision), and the operations lead exactly from the records of the one to the
  records of the other.\<close>

theorem diff_verify_refines:
  assumes "wf_repo_diff_verify P E base base_commit update options = Inr diff"
  shows "\<exists>prev_commit composite ps cs.
    wf_repo_verify P E base (options\<lparr>vo_expected_prev := None\<rparr>) = Inr prev_commit \<and> cm_cid prev_commit = base_commit \<and>
    df_since diff = cm_rev prev_commit \<and>
    repo_composite_car base update = Inr composite \<and> wf_repo_verify P E composite options = Inr (df_commit diff) \<and>
    wf_mst_list P base (cm_data prev_commit) = Inr ps \<and> wf_mst_list P composite (cm_data (df_commit diff)) = Inr cs \<and>
    ops_exact (map_of ps) (map_of cs) (df_operations diff) \<and> apply_ops (map_of ps) (df_operations diff) = map_of cs"
proof -
  obtain prev_commit composite ps cs where d:
    "wf_repo_verify P E base (options\<lparr>vo_expected_prev := None\<rparr>) = Inr prev_commit" "cm_cid prev_commit = base_commit"
    "repo_composite_car base update = Inr composite" "wf_repo_verify P E composite options = Inr (df_commit diff)"
    "wf_mst_list P base (cm_data prev_commit) = Inr ps" "wf_mst_list P composite (cm_data (df_commit diff)) = Inr cs"
    "ops_exact (map_of ps) (map_of cs) (df_operations diff)" "df_since diff = cm_rev prev_commit"
    by (rule diff_verify_records [OF assms])
  then show ?thesis using exact_apply [OF d(7)] by blast
qed

theorem diff_verify_refines_witness:
  "\<exists>diff composite cs. wf_repo_diff_verify rx_plat ex_ec (rx_at [0, 1, 2] 2) (cid_at 2) (rx_at [3, 4, 5] 5) rx_options = Inr diff \<and>
     df_operations diff = [rx_op] \<and> wf_repo_verify rx_plat ex_ec composite rx_options = Inr (df_commit diff) \<and>
     wf_mst_list rx_plat composite (cm_data (df_commit diff)) = Inr cs"
proof -
  obtain base cur where v: "wf_repo_verify rx_plat ex_ec (rx_at [0, 1, 2] 2) rx_options = Inr base" "cm_data base = cid_at 1"
    "wf_repo_verify rx_plat ex_ec (rx_at [3, 4, 5, 0, 1, 2] 5) rx_options = Inr cur" "cm_cid cur = cid_at 5" "cm_data cur = cid_at 4"
    by (rule rx_verified)
  note d = rx_diff_verify [OF v]
  from diff_verify_refines [OF d] d show ?thesis by (intro exI [of _ "rx_diff base cur"]) (auto simp: rx_diff_def)
qed

text \<open>C3: an applied difference leaves a verified repository: when \<open>wf_repo_diff_verify\<close> and then \<open>wf_repo_diff_apply\<close>
  succeed on a base, the resulting CAR passes \<open>wf_repo_verify\<close> with the same options and the commit of the
  difference, although the removed blocks are gone, and its records are the records of the base with the
  operations of the difference applied.\<close>

theorem diff_apply_verified:
  assumes "wf_repo_diff_verify P E base base_commit update options = Inr diff" "wf_repo_diff_apply P base diff = Inr repo"
    "length (car_blocks repo) \<le> SIZE_MAX div 2 div SIZEOF_WF_CID"
  shows "wf_repo_verify P E repo options = Inr (df_commit diff) \<and>
    (\<exists>prev_commit ps cs. wf_repo_verify P E base (options\<lparr>vo_expected_prev := None\<rparr>) = Inr prev_commit \<and>
       wf_mst_list P base (cm_data prev_commit) = Inr ps \<and> wf_mst_list P repo (cm_data (df_commit diff)) = Inr cs \<and>
       map_of cs = apply_ops (map_of ps) (df_operations diff))"
proof -
  obtain prev_commit composite ps cs where d:
    "wf_repo_verify P E base (options\<lparr>vo_expected_prev := None\<rparr>) = Inr prev_commit"
    "repo_composite_car base update = Inr composite" "wf_repo_verify P E composite options = Inr (df_commit diff)"
    "wf_mst_list P base (cm_data prev_commit) = Inr ps" "wf_mst_list P composite (cm_data (df_commit diff)) = Inr cs"
    "ops_exact (map_of ps) (map_of cs) (df_operations diff)"
    by (rule diff_verify_records [OF assms(1)])
  note v = applied_verifies [OF assms d(2)]
  obtain t where t: "mst_rep P repo (cm_data (df_commit diff)) t" "wf_mst_list P repo (cm_data (df_commit diff)) = Inr (leaves t)"
    by (rule verified_rep [OF v(1)])
  obtain u where u: "mst_rep P composite (cm_data (df_commit diff)) u" "wf_mst_list P composite (cm_data (df_commit diff)) = Inr (leaves u)"
    by (rule verified_rep [OF d(3)])
  have "t = u" using mst_rep_functional [OF mst_rep_part [OF t(1) v(2)] u(1)] .
  then have "wf_mst_list P repo (cm_data (df_commit diff)) = Inr cs" using t(2) u(2) d(5) by simp
  then show ?thesis using v(1) d(1,4) exact_apply [OF d(6)] by auto
qed

theorem diff_apply_verified_witness:
  "\<exists>diff. wf_repo_diff_verify rx_plat ex_ec (rx_at [0, 1, 2] 2) (cid_at 2) (rx_at [3, 4, 5] 5) rx_options = Inr diff \<and>
     wf_repo_diff_apply rx_plat (rx_at [0, 1, 2] 2) diff = Inr (rx_at [4, 3, 5] 5) \<and>
     wf_repo_verify rx_plat ex_ec (rx_at [4, 3, 5] 5) rx_options = Inr (df_commit diff)"
proof -
  obtain base cur where v: "wf_repo_verify rx_plat ex_ec (rx_at [0, 1, 2] 2) rx_options = Inr base" "cm_data base = cid_at 1"
    "wf_repo_verify rx_plat ex_ec (rx_at [3, 4, 5, 0, 1, 2] 5) rx_options = Inr cur" "cm_cid cur = cid_at 5" "cm_data cur = cid_at 4"
    "wf_repo_verify rx_plat ex_ec (rx_at [4, 3, 5] 5) rx_options = Inr cur" "\<not> cm_has_prev cur"
    by (rule rx_verified)
  note d = rx_diff_verify [OF v(1-5)] and a = rx_diff_apply [OF v(6,4,7), of base]
  from diff_apply_verified [OF d a] d a show ?thesis by auto
qed

end
