(* ===== verification/Verify.thy ===== *)
theory Verify
  imports Diff_Example
begin

text \<open>
  Verification of commits for a DID: the model of \<^verbatim>\<open>src/repo/verify.c\<close> (less the call of the agent that fetches the
  CAR over the network) and of \<^verbatim>\<open>src/sync/sync_verify.c\<close>. The resolver that a client installs and the
  resolution of a DID document over the network are parameters: functions from the C strings they are
  called with to a status or a key. The process-wide \<^verbatim>\<open>g_resolver\<close> is passed as an argument.
\<close>

section \<open>The code\<close>

type_synonym wf_verify_key_resolver = "bytes \<Rightarrow> bytes option \<Rightarrow> bytes res"

text \<open>\<^verbatim>\<open>wf_did_resolve\<close>: the document of a DID may lack a signing key.\<close>

type_synonym did_client = "bytes \<Rightarrow> bytes option res"

definition is_atproto_key_id :: "bytes option \<Rightarrow> bytes option \<Rightarrow> bool" where
  "is_atproto_key_id did key_id =
     (case key_id of
        None \<Rightarrow> True
      | Some k \<Rightarrow>
          (if c_str k = [] then True
           else if c_str k = ascii ''atproto'' \<or> c_str k = ascii ''#atproto'' then True
           else case did of
                  None \<Rightarrow> False
                | Some d \<Rightarrow> take (length (c_str d)) (c_str k) = c_str d \<and> drop (length (c_str d)) (c_str k) = ascii ''#atproto''))"

definition resolve_via_resolver :: "wf_verify_key_resolver option \<Rightarrow> bytes option \<Rightarrow> bytes option \<Rightarrow> bytes res" where
  "resolve_via_resolver g_resolver did key_id =
     (case did of
        None \<Rightarrow> Inl WF_ERR_INVALID_ARG
      | Some d \<Rightarrow>
          if c_str d = [] then Inl WF_ERR_INVALID_ARG
          else case g_resolver of
                 None \<Rightarrow> Inl WF_ERR_INVALID_ARG
               | Some resolver \<Rightarrow> resolver d key_id)"

definition did_signing_key :: "did_client \<Rightarrow> bytes \<Rightarrow> bytes res" where
  "did_signing_key did_resolve did =
     (case did_resolve did of
        Inl s \<Rightarrow> Inl s
      | Inr None \<Rightarrow> Inl WF_ERR_NOT_FOUND
      | Inr (Some signing_key) \<Rightarrow> Inr signing_key)"

definition wf_verify_resolve_via_did :: "did_client option \<Rightarrow> bytes option \<Rightarrow> bytes option \<Rightarrow> bytes res" where
  "wf_verify_resolve_via_did client did key_id =
     (case did of
        None \<Rightarrow> Inl WF_ERR_INVALID_ARG
      | Some d \<Rightarrow>
          if c_str d = [] then Inl WF_ERR_INVALID_ARG
          else case client of
                 None \<Rightarrow> Inl WF_ERR_INVALID_ARG
               | Some did_resolve \<Rightarrow>
                   if \<not> is_atproto_key_id did key_id then Inl WF_ERR_NOT_FOUND else did_signing_key did_resolve d)"

text \<open>Without a resolver the live resolution is asked; it rejects a null DID.\<close>

definition wf_verify_resolve_signing_key ::
  "wf_verify_key_resolver option \<Rightarrow> bytes option \<Rightarrow> bytes option \<Rightarrow> did_client option \<Rightarrow> bytes res" where
  "wf_verify_resolve_signing_key g_resolver did key_id client =
     (let s = resolve_via_resolver g_resolver did key_id
      in if s \<noteq> Inl WF_ERR_INVALID_ARG then s
         else case client of
                None \<Rightarrow> Inl WF_ERR_INVALID_ARG
              | Some did_resolve \<Rightarrow>
                  if \<not> is_atproto_key_id did key_id then Inl WF_ERR_NOT_FOUND
                  else (case did of None \<Rightarrow> Inl WF_ERR_INVALID_ARG | Some d \<Rightarrow> did_signing_key did_resolve d))"

text \<open>The status and \<^verbatim>\<open>*out_valid\<close>.\<close>

definition wf_verify_record_commit :: "platform \<Rightarrow> ec_lib \<Rightarrow> bytes \<Rightarrow> bytes \<Rightarrow> unit res \<times> bool" where
  "wf_verify_record_commit P E signing_key_multibase commit_cbor =
     (if c_str signing_key_multibase = [] \<or> commit_cbor = [] then (Inl WF_ERR_INVALID_ARG, False)
      else case wf_car_parse P commit_cbor of
             Inl s \<Rightarrow> (Inl s, False)
           | Inr car \<Rightarrow>
               (case car_roots car of
                  [r] \<Rightarrow>
                    (case wf_car_find_block car r of
                       None \<Rightarrow> (Inl WF_ERR_NOT_FOUND, False)
                     | Some root \<Rightarrow>
                         (case wf_commit_parse P (blk_data root) of
                            Inl _ \<Rightarrow> (Inl WF_ERR_PARSE, False)
                          | Inr commit \<Rightarrow>
                              (case wf_repo_verify P E car \<lparr>vo_expected_did = cm_did commit, vo_signing_key = c_str signing_key_multibase,
                                                            vo_expected_prev = None\<rparr> of
                                 Inl s \<Rightarrow> (Inl s, False)
                               | Inr _ \<Rightarrow> (Inr (), True))))
                | _ \<Rightarrow> (Inl WF_ERR_PARSE, False)))"

definition wf_verify_record_commit_resolved ::
  "platform \<Rightarrow> ec_lib \<Rightarrow> wf_verify_key_resolver option \<Rightarrow> bytes option \<Rightarrow> bytes \<Rightarrow> unit res \<times> bool" where
  "wf_verify_record_commit_resolved P E g_resolver did commit_cbor =
     (if (case did of None \<Rightarrow> True | Some d \<Rightarrow> c_str d = []) \<or> commit_cbor = [] then (Inl WF_ERR_INVALID_ARG, False)
      else case resolve_via_resolver g_resolver did None of
             Inl s \<Rightarrow> (Inl s, False)
           | Inr signing_key \<Rightarrow> wf_verify_record_commit P E signing_key commit_cbor)"

text \<open>The commit event carries the DID of the repository and the bytes of a CAR; the result is the verified commit.\<close>

definition wf_sync_verify_commit ::
  "platform \<Rightarrow> ec_lib \<Rightarrow> wf_verify_key_resolver option \<Rightarrow> did_client \<Rightarrow> bytes \<Rightarrow> bytes \<Rightarrow> wf_commit res" where
  "wf_sync_verify_commit P E g_resolver client did blocks =
     (if blocks = [] then Inl WF_ERR_INVALID_ARG
      else case wf_car_parse P blocks of
             Inl s \<Rightarrow> Inl s
           | Inr car \<Rightarrow>
               (case wf_verify_resolve_signing_key g_resolver (Some did) None (Some client) of
                  Inl s \<Rightarrow> Inl s
                | Inr signing_key \<Rightarrow>
                    wf_repo_verify P E car \<lparr>vo_expected_did = did, vo_signing_key = c_str signing_key, vo_expected_prev = None\<rparr>))"

section \<open>What is accepted\<close>

lemma record_commit_valid:
  "snd (wf_verify_record_commit P E k bs) \<longleftrightarrow> fst (wf_verify_record_commit P E k bs) = Inr ()"
  by (auto simp: wf_verify_record_commit_def split: sum.splits list.splits option.splits)

text \<open>
  The DID that \<open>wf_verify_record_commit_resolved\<close> is asked about only selects the key: the commit is compared with
  its own DID, so a commit of any other DID that is signed with the same key is accepted.
\<close>

lemma resolved_ignores_did:
  assumes "c_str d \<noteq> []" "c_str d' \<noteq> []" "resolver d None = resolver d' None"
  shows "wf_verify_record_commit_resolved P E (Some resolver) (Some d) bs = wf_verify_record_commit_resolved P E (Some resolver) (Some d') bs"
  using assms by (simp add: wf_verify_record_commit_resolved_def resolve_via_resolver_def)

text \<open>C38: a commit event is verified against the DID it names: when \<open>wf_sync_verify_commit\<close> accepts, the installed
  resolver, or the live resolution when the resolver has no answer, has returned a key for this DID, the
  commit of the CAR carries this DID and a signature that this key verifies, every block has the CID of its
  bytes, and the whole tree of the commit is in the event.\<close>

theorem sync_verify_sound:
  assumes "wf_sync_verify_commit P E g_resolver client did blocks = Inr commit"
  shows "\<exists>key car u ls. (resolve_via_resolver g_resolver (Some did) None = Inr key \<or>
       resolve_via_resolver g_resolver (Some did) None = Inl WF_ERR_INVALID_ARG \<and> client did = Inr (Some key)) \<and>
    wf_car_parse P blocks = Inr car \<and> blocks_ok P (car_blocks car) \<and> car_roots car = [cm_cid commit] \<and>
    c_str (cm_did commit) = c_str did \<and> commit_unsigned_bytes commit = Inr u \<and> wf_verify P E (c_str key) u (cm_sig commit) = Inr () \<and>
    wf_mst_list P car (cm_data commit) = Inr ls \<and> (\<forall>x \<in> set ls. wf_car_find_block car (snd x) \<noteq> None)"
proof -
  from assms obtain car key where v: "wf_car_parse P blocks = Inr car" "wf_verify_resolve_signing_key g_resolver (Some did) None (Some client) = Inr key"
    "wf_repo_verify P E car \<lparr>vo_expected_did = did, vo_signing_key = c_str key, vo_expected_prev = None\<rparr> = Inr commit"
    by (auto simp: wf_sync_verify_commit_def split: if_splits sum.splits)
  have "resolve_via_resolver g_resolver (Some did) None = Inr key \<or>
      resolve_via_resolver g_resolver (Some did) None = Inl WF_ERR_INVALID_ARG \<and> client did = Inr (Some key)"
    using v(2) by (auto simp: wf_verify_resolve_signing_key_def Let_def did_signing_key_def split: if_splits sum.splits option.splits)
  then show ?thesis using v(1) verify_accepts [OF v(3)] by fastforce
qed

text \<open>The blocks of the example are small, so its CAR can be written and read back.\<close>

lemma sum_bound: "(\<And>x. x \<in> set xs \<Longrightarrow> f x \<le> (b :: nat)) \<Longrightarrow> sum_list (map f xs) \<le> length xs * b"
  by (induction xs) (auto simp: add_mono)

lemma uint_size_le: "wf_cbor_ser_uint_size n \<le> 9"
  by (simp add: wf_cbor_ser_uint_size_def)

lemma map_size_le:
  assumes "\<And>k v. (k, v) \<in> set ps \<Longrightarrow> wf_cbor_ser_item_size k + wf_cbor_ser_item_size v \<le> b"
  shows "wf_cbor_ser_item_size (WF_CBOR_MAP ps) \<le> 9 + length ps * b"
proof -
  have "sum_list (map (\<lambda>(k, v). wf_cbor_ser_item_size k + wf_cbor_ser_item_size v) ps) \<le> length ps * b"
    using assms by (intro sum_bound) auto
  then show ?thesis using uint_size_le [of "of_nat (length ps)"] by simp
qed

lemma array_size_le: "(\<And>x. x \<in> set xs \<Longrightarrow> wf_cbor_ser_item_size x \<le> b) \<Longrightarrow> wf_cbor_ser_item_size (WF_CBOR_ARRAY xs) \<le> 9 + length xs * b"
  using sum_bound [of xs wf_cbor_ser_item_size b] uint_size_le [of "of_nat (length xs)"] by simp

lemma leaf_size_le:
  "wf_cbor_ser_item_size (WF_CBOR_STRING s) \<le> 9 + length s" "wf_cbor_ser_item_size (WF_CBOR_BYTES s) \<le> 9 + length s"
  "wf_cbor_ser_item_size (WF_CBOR_LINK c) \<le> 12 + length c" "wf_cbor_ser_item_size (WF_CBOR_UNSIGNED n) \<le> 9"
  using uint_size_le [of "of_nat (length s)"] uint_size_le [of "of_nat (length c + 1)"] uint_size_le [of n] by auto

lemma less_3_cases: "(i :: nat) < 3 \<Longrightarrow> i = 0 \<or> i = 1 \<or> i = 2"
  by linarith

lemma rx_size: "i < 3 \<Longrightarrow> length (rx_known ! i) < 3000"
proof -
  assume i: "i < 3"
  have c: "wf_cbor_ser_item_size (cbor_cid (cid_at n)) \<le> 48" for n
    using leaf_size_le(3) [of "cid_at n"] cid_at_ok(1) [of n] by (simp add: cbor_cid_def cid_ok_def)
  have str: "wf_cbor_ser_item_size (cbor_str s) \<le> 9 + length s" for s using leaf_size_le(1) [of "ascii s"] by (simp add: cbor_str_def ascii_def)
  have byt: "wf_cbor_ser_item_size (cbor_bytes b) \<le> 9 + length b" for b using leaf_size_le(2) [of b] by (simp add: cbor_bytes_def)
  have num: "wf_cbor_ser_item_size (cbor_uint n) \<le> 9" for n using leaf_size_le(4) [of n] by (simp add: cbor_uint_def)
  have null: "wf_cbor_ser_item_size cbor_null \<le> 2" by (simp add: cbor_null_def)
  have "wf_cbor_ser_item_size (WF_CBOR_MAP ps) \<le> 9 + length ps * 150"
    if "ps = [(cbor_str ''k'', cbor_bytes ka), (cbor_str ''p'', cbor_uint 0), (cbor_str ''t'', cbor_null), (cbor_str ''v'', cbor_cid (cid_at 0))]" for ps
    using str [of "''k''"] str [of "''p''"] str [of "''t''"] str [of "''v''"] byt [of ka] num [of 0] null c [of 0] that
    by (intro map_size_le) (auto simp: ka_def ascii_def)
  then have entry: "wf_cbor_ser_item_size x \<le> 609" if "x \<in> set (mst_entry_items [] [rx_entry 0])" for x
    using that by (simp add: rx_entry_def cid_or_null_def del: wf_cbor_ser_item_size.simps)
  have "wf_cbor_ser_item_size (rx_items ! 0) \<le> 9" using map_size_le [of "[]" 0] by (simp add: rx_items_def)
  moreover have "wf_cbor_ser_item_size (rx_items ! 1) \<le> 9 + 2 * 700"
  proof -
    have "wf_cbor_ser_item_size (WF_CBOR_ARRAY (mst_entry_items [] [rx_entry 0])) \<le> 9 + length (mst_entry_items [] [rx_entry 0]) * 609"
      by (rule array_size_le [OF entry])
    then have "wf_cbor_ser_item_size (WF_CBOR_ARRAY (mst_entry_items [] [rx_entry 0])) \<le> 618"
      by (simp add: Let_def del: wf_cbor_ser_item_size.simps)
    then have "wf_cbor_ser_item_size (WF_CBOR_MAP ps) \<le> 9 + length ps * 700"
      if "ps = [(cbor_str ''e'', WF_CBOR_ARRAY (mst_entry_items [] [rx_entry 0])), (cbor_str ''l'', cbor_null)]" for ps
      using str [of "''e''"] str [of "''l''"] null that by (intro map_size_le) (auto simp del: mst_entry_items.simps wf_cbor_ser_item_size.simps)
    then show ?thesis unfolding rx_item_at(1) mst_node_item_def
      by (simp add: cid_or_null_def del: wf_cbor_ser_item_size.simps mst_entry_items.simps)
  qed
  moreover have "wf_cbor_ser_item_size (rx_items ! 2) \<le> 9 + 6 * 400"
  proof -
    let ?rv = "snd (wf_tid_now 1 0 tid_clock_init)"
    have text_size: "wf_cbor_ser_item_size (cbor_str_of s) \<le> 9 + length (c_str s)" for s
      using leaf_size_le(1) [of "c_str s"] by (simp add: cbor_str_of_def)
    have "wf_cbor_ser_item_size (WF_CBOR_MAP ps) \<le> 9 + length ps * 400"
      if "ps = commit_map (cbor_str_of ex_did) (cbor_str_of ?rv) (cbor_bytes rx_sig) (cbor_cid (cid_at 1)) cbor_null (cbor_uint 3)" for ps
    proof (rule map_size_le)
      fix k v assume "(k, v) \<in> set ps"
      then show "wf_cbor_ser_item_size k + wf_cbor_ser_item_size v \<le> 400"
        unfolding that commit_map_def
        using str [of "''did''"] str [of "''rev''"] str [of "''sig''"] str [of "''data''"] str [of "''prev''"] str [of "''version''"]
          text_size [of ex_did] text_size [of ?rv] rx_text(2) rx_text(4) [of tid_clock_init] byt [of rx_sig] rx_sig_length c [of 1] null num [of 3]
        by (auto simp del: wf_cbor_ser_item_size.simps)
    qed
    then show ?thesis unfolding rx_item_at(2) rx_commit_def by (simp add: commit_map_def del: wf_cbor_ser_item_size.simps)
  qed
  ultimately have "wf_cbor_ser_item_size (rx_items ! i) < 3000"
    using less_3_cases [OF i] by (elim disjE) simp_all
  then show ?thesis using write_item_bounded [of "rx_items ! i"] rx_known_nth [of i] i by simp
qed

lemma rx_car_bytes: "wf_car_parse rx_plat (wf_car_write (rx_at [0, 1, 2] 2)) = Inr (rx_at [0, 1, 2] 2)"
proof (rule rx.car_parse_write)
  have "36 + length (rx_known ! i) < 2 ^ 64" "length (cid_at i) = 36" if "i < 3" for i
    using rx_size [OF that] cid_at_ok(1) [of i] by (auto simp: cid_ok_def)
  then show "car_writable (rx_at [0, 1, 2] 2)" by (simp add: car_writable_def)
qed

lemma b58_text: "0 \<notin> set (wf_b58_encode data)"
proof -
  have "list_all (\<lambda>c. c \<noteq> 0) wf_b58_alphabet" "length wf_b58_alphabet = 58" by code_simp+
  then have "wf_b58_alphabet ! i \<noteq> 0" if "i < 58" for i using that by (simp add: list_all_length)
  then show ?thesis using wf_b58_encode_pair [of data] unfolding b58_pair_def by (auto simp: plain_def list_all_iff)
qed

lemma ex_pub_text: "c_str ex_pub = ex_pub"
proof (rule c_str_id)
  have "0 \<notin> set (ascii ''did:key:z'')" by code_simp
  then show "0 \<notin> set ex_pub" using b58_text unfolding ex_pub_def by simp
qed

theorem sync_verify_sound_witness:
  "\<exists>commit u. wf_sync_verify_commit rx_plat ex_ec (Some (\<lambda>_ _. Inr ex_pub)) (\<lambda>_. Inl WF_ERR_NOT_FOUND) ex_did (wf_car_write (rx_at [0, 1, 2] 2)) = Inr commit \<and>
     c_str (cm_did commit) = c_str ex_did \<and> commit_unsigned_bytes commit = Inr u \<and> wf_verify rx_plat ex_ec (c_str ex_pub) u (cm_sig commit) = Inr ()"
proof -
  obtain base where base: "wf_repo_verify rx_plat ex_ec (rx_at [0, 1, 2] 2) rx_options = Inr base" by (rule rx_verified)
  have pub: "c_str ex_pub = ex_pub" by (rule ex_pub_text)
  have "wf_car_write (rx_at [0, 1, 2] 2) \<noteq> []" using rx_car_bytes by (auto simp: wf_car_parse_def)
  then have "wf_sync_verify_commit rx_plat ex_ec (Some (\<lambda>_ _. Inr ex_pub)) (\<lambda>_. Inl WF_ERR_NOT_FOUND) ex_did (wf_car_write (rx_at [0, 1, 2] 2)) = Inr base"
    using base rx_car_bytes ex_did_text
    by (simp add: wf_sync_verify_commit_def wf_verify_resolve_signing_key_def resolve_via_resolver_def rx_options_def pub)
  from this sync_verify_sound [OF this] show ?thesis using ex_did_text by (auto simp: resolve_via_resolver_def)
qed

end
