(* ===== verification/Base64.thy ===== *)
theory Base64
  imports Wolfram_Prelude
begin

unbundle bit_operations_syntax

text \<open>
  The base64url helpers of \<^verbatim>\<open>src/crypto/crypto.c\<close> and the strict decoder of
  \<^verbatim>\<open>src/crypto/base64url_strict.c\<close>. The first two delegate to OpenSSL's block coder, which is a
  parameter (\<open>evp\<close>); its laws say that it implements the base64 of RFC 4648. The strict decoder is
  self-contained, and is shown to accept exactly the texts that the encoder produces.
\<close>

section \<open>OpenSSL's block coder\<close>

text \<open>
  \<^verbatim>\<open>EVP_EncodeBlock\<close> gets the input and its length as an \<^verbatim>\<open>int\<close>; \<^verbatim>\<open>EVP_DecodeBlock\<close> returns the decoded
  block, in which every \<^verbatim>\<open>=\<close> stands for a zero byte at the end, or fails.
\<close>

record evp =
  EVP_EncodeBlock :: "bytes \<Rightarrow> int \<Rightarrow> bytes"
  EVP_DecodeBlock :: "bytes \<Rightarrow> int \<Rightarrow> bytes option"

text \<open>RFC 4648, section 4: the alphabet and the encoding of three, two and one bytes.\<close>

definition b64_char :: "byte \<Rightarrow> byte" where
  "b64_char v =
     (if v < 26 then v + 65
      else if v < 52 then v + 71
      else if v < 62 then v - 4
      else if v = 62 then 43 else 47)"

fun rfc_base64 :: "bytes \<Rightarrow> bytes" where
  "rfc_base64 (a # b # c # rest) =
     b64_char (drop_bit 2 a) # b64_char (push_bit 4 (a AND 3) OR drop_bit 4 b) #
     b64_char (push_bit 2 (b AND 15) OR drop_bit 6 c) # b64_char (c AND 63) # rfc_base64 rest"
| "rfc_base64 [a, b] =
     [b64_char (drop_bit 2 a), b64_char (push_bit 4 (a AND 3) OR drop_bit 4 b),
      b64_char (push_bit 2 (b AND 15)), 61]"
| "rfc_base64 [a] = [b64_char (drop_bit 2 a), b64_char (push_bit 4 (a AND 3)), 61, 61]"
| "rfc_base64 [] = []"

definition b64_padding :: "bytes \<Rightarrow> nat" where
  "b64_padding d = (3 - length d mod 3) mod 3"

locale evp_laws =
  fixes E :: evp
  assumes encode_block:
    "length d < 2 ^ 31 \<Longrightarrow> EVP_EncodeBlock E d (int (length d)) = rfc_base64 d"
  and decode_block:
    "length (rfc_base64 d) < 2 ^ 31 \<Longrightarrow>
       EVP_DecodeBlock E (rfc_base64 d) (int (length (rfc_base64 d))) =
         Some (d @ replicate (b64_padding d) 0)"

section \<open>The code\<close>

text \<open>The cast \<^verbatim>\<open>(int)len\<close> of a length.\<close>

definition int_cast :: "nat \<Rightarrow> int" where
  "int_cast n = sint (of_nat n :: 32 word)"

text \<open>\<^verbatim>\<open>isalnum\<close> in the C locale.\<close>

definition isalnum :: "byte \<Rightarrow> bool" where
  "isalnum c \<longleftrightarrow> 48 \<le> c \<and> c \<le> 57 \<or> 65 \<le> c \<and> c \<le> 90 \<or> 97 \<le> c \<and> c \<le> 122"

definition b64url_char :: "byte \<Rightarrow> byte option" where
  "b64url_char c =
     (if c = 45 then Some 43
      else if c = 95 then Some 47
      else if \<not> isalnum c \<and> c \<noteq> 43 \<and> c \<noteq> 47 then None
      else Some c)"

definition wf_crypto_base64url_decode :: "evp \<Rightarrow> bytes \<Rightarrow> bytes res" where
  "wf_crypto_base64url_decode E inp =
     (let in_len = length inp; padded_len = ((in_len + 3) div 4) * 4
      in if in_len = 0 then Inl WF_ERR_PARSE
         else case those (map b64url_char inp) of
                None \<Rightarrow> Inl WF_ERR_PARSE
              | Some cs \<Rightarrow>
                  (let padding = padded_len - in_len
                   in case EVP_DecodeBlock E (cs @ replicate padding 61) (int_cast padded_len) of
                        None \<Rightarrow> Inl WF_ERR_PARSE
                      | Some decoded \<Rightarrow>
                          (if length decoded < padding then Inl WF_ERR_PARSE
                           else Inr (take (length decoded - padding) decoded))))"

text \<open>The loop that rewrites the alphabet stops at the first padding character.\<close>

fun b64_to_url :: "bytes \<Rightarrow> bytes" where
  "b64_to_url [] = []"
| "b64_to_url (c # cs) =
     (if c = 43 then 45 # b64_to_url cs
      else if c = 47 then 95 # b64_to_url cs
      else if c = 61 then []
      else c # b64_to_url cs)"

definition wf_crypto_base64url_encode :: "evp \<Rightarrow> bytes \<Rightarrow> bytes res" where
  "wf_crypto_base64url_encode E inp =
     (if inp = [] then Inr []
      else
        let padded_len = ((length inp + 2) div 3) * 4
        in Inr (b64_to_url (take padded_len (EVP_EncodeBlock E inp (int_cast (length inp))))))"

definition b64u_value :: "byte \<Rightarrow> byte option" where
  "b64u_value c =
     (if 65 \<le> c \<and> c \<le> 90 then Some (c - 65)
      else if 97 \<le> c \<and> c \<le> 122 then Some (c - 97 + 26)
      else if 48 \<le> c \<and> c \<le> 57 then Some (c - 48 + 52)
      else if c = 45 then Some 62
      else if c = 95 then Some 63
      else None)"

text \<open>
  The groups of four characters and the rest; \<open>None\<close> where the code returns \<^verbatim>\<open>WF_ERR_PARSE\<close>. A single
  character is left only when the length was refused before.
\<close>

fun b64u_groups :: "bytes \<Rightarrow> bytes option" where
  "b64u_groups (x # y # z # w # rest) =
     (case (b64u_value x, b64u_value y, b64u_value z, b64u_value w) of
        (Some a, Some b, Some c, Some d) \<Rightarrow>
          map_option (\<lambda>out. (push_bit 2 a OR drop_bit 4 b) # (push_bit 4 b OR drop_bit 2 c) #
            (push_bit 6 c OR d) # out) (b64u_groups rest)
      | _ \<Rightarrow> None)"
| "b64u_groups [x, y, z] =
     (case (b64u_value x, b64u_value y, b64u_value z) of
        (Some a, Some b, Some c) \<Rightarrow>
          (if c AND 3 \<noteq> 0 then None
           else Some [push_bit 2 a OR drop_bit 4 b, push_bit 4 b OR drop_bit 2 c])
      | _ \<Rightarrow> None)"
| "b64u_groups [x, y] =
     (case (b64u_value x, b64u_value y) of
        (Some a, Some b) \<Rightarrow> (if b AND 15 \<noteq> 0 then None else Some [push_bit 2 a OR drop_bit 4 b])
      | _ \<Rightarrow> None)"
| "b64u_groups [x] = None"
| "b64u_groups [] = Some []"

definition wf_crypto_base64url_decode_strict :: "bytes \<Rightarrow> bytes res" where
  "wf_crypto_base64url_decode_strict inp =
     (if length inp = 0 \<or> length inp mod 4 = 1 then Inl WF_ERR_PARSE
      else case b64u_groups inp of
             None \<Rightarrow> Inl WF_ERR_PARSE
           | Some out \<Rightarrow> Inr out)"

section \<open>The URL-safe text of a byte string\<close>

definition b64u_char :: "byte \<Rightarrow> byte" where
  "b64u_char v = (if v = 62 then 45 else if v = 63 then 95 else b64_char v)"

fun base64url :: "bytes \<Rightarrow> bytes" where
  "base64url (a # b # c # rest) =
     b64u_char (drop_bit 2 a) # b64u_char (push_bit 4 (a AND 3) OR drop_bit 4 b) #
     b64u_char (push_bit 2 (b AND 15) OR drop_bit 6 c) # b64u_char (c AND 63) # base64url rest"
| "base64url [a, b] =
     [b64u_char (drop_bit 2 a), b64u_char (push_bit 4 (a AND 3) OR drop_bit 4 b),
      b64u_char (push_bit 2 (b AND 15))]"
| "base64url [a] = [b64u_char (drop_bit 2 a), b64u_char (push_bit 4 (a AND 3))]"
| "base64url [] = []"

lemma b64u_value_char:
  assumes "v < 64"
  shows "b64u_value (b64u_char v) = Some v"
proof -
  have "unat v < 64" using assms by (simp add: word_less_nat_alt)
  moreover have "list_all (\<lambda>n. b64u_value (b64u_char (of_nat n)) = Some (of_nat n)) [0..<64]"
    by code_simp
  ultimately have "b64u_value (b64u_char (of_nat (unat v))) = Some (of_nat (unat v))"
    unfolding list_all_iff by (metis atLeastLessThan_iff le0 set_upt)
  then show ?thesis by simp
qed

lemma unat_add_small: "unat (k :: byte) + n < 256 \<Longrightarrow> unat (k + of_nat n) = unat k + n"
  by (simp add: unat_word_ariths(1) unat_of_nat)

lemma b64u_value_Some:
  assumes "b64u_value c = Some v"
  shows "v < 64 \<and> b64u_char v = c"
proof -
  note sub = word_le_minus_mono_left [of c _ 65] word_le_minus_mono_left [of c _ 97]
    word_le_minus_mono_left [of c _ 48]
  consider "65 \<le> c" "c \<le> 90" "v = c - 65" | "97 \<le> c" "c \<le> 122" "v = c - 97 + 26"
    | "48 \<le> c" "c \<le> 57" "v = c - 48 + 52" | "c = 45" "v = 62" | "c = 95" "v = 63"
    using assms by (auto simp: b64u_value_def split: if_splits)
  then show ?thesis
  proof cases
    case 1
    then have "v \<le> 25" using sub(1) [of 90] by simp
    then have "v < 26" "v < 64" "v \<noteq> 62" "v \<noteq> 63" by (auto simp: word_le_nat_alt word_less_nat_alt)
    with 1 show ?thesis by (simp add: b64u_char_def b64_char_def)
  next
    case 2
    then have "c - 97 \<le> 25" using sub(2) [of 122] by simp
    then have "unat v = unat (c - 97) + 26" "unat (c - 97) \<le> 25"
      using unat_add_small [of "c - 97" 26] by (simp_all add: 2 word_le_nat_alt)
    then have "\<not> v < 26" "v < 52" "v < 64" "v \<noteq> 62" "v \<noteq> 63"
      by (auto simp: word_le_nat_alt word_less_nat_alt)
    with 2 show ?thesis by (simp add: b64u_char_def b64_char_def)
  next
    case 3
    then have "c - 48 \<le> 9" using sub(3) [of 57] by simp
    then have "unat v = unat (c - 48) + 52" "unat (c - 48) \<le> 9"
      using unat_add_small [of "c - 48" 52] by (simp_all add: 3 word_le_nat_alt)
    then have "\<not> v < 26" "\<not> v < 52" "v < 62" "v < 64" "v \<noteq> 62" "v \<noteq> 63"
      by (auto simp: word_le_nat_alt word_less_nat_alt)
    with 3 show ?thesis by (simp add: b64u_char_def b64_char_def)
  qed (simp_all add: b64u_char_def)
qed

text \<open>A byte is its eight bits.\<close>

lemma byte_bit_high: "8 \<le> n \<Longrightarrow> \<not> bit (a :: byte) n"
  using bit_imp_le_length [of a n] by auto

lemma byte_eq_iff:
  "(a :: byte) = b \<longleftrightarrow>
     bit a 0 = bit b 0 \<and> bit a 1 = bit b 1 \<and> bit a 2 = bit b 2 \<and> bit a 3 = bit b 3 \<and>
     bit a 4 = bit b 4 \<and> bit a 5 = bit b 5 \<and> bit a 6 = bit b 6 \<and> bit a 7 = bit b 7"
  (is "_ \<longleftrightarrow> ?bits")
proof
  assume bits: ?bits
  show "a = b"
  proof (rule bit_word_eqI)
    fix n
    assume "n < LENGTH(8)"
    then have "n \<in> {0, 1, 2, 3, 4, 5, 6, 7}" by auto
    with bits show "bit a n = bit b n" by auto
  qed
qed simp

lemma byte_and_take_bit:
  "(a :: byte) AND 3 = take_bit 2 a" "a AND 15 = take_bit 4 a" "a AND 63 = take_bit 6 a"
  by (simp_all add: take_bit_eq_mask mask_eq_exp_minus_1)

lemma sextet_iff: "(v :: byte) < 64 \<longleftrightarrow> \<not> bit v 6 \<and> \<not> bit v 7"
proof -
  have "unat (drop_bit 6 v) = unat v div 2 ^ 6" by (metis unat_drop_bit_eq drop_bit_eq_div)
  then have "v < 64 \<longleftrightarrow> unat (drop_bit 6 v) = 0"
    by (simp only: word_less_nat_alt) (simp add: div_eq_0_iff)
  also have "\<dots> \<longleftrightarrow> drop_bit 6 v = 0" by (simp only: unsigned_eq_0_iff)
  also have "\<dots> \<longleftrightarrow> \<not> bit v 6 \<and> \<not> bit v 7"
    unfolding byte_eq_iff by (simp add: bit_simps byte_bit_high)
  finally show ?thesis .
qed

lemmas byte_bits = byte_eq_iff sextet_iff byte_and_take_bit bit_simps byte_bit_high

lemma sextet_bounds:
  fixes a b :: byte
  shows "drop_bit 2 a < 64" "push_bit 4 (a AND 3) OR drop_bit 4 b < 64"
    "push_bit 2 (a AND 15) OR drop_bit 6 b < 64" "a AND 63 < 64"
    "push_bit 4 (a AND 3) < 64" "push_bit 2 (a AND 15) < 64"
  by (simp_all add: byte_bits)

text \<open>The bytes that the sextets give back, and the unused bits of a shorter group.\<close>

lemma octets:
  fixes a b c :: byte
  shows "push_bit 2 (drop_bit 2 a) OR drop_bit 4 (push_bit 4 (a AND 3) OR drop_bit 4 b) = a"
    "push_bit 4 (push_bit 4 (a AND 3) OR drop_bit 4 b) OR
       drop_bit 2 (push_bit 2 (b AND 15) OR drop_bit 6 c) = b"
    "push_bit 6 (push_bit 2 (b AND 15) OR drop_bit 6 c) OR (c AND 63) = c"
    "push_bit 4 (push_bit 4 (a AND 3) OR drop_bit 4 b) OR drop_bit 2 (push_bit 2 (b AND 15)) = b"
    "push_bit 2 (b AND 15) AND 3 = 0"
    "push_bit 2 (drop_bit 2 a) OR drop_bit 4 (push_bit 4 (a AND 3)) = a"
    "push_bit 4 (a AND 3) AND 15 = 0"
    "push_bit 4 (drop_bit 4 b) OR drop_bit 2 (push_bit 2 (b AND 15)) = b"
    "push_bit 6 (drop_bit 6 c) OR c AND 63 = c"
  by (simp_all add: byte_bits)

lemma sextets:
  fixes a b c d :: byte
  assumes "a < 64" "b < 64" "c < 64" "d < 64"
  shows "drop_bit 2 (push_bit 2 a OR drop_bit 4 b) = a"
    "push_bit 4 ((push_bit 2 a OR drop_bit 4 b) AND 3) OR
       drop_bit 4 (push_bit 4 b OR drop_bit 2 c) = b"
    "push_bit 2 ((push_bit 4 b OR drop_bit 2 c) AND 15) OR drop_bit 6 (push_bit 6 c OR d) = c"
    "(push_bit 6 c OR d) AND 63 = d"
    "c AND 3 = 0 \<Longrightarrow> push_bit 2 ((push_bit 4 b OR drop_bit 2 c) AND 15) = c"
    "b AND 15 = 0 \<Longrightarrow> push_bit 4 ((push_bit 2 a OR drop_bit 4 b) AND 3) = b"
  using assms by (simp_all add: byte_bits)

section \<open>The strict decoder accepts exactly the encoder's texts\<close>

lemma groups_base64url: "b64u_groups (base64url d) = Some d"
  by (induction d rule: base64url.induct) (simp_all add: b64u_value_char sextet_bounds octets del: push_bit_and)

lemma groups_sound: "b64u_groups s = Some d \<Longrightarrow> s = base64url d"
proof (induction s arbitrary: d rule: b64u_groups.induct)
  case (1 x y z w rest)
  then obtain a b c e out where v: "b64u_value x = Some a" "b64u_value y = Some b"
    "b64u_value z = Some c" "b64u_value w = Some e" "b64u_groups rest = Some out"
    "d = (push_bit 2 a OR drop_bit 4 b) # (push_bit 4 b OR drop_bit 2 c) # (push_bit 6 c OR e) # out"
    by (auto split: option.splits)
  note u = v(1-4) [THEN b64u_value_Some]
  from u have "a < 64" "b < 64" "c < 64" "e < 64" by auto
  from sextets(1-4) [OF this] u "1.IH" [OF refl v(1) refl v(2) refl v(3) v(4) v(5)]
  show ?case by (simp add: v(6))
next
  case (2 x y z)
  then obtain a b c where v: "b64u_value x = Some a" "b64u_value y = Some b" "b64u_value z = Some c"
    "c AND 3 = 0" "d = [push_bit 2 a OR drop_bit 4 b, push_bit 4 b OR drop_bit 2 c]"
    by (auto split: option.splits if_splits)
  note u = v(1-3) [THEN b64u_value_Some]
  from u have "a < 64" "b < 64" "c < 64" "0 < (64 :: byte)" by auto
  from sextets(1,2,5) [OF this] u v(4) show ?case by (simp add: v(5))
next
  case (3 x y)
  then obtain a b where v: "b64u_value x = Some a" "b64u_value y = Some b" "b AND 15 = 0"
    "d = [push_bit 2 a OR drop_bit 4 b]"
    by (auto split: option.splits if_splits)
  note u = v(1,2) [THEN b64u_value_Some]
  from u have "a < 64" "b < 64" "0 < (64 :: byte)" "0 < (64 :: byte)" by auto
  from sextets(1,6) [OF this] u v(3) show ?case by (simp add: v(4))
qed simp_all

lemma length_base64url: "length (base64url d) mod 4 \<noteq> 1" "base64url d = [] \<longleftrightarrow> d = []"
  by (induction d rule: base64url.induct) auto

lemma decode_strict_iff:
  "wf_crypto_base64url_decode_strict s = Inr d \<longleftrightarrow> d \<noteq> [] \<and> s = base64url d"
proof
  assume "wf_crypto_base64url_decode_strict s = Inr d"
  then have "s \<noteq> []" "b64u_groups s = Some d"
    by (auto simp: wf_crypto_base64url_decode_strict_def split: if_splits option.splits)
  then show "d \<noteq> [] \<and> s = base64url d"
    using groups_sound length_base64url(2) [of d] by blast
next
  assume "d \<noteq> [] \<and> s = base64url d"
  then show "wf_crypto_base64url_decode_strict s = Inr d"
    using length_base64url [of d]
    by (auto simp: wf_crypto_base64url_decode_strict_def groups_base64url)
qed

section \<open>The encoder and the lenient decoder\<close>

lemma length_rfc_base64: "length (rfc_base64 d) = ((length d + 2) div 3) * 4"
proof (induction d rule: rfc_base64.induct)
  case (1 a b c rest)
  have "(length (a # b # c # rest) + 2) div 3 = (length rest + 2) div 3 + 1" by simp
  with 1 show ?case by simp
qed auto

lemma to_url_char:
  assumes "v < 64"
  shows "b64_to_url (b64_char v # cs) = b64u_char v # b64_to_url cs"
proof -
  have "unat v < 64" using assms by (simp add: word_less_nat_alt)
  moreover have "list_all (\<lambda>n. let c = b64_char (of_nat n); u = b64u_char (of_nat n)
      in c \<noteq> 61 \<and> (if c = 43 then u = 45 else if c = 47 then u = 95 else u = c)) [0..<64]"
    by code_simp
  ultimately have "let c = b64_char (of_nat (unat v)); u = b64u_char (of_nat (unat v))
      in c \<noteq> 61 \<and> (if c = 43 then u = 45 else if c = 47 then u = 95 else u = c)"
    unfolding list_all_iff by (metis atLeastLessThan_iff le0 set_upt)
  then show ?thesis by (auto simp: Let_def split: if_splits)
qed

lemma to_url_rfc: "b64_to_url (rfc_base64 d) = base64url d"
  by (induction d rule: base64url.induct) (simp_all add: to_url_char sextet_bounds del: push_bit_and b64_to_url.simps(2), simp_all)

lemma int_cast_small: "n < 2 ^ 31 \<Longrightarrow> int_cast n = int n"
  by (simp add: int_cast_def sint_uint uint_nat unat_of_nat signed_take_bit_int_eq_self)

text \<open>Undoing the alphabet gives the padded text back without its padding.\<close>

lemma b64url_char_url:
  assumes "v < 64"
  shows "b64url_char (b64u_char v) = Some (b64_char v)"
proof -
  have "unat v < 64" using assms by (simp add: word_less_nat_alt)
  moreover have "list_all (\<lambda>n. b64url_char (b64u_char (of_nat n)) = Some (b64_char (of_nat n))) [0..<64]"
    by code_simp
  ultimately have "b64url_char (b64u_char (of_nat (unat v))) = Some (b64_char (of_nat (unat v)))"
    unfolding list_all_iff by (metis atLeastLessThan_iff le0 set_upt)
  then show ?thesis by simp
qed

lemma b64_padding_simps [simp]:
  "b64_padding (a # b # c # rest) = b64_padding rest" "b64_padding [a, b] = 1"
  "b64_padding [a] = 2" "b64_padding [] = 0"
proof -
  have "length (a # b # c # rest) mod 3 = (length rest + 3) mod 3" by simp
  then show "b64_padding (a # b # c # rest) = b64_padding rest"
    unfolding b64_padding_def by (simp only: mod_add_self2)
qed (simp_all add: b64_padding_def)

lemma replicate_2: "replicate 2 x = [x, x]"
  by (simp add: numeral_2_eq_2)

lemma base64url_unpadded:
  "\<exists>cs. those (map b64url_char (base64url d)) = Some cs \<and>
     rfc_base64 d = cs @ replicate (b64_padding d) 61 \<and> length cs = length (base64url d) \<and>
     b64_padding d \<le> 2"
proof (induction d rule: base64url.induct)
  case (1 a b c rest)
  then show ?case by (auto simp: b64url_char_url sextet_bounds simp del: push_bit_and)
qed (auto simp: b64url_char_url sextet_bounds replicate_2 simp del: push_bit_and)

context evp_laws
begin

lemma encode_base64url:
  assumes "length d < 2 ^ 31"
  shows "wf_crypto_base64url_encode E d = Inr (base64url d)"
  using assms encode_block [OF assms] length_rfc_base64 [of d] to_url_rfc [of d]
  by (cases "d = []") (simp_all add: wf_crypto_base64url_encode_def Let_def int_cast_small)

lemma decode_base64url:
  assumes "d \<noteq> []" "length (rfc_base64 d) < 2 ^ 31"
  shows "wf_crypto_base64url_decode E (base64url d) = Inr d"
proof -
  obtain cs where cs: "those (map b64url_char (base64url d)) = Some cs"
    "rfc_base64 d = cs @ replicate (b64_padding d) 61" "length cs = length (base64url d)"
    "b64_padding d \<le> 2"
    using base64url_unpadded by blast
  obtain k where "length (rfc_base64 d) = k * 4" using length_rfc_base64 by blast
  then have padded: "(length (base64url d) + 3) div 4 * 4 = length (rfc_base64 d)"
    "length (rfc_base64 d) - length (base64url d) = b64_padding d"
    using cs(2-4) by auto
  have "base64url d \<noteq> []" using assms(1) length_base64url(2) by blast
  then show ?thesis
    using decode_block [OF assms(2)] assms(2) cs(1,2) unfolding wf_crypto_base64url_decode_def Let_def padded
    by (simp add: int_cast_small)
qed

end

text \<open>An instance of the block coder, computed from the strict decoder's groups.\<close>

definition ref_evp :: evp where
  "ref_evp =
     \<lparr>EVP_EncodeBlock = (\<lambda>d n. rfc_base64 d),
      EVP_DecodeBlock = (\<lambda>s n. map_option (\<lambda>d. d @ replicate (b64_padding d) 0)
        (b64u_groups (b64_to_url s)))\<rparr>"

interpretation ref_evp: evp_laws ref_evp
  by unfold_locales (simp_all add: ref_evp_def to_url_rfc groups_base64url)

section \<open>Properties\<close>

text \<open>
  C34: The strict base64url decoder inverts the encoder and accepts nothing else: a text decodes to
  some bytes exactly when the bytes are not empty and the text is the one that the encoder writes
  for them. So no two texts decode to the same bytes (the unused low bits of the last character
  must be zero, and neither padding nor the standard alphabet is accepted).
\<close>

theorem base64url_strict_exact:
  assumes "evp_laws E" "length d < 2 ^ 31"
  shows "wf_crypto_base64url_decode_strict s = Inr d \<longleftrightarrow>
    d \<noteq> [] \<and> wf_crypto_base64url_encode E d = Inr s"
  using evp_laws.encode_base64url [OF assms] decode_strict_iff [of s d] by auto

theorem base64url_strict_exact_witness:
  "wf_crypto_base64url_decode_strict (ascii ''-_8'') = Inr [0xfb, 0xff] \<and>
   wf_crypto_base64url_encode ref_evp [0xfb, 0xff] = Inr (ascii ''-_8'')"
proof -
  have "wf_crypto_base64url_decode_strict (ascii ''-_8'') = Inr [0xfb, 0xff]" by code_simp
  then show ?thesis
    using base64url_strict_exact [OF ref_evp.evp_laws_axioms, of "[0xfb, 0xff]" "ascii ''-_8''"] by simp
qed

text \<open>
  Decoding what the base64url encoder wrote gives the bytes back, through either decoder: the
  lenient one used for keys, proofs of possession and label signatures, and the strict one.
\<close>

theorem base64url_roundtrip:
  assumes "evp_laws E" "d \<noteq> []" "length d < 2 ^ 29"
  shows "\<exists>s. wf_crypto_base64url_encode E d = Inr s \<and> wf_crypto_base64url_decode E s = Inr d \<and>
    wf_crypto_base64url_decode_strict s = Inr d"
  using evp_laws.encode_base64url [OF assms(1), of d] evp_laws.decode_base64url [OF assms(1,2)]
    decode_strict_iff [of "base64url d" d] assms(2,3)
  by (simp add: length_rfc_base64)

theorem base64url_roundtrip_witness:
  "\<exists>s. wf_crypto_base64url_encode ref_evp [1, 2, 3, 4] = Inr s \<and>
     wf_crypto_base64url_decode ref_evp s = Inr [1, 2, 3, 4] \<and>
     wf_crypto_base64url_decode_strict s = Inr [1, 2, 3, 4]"
  by (rule base64url_roundtrip [OF ref_evp.evp_laws_axioms]) simp_all

end
