(* ===== verification/Subscribe.thy ===== *)
theory Subscribe
  imports Cbor Cid Commit Base64
begin

text \<open>
  The firehose decoder of \<^verbatim>\<open>src/sync/sync_subscribe.c\<close>: one framed subscription message, a CBOR
  header map followed by a CBOR body map, is decoded into an event. The fixed-size character
  arrays of the event structs are the bytes copied into them (the structs are zeroed first); a
  heap string or a pointer that may be null is an \<open>option\<close> where the code tests it. An
  \<^verbatim>\<open>int64_t\<close> is a \<open>64 word\<close> read with \<open>sint\<close>.
\<close>

section \<open>Events\<close>

type_synonym i64 = "64 word"

record wf_subscribe_repo_op =
  op_action :: bytes
  op_path :: bytes
  op_cid :: wf_cid
  op_has_cid :: bool
  op_prev :: wf_cid
  op_has_prev :: bool

record wf_subscribe_commit =
  c_seq :: i64
  c_did :: bytes
  c_commit_cid :: wf_cid
  c_rev :: bytes
  c_since :: bytes
  c_blocks :: bytes
  c_ops :: "wf_subscribe_repo_op list"
  c_time :: bytes
  c_prev_data :: wf_cid
  c_has_prev_data :: bool

record wf_subscribe_sync =
  s_seq :: i64
  s_did :: bytes
  s_blocks :: bytes
  s_rev :: bytes
  s_time :: bytes

record wf_subscribe_identity =
  id_seq :: i64
  id_did :: bytes
  id_time :: bytes
  id_handle :: bytes
  id_has_handle :: bool

record wf_subscribe_account =
  ac_seq :: i64
  ac_did :: bytes
  ac_time :: bytes
  ac_active :: bool
  ac_status :: bytes
  ac_has_status :: bool

record wf_subscribe_info =
  info_name :: bytes
  info_message :: bytes
  info_has_message :: bool

record wf_label =
  l_seq :: i64
  l_ver :: i64
  l_has_ver :: bool
  l_src :: "bytes option"
  l_uri :: "bytes option"
  l_cid :: "bytes option"
  l_has_cid :: bool
  l_val :: "bytes option"
  l_neg :: bool
  l_has_neg :: bool
  l_cts :: "bytes option"
  l_exp :: "bytes option"
  l_has_exp :: bool
  l_sig :: "bytes option"
  l_has_sig :: bool

record wf_subscribe_labels =
  ls_seq :: i64
  ls_labels :: "wf_label list"

record wf_subscribe_error =
  er_error :: "bytes option"
  er_message :: "bytes option"

datatype wf_subscribe_data =
    WF_SUBSCRIBE_EVENT_COMMIT wf_subscribe_commit
  | WF_SUBSCRIBE_EVENT_SYNC wf_subscribe_sync
  | WF_SUBSCRIBE_EVENT_IDENTITY wf_subscribe_identity
  | WF_SUBSCRIBE_EVENT_ACCOUNT wf_subscribe_account
  | WF_SUBSCRIBE_EVENT_INFO wf_subscribe_info
  | WF_SUBSCRIBE_EVENT_LABELS wf_subscribe_labels
  | WF_SUBSCRIBE_EVENT_ERROR wf_subscribe_error

record wf_subscribe_event =
  ev_seq :: i64
  ev_data :: wf_subscribe_data

section \<open>Reading items\<close>

fun find_pair :: "bytes \<Rightarrow> (cbor_item \<times> cbor_item) list \<Rightarrow> cbor_item option" where
  "find_pair key [] = None"
| "find_pair key ((CBOR_TYPE_STRING d s, v) # ps) = (if s = key then Some v else find_pair key ps)"
| "find_pair key (p # ps) = find_pair key ps"

fun map_find :: "cbor_item \<Rightarrow> string \<Rightarrow> cbor_item option" where
  "map_find (CBOR_TYPE_MAP d ps) key = find_pair (ascii key) ps"
| "map_find _ key = None"

text \<open>The casts to \<^verbatim>\<open>int64_t\<close> keep the low 64 bits, so both cases are arithmetic on words.\<close>

fun item_int :: "cbor_item \<Rightarrow> i64 option" where
  "item_int (CBOR_TYPE_UINT w v) = Some v"
| "item_int (CBOR_TYPE_NEGINT w v) = Some (-1 - v)"
| "item_int _ = None"

fun item_string :: "cbor_item \<Rightarrow> bytes option" where
  "item_string (CBOR_TYPE_STRING d s) = Some s"
| "item_string _ = None"

fun item_bytes :: "cbor_item \<Rightarrow> bytes option" where
  "item_bytes (CBOR_TYPE_BYTESTRING d s) = Some s"
| "item_bytes _ = None"

fun item_array :: "cbor_item \<Rightarrow> cbor_item list option" where
  "item_array (CBOR_TYPE_ARRAY d xs) = Some xs"
| "item_array _ = None"

fun item_bool :: "cbor_item \<Rightarrow> bool option" where
  "item_bool (CBOR_TYPE_FLOAT_CTRL CBOR_CTRL_TRUE) = Some True"
| "item_bool (CBOR_TYPE_FLOAT_CTRL CBOR_CTRL_FALSE) = Some False"
| "item_bool _ = None"

definition cbor_is_null_or_undef :: "cbor_item \<Rightarrow> bool" where
  "cbor_is_null_or_undef i \<longleftrightarrow>
     i = CBOR_TYPE_FLOAT_CTRL CBOR_CTRL_NULL \<or> i = CBOR_TYPE_FLOAT_CTRL CBOR_CTRL_UNDEF"

fun parse_cid_link_strict :: "cbor_item \<Rightarrow> wf_cid res" where
  "parse_cid_link_strict (CBOR_TYPE_TAG t (CBOR_TYPE_BYTESTRING d s)) =
     (if t \<noteq> 42 then Inl WF_ERR_PARSE
      else case s of
             [] \<Rightarrow> Inl WF_ERR_PARSE
           | b # data \<Rightarrow>
               (if b \<noteq> 0 then Inl WF_ERR_PARSE
                else if 36 < length data then Inl WF_ERR_PARSE
                else Inr data))"
| "parse_cid_link_strict _ = Inl WF_ERR_PARSE"

text \<open>
  The three ways the parsers read a member of the body: a string that has to fit its array, a
  string that is dropped when it is missing or does not fit, and a link that is dropped when it is
  missing, null or malformed (the CID stays zeroed then).
\<close>

definition string_field :: "cbor_item \<Rightarrow> string \<Rightarrow> nat \<Rightarrow> bytes option" where
  "string_field body key cap =
     (case map_find body key of
        None \<Rightarrow> None
      | Some i \<Rightarrow>
          (case item_string i of
             None \<Rightarrow> None
           | Some s \<Rightarrow> (if cap \<le> length s then None else Some s)))"

definition heap_string :: "cbor_item \<Rightarrow> string \<Rightarrow> bytes option" where
  "heap_string body key = Option.bind (map_find body key) item_string"

definition link_field :: "cbor_item \<Rightarrow> string \<Rightarrow> wf_cid \<times> bool" where
  "link_field body key =
     (case map_find body key of
        None \<Rightarrow> ([], False)
      | Some i \<Rightarrow>
          (if cbor_is_null_or_undef i then ([], False)
           else case parse_cid_link_strict i of
                  Inl _ \<Rightarrow> ([], False)
                | Inr cid \<Rightarrow> (cid, True)))"

definition int_field :: "cbor_item \<Rightarrow> string \<Rightarrow> i64 option" where
  "int_field body key = Option.bind (map_find body key) item_int"

section \<open>Event parsers\<close>

definition parse_repo_op :: "cbor_item \<Rightarrow> wf_subscribe_repo_op option" where
  "parse_repo_op item =
     (case string_field item ''action'' 8 of
        None \<Rightarrow> None
      | Some action \<Rightarrow>
          (if action = [] then None
           else case heap_string item ''path'' of
                  None \<Rightarrow> None
                | Some path \<Rightarrow>
                    (let (cid, has_cid) = link_field item ''cid'';
                         (prev, has_prev) = link_field item ''prev''
                     in Some \<lparr>op_action = action, op_path = path, op_cid = cid,
                              op_has_cid = has_cid, op_prev = prev, op_has_prev = has_prev\<rparr>)))"

text \<open>The operations are optional: a member that is missing or no array leaves the list empty.\<close>

definition parse_ops :: "cbor_item \<Rightarrow> wf_subscribe_repo_op list option" where
  "parse_ops body =
     (case Option.bind (map_find body ''ops'') item_array of
        None \<Rightarrow> Some []
      | Some items \<Rightarrow> those (map parse_repo_op items))"

definition parse_commit :: "cbor_item \<Rightarrow> wf_subscribe_event res" where
  "parse_commit body =
     (case int_field body ''seq'' of None \<Rightarrow> Inl WF_ERR_PARSE | Some seq \<Rightarrow>
      case string_field body ''repo'' 256 of None \<Rightarrow> Inl WF_ERR_PARSE | Some did \<Rightarrow>
      case map_find body ''commit'' of None \<Rightarrow> Inl WF_ERR_PARSE | Some commit \<Rightarrow>
      case parse_cid_link_strict commit of Inl _ \<Rightarrow> Inl WF_ERR_PARSE | Inr commit_cid \<Rightarrow>
      case string_field body ''rev'' 64 of None \<Rightarrow> Inl WF_ERR_PARSE | Some rv \<Rightarrow>
      case Option.bind (map_find body ''blocks'') item_bytes of
        None \<Rightarrow> Inl WF_ERR_PARSE
      | Some blocks \<Rightarrow>
      case parse_ops body of None \<Rightarrow> Inl WF_ERR_PARSE | Some ops \<Rightarrow>
      case string_field body ''time'' 64 of None \<Rightarrow> Inl WF_ERR_PARSE | Some time \<Rightarrow>
        let since = (case string_field body ''since'' 64 of None \<Rightarrow> [] | Some s \<Rightarrow> s);
            (prev_data, has_prev_data) = link_field body ''prevData''
        in Inr \<lparr>ev_seq = seq,
                ev_data = WF_SUBSCRIBE_EVENT_COMMIT
                  \<lparr>c_seq = seq, c_did = did, c_commit_cid = commit_cid, c_rev = rv, c_since = since,
                   c_blocks = blocks, c_ops = ops, c_time = time, c_prev_data = prev_data,
                   c_has_prev_data = has_prev_data\<rparr>\<rparr>)"

definition parse_sync :: "cbor_item \<Rightarrow> wf_subscribe_event res" where
  "parse_sync body =
     (case int_field body ''seq'' of None \<Rightarrow> Inl WF_ERR_PARSE | Some seq \<Rightarrow>
      case string_field body ''did'' 256 of None \<Rightarrow> Inl WF_ERR_PARSE | Some did \<Rightarrow>
      case Option.bind (map_find body ''blocks'') item_bytes of
        None \<Rightarrow> Inl WF_ERR_PARSE
      | Some blocks \<Rightarrow>
      case string_field body ''rev'' 64 of None \<Rightarrow> Inl WF_ERR_PARSE | Some rv \<Rightarrow>
      case string_field body ''time'' 64 of None \<Rightarrow> Inl WF_ERR_PARSE | Some time \<Rightarrow>
        Inr \<lparr>ev_seq = seq,
             ev_data = WF_SUBSCRIBE_EVENT_SYNC
               \<lparr>s_seq = seq, s_did = did, s_blocks = blocks, s_rev = rv, s_time = time\<rparr>\<rparr>)"

definition parse_identity :: "cbor_item \<Rightarrow> wf_subscribe_event res" where
  "parse_identity body =
     (case int_field body ''seq'' of None \<Rightarrow> Inl WF_ERR_PARSE | Some seq \<Rightarrow>
      case string_field body ''did'' 256 of None \<Rightarrow> Inl WF_ERR_PARSE | Some did \<Rightarrow>
      case string_field body ''time'' 64 of None \<Rightarrow> Inl WF_ERR_PARSE | Some time \<Rightarrow>
        let (handle, has_handle) =
              (case string_field body ''handle'' 256 of None \<Rightarrow> ([], False) | Some s \<Rightarrow> (s, True))
        in Inr \<lparr>ev_seq = seq,
                ev_data = WF_SUBSCRIBE_EVENT_IDENTITY
                  \<lparr>id_seq = seq, id_did = did, id_time = time, id_handle = handle,
                   id_has_handle = has_handle\<rparr>\<rparr>)"

definition parse_account :: "cbor_item \<Rightarrow> wf_subscribe_event res" where
  "parse_account body =
     (case int_field body ''seq'' of None \<Rightarrow> Inl WF_ERR_PARSE | Some seq \<Rightarrow>
      case string_field body ''did'' 256 of None \<Rightarrow> Inl WF_ERR_PARSE | Some did \<Rightarrow>
      case string_field body ''time'' 64 of None \<Rightarrow> Inl WF_ERR_PARSE | Some time \<Rightarrow>
        let active = (case Option.bind (map_find body ''active'') item_bool of
                        None \<Rightarrow> False | Some b \<Rightarrow> b);
            (status, has_status) =
              (case string_field body ''status'' 64 of None \<Rightarrow> ([], False) | Some s \<Rightarrow> (s, True))
        in Inr \<lparr>ev_seq = seq,
                ev_data = WF_SUBSCRIBE_EVENT_ACCOUNT
                  \<lparr>ac_seq = seq, ac_did = did, ac_time = time, ac_active = active,
                   ac_status = status, ac_has_status = has_status\<rparr>\<rparr>)"

definition parse_info :: "cbor_item \<Rightarrow> wf_subscribe_event res" where
  "parse_info body =
     (case string_field body ''name'' 64 of None \<Rightarrow> Inl WF_ERR_PARSE | Some name \<Rightarrow>
        let (message, has_message) =
              (case string_field body ''message'' 512 of None \<Rightarrow> ([], False) | Some s \<Rightarrow> (s, True))
        in Inr \<lparr>ev_seq = 0,
                ev_data = WF_SUBSCRIBE_EVENT_INFO
                  \<lparr>info_name = name, info_message = message, info_has_message = has_message\<rparr>\<rparr>)"

text \<open>
  One label; \<open>None\<close> where the code jumps to \<^verbatim>\<open>fail\<close>. The signature is a byte string on the wire and is
  kept as base64url text.
\<close>

definition parse_label :: "evp \<Rightarrow> cbor_item \<Rightarrow> wf_label option" where
  "parse_label E item =
     (case heap_string item ''src'' of None \<Rightarrow> None | Some src \<Rightarrow>
      case heap_string item ''uri'' of None \<Rightarrow> None | Some uri \<Rightarrow>
      case heap_string item ''val'' of None \<Rightarrow> None | Some val \<Rightarrow>
      case heap_string item ''cts'' of None \<Rightarrow> None | Some cts \<Rightarrow>
        let ver = int_field item ''ver'';
            cid = heap_string item ''cid'';
            neg = Option.bind (map_find item ''neg'') item_bool;
            exp = heap_string item ''exp'';
            lab = (\<lambda>sig. \<lparr>l_seq = 0, l_ver = (case ver of None \<Rightarrow> 0 | Some v \<Rightarrow> v),
                     l_has_ver = (ver \<noteq> None), l_src = Some src, l_uri = Some uri, l_cid = cid,
                     l_has_cid = (cid \<noteq> None), l_val = Some val,
                     l_neg = (case neg of None \<Rightarrow> False | Some b \<Rightarrow> b), l_has_neg = (neg \<noteq> None),
                     l_cts = Some cts, l_exp = exp, l_has_exp = (exp \<noteq> None), l_sig = sig,
                     l_has_sig = (sig \<noteq> None)\<rparr>)
        in case Option.bind (map_find item ''sig'') item_bytes of
             None \<Rightarrow> Some (lab None)
           | Some sd \<Rightarrow>
               (case wf_crypto_base64url_encode E sd of
                  Inl _ \<Rightarrow> None
                | Inr text \<Rightarrow> Some (lab (Some text))))"

definition parse_labels :: "evp \<Rightarrow> cbor_item \<Rightarrow> wf_subscribe_event res" where
  "parse_labels E body =
     (case int_field body ''seq'' of None \<Rightarrow> Inl WF_ERR_PARSE | Some seq \<Rightarrow>
      case Option.bind (map_find body ''labels'') item_array of
        None \<Rightarrow> Inl WF_ERR_PARSE
      | Some items \<Rightarrow>
          (case those (map (parse_label E) items) of
             None \<Rightarrow> Inl WF_ERR_ALLOC
           | Some labels \<Rightarrow>
               Inr \<lparr>ev_seq = seq,
                    ev_data = WF_SUBSCRIBE_EVENT_LABELS \<lparr>ls_seq = seq, ls_labels = labels\<rparr>\<rparr>))"

definition parse_error_body :: "cbor_item \<Rightarrow> wf_subscribe_event res" where
  "parse_error_body body =
     (case heap_string body ''error'' of
        None \<Rightarrow> Inl WF_ERR_PARSE
      | Some err \<Rightarrow>
          Inr \<lparr>ev_seq = 0,
               ev_data = WF_SUBSCRIBE_EVENT_ERROR
                 \<lparr>er_error = Some err, er_message = heap_string body ''message''\<rparr>\<rparr>)"

section \<open>Frames\<close>

text \<open>
  The framing that \<^verbatim>\<open>subscribe_loop\<close> and \<^verbatim>\<open>wf_subscribe_decode_frame\<close> share: scan the header and the
  body, then load each.
\<close>

definition load_frame :: "platform \<Rightarrow> bytes \<Rightarrow> (cbor_item \<times> cbor_item) option" where
  "load_frame P data =
     (case wf_cbor_scan_item data of
        None \<Rightarrow> None
      | Some header_len \<Rightarrow>
          (if length data \<le> header_len then None
           else case wf_cbor_scan_item (drop header_len data) of
                  None \<Rightarrow> None
                | Some body_len \<Rightarrow>
                    (case cbor_load P (take header_len data) of
                       None \<Rightarrow> None
                     | Some (header, read) \<Rightarrow>
                         (if length data \<le> read then None
                          else case cbor_load P (take body_len (drop read data)) of
                                 None \<Rightarrow> None
                               | Some (body, _) \<Rightarrow> Some (header, body)))))"

definition frame_is_error :: "cbor_item \<Rightarrow> bool" where
  "frame_is_error header =
     (case int_field header ''op'' of None \<Rightarrow> False | Some op_val \<Rightarrow> sint op_val < 0)"

definition parse_by_type :: "evp \<Rightarrow> cbor_item \<Rightarrow> cbor_item \<Rightarrow> wf_subscribe_event res" where
  "parse_by_type E header body =
     (case heap_string header ''t'' of
        None \<Rightarrow> Inl WF_ERR_PARSE
      | Some t \<Rightarrow>
          (if t = ascii ''#commit'' then parse_commit body
           else if t = ascii ''#sync'' then parse_sync body
           else if t = ascii ''#identity'' then parse_identity body
           else if t = ascii ''#account'' then parse_account body
           else if t = ascii ''#info'' then parse_info body
           else if t = ascii ''#labels'' then parse_labels E body
           else Inl WF_ERR_PARSE))"

definition wf_subscribe_decode_frame ::
  "platform \<Rightarrow> evp \<Rightarrow> bytes \<Rightarrow> wf_subscribe_event res" where
  "wf_subscribe_decode_frame P E data =
     (if data = [] then Inl WF_ERR_INVALID_ARG
      else case load_frame P data of
             None \<Rightarrow> Inl WF_ERR_PARSE
           | Some (header, body) \<Rightarrow>
               (if frame_is_error header then parse_error_body body
                else parse_by_type E header body))"

end
