(* ===== verification/Publish.thy ===== *)
theory Publish
  imports Subscribe
begin

text \<open>
  The firehose encoder of \<^verbatim>\<open>src/sync/sync_publish.c\<close>: an event is turned into libcbor items, the maps
  are put into the deterministic order, and header and body are serialised one after the other.
\<close>

section \<open>Building libcbor items\<close>

text \<open>
  A definite array or map of libcbor is created with a number of slots. The two functions that
  fill it are parameters: \<^verbatim>\<open>cbor_map_add\<close> and \<^verbatim>\<open>cbor_array_push\<close> get the number of slots and the members
  so far, and return the new members, or \<open>None\<close> where libcbor returns \<^verbatim>\<open>false\<close>. The laws are libcbor's
  documentation: members keep their order, and a member beyond the slots is refused.
\<close>

record cbor_builder =
  cbor_map_add :: "nat \<Rightarrow> (cbor_item \<times> cbor_item) list \<Rightarrow> cbor_item \<times> cbor_item \<Rightarrow>
    (cbor_item \<times> cbor_item) list option"
  cbor_array_push :: "nat \<Rightarrow> cbor_item list \<Rightarrow> cbor_item \<Rightarrow> cbor_item list option"

locale builder_laws =
  fixes B :: cbor_builder
  assumes map_add: "cbor_map_add B n ps p = (if length ps < n then Some (ps @ [p]) else None)"
  and array_push: "cbor_array_push B n xs x = (if length xs < n then Some (xs @ [x]) else None)"

definition ref_builder :: cbor_builder where
  "ref_builder =
     \<lparr>cbor_map_add = (\<lambda>n ps p. if length ps < n then Some (ps @ [p]) else None),
      cbor_array_push = (\<lambda>n xs x. if length xs < n then Some (xs @ [x]) else None)\<rparr>"

interpretation ref_builder: builder_laws ref_builder
  by unfold_locales (simp_all add: ref_builder_def)

definition int_item :: "i64 \<Rightarrow> cbor_item" where
  "int_item v =
     (if 0 \<le> sint v then
        (if v \<le> 0xff then CBOR_TYPE_UINT CBOR_INT_8 v
         else if v \<le> 0xffff then CBOR_TYPE_UINT CBOR_INT_16 v
         else if v \<le> 0xffffffff then CBOR_TYPE_UINT CBOR_INT_32 v
         else CBOR_TYPE_UINT CBOR_INT_64 v)
      else
        let u = - (v + 1)
        in if u \<le> 0xff then CBOR_TYPE_NEGINT CBOR_INT_8 u
           else if u \<le> 0xffff then CBOR_TYPE_NEGINT CBOR_INT_16 u
           else if u \<le> 0xffffffff then CBOR_TYPE_NEGINT CBOR_INT_32 u
           else CBOR_TYPE_NEGINT CBOR_INT_64 u)"

definition cid_link_item :: "wf_cid \<Rightarrow> cbor_item option" where
  "cid_link_item cid =
     (if 36 < length cid then None
      else Some (CBOR_TYPE_TAG 42 (CBOR_TYPE_BYTESTRING True (0 # cid))))"

text \<open>\<^verbatim>\<open>cbor_build_string\<close> takes a C string, \<^verbatim>\<open>cbor_build_bool\<close> a truth value.\<close>

definition cbor_build_string :: "bytes \<Rightarrow> cbor_item" where
  "cbor_build_string s = CBOR_TYPE_STRING True (c_str s)"

definition cbor_build_bool :: "bool \<Rightarrow> cbor_item" where
  "cbor_build_bool b = CBOR_TYPE_FLOAT_CTRL (if b then CBOR_CTRL_TRUE else CBOR_CTRL_FALSE)"

abbreviation cbor_new_null :: cbor_item where
  "cbor_new_null \<equiv> CBOR_TYPE_FLOAT_CTRL CBOR_CTRL_NULL"

text \<open>
  \<^verbatim>\<open>map_put\<close> into a map of \<open>n\<close> slots: a null value or a full map leaves the map as it is (the code
  returns 0, which its callers ignore but for the signature of a label).
\<close>

definition map_put ::
  "cbor_builder \<Rightarrow> nat \<Rightarrow> (cbor_item \<times> cbor_item) list \<Rightarrow> string \<Rightarrow> cbor_item option \<Rightarrow>
     (cbor_item \<times> cbor_item) list \<times> bool" where
  "map_put B n ps key val =
     (case val of
        None \<Rightarrow> (ps, False)
      | Some v \<Rightarrow>
          (case cbor_map_add B n ps (cbor_build_string (ascii key), v) of
             None \<Rightarrow> (ps, False)
           | Some ps' \<Rightarrow> (ps', True)))"

text \<open>A sequence of such calls, in which a call may be skipped.\<close>

definition put :: "cbor_builder \<Rightarrow> nat \<Rightarrow> string \<Rightarrow> cbor_item option \<Rightarrow>
    (cbor_item \<times> cbor_item) list \<Rightarrow> (cbor_item \<times> cbor_item) list" where
  "put B n key val ps = fst (map_put B n ps key val)"

definition put_if :: "bool \<Rightarrow> cbor_builder \<Rightarrow> nat \<Rightarrow> string \<Rightarrow> cbor_item option \<Rightarrow>
    (cbor_item \<times> cbor_item) list \<Rightarrow> (cbor_item \<times> cbor_item) list" where
  "put_if b B n key val ps = (if b then put B n key val ps else ps)"

section \<open>The deterministic order\<close>

fun string_bytes :: "cbor_item \<Rightarrow> bytes" where
  "string_bytes (CBOR_TYPE_STRING d s) = s"
| "string_bytes _ = []"

definition canonical_pair_cmp :: "cbor_item \<times> cbor_item \<Rightarrow> cbor_item \<times> cbor_item \<Rightarrow> int" where
  "canonical_pair_cmp a b =
     (let a' = string_bytes (fst a); b' = string_bytes (fst b)
      in if length a' \<noteq> length b' then (if length a' < length b' then -1 else 1)
         else memcmp a' b')"

fun canonicalise :: "cbor_item \<Rightarrow> cbor_item" where
  "canonicalise (CBOR_TYPE_MAP d ps) =
     (if list_all (\<lambda>(k, v). cbor_isa_string k) ps
      then CBOR_TYPE_MAP d (map (\<lambda>(k, v). (k, canonicalise v)) (qsort canonical_pair_cmp ps))
      else CBOR_TYPE_MAP d ps)"
| "canonicalise (CBOR_TYPE_ARRAY d xs) = CBOR_TYPE_ARRAY d (map canonicalise xs)"
| "canonicalise i = i"

definition serialize_two :: "platform \<Rightarrow> cbor_item \<Rightarrow> cbor_item \<Rightarrow> bytes res" where
  "serialize_two P a b =
     (case cbor_serialize_alloc P (canonicalise a) of
        None \<Rightarrow> Inl WF_ERR_ALLOC
      | Some b1 \<Rightarrow>
          (case cbor_serialize_alloc P (canonicalise b) of
             None \<Rightarrow> Inl WF_ERR_ALLOC
           | Some b2 \<Rightarrow> Inr (b1 @ b2)))"

section \<open>Bodies\<close>

definition build_op :: "cbor_builder \<Rightarrow> wf_subscribe_repo_op \<Rightarrow> cbor_item" where
  "build_op B op =
     (let n = (if op_has_prev op then 4 else 3)
      in CBOR_TYPE_MAP True
           (put_if (op_has_prev op) B n ''prev'' (cid_link_item (op_prev op))
           (put B n ''cid'' (if op_has_cid op then cid_link_item (op_cid op) else Some cbor_new_null)
           (put B n ''path'' (Some (cbor_build_string (op_path op)))
           (put B n ''action'' (Some (cbor_build_string (op_action op))) [])))))"

definition push :: "cbor_builder \<Rightarrow> nat \<Rightarrow> cbor_item list \<Rightarrow> cbor_item \<Rightarrow> cbor_item list" where
  "push B n xs x = (case cbor_array_push B n xs x of None \<Rightarrow> xs | Some xs' \<Rightarrow> xs')"

definition build_ops :: "cbor_builder \<Rightarrow> wf_subscribe_repo_op list \<Rightarrow> cbor_item" where
  "build_ops B ops = CBOR_TYPE_ARRAY True (foldl (push B (length ops)) [] (map (build_op B) ops))"

definition build_commit_body :: "cbor_builder \<Rightarrow> wf_subscribe_commit \<Rightarrow> cbor_item" where
  "build_commit_body B c =
     (let n = (if c_has_prev_data c then 12 else 11)
      in CBOR_TYPE_MAP True
           (put_if (c_has_prev_data c) B n ''prevData'' (cid_link_item (c_prev_data c))
           (put B n ''time'' (Some (cbor_build_string (c_time c)))
           (put B n ''blobs'' (Some (CBOR_TYPE_ARRAY True []))
           (put B n ''ops'' (Some (build_ops B (c_ops c)))
           (put B n ''blocks'' (Some (CBOR_TYPE_BYTESTRING True (c_blocks c)))
           (put B n ''since'' (Some (if c_str (c_since c) \<noteq> [] then cbor_build_string (c_since c)
                                    else cbor_new_null))
           (put B n ''rev'' (Some (cbor_build_string (c_rev c)))
           (put B n ''commit'' (cid_link_item (c_commit_cid c))
           (put B n ''repo'' (Some (cbor_build_string (c_did c)))
           (put B n ''tooBig'' (Some (cbor_build_bool False))
           (put B n ''rebase'' (Some (cbor_build_bool False))
           (put B n ''seq'' (Some (int_item (c_seq c))) [])))))))))))))"

definition build_sync_body :: "cbor_builder \<Rightarrow> wf_subscribe_sync \<Rightarrow> cbor_item" where
  "build_sync_body B s =
     CBOR_TYPE_MAP True
       (put B 5 ''time'' (Some (cbor_build_string (s_time s)))
       (put B 5 ''rev'' (Some (cbor_build_string (s_rev s)))
       (put B 5 ''blocks'' (Some (CBOR_TYPE_BYTESTRING True (s_blocks s)))
       (put B 5 ''did'' (Some (cbor_build_string (s_did s)))
       (put B 5 ''seq'' (Some (int_item (s_seq s))) [])))))"

definition build_identity_body :: "cbor_builder \<Rightarrow> wf_subscribe_identity \<Rightarrow> cbor_item" where
  "build_identity_body B i =
     (let n = (if id_has_handle i then 4 else 3)
      in CBOR_TYPE_MAP True
           (put_if (id_has_handle i) B n ''handle'' (Some (cbor_build_string (id_handle i)))
           (put B n ''time'' (Some (cbor_build_string (id_time i)))
           (put B n ''did'' (Some (cbor_build_string (id_did i)))
           (put B n ''seq'' (Some (int_item (id_seq i))) [])))))"

definition build_account_body :: "cbor_builder \<Rightarrow> wf_subscribe_account \<Rightarrow> cbor_item" where
  "build_account_body B ac =
     (let n = (if ac_has_status ac then 5 else 4)
      in CBOR_TYPE_MAP True
           (put_if (ac_has_status ac) B n ''status'' (Some (cbor_build_string (ac_status ac)))
           (put B n ''active'' (Some (cbor_build_bool (ac_active ac)))
           (put B n ''time'' (Some (cbor_build_string (ac_time ac)))
           (put B n ''did'' (Some (cbor_build_string (ac_did ac)))
           (put B n ''seq'' (Some (int_item (ac_seq ac))) []))))))"

definition build_info_body :: "cbor_builder \<Rightarrow> wf_subscribe_info \<Rightarrow> cbor_item" where
  "build_info_body B info =
     (let n = (if info_has_message info then 2 else 1)
      in CBOR_TYPE_MAP True
           (put_if (info_has_message info) B n ''message'' (Some (cbor_build_string (info_message info)))
           (put B n ''name'' (Some (cbor_build_string (info_name info))) [])))"

text \<open>
  One label; \<open>None\<close> where the code returns a null pointer. The flags say which optional members are
  present; a set flag with a null string is outside the function's contract (\<^verbatim>\<open>strlen\<close> of a null
  pointer) and reads as the empty string here.
\<close>

definition or_empty :: "bytes option \<Rightarrow> bytes" where
  "or_empty s = (case s of None \<Rightarrow> [] | Some b \<Rightarrow> b)"

definition build_label_item :: "cbor_builder \<Rightarrow> evp \<Rightarrow> wf_label \<Rightarrow> cbor_item option" where
  "build_label_item B E l =
     (case (l_src l, l_uri l, l_val l, l_cts l) of
        (Some src, Some uri, Some val, Some cts) \<Rightarrow>
          (let n = 4 + of_bool (l_has_ver l) + of_bool (l_has_cid l) + of_bool (l_has_neg l)
                 + of_bool (l_has_exp l) + of_bool (l_has_sig l);
               m = put_if (l_has_exp l) B n ''exp'' (Some (cbor_build_string (or_empty (l_exp l))))
                  (put B n ''cts'' (Some (cbor_build_string cts))
                  (put_if (l_has_neg l) B n ''neg'' (Some (cbor_build_bool (l_neg l)))
                  (put B n ''val'' (Some (cbor_build_string val))
                  (put_if (l_has_cid l) B n ''cid'' (Some (cbor_build_string (or_empty (l_cid l))))
                  (put B n ''uri'' (Some (cbor_build_string uri))
                  (put B n ''src'' (Some (cbor_build_string src))
                  (put_if (l_has_ver l) B n ''ver'' (Some (int_item (l_ver l))) [])))))))
           in if \<not> l_has_sig l then Some (CBOR_TYPE_MAP True m)
              else case wf_crypto_base64url_decode E (c_str (or_empty (l_sig l))) of
                     Inl _ \<Rightarrow> None
                   | Inr raw \<Rightarrow>
                       (case map_put B n m ''sig'' (Some (CBOR_TYPE_BYTESTRING True raw)) of
                          (m', ok) \<Rightarrow> (if ok then Some (CBOR_TYPE_MAP True m') else None)))
      | _ \<Rightarrow> None)"

definition build_labels_body :: "cbor_builder \<Rightarrow> evp \<Rightarrow> wf_subscribe_labels \<Rightarrow> cbor_item option" where
  "build_labels_body B E l =
     (case those (map (build_label_item B E) (ls_labels l)) of
        None \<Rightarrow> None
      | Some items \<Rightarrow>
          Some (CBOR_TYPE_MAP True
            (put B 2 ''labels''
               (Some (CBOR_TYPE_ARRAY True (foldl (push B (length (ls_labels l))) [] items)))
            (put B 2 ''seq'' (Some (int_item (ls_seq l))) []))))"

definition build_error_body :: "cbor_builder \<Rightarrow> bytes option \<Rightarrow> bytes option \<Rightarrow> cbor_item" where
  "build_error_body B error message =
     (let n = (if error \<noteq> None then 2 else 1)
      in CBOR_TYPE_MAP True
           (put_if (message \<noteq> None) B n ''message'' (Some (cbor_build_string (or_empty message)))
           (put B n ''error'' (Some (case error of None \<Rightarrow> cbor_new_null
                                            | Some e \<Rightarrow> cbor_build_string e)) [])))"

section \<open>Publishing\<close>

fun build_body :: "cbor_builder \<Rightarrow> evp \<Rightarrow> wf_subscribe_data \<Rightarrow> cbor_item option" where
  "build_body B E (WF_SUBSCRIBE_EVENT_COMMIT c) = Some (build_commit_body B c)"
| "build_body B E (WF_SUBSCRIBE_EVENT_SYNC s) = Some (build_sync_body B s)"
| "build_body B E (WF_SUBSCRIBE_EVENT_IDENTITY i) = Some (build_identity_body B i)"
| "build_body B E (WF_SUBSCRIBE_EVENT_ACCOUNT ac) = Some (build_account_body B ac)"
| "build_body B E (WF_SUBSCRIBE_EVENT_INFO info) = Some (build_info_body B info)"
| "build_body B E (WF_SUBSCRIBE_EVENT_LABELS l) = build_labels_body B E l"
| "build_body B E (WF_SUBSCRIBE_EVENT_ERROR e) = Some (build_error_body B (er_error e) (er_message e))"

fun event_tag :: "wf_subscribe_data \<Rightarrow> string option" where
  "event_tag (WF_SUBSCRIBE_EVENT_COMMIT c) = Some ''#commit''"
| "event_tag (WF_SUBSCRIBE_EVENT_SYNC s) = Some ''#sync''"
| "event_tag (WF_SUBSCRIBE_EVENT_IDENTITY i) = Some ''#identity''"
| "event_tag (WF_SUBSCRIBE_EVENT_ACCOUNT ac) = Some ''#account''"
| "event_tag (WF_SUBSCRIBE_EVENT_INFO info) = Some ''#info''"
| "event_tag (WF_SUBSCRIBE_EVENT_LABELS l) = Some ''#labels''"
| "event_tag (WF_SUBSCRIBE_EVENT_ERROR e) = None"

definition build_header :: "cbor_builder \<Rightarrow> string option \<Rightarrow> cbor_item" where
  "build_header B t =
     (let n = (if t = None then 1 else 2)
      in CBOR_TYPE_MAP True
           (put_if (t \<noteq> None) B n ''t'' (map_option (\<lambda>t. cbor_build_string (ascii t)) t)
           (put B n ''op'' (Some (int_item (if t = None then -1 else 1))) [])))"

definition wf_sync_publish_event ::
  "platform \<Rightarrow> cbor_builder \<Rightarrow> evp \<Rightarrow> wf_subscribe_event \<Rightarrow> bytes res" where
  "wf_sync_publish_event P B E ev =
     (case build_body B E (ev_data ev) of
        None \<Rightarrow> Inl WF_ERR_ALLOC
      | Some body \<Rightarrow> serialize_two P (build_header B (event_tag (ev_data ev))) body)"

definition wf_sync_publish_error ::
  "platform \<Rightarrow> cbor_builder \<Rightarrow> i64 \<Rightarrow> bytes option \<Rightarrow> bytes option \<Rightarrow> bytes res" where
  "wf_sync_publish_error P B seq error message =
     serialize_two P
       (CBOR_TYPE_MAP True (put B 1 ''op'' (Some (int_item (-1))) []))
       (build_error_body B error message)"

end
