(* ===== verification/Publish_Roundtrip.thy ===== *)
theory Publish_Roundtrip
  imports Publish Cbor_Roundtrip
begin

text \<open>
  Lemmas for the firehose round trip: string-keyed maps as association lists, what sorting a map
  keeps, the frame reader on two encoded items, and the items the builders make.
\<close>

section \<open>String-keyed maps\<close>

lemma of_char_byte_eq_iff: "(of_char c :: byte) = of_char d \<longleftrightarrow> c = d"
proof
  have u: "unat (of_char x :: byte) = of_char x" for x
    using unat_of_nat [of "of_char x", where ?'a = 8] by (simp add: of_nat_of_char)
  assume "(of_char c :: byte) = of_char d"
  then have "unat (of_char c :: byte) = unat (of_char d :: byte)" by simp
  then show "c = d" by (simp only: u of_char_eq_iff)
qed simp

lemma ascii_eq_iff [simp]: "ascii s = ascii t \<longleftrightarrow> s = t"
  unfolding ascii_def by (rule inj_map_eq_map) (simp add: inj_def of_char_byte_eq_iff)

definition c_name :: "string \<Rightarrow> bool" where
  "c_name s \<longleftrightarrow> list_all (\<lambda>c. c \<noteq> CHR 0x00) s"

lemma c_str_ascii: "c_name s \<Longrightarrow> c_str (ascii s) = ascii s"
proof -
  have z: "(of_char c :: byte) = 0 \<longleftrightarrow> c = CHR 0x00" for c
    using of_char_byte_eq_iff [of c "CHR 0x00"] by simp
  show "c_name s \<Longrightarrow> ?thesis"
    by (auto simp: c_name_def c_str_def ascii_def list_all_iff z takeWhile_eq_all_conv)
qed

definition smap :: "(string \<times> cbor_item) list \<Rightarrow> cbor_item" where
  "smap kvs = CBOR_TYPE_MAP True (map (\<lambda>(k, v). (CBOR_TYPE_STRING True (ascii k), v)) kvs)"

lemma find_pair_map_of:
  "find_pair (ascii k) (map (\<lambda>(k, v). (CBOR_TYPE_STRING True (ascii k), v)) kvs) = map_of kvs k"
  by (induction kvs) auto

lemma map_find_smap: "map_find (smap kvs) k = map_of kvs k"
  unfolding smap_def map_find.simps find_pair_map_of ..

lemma distinct_qsort: "distinct (map f (qsort cmp xs)) \<longleftrightarrow> distinct (map f xs)"
  by (metis card_distinct distinct_card length_map length_qsort set_map set_qsort)

lemma sorted_qsort:
  fixes f :: "'a \<Rightarrow> 'b::linorder"
  assumes "\<And>a b. a \<in> set xs \<Longrightarrow> b \<in> set xs \<Longrightarrow> cmp a b \<le> 0 \<longleftrightarrow> f a \<le> f b"
  shows "sorted (map f (qsort cmp xs))"
proof -
  have ins: "sorted (map f (qinsert cmp x ys))"
    if "sorted (map f ys)" "\<And>y. y \<in> set ys \<Longrightarrow> cmp x y \<le> 0 \<longleftrightarrow> f x \<le> f y" for x ys
    using that by (induction ys) (auto intro: order_trans)
  show ?thesis
    using assms
  proof (induction xs)
    case (Cons x xs)
    then have "sorted (map f (qsort cmp xs))" by simp
    then have "sorted (map f (qinsert cmp x (qsort cmp xs)))"
      using Cons.prems by (intro ins) auto
    then show ?case by (simp add: qsort_def)
  qed (simp add: qsort_def)
qed

text \<open>Sorting an association list with distinct keys does not change its lookups.\<close>

lemma map_of_qsort: "distinct (map fst xs) \<Longrightarrow> map_of (qsort cmp xs) = map_of xs"
  by (rule map_of_inject_set [THEN iffD2]) (simp_all add: distinct_qsort)

definition sorted_kvs :: "(string \<times> cbor_item) list \<Rightarrow> (string \<times> cbor_item) list" where
  "sorted_kvs kvs =
     qsort (\<lambda>a b. canonical_pair_cmp (CBOR_TYPE_STRING True (ascii (fst a)), snd a)
                                     (CBOR_TYPE_STRING True (ascii (fst b)), snd b)) kvs"

lemma canonicalise_smap:
  "canonicalise (smap kvs) = smap (map (\<lambda>(k, v). (k, canonicalise v)) (sorted_kvs kvs))"
proof -
  have "qsort canonical_pair_cmp (map (\<lambda>(k, v). (CBOR_TYPE_STRING True (ascii k), v)) kvs) =
      map (\<lambda>(k, v). (CBOR_TYPE_STRING True (ascii k), v)) (sorted_kvs kvs)"
    unfolding sorted_kvs_def by (rule map_qsort [symmetric]) (simp add: case_prod_unfold)
  then show ?thesis
    by (simp add: smap_def list_all_iff case_prod_unfold comp_def)
qed

lemma map_find_canonicalise:
  assumes "distinct (map fst kvs)"
  shows "map_find (canonicalise (smap kvs)) k = map_option canonicalise (map_of kvs k)"
proof -
  have "map_of (map (\<lambda>(k, v). (k, canonicalise v)) (sorted_kvs kvs)) k =
      map_option canonicalise (map_of kvs k)"
    using assms by (simp add: map_of_map sorted_kvs_def map_of_qsort)
  then show ?thesis
    unfolding canonicalise_smap map_find_smap .
qed

section \<open>What sorting keeps\<close>

lemma canonicalise_sized: "cbor_sized i \<Longrightarrow> cbor_sized (canonicalise i)"
  by (induction i rule: canonicalise.induct) (auto simp: list_all_iff)

lemma canonicalise_definite: "cbor_definite i \<Longrightarrow> cbor_definite (canonicalise i)"
  by (induction i rule: canonicalise.induct) (auto simp: list_all_iff)

lemma canonicalise_tags: "tags_42 i \<Longrightarrow> tags_42 (canonicalise i)"
  by (induction i rule: canonicalise.induct) (auto simp: list_all_iff)

lemma canonicalise_nesting: "cbor_nesting (canonicalise i) = cbor_nesting i"
proof (induction i rule: canonicalise.induct)
  case (1 d ps)
  show ?case
  proof (cases "list_all (\<lambda>(k, v). cbor_isa_string k) ps")
    case True
    have "cbor_nesting (canonicalise v) = cbor_nesting v" if "(k, v) \<in> set ps" for k v
      using "1.IH" [OF True, of "(k, v)" k v] that by simp
    then have "(\<lambda>(k, v). max (cbor_nesting k) (cbor_nesting (canonicalise v))) ` set ps =
        (\<lambda>(k, v). max (cbor_nesting k) (cbor_nesting v)) ` set ps"
      by (intro image_cong) auto
    with True show ?thesis by (simp add: image_image case_prod_unfold)
  qed simp
next
  case (2 d xs)
  then have "(\<lambda>x. cbor_nesting (canonicalise x)) ` set xs = cbor_nesting ` set xs"
    by (intro image_cong) auto
  then show ?case by (simp add: image_image)
qed simp_all

lemmas canonicalise_keeps = canonicalise_sized canonicalise_definite canonicalise_tags
  canonicalise_nesting

section \<open>Frames\<close>

text \<open>Items the frame functions handle: what libcbor encodes and the pre-scan accepts.\<close>

definition item_ok :: "cbor_item \<Rightarrow> bool" where
  "item_ok i \<longleftrightarrow> cbor_sized i \<and> cbor_definite i \<and> tags_42 i \<and> cbor_nesting i \<le> 65"

lemma item_ok_canonicalise: "item_ok i \<Longrightarrow> item_ok (canonicalise i)"
  by (simp add: item_ok_def canonicalise_keeps)

lemma scan_item_enc:
  assumes "item_ok i"
  shows "wf_cbor_scan_item (rfc_enc i @ rest) = Some (length (rfc_enc i))"
  using assms prescan_rfc_enc [of i 0 rest] rfc_enc_nonempty [of i]
  by (auto simp: item_ok_def wf_cbor_scan_item_def)

context platform_laws
begin

lemma load_frame_enc:
  assumes "item_ok h" "item_ok b"
  shows "load_frame P (rfc_enc h @ rfc_enc b) = Some (h, b)"
proof -
  have "rfc_enc b \<noteq> []" using rfc_enc_nonempty [of b] by auto
  then show ?thesis
    using scan_item_enc [OF assms(1)] scan_item_enc [OF assms(2), of "[]"] assms
    by (simp add: load_frame_def item_ok_def load_encoded)
qed

lemma serialize_two_enc:
  assumes "item_ok a" "item_ok b"
  shows "serialize_two P a b = Inr (rfc_enc (canonicalise a) @ rfc_enc (canonicalise b))"
  using assms [THEN item_ok_canonicalise]
  by (simp add: serialize_two_def item_ok_def serialize_encoded)

end

section \<open>What the builders make\<close>

text \<open>Items nested at most \<open>n\<close> deep that libcbor encodes and the pre-scan accepts.\<close>

definition item_within :: "nat \<Rightarrow> cbor_item \<Rightarrow> bool" where
  "item_within n i \<longleftrightarrow> cbor_sized i \<and> cbor_definite i \<and> tags_42 i \<and> cbor_nesting i \<le> n"

lemma item_within_ok: "item_within n i \<Longrightarrow> n \<le> 65 \<Longrightarrow> item_ok i"
  by (auto simp: item_within_def item_ok_def)

lemma length_ascii [simp]: "length (ascii s) = length s"
  by (simp add: ascii_def)

lemma within_smap:
  assumes "length kvs < 2 ^ 64" "list_all (\<lambda>(k, v). length k < 2 ^ 64 \<and> item_within n v) kvs" "1 \<le> n"
  shows "item_within (Suc n) (smap kvs)"
proof -
  have "Max (insert 0 ((\<lambda>x. max 1 (cbor_nesting (snd x))) ` set kvs)) \<le> n"
    using assms by (subst Max_le_iff) (auto simp: item_within_def list_all_iff)
  then show ?thesis
    using assms
    by (auto simp: item_within_def smap_def list_all_iff image_image case_prod_unfold)
qed

lemma within_array:
  assumes "length xs < 2 ^ 64" "list_all (item_within n) xs"
  shows "item_within (Suc n) (CBOR_TYPE_ARRAY True xs)"
proof -
  have "Max (insert 0 (cbor_nesting ` set xs)) \<le> n"
    using assms by (subst Max_le_iff) (auto simp: item_within_def list_all_iff)
  then show ?thesis
    using assms by (auto simp: item_within_def list_all_iff)
qed

lemma within_mono: "item_within m i \<Longrightarrow> m \<le> n \<Longrightarrow> item_within n i"
  by (auto simp: item_within_def)

lemma unat_u64_le: "(v :: u64) \<le> w \<longleftrightarrow> unat v \<le> unat w"
  by (rule word_le_nat_alt)

lemma int_item_shape:
  "item_int (int_item v) = Some v" "item_within 1 (int_item v)" "canonicalise (int_item v) = int_item v"
  unfolding int_item_def item_within_def
  using unat_lt_64 [of v] unat_lt_64 [of "- (v + 1)"]
  by (auto simp: Let_def unat_u64_le)

lemma within_leaf:
  assumes "1 \<le> n"
  shows "item_within n (CBOR_TYPE_STRING True s) \<longleftrightarrow> length s < 2 ^ 64"
    "item_within n (CBOR_TYPE_BYTESTRING True s) \<longleftrightarrow> length s < 2 ^ 64"
    "item_within n (CBOR_TYPE_FLOAT_CTRL ctl) \<longleftrightarrow> ctl \<noteq> CBOR_CTRL_OTHER"
    "item_within n (cbor_build_bool b)" "item_within n (int_item v)"
  using assms within_mono [OF int_item_shape(2)] by (auto simp: item_within_def cbor_build_bool_def)

lemma within_link:
  assumes "2 \<le> n" "length cid \<le> 36"
  shows "item_within n (CBOR_TYPE_TAG 42 (CBOR_TYPE_BYTESTRING True (0 # cid)))"
  using assms by (auto simp: item_within_def)

abbreviation enc_kvs :: "(string \<times> cbor_item) list \<Rightarrow> (cbor_item \<times> cbor_item) list" where
  "enc_kvs kvs \<equiv> map (\<lambda>(k, v). (CBOR_TYPE_STRING True (ascii k), v)) kvs"

context builder_laws
begin

lemma put_enc:
  assumes "c_name key" "length kvs < n"
  shows "put B n key (Some v) (enc_kvs kvs) = enc_kvs (kvs @ [(key, v)])"
  using assms by (simp add: put_def map_put_def map_add cbor_build_string_def c_str_ascii)

lemma put_if_enc:
  assumes "c_name key" "b \<Longrightarrow> length kvs < n"
  shows "put_if b B n key (Some v) (enc_kvs kvs) = enc_kvs (kvs @ (if b then [(key, v)] else []))"
  using assms put_enc [OF assms(1)] by (simp add: put_if_def)

lemma push_all:
  "length xs + length ys \<le> n \<Longrightarrow> foldl (push B n) xs ys = xs @ ys"
  by (induction ys arbitrary: xs) (simp_all add: push_def array_push)

end

end
