(* ===== verification/Publish_Props.thy ===== *)
theory Publish_Props
  imports Publish_Roundtrip Ref_Platform
begin

text \<open>
  The firehose codec is its own inverse: publishing an event and decoding the frame gives the event
  back, field by field, for all seven kinds of event; and every decoded event fits the arrays of
  its struct.
\<close>

section \<open>Events that fit their structs\<close>

text \<open>
  A C string below a size, an optional CID with its flag, and an optional heap string with its
  flag. Absent members are zeroed, as the decoder leaves them.
\<close>

definition fits :: "nat \<Rightarrow> bytes \<Rightarrow> bool" where
  "fits n s \<longleftrightarrow> length s < n \<and> c_str s = s"

definition cid_ok :: "bool \<Rightarrow> wf_cid \<Rightarrow> bool" where
  "cid_ok has cid \<longleftrightarrow> length cid \<le> 36 \<and> (\<not> has \<longrightarrow> cid = [])"

definition string_ok :: "nat \<Rightarrow> bool \<Rightarrow> bytes \<Rightarrow> bool" where
  "string_ok n has s \<longleftrightarrow> fits n s \<and> (\<not> has \<longrightarrow> s = [])"

definition heap_ok :: "bool \<Rightarrow> bytes option \<Rightarrow> bool" where
  "heap_ok has s \<longleftrightarrow> (case s of None \<Rightarrow> \<not> has | Some b \<Rightarrow> has \<and> fits (2 ^ 64) b)"

definition op_ok :: "wf_subscribe_repo_op \<Rightarrow> bool" where
  "op_ok op \<longleftrightarrow> fits 8 (op_action op) \<and> op_action op \<noteq> [] \<and> fits (2 ^ 64) (op_path op) \<and>
     cid_ok (op_has_cid op) (op_cid op) \<and> cid_ok (op_has_prev op) (op_prev op)"

text \<open>The signature of a label is the base64url text of some bytes.\<close>

definition sig_ok :: "bool \<Rightarrow> bytes option \<Rightarrow> bool" where
  "sig_ok has s \<longleftrightarrow>
     (case s of
        None \<Rightarrow> \<not> has
      | Some t \<Rightarrow> has \<and> (case wf_crypto_base64url_decode_strict t of
                           Inl _ \<Rightarrow> False
                         | Inr raw \<Rightarrow> length raw < 2 ^ 29))"

definition label_ok :: "wf_label \<Rightarrow> bool" where
  "label_ok l \<longleftrightarrow> l_seq l = 0 \<and> heap_ok True (l_src l) \<and> heap_ok True (l_uri l) \<and>
     heap_ok True (l_val l) \<and> heap_ok True (l_cts l) \<and> heap_ok (l_has_cid l) (l_cid l) \<and>
     heap_ok (l_has_exp l) (l_exp l) \<and> (\<not> l_has_ver l \<longrightarrow> l_ver l = 0) \<and>
     (\<not> l_has_neg l \<longrightarrow> \<not> l_neg l) \<and> sig_ok (l_has_sig l) (l_sig l)"

fun data_ok :: "wf_subscribe_data \<Rightarrow> bool" where
  "data_ok (WF_SUBSCRIBE_EVENT_COMMIT c) \<longleftrightarrow>
     fits 256 (c_did c) \<and> length (c_commit_cid c) \<le> 36 \<and> fits 64 (c_rev c) \<and>
     fits 64 (c_since c) \<and> length (c_blocks c) < 2 ^ 64 \<and> length (c_ops c) < 2 ^ 64 \<and>
     list_all op_ok (c_ops c) \<and> fits 64 (c_time c) \<and> cid_ok (c_has_prev_data c) (c_prev_data c)"
| "data_ok (WF_SUBSCRIBE_EVENT_SYNC s) \<longleftrightarrow>
     fits 256 (s_did s) \<and> length (s_blocks s) < 2 ^ 64 \<and> fits 64 (s_rev s) \<and> fits 64 (s_time s)"
| "data_ok (WF_SUBSCRIBE_EVENT_IDENTITY i) \<longleftrightarrow>
     fits 256 (id_did i) \<and> fits 64 (id_time i) \<and> string_ok 256 (id_has_handle i) (id_handle i)"
| "data_ok (WF_SUBSCRIBE_EVENT_ACCOUNT ac) \<longleftrightarrow>
     fits 256 (ac_did ac) \<and> fits 64 (ac_time ac) \<and> string_ok 64 (ac_has_status ac) (ac_status ac)"
| "data_ok (WF_SUBSCRIBE_EVENT_INFO info) \<longleftrightarrow>
     fits 64 (info_name info) \<and> string_ok 512 (info_has_message info) (info_message info)"
| "data_ok (WF_SUBSCRIBE_EVENT_LABELS l) \<longleftrightarrow>
     length (ls_labels l) < 2 ^ 64 \<and> list_all label_ok (ls_labels l)"
| "data_ok (WF_SUBSCRIBE_EVENT_ERROR e) \<longleftrightarrow>
     heap_ok True (er_error e) \<and> heap_ok (er_message e \<noteq> None) (er_message e)"

fun data_seq :: "wf_subscribe_data \<Rightarrow> i64" where
  "data_seq (WF_SUBSCRIBE_EVENT_COMMIT c) = c_seq c"
| "data_seq (WF_SUBSCRIBE_EVENT_SYNC s) = s_seq s"
| "data_seq (WF_SUBSCRIBE_EVENT_IDENTITY i) = id_seq i"
| "data_seq (WF_SUBSCRIBE_EVENT_ACCOUNT ac) = ac_seq ac"
| "data_seq (WF_SUBSCRIBE_EVENT_INFO info) = 0"
| "data_seq (WF_SUBSCRIBE_EVENT_LABELS l) = ls_seq l"
| "data_seq (WF_SUBSCRIBE_EVENT_ERROR e) = 0"

definition event_ok :: "wf_subscribe_event \<Rightarrow> bool" where
  "event_ok ev \<longleftrightarrow> ev_seq ev = data_seq (ev_data ev) \<and> data_ok (ev_data ev)"

section \<open>Bodies as association lists\<close>

lemma fitsD: "fits n s \<Longrightarrow> length s < n" "fits n s \<Longrightarrow> c_str s = s"
  by (auto simp: fits_def)

lemma build_string_fits: "fits n s \<Longrightarrow> cbor_build_string s = CBOR_TYPE_STRING True s"
  by (simp add: cbor_build_string_def fits_def)

abbreviation link :: "wf_cid \<Rightarrow> cbor_item" where
  "link cid \<equiv> CBOR_TYPE_TAG 42 (CBOR_TYPE_BYTESTRING True (0 # cid))"

lemma cid_link_item_ok: "length cid \<le> 36 \<Longrightarrow> cid_link_item cid = Some (link cid)"
  by (simp add: cid_link_item_def)

definition opt :: "bool \<Rightarrow> string \<Rightarrow> cbor_item \<Rightarrow> (string \<times> cbor_item) list" where
  "opt b k v = (if b then [(k, v)] else [])"

abbreviation str :: "bytes \<Rightarrow> cbor_item" where
  "str s \<equiv> CBOR_TYPE_STRING True s"

definition op_kvs :: "wf_subscribe_repo_op \<Rightarrow> (string \<times> cbor_item) list" where
  "op_kvs op =
     [(''action'', str (op_action op)), (''path'', str (op_path op)),
      (''cid'', if op_has_cid op then link (op_cid op) else cbor_new_null)]
     @ opt (op_has_prev op) ''prev'' (link (op_prev op))"

definition commit_kvs :: "wf_subscribe_commit \<Rightarrow> (string \<times> cbor_item) list" where
  "commit_kvs c =
     [(''seq'', int_item (c_seq c)), (''rebase'', cbor_build_bool False),
      (''tooBig'', cbor_build_bool False), (''repo'', str (c_did c)),
      (''commit'', link (c_commit_cid c)), (''rev'', str (c_rev c)),
      (''since'', if c_since c \<noteq> [] then str (c_since c) else cbor_new_null),
      (''blocks'', CBOR_TYPE_BYTESTRING True (c_blocks c)),
      (''ops'', CBOR_TYPE_ARRAY True (map (\<lambda>op. smap (op_kvs op)) (c_ops c))),
      (''blobs'', CBOR_TYPE_ARRAY True []), (''time'', str (c_time c))]
     @ opt (c_has_prev_data c) ''prevData'' (link (c_prev_data c))"

definition label_kvs :: "wf_label \<Rightarrow> bytes \<Rightarrow> (string \<times> cbor_item) list" where
  "label_kvs l raw =
     opt (l_has_ver l) ''ver'' (int_item (l_ver l)) @
     [(''src'', str (or_empty (l_src l))), (''uri'', str (or_empty (l_uri l)))] @
     opt (l_has_cid l) ''cid'' (str (or_empty (l_cid l))) @
     [(''val'', str (or_empty (l_val l)))] @
     opt (l_has_neg l) ''neg'' (cbor_build_bool (l_neg l)) @
     [(''cts'', str (or_empty (l_cts l)))] @
     opt (l_has_exp l) ''exp'' (str (or_empty (l_exp l))) @
     opt (l_has_sig l) ''sig'' (CBOR_TYPE_BYTESTRING True raw)"

lemma length_opt [simp]: "length (opt b k v) = of_bool b"
  by (simp add: opt_def)

lemma opt_simps [simp]: "opt False k v = []" "opt True k v = [(k, v)]"
  by (simp_all add: opt_def)

lemma c_str_Nil [simp]: "c_str [] = []"
  by (simp add: c_str_def)

text \<open>The text of a signature is a C string.\<close>

lemma c_str_base64url: "c_str (base64url raw) = base64url raw"
proof -
  have "b64u_char v \<noteq> 0" if "v < 64" for v
    using b64u_value_char [OF that] by (auto simp: b64u_value_def)
  then have "0 \<notin> set (base64url raw)"
    by (induction raw rule: base64url.induct)
      (auto simp: sextet_bounds simp del: push_bit_and dest: sym)
  then show ?thesis by (auto simp: c_str_def takeWhile_eq_all_conv)
qed

lemmas body_simps = fits_def string_ok_def cid_ok_def cbor_build_string_def cid_link_item_ok

context builder_laws
begin

lemma put_opt_enc:
  assumes "c_name key" "b \<Longrightarrow> length kvs < n"
  shows "put_if b B n key (Some v) (enc_kvs kvs) = enc_kvs (kvs @ opt b key v)"
  unfolding opt_def using assms by (rule put_if_enc)

lemma put_start: "[] = enc_kvs []"
  by simp

lemma build_op_kvs:
  assumes "op_ok op"
  shows "build_op B op = smap (op_kvs op)"
  using assms unfolding build_op_def Let_def smap_def op_kvs_def put_start op_ok_def
  by (simp add: put_enc put_opt_enc c_name_def body_simps del: map_append list.map)

lemma build_ops_kvs:
  assumes "list_all op_ok ops"
  shows "build_ops B ops = CBOR_TYPE_ARRAY True (map (\<lambda>op. smap (op_kvs op)) ops)"
proof -
  have "map (build_op B) ops = map (\<lambda>op. smap (op_kvs op)) ops"
    using assms by (simp add: list_all_iff build_op_kvs)
  then show ?thesis by (simp add: build_ops_def push_all)
qed

lemma build_commit_kvs:
  assumes "data_ok (WF_SUBSCRIBE_EVENT_COMMIT c)"
  shows "build_commit_body B c = smap (commit_kvs c)"
  using assms unfolding build_commit_body_def Let_def commit_kvs_def put_start
  by (simp add: put_enc put_opt_enc c_name_def body_simps build_ops_kvs smap_def [symmetric] del: map_append list.map)

lemma build_sync_kvs:
  assumes "data_ok (WF_SUBSCRIBE_EVENT_SYNC s)"
  shows "build_sync_body B s =
    smap [(''seq'', int_item (s_seq s)), (''did'', str (s_did s)),
          (''blocks'', CBOR_TYPE_BYTESTRING True (s_blocks s)), (''rev'', str (s_rev s)),
          (''time'', str (s_time s))]"
  using assms unfolding build_sync_body_def smap_def put_start
  by (simp add: put_enc c_name_def body_simps del: map_append list.map)

lemma build_identity_kvs:
  assumes "data_ok (WF_SUBSCRIBE_EVENT_IDENTITY i)"
  shows "build_identity_body B i =
    smap ([(''seq'', int_item (id_seq i)), (''did'', str (id_did i)), (''time'', str (id_time i))]
          @ opt (id_has_handle i) ''handle'' (str (id_handle i)))"
  using assms unfolding build_identity_body_def Let_def smap_def put_start
  by (simp add: put_enc put_opt_enc c_name_def body_simps del: map_append list.map)

lemma build_account_kvs:
  assumes "data_ok (WF_SUBSCRIBE_EVENT_ACCOUNT ac)"
  shows "build_account_body B ac =
    smap ([(''seq'', int_item (ac_seq ac)), (''did'', str (ac_did ac)), (''time'', str (ac_time ac)),
           (''active'', cbor_build_bool (ac_active ac))]
          @ opt (ac_has_status ac) ''status'' (str (ac_status ac)))"
  using assms unfolding build_account_body_def Let_def smap_def put_start
  by (simp add: put_enc put_opt_enc c_name_def body_simps del: map_append list.map)

lemma build_info_kvs:
  assumes "data_ok (WF_SUBSCRIBE_EVENT_INFO info)"
  shows "build_info_body B info =
    smap ([(''name'', str (info_name info))]
          @ opt (info_has_message info) ''message'' (str (info_message info)))"
  using assms unfolding build_info_body_def Let_def smap_def put_start
  by (simp add: put_enc put_opt_enc c_name_def body_simps del: map_append list.map)

lemma build_error_kvs:
  assumes "data_ok (WF_SUBSCRIBE_EVENT_ERROR e)"
  shows "build_error_body B (er_error e) (er_message e) =
    smap ([(''error'', str (or_empty (er_error e)))]
          @ opt (er_message e \<noteq> None) ''message'' (str (or_empty (er_message e))))"
  using assms unfolding build_error_body_def Let_def smap_def put_start
  by (auto simp: put_enc put_opt_enc c_name_def body_simps heap_ok_def or_empty_def
      simp del: map_append list.map split: option.splits)

lemma map_put_enc:
  assumes "c_name key" "length kvs < n"
  shows "map_put B n (enc_kvs kvs) key (Some v) = (enc_kvs (kvs @ [(key, v)]), True)"
  using assms by (simp add: map_put_def map_add cbor_build_string_def c_str_ascii)

text \<open>A label built up to its signature.\<close>

lemma build_label_kvs:
  assumes "label_ok l" "evp_laws E"
  shows "\<exists>raw. build_label_item B E l = Some (smap (label_kvs l raw)) \<and>
    (l_has_sig l \<longrightarrow> raw \<noteq> [] \<and> length raw < 2 ^ 29 \<and> l_sig l = Some (base64url raw))"
proof -
  note ok = assms(1) [unfolded label_ok_def heap_ok_def]
  obtain src uri val cts where r: "l_src l = Some src" "l_uri l = Some uri" "l_val l = Some val"
    "l_cts l = Some cts" "c_str src = src" "c_str uri = uri" "c_str val = val" "c_str cts = cts"
    using ok by (auto simp: fits_def split: option.splits)
  have o: "c_str (or_empty (l_cid l)) = or_empty (l_cid l)" "c_str (or_empty (l_exp l)) = or_empty (l_exp l)"
    using ok by (auto simp: fits_def or_empty_def split: option.splits)
  show ?thesis
  proof (cases "l_has_sig l")
    case False
    then show ?thesis
      unfolding build_label_item_def Let_def smap_def label_kvs_def put_start r option.case prod.case
      by (simp add: put_enc put_opt_enc c_name_def cbor_build_string_def r o or_empty_def [of "Some _"]
          del: map_append list.map)
  next
    case True
    with ok obtain raw where raw: "raw \<noteq> []" "length raw < 2 ^ 29" "l_sig l = Some (base64url raw)"
      using decode_strict_iff by (auto simp: sig_ok_def split: option.splits sum.splits)
    have "wf_crypto_base64url_decode E (base64url raw) = Inr raw"
      using raw by (intro evp_laws.decode_base64url [OF assms(2)]) (auto simp: length_rfc_base64)
    with raw True have "build_label_item B E l = Some (smap (label_kvs l raw))"
      unfolding build_label_item_def Let_def smap_def label_kvs_def put_start r option.case prod.case
      by (simp add: put_enc put_opt_enc map_put_enc c_name_def cbor_build_string_def r o c_str_base64url
          or_empty_def [of "Some _"] del: map_append list.map)
    with raw show ?thesis by blast
  qed
qed

lemma build_header_kvs:
  "build_header B None = smap [(''op'', int_item (-1))]"
  "c_name t \<Longrightarrow> build_header B (Some t) = smap [(''op'', int_item 1), (''t'', str (ascii t))]"
  unfolding build_header_def Let_def smap_def put_start
  by (simp_all add: put_enc put_if_enc put_if_def [of False] c_name_def cbor_build_string_def c_str_ascii del: map_append list.map)

end

section \<open>Parsing a sorted body\<close>

lemma map_of_opt [simp]: "map_of (opt b k v) k' = (if b \<and> k' = k then Some v else None)"
  by (simp add: opt_def)

lemma fst_set_opt [simp]: "fst ` set (opt b k v) = (if b then {k} else {})"
  by (simp add: opt_def)

lemma distinct_opt [simp]: "distinct (map fst (opt b k v))"
  by (simp add: opt_def)

lemma canonicalise_bool [simp]: "canonicalise (cbor_build_bool b) = cbor_build_bool b"
  by (simp add: cbor_build_bool_def)

lemma item_bool_build [simp]: "item_bool (cbor_build_bool b) = Some b"
  by (cases b) (simp_all add: cbor_build_bool_def)

lemma is_null_simps [simp]:
  "cbor_is_null_or_undef cbor_new_null" "\<not> cbor_is_null_or_undef (CBOR_TYPE_TAG t i)"
  by (simp_all add: cbor_is_null_or_undef_def)

lemmas field_defs = string_field_def heap_string_def link_field_def int_field_def

lemma parse_op_kvs:
  assumes "op_ok op"
  shows "parse_repo_op (canonicalise (smap (op_kvs op))) = Some op"
proof -
  have "distinct (map fst (op_kvs op))" by (simp add: op_kvs_def)
  note find = map_find_canonicalise [OF this]
  show ?thesis
    using assms unfolding parse_repo_op_def field_defs find
    by (simp add: op_kvs_def op_ok_def body_simps map_add_def)
qed

lemma parse_ops_kvs:
  assumes "list_all op_ok ops"
  shows "those (map (\<lambda>op. parse_repo_op (canonicalise (smap (op_kvs op)))) ops) = Some ops"
  using assms by (induction ops) (simp_all add: parse_op_kvs)

lemma parse_commit_kvs:
  assumes "data_ok (WF_SUBSCRIBE_EVENT_COMMIT c)"
  shows "parse_commit (canonicalise (smap (commit_kvs c))) =
    Inr \<lparr>ev_seq = c_seq c, ev_data = WF_SUBSCRIBE_EVENT_COMMIT c\<rparr>"
proof -
  have "distinct (map fst (commit_kvs c))" by (simp add: commit_kvs_def)
  note find = map_find_canonicalise [OF this]
  have ops: "list_all op_ok (c_ops c)" using assms by simp
  show ?thesis
    using assms parse_ops_kvs [OF ops] unfolding parse_commit_def parse_ops_def field_defs find
    by (simp add: commit_kvs_def body_simps map_add_def int_item_shape comp_def)
qed

lemma parse_sync_kvs:
  assumes "data_ok (WF_SUBSCRIBE_EVENT_SYNC s)"
  shows "parse_sync (canonicalise (smap [(''seq'', int_item (s_seq s)), (''did'', str (s_did s)),
          (''blocks'', CBOR_TYPE_BYTESTRING True (s_blocks s)), (''rev'', str (s_rev s)),
          (''time'', str (s_time s))])) =
    Inr \<lparr>ev_seq = s_seq s, ev_data = WF_SUBSCRIBE_EVENT_SYNC s\<rparr>"
  using assms unfolding parse_sync_def field_defs
  by (simp add: map_find_canonicalise body_simps int_item_shape)

lemma parse_identity_kvs:
  assumes "data_ok (WF_SUBSCRIBE_EVENT_IDENTITY i)"
  shows "parse_identity (canonicalise (smap ([(''seq'', int_item (id_seq i)), (''did'', str (id_did i)),
          (''time'', str (id_time i))] @ opt (id_has_handle i) ''handle'' (str (id_handle i))))) =
    Inr \<lparr>ev_seq = id_seq i, ev_data = WF_SUBSCRIBE_EVENT_IDENTITY i\<rparr>"
  using assms unfolding parse_identity_def field_defs
  by (simp add: map_find_canonicalise map_add_def body_simps int_item_shape)

lemma parse_account_kvs:
  assumes "data_ok (WF_SUBSCRIBE_EVENT_ACCOUNT ac)"
  shows "parse_account (canonicalise (smap ([(''seq'', int_item (ac_seq ac)), (''did'', str (ac_did ac)),
          (''time'', str (ac_time ac)), (''active'', cbor_build_bool (ac_active ac))]
          @ opt (ac_has_status ac) ''status'' (str (ac_status ac))))) =
    Inr \<lparr>ev_seq = ac_seq ac, ev_data = WF_SUBSCRIBE_EVENT_ACCOUNT ac\<rparr>"
  using assms unfolding parse_account_def field_defs
  by (simp add: map_find_canonicalise map_add_def body_simps int_item_shape)

lemma parse_info_kvs:
  assumes "data_ok (WF_SUBSCRIBE_EVENT_INFO info)"
  shows "parse_info (canonicalise (smap ([(''name'', str (info_name info))]
          @ opt (info_has_message info) ''message'' (str (info_message info))))) =
    Inr \<lparr>ev_seq = 0, ev_data = WF_SUBSCRIBE_EVENT_INFO info\<rparr>"
  using assms unfolding parse_info_def field_defs
  by (simp add: map_find_canonicalise map_add_def body_simps)

lemma parse_error_kvs:
  assumes "data_ok (WF_SUBSCRIBE_EVENT_ERROR e)"
  shows "parse_error_body (canonicalise (smap ([(''error'', str (or_empty (er_error e)))]
          @ opt (er_message e \<noteq> None) ''message'' (str (or_empty (er_message e)))))) =
    Inr \<lparr>ev_seq = 0, ev_data = WF_SUBSCRIBE_EVENT_ERROR e\<rparr>"
proof -
  obtain err where "er_error e = Some err" using assms by (auto simp: heap_ok_def split: option.splits)
  then show ?thesis
    unfolding parse_error_body_def field_defs
    by (cases e, cases "er_message e") (simp_all add: map_find_canonicalise map_add_def or_empty_def)
qed

lemma or_empty_heap: "heap_ok has s \<Longrightarrow> s = (if has then Some (or_empty s) else None)"
  by (auto simp: heap_ok_def or_empty_def split: option.splits)

lemma parse_label_kvs:
  assumes "label_ok l" "evp_laws E" "l_has_sig l \<longrightarrow> length raw < 2 ^ 29 \<and> l_sig l = Some (base64url raw)"
  shows "parse_label E (canonicalise (smap (label_kvs l raw))) = Some l"
proof -
  have "distinct (map fst (label_kvs l raw))" by (simp add: label_kvs_def)
  note find = map_find_canonicalise [OF this]
  note ok = assms(1) [unfolded label_ok_def]
  obtain src uri val cts where h: "l_src l = Some src" "l_uri l = Some uri" "l_val l = Some val"
    "l_cts l = Some cts"
    using ok by (auto simp: heap_ok_def split: option.splits)
  obtain cid exp where o: "l_cid l = (if l_has_cid l then Some cid else None)"
    "l_exp l = (if l_has_exp l then Some exp else None)"
    using ok or_empty_heap [of "l_has_cid l" "l_cid l"] or_empty_heap [of "l_has_exp l" "l_exp l"] by metis
  have enc: "l_has_sig l \<Longrightarrow> wf_crypto_base64url_encode E raw = Inr (base64url raw)"
    using assms(3) by (intro evp_laws.encode_base64url [OF assms(2)]) simp
  have sig: "l_sig l = (if l_has_sig l then Some (base64url raw) else None)"
    using ok assms(3) by (auto simp: sig_ok_def split: option.splits)
  have f: "map_of (label_kvs l raw) ''src'' = Some (str src)" "map_of (label_kvs l raw) ''uri'' = Some (str uri)"
    "map_of (label_kvs l raw) ''val'' = Some (str val)" "map_of (label_kvs l raw) ''cts'' = Some (str cts)"
    "map_of (label_kvs l raw) ''cid'' = (if l_has_cid l then Some (str cid) else None)"
    "map_of (label_kvs l raw) ''exp'' = (if l_has_exp l then Some (str exp) else None)"
    "map_of (label_kvs l raw) ''ver'' = (if l_has_ver l then Some (int_item (l_ver l)) else None)"
    "map_of (label_kvs l raw) ''neg'' = (if l_has_neg l then Some (cbor_build_bool (l_neg l)) else None)"
    "map_of (label_kvs l raw) ''sig'' = (if l_has_sig l then Some (CBOR_TYPE_BYTESTRING True raw) else None)"
    by (simp_all add: label_kvs_def map_add_def h o or_empty_def)
  have "l_seq l = 0" "l_has_ver l \<or> l_ver l = 0" "l_has_neg l \<or> \<not> l_neg l" using ok by auto
  then show ?thesis
    unfolding parse_label_def field_defs find f
    using enc by (cases l) (use h o sig in \<open>auto simp: int_item_shape\<close>)
qed

section \<open>Built items are within libcbor's and the pre-scan's limits\<close>

lemma list_all_opt [simp]: "list_all Q (opt b k v) \<longleftrightarrow> (b \<longrightarrow> Q (k, v))"
  by (simp add: opt_def)

lemma within_body:
  assumes "length kvs < 2 ^ 64" "list_all (\<lambda>(k, v). length k < 2 ^ 64 \<and> item_within 4 v) kvs"
  shows "item_within 5 (smap kvs)"
  using within_smap [OF assms] by simp

lemma within_op:
  assumes "op_ok op"
  shows "item_within 3 (smap (op_kvs op))"
proof -
  have "item_within (Suc 2) (smap (op_kvs op))"
    using assms by (intro within_smap) (auto simp: op_kvs_def op_ok_def body_simps within_leaf within_link)
  then show ?thesis by simp
qed

lemma within_commit:
  assumes "data_ok (WF_SUBSCRIBE_EVENT_COMMIT c)"
  shows "item_within 5 (smap (commit_kvs c))"
proof -
  have "item_within (Suc 3) (CBOR_TYPE_ARRAY True (map (\<lambda>op. smap (op_kvs op)) (c_ops c)))"
    using assms by (intro within_array) (auto simp: list_all_iff within_op)
  moreover have "item_within (Suc 3) (CBOR_TYPE_ARRAY True [])" by (rule within_array) simp_all
  ultimately have "item_within (Suc 4) (smap (commit_kvs c))"
    using assms by (intro within_smap) (auto simp: commit_kvs_def body_simps within_leaf within_link)
  then show ?thesis by simp
qed

lemma within_label:
  assumes "label_ok l" "length raw < 2 ^ 64"
  shows "item_within 2 (smap (label_kvs l raw))"
proof -
  have "length (or_empty s) < 2 ^ 64" if "heap_ok has s" for s has
    using that by (auto simp: heap_ok_def fits_def or_empty_def split: option.splits)
  then have "item_within (Suc 1) (smap (label_kvs l raw))"
    using assms by (intro within_smap) (auto simp: label_kvs_def label_ok_def within_leaf)
  then show ?thesis by (simp add: numeral_2_eq_2)
qed

definition label_item :: "wf_label \<Rightarrow> cbor_item \<Rightarrow> bool" where
  "label_item l i \<longleftrightarrow> (\<exists>raw. i = smap (label_kvs l raw) \<and> length raw < 2 ^ 29 \<and>
     (l_has_sig l \<longrightarrow> l_sig l = Some (base64url raw)))"

lemma build_labels_kvs:
  assumes "list_all label_ok ls" "evp_laws E" "builder_laws B"
  shows "\<exists>items. those (map (build_label_item B E) ls) = Some items \<and> list_all2 label_item ls items"
  using assms(1)
proof (induction ls)
  case (Cons l ls)
  then obtain items where items: "those (map (build_label_item B E) ls) = Some items"
    "list_all2 label_item ls items"
    by auto
  from Cons.prems have l: "label_ok l" by simp
  obtain raw where raw: "build_label_item B E l = Some (smap (label_kvs l raw))"
    "l_has_sig l \<longrightarrow> raw \<noteq> [] \<and> length raw < 2 ^ 29 \<and> l_sig l = Some (base64url raw)"
    using builder_laws.build_label_kvs [OF assms(3) l assms(2)] by blast
  have "label_item l (smap (label_kvs l raw))"
    unfolding label_item_def using raw(2)
    by (intro exI [of _ "if l_has_sig l then raw else []"]) (auto simp: label_kvs_def)
  with items raw(1) show ?case by simp
qed simp

lemma parse_label_items:
  assumes "list_all2 label_item ls items" "list_all label_ok ls" "evp_laws E"
  shows "those (map (\<lambda>i. parse_label E (canonicalise i)) items) = Some ls \<and>
    length items = length ls \<and> list_all (item_within 2) items"
  using assms(1,2)
proof (induction rule: list_all2_induct)
  case (Cons l ls i items)
  from Cons.prems have l: "label_ok l" by simp
  from Cons.hyps(1) obtain raw where raw: "i = smap (label_kvs l raw)" "length raw < 2 ^ 29"
    "l_has_sig l \<longrightarrow> l_sig l = Some (base64url raw)"
    by (auto simp: label_item_def)
  from raw(2) have "length raw < 2 ^ 64" by simp
  with raw Cons parse_label_kvs [OF l assms(3), of raw] within_label [OF l] show ?case by simp
qed simp

section \<open>Frames decode to the event they were made of\<close>

text \<open>What the decoder does with a body, by the tag that the encoder puts into the header.\<close>

definition parse_tagged :: "evp \<Rightarrow> string option \<Rightarrow> cbor_item \<Rightarrow> wf_subscribe_event res" where
  "parse_tagged E t body =
     (case t of
        None \<Rightarrow> parse_error_body body
      | Some t \<Rightarrow> parse_by_type E (smap [(''t'', str (ascii t))]) body)"

lemma parse_tagged_simps:
  "parse_tagged E (Some ''#commit'') body = parse_commit body"
  "parse_tagged E (Some ''#sync'') body = parse_sync body"
  "parse_tagged E (Some ''#identity'') body = parse_identity body"
  "parse_tagged E (Some ''#account'') body = parse_account body"
  "parse_tagged E (Some ''#info'') body = parse_info body"
  "parse_tagged E (Some ''#labels'') body = parse_labels E body"
  "parse_tagged E None body = parse_error_body body"
  by (simp_all add: parse_tagged_def parse_by_type_def heap_string_def map_find_smap)

context builder_laws
begin

lemma labels_body_parse:
  assumes "evp_laws E" "data_ok (WF_SUBSCRIBE_EVENT_LABELS l)"
  shows "\<exists>items. build_labels_body B E l =
      Some (smap [(''seq'', int_item (ls_seq l)), (''labels'', CBOR_TYPE_ARRAY True items)]) \<and>
    list_all2 label_item (ls_labels l) items \<and>
    item_within 4 (smap [(''seq'', int_item (ls_seq l)), (''labels'', CBOR_TYPE_ARRAY True items)]) \<and>
    parse_labels E (canonicalise (smap [(''seq'', int_item (ls_seq l)), (''labels'', CBOR_TYPE_ARRAY True items)])) =
      Inr \<lparr>ev_seq = ls_seq l, ev_data = WF_SUBSCRIBE_EVENT_LABELS l\<rparr>"
proof -
  have ok: "list_all label_ok (ls_labels l)" using assms(2) by simp
  obtain items where "those (map (build_label_item B E) (ls_labels l)) = Some items"
    and all2: "list_all2 label_item (ls_labels l) items"
    using build_labels_kvs [OF ok assms(1) builder_laws_axioms] by blast
  with parse_label_items [OF all2 ok assms(1)] have
    items: "those (map (build_label_item B E) (ls_labels l)) = Some items"
    "length items = length (ls_labels l)"
    "those (map (\<lambda>i. parse_label E (canonicalise i)) items) = Some (ls_labels l)"
    "list_all (item_within 2) items"
    by auto
  let ?kvs = "[(''seq'', int_item (ls_seq l)), (''labels'', CBOR_TYPE_ARRAY True items)]"
  have "build_labels_body B E l = Some (smap ?kvs)"
    unfolding build_labels_body_def items(1) option.case put_start smap_def
    by (simp add: put_enc c_name_def push_all items(2) [symmetric] del: map_append list.map)
  moreover have "item_within (Suc 2) (CBOR_TYPE_ARRAY True items)"
    using items(2,4) assms(2) by (intro within_array) auto
  then have "item_within (Suc 3) (smap ?kvs)"
    by (intro within_smap) (auto simp: within_leaf)
  then have "item_within 4 (smap ?kvs)" by simp
  moreover have "parse_labels E (canonicalise (smap ?kvs)) =
      Inr \<lparr>ev_seq = ls_seq l, ev_data = WF_SUBSCRIBE_EVENT_LABELS l\<rparr>"
    using items(3) unfolding parse_labels_def field_defs
    by (simp add: map_find_canonicalise int_item_shape comp_def)
  ultimately show ?thesis using all2 by blast
qed

lemma build_body_parse:
  assumes "evp_laws E" "data_ok d"
  shows "\<exists>body. build_body B E d = Some body \<and> item_within 5 body \<and>
    parse_tagged E (event_tag d) (canonicalise body) = Inr \<lparr>ev_seq = data_seq d, ev_data = d\<rparr>"
proof (cases d)
  case (WF_SUBSCRIBE_EVENT_COMMIT c)
  with assms show ?thesis
    using build_commit_kvs within_commit parse_commit_kvs by (simp add: parse_tagged_simps)
next
  case (WF_SUBSCRIBE_EVENT_LABELS l)
  with assms show ?thesis
    using labels_body_parse within_mono [of 4 _ 5] by (fastforce simp: parse_tagged_simps)
next
  case (WF_SUBSCRIBE_EVENT_SYNC s)
  have "item_within 5 (build_sync_body B s)"
    unfolding build_sync_kvs [OF assms(2) [unfolded WF_SUBSCRIBE_EVENT_SYNC]]
    using assms(2) WF_SUBSCRIBE_EVENT_SYNC by (intro within_body) (auto simp: within_leaf body_simps)
  with assms(2) show ?thesis
    using parse_sync_kvs [of s] build_sync_kvs [of s] by (simp add: WF_SUBSCRIBE_EVENT_SYNC parse_tagged_simps)
next
  case (WF_SUBSCRIBE_EVENT_IDENTITY i)
  have "item_within 5 (build_identity_body B i)"
    unfolding build_identity_kvs [OF assms(2) [unfolded WF_SUBSCRIBE_EVENT_IDENTITY]]
    using assms(2) WF_SUBSCRIBE_EVENT_IDENTITY by (intro within_body) (auto simp: within_leaf body_simps)
  with assms(2) show ?thesis
    using parse_identity_kvs [of i] build_identity_kvs [of i]
    by (simp add: WF_SUBSCRIBE_EVENT_IDENTITY parse_tagged_simps)
next
  case (WF_SUBSCRIBE_EVENT_ACCOUNT ac)
  have "item_within 5 (build_account_body B ac)"
    unfolding build_account_kvs [OF assms(2) [unfolded WF_SUBSCRIBE_EVENT_ACCOUNT]]
    using assms(2) WF_SUBSCRIBE_EVENT_ACCOUNT by (intro within_body) (auto simp: within_leaf body_simps)
  with assms(2) show ?thesis
    using parse_account_kvs [of ac] build_account_kvs [of ac]
    by (simp add: WF_SUBSCRIBE_EVENT_ACCOUNT parse_tagged_simps)
next
  case (WF_SUBSCRIBE_EVENT_INFO info)
  have "item_within 5 (build_info_body B info)"
    unfolding build_info_kvs [OF assms(2) [unfolded WF_SUBSCRIBE_EVENT_INFO]]
    using assms(2) WF_SUBSCRIBE_EVENT_INFO by (intro within_body) (auto simp: within_leaf body_simps)
  with assms(2) show ?thesis
    using parse_info_kvs [of info] build_info_kvs [of info]
    by (simp add: WF_SUBSCRIBE_EVENT_INFO parse_tagged_simps)
next
  case (WF_SUBSCRIBE_EVENT_ERROR e)
  have "item_within 5 (build_error_body B (er_error e) (er_message e))"
    unfolding build_error_kvs [OF assms(2) [unfolded WF_SUBSCRIBE_EVENT_ERROR]]
    using assms(2) WF_SUBSCRIBE_EVENT_ERROR
    by (intro within_body) (auto simp: within_leaf body_simps heap_ok_def or_empty_def split: option.splits)
  with assms(2) show ?thesis
    using parse_error_kvs [of e] build_error_kvs [of e]
    by (simp add: WF_SUBSCRIBE_EVENT_ERROR parse_tagged_simps)
qed

lemma header_parse:
  assumes "t = event_tag d"
  shows "item_within 5 (build_header B t)"
    "frame_is_error (canonicalise (build_header B t)) \<longleftrightarrow> t = None"
    "t \<noteq> None \<Longrightarrow> parse_by_type E (canonicalise (build_header B t)) body = parse_tagged E t body"
proof -
  have name: "c_name s \<and> length s < 2 ^ 64" if "t = Some s" for s
    using that assms by (cases d) (auto simp: c_name_def)
  show "item_within 5 (build_header B t)"
    using name by (cases t) (auto simp: build_header_kvs within_leaf intro!: within_body)
  show "frame_is_error (canonicalise (build_header B t)) \<longleftrightarrow> t = None"
    using name
    by (cases t) (auto simp: build_header_kvs frame_is_error_def int_field_def map_find_canonicalise
        int_item_shape)
  show "parse_by_type E (canonicalise (build_header B t)) body = parse_tagged E t body" if "t \<noteq> None"
    using that name
    by (auto simp: build_header_kvs parse_by_type_def parse_tagged_def heap_string_def
        map_find_canonicalise map_find_smap)
qed

end

text \<open>The frame of an event, and what the decoder makes of it.\<close>

lemma publish_decode:
  assumes "platform_laws P" "builder_laws B" "evp_laws E" "event_ok ev"
  obtains header body where "build_body B E (ev_data ev) = Some body"
    "header = build_header B (event_tag (ev_data ev))" "item_within 5 header" "item_within 5 body"
    "wf_sync_publish_event P B E ev = Inr (rfc_enc (canonicalise header) @ rfc_enc (canonicalise body))"
    "wf_subscribe_decode_frame P E (rfc_enc (canonicalise header) @ rfc_enc (canonicalise body)) = Inr ev"
proof -
  let ?t = "event_tag (ev_data ev)" and ?h = "build_header B (event_tag (ev_data ev))"
  have ok: "data_ok (ev_data ev)" and seq: "\<lparr>ev_seq = data_seq (ev_data ev), ev_data = ev_data ev\<rparr> = ev"
    using assms(4) by (simp_all add: event_ok_def)
  from builder_laws.build_body_parse [OF assms(2,3) ok] seq obtain body where
    b: "build_body B E (ev_data ev) = Some body" "item_within 5 body"
      "parse_tagged E ?t (canonicalise body) = Inr ev" by auto
  note h = builder_laws.header_parse [OF assms(2) refl, of "ev_data ev"]
  have ok2: "item_ok ?h" "item_ok body" using h(1) b(2) by (auto intro: item_within_ok)
  have "rfc_enc (canonicalise ?h) @ rfc_enc (canonicalise body) \<noteq> []"
    using rfc_enc_nonempty [of "canonicalise body"] by auto
  then have "wf_subscribe_decode_frame P E (rfc_enc (canonicalise ?h) @ rfc_enc (canonicalise body)) = Inr ev"
    using platform_laws.load_frame_enc [OF assms(1) ok2 [THEN item_ok_canonicalise]] h(2,3) b(3)
    by (cases "?t = None")
      (auto simp: wf_subscribe_decode_frame_def parse_tagged_simps)
  moreover have "wf_sync_publish_event P B E ev =
      Inr (rfc_enc (canonicalise ?h) @ rfc_enc (canonicalise body))"
    using platform_laws.serialize_two_enc [OF assms(1) ok2] b(1) by (simp add: wf_sync_publish_event_def)
  ultimately show thesis using that b h(1) by blast
qed

section \<open>Properties\<close>

text \<open>
  C5: The round trip that \<^verbatim>\<open>sync_publish.h\<close> promises: an event of any of the seven kinds, whose
  strings fit the arrays of its struct and whose absent members are zeroed, is published, and the
  frame decodes back to the same event, field by field, whatever order its members were built in.
\<close>

theorem publish_decode_roundtrip:
  assumes "platform_laws P" "builder_laws B" "evp_laws E" "event_ok ev"
  shows "\<exists>frame. wf_sync_publish_event P B E ev = Inr frame \<and>
    wf_subscribe_decode_frame P E frame = Inr ev"
  using assms by (rule publish_decode) auto

definition example_op :: wf_subscribe_repo_op where
  "example_op =
     \<lparr>op_action = ascii ''create'', op_path = ascii ''app.bsky.feed.post/3k'', op_cid = [1, 0x71, 0x12, 0],
      op_has_cid = True, op_prev = [], op_has_prev = False\<rparr>"

definition example_commit :: wf_subscribe_event where
  "example_commit =
     \<lparr>ev_seq = 1000,
      ev_data = WF_SUBSCRIBE_EVENT_COMMIT
        \<lparr>c_seq = 1000, c_did = ascii ''did:plc:x'', c_commit_cid = [1, 0x71, 0x12, 0], c_rev = ascii ''3k'',
         c_since = [], c_blocks = [7, 8, 9], c_ops = [example_op], c_time = ascii ''2025'',
         c_prev_data = [1, 0x71, 0x12, 0], c_has_prev_data = True\<rparr>\<rparr>"

theorem publish_decode_roundtrip_witness:
  "\<exists>frame. wf_sync_publish_event (ref_platform toy_sha) ref_builder ref_evp example_commit = Inr frame \<and>
     wf_subscribe_decode_frame (ref_platform toy_sha) ref_evp frame = Inr example_commit"
proof -
  have "event_ok example_commit"
    by (simp add: event_ok_def example_commit_def example_op_def op_ok_def body_simps c_str_def ascii_def)
  then show ?thesis
    using publish_decode_roundtrip [OF ref.platform_laws_axioms ref_builder.builder_laws_axioms
        ref_evp.evp_laws_axioms] by blast
qed

end
