(* ===== verification/Cbor_Order.thy ===== *)
theory Cbor_Order
  imports Publish_Roundtrip
begin

text \<open>
  The order of DAG-CBOR map keys: comparing text keys by length and then by bytes, as
  \<^verbatim>\<open>canonical_pair_cmp\<close> and the record builder's \<^verbatim>\<open>pair_cmp\<close> do, is comparing their encodings. With it,
  a libcbor item whose maps have been put into that order is canonical.
\<close>

section \<open>Heads are ordered like their arguments\<close>

lemma be_bytes_mod: "be_bytes k (n mod 256 ^ k) = be_bytes k n"
proof -
  have "(of_nat ((n mod 256 ^ k) div 256 ^ i) :: byte) = of_nat (n div 256 ^ i)" if "i < k" for i
  proof -
    have k: "(256 :: nat) ^ k = 256 ^ i * 256 ^ (k - i)" using that by (simp flip: power_add)
    have "(256 :: nat) dvd 256 ^ (k - i)" using that by (simp add: dvd_power)
    then have "(n mod 256 ^ k) div 256 ^ i mod 256 = n div 256 ^ i mod 256"
      unfolding k by (simp add: mod_mult2_eq mod_mod_cancel)
    then show ?thesis by (simp add: word_of_nat_eq_iff take_bit_eq_mod)
  qed
  then show ?thesis by (simp add: be_bytes_def)
qed

lemma be_bytes_less:
  assumes "m < n" "n < 256 ^ k"
  shows "be_bytes k m @ x < be_bytes k n @ y"
  using assms
proof (induction k arbitrary: m n)
  case (Suc k)
  let ?a = "m div 256 ^ k" and ?b = "n div 256 ^ k"
  have b: "?b < 256" using Suc.prems(2) by (simp add: less_mult_imp_div_less mult.commute)
  have ab: "?a \<le> ?b" using Suc.prems(1) by (simp add: div_le_mono)
  show ?case
  proof (cases "?a = ?b")
    case True
    have "m mod 256 ^ k < n mod 256 ^ k"
      using Suc.prems(1) True by (metis add_less_cancel_left div_mult_mod_eq)
    then have "be_bytes k (m mod 256 ^ k) @ x < be_bytes k (n mod 256 ^ k) @ y"
      by (intro Suc.IH) simp_all
    with True show ?thesis by (simp add: be_bytes_Suc be_bytes_mod)
  next
    case False
    then have "(of_nat ?a :: byte) < of_nat ?b"
      using ab b of_nat_byte_less(1) [of ?a ?b] by simp
    then show ?thesis by (simp add: be_bytes_Suc)
  qed
qed simp

text \<open>The first byte of a head carries the argument or the number of bytes that follow.\<close>

definition head_info :: "nat \<Rightarrow> nat" where
  "head_info n = (if n < 24 then n else if n < 2 ^ 8 then 24 else if n < 2 ^ 16 then 25
     else if n < 2 ^ 32 then 26 else 27)"

definition head_len :: "nat \<Rightarrow> nat" where
  "head_len n = (if n < 24 then 0 else if n < 2 ^ 8 then 1 else if n < 2 ^ 16 then 2
     else if n < 2 ^ 32 then 4 else 8)"

lemma rfc_head_split: "rfc_head M n = of_nat (32 * M + head_info n) # be_bytes (head_len n) n"
  by (simp add: rfc_head_def head_info_def head_len_def be_bytes_def [of 0])

lemma rfc_head_less:
  assumes "m < n" "n < 2 ^ 64" "M < 8"
  shows "rfc_head M m @ x < rfc_head M n @ y"
proof -
  have info: "head_info m < head_info n \<or>
      head_info m = head_info n \<and> head_len m = head_len n \<and> n < 256 ^ head_len n" "head_info n < 32"
    using assms(1,2) by (auto simp: head_info_def head_len_def)
  then consider "head_info m < head_info n" |
    "head_info m = head_info n" "head_len m = head_len n" "n < 256 ^ head_len n"
    by blast
  then show ?thesis
  proof cases
    case 1
    then have "(of_nat (32 * M + head_info m) :: byte) < of_nat (32 * M + head_info n)"
      using info(2) assms(3) by (subst of_nat_byte_less(1)) auto
    then show ?thesis unfolding rfc_head_split append_Cons by (simp del: of_nat_add of_nat_mult)
  next
    case 2
    then show ?thesis
      unfolding rfc_head_split append_Cons using be_bytes_less [OF assms(1)] by simp
  qed
qed

section \<open>Comparing text keys\<close>

lemma memcmp_le: "length a = length b \<Longrightarrow> memcmp a b \<le> 0 \<longleftrightarrow> a \<le> b"
  by (induction a b rule: list_induct2) auto

lemma append_le_cancel: "(c :: 'a::linorder list) @ a \<le> c @ b \<longleftrightarrow> a \<le> b"
  by (induction c) simp_all

lemma key_cmp_encoding:
  assumes "length a < 2 ^ 64" "length b < 2 ^ 64"
  shows "canonical_pair_cmp (CBOR_TYPE_STRING d a, v) (CBOR_TYPE_STRING d' b, w) \<le> 0 \<longleftrightarrow>
    rfc_enc (CBOR_TYPE_STRING d a) \<le> rfc_enc (CBOR_TYPE_STRING d' b)"
proof (cases "length a" "length b" rule: linorder_cases)
  case equal
  then show ?thesis by (simp add: canonical_pair_cmp_def memcmp_le append_le_cancel)
next
  case less
  then show ?thesis
    using rfc_head_less [OF less assms(2), of 3 a b] by (simp add: canonical_pair_cmp_def)
next
  case greater
  then show ?thesis
    using rfc_head_less [OF greater assms(1), of 3 b a] by (auto simp: canonical_pair_cmp_def)
qed

lemma string_enc_inj:
  assumes "length a < 2 ^ 64" "length b < 2 ^ 64"
    "rfc_enc (CBOR_TYPE_STRING d a) = rfc_enc (CBOR_TYPE_STRING d' b)"
  shows "a = b"
proof (cases "length a" "length b" rule: linorder_cases)
  case equal
  with assms(3) show ?thesis by simp
next
  case less
  then show ?thesis using rfc_head_less [OF less assms(2), of 3 a b] assms(3) by simp
next
  case greater
  then show ?thesis using rfc_head_less [OF greater assms(1), of 3 b a] assms(3) by simp
qed

section \<open>Sorted items are canonical\<close>

text \<open>
  The items that only lack the order of their maps: shortest integers, valid text, links that hold
  CIDs, string keys that are all different.
\<close>

fun strict_item :: "platform \<Rightarrow> cbor_item \<Rightarrow> bool" where
  "strict_item P (CBOR_TYPE_UINT w v) \<longleftrightarrow> w = min_width v"
| "strict_item P (CBOR_TYPE_NEGINT w v) \<longleftrightarrow> w = min_width v"
| "strict_item P (CBOR_TYPE_BYTESTRING d s) \<longleftrightarrow> d \<and> canonical P (WF_CBOR_BYTES s)"
| "strict_item P (CBOR_TYPE_STRING d s) \<longleftrightarrow> d \<and> canonical P (WF_CBOR_STRING s)"
| "strict_item P (CBOR_TYPE_ARRAY d xs) \<longleftrightarrow> d \<and> length xs < 2 ^ 64 \<and> list_all (strict_item P) xs"
| "strict_item P (CBOR_TYPE_MAP d ps) \<longleftrightarrow> d \<and> length ps < 2 ^ 64 \<and> distinct (map fst ps) \<and>
     list_all (\<lambda>(k, v). cbor_isa_string k \<and> strict_item P k \<and> strict_item P v) ps"
| "strict_item P (CBOR_TYPE_TAG t (CBOR_TYPE_BYTESTRING d s)) \<longleftrightarrow> t = 42 \<and> d \<and>
     s \<noteq> [] \<and> hd s = 0 \<and> canonical P (WF_CBOR_LINK (tl s))"
| "strict_item P (CBOR_TYPE_TAG t i) \<longleftrightarrow> False"
| "strict_item P (CBOR_TYPE_FLOAT_CTRL c) \<longleftrightarrow>
     c = CBOR_CTRL_FALSE \<or> c = CBOR_CTRL_TRUE \<or> c = CBOR_CTRL_NULL"

fun of_libcbor :: "cbor_item \<Rightarrow> wf_cbor_item" where
  "of_libcbor (CBOR_TYPE_UINT w v) = WF_CBOR_UNSIGNED v"
| "of_libcbor (CBOR_TYPE_NEGINT w v) = WF_CBOR_NEGATIVE v"
| "of_libcbor (CBOR_TYPE_BYTESTRING d s) = WF_CBOR_BYTES s"
| "of_libcbor (CBOR_TYPE_STRING d s) = WF_CBOR_STRING s"
| "of_libcbor (CBOR_TYPE_ARRAY d xs) = WF_CBOR_ARRAY (map of_libcbor xs)"
| "of_libcbor (CBOR_TYPE_MAP d ps) = WF_CBOR_MAP (map (\<lambda>(k, v). (of_libcbor k, of_libcbor v)) ps)"
| "of_libcbor (CBOR_TYPE_TAG t i) =
     (case i of CBOR_TYPE_BYTESTRING d s \<Rightarrow> WF_CBOR_LINK (tl s) | _ \<Rightarrow> WF_CBOR_SIMPLE 22)"
| "of_libcbor (CBOR_TYPE_FLOAT_CTRL c) =
     WF_CBOR_SIMPLE (if c = CBOR_CTRL_FALSE then 20 else if c = CBOR_CTRL_TRUE then 21 else 22)"

abbreviation embeds :: "platform \<Rightarrow> cbor_item \<Rightarrow> bool" where
  "embeds P i \<equiv> canonical P (of_libcbor i) \<and> to_libcbor (of_libcbor i) = i"

lemma strict_string:
  assumes "list_all (\<lambda>(k, v). cbor_isa_string k \<and> strict_item P k) ps" "(k, v) \<in> set ps"
  shows "\<exists>s. k = CBOR_TYPE_STRING True s \<and> length s < 2 ^ 64" "embeds P k \<and> is_string (of_libcbor k)"
proof -
  have "cbor_isa_string k" "strict_item P k" using assms by (auto simp: list_all_iff)
  then show "\<exists>s. k = CBOR_TYPE_STRING True s \<and> length s < 2 ^ 64" "embeds P k \<and> is_string (of_libcbor k)"
    by (cases k; auto)+
qed

lemma sorted_keys:
  assumes "list_all (\<lambda>(k, v). cbor_isa_string k \<and> strict_item P k) ps" "distinct (map fst ps)"
  shows "sorted_wrt (<) (map (\<lambda>(k, v). rfc_enc k) (qsort canonical_pair_cmp ps))"
proof -
  note key = strict_string(1) [OF assms(1)]
  have "sorted (map (\<lambda>(k, v). rfc_enc k) (qsort canonical_pair_cmp ps))"
  proof (rule sorted_qsort)
    fix a b
    assume "a \<in> set ps" "b \<in> set ps"
    then obtain s t where "fst a = CBOR_TYPE_STRING True s" "length s < 2 ^ 64"
      "fst b = CBOR_TYPE_STRING True t" "length t < 2 ^ 64"
      using key [of "fst a" "snd a"] key [of "fst b" "snd b"] by auto
    then show "canonical_pair_cmp a b \<le> 0 \<longleftrightarrow> (case a of (k, v) \<Rightarrow> rfc_enc k) \<le> (case b of (k, v) \<Rightarrow> rfc_enc k)"
      using key_cmp_encoding [of s t True "snd a" True "snd b"] by (cases a; cases b) simp
  qed
  moreover have "inj_on rfc_enc (fst ` set ps)"
  proof (rule inj_onI)
    fix k l
    assume "k \<in> fst ` set ps" "l \<in> fst ` set ps" and eq: "rfc_enc k = rfc_enc l"
    then obtain v w where "(k, v) \<in> set ps" "(l, w) \<in> set ps" by auto
    from this [THEN key] obtain s t where "k = CBOR_TYPE_STRING True s" "l = CBOR_TYPE_STRING True t"
      "length s < 2 ^ 64" "length t < 2 ^ 64" by blast
    with eq string_enc_inj [of s t True True] show "k = l" by simp
  qed
  then have "distinct (map (\<lambda>(k, v). rfc_enc k) ps)"
    using assms(2) by (auto simp: distinct_map inj_on_def case_prod_unfold)
  ultimately show ?thesis
    by (simp add: strict_sorted_iff distinct_qsort)
qed

lemma canonicalise_embeds: "strict_item P i \<Longrightarrow> embeds P (canonicalise i)"
proof (induction i rule: canonicalise.induct)
  case (1 d ps)
  have keys: "list_all (\<lambda>(k, v). cbor_isa_string k) ps"
    "list_all (\<lambda>(k, v). cbor_isa_string k \<and> strict_item P k) ps"
    using "1.prems" by (auto simp: list_all_iff)
  note k = strict_string(2) [OF keys(2)]
  have v: "embeds P (canonicalise v)" if "(k, v) \<in> set ps" for k v
    using "1.IH" [OF keys(1), of "(k, v)" k v] that "1.prems" by (auto simp: list_all_iff)
  have "map (\<lambda>(k, v). rfc_enc (to_libcbor (of_libcbor k))) (qsort canonical_pair_cmp ps) =
      map (\<lambda>(k, v). rfc_enc k) (qsort canonical_pair_cmp ps)"
    using k by auto
  then have "sorted_wrt (<)
      (map (\<lambda>(k, v). rfc_enc (to_libcbor (of_libcbor k))) (qsort canonical_pair_cmp ps))"
    using sorted_keys [OF keys(2)] "1.prems" by (simp only: strict_item.simps)
  with "1.prems" k v keys(1) show ?case
    by (auto simp: list_all_iff comp_def case_prod_unfold intro!: map_idI)
next
  case (2 d xs)
  then show ?case by (auto simp: list_all_iff intro!: map_idI)
qed (auto simp: neq_Nil_conv split: cbor_item.splits)

definition plain_key :: "string \<Rightarrow> bool" where
  "plain_key k \<longleftrightarrow> k \<noteq> [] \<and> length k < 2 ^ 64 \<and> list_all (\<lambda>c. (of_char c :: byte) < 0x80) k"

lemma int_item_strict: "strict_item P (int_item v)"
  unfolding int_item_def Let_def by (simp add: min_width_def unat_u64_le)

context platform_laws
begin

lemma strict_smap:
  assumes "length kvs < 2 ^ 64" "distinct (map fst kvs)"
    "list_all (\<lambda>(k, v). plain_key k \<and> strict_item P v) kvs"
  shows "strict_item P (smap kvs)"
proof -
  have "cbor_string_codepoint_count P (ascii k) = length k" if "plain_key k" for k
    using that codepoints_ascii [of "ascii k"] by (auto simp: plain_key_def ascii_def list_all_iff)
  then have "\<forall>(k, v) \<in> set kvs. strict_item P (CBOR_TYPE_STRING True (ascii k))"
    using assms(3) by (auto simp: list_all_iff plain_key_def)
  moreover have "distinct (map (\<lambda>x. CBOR_TYPE_STRING True (ascii (fst x))) kvs)"
    using assms(2) by (auto simp: distinct_map inj_on_def)
  ultimately show ?thesis
    using assms(1,3) by (auto simp: smap_def list_all_iff comp_def case_prod_unfold)
qed

text \<open>A strict item, sorted and serialised, is what \<^verbatim>\<open>wf_cbor_parse\<close> accepts.\<close>

lemma parse_canonicalised:
  assumes "strict_item P i" "item_within n i" "n \<le> 65"
  shows "wf_cbor_parse P (rfc_enc (canonicalise i)) = Some (of_libcbor (canonicalise i))"
proof -
  have e: "embeds P (canonicalise i)" using assms(1) by (rule canonicalise_embeds)
  then have "wf_cbor_ser_write_item (of_libcbor (canonicalise i)) = rfc_enc (canonicalise i)"
    using write_item_rfc [of P "of_libcbor (canonicalise i)"] by simp
  moreover have "cbor_nesting (canonicalise i) \<le> 65"
    using assms(2,3) by (simp add: item_within_def canonicalise_nesting)
  ultimately show ?thesis
    using parse_write [of "of_libcbor (canonicalise i)"] e by simp
qed

end

end
