(* ===== verification/Publish_Canon.thy ===== *)
theory Publish_Canon
  imports Publish_Props Cbor_Order
begin

text \<open>
  Published frames are canonical DAG-CBOR (the strict parser of \<^verbatim>\<open>src/repo/cbor.c\<close> accepts header and
  body), and decoded events stay within the arrays of their structs.
\<close>

section \<open>Events that a strict reader can accept\<close>

text \<open>Text has to be valid for libcbor, and what is sent as a link has to be a CID.\<close>

definition valid_text :: "platform \<Rightarrow> bytes \<Rightarrow> bool" where
  "valid_text P s \<longleftrightarrow> (s \<noteq> [] \<longrightarrow> 0 < cbor_string_codepoint_count P s)"

definition valid_link :: "bool \<Rightarrow> wf_cid \<Rightarrow> bool" where
  "valid_link has cid \<longleftrightarrow> (has \<longrightarrow> cid \<noteq> [] \<and> wf_cbor_cid_valid cid)"

fun data_strict :: "platform \<Rightarrow> wf_subscribe_data \<Rightarrow> bool" where
  "data_strict P (WF_SUBSCRIBE_EVENT_COMMIT c) \<longleftrightarrow>
     valid_text P (c_did c) \<and> valid_link True (c_commit_cid c) \<and> valid_text P (c_rev c) \<and>
     valid_text P (c_since c) \<and> valid_text P (c_time c) \<and>
     valid_link (c_has_prev_data c) (c_prev_data c) \<and>
     list_all (\<lambda>op. valid_text P (op_action op) \<and> valid_text P (op_path op) \<and>
       valid_link (op_has_cid op) (op_cid op) \<and> valid_link (op_has_prev op) (op_prev op)) (c_ops c)"
| "data_strict P (WF_SUBSCRIBE_EVENT_SYNC s) \<longleftrightarrow>
     valid_text P (s_did s) \<and> valid_text P (s_rev s) \<and> valid_text P (s_time s)"
| "data_strict P (WF_SUBSCRIBE_EVENT_IDENTITY i) \<longleftrightarrow>
     valid_text P (id_did i) \<and> valid_text P (id_time i) \<and> valid_text P (id_handle i)"
| "data_strict P (WF_SUBSCRIBE_EVENT_ACCOUNT ac) \<longleftrightarrow>
     valid_text P (ac_did ac) \<and> valid_text P (ac_time ac) \<and> valid_text P (ac_status ac)"
| "data_strict P (WF_SUBSCRIBE_EVENT_INFO info) \<longleftrightarrow>
     valid_text P (info_name info) \<and> valid_text P (info_message info)"
| "data_strict P (WF_SUBSCRIBE_EVENT_LABELS l) \<longleftrightarrow>
     list_all (\<lambda>l. valid_text P (or_empty (l_src l)) \<and> valid_text P (or_empty (l_uri l)) \<and>
       valid_text P (or_empty (l_val l)) \<and> valid_text P (or_empty (l_cts l)) \<and>
       valid_text P (or_empty (l_cid l)) \<and> valid_text P (or_empty (l_exp l))) (ls_labels l)"
| "data_strict P (WF_SUBSCRIBE_EVENT_ERROR e) \<longleftrightarrow>
     valid_text P (or_empty (er_error e)) \<and> valid_text P (or_empty (er_message e))"

lemma strict_leaf:
  assumes "length s < 2 ^ 64"
  shows "valid_text P s \<Longrightarrow> strict_item P (str s)" "strict_item P (CBOR_TYPE_BYTESTRING True s)"
  using assms by (auto simp: valid_text_def)

lemma strict_link: "length cid \<le> 36 \<Longrightarrow> valid_link True cid \<Longrightarrow> strict_item P (link cid)"
  by (auto simp: valid_link_def)

lemma strict_bool [simp]: "strict_item P (cbor_build_bool b)"
  by (simp add: cbor_build_bool_def)

lemmas strict_simps = strict_leaf strict_link int_item_strict plain_key_def

context platform_laws
begin

lemma strict_op:
  assumes "op_ok op" "valid_text P (op_action op)" "valid_text P (op_path op)"
    "valid_link (op_has_cid op) (op_cid op)" "valid_link (op_has_prev op) (op_prev op)"
  shows "strict_item P (smap (op_kvs op))"
proof (rule strict_smap)
  show "list_all (\<lambda>(k, v). plain_key k \<and> strict_item P v) (op_kvs op)"
    using assms by (auto simp: op_kvs_def op_ok_def body_simps strict_simps simp del: strict_item.simps(4,7))
qed (simp_all add: op_kvs_def)

lemma strict_commit:
  assumes "data_ok (WF_SUBSCRIBE_EVENT_COMMIT c)" "data_strict P (WF_SUBSCRIBE_EVENT_COMMIT c)"
  shows "strict_item P (smap (commit_kvs c))"
proof (rule strict_smap)
  have "list_all (strict_item P) (map (\<lambda>op. smap (op_kvs op)) (c_ops c))"
    using assms strict_op by (auto simp: list_all_iff)
  then show "list_all (\<lambda>(k, v). plain_key k \<and> strict_item P v) (commit_kvs c)"
    using assms by (auto simp: commit_kvs_def body_simps strict_simps simp del: strict_item.simps(3,4,7))
qed (simp_all add: commit_kvs_def)

lemma strict_label:
  assumes "label_ok l" "length raw < 2 ^ 64"
    "valid_text P (or_empty (l_src l))" "valid_text P (or_empty (l_uri l))"
    "valid_text P (or_empty (l_val l))" "valid_text P (or_empty (l_cts l))"
    "valid_text P (or_empty (l_cid l))" "valid_text P (or_empty (l_exp l))"
  shows "strict_item P (smap (label_kvs l raw))"
proof (rule strict_smap)
  have "length (or_empty s) < 2 ^ 64" if "heap_ok has s" for s has
    using that by (auto simp: heap_ok_def fits_def or_empty_def split: option.splits)
  then show "list_all (\<lambda>(k, v). plain_key k \<and> strict_item P v) (label_kvs l raw)"
    using assms
    by (auto simp: label_kvs_def label_ok_def strict_simps simp del: strict_item.simps(3,4,7))
qed (simp_all add: label_kvs_def)

lemma strict_labels:
  assumes "list_all2 label_item ls items" "list_all label_ok ls"
    "list_all (\<lambda>l. valid_text P (or_empty (l_src l)) \<and> valid_text P (or_empty (l_uri l)) \<and>
       valid_text P (or_empty (l_val l)) \<and> valid_text P (or_empty (l_cts l)) \<and>
       valid_text P (or_empty (l_cid l)) \<and> valid_text P (or_empty (l_exp l))) ls"
  shows "list_all (strict_item P) items"
  using assms
proof (induction rule: list_all2_induct)
  case (Cons l ls i items)
  then obtain raw where "i = smap (label_kvs l raw)" "length raw < 2 ^ 64"
    by (auto simp: label_item_def)
  with Cons show ?case using strict_label [of l raw] by simp
qed simp

lemma strict_body:
  assumes "builder_laws B" "evp_laws E" "data_ok d" "data_strict P d" "build_body B E d = Some body"
  shows "strict_item P body"
proof (cases d)
  case (WF_SUBSCRIBE_EVENT_COMMIT c)
  with assms show ?thesis using builder_laws.build_commit_kvs [of B c] strict_commit [of c] by simp
next
  case (WF_SUBSCRIBE_EVENT_LABELS l)
  with builder_laws.labels_body_parse [OF assms(1,2), of l] assms(3) obtain items where
    items: "build_labels_body B E l =
      Some (smap [(''seq'', int_item (ls_seq l)), (''labels'', CBOR_TYPE_ARRAY True items)])"
    "list_all2 label_item (ls_labels l) items"
    by auto
  have ok: "list_all label_ok (ls_labels l)" "length items < 2 ^ 64"
    using assms(3) items(2) WF_SUBSCRIBE_EVENT_LABELS by (auto simp: list_all2_lengthD)
  have "list_all (strict_item P) items"
    using strict_labels [OF items(2) ok(1)] assms(4) WF_SUBSCRIBE_EVENT_LABELS by simp
  then have "strict_item P (smap [(''seq'', int_item (ls_seq l)), (''labels'', CBOR_TYPE_ARRAY True items)])"
    using ok(2) by (intro strict_smap) (simp_all add: strict_simps)
  with items(1) assms(5) WF_SUBSCRIBE_EVENT_LABELS show ?thesis by simp
next
  case (WF_SUBSCRIBE_EVENT_SYNC s)
  with assms builder_laws.build_sync_kvs [of B s] show ?thesis
    by (auto simp: body_simps strict_simps simp del: strict_item.simps(3,4,6) intro!: strict_smap)
next
  case (WF_SUBSCRIBE_EVENT_IDENTITY i)
  with assms builder_laws.build_identity_kvs [of B i] show ?thesis
    by (auto simp: body_simps strict_simps simp del: strict_item.simps(3,4,6) intro!: strict_smap)
next
  case (WF_SUBSCRIBE_EVENT_ACCOUNT ac)
  with assms builder_laws.build_account_kvs [of B ac] show ?thesis
    by (auto simp: body_simps strict_simps simp del: strict_item.simps(3,4,6) intro!: strict_smap)
next
  case (WF_SUBSCRIBE_EVENT_INFO info)
  with assms builder_laws.build_info_kvs [of B info] show ?thesis
    by (auto simp: body_simps strict_simps simp del: strict_item.simps(3,4,6) intro!: strict_smap)
next
  case (WF_SUBSCRIBE_EVENT_ERROR e)
  have "length (or_empty s) < 2 ^ 64" if "heap_ok has s" for s has
    using that by (auto simp: heap_ok_def fits_def or_empty_def split: option.splits)
  with WF_SUBSCRIBE_EVENT_ERROR assms builder_laws.build_error_kvs [of B e] show ?thesis
    by (auto simp: strict_simps simp del: strict_item.simps(3,4,6) intro!: strict_smap)
qed

lemma strict_header:
  assumes "builder_laws B"
  shows "strict_item P (build_header B (event_tag d))"
proof -
  have "plain_key t \<and> c_name t \<and> valid_text P (ascii t)" if "event_tag d = Some t" for t
    using that codepoints_ascii [of "ascii t"]
    by (cases d) (auto simp: plain_key_def c_name_def valid_text_def ascii_def)
  then show ?thesis
    using builder_laws.build_header_kvs [OF assms]
    by (cases "event_tag d")
      (auto simp: strict_simps simp del: strict_item.simps(3,4,6) intro!: strict_smap)
qed

end

section \<open>Decoded events\<close>

text \<open>
  What the decoder guarantees of an event: every string leaves room for its terminating NUL in the
  array that holds it, CIDs fit \<^verbatim>\<open>wf_cid.bytes\<close>, a flag that is not set comes with a zeroed member, the
  required strings of a label or an error are there, and the common sequence number is the body's.
\<close>

definition op_fits :: "wf_subscribe_repo_op \<Rightarrow> bool" where
  "op_fits op \<longleftrightarrow> op_action op \<noteq> [] \<and> length (op_action op) < 8 \<and>
     cid_ok (op_has_cid op) (op_cid op) \<and> cid_ok (op_has_prev op) (op_prev op)"

definition label_fits :: "wf_label \<Rightarrow> bool" where
  "label_fits l \<longleftrightarrow> l_src l \<noteq> None \<and> l_uri l \<noteq> None \<and> l_val l \<noteq> None \<and> l_cts l \<noteq> None \<and>
     (l_has_cid l \<longleftrightarrow> l_cid l \<noteq> None) \<and> (l_has_exp l \<longleftrightarrow> l_exp l \<noteq> None) \<and>
     (l_has_sig l \<longleftrightarrow> l_sig l \<noteq> None) \<and> (\<not> l_has_ver l \<longrightarrow> l_ver l = 0) \<and>
     (\<not> l_has_neg l \<longrightarrow> \<not> l_neg l)"

fun data_fits :: "wf_subscribe_data \<Rightarrow> bool" where
  "data_fits (WF_SUBSCRIBE_EVENT_COMMIT c) \<longleftrightarrow>
     length (c_did c) < 256 \<and> length (c_commit_cid c) \<le> 36 \<and> length (c_rev c) < 64 \<and>
     length (c_since c) < 64 \<and> length (c_time c) < 64 \<and>
     cid_ok (c_has_prev_data c) (c_prev_data c) \<and> list_all op_fits (c_ops c)"
| "data_fits (WF_SUBSCRIBE_EVENT_SYNC s) \<longleftrightarrow>
     length (s_did s) < 256 \<and> length (s_rev s) < 64 \<and> length (s_time s) < 64"
| "data_fits (WF_SUBSCRIBE_EVENT_IDENTITY i) \<longleftrightarrow>
     length (id_did i) < 256 \<and> length (id_time i) < 64 \<and> length (id_handle i) < 256 \<and>
     (\<not> id_has_handle i \<longrightarrow> id_handle i = [])"
| "data_fits (WF_SUBSCRIBE_EVENT_ACCOUNT ac) \<longleftrightarrow>
     length (ac_did ac) < 256 \<and> length (ac_time ac) < 64 \<and> length (ac_status ac) < 64 \<and>
     (\<not> ac_has_status ac \<longrightarrow> ac_status ac = [])"
| "data_fits (WF_SUBSCRIBE_EVENT_INFO info) \<longleftrightarrow>
     length (info_name info) < 64 \<and> length (info_message info) < 512 \<and>
     (\<not> info_has_message info \<longrightarrow> info_message info = [])"
| "data_fits (WF_SUBSCRIBE_EVENT_LABELS l) \<longleftrightarrow> list_all label_fits (ls_labels l)"
| "data_fits (WF_SUBSCRIBE_EVENT_ERROR e) \<longleftrightarrow> er_error e \<noteq> None"

definition event_fits :: "wf_subscribe_event \<Rightarrow> bool" where
  "event_fits ev \<longleftrightarrow> ev_seq ev = data_seq (ev_data ev) \<and> data_fits (ev_data ev)"

lemma string_field_fits: "string_field body key n = Some s \<Longrightarrow> length s < n"
  by (auto simp: string_field_def split: option.splits if_splits)

lemma parse_link_fits: "parse_cid_link_strict i = Inr cid \<Longrightarrow> length cid \<le> 36"
  by (induction i rule: parse_cid_link_strict.induct) (auto split: if_splits list.splits)

lemma link_field_fits: "link_field body key = (cid, has) \<Longrightarrow> cid_ok has cid"
  by (auto simp: link_field_def cid_ok_def parse_link_fits split: option.splits if_splits sum.splits)

lemma those_all:
  "(\<And>x y. f x = Some y \<Longrightarrow> Q y) \<Longrightarrow> those (map f xs) = Some ys \<Longrightarrow> list_all Q ys"
  by (induction xs arbitrary: ys) (auto split: option.splits)

lemma parse_op_fits: "parse_repo_op i = Some op \<Longrightarrow> op_fits op"
  by (auto simp: parse_repo_op_def op_fits_def split: option.splits if_splits prod.splits
      dest: string_field_fits link_field_fits)

lemma parse_ops_fits: "parse_ops body = Some ops \<Longrightarrow> list_all op_fits ops"
  by (auto simp: parse_ops_def split: option.splits intro: parse_op_fits those_all)

lemma parse_label_fits: "parse_label E i = Some l \<Longrightarrow> label_fits l"
  by (auto simp: parse_label_def label_fits_def Let_def split: option.splits sum.splits)

lemma parse_fits:
  "parse_commit body = Inr ev \<Longrightarrow> event_fits ev"
  "parse_sync body = Inr ev \<Longrightarrow> event_fits ev"
  "parse_identity body = Inr ev \<Longrightarrow> event_fits ev"
  "parse_account body = Inr ev \<Longrightarrow> event_fits ev"
  "parse_info body = Inr ev \<Longrightarrow> event_fits ev"
  "parse_labels E body = Inr ev \<Longrightarrow> event_fits ev"
  "parse_error_body body = Inr ev \<Longrightarrow> event_fits ev"
proof -
  note d = string_field_fits link_field_fits parse_link_fits parse_ops_fits
  show "parse_commit body = Inr ev \<Longrightarrow> event_fits ev"
    by (auto simp: parse_commit_def event_fits_def Let_def dest: d
        split: option.splits sum.splits prod.splits)
  show "parse_sync body = Inr ev \<Longrightarrow> event_fits ev"
    by (auto simp: parse_sync_def event_fits_def dest: d split: option.splits)
  show "parse_identity body = Inr ev \<Longrightarrow> event_fits ev"
    by (auto simp: parse_identity_def event_fits_def dest: d split: option.splits)
  show "parse_account body = Inr ev \<Longrightarrow> event_fits ev"
    by (auto simp: parse_account_def event_fits_def dest: d split: option.splits)
  show "parse_info body = Inr ev \<Longrightarrow> event_fits ev"
    by (auto simp: parse_info_def event_fits_def dest: d split: option.splits)
  show "parse_labels E body = Inr ev \<Longrightarrow> event_fits ev"
    by (auto simp: parse_labels_def event_fits_def split: option.splits
        intro: those_all [OF parse_label_fits])
  show "parse_error_body body = Inr ev \<Longrightarrow> event_fits ev"
    by (auto simp: parse_error_body_def event_fits_def split: option.splits)
qed

section \<open>Properties\<close>

text \<open>
  C8: A published frame is canonical DAG-CBOR: it splits into a header and a body that the strict
  parser of \<^verbatim>\<open>cbor.c\<close> accepts one by one, so integers are minimal, links carry the multibase prefix
  and a CID, map keys are text in ascending order of their encodings without repetition, and
  re-serialising what was parsed gives the same bytes.
\<close>

theorem publish_canonical:
  assumes "platform_laws P" "builder_laws B" "evp_laws E" "event_ok ev" "data_strict P (ev_data ev)"
  shows "\<exists>header body h b. wf_sync_publish_event P B E ev = Inr (header @ body) \<and>
    wf_cbor_parse P header = Some h \<and> wf_cbor_serialize h = Some header \<and>
    wf_cbor_parse P body = Some b \<and> wf_cbor_serialize b = Some body"
proof (rule publish_decode [OF assms(1-4)])
  fix header body
  assume b: "build_body B E (ev_data ev) = Some body" "header = build_header B (event_tag (ev_data ev))"
    "item_within 5 header" "item_within 5 body"
    "wf_sync_publish_event P B E ev = Inr (rfc_enc (canonicalise header) @ rfc_enc (canonicalise body))"
  have strict: "strict_item P header" "strict_item P body"
    using platform_laws.strict_header [OF assms(1,2)] b(1,2) assms(4,5)
      platform_laws.strict_body [OF assms(1,2,3)] by (auto simp: event_ok_def)
  have ser: "wf_cbor_serialize (of_libcbor (canonicalise i)) = Some (rfc_enc (canonicalise i))"
    if "strict_item P i" for i
    using canonicalise_embeds [OF that] write_item_rfc canonical_simple_fits wf_cbor_serialize_some
    by metis
  have parse: "wf_cbor_parse P (rfc_enc (canonicalise i)) = Some (of_libcbor (canonicalise i))"
    if "strict_item P i" "item_within 5 i" for i
    by (rule platform_laws.parse_canonicalised [OF assms(1) that]) simp
  show ?thesis
    using b(5) ser [OF strict(1)] ser [OF strict(2)] parse [OF strict(1) b(3)] parse [OF strict(2) b(4)]
    by blast
qed

definition example_cid :: wf_cid where
  "example_cid = [1, 0x71, 0x12, 2, 7, 8]"

definition example_event :: wf_subscribe_event where
  "example_event =
     \<lparr>ev_seq = 70000,
      ev_data = WF_SUBSCRIBE_EVENT_COMMIT
        \<lparr>c_seq = 70000, c_did = ascii ''did:plc:x'', c_commit_cid = example_cid, c_rev = ascii ''3k'',
         c_since = ascii ''3j'', c_blocks = [7, 8, 9],
         c_ops = [\<lparr>op_action = ascii ''delete'', op_path = ascii ''a/b'', op_cid = [], op_has_cid = False,
                   op_prev = example_cid, op_has_prev = True\<rparr>],
         c_time = ascii ''2025'', c_prev_data = [], c_has_prev_data = False\<rparr>\<rparr>"

theorem publish_canonical_witness:
  "\<exists>header body h b. wf_sync_publish_event (ref_platform toy_sha) ref_builder ref_evp example_event =
       Inr (header @ body) \<and>
     wf_cbor_parse (ref_platform toy_sha) header = Some h \<and> wf_cbor_serialize h = Some header \<and>
     wf_cbor_parse (ref_platform toy_sha) body = Some b \<and> wf_cbor_serialize b = Some body"
proof (rule publish_canonical [OF ref.platform_laws_axioms ref_builder.builder_laws_axioms
      ref_evp.evp_laws_axioms])
  show "event_ok example_event"
    by (simp add: event_ok_def example_event_def example_cid_def op_ok_def body_simps c_str_def ascii_def)
  have "wf_cbor_cid_valid example_cid" by code_simp
  then show "data_strict (ref_platform toy_sha) (ev_data example_event)"
    by (simp add: example_event_def valid_text_def valid_link_def ref_platform_def example_cid_def)
qed

text \<open>
  C30: Whatever bytes arrive, a frame that decodes yields an event that stays within its struct: no
  string, CID or operation overruns its fixed-size array (with its terminating NUL), members whose
  flag is unset are zero, and required members are present.
\<close>

theorem decode_frame_fits:
  assumes "wf_subscribe_decode_frame P E data = Inr ev"
  shows "event_fits ev"
  using assms parse_fits
  by (auto simp: wf_subscribe_decode_frame_def parse_by_type_def split: if_splits option.splits)

theorem decode_frame_fits_witness:
  "\<exists>data. wf_subscribe_decode_frame (ref_platform toy_sha) ref_evp data = Inr example_event \<and>
     event_fits example_event"
proof -
  have "event_ok example_event"
    by (simp add: event_ok_def example_event_def example_cid_def op_ok_def body_simps c_str_def ascii_def)
  then obtain data where "wf_subscribe_decode_frame (ref_platform toy_sha) ref_evp data = Inr example_event"
    using publish_decode [OF ref.platform_laws_axioms ref_builder.builder_laws_axioms
        ref_evp.evp_laws_axioms] by blast
  with decode_frame_fits show ?thesis by blast
qed

end
