(* ===== verification/Subscribe_Loop.thy ===== *)
theory Subscribe_Loop
  imports Subscribe
begin

text \<open>
  The subscription loop of \<^verbatim>\<open>src/sync/sync_subscribe.c\<close> as a step relation. A configuration is the point
  the thread has reached in \<^verbatim>\<open>subscribe_loop\<close> and the handle; a step is labelled with the calls made in
  it. What the WebSocket layer and the clock answer is not determined: every status, message and time
  is possible. \<^verbatim>\<open>wf_subscribe_stop\<close> runs in other threads and in callbacks, so it is a step of its own
  that may come between any two steps of the loop.
\<close>

section \<open>Options, handle and start\<close>

record wf_subscribe_options =
  o_service :: "bytes option"
  o_cursor :: i64
  o_has_cursor :: bool
  o_on_event :: bool
  o_on_error :: bool
  o_max_retry_seconds :: u32
  o_reconnect_delay_ms :: u32
  o_ping_interval_ms :: u32

record wf_subscribe_handle =
  h_opts :: wf_subscribe_options
  h_socket :: bool
  h_cursor :: i64
  h_retry_delay_ms :: u32
  h_last_ping_ms :: u64
  h_stopped :: bool

definition WF_SUBSCRIBE_DEFAULT_SERVICE :: bytes where
  "WF_SUBSCRIBE_DEFAULT_SERVICE = ascii ''wss://bsky.network''"

text \<open>The service without its trailing slashes, the path of the method, and the cursor if there is one.\<close>

definition strip_slashes :: "bytes \<Rightarrow> bytes" where
  "strip_slashes s = rev (dropWhile (\<lambda>b. b = 47) (rev s))"

definition build_url :: "bytes option \<Rightarrow> i64 \<Rightarrow> bytes res" where
  "build_url service cursor =
     (let svc = strip_slashes (case service of None \<Rightarrow> WF_SUBSCRIBE_DEFAULT_SERVICE | Some s \<Rightarrow> s);
          url = (if 0 < sint cursor
                 then svc @ ascii ''/xrpc/com.atproto.sync.subscribeRepos?cursor='' @
                      print_nat (nat (sint cursor))
                 else svc @ ascii ''/xrpc/com.atproto.sync.subscribeRepos'')
      in if 4096 \<le> length url then Inl WF_ERR_INVALID_ARG else Inr url)"

definition initial_delay :: "wf_subscribe_options \<Rightarrow> u32" where
  "initial_delay opts = (if 0 < sint (o_reconnect_delay_ms opts) then o_reconnect_delay_ms opts else 3000)"

definition max_delay :: "wf_subscribe_options \<Rightarrow> u32" where
  "max_delay opts = (if 0 < sint (o_max_retry_seconds opts) then o_max_retry_seconds opts * 1000 else 64000)"

definition ping_interval :: "wf_subscribe_options \<Rightarrow> u32" where
  "ping_interval opts = (if 0 < o_ping_interval_ms opts then o_ping_interval_ms opts else 30000)"

text \<open>
  \<^verbatim>\<open>wf_subscribe_start\<close> up to its call of \<^verbatim>\<open>subscribe_loop\<close>: the argument checks, and the handle with which
  the loop begins, the first assignment of the loop (the initial delay) included. From there on the
  step relation below applies, with the start configuration \<open>(AT_TOP, handle)\<close>.
\<close>

definition wf_subscribe_start :: "wf_subscribe_options \<Rightarrow> wf_subscribe_handle res" where
  "wf_subscribe_start opts =
     (if \<not> o_on_event opts then Inl WF_ERR_INVALID_ARG
      else if (case o_service opts of
                 None \<Rightarrow> False
               | Some s \<Rightarrow> take 5 s \<noteq> ascii ''ws://'' \<and> take 6 s \<noteq> ascii ''wss://'')
        then Inl WF_ERR_INVALID_ARG
      else if sint (o_max_retry_seconds opts) < 0 \<or> sint (o_reconnect_delay_ms opts) < 0
        then Inl WF_ERR_INVALID_ARG
      else Inr \<lparr>h_opts = opts, h_socket = False,
                h_cursor = (if o_has_cursor opts then o_cursor opts else 0),
                h_retry_delay_ms = initial_delay opts, h_last_ping_ms = 0, h_stopped = False\<rparr>)"

definition wf_subscribe_stop :: "wf_subscribe_handle \<Rightarrow> wf_subscribe_handle" where
  "wf_subscribe_stop h = h\<lparr>h_stopped := True\<rparr>"

section \<open>One received message\<close>

datatype subscribe_effect =
    CONNECT_OK bytes
  | CONNECT_FAILED "bytes option"
  | RECEIVED bool bytes
  | ON_EVENT wf_subscribe_event
  | ON_ERROR wf_status
  | SEND_PING
  | SLEEP u64

definition on_error :: "wf_subscribe_handle \<Rightarrow> wf_status \<Rightarrow> subscribe_effect list" where
  "on_error h s = (if o_on_error (h_opts h) then [ON_ERROR s] else [])"

fun is_repo_event :: "wf_subscribe_data \<Rightarrow> bool" where
  "is_repo_event (WF_SUBSCRIBE_EVENT_COMMIT _) = True"
| "is_repo_event (WF_SUBSCRIBE_EVENT_SYNC _) = True"
| "is_repo_event (WF_SUBSCRIBE_EVENT_IDENTITY _) = True"
| "is_repo_event (WF_SUBSCRIBE_EVENT_ACCOUNT _) = True"
| "is_repo_event _ = False"

fun is_outdated :: "wf_subscribe_data \<Rightarrow> bool" where
  "is_outdated (WF_SUBSCRIBE_EVENT_INFO info) = (c_str (info_name info) = ascii ''OutdatedCursor'')"
| "is_outdated _ = False"

definition cursor_after :: "wf_subscribe_event \<Rightarrow> i64 \<Rightarrow> i64" where
  "cursor_after ev cursor =
     (let cursor' = (if is_repo_event (ev_data ev) \<and> sint cursor < sint (ev_seq ev) then ev_seq ev
                     else cursor)
      in if is_outdated (ev_data ev) then 0 else cursor')"

definition handle_message ::
  "platform \<Rightarrow> evp \<Rightarrow> u64 \<Rightarrow> bool \<Rightarrow> bytes \<Rightarrow> wf_subscribe_handle \<Rightarrow>
     wf_subscribe_handle \<times> subscribe_effect list" where
  "handle_message P E now binary data h =
     (if \<not> binary \<or> data = [] then (h, [])
      else case load_frame P data of
             None \<Rightarrow> (h, [])
           | Some (header, body) \<Rightarrow>
               (if frame_is_error header
                then case parse_error_body body of
                       Inl _ \<Rightarrow> (h, [])
                     | Inr ev \<Rightarrow> (h, ON_EVENT ev # on_error h WF_ERR_PARSE)
                else case parse_by_type E header body of
                       Inl _ \<Rightarrow> (h, [])
                     | Inr ev \<Rightarrow>
                         (h\<lparr>h_last_ping_ms := now, h_cursor := cursor_after ev (h_cursor h)\<rparr>,
                          [ON_EVENT ev])))"

section \<open>The loop\<close>

text \<open>
  Where the thread is: at the top of the loop, about to connect, about to receive, in the waiting loop (with
  its deadline), about to sleep there, after it, or past the loop. The flag says whether the wait follows a
  failed connect, whose end doubles the delay. Each test of \<^verbatim>\<open>stopped\<close> is a step of its own and what it guards
  another, so that another thread may stop the subscription in between: a step that tests the flag
  (from \<open>AT_TOP\<close>, \<open>WAITING\<close> and \<open>WAITED\<close>) calls neither the network nor a callback, and a step that calls them does not
  read the flag.
\<close>

datatype loop_point = AT_TOP | CONNECTING | RECEIVING | WAITING u64 bool | SLEEPING u64 bool u64 | WAITED bool | DONE

type_synonym loop_conf = "loop_point \<times> wf_subscribe_handle"

text \<open>The waiting loop reads the clock twice to compute what is left.\<close>

definition retry_remaining :: "u64 \<Rightarrow> u64 \<Rightarrow> u64 \<Rightarrow> u64" where
  "retry_remaining deadline now1 now2 = (if now1 < deadline then deadline - now2 else 0)"

definition retry_deadline :: "u64 \<Rightarrow> wf_subscribe_handle \<Rightarrow> u64" where
  "retry_deadline now h = now + ucast (h_retry_delay_ms h)"

definition double_delay :: "wf_subscribe_handle \<Rightarrow> wf_subscribe_handle" where
  "double_delay h =
     (if h_retry_delay_ms h < max_delay (h_opts h)
      then let doubled = (ucast (h_retry_delay_ms h) :: u64) * 2
           in h\<lparr>h_retry_delay_ms :=
                 (if ucast (max_delay (h_opts h)) < doubled then max_delay (h_opts h) else ucast doubled)\<rparr>
      else h)"

definition keepalive :: "u64 \<Rightarrow> wf_subscribe_handle \<Rightarrow> wf_subscribe_handle \<times> subscribe_effect list" where
  "keepalive now h =
     (if ucast (ping_interval (h_opts h)) \<le> now - h_last_ping_ms h
      then (h\<lparr>h_last_ping_ms := now\<rparr>, [SEND_PING]) else (h, []))"

inductive loop_step :: "platform \<Rightarrow> evp \<Rightarrow> loop_conf \<Rightarrow> subscribe_effect list \<Rightarrow> loop_conf \<Rightarrow> bool"
  for P E where
  top_stopped: "h_stopped h \<Longrightarrow> loop_step P E (AT_TOP, h) [] (DONE, h\<lparr>h_socket := False\<rparr>)"
| top_live: "\<not> h_stopped h \<Longrightarrow> h_socket h \<Longrightarrow> loop_step P E (AT_TOP, h) [] (RECEIVING, h)"
| top_connect: "\<not> h_stopped h \<Longrightarrow> \<not> h_socket h \<Longrightarrow> loop_step P E (AT_TOP, h) [] (CONNECTING, h)"
| connect_no_url:
    "build_url (o_service (h_opts h)) (h_cursor h) = Inl s \<Longrightarrow>
     loop_step P E (CONNECTING, h) (CONNECT_FAILED None # on_error h s) (WAITING (retry_deadline now h) True, h)"
| connect_failed:
    "build_url (o_service (h_opts h)) (h_cursor h) = Inr url \<Longrightarrow>
     loop_step P E (CONNECTING, h) (CONNECT_FAILED (Some url) # on_error h s)
       (WAITING (retry_deadline now h) True, h)"
| connect_ok:
    "build_url (o_service (h_opts h)) (h_cursor h) = Inr url \<Longrightarrow>
     loop_step P E (CONNECTING, h) [CONNECT_OK url]
       (RECEIVING, h\<lparr>h_socket := True, h_retry_delay_ms := initial_delay (h_opts h), h_last_ping_ms := now\<rparr>)"
| wait_stopped: "h_stopped h \<Longrightarrow> loop_step P E (WAITING deadline b, h) [] (WAITED b, h)"
| wait_sleep:
    "\<not> h_stopped h \<Longrightarrow> retry_remaining deadline now1 now2 \<noteq> 0 \<Longrightarrow>
     loop_step P E (WAITING deadline b, h) [] (SLEEPING deadline b (retry_remaining deadline now1 now2), h)"
| sleep: "loop_step P E (SLEEPING deadline b remaining, h) [SLEEP remaining] (WAITING deadline b, h)"
| wait_over:
    "\<not> h_stopped h \<Longrightarrow> retry_remaining deadline now1 now2 = 0 \<Longrightarrow>
     loop_step P E (WAITING deadline b, h) [] (WAITED b, h)"
| waited_stopped: "h_stopped h \<Longrightarrow> loop_step P E (WAITED b, h) [] (DONE, h\<lparr>h_socket := False\<rparr>)"
| waited: "\<not> h_stopped h \<Longrightarrow> loop_step P E (WAITED b, h) [] (AT_TOP, if b then double_delay h else h)"
| receive_network:
    "loop_step P E (RECEIVING, h) (on_error h WF_ERR_NETWORK)
       (WAITING (retry_deadline now h) False, h\<lparr>h_socket := False\<rparr>)"
| receive_would_block:
    "keepalive now h = (h', es) \<Longrightarrow> loop_step P E (RECEIVING, h) (es @ [SLEEP 20]) (AT_TOP, h')"
| receive_failed: "loop_step P E (RECEIVING, h) [] (DONE, h\<lparr>h_socket := False\<rparr>)"
| receive_message:
    "handle_message P E now binary data h = (h', es) \<Longrightarrow>
     loop_step P E (RECEIVING, h) (RECEIVED binary data # es) (AT_TOP, h')"

inductive subscribe_step :: "platform \<Rightarrow> evp \<Rightarrow> loop_conf \<Rightarrow> subscribe_effect list \<Rightarrow> loop_conf \<Rightarrow> bool"
  for P E where
  thread: "loop_step P E c es c' \<Longrightarrow> subscribe_step P E c es c'"
| stop: "subscribe_step P E (pc, h) [] (pc, wf_subscribe_stop h)"

inductive subscribe_run :: "platform \<Rightarrow> evp \<Rightarrow> loop_conf \<Rightarrow> subscribe_effect list \<Rightarrow> loop_conf \<Rightarrow> bool"
  for P E c where
  refl: "subscribe_run P E c [] c"
| step: "subscribe_run P E c es c' \<Longrightarrow> subscribe_step P E c' es' c'' \<Longrightarrow> subscribe_run P E c (es @ es') c''"

inductive_cases loop_stepE: "loop_step P E (pc, h) es (pc', h')"
inductive_cases subscribe_stepE: "subscribe_step P E (pc, h) es (pc', h')"

lemmas subscribe_run_induct = subscribe_run.induct [split_format (complete)]

end
