(* ===== verification/Subscribe_Props.thy ===== *)
theory Subscribe_Props
  imports Subscribe_Loop Publish_Canon
begin

text \<open>
  What holds of every run of the subscription loop, whatever the network, the clock and other
  threads do: the delay between attempts, the cursor that a reconnect resumes from, the events that
  are delivered, and that a stopped loop ends.
\<close>

section \<open>Delays\<close>

text \<open>
  The delay after \<open>n\<close> failed attempts in a row: it doubles up to the limit, unless it started above
  the limit. \<open>fails\<close> counts the failed attempts at the end of a run.
\<close>

definition backoff_ms :: "wf_subscribe_options \<Rightarrow> nat \<Rightarrow> nat" where
  "backoff_ms opts n =
     (let i = unat (initial_delay opts); m = unat (max_delay opts)
      in if i < m then min m (i * 2 ^ n) else i)"

fun count_fails :: "nat \<Rightarrow> subscribe_effect list \<Rightarrow> nat" where
  "count_fails n [] = n"
| "count_fails n (CONNECT_FAILED _ # es) = count_fails (Suc n) es"
| "count_fails n (CONNECT_OK _ # es) = count_fails 0 es"
| "count_fails n (_ # es) = count_fails n es"

lemma count_fails_append: "count_fails n (es @ es') = count_fails (count_fails n es) es'"
  by (induction n es rule: count_fails.induct) simp_all

lemma count_fails_on_error [simp]: "count_fails n (on_error h s) = n"
  by (simp add: on_error_def)

text \<open>The failure whose wait is still running has not doubled the delay yet.\<close>

fun pending :: "loop_point \<Rightarrow> nat" where
  "pending (WAITING _ b) = of_bool b"
| "pending (SLEEPING _ b _) = of_bool b"
| "pending (WAITED b) = of_bool b"
| "pending _ = 0"

lemma backoff_Suc:
  "backoff_ms opts (Suc n) =
     (if backoff_ms opts n < unat (max_delay opts)
      then min (unat (max_delay opts)) (2 * backoff_ms opts n) else backoff_ms opts n)"
  by (auto simp: backoff_ms_def Let_def min_def)

lemma double_delay_unat:
  "unat (h_retry_delay_ms (double_delay h)) =
     (if unat (h_retry_delay_ms h) < unat (max_delay (h_opts h))
      then min (unat (max_delay (h_opts h))) (2 * unat (h_retry_delay_ms h))
      else unat (h_retry_delay_ms h))"
proof -
  let ?d = "h_retry_delay_ms h" and ?m = "max_delay (h_opts h)"
  have b: "unat ?d < 2 ^ 32" "unat ?m < 2 ^ 32"
    using unsigned_less [of ?d, where ?'a = nat] unsigned_less [of ?m, where ?'a = nat] by simp_all
  have d: "unat ((ucast ?d :: u64) * 2) = 2 * unat ?d"
    using b by (simp add: unat_word_ariths unsigned_ucast_eq take_bit_nat_eq_self)
  have m: "unat (ucast ?m :: u64) = unat ?m"
    using b by (simp add: unsigned_ucast_eq take_bit_nat_eq_self)
  have u: "2 * unat ?d \<le> unat ?m \<Longrightarrow> unat (ucast ((ucast ?d :: u64) * 2) :: u32) = 2 * unat ?d"
    using b d by (simp add: unsigned_ucast_eq take_bit_nat_eq_self)
  show ?thesis
    unfolding double_delay_def Let_def using d m u
    by (simp add: word_less_nat_alt min_def)
qed

lemma double_delay_opts [simp]: "h_opts (double_delay h) = h_opts h"
  by (simp add: double_delay_def Let_def)

lemma opts_step:
  "subscribe_step P E (pc, h) es (pc', h') \<Longrightarrow> h_opts h' = h_opts h"
  by (auto elim!: subscribe_stepE loop_stepE
      simp: wf_subscribe_stop_def handle_message_def keepalive_def double_delay_def Let_def
      split: if_splits option.splits sum.splits prod.splits)

lemma message_delay:
  "handle_message P E now binary data h = (h', es) \<Longrightarrow>
     h_retry_delay_ms h' = h_retry_delay_ms h \<and> count_fails n es = n"
  by (auto simp: handle_message_def split: if_splits option.splits sum.splits prod.splits)

lemma keepalive_delay:
  "keepalive now h = (h', es) \<Longrightarrow> h_retry_delay_ms h' = h_retry_delay_ms h \<and> count_fails n (es @ [SLEEP 20]) = n"
  by (auto simp: keepalive_def split: if_splits)

definition delay_inv :: "nat \<Rightarrow> loop_conf \<Rightarrow> bool" where
  "delay_inv n c =
     (case c of (pc, h) \<Rightarrow> pc = DONE \<or> pending pc \<le> n \<and>
        unat (h_retry_delay_ms h) = backoff_ms (h_opts h) (n - pending pc))"

lemma delay_inv_loop:
  assumes "loop_step P E c es c'" "delay_inv n c"
  shows "delay_inv (count_fails n es) c'"
  using assms
proof cases
  case (waited h b)
  with assms(2) show ?thesis
    by (cases b; cases n) (auto simp: delay_inv_def double_delay_unat backoff_Suc)
next
  case (receive_would_block now h h' es')
  with assms(2) show ?thesis
    using keepalive_delay [of now h h' es' n] opts_step [OF subscribe_step.thread [OF assms(1) [unfolded receive_would_block(1,3)]]]
    by (auto simp: delay_inv_def)
next
  case (receive_message now binary data h h' es')
  with assms(2) show ?thesis
    using message_delay [of P E now binary data h h' es' n]
      opts_step [OF subscribe_step.thread [OF assms(1) [unfolded receive_message(1,3)]]]
    by (auto simp: delay_inv_def)
qed (auto simp: delay_inv_def backoff_ms_def Let_def)

lemma delay_inv_step:
  assumes "subscribe_step P E c es c'" "delay_inv n c"
  shows "delay_inv (count_fails n es) c'"
  using assms by cases (auto simp: delay_inv_loop, simp add: delay_inv_def wf_subscribe_stop_def)

lemma delay_inv_run:
  assumes "subscribe_run P E c es c'" "delay_inv 0 c"
  shows "delay_inv (count_fails 0 es) c'"
  using assms by (induction rule: subscribe_run.induct) (simp_all add: count_fails_append delay_inv_step)

lemma opts_run:
  assumes "subscribe_run P E c es c'"
  shows "h_opts (snd c') = h_opts (snd c)"
  using assms
proof (induction rule: subscribe_run.induct)
  case (step es c' es' c'')
  then show ?case using opts_step [of P E "fst c'" "snd c'" es' "fst c''" "snd c''"] by simp
qed simp

lemma start_handle:
  assumes "wf_subscribe_start opts = Inr h"
  shows "h_opts h = opts" "h_cursor h = (if o_has_cursor opts then o_cursor opts else 0)"
    "delay_inv 0 (AT_TOP, h)"
  using assms
  by (auto simp: wf_subscribe_start_def delay_inv_def backoff_ms_def Let_def split: if_splits)

section \<open>Events and the cursor\<close>

fun delivered :: "subscribe_effect list \<Rightarrow> wf_subscribe_event list" where
  "delivered [] = []"
| "delivered (ON_EVENT ev # es) = ev # delivered es"
| "delivered (_ # es) = delivered es"

fun received :: "subscribe_effect list \<Rightarrow> (bool \<times> bytes) list" where
  "received [] = []"
| "received (RECEIVED binary data # es) = (binary, data) # received es"
| "received (_ # es) = received es"

lemma delivered_append [simp]: "delivered (es @ es') = delivered es @ delivered es'"
  by (induction es rule: delivered.induct) simp_all

lemma received_append [simp]: "received (es @ es') = received es @ received es'"
  by (induction es rule: received.induct) simp_all

lemma on_error_trace [simp]: "delivered (on_error h s) = []" "received (on_error h s) = []"
  by (simp_all add: on_error_def)

text \<open>
  Where a subscription that has delivered these events has to resume: at the highest sequence number
  of a repository event since the server last reported an outdated cursor, and not before 0 or the
  cursor it was started with.
\<close>

definition resume_point :: "int \<Rightarrow> wf_subscribe_event list \<Rightarrow> int" where
  "resume_point start evs =
     (let recent = takeWhile (\<lambda>ev. \<not> is_outdated (ev_data ev)) (rev evs);
          base = (if list_ex (\<lambda>ev. is_outdated (ev_data ev)) evs then 0 else start)
      in foldr max (map (\<lambda>ev. sint (ev_seq ev)) (filter (\<lambda>ev. is_repo_event (ev_data ev)) recent)) base)"

lemma outdated_not_repo: "is_outdated d \<Longrightarrow> \<not> is_repo_event d"
  by (cases d) auto

lemma resume_point_Nil: "resume_point start [] = start"
  by (simp add: resume_point_def)

lemma resume_point_snoc:
  "resume_point start (evs @ [ev]) =
     (if is_outdated (ev_data ev) then 0
      else if is_repo_event (ev_data ev) then max (resume_point start evs) (sint (ev_seq ev))
      else resume_point start evs)"
  by (simp add: resume_point_def Let_def max.commute)

lemma cursor_after_resume:
  assumes "sint c = resume_point start evs"
  shows "sint (cursor_after ev c) = resume_point start (evs @ [ev])"
  using assms outdated_not_repo [of "ev_data ev"]
  by (auto simp: resume_point_snoc cursor_after_def Let_def max_def)

definition decoded :: "platform \<Rightarrow> evp \<Rightarrow> bool \<times> bytes \<Rightarrow> wf_subscribe_event list" where
  "decoded P E m =
     (if \<not> fst m then []
      else case wf_subscribe_decode_frame P E (snd m) of Inl _ \<Rightarrow> [] | Inr ev \<Rightarrow> [ev])"

text \<open>What a message does, in terms of the public decoder.\<close>

lemma handle_message_decoded:
  assumes "handle_message P E now binary data h = (h', es)"
  shows "delivered es = decoded P E (binary, data)"
  using assms
  by (auto simp: handle_message_def decoded_def wf_subscribe_decode_frame_def
      split: if_splits option.splits sum.splits prod.splits)

lemma handle_message_keeps:
  assumes "handle_message P E now binary data h = (h', es)"
  shows "received es = [] \<and> h_stopped h' = h_stopped h \<and> (\<forall>url. CONNECT_OK url \<notin> set es) \<and>
    (\<forall>u. CONNECT_FAILED u \<notin> set es)"
  using assms
  by (auto simp: handle_message_def on_error_def split: if_splits option.splits sum.splits prod.splits)

lemma parse_error_cursor: "parse_error_body body = Inr ev \<Longrightarrow> cursor_after ev c = c"
  by (auto simp: parse_error_body_def cursor_after_def split: option.splits)

lemma handle_message_cursor:
  assumes "handle_message P E now binary data h = (h', es)"
  shows "h_cursor h' = foldl (\<lambda>c ev. cursor_after ev c) (h_cursor h) (delivered es)"
  using assms
  by (auto simp: handle_message_def parse_error_cursor
      split: if_splits option.splits sum.splits prod.splits)

lemma keepalive_trace:
  "keepalive now h = (h', es) \<Longrightarrow> delivered es = [] \<and> received es = [] \<and> h_cursor h' = h_cursor h \<and>
     h_stopped h' = h_stopped h \<and> (\<forall>url. CONNECT_OK url \<notin> set es) \<and> (\<forall>u. CONNECT_FAILED u \<notin> set es)"
  by (auto simp: keepalive_def split: if_splits)

lemma double_delay_cursor [simp]: "h_cursor (double_delay h) = h_cursor h"
  by (simp add: double_delay_def Let_def)

lemma step_cursor:
  assumes "subscribe_step P E (pc, h) es (pc', h')"
  shows "h_cursor h' = foldl (\<lambda>c ev. cursor_after ev c) (h_cursor h) (delivered es)"
  using assms
  by (auto elim!: subscribe_stepE loop_stepE simp: wf_subscribe_stop_def
      dest!: keepalive_trace handle_message_cursor)

lemma step_decoded:
  assumes "subscribe_step P E (pc, h) es (pc', h')"
  shows "delivered es = concat (map (decoded P E) (received es))"
  using assms
  by (auto elim!: subscribe_stepE loop_stepE dest!: keepalive_trace)
    (simp add: handle_message_decoded handle_message_keeps)

lemma run_decoded:
  assumes "subscribe_run P E c es c'"
  shows "delivered es = concat (map (decoded P E) (received es))"
  using assms
proof (induction rule: subscribe_run.induct)
  case (step es c' es' c'')
  then show ?case using step_decoded [of P E "fst c'" "snd c'" es' "fst c''" "snd c''"] by simp
qed simp

lemma fold_cursor:
  "sint c = resume_point start evs \<Longrightarrow>
     sint (foldl (\<lambda>c ev. cursor_after ev c) c evs') = resume_point start (evs @ evs')"
proof (induction evs' arbitrary: c evs)
  case (Cons ev evs')
  from Cons.IH [OF cursor_after_resume [OF Cons.prems]] show ?case by simp
qed simp

lemma run_cursor:
  assumes "subscribe_run P E c es c'"
  shows "sint (h_cursor (snd c')) = resume_point (sint (h_cursor (snd c))) (delivered es)"
  using assms
proof (induction rule: subscribe_run.induct)
  case (step es c' es' c'')
  then show ?case
    using step_cursor [of P E "fst c'" "snd c'" es' "fst c''" "snd c''"] fold_cursor by simp
qed (simp add: resume_point_Nil)

text \<open>A connection attempt is the first thing its step does, at the handle's cursor.\<close>

lemma step_connect:
  assumes "subscribe_step P E (pc, h) (es1 @ CONNECT_OK url # es2) (pc', h')"
  shows "es1 = [] \<and> build_url (o_service (h_opts h)) (h_cursor h) = Inr url"
proof -
  obtain es where es: "es = es1 @ CONNECT_OK url # es2" by blast
  then have "CONNECT_OK url \<in> set es" by simp
  with assms [folded es] have "es = [CONNECT_OK url] \<and> build_url (o_service (h_opts h)) (h_cursor h) = Inr url"
    by (auto elim!: subscribe_stepE loop_stepE simp: on_error_def
        dest: keepalive_trace handle_message_keeps split: if_splits)
  with es show ?thesis by (auto simp: append_eq_Cons_conv Cons_eq_append_conv)
qed

lemma run_connect:
  assumes "subscribe_run P E c es c'" "es = es1 @ CONNECT_OK url # es2"
  shows "build_url (o_service (h_opts (snd c)))
    (word_of_int (resume_point (sint (h_cursor (snd c))) (delivered es1))) = Inr url"
  using assms
proof (induction arbitrary: es2 rule: subscribe_run.induct)
  case (step es c' es' c'')
  from step.prems consider us where "es = es1 @ CONNECT_OK url # us"
    | us where "es1 = es @ us" "es' = us @ CONNECT_OK url # es2"
    by (auto simp: append_eq_append_conv2 append_eq_Cons_conv)
  then show ?case
  proof cases
    case 1
    then show ?thesis by (rule step.IH)
  next
    case 2
    then have "us = []" "build_url (o_service (h_opts (snd c'))) (h_cursor (snd c')) = Inr url"
      using step_connect [of P E "fst c'" "snd c'" us url es2 "fst c''" "snd c''"] step.hyps(2) by auto
    moreover have "h_cursor (snd c') = word_of_int (sint (h_cursor (snd c')))" by simp
    ultimately show ?thesis
      using 2(1) run_cursor [OF step.hyps(1)] opts_run [OF step.hyps(1)] by simp
  qed
qed simp

section \<open>Stopping\<close>

inductive loop_runs :: "platform \<Rightarrow> evp \<Rightarrow> nat \<Rightarrow> loop_conf \<Rightarrow> subscribe_effect list \<Rightarrow> loop_conf \<Rightarrow> bool"
  for P E where
  none: "loop_runs P E 0 c [] c"
| more: "loop_step P E c es c' \<Longrightarrow> loop_runs P E n c' es' c'' \<Longrightarrow> loop_runs P E (Suc n) c (es @ es') c''"

text \<open>How many steps a stopped loop has left at most.\<close>

fun steps_left :: "loop_point \<Rightarrow> nat" where
  "steps_left DONE = 0"
| "steps_left AT_TOP = 1"
| "steps_left (WAITED _) = 1"
| "steps_left (WAITING _ _) = 2"
| "steps_left (SLEEPING _ _ _) = 3"
| "steps_left RECEIVING = 3"
| "steps_left CONNECTING = 4"

fun is_connect :: "subscribe_effect \<Rightarrow> bool" where
  "is_connect (CONNECT_OK _) = True"
| "is_connect (CONNECT_FAILED _) = True"
| "is_connect _ = False"

abbreviation attempts :: "subscribe_effect list \<Rightarrow> nat" where
  "attempts es \<equiv> length (filter is_connect es)"

lemma decoded_le: "length (decoded P E m) \<le> Suc 0"
  by (simp add: decoded_def split: sum.splits)

lemma no_attempts: "(\<forall>url. CONNECT_OK url \<notin> set es) \<Longrightarrow> (\<forall>u. CONNECT_FAILED u \<notin> set es) \<Longrightarrow> filter is_connect es = []"
  unfolding filter_empty_conv by (metis is_connect.elims(2))

lemma step_attempts:
  assumes "loop_step P E (pc, h) es (pc', h')"
  shows "attempts es = of_bool (pc = CONNECTING)"
  using assms
  by (auto elim!: loop_stepE simp: on_error_def dest!: keepalive_trace handle_message_keeps no_attempts split: if_splits)

lemma stopped_step:
  assumes "loop_step P E (pc, h) es (pc', h')" "h_stopped h"
  shows "h_stopped h' \<and> steps_left pc' < steps_left pc \<and> pc' \<noteq> CONNECTING \<and> (pc' = RECEIVING \<longrightarrow> pc = CONNECTING) \<and>
    length (delivered es) \<le> of_bool (pc = RECEIVING)"
  using assms
  by (auto elim!: loop_stepE simp: handle_message_decoded decoded_le
      dest!: keepalive_trace dest: handle_message_keeps split: if_splits)

lemma stopped_runs:
  assumes "loop_runs P E n c es c'" "h_stopped (snd c)"
  shows "n + steps_left (fst c') \<le> steps_left (fst c) \<and> h_stopped (snd c') \<and>
    attempts es \<le> of_bool (fst c = CONNECTING) \<and> length (delivered es) \<le> of_bool (fst c \<in> {CONNECTING, RECEIVING})"
  using assms
proof (induction rule: loop_runs.induct)
  case (more c es c' n es' c'')
  have st: "loop_step P E (fst c, snd c) es (fst c', snd c')" using more.hyps(1) by simp
  note one = stopped_step [OF st more.prems] and many = more.IH
  have "length (delivered es') \<le> of_bool (fst c' = RECEIVING)" using many one by auto
  also have "\<dots> \<le> of_bool (fst c = CONNECTING)" using one by auto
  finally have "length (delivered es') \<le> of_bool (fst c = CONNECTING)" .
  then show ?case using one many step_attempts [OF st] by auto
qed simp

text \<open>The loop is never stuck: until it is past its end, some step is possible.\<close>

lemma loop_progress:
  assumes "pc \<noteq> DONE"
  shows "\<exists>es c'. loop_step P E (pc, h) es c'"
proof (cases pc)
  case AT_TOP
  then show ?thesis
    using top_stopped [of h P E] top_live [of h P E] top_connect [of h P E] by blast
next
  case CONNECTING
  then show ?thesis
    using connect_no_url [of h _ P E 0] connect_ok [of h _ P E 0]
    by (cases "build_url (o_service (h_opts h)) (h_cursor h)") blast+
next
  case (SLEEPING deadline b remaining)
  then show ?thesis using sleep by blast
next
  case (WAITING deadline b)
  then show ?thesis
    using wait_stopped [of h P E deadline b] wait_over [of h deadline deadline 0 P E b]
    by (cases "h_stopped h") (auto simp: retry_remaining_def)
next
  case (WAITED b)
  then show ?thesis using waited_stopped [of h P E b] waited [of h P E b] by blast
next
  case RECEIVING
  then show ?thesis using receive_failed by blast
qed (use assms in simp)

section \<open>Two runs\<close>

definition example_opts :: wf_subscribe_options where
  "example_opts =
     \<lparr>o_service = None, o_cursor = 5, o_has_cursor = True, o_on_event = True, o_on_error = False,
      o_max_retry_seconds = 0, o_reconnect_delay_ms = 0, o_ping_interval_ms = 0\<rparr>"

definition example_handle :: wf_subscribe_handle where
  "example_handle =
     \<lparr>h_opts = example_opts, h_socket = False, h_cursor = 5, h_retry_delay_ms = 3000,
      h_last_ping_ms = 0, h_stopped = False\<rparr>"

abbreviation toy :: platform where
  "toy \<equiv> ref_platform toy_sha"

lemma example_start: "wf_subscribe_start example_opts = Inr example_handle"
  by (simp add: wf_subscribe_start_def example_opts_def example_handle_def initial_delay_def)

lemma example_url: "\<exists>url. build_url (o_service (h_opts example_handle)) (h_cursor example_handle) = Inr url"
  by (auto simp: build_url_def Let_def example_handle_def example_opts_def WF_SUBSCRIBE_DEFAULT_SERVICE_def
      strip_slashes_def print_nat.simps ascii_def)

lemma run_one: "loop_step P E c es c' \<Longrightarrow> subscribe_run P E c es c'"
  using subscribe_run.step [OF subscribe_run.refl subscribe_step.thread] by fastforce

lemma run_more:
  "subscribe_run P E c es c' \<Longrightarrow> loop_step P E c' es' c'' \<Longrightarrow> subscribe_run P E c (es @ es') c''"
  by (rule subscribe_run.step [OF _ subscribe_step.thread])

text \<open>A failed attempt and its wait; and a connection over which a commit event arrives.\<close>

lemma failing_run:
  "\<exists>url. subscribe_run toy ref_evp (AT_TOP, example_handle) [CONNECT_FAILED (Some url)]
     (AT_TOP, example_handle\<lparr>h_retry_delay_ms := 6000\<rparr>)"
proof -
  obtain url where url: "build_url (o_service (h_opts example_handle)) (h_cursor example_handle) = Inr url"
    using example_url by blast
  have live: "\<not> h_stopped example_handle" "\<not> h_socket example_handle"
    by (simp_all add: example_handle_def)
  have "double_delay example_handle = example_handle\<lparr>h_retry_delay_ms := 6000\<rparr>"
    by (simp add: double_delay_def example_handle_def example_opts_def max_delay_def Let_def)
  then have "subscribe_run toy ref_evp (AT_TOP, example_handle)
      ((([] @ [CONNECT_FAILED (Some url)]) @ []) @ [])
      (AT_TOP, example_handle\<lparr>h_retry_delay_ms := 6000\<rparr>)"
    using run_more [OF run_more [OF run_more [OF run_one [OF top_connect [OF live]]
        connect_failed [OF url, of toy ref_evp WF_ERR_NETWORK 0]]
        wait_over [OF live(1), of _ "retry_deadline 0 example_handle" 0]] waited [OF live(1)]]
    by (simp add: retry_remaining_def on_error_def) (simp add: example_handle_def example_opts_def)
  then show ?thesis by auto
qed

lemma delivering_run:
  "\<exists>url es h'. subscribe_run toy ref_evp (AT_TOP, example_handle) (CONNECT_OK url # es) (AT_TOP, h') \<and>
     delivered es = [example_event] \<and> length (received es) = 1"
proof -
  obtain url where url: "build_url (o_service (h_opts example_handle)) (h_cursor example_handle) = Inr url"
    using example_url by blast
  have live: "\<not> h_stopped example_handle" "\<not> h_socket example_handle"
    by (simp_all add: example_handle_def)
  have "event_ok example_event"
    by (simp add: event_ok_def example_event_def example_cid_def op_ok_def body_simps c_str_def ascii_def)
  then obtain data where data: "wf_subscribe_decode_frame toy ref_evp data = Inr example_event"
    using publish_decode [OF ref.platform_laws_axioms ref_builder.builder_laws_axioms
        ref_evp.evp_laws_axioms] by blast
  let ?h = "example_handle\<lparr>h_socket := True, h_retry_delay_ms := initial_delay (h_opts example_handle),
    h_last_ping_ms := 0\<rparr>"
  obtain h' es where m: "handle_message toy ref_evp 0 True data ?h = (h', es)" by (rule prod.exhaust)
  have "subscribe_run toy ref_evp (AT_TOP, example_handle)
      (CONNECT_OK url # RECEIVED True data # es) (AT_TOP, h')"
    using run_more [OF run_more [OF run_one [OF top_connect [OF live]] connect_ok [OF url, of toy ref_evp 0]] receive_message [OF m]]
    by simp
  moreover have "delivered (RECEIVED True data # es) = [example_event]"
    using handle_message_decoded [OF m] data by (simp add: decoded_def)
  moreover have "length (received (RECEIVED True data # es)) = 1"
    using handle_message_keeps [OF m] by simp
  ultimately show ?thesis by blast
qed

text \<open>
  The waiting loop computes what is left from two readings of the clock. If the deadline passes
  between them the subtraction wraps, and the thread sleeps for about 584 million years.
\<close>

lemma retry_wait_wraps: "0 < d \<Longrightarrow> retry_remaining d (d - 1) (d + 1) = 0xffffffffffffffff"
  by (auto simp: retry_remaining_def word_less_nat_alt unat_minus_one unat_gt_0)

text \<open>The limit is computed at 32 bits: 2^29 seconds give a limit of 0, and the delay never grows.\<close>

lemma max_delay_wraps: "max_delay (example_opts\<lparr>o_max_retry_seconds := 0x20000000\<rparr>) = 0"
  by (simp add: max_delay_def example_opts_def)

section \<open>Properties\<close>

text \<open>
  C27: In every run of the loop, whatever the network, the clock and other threads do, the delay
  before the next attempt is exactly the configured initial delay doubled once for every failed
  attempt since the last connection (the one still being waited for not counted), cut at the
  configured limit. So it never drops below the initial delay and never exceeds the limit, or the
  initial delay where that is larger.
\<close>

theorem subscribe_backoff:
  assumes "wf_subscribe_start opts = Inr h" "subscribe_run P E (AT_TOP, h) es (pc', h')" "pc' \<noteq> DONE"
  shows "unat (h_retry_delay_ms h') = backoff_ms opts (count_fails 0 es - pending pc') \<and>
    unat (initial_delay opts) \<le> unat (h_retry_delay_ms h') \<and>
    unat (h_retry_delay_ms h') \<le> max (unat (initial_delay opts)) (unat (max_delay opts))"
proof -
  have "unat (h_retry_delay_ms h') = backoff_ms opts (count_fails 0 es - pending pc')"
    using delay_inv_run [OF assms(2)] start_handle [OF assms(1)] opts_run [OF assms(2)] assms(3)
    by (simp add: delay_inv_def)
  then show ?thesis by (auto simp: backoff_ms_def Let_def min_def)
qed

theorem subscribe_backoff_witness:
  "\<exists>es. subscribe_run toy ref_evp (AT_TOP, example_handle) es
       (AT_TOP, example_handle\<lparr>h_retry_delay_ms := 6000\<rparr>) \<and>
     6000 = backoff_ms example_opts (count_fails 0 es)"
proof -
  obtain url where run: "subscribe_run toy ref_evp (AT_TOP, example_handle) [CONNECT_FAILED (Some url)]
     (AT_TOP, example_handle\<lparr>h_retry_delay_ms := 6000\<rparr>)"
    using failing_run by blast
  with subscribe_backoff [OF example_start run] show ?thesis by auto
qed

text \<open>
  C6: Reconnecting loses nothing and repeats as little as it can: at any time the cursor is the
  highest sequence number of a repository event delivered since the server last reported an
  outdated cursor (or the cursor the subscription started with), and every connection that was made
  asked for exactly that cursor as of its time.
\<close>

theorem subscribe_resumes:
  assumes "wf_subscribe_start opts = Inr h" "subscribe_run P E (AT_TOP, h) es (pc', h')"
  shows "sint (h_cursor h') = resume_point (sint (h_cursor h)) (delivered es) \<and>
    (\<forall>es1 url es2. es = es1 @ CONNECT_OK url # es2 \<longrightarrow>
       build_url (o_service opts) (word_of_int (resume_point (sint (h_cursor h)) (delivered es1))) = Inr url)"
  using run_cursor [OF assms(2)] run_connect [OF assms(2)] start_handle(1) [OF assms(1)] by simp

theorem subscribe_resumes_witness:
  "\<exists>es h'. subscribe_run toy ref_evp (AT_TOP, example_handle) es (AT_TOP, h') \<and>
     sint (h_cursor h') = resume_point 5 [example_event] \<and> resume_point 5 [example_event] = 70000"
proof -
  obtain url es h' where run: "subscribe_run toy ref_evp (AT_TOP, example_handle) (CONNECT_OK url # es) (AT_TOP, h')"
    "delivered es = [example_event]"
    using delivering_run by blast
  have "sint (h_cursor example_handle) = 5" by (simp add: example_handle_def)
  moreover have "resume_point 5 [example_event] = 70000" by (simp add: resume_point_def example_event_def)
  ultimately show ?thesis
    using subscribe_resumes [OF example_start run(1)] run by auto
qed

text \<open>
  C28: The events that the loop hands to the callback are, in order and without omission, what the
  public decoder \<^verbatim>\<open>wf_subscribe_decode_frame\<close> makes of the binary messages received; text messages and
  frames that do not decode are skipped and do not end the subscription.
\<close>

theorem subscribe_delivers:
  assumes "subscribe_run P E c es c'"
  shows "delivered es = concat (map (decoded P E) (received es))"
  using assms by (rule run_decoded)

theorem subscribe_delivers_witness:
  "\<exists>es c'. subscribe_run toy ref_evp (AT_TOP, example_handle) es c' \<and>
     [example_event] = concat (map (decoded toy ref_evp) (received es)) \<and> length (received es) = 1"
proof -
  obtain url es h' where run: "subscribe_run toy ref_evp (AT_TOP, example_handle) (CONNECT_OK url # es) (AT_TOP, h')"
    "delivered es = [example_event]" "length (received es) = 1"
    using delivering_run by blast
  with subscribe_delivers [OF run(1)] show ?thesis
    by (intro exI [of _ "CONNECT_OK url # es"] exI [of _ "(AT_TOP, h')"]) simp
qed

text \<open>
  C29: A stopped subscription ends: after \<^verbatim>\<open>wf_subscribe_stop\<close> the loop takes at most four more steps, in which it
  delivers at most one event. It makes no connection attempt, unless it had already tested the flag and was
  about to connect when the other thread set it, and then only that one; and until its end it is never stuck.
  (A step is a test of the flag or a call that returns; a sleep in progress is not interrupted.)
\<close>

theorem subscribe_stop_ends:
  assumes "loop_runs P E n (pc, wf_subscribe_stop h) es (pc', h')"
  shows "n \<le> 4 \<and> length (delivered es) \<le> 1 \<and>
    length (filter is_connect es) \<le> (if pc = CONNECTING then 1 else 0) \<and>
    (pc' = DONE \<or> (\<exists>es' c'. loop_step P E (pc', h') es' c'))"
proof -
  have "steps_left pc \<le> 4" by (cases pc) simp_all
  moreover have "of_bool b \<le> (1 :: nat)" for b by simp
  ultimately show ?thesis
    using stopped_runs [OF assms] loop_progress [of pc' P E h'] by (auto simp: wf_subscribe_stop_def split: if_splits intro: order_trans)
qed

text \<open>The stop comes after the test at the top of the loop: the attempt is made, its failure waits no time, and the
  loop ends.\<close>

theorem subscribe_stop_ends_witness:
  "\<exists>url es h'. loop_runs toy ref_evp 3 (CONNECTING, wf_subscribe_stop example_handle) (CONNECT_FAILED (Some url) # es) (DONE, h') \<and>
     length (filter is_connect (CONNECT_FAILED (Some url) # es)) \<le> 1"
proof -
  let ?h = "wf_subscribe_stop example_handle"
  have stopped: "h_stopped ?h" by (simp add: wf_subscribe_stop_def)
  obtain url where url: "build_url (o_service (h_opts ?h)) (h_cursor ?h) = Inr url"
    using example_url by (auto simp: wf_subscribe_stop_def)
  have "loop_runs toy ref_evp 3 (CONNECTING, ?h) (CONNECT_FAILED (Some url) # on_error ?h WF_ERR_NETWORK) (DONE, ?h\<lparr>h_socket := False\<rparr>)"
    using loop_runs.more [OF connect_failed [OF url, of toy ref_evp WF_ERR_NETWORK 0] loop_runs.more [OF wait_stopped [OF stopped]
        loop_runs.more [OF waited_stopped [OF stopped] loop_runs.none]]] by (simp add: numeral_3_eq_3)
  with subscribe_stop_ends [OF this] show ?thesis by auto
qed

end
