(* ===== verification/Record_Builder.thy ===== *)
theory Record_Builder
  imports Complex_Main Cbor
begin

text \<open>
  The record builder of \<^verbatim>\<open>src/repo/record.c\<close>: a JSON object is checked against a schema and written as
  a DAG-CBOR record with its \<^verbatim>\<open>$type\<close>. The JSON parser is cJSON, which is not part of the repository:
  \<^verbatim>\<open>cJSON_Parse\<close> is an argument, and a parsed value is a \<open>cJSON\<close>. Schemas refer to each other by
  pointers and may be recursive, so they live in a store indexed by addresses. C strings are the
  bytes before their terminating NUL.
\<close>

section \<open>JSON values and schemas\<close>

text \<open>A \<^verbatim>\<open>double\<close>: a finite one is a rational number.\<close>

datatype c_double = Finite rat | Not_finite

datatype cJSON =
    cJSON_Null
  | cJSON_Bool bool
  | cJSON_Number c_double
  | cJSON_String bytes
  | cJSON_Array "cJSON list"
  | cJSON_Object "(bytes \<times> cJSON) list"

text \<open>\<^verbatim>\<open>cJSON_GetObjectItemCaseSensitive\<close>: the first member of that name.\<close>

fun cJSON_GetObjectItemCaseSensitive :: "cJSON \<Rightarrow> string \<Rightarrow> cJSON option" where
  "cJSON_GetObjectItemCaseSensitive (cJSON_Object kvs) key = map_of kvs (ascii key)"
| "cJSON_GetObjectItemCaseSensitive _ key = None"

datatype wf_record_value_type =
  WF_RECORD_STRING | WF_RECORD_INTEGER | WF_RECORD_BOOLEAN | WF_RECORD_ARRAY | WF_RECORD_OBJECT

type_synonym schema_ptr = nat

record wf_record_property =
  p_name :: "bytes option"
  p_schema :: "schema_ptr option"
  p_required :: bool

record wf_record_schema =
  r_type :: wf_record_value_type
  r_properties :: "wf_record_property list option"
  r_items :: "schema_ptr option"

type_synonym schema_store = "schema_ptr \<Rightarrow> wf_record_schema"

section \<open>Conversion\<close>

text \<open>
  The property table. \<open>None\<close> is a null table with a non-zero count, which \<^verbatim>\<open>convert_object\<close> refuses
  (\<open>object_ok\<close>); a null table with the count 0 is \<open>Some []\<close>.
\<close>

definition table :: "wf_record_schema \<Rightarrow> wf_record_property list" where
  "table s = (case r_properties s of None \<Rightarrow> [] | Some ps \<Rightarrow> ps)"

definition property :: "wf_record_schema \<Rightarrow> bytes \<Rightarrow> wf_record_property option" where
  "property s name = find (\<lambda>p. p_name p = Some name) (table s)"

definition pair_cmp :: "wf_cbor_item \<times> wf_cbor_item \<Rightarrow> wf_cbor_item \<times> wf_cbor_item \<Rightarrow> int" where
  "pair_cmp a b =
     (case (fst a, fst b) of
        (WF_CBOR_STRING x, WF_CBOR_STRING y) \<Rightarrow>
          (if length x \<noteq> length y then (if length x < length y then -1 else 1) else memcmp x y)
      | _ \<Rightarrow> 0)"

text \<open>
  The checks of \<^verbatim>\<open>convert_object\<close> before it builds anything: every member is declared and occurs once,
  every property is well-formed and declared once, and the required ones are there. All of them
  fail with \<^verbatim>\<open>WF_ERR_INVALID_ARG\<close>.
\<close>

fun members_ok :: "wf_record_schema \<Rightarrow> (bytes \<times> cJSON) list \<Rightarrow> bool" where
  "members_ok s [] = True"
| "members_ok s ((name, v) # kvs) =
     (property s name \<noteq> None \<and> \<not> list_ex (\<lambda>(other, _). other = name) kvs \<and> members_ok s kvs)"

fun properties_ok :: "(bytes \<times> cJSON) list \<Rightarrow> wf_record_property list \<Rightarrow> bool" where
  "properties_ok kvs [] = True"
| "properties_ok kvs (p # ps) =
     (case p_name p of
        None \<Rightarrow> False
      | Some name \<Rightarrow>
          p_schema p \<noteq> None \<and> (p_required p \<longrightarrow> list_ex (\<lambda>(k, _). k = name) kvs) \<and>
          \<not> list_ex (\<lambda>q. p_name q = Some name) ps \<and> properties_ok kvs ps)"

definition object_ok :: "wf_record_schema \<Rightarrow> (bytes \<times> cJSON) list \<Rightarrow> bool" where
  "object_ok s kvs \<longleftrightarrow> r_properties s \<noteq> None \<and> members_ok s kvs \<and> properties_ok kvs (table s)"

text \<open>\<^verbatim>\<open>WF_RECORD_INTEGER\<close>: whole numbers within the integers that a \<^verbatim>\<open>double\<close> holds exactly.\<close>

definition convert_integer :: "c_double \<Rightarrow> wf_cbor_item res" where
  "convert_integer d =
     (case d of
        Not_finite \<Rightarrow> Inl WF_ERR_INVALID_ARG
      | Finite x \<Rightarrow>
          (if of_int \<lfloor>x\<rfloor> \<noteq> x \<or> 9007199254740991 < \<bar>x\<bar> then Inl WF_ERR_INVALID_ARG
           else if 0 \<le> x then Inr (WF_CBOR_UNSIGNED (word_of_int \<lfloor>x\<rfloor>))
           else Inr (WF_CBOR_NEGATIVE (word_of_int (- 1 - \<lfloor>x\<rfloor>)))))"

function (sequential) convert :: "schema_store \<Rightarrow> cJSON \<Rightarrow> schema_ptr \<Rightarrow> wf_cbor_item res"
  and convert_object :: "schema_store \<Rightarrow> (bytes \<times> cJSON) list \<Rightarrow> schema_ptr \<Rightarrow> wf_cbor_item res"
  and convert_items :: "schema_store \<Rightarrow> cJSON list \<Rightarrow> schema_ptr \<Rightarrow> wf_cbor_item list res"
  and convert_members ::
    "schema_store \<Rightarrow> (bytes \<times> cJSON) list \<Rightarrow> schema_ptr \<Rightarrow> (wf_cbor_item \<times> wf_cbor_item) list res" where
  "convert S j s =
     (case r_type (S s) of
        WF_RECORD_STRING \<Rightarrow>
          (case j of cJSON_String v \<Rightarrow> Inr (WF_CBOR_STRING v) | _ \<Rightarrow> Inl WF_ERR_INVALID_ARG)
      | WF_RECORD_INTEGER \<Rightarrow>
          (case j of cJSON_Number d \<Rightarrow> convert_integer d | _ \<Rightarrow> Inl WF_ERR_INVALID_ARG)
      | WF_RECORD_BOOLEAN \<Rightarrow>
          (case j of cJSON_Bool b \<Rightarrow> Inr (WF_CBOR_SIMPLE (if b then 21 else 20))
                   | _ \<Rightarrow> Inl WF_ERR_INVALID_ARG)
      | WF_RECORD_ARRAY \<Rightarrow>
          (case (j, r_items (S s)) of
             (cJSON_Array js, Some items) \<Rightarrow>
               (case convert_items S js items of
                  Inl e \<Rightarrow> Inl e
                | Inr xs \<Rightarrow> Inr (WF_CBOR_ARRAY xs))
           | _ \<Rightarrow> Inl WF_ERR_INVALID_ARG)
      | WF_RECORD_OBJECT \<Rightarrow>
          (case j of cJSON_Object kvs \<Rightarrow> convert_object S kvs s | _ \<Rightarrow> Inl WF_ERR_INVALID_ARG))"
| "convert_object S kvs s =
     (if \<not> object_ok (S s) kvs then Inl WF_ERR_INVALID_ARG
      else case convert_members S kvs s of
             Inl e \<Rightarrow> Inl e
           | Inr pairs \<Rightarrow> Inr (WF_CBOR_MAP (qsort pair_cmp pairs)))"
| "convert_items S [] items = Inr []"
| "convert_items S (j # js) items =
     (case convert S j items of
        Inl e \<Rightarrow> Inl e
      | Inr x \<Rightarrow> (case convert_items S js items of Inl e \<Rightarrow> Inl e | Inr xs \<Rightarrow> Inr (x # xs)))"
| "convert_members S [] s = Inr []"
| "convert_members S ((name, v) # kvs) s =
     (case Option.bind (property (S s) name) p_schema of
        None \<Rightarrow> Inl WF_ERR_INVALID_ARG
      | Some ps \<Rightarrow>
          (case convert S v ps of
             Inl e \<Rightarrow> Inl e
           | Inr x \<Rightarrow>
               (case convert_members S kvs s of
                  Inl e \<Rightarrow> Inl e
                | Inr pairs \<Rightarrow> Inr ((WF_CBOR_STRING name, x) # pairs))))"
  by pat_completeness auto
termination
  by (relation "measures [\<lambda>x. case x of
          Inl (Inl (_, j, _)) \<Rightarrow> size j
        | Inl (Inr (_, kvs, _)) \<Rightarrow> size_list (size_prod (\<lambda>_. 0) size) kvs
        | Inr (Inl (_, js, _)) \<Rightarrow> size_list size js
        | Inr (Inr (_, kvs, _)) \<Rightarrow> size_list (size_prod (\<lambda>_. 0) size) kvs,
        \<lambda>x. case x of Inl (Inr _) \<Rightarrow> 1 | _ \<Rightarrow> 0]") auto

declare convert.simps [simp del] convert_object.simps [simp del]

definition wf_record_encode_json ::
  "(bytes \<Rightarrow> cJSON option) \<Rightarrow> schema_store \<Rightarrow> bytes \<Rightarrow> schema_ptr \<Rightarrow> bytes \<Rightarrow> bytes res" where
  "wf_record_encode_json cJSON_Parse S collection schema json =
     (if collection = [] \<or> r_type (S schema) \<noteq> WF_RECORD_OBJECT then Inl WF_ERR_INVALID_ARG
      else case cJSON_Parse json of
             Some (cJSON_Object kvs) \<Rightarrow>
               (if list_ex (\<lambda>(k, _). k = ascii ''$type'') kvs then Inl WF_ERR_INVALID_ARG
                else case convert_object S kvs schema of
                       Inl e \<Rightarrow> Inl e
                     | Inr (WF_CBOR_MAP pairs) \<Rightarrow>
                         (case wf_cbor_serialize (WF_CBOR_MAP (qsort pair_cmp
                                 (pairs @ [(WF_CBOR_STRING (ascii ''$type''), WF_CBOR_STRING collection)]))) of
                            None \<Rightarrow> Inl WF_ERR_ALLOC
                          | Some out \<Rightarrow> Inr out)
                     | Inr _ \<Rightarrow> Inl WF_ERR_INVALID_ARG)
           | _ \<Rightarrow> Inl WF_ERR_INVALID_ARG)"

end
