(* ===== verification/Record_Props.thy ===== *)
theory Record_Props
  imports Record_Builder Cbor_Order Ref_Platform
begin

text \<open>
  A record built from JSON is canonical DAG-CBOR that reads back as the JSON value it was made of,
  with its \<^verbatim>\<open>$type\<close> added.
\<close>

section \<open>JSON values and the items that stand for them\<close>

lemma size_zip_member [termination_simp]:
  "(a, b) \<in> set (zip xs js) \<Longrightarrow> size a < Suc (size_list size xs)"
  by (auto dest!: set_zip_leftD simp: size_list_estimation' less_Suc_eq_le)

text \<open>Which item stands for which JSON value; the members of an object are not ordered.\<close>

fun represents :: "wf_cbor_item \<Rightarrow> cJSON \<Rightarrow> bool" where
  "represents (WF_CBOR_STRING s) (cJSON_String t) \<longleftrightarrow> s = t"
| "represents (WF_CBOR_UNSIGNED n) (cJSON_Number (Finite x)) \<longleftrightarrow> x = of_int (uint n)"
| "represents (WF_CBOR_NEGATIVE n) (cJSON_Number (Finite x)) \<longleftrightarrow> x = of_int (- 1 - uint n)"
| "represents (WF_CBOR_SIMPLE v) (cJSON_Bool b) \<longleftrightarrow> v = (if b then 21 else 20)"
| "represents (WF_CBOR_ARRAY xs) (cJSON_Array js) \<longleftrightarrow>
     length xs = length js \<and> list_all (\<lambda>(x, j). represents x j) (zip xs js)"
| "represents (WF_CBOR_MAP ps) (cJSON_Object kvs) \<longleftrightarrow>
     length ps = length kvs \<and>
     list_all (\<lambda>(k, j). list_ex (\<lambda>(k', x). k' = WF_CBOR_STRING k \<and> represents x j) ps) kvs"
| "represents _ _ \<longleftrightarrow> False"

text \<open>JSON values whose strings are valid text and whose sizes fit 64 bits; their nesting.\<close>

fun json_ok :: "platform \<Rightarrow> cJSON \<Rightarrow> bool" where
  "json_ok P (cJSON_String s) \<longleftrightarrow> canonical P (WF_CBOR_STRING s)"
| "json_ok P (cJSON_Array js) \<longleftrightarrow> length js < 2 ^ 64 \<and> list_all (json_ok P) js"
| "json_ok P (cJSON_Object kvs) \<longleftrightarrow> length kvs < 2 ^ 64 \<and>
     list_all (\<lambda>(k, j). canonical P (WF_CBOR_STRING k) \<and> json_ok P j) kvs"
| "json_ok P _ \<longleftrightarrow> True"

fun json_depth :: "cJSON \<Rightarrow> nat" where
  "json_depth (cJSON_Array js) = Suc (Max (set (0 # map json_depth js)))"
| "json_depth (cJSON_Object kvs) = Suc (Max (set (0 # map (\<lambda>(k, j). json_depth j) kvs)))"
| "json_depth _ = 1"

definition stands_for :: "platform \<Rightarrow> wf_cbor_item \<Rightarrow> cJSON \<Rightarrow> bool" where
  "stands_for P x j \<longleftrightarrow> canonical P x \<and> cbor_nesting (to_libcbor x) \<le> json_depth j \<and> represents x j"

section \<open>Conversion\<close>

lemma json_depth_pos: "1 \<le> json_depth j"
  by (cases j) simp_all

lemma uint_small: "0 \<le> m \<Longrightarrow> m < 18446744073709551616 \<Longrightarrow> uint (word_of_int m :: u64) = m"
  by (simp add: uint_word_of_int_eq take_bit_int_eq_self)

lemma list_all2_left: "list_all2 R xs ys \<Longrightarrow> x \<in> set xs \<Longrightarrow> \<exists>y \<in> set ys. R x y"
  by (induction rule: list_all2_induct) auto

lemma list_all2_right: "list_all2 R xs ys \<Longrightarrow> y \<in> set ys \<Longrightarrow> \<exists>x \<in> set xs. R x y"
  by (induction rule: list_all2_induct) auto

lemma integer_stands_for: "convert_integer d = Inr x \<Longrightarrow> stands_for P x (cJSON_Number d)"
proof (cases d)
  case (Finite r)
  assume conv: "convert_integer d = Inr x"
  let ?n = "\<lfloor>r\<rfloor>"
  have n: "r = of_int ?n" "\<bar>r\<bar> \<le> 9007199254740991"
    using conv Finite by (auto simp: convert_integer_def split: if_splits)
  then have small: "\<bar>?n\<bar> \<le> 9007199254740991" by linarith
  have "uint (word_of_int ?n :: u64) = ?n" if "0 \<le> ?n"
    using small that by (intro uint_small) auto
  moreover have "uint (word_of_int (- 1 - ?n) :: u64) = - 1 - ?n" if "?n < 0"
    using small that by (intro uint_small) linarith+
  ultimately show ?thesis
    using conv n Finite
    by (auto simp: convert_integer_def stands_for_def split: if_splits)
qed (simp add: convert_integer_def)

lemma array_stands_for:
  assumes "list_all2 (stands_for P) xs js" "length js < 2 ^ 64"
  shows "stands_for P (WF_CBOR_ARRAY xs) (cJSON_Array js)"
proof -
  have len: "length xs = length js" using assms(1) by (rule list_all2_lengthD)
  have "cbor_nesting (to_libcbor x) \<le> Max (insert 0 (json_depth ` set js))" if "x \<in> set xs" for x
  proof -
    from list_all2_left [OF assms(1) that] obtain j where "j \<in> set js" "stands_for P x j" by blast
    then have "cbor_nesting (to_libcbor x) \<le> json_depth j" by (simp add: stands_for_def)
    also have "\<dots> \<le> Max (insert 0 (json_depth ` set js))" using \<open>j \<in> set js\<close> by (intro Max_ge) auto
    finally show ?thesis .
  qed
  then have "Max (insert 0 ((\<lambda>x. cbor_nesting (to_libcbor x)) ` set xs)) \<le> Max (insert 0 (json_depth ` set js))"
    by (subst Max_le_iff) auto
  moreover have "list_all (canonical P) xs" "list_all (\<lambda>(x, j). represents x j) (zip xs js)"
    using assms(1) len by (auto simp: list_all2_conv_all_nth list_all_length stands_for_def)
  ultimately show ?thesis
    using len assms(2) by (simp add: stands_for_def image_image)
qed

definition member_stands_for :: "platform \<Rightarrow> wf_cbor_item \<times> wf_cbor_item \<Rightarrow> bytes \<times> cJSON \<Rightarrow> bool" where
  "member_stands_for P p m \<longleftrightarrow> fst p = WF_CBOR_STRING (fst m) \<and> canonical P (fst p) \<and>
     stands_for P (snd p) (snd m)"

lemma pair_cmp_encoding:
  assumes "canonical P (WF_CBOR_STRING x)" "canonical P (WF_CBOR_STRING y)"
  shows "pair_cmp (WF_CBOR_STRING x, v) (WF_CBOR_STRING y, w) \<le> 0 \<longleftrightarrow>
    rfc_enc (to_libcbor (WF_CBOR_STRING x)) \<le> rfc_enc (to_libcbor (WF_CBOR_STRING y))"
  using key_cmp_encoding [of x y True "to_libcbor v" True "to_libcbor w"] assms
  by (simp add: pair_cmp_def canonical_pair_cmp_def)

lemma member_keys_distinct:
  assumes "list_all2 (member_stands_for P) pairs kvs" "distinct (map fst kvs)"
    "set ps = set pairs" "length ps = length pairs"
  shows "distinct (map (\<lambda>p. rfc_enc (to_libcbor (fst p))) ps)"
proof -
  let ?f = "\<lambda>p. rfc_enc (to_libcbor (fst p))"
  have "map ?f pairs = map (\<lambda>k. rfc_enc (CBOR_TYPE_STRING True k)) (map fst kvs)"
    using assms(1) by (induction rule: list_all2_induct) (auto simp: member_stands_for_def)
  moreover have "\<forall>k \<in> set (map fst kvs). length k < 2 ^ 64"
    using list_all2_right [OF assms(1)] by (fastforce simp: member_stands_for_def)
  then have "inj_on (\<lambda>k. rfc_enc (CBOR_TYPE_STRING True k)) (set (map fst kvs))"
    using string_enc_inj by (blast intro: inj_onI)
  ultimately have "distinct (map ?f pairs)"
    using assms(2) by (simp only: distinct_map [of _ "map fst kvs"])
  then have "card (set (map ?f ps)) = length (map ?f ps)"
    using distinct_card [of "map ?f pairs"] assms(3,4) by simp
  then show ?thesis by (rule card_distinct)
qed

lemma member_nesting:
  assumes "\<And>p. p \<in> set ps \<Longrightarrow> \<exists>m \<in> set kvs. member_stands_for P p m"
  shows "cbor_nesting (to_libcbor (WF_CBOR_MAP (qsort pair_cmp ps))) \<le> json_depth (cJSON_Object kvs)"
proof -
  let ?n = "\<lambda>p. max (cbor_nesting (to_libcbor (fst p))) (cbor_nesting (to_libcbor (snd p)))"
  have "?n p \<le> Max (insert 0 ((\<lambda>m. json_depth (snd m)) ` set kvs))" if "p \<in> set ps" for p
  proof -
    from assms [OF that] obtain m where m: "m \<in> set kvs" "member_stands_for P p m" by blast
    then have "?n p \<le> json_depth (snd m)"
      using json_depth_pos [of "snd m"] by (auto simp: member_stands_for_def stands_for_def)
    also have "\<dots> \<le> Max (insert 0 ((\<lambda>m. json_depth (snd m)) ` set kvs))"
      using m(1) by (intro Max_ge) auto
    finally show ?thesis .
  qed
  then have "Max (insert 0 (?n ` set ps)) \<le> Max (insert 0 ((\<lambda>m. json_depth (snd m)) ` set kvs))"
    by (subst Max_le_iff) auto
  then show ?thesis by (simp add: image_image case_prod_unfold)
qed

lemma object_stands_for:
  assumes m: "list_all2 (member_stands_for P) pairs kvs" and d: "distinct (map fst kvs)"
    and ps: "set ps = set pairs" "length ps = length pairs" and len: "length kvs < 2 ^ 64"
  shows "stands_for P (WF_CBOR_MAP (qsort pair_cmp ps)) (cJSON_Object kvs)"
proof -
  let ?f = "\<lambda>p. rfc_enc (to_libcbor (fst p))"
  note src = list_all2_left [OF m, folded ps(1)] and tgt = list_all2_right [OF m, folded ps(1)]
  have lens: "length ps = length kvs" using ps(2) list_all2_lengthD [OF m] by simp
  have key: "\<exists>k. fst p = WF_CBOR_STRING k \<and> canonical P (WF_CBOR_STRING k)" if "p \<in> set ps" for p
    using src [OF that] by (auto simp: member_stands_for_def)
  have "sorted (map ?f (qsort pair_cmp ps))"
  proof (rule sorted_qsort)
    fix a b
    assume "a \<in> set ps" "b \<in> set ps"
    from this [THEN key] obtain x y where "fst a = WF_CBOR_STRING x" "canonical P (WF_CBOR_STRING x)"
      "fst b = WF_CBOR_STRING y" "canonical P (WF_CBOR_STRING y)" by blast
    then show "pair_cmp a b \<le> 0 \<longleftrightarrow> ?f a \<le> ?f b"
      using pair_cmp_encoding [of P x y "snd a" "snd b"] by (cases a; cases b) simp
  qed
  moreover have "distinct (map ?f (qsort pair_cmp ps))"
    unfolding distinct_qsort by (rule member_keys_distinct [OF m d ps])
  ultimately have "sorted_wrt (<) (map ?f (qsort pair_cmp ps))"
    by (simp add: strict_sorted_iff)
  then have "canonical P (WF_CBOR_MAP (qsort pair_cmp ps))"
    using src lens len
    by (fastforce simp: list_all_iff case_prod_unfold member_stands_for_def stands_for_def)
  moreover have "cbor_nesting (to_libcbor (WF_CBOR_MAP (qsort pair_cmp ps))) \<le> json_depth (cJSON_Object kvs)"
    using member_nesting [OF src] by simp
  moreover have "represents (WF_CBOR_MAP (qsort pair_cmp ps)) (cJSON_Object kvs)"
    using tgt lens by (fastforce simp: list_all_iff list_ex_iff member_stands_for_def stands_for_def)
  ultimately show ?thesis by (simp add: stands_for_def)
qed

lemma members_distinct: "members_ok s kvs \<Longrightarrow> distinct (map fst kvs)"
  by (induction s kvs rule: members_ok.induct) (auto simp: list_ex_iff)

lemma convert_stands_for:
  "convert S j s = Inr x \<Longrightarrow> json_ok P j \<Longrightarrow> stands_for P x j"
  "convert_object S kvs s = Inr x \<Longrightarrow> json_ok P (cJSON_Object kvs) \<Longrightarrow>
     stands_for P x (cJSON_Object kvs) \<and>
     (\<exists>pairs. x = WF_CBOR_MAP (qsort pair_cmp pairs) \<and> list_all2 (member_stands_for P) pairs kvs)"
  "convert_items S js s = Inr xs \<Longrightarrow> list_all (json_ok P) js \<Longrightarrow> list_all2 (stands_for P) xs js"
  "convert_members S kvs s = Inr pairs \<Longrightarrow>
     list_all (\<lambda>(k, j). canonical P (WF_CBOR_STRING k) \<and> json_ok P j) kvs \<Longrightarrow>
     list_all2 (member_stands_for P) pairs kvs"
proof (induction S j s and S kvs s and S js s and S kvs s arbitrary: x and x and xs and pairs
    rule: convert_convert_object_convert_items_convert_members.induct)
  case (1 S j s)
  then show ?case
    by (auto simp: convert.simps integer_stands_for stands_for_def [of P "WF_CBOR_STRING _"]
        stands_for_def [of P "WF_CBOR_SIMPLE _"] intro!: array_stands_for
        split: wf_record_value_type.splits cJSON.splits option.splits sum.splits prod.splits)
next
  case (2 S kvs s)
  then obtain pairs where c: "convert_members S kvs s = Inr pairs" "object_ok (S s) kvs"
    "x = WF_CBOR_MAP (qsort pair_cmp pairs)"
    by (auto simp: convert_object.simps split: if_splits sum.splits)
  then have m: "list_all2 (member_stands_for P) pairs kvs" using 2 by simp
  have d: "distinct (map fst kvs)" using c(2) by (auto simp: object_ok_def intro: members_distinct)
  have "stands_for P x (cJSON_Object kvs)"
    using object_stands_for [OF m d refl refl] "2.prems" c(3) by simp
  with c(3) m show ?case by blast
qed (auto simp: member_stands_for_def split: sum.splits option.splits)

lemma json_depth_snoc:
  "json_depth (cJSON_Object (kvs @ [(k, v)])) = max (json_depth (cJSON_Object kvs)) (Suc (json_depth v))"
proof -
  let ?A = "set (0 # map (\<lambda>(k, j). json_depth j) kvs)"
  have "set (0 # map (\<lambda>(k, j). json_depth j) (kvs @ [(k, v)])) = insert (json_depth v) ?A" by auto
  moreover have "Max (insert (json_depth v) ?A) = max (json_depth v) (Max ?A)" by (rule Max_insert) auto
  ultimately show ?thesis by (simp only: json_depth.simps max_Suc_Suc max.commute)
qed

section \<open>Which values conform to a schema\<close>

text \<open>
  A schema is usable when its properties have different names and point to schemas; an object
  conforms to it when its members have different names, are declared and conform, and the required
  ones are there.
\<close>

definition usable :: "wf_record_schema \<Rightarrow> bool" where
  "usable s \<longleftrightarrow> r_properties s \<noteq> None \<and> distinct (map p_name (table s)) \<and>
     (\<forall>p \<in> set (table s). p_name p \<noteq> None \<and> p_schema p \<noteq> None)"

fun conforms :: "schema_store \<Rightarrow> cJSON \<Rightarrow> schema_ptr \<Rightarrow> bool" where
  "conforms S cJSON_Null s \<longleftrightarrow> False"
| "conforms S (cJSON_Bool b) s \<longleftrightarrow> r_type (S s) = WF_RECORD_BOOLEAN"
| "conforms S (cJSON_Number d) s \<longleftrightarrow> r_type (S s) = WF_RECORD_INTEGER \<and>
     (\<exists>n :: int. \<bar>n\<bar> \<le> 9007199254740991 \<and> d = Finite (of_int n))"
| "conforms S (cJSON_String v) s \<longleftrightarrow> r_type (S s) = WF_RECORD_STRING"
| "conforms S (cJSON_Array js) s \<longleftrightarrow> r_type (S s) = WF_RECORD_ARRAY \<and>
     (case r_items (S s) of None \<Rightarrow> False | Some items \<Rightarrow> list_all (\<lambda>j. conforms S j items) js)"
| "conforms S (cJSON_Object kvs) s \<longleftrightarrow> r_type (S s) = WF_RECORD_OBJECT \<and> usable (S s) \<and>
     distinct (map fst kvs) \<and>
     (\<forall>p \<in> set (table (S s)). p_required p \<longrightarrow> p_name p \<in> Some ` fst ` set kvs) \<and>
     list_all (\<lambda>(k, j). case Option.bind (property (S s) k) p_schema of
         None \<Rightarrow> False | Some q \<Rightarrow> conforms S j q) kvs"

definition succeeds :: "'a res \<Rightarrow> bool \<Rightarrow> bool" where
  "succeeds r b \<longleftrightarrow> (if b then \<exists>x. r = Inr x else r = Inl WF_ERR_INVALID_ARG)"

lemma has_name [simp]:
  "list_ex (\<lambda>(k, _). k = name) kvs \<longleftrightarrow> name \<in> fst ` set kvs"
  "list_ex (\<lambda>q. p_name q = n) ps \<longleftrightarrow> n \<in> p_name ` set ps"
  by (force simp: list_ex_iff)+

lemma members_ok_iff:
  "members_ok s kvs \<longleftrightarrow> distinct (map fst kvs) \<and> (\<forall>k \<in> fst ` set kvs. property s k \<noteq> None)"
  by (induction s kvs rule: members_ok.induct) auto

lemma properties_ok_iff:
  "properties_ok kvs ps \<longleftrightarrow> distinct (map p_name ps) \<and>
     (\<forall>p \<in> set ps. p_name p \<noteq> None \<and> p_schema p \<noteq> None \<and> (p_required p \<longrightarrow> p_name p \<in> Some ` fst ` set kvs))"
proof (induction ps)
  case (Cons p ps)
  then show ?case by (cases "p_name p") (auto simp: inj_image_mem_iff simp del: not_None_eq)
qed simp

lemma convert_integer_succeeds:
  "succeeds (convert_integer d) (\<exists>n :: int. \<bar>n\<bar> \<le> 9007199254740991 \<and> d = Finite (of_int n))"
proof (cases d)
  case (Finite x)
  have "(\<exists>n :: int. \<bar>n\<bar> \<le> 9007199254740991 \<and> x = of_int n) \<longleftrightarrow>
      of_int \<lfloor>x\<rfloor> = x \<and> \<bar>x\<bar> \<le> 9007199254740991"
  proof
    assume "of_int \<lfloor>x\<rfloor> = x \<and> \<bar>x\<bar> \<le> 9007199254740991"
    moreover from this have "\<bar>\<lfloor>x\<rfloor>\<bar> \<le> 9007199254740991" by linarith
    ultimately show "\<exists>n :: int. \<bar>n\<bar> \<le> 9007199254740991 \<and> x = of_int n" by metis
  qed auto
  then show ?thesis by (auto simp: Finite succeeds_def convert_integer_def)
qed (simp add: succeeds_def convert_integer_def)

lemma convert_succeeds:
  "succeeds (convert S j s) (conforms S j s)"
  "r_type (S s) = WF_RECORD_OBJECT \<Longrightarrow> succeeds (convert_object S kvs s) (conforms S (cJSON_Object kvs) s)"
  "succeeds (convert_items S js s) (list_all (\<lambda>j. conforms S j s) js)"
  "succeeds (convert_members S kvs s)
     (list_all (\<lambda>(k, j). case Option.bind (property (S s) k) p_schema of
         None \<Rightarrow> False | Some q \<Rightarrow> conforms S j q) kvs)"
proof (induction S j s and S kvs s and S js s and S kvs s
    rule: convert_convert_object_convert_items_convert_members.induct)
  case (1 S j s)
  then show ?case
    using convert_integer_succeeds
    by (cases j; cases "r_type (S s)")
      (auto simp: convert.simps succeeds_def split: option.splits sum.splits if_splits)
next
  case (2 S kvs s)
  let ?members = "list_all (\<lambda>(k, j). case Option.bind (property (S s) k) p_schema of
      None \<Rightarrow> False | Some q \<Rightarrow> conforms S j q) kvs"
  have "?members \<Longrightarrow> \<forall>k \<in> fst ` set kvs. property (S s) k \<noteq> None"
    by (fastforce simp: list_all_iff bind_eq_Some_conv split: option.splits)
  then have "conforms S (cJSON_Object kvs) s \<longleftrightarrow> object_ok (S s) kvs \<and> ?members"
    unfolding object_ok_def members_ok_iff properties_ok_iff usable_def conforms.simps "2.prems" by blast
  with "2.IH" show ?case
    by (cases "object_ok (S s) kvs"; cases ?members) (auto simp: convert_object.simps succeeds_def)
next
  case (6 S name v kvs s)
  show ?case
  proof (cases "Option.bind (property (S s) name) p_schema")
    case (Some q)
    note IH = "6.IH" [OF Some]
    show ?thesis
    proof (cases "convert S v q")
      case (Inr x)
      with IH(1) IH(2) [OF Inr] Some show ?thesis by (auto simp: succeeds_def split: sum.splits if_splits)
    qed (use IH(1) Some in \<open>auto simp: succeeds_def split: if_splits\<close>)
  qed (simp add: succeeds_def)
qed (auto simp: succeeds_def split: sum.splits if_splits)

lemma convert_simple_fits:
  "convert S j s = Inr x \<Longrightarrow> simple_fits x"
  "convert_object S kvs s = Inr x \<Longrightarrow> simple_fits x \<and> (\<exists>pairs. x = WF_CBOR_MAP pairs)"
  "convert_items S js s = Inr xs \<Longrightarrow> list_all simple_fits xs"
  "convert_members S kvs s = Inr pairs \<Longrightarrow> list_all (\<lambda>(k, v). simple_fits k \<and> simple_fits v) pairs"
proof (induction S j s and S kvs s and S js s and S kvs s arbitrary: x and x and xs and pairs
    rule: convert_convert_object_convert_items_convert_members.induct)
  case (1 S j s)
  then show ?case
    by (auto simp: convert.simps convert_integer_def
        split: wf_record_value_type.splits cJSON.splits c_double.splits option.splits sum.splits if_splits)
next
  case (2 S kvs s)
  then show ?case by (auto simp: convert_object.simps list_all_iff split: if_splits sum.splits)
qed (auto split: sum.splits option.splits)

section \<open>The property\<close>

text \<open>
  C21: What \<^verbatim>\<open>wf_record_encode_json\<close> writes is a canonical DAG-CBOR record for the JSON object it was
  given: the strict parser accepts the bytes, and the parsed item stands for the object with
  \<^verbatim>\<open>$type\<close> added, member by member (strings, whole numbers of either sign, booleans, arrays in
  order, nested objects in any order), provided its strings are valid text and it is nested at most
  65 deep.
\<close>

theorem record_encode_represents:
  assumes "platform_laws P" "cJSON_Parse json = Some (cJSON_Object kvs)"
    "json_ok P (cJSON_Object (kvs @ [(ascii ''$type'', cJSON_String collection)]))"
    "json_depth (cJSON_Object kvs) \<le> 65"
    "wf_record_encode_json cJSON_Parse S collection schema json = Inr out"
  shows "\<exists>item. wf_cbor_parse P out = Some item \<and>
    represents item (cJSON_Object (kvs @ [(ascii ''$type'', cJSON_String collection)]))"
proof -
  let ?t = "(WF_CBOR_STRING (ascii ''$type''), WF_CBOR_STRING collection)"
  let ?kvs = "kvs @ [(ascii ''$type'', cJSON_String collection)]"
  from assms(2,5) obtain pairs' where c: "convert_object S kvs schema = Inr (WF_CBOR_MAP pairs')"
    "\<not> list_ex (\<lambda>(k, _). k = ascii ''$type'') kvs"
    "wf_cbor_serialize (WF_CBOR_MAP (qsort pair_cmp (pairs' @ [?t]))) = Some out"
    by (auto simp: wf_record_encode_json_def split: if_splits sum.splits wf_cbor_item.splits option.splits)
  have "json_ok P (cJSON_Object kvs)" using assms(3) by simp
  from convert_stands_for(2) [OF c(1) this] obtain pairs where
    p: "pairs' = qsort pair_cmp pairs" "list_all2 (member_stands_for P) pairs kvs" by auto
  have "object_ok (S schema) kvs" using c(1) by (auto simp: convert_object.simps split: if_splits)
  then have d: "distinct (map fst ?kvs)"
    using members_distinct c(2) by (fastforce simp: object_ok_def list_ex_iff)
  have m: "list_all2 (member_stands_for P) (pairs @ [?t]) ?kvs"
    using p(2) assms(3) by (intro list_all2_appendI) (auto simp: member_stands_for_def stands_for_def)
  have st: "stands_for P (WF_CBOR_MAP (qsort pair_cmp (pairs' @ [?t]))) (cJSON_Object ?kvs)"
    using assms(3) by (intro object_stands_for [OF m d]) (auto simp: p(1))
  have "json_depth (cJSON_Object ?kvs) \<le> 65" using assms(4) unfolding json_depth_snoc by simp
  with st have "cbor_nesting (to_libcbor (WF_CBOR_MAP (qsort pair_cmp (pairs' @ [?t])))) \<le> 65"
    unfolding stands_for_def by linarith
  moreover have "wf_cbor_ser_write_item (WF_CBOR_MAP (qsort pair_cmp (pairs' @ [?t]))) = out"
    using c(3) by (auto simp: wf_cbor_serialize_def Let_def split: if_splits)
  ultimately show ?thesis
    using platform_laws.parse_write [OF assms(1)] st unfolding stands_for_def by blast
qed

text \<open>
  C22: \<^verbatim>\<open>wf_record_encode_json\<close> succeeds exactly when the parsed value is an object that conforms to the
  schema and does not bring its own \<^verbatim>\<open>$type\<close> (conformance: declared members only, none twice, required
  ones present, whole numbers within 2^53 - 1, nested values likewise); everything else is refused
  with \<^verbatim>\<open>WF_ERR_INVALID_ARG\<close>, and serialising never fails.
\<close>

theorem record_encode_succeeds:
  "succeeds (wf_record_encode_json cJSON_Parse S collection schema json)
     (collection \<noteq> [] \<and> (\<exists>kvs. cJSON_Parse json = Some (cJSON_Object kvs) \<and>
        ascii ''$type'' \<notin> fst ` set kvs \<and> conforms S (cJSON_Object kvs) schema))"
proof (cases "\<exists>kvs. cJSON_Parse json = Some (cJSON_Object kvs) \<and> r_type (S schema) = WF_RECORD_OBJECT")
  case True
  then obtain kvs where kvs: "cJSON_Parse json = Some (cJSON_Object kvs)" "r_type (S schema) = WF_RECORD_OBJECT"
    by blast
  note conv = convert_succeeds(2) [of S schema kvs, OF kvs(2)]
  show ?thesis
  proof (cases "convert_object S kvs schema")
    case (Inr x)
    then obtain pairs where "x = WF_CBOR_MAP pairs" "simple_fits x" using convert_simple_fits(2) by blast
    with conv kvs Inr show ?thesis
      by (auto simp: succeeds_def wf_record_encode_json_def wf_cbor_serialize_some list_all_iff
          split: if_splits)
  qed (use conv kvs in \<open>auto simp: succeeds_def wf_record_encode_json_def split: if_splits\<close>)
qed (auto simp: succeeds_def wf_record_encode_json_def split: option.splits cJSON.splits)

definition example_store :: schema_store where
  "example_store n =
     (if n = 0 then \<lparr>r_type = WF_RECORD_OBJECT,
        r_properties = Some [\<lparr>p_name = Some (ascii ''text''), p_schema = Some 1, p_required = True\<rparr>,
                             \<lparr>p_name = Some (ascii ''n''), p_schema = Some 2, p_required = False\<rparr>],
        r_items = None\<rparr>
      else if n = 1 then \<lparr>r_type = WF_RECORD_STRING, r_properties = Some [], r_items = None\<rparr>
      else \<lparr>r_type = WF_RECORD_INTEGER, r_properties = Some [], r_items = None\<rparr>)"

definition example_json :: "(bytes \<times> cJSON) list" where
  "example_json = [(ascii ''text'', cJSON_String (ascii ''hi'')), (ascii ''n'', cJSON_Number (Finite (- 3)))]"

theorem record_encode_represents_witness:
  "\<exists>out item. wf_record_encode_json (\<lambda>_. Some (cJSON_Object example_json)) example_store (ascii ''a.b.c'') 0 [] = Inr out \<and>
     wf_cbor_parse (ref_platform toy_sha) out = Some item \<and>
     represents item (cJSON_Object (example_json @ [(ascii ''$type'', cJSON_String (ascii ''a.b.c''))]))"
proof -
  let ?P = "\<lambda>_ :: bytes. Some (cJSON_Object example_json)"
  have ok: "case wf_record_encode_json ?P example_store (ascii ''a.b.c'') 0 [] of Inl _ \<Rightarrow> False | Inr _ \<Rightarrow> True"
    by code_simp
  then obtain out where out: "wf_record_encode_json ?P example_store (ascii ''a.b.c'') 0 [] = Inr out"
    by (cases "wf_record_encode_json ?P example_store (ascii ''a.b.c'') 0 []") auto
  have "\<exists>item. wf_cbor_parse (ref_platform toy_sha) out = Some item \<and>
     represents item (cJSON_Object (example_json @ [(ascii ''$type'', cJSON_String (ascii ''a.b.c''))]))"
    by (rule record_encode_represents [OF ref.platform_laws_axioms _ _ _ out])
      (simp_all add: example_json_def ref_platform_def)
  with out show ?thesis by blast
qed

end
