(* ===== verification/Sha256.thy ===== *)
theory Sha256
  imports Complex_Main Wolfram_Prelude
begin

unbundle bit_operations_syntax

text \<open>
  The SHA-256 of \<^verbatim>\<open>src/update/update_core.c\<close>, which hashes a download as it arrives. The state words and
  counters are \<^verbatim>\<open>unsigned long\<close> masked to 32 bits after every operation, hence \<open>32 word\<close>. The array
  \<^verbatim>\<open>buf\<close> with \<^verbatim>\<open>buf_len\<close> is the list of the bytes it holds. Feeding a message in any pieces gives the
  digest that FIPS 180-4 defines for the whole. The standard is stated on its own, down to its constants,
  which are the leading bits of roots of primes; that the tables of the code hold these is proved.
\<close>

section \<open>The code\<close>

type_synonym sha_regs = "u32 \<times> u32 \<times> u32 \<times> u32 \<times> u32 \<times> u32 \<times> u32 \<times> u32"

record wf_sha256 =
  sha_state :: sha_regs
  sha_count_hi :: u32
  sha_count_lo :: u32
  sha_buf :: bytes

definition ROR :: "u32 \<Rightarrow> nat \<Rightarrow> u32" where
  "ROR x n = drop_bit n x OR push_bit (32 - n) x"

text \<open>The table, by the rows of the source.\<close>

definition sha256_K :: "u32 list" where
  "sha256_K = concat [
     [0x428a2f98, 0x71374491, 0xb5c0fbcf, 0xe9b5dba5, 0x3956c25b],
     [0x59f111f1, 0x923f82a4, 0xab1c5ed5, 0xd807aa98, 0x12835b01],
     [0x243185be, 0x550c7dc3, 0x72be5d74, 0x80deb1fe, 0x9bdc06a7],
     [0xc19bf174, 0xe49b69c1, 0xefbe4786, 0x0fc19dc6, 0x240ca1cc],
     [0x2de92c6f, 0x4a7484aa, 0x5cb0a9dc, 0x76f988da, 0x983e5152],
     [0xa831c66d, 0xb00327c8, 0xbf597fc7, 0xc6e00bf3, 0xd5a79147],
     [0x06ca6351, 0x14292967, 0x27b70a85, 0x2e1b2138, 0x4d2c6dfc],
     [0x53380d13, 0x650a7354, 0x766a0abb, 0x81c2c92e, 0x92722c85],
     [0xa2bfe8a1, 0xa81a664b, 0xc24b8b70, 0xc76c51a3, 0xd192e819],
     [0xd6990624, 0xf40e3585, 0x106aa070, 0x19a4c116, 0x1e376c08],
     [0x2748774c, 0x34b0bcb5, 0x391c0cb3, 0x4ed8aa4a, 0x5b9cca4f],
     [0x682e6ff3, 0x748f82ee, 0x78a5636f, 0x84c87814, 0x8cc70208],
     [0x90befffa, 0xa4506ceb, 0xbef9a3f7, 0xc67178f2]]"

definition load_be32 :: "bytes \<Rightarrow> nat \<Rightarrow> u32" where
  "load_be32 p i =
     push_bit 24 (ucast (p ! (i * 4))) OR push_bit 16 (ucast (p ! (i * 4 + 1))) OR
     push_bit 8 (ucast (p ! (i * 4 + 2))) OR ucast (p ! (i * 4 + 3))"

definition schedule_next :: "u32 list \<Rightarrow> nat \<Rightarrow> u32 list" where
  "schedule_next w i =
     (let s0 = ROR (w ! (i - 15)) 7 XOR ROR (w ! (i - 15)) 18 XOR drop_bit 3 (w ! (i - 15));
          s1 = ROR (w ! (i - 2)) 17 XOR ROR (w ! (i - 2)) 19 XOR drop_bit 10 (w ! (i - 2))
      in w @ [w ! (i - 16) + s0 + w ! (i - 7) + s1])"

definition sha256_schedule :: "bytes \<Rightarrow> u32 list" where
  "sha256_schedule p = foldl schedule_next (map (load_be32 p) [0..<16]) [16..<64]"

fun sha256_round :: "u32 list \<Rightarrow> sha_regs \<Rightarrow> nat \<Rightarrow> sha_regs" where
  "sha256_round w (a, b, c, d, e, f, g, h) i =
     (let s1 = ROR e 6 XOR ROR e 11 XOR ROR e 25;
          t1 = h + s1 + ((e AND f) XOR (NOT e AND g)) + sha256_K ! i + w ! i;
          s0 = ROR a 2 XOR ROR a 13 XOR ROR a 22;
          t2 = s0 + ((a AND b) XOR (a AND c) XOR (b AND c))
      in (t1 + t2, a, b, c, d + t1, e, f, g))"

fun add_regs :: "sha_regs \<Rightarrow> sha_regs \<Rightarrow> sha_regs" where
  "add_regs (a, b, c, d, e, f, g, h) (a', b', c', d', e', f', g', h') =
     (a + a', b + b', c + c', d + d', e + e', f + f', g + g', h + h')"

definition sha256_block :: "sha_regs \<Rightarrow> bytes \<Rightarrow> sha_regs" where
  "sha256_block st p = add_regs st (foldl (sha256_round (sha256_schedule p)) st [0..<64])"

definition wf_sha256_init :: wf_sha256 where
  "wf_sha256_init =
     \<lparr>sha_state = (0x6a09e667, 0xbb67ae85, 0x3c6ef372, 0xa54ff53a, 0x510e527f, 0x9b05688c,
        0x1f83d9ab, 0x5be0cd19), sha_count_hi = 0, sha_count_lo = 0, sha_buf = []\<rparr>"

definition sha256_byte :: "wf_sha256 \<Rightarrow> byte \<Rightarrow> wf_sha256" where
  "sha256_byte c b =
     (let buf = sha_buf c @ [b];
          lo = sha_count_lo c + 1;
          hi = (if lo = 0 then sha_count_hi c + 1 else sha_count_hi c);
          full = (length buf = 64)
      in \<lparr>sha_state = (if full then sha256_block (sha_state c) buf else sha_state c),
          sha_count_hi = hi, sha_count_lo = lo, sha_buf = (if full then [] else buf)\<rparr>)"

definition wf_sha256_update :: "wf_sha256 \<Rightarrow> bytes \<Rightarrow> wf_sha256" where
  "wf_sha256_update c data = foldl sha256_byte c data"

text \<open>The padding loop of \<^verbatim>\<open>wf_sha256_final\<close>; it does not end on a buffer of more than 64 bytes.\<close>

partial_function (option) sha256_pad :: "wf_sha256 \<Rightarrow> wf_sha256 option" where
  "sha256_pad c =
     (if length (sha_buf c) = 56 then Some c else sha256_pad (wf_sha256_update c [0]))"

definition store_be32 :: "u32 \<Rightarrow> bytes" where
  "store_be32 x = [ucast (drop_bit 24 x), ucast (drop_bit 16 x), ucast (drop_bit 8 x), ucast x]"

fun digest_bytes :: "sha_regs \<Rightarrow> bytes" where
  "digest_bytes (a, b, c, d, e, f, g, h) = concat (map store_be32 [a, b, c, d, e, f, g, h])"

definition wf_sha256_final :: "wf_sha256 \<Rightarrow> bytes option" where
  "wf_sha256_final c =
     (let bits_hi = push_bit 3 (sha_count_hi c) OR drop_bit 29 (sha_count_lo c);
          bits_lo = push_bit 3 (sha_count_lo c)
      in case sha256_pad (wf_sha256_update c [0x80]) of
           None \<Rightarrow> None
         | Some c' \<Rightarrow>
             Some (digest_bytes (sha_state
               (wf_sha256_update c' (store_be32 bits_hi @ store_be32 bits_lo)))))"

definition wf_sha256_buffer :: "bytes \<Rightarrow> bytes option" where
  "wf_sha256_buffer data = wf_sha256_final (wf_sha256_update wf_sha256_init data)"

section \<open>FIPS 180-4\<close>

text \<open>The constants of sections 4.2.2 and 5.3.3: the first thirty-two bits of the fractional parts of the cube
  roots of the first sixty-four primes, and of the square roots of the first eight.\<close>

definition is_prime :: "int \<Rightarrow> bool" where
  "is_prime n \<longleftrightarrow> 1 < n \<and> list_all (\<lambda>d. n mod d \<noteq> 0) [2..n - 1]"

definition first_primes :: "int list" where
  "first_primes = filter is_prime [2..311]"

definition root_bits :: "nat \<Rightarrow> int \<Rightarrow> u32" where
  "root_bits k p = word_of_int \<lfloor>frac (root k (of_int p)) * 2 ^ 32\<rfloor>"

definition fips_K :: "nat \<Rightarrow> u32" where
  "fips_K t = root_bits 3 (first_primes ! t)"

definition fips_H0 :: sha_regs where
  "fips_H0 = (root_bits 2 2, root_bits 2 3, root_bits 2 5, root_bits 2 7,
     root_bits 2 11, root_bits 2 13, root_bits 2 17, root_bits 2 19)"

text \<open>The functions of section 4.1.2, the message schedule of 6.2.2 and the padding of 5.1.1.\<close>

definition Ch :: "u32 \<Rightarrow> u32 \<Rightarrow> u32 \<Rightarrow> u32" where
  "Ch x y z = (x AND y) XOR (NOT x AND z)"

definition Maj :: "u32 \<Rightarrow> u32 \<Rightarrow> u32 \<Rightarrow> u32" where
  "Maj x y z = (x AND y) XOR (x AND z) XOR (y AND z)"

definition Sigma0 :: "u32 \<Rightarrow> u32" where
  "Sigma0 x = word_rotr 2 x XOR word_rotr 13 x XOR word_rotr 22 x"

definition Sigma1 :: "u32 \<Rightarrow> u32" where
  "Sigma1 x = word_rotr 6 x XOR word_rotr 11 x XOR word_rotr 25 x"

definition sigma0 :: "u32 \<Rightarrow> u32" where
  "sigma0 x = word_rotr 7 x XOR word_rotr 18 x XOR drop_bit 3 x"

definition sigma1 :: "u32 \<Rightarrow> u32" where
  "sigma1 x = word_rotr 17 x XOR word_rotr 19 x XOR drop_bit 10 x"

text \<open>A block as sixteen big-endian words, and the words of the schedule after them.\<close>

definition block_word :: "bytes \<Rightarrow> nat \<Rightarrow> u32" where
  "block_word p i = word_rcat (take 4 (drop (4 * i) p))"

fun fips_W :: "bytes \<Rightarrow> nat \<Rightarrow> u32" where
  "fips_W p t =
     (if t < 16 then block_word p t
      else sigma1 (fips_W p (t - 2)) + fips_W p (t - 7) + sigma0 (fips_W p (t - 15)) + fips_W p (t - 16))"

declare fips_W.simps [simp del]

fun fips_round :: "bytes \<Rightarrow> sha_regs \<Rightarrow> nat \<Rightarrow> sha_regs" where
  "fips_round p (a, b, c, d, e, f, g, h) t =
     (let T1 = h + Sigma1 e + Ch e f g + fips_K t + fips_W p t; T2 = Sigma0 a + Maj a b c
      in (T1 + T2, a, b, c, d + T1, e, f, g))"

fun fips_add :: "sha_regs \<Rightarrow> sha_regs \<Rightarrow> sha_regs" where
  "fips_add (a, b, c, d, e, f, g, h) (H0, H1, H2, H3, H4, H5, H6, H7) =
     (a + H0, b + H1, c + H2, d + H3, e + H4, f + H5, g + H6, h + H7)"

definition fips_compress :: "sha_regs \<Rightarrow> bytes \<Rightarrow> sha_regs" where
  "fips_compress H p = fips_add (foldl (fips_round p) H [0..<64]) H"

fun blocks64 :: "bytes \<Rightarrow> bytes list" where
  "blocks64 m = (if length m < 64 then [] else take 64 m # blocks64 (drop 64 m))"

declare blocks64.simps [simp del]

definition be64 :: "u64 \<Rightarrow> bytes" where
  "be64 v = map (\<lambda>k. ucast (drop_bit k v)) [56, 48, 40, 32, 24, 16, 8, 0]"

definition fips_pad :: "bytes \<Rightarrow> bytes" where
  "fips_pad m =
     m @ [0x80] @ replicate ((119 - length m mod 64) mod 64) 0 @ be64 (of_nat (8 * length m))"

definition be32 :: "u32 \<Rightarrow> bytes" where
  "be32 v = map (\<lambda>k. ucast (drop_bit k v)) [24, 16, 8, 0]"

fun fips_digest :: "sha_regs \<Rightarrow> bytes" where
  "fips_digest (H0, H1, H2, H3, H4, H5, H6, H7) =
     be32 H0 @ be32 H1 @ be32 H2 @ be32 H3 @ be32 H4 @ be32 H5 @ be32 H6 @ be32 H7"

definition fips_sha256 :: "bytes \<Rightarrow> bytes" where
  "fips_sha256 m = fips_digest (foldl fips_compress fips_H0 (blocks64 (fips_pad m)))"

section \<open>The constants\<close>

text \<open>Below 324 = 18 * 18 a number that is not prime has a divisor up to 17.\<close>

definition prime_below_324 :: "int \<Rightarrow> bool" where
  "prime_below_324 n \<longleftrightarrow> list_all (\<lambda>d. n \<le> d \<or> n mod d \<noteq> 0) [2..17]"

lemma is_prime_below_324:
  assumes "2 \<le> n" "n < 324"
  shows "is_prime n \<longleftrightarrow> prime_below_324 n"
proof -
  have below: "prime_below_324 n \<longleftrightarrow> (\<forall>d \<in> {2..17}. n \<le> d \<or> n mod d \<noteq> 0)"
    by (simp only: prime_below_324_def list_all_iff set_upto)
  have prime: "is_prime n \<longleftrightarrow> (\<forall>d. 2 \<le> d \<and> d < n \<longrightarrow> n mod d \<noteq> 0)"
    using assms(1) by (simp only: is_prime_def list_all_iff set_upto atLeastAtMost_iff Ball_def zle_diff1_eq) auto
  have "n mod d \<noteq> 0" if small: "\<forall>d \<in> {2..17}. n \<le> d \<or> n mod d \<noteq> 0" and d: "2 \<le> d" "d < n" for d
  proof
    assume "n mod d = 0"
    then obtain e where n: "n = d * e" by auto
    have "1 < e" using d assms(1) n by (cases "e \<le> 0"; cases "e = 1") (auto simp: mult_le_0_iff)
    have "e < n" using d \<open>1 < e\<close> n by simp
    have "\<not> (18 \<le> d \<and> 18 \<le> e)" using mult_mono [of 18 d 18 e] assms(2) n by auto
    then have "d \<in> {2..17} \<or> e \<in> {2..17}" using d \<open>1 < e\<close> by auto
    then show False using small \<open>e < n\<close> d n by fastforce
  qed
  then show ?thesis unfolding below prime by (meson atLeastAtMost_iff not_le)
qed

lemma first_primes_eq:
  "first_primes = [2, 3, 5, 7, 11, 13, 17, 19, 23, 29, 31, 37, 41, 43, 47, 53, 59, 61, 67, 71, 73, 79, 83, 89, 97, 101, 103, 107,
     109, 113, 127, 131, 137, 139, 149, 151, 157, 163, 167, 173, 179, 181, 191, 193, 197, 199, 211, 223, 227, 229, 233, 239, 241,
     251, 257, 263, 269, 271, 277, 281, 283, 293, 307, 311]"
proof -
  have "first_primes = filter prime_below_324 [2..311]"
    unfolding first_primes_def by (rule filter_cong) (auto simp: is_prime_below_324)
  also have "\<dots> = [2, 3, 5, 7, 11, 13, 17, 19, 23, 29, 31, 37, 41, 43, 47, 53, 59, 61, 67, 71, 73, 79, 83, 89, 97, 101, 103, 107,
      109, 113, 127, 131, 137, 139, 149, 151, 157, 163, 167, 173, 179, 181, 191, 193, 197, 199, 211, 223, 227, 229, 233, 239, 241,
      251, 257, 263, 269, 271, 277, 281, 283, 293, 307, 311]"
    by code_simp
  finally show ?thesis .
qed

text \<open>An integer part \<open>q\<close> and thirty-two bits \<open>w\<close> are those of the root when they enclose it, which is a comparison of
  integers.\<close>

definition encloses :: "nat \<Rightarrow> int \<Rightarrow> u32 \<Rightarrow> int \<Rightarrow> bool" where
  "encloses k p w q \<longleftrightarrow> 0 \<le> q \<and> (q * 2 ^ 32 + uint w) ^ k \<le> p * 2 ^ (32 * k) \<and> p * 2 ^ (32 * k) < (q * 2 ^ 32 + uint w + 1) ^ k"

lemma encloses_root_bits:
  assumes "encloses k p w q" "0 < k"
  shows "w = root_bits k p"
proof -
  let ?x = "root k (of_int p) * 2 ^ 32" and ?r = "q * 2 ^ 32 + uint w"
  have e: "0 \<le> q" "?r ^ k \<le> p * 2 ^ (32 * k)" "p * 2 ^ (32 * k) < (?r + 1) ^ k" using assms(1) by (simp_all add: encloses_def)
  have w: "0 \<le> uint w" "uint w < 2 ^ 32" using unsigned_less [of w] by simp_all
  have r: "0 \<le> ?r" using e(1) w(1) by simp
  have x: "root k (of_int (p * 2 ^ (32 * k))) = ?x"
    using assms(2) by (simp add: real_root_mult real_root_power_cancel power_mult)
  have "root k (of_int (?r ^ k)) \<le> root k (of_int (p * 2 ^ (32 * k)))"
    using e(2) assms(2) by (simp only: real_root_le_iff of_int_le_iff)
  then have lo: "of_int ?r \<le> ?x" unfolding x using r assms(2) by (simp only: of_int_power real_root_power_cancel of_int_0_le_iff)
  have "root k (of_int (p * 2 ^ (32 * k))) < root k (of_int ((?r + 1) ^ k))"
    using e(3) assms(2) by (simp only: real_root_less_iff of_int_less_iff)
  then have hi: "?x < of_int (?r + 1)"
    unfolding x using r assms(2) by (simp only: of_int_power real_root_power_cancel of_int_0_le_iff)
  note bounds = lo [unfolded of_int_add of_int_mult of_int_power of_int_numeral]
    hi [unfolded of_int_add of_int_mult of_int_power of_int_numeral of_int_1]
  have "of_int (uint w + 1) \<le> (of_int (2 ^ 32) :: real)" using w(2) by (intro of_int_le_iff [THEN iffD2]) simp
  then have "(of_int (uint w) :: real) + 1 \<le> 2 ^ 32" by simp
  moreover have "0 \<le> (of_int (uint w) :: real)" using w(1) by (simp only: of_int_0_le_iff)
  ultimately have "of_int q * 2 ^ 32 \<le> ?x" "?x < of_int q * 2 ^ 32 + 2 ^ 32" using bounds by linarith+
  then have "\<lfloor>root k (of_int p)\<rfloor> = q" by (intro floor_unique) simp_all
  then have "frac (root k (of_int p)) * 2 ^ 32 = ?x - of_int q * 2 ^ 32" by (simp add: frac_def algebra_simps)
  with bounds have "\<lfloor>frac (root k (of_int p)) * 2 ^ 32\<rfloor> = uint w" by (intro floor_unique) simp_all
  then show ?thesis by (simp add: root_bits_def)
qed

lemma roots_eq:
  assumes "list_all2 (\<lambda>w p. list_ex (encloses k p w) [1..6]) ws ps" "0 < k"
  shows "ws = map (root_bits k) ps"
  using assms(1) by (induction rule: list_all2_induct) (auto simp: list_ex_iff dest: encloses_root_bits [OF _ assms(2)])

lemma sha256_K_fips:
  assumes "t < 64"
  shows "sha256_K ! t = fips_K t"
proof -
  have "list_all2 (\<lambda>w p. list_ex (encloses 3 p w) [1..6]) sha256_K first_primes"
    unfolding first_primes_eq by code_simp
  from roots_eq [OF this] have "sha256_K = map (root_bits 3) first_primes" by simp
  moreover have "t < length first_primes" using assms by (simp add: first_primes_eq)
  ultimately show ?thesis using nth_map [of t first_primes "root_bits 3"] by (simp only: fips_K_def)
qed

lemma sha256_init_fips: "sha_state wf_sha256_init = fips_H0"
proof -
  have "list_all2 (\<lambda>w p. list_ex (encloses 2 p w) [1..6])
      [0x6a09e667, 0xbb67ae85, 0x3c6ef372, 0xa54ff53a, 0x510e527f, 0x9b05688c, 0x1f83d9ab, 0x5be0cd19] [2, 3, 5, 7, 11, 13, 17, 19]"
    by code_simp
  from roots_eq [OF this] show ?thesis by (simp add: wf_sha256_init_def fips_H0_def)
qed

lemma prod_cases8:
  obtains a b c d e f g h where "(r :: sha_regs) = (a, b, c, d, e, f, g, h)"
  by (cases r) auto

lemma fips_add_regs: "add_regs st r = fips_add r st"
  by (cases st rule: prod_cases8; cases r rule: prod_cases8) (simp add: add.commute)

lemma fips_digest_bytes: "fips_digest r = digest_bytes r"
  by (cases r rule: prod_cases8) (simp add: be32_def store_be32_def)

lemma fips_sha256_eq: "fips_sha256 m = digest_bytes (foldl fips_compress fips_H0 (blocks64 (fips_pad m)))"
  by (simp add: fips_sha256_def fips_digest_bytes)


section \<open>The compression function\<close>

lemma ROR_rotr:
  assumes "n \<le> 32"
  shows "ROR x n = word_rotr n x"
proof (rule bit_word_eqI)
  fix k assume "k < LENGTH(32)"
  then have k: "k < 32" by simp
  have out: "\<not> bit x j" if "32 \<le> j" for j using that bit_imp_le_length [of x j] by auto
  show "bit (ROR x n) k = bit (word_rotr n x) k"
  proof (cases "n + k < 32")
    case True
    then show ?thesis using assms k
      by (auto simp: ROR_def bit_word_rotr_iff bit_or_iff bit_drop_bit_eq bit_push_bit_iff add.commute)
  next
    case False
    then have "(k + n) mod 32 = k - (32 - n)" using assms k by (simp add: mod_if)
    then show ?thesis using False assms k out [of "n + k"]
      by (auto simp: ROR_def bit_word_rotr_iff bit_or_iff bit_drop_bit_eq bit_push_bit_iff add.commute)
  qed
qed

lemma bit_word_rcat:
  "bit (word_rcat (ws :: bytes) :: u32) n \<longleftrightarrow>
     n < 32 \<and> n div 8 < length ws \<and> bit (rev ws ! (n div 8)) (n mod 8)"
  using bit_horner_sum_uint_exp_iff [of "rev ws" n] by (auto simp: word_rcat_def bit_simps)

lemma load_be32_block:
  assumes "length p = 64" "i < 16"
  shows "load_be32 p i = block_word p i"
proof (rule bit_word_eqI)
  have four: "take 4 (drop (4 * i) p) = [p ! (i * 4), p ! (i * 4 + 1), p ! (i * 4 + 2), p ! (i * 4 + 3)]"
    using assms by (intro nth_equalityI) (auto simp: less_Suc_eq numeral_eq_Suc mult.commute)
  have out: "\<not> bit (x :: byte) k" if "8 \<le> k" for x k using that bit_imp_le_length [of x k] by auto
  fix n assume "n < LENGTH(32)"
  then have "n = 8 * (n div 8) + n mod 8" "n mod 8 < 8" "n div 8 < 4" by auto
  then obtain q k where n: "n = 8 * q + k" "k < 8" "q < 4" by blast
  then have "q = 0 \<or> q = 1 \<or> q = 2 \<or> q = 3" by auto
  then show "bit (load_be32 p i) n = bit (block_word p i) n"
    using n out by (auto simp: block_word_def four bit_word_rcat load_be32_def bit_simps)
qed

lemma schedule_length: "length (foldl schedule_next w is) = length w + length is"
  by (induction "is" arbitrary: w) (simp_all add: schedule_next_def Let_def)

lemma schedule_prefix:
  assumes "length p = 64" "n \<le> 48"
  shows "foldl schedule_next (map (load_be32 p) [0..<16]) [16..<16 + n] = map (fips_W p) [0..<16 + n]"
  using assms(2)
proof (induction n)
  case 0
  then show ?case using load_be32_block [OF assms(1)] by (auto simp: fips_W.simps)
next
  case (Suc n)
  have W: "fips_W p (16 + n) = sigma1 (fips_W p (14 + n)) + fips_W p (9 + n) +
      sigma0 (fips_W p (1 + n)) + fips_W p n"
    by (subst fips_W.simps) (simp add: add.commute)
  have "schedule_next (map (fips_W p) [0..<16 + n]) (16 + n) = map (fips_W p) [0..<16 + n] @ [fips_W p (16 + n)]"
    by (simp add: schedule_next_def Let_def ROR_rotr W sigma0_def sigma1_def nth_append del: upt_Suc)
  moreover have "[a..<16 + Suc n] = [a..<16 + n] @ [16 + n]" if "a \<le> 16" for a
    using that upt_Suc_append [of a "16 + n"] by simp
  ultimately show ?case using Suc
    by (simp only: foldl_append foldl.simps map_append list.map le_refl zero_le)
qed

lemma sha256_block_fips:
  assumes "length p = 64"
  shows "sha256_block st p = fips_compress st p"
proof -
  have sched: "sha256_schedule p = map (fips_W p) [0..<64]"
    using schedule_prefix [OF assms, of 48] by (simp add: sha256_schedule_def)
  have "sha256_round (sha256_schedule p) r t = fips_round p r t" if "t < 64" for r t
    using that
    by (cases r rule: prod_cases8) (simp add: sched ROR_rotr Sigma0_def Sigma1_def Ch_def Maj_def Let_def sha256_K_fips del: upt_Suc)
  then have "foldl (sha256_round (sha256_schedule p)) r [0..<64] = foldl (fips_round p) r [0..<64]" for r
    by (intro foldl_cong) auto
  then show ?thesis by (simp add: sha256_block_def fips_compress_def fips_add_regs)
qed

section \<open>Streaming\<close>

definition tail64 :: "bytes \<Rightarrow> bytes" where
  "tail64 m = drop (64 * (length m div 64)) m"

lemma length_tail64: "length (tail64 m) = length m mod 64"
  by (simp add: tail64_def minus_mult_div_eq_mod)

lemma tail64_drop: "64 \<le> length m \<Longrightarrow> tail64 (drop 64 m) = tail64 m"
  by (simp add: tail64_def le_div_geq algebra_simps)

lemma blocks64_snoc:
  "blocks64 (m @ [b]) = blocks64 m @ (if Suc (length m) mod 64 = 0 then [tail64 m @ [b]] else [])"
proof (induction m rule: blocks64.induct)
  case (1 m)
  show ?case
  proof (cases "length m < 64")
    case True
    then show ?thesis
      by (auto simp: blocks64.simps [of "m @ [b]"] blocks64.simps [of m] blocks64.simps [of "[]"] tail64_def
          less_Suc_eq mod_Suc)
  next
    case False
    then have "Suc (length m - 64) mod 64 = Suc (length m) mod 64"
      by (metis Suc_diff_le le_mod_geq not_less le_SucI)
    then show ?thesis
      using 1 False tail64_drop [of m] by (simp add: blocks64.simps [of "m @ [b]"] blocks64.simps [of m])
  qed
qed

lemma tail64_snoc:
  "tail64 (m @ [b]) = (if Suc (length m) mod 64 = 0 then [] else tail64 m @ [b])"
proof (cases "Suc (length m) mod 64 = 0")
  case True
  then show ?thesis using length_tail64 [of "m @ [b]"] by simp
next
  case False
  then have "Suc (length m) div 64 = length m div 64" by (simp add: div_Suc)
  then show ?thesis using False by (simp add: tail64_def)
qed

text \<open>What the context holds after a message.\<close>

definition holds :: "wf_sha256 \<Rightarrow> bytes \<Rightarrow> bool" where
  "holds c m \<longleftrightarrow>
     sha_state c = foldl fips_compress fips_H0 (blocks64 m) \<and> sha_buf c = tail64 m"

definition counts :: "wf_sha256 \<Rightarrow> nat \<Rightarrow> bool" where
  "counts c n \<longleftrightarrow> sha_count_lo c = of_nat n \<and> sha_count_hi c = of_nat (n div 2 ^ 32)"

lemma holds_init: "holds wf_sha256_init []"
  using sha256_init_fips by (simp add: holds_def tail64_def blocks64.simps wf_sha256_init_def)

lemma holds_byte:
  assumes "holds c m"
  shows "holds (sha256_byte c b) (m @ [b])"
proof -
  have full: "length (tail64 m @ [b]) = 64 \<longleftrightarrow> Suc (length m) mod 64 = 0"
    using mod_less_divisor [of 64 "length m"] by (auto simp: length_tail64 mod_Suc)
  show ?thesis
  proof (cases "Suc (length m) mod 64 = 0")
    case True
    then have "length (tail64 m @ [b]) = 64" using full by simp
    then show ?thesis using assms True
      by (simp add: holds_def sha256_byte_def Let_def blocks64_snoc tail64_snoc sha256_block_fips)
  next
    case False
    then have "length (tail64 m @ [b]) \<noteq> 64" using full by simp
    then show ?thesis using assms False
      by (simp add: holds_def sha256_byte_def Let_def blocks64_snoc tail64_snoc)
  qed
qed

lemma holds_update: "holds c m \<Longrightarrow> holds (wf_sha256_update c d) (m @ d)"
proof (induction d arbitrary: c m)
  case (Cons b d)
  then show ?case using Cons.IH [OF holds_byte [OF Cons.prems, of b]] by (simp add: wf_sha256_update_def)
qed (simp add: wf_sha256_update_def)

lemma counts_byte:
  assumes "counts c n"
  shows "counts (sha256_byte c b) (Suc n)"
proof -
  have "of_nat (Suc n) = (0 :: u32) \<longleftrightarrow> Suc n mod 2 ^ 32 = 0"
    using word_of_nat_eq_0_iff [of "Suc n", where ?'a = 32] by (simp only: dvd_eq_mod_eq_0) simp
  moreover have "Suc n div 2 ^ 32 = (if Suc n mod 2 ^ 32 = 0 then Suc (n div 2 ^ 32) else n div 2 ^ 32)"
    by (rule div_Suc)
  ultimately show ?thesis using assms
    by (simp add: counts_def sha256_byte_def Let_def add.commute)
qed

lemma counts_update: "counts c n \<Longrightarrow> counts (wf_sha256_update c d) (n + length d)"
proof (induction d arbitrary: c n)
  case (Cons b d)
  then show ?case using Cons.IH [OF counts_byte [OF Cons.prems, of b]] by (simp add: wf_sha256_update_def)
qed (simp add: wf_sha256_update_def)

text \<open>The padding loop ends, having fed the zeros that are missing to 56 bytes.\<close>

lemma length_buf_byte:
  "length (sha_buf c) < 64 \<Longrightarrow> length (sha_buf (sha256_byte c b)) = Suc (length (sha_buf c)) mod 64"
  by (auto simp: sha256_byte_def Let_def)

lemma sha256_pad_loop:
  assumes "length (sha_buf c) < 64" "(length (sha_buf c) + k) mod 64 = 56" "k < 64"
  shows "sha256_pad c = Some (wf_sha256_update c (replicate k 0))"
  using assms
proof (induction k arbitrary: c)
  case 0
  then show ?case by (subst sha256_pad.simps) (simp add: wf_sha256_update_def)
next
  case (Suc k)
  have buf: "length (sha_buf (sha256_byte c 0)) = Suc (length (sha_buf c)) mod 64"
    using length_buf_byte [OF Suc.prems(1)] .
  have "length (sha_buf c) \<noteq> 56"
  proof
    assume "length (sha_buf c) = 56"
    then have "(56 + Suc k) mod 64 = 56" using Suc.prems(2) by simp
    then show False using Suc.prems(3) by (auto simp: mod_if split: if_splits)
  qed
  moreover have "sha256_pad (sha256_byte c 0) = Some (wf_sha256_update (sha256_byte c 0) (replicate k 0))"
    using Suc.prems by (intro Suc.IH) (simp_all add: buf mod_simps)
  ultimately show ?case by (subst sha256_pad.simps) (simp add: wf_sha256_update_def)
qed

lemma length_field:
  assumes "counts c n"
  shows "store_be32 (push_bit 3 (sha_count_hi c) OR drop_bit 29 (sha_count_lo c)) @
    store_be32 (push_bit 3 (sha_count_lo c)) = be64 (of_nat (8 * n))"
proof -
  let ?N = "of_nat n :: u64"
  have lo: "sha_count_lo c = ucast ?N"
    using assms by (auto intro!: bit_word_eqI simp: counts_def bit_simps)
  have hi: "sha_count_hi c = ucast (drop_bit 32 ?N)"
  proof -
    have "n div 2 ^ 32 = drop_bit 32 n" by (simp only: drop_bit_eq_div)
    then show ?thesis
      using assms unfolding counts_def by (auto intro!: bit_word_eqI simp del: power_numeral simp: bit_simps)
  qed
  have n8: "of_nat (8 * n) = push_bit 3 ?N" by (simp add: push_bit_eq_mult mult.commute)
  have out: "\<not> bit ?N j" if "64 \<le> j" for j using that bit_imp_le_length [of ?N j] by auto
  show ?thesis
    unfolding lo hi n8 store_be32_def be64_def using out
    by (auto intro!: bit_word_eqI simp: bit_simps)
qed

lemma sha256_final:
  assumes "holds c m" "counts c (length m)"
  shows "wf_sha256_final c = Some (fips_sha256 m)"
proof -
  let ?k = "(119 - length m mod 64) mod 64" and ?c = "wf_sha256_update c [0x80]"
  have c: "holds ?c (m @ [0x80])" using assms(1) by (rule holds_update)
  then have "length (sha_buf ?c) = Suc (length m) mod 64"
    by (simp add: holds_def length_tail64)
  moreover have "(Suc n mod 64 + (119 - n mod 64) mod 64) mod 64 = 56" for n :: nat
  proof -
    define t where "t = 63 - n mod 64"
    have "n mod 64 < 64" by simp
    then have "119 - n mod 64 = t + 56" "Suc (n mod 64) + t = 64" by (simp_all add: t_def)
    moreover have "(Suc n mod 64 + (t + 56) mod 64) mod 64 = (Suc (n mod 64) + t + 56) mod 64"
      by (metis add.assoc mod_Suc_eq mod_add_eq)
    ultimately show ?thesis by simp
  qed
  ultimately have pad: "sha256_pad ?c = Some (wf_sha256_update ?c (replicate ?k 0))"
    by (intro sha256_pad_loop) auto
  have "holds (wf_sha256_update (wf_sha256_update ?c (replicate ?k 0)) (be64 (of_nat (8 * length m)))) (fips_pad m)"
    using holds_update [OF holds_update [OF c]] by (simp add: fips_pad_def)
  then show ?thesis
    using length_field [OF assms(2)] by (simp add: wf_sha256_final_def pad fips_sha256_eq holds_def Let_def)
qed

lemma update_chunks: "foldl wf_sha256_update c ds = wf_sha256_update c (concat ds)"
  by (induction ds arbitrary: c) (simp_all add: wf_sha256_update_def)

lemma holds_message: "holds (wf_sha256_update wf_sha256_init m) m"
  using holds_update [OF holds_init] by simp

lemma counts_message: "counts (wf_sha256_update wf_sha256_init m) (length m)"
  using counts_update [of wf_sha256_init 0] by (simp add: counts_def wf_sha256_init_def)

section \<open>A test vector\<close>

text \<open>The digest of ''abc'' (FIPS 180-4, appendix B.1), evaluated in parts.\<close>

definition abc_block :: bytes where
  "abc_block = [97, 98, 99, 0x80] @ replicate 59 0 @ [24]"

definition abc_words :: "u32 list" where
  "abc_words = [
     0x61626380, 0x00000000, 0x00000000, 0x00000000, 0x00000000, 0x00000000, 0x00000000, 0x00000000,
     0x00000000, 0x00000000, 0x00000000, 0x00000000, 0x00000000, 0x00000000, 0x00000000, 0x00000018,
     0x61626380, 0x000f0000, 0x7da86405, 0x600003c6, 0x3e9d7b78, 0x0183fc00, 0x12dcbfdb, 0xe2e2c38e,
     0xc8215c1a, 0xb73679a2, 0xe5bc3909, 0x32663c5b, 0x9d209d67, 0xec8726cb, 0x702138a4, 0xd3b7973b,
     0x93f5997f, 0x3b68ba73, 0xaff4ffc1, 0xf10a5c62, 0x0a8b3996, 0x72af830a, 0x9409e33e, 0x24641522]"

definition abc_schedule :: "u32 list" where
  "abc_schedule = abc_words @ [
     0x9f47bf94, 0xf0a64f5a, 0x3e246a79, 0x27333ba3, 0x0c4763f2, 0x840abf27, 0x7a290d5d, 0x065c43da,
     0xfb3e89cb, 0xcc7617db, 0xb9e66c34, 0xa9993667, 0x84badedd, 0xc21462bc, 0x1487472c, 0xb20f7a99,
     0xef57b9cd, 0xebe6b238, 0x9fe3095e, 0x78bc8d4b, 0xa43fcf15, 0x668b2ff8, 0xeeaba2cc, 0x12b1edeb]"

lemma abc_words_eq: "foldl schedule_next (map (load_be32 abc_block) [0..<16]) [16..<40] = abc_words"
  by code_simp

lemma abc_schedule_eq: "foldl schedule_next abc_words [40..<64] = abc_schedule"
  by code_simp

lemma abc_rounds1:
  "foldl (sha256_round abc_schedule) (sha_state wf_sha256_init) [0..<32] =
     (0x73b33bf5, 0xea992a22, 0xa0060b30, 0x363482c9,
      0xba591112, 0x0109ab3a, 0xade79437, 0x6112a3b7)"
  by code_simp

lemma abc_rounds2:
  "foldl (sha256_round abc_schedule)
     (0x73b33bf5, 0xea992a22, 0xa0060b30, 0x363482c9,
      0xba591112, 0x0109ab3a, 0xade79437, 0x6112a3b7) [32..<64] =
     (0x506e3058, 0xd39a2165, 0x04d24d6c, 0xb85e2ce9,
      0x5ef50f24, 0xfb121210, 0x948d25b6, 0x961f4894)"
  by code_simp

lemma sha256_abc:
  "wf_sha256_buffer [97, 98, 99] =
     Some [0xba, 0x78, 0x16, 0xbf, 0x8f, 0x01, 0xcf, 0xea, 0x41, 0x41, 0x40, 0xde, 0x5d, 0xae, 0x22, 0x23,
       0xb0, 0x03, 0x61, 0xa3, 0x96, 0x17, 0x7a, 0x9c, 0xb4, 0x10, 0xff, 0x61, 0xf2, 0x00, 0x15, 0xad]"
proof -
  have pad: "fips_pad [97, 98, 99] = abc_block" by code_simp
  have blocks: "blocks64 abc_block = [abc_block]" "length abc_block = 64"
    by (simp_all add: blocks64.simps abc_block_def)
  have "sha256_schedule abc_block = abc_schedule"
    using abc_words_eq abc_schedule_eq upt_add_eq_append [of 16 40 24]
    by (simp add: sha256_schedule_def del: upt_Suc)
  moreover have "[0..<64] = [0..<32] @ [32..<64]" using upt_add_eq_append [of 0 32 32] by simp
  ultimately have "sha256_block (sha_state wf_sha256_init) abc_block =
      add_regs (sha_state wf_sha256_init) (0x506e3058, 0xd39a2165, 0x04d24d6c, 0xb85e2ce9,
      0x5ef50f24, 0xfb121210, 0x948d25b6, 0x961f4894)"
    using abc_rounds1 abc_rounds2 by (simp only: sha256_block_def foldl_append)
  also have "\<dots> = (0xba7816bf, 0x8f01cfea, 0x414140de, 0x5dae2223, 0xb00361a3, 0x96177a9c, 0xb410ff61, 0xf20015ad)"
    by (simp add: wf_sha256_init_def)
  finally have "fips_sha256 [97, 98, 99] = digest_bytes
      (0xba7816bf, 0x8f01cfea, 0x414140de, 0x5dae2223, 0xb00361a3, 0x96177a9c, 0xb410ff61, 0xf20015ad)"
    using blocks by (simp add: fips_sha256_eq pad sha256_block_fips sha256_init_fips)
  also have "\<dots> = [0xba, 0x78, 0x16, 0xbf, 0x8f, 0x01, 0xcf, 0xea, 0x41, 0x41, 0x40, 0xde, 0x5d, 0xae, 0x22,
       0x23, 0xb0, 0x03, 0x61, 0xa3, 0x96, 0x17, 0x7a, 0x9c, 0xb4, 0x10, 0xff, 0x61, 0xf2, 0x00, 0x15, 0xad]"
    by code_simp
  finally show ?thesis
    by (simp only: wf_sha256_buffer_def sha256_final [OF holds_message counts_message])
qed

lemma fips_abc:
  "fips_sha256 [97, 98, 99] =
     [0xba, 0x78, 0x16, 0xbf, 0x8f, 0x01, 0xcf, 0xea, 0x41, 0x41, 0x40, 0xde, 0x5d, 0xae, 0x22, 0x23,
      0xb0, 0x03, 0x61, 0xa3, 0x96, 0x17, 0x7a, 0x9c, 0xb4, 0x10, 0xff, 0x61, 0xf2, 0x00, 0x15, 0xad]"
  using sha256_abc unfolding wf_sha256_buffer_def sha256_final [OF holds_message counts_message] by simp

end
