(* ===== verification/Update.thy ===== *)
theory Update
  imports Sha256
begin

unbundle bit_operations_syntax

text \<open>
  Checking a downloaded release, \<^verbatim>\<open>src/update/update_core.c\<close>: the bytes are fed in the pieces in which they
  arrive, no more than the announced size is accepted, and the digest is compared at the end. An
  \<^verbatim>\<open>unsigned long\<close> size has 64 bits. A call that fails leaves the state that the code leaves.
\<close>

section \<open>The code\<close>

record wf_update_asset =
  as_name :: bytes
  as_url :: bytes
  as_size :: u64
  as_sha256 :: bytes

record wf_update_verify =
  uv_sha :: wf_sha256
  uv_expected :: bytes
  uv_want_size :: u64
  uv_got_size :: u64
  uv_overflow :: bool

definition hex_val :: "byte \<Rightarrow> byte option" where
  "hex_val c =
     (if 48 \<le> c \<and> c \<le> 57 then Some (c - 48)
      else if 97 \<le> c \<and> c \<le> 102 then Some (c - 97 + 10)
      else if 65 \<le> c \<and> c \<le> 70 then Some (c - 65 + 10)
      else None)"

fun hex_pairs :: "bytes \<Rightarrow> bytes option" where
  "hex_pairs (a # b # rest) =
     (case (hex_val a, hex_val b) of
        (Some hi, Some lo) \<Rightarrow> map_option (Cons (push_bit 4 hi OR lo)) (hex_pairs rest)
      | _ \<Rightarrow> None)"
| "hex_pairs [] = Some []"
| "hex_pairs [a] = None"

definition wf_sha256_from_hex :: "bytes \<Rightarrow> bytes res" where
  "wf_sha256_from_hex hex =
     (if length hex \<noteq> 64 then Inl WF_ERR_PARSE
      else case hex_pairs hex of None \<Rightarrow> Inl WF_ERR_PARSE | Some out \<Rightarrow> Inr out)"

definition wf_update_verify_init :: "wf_update_asset \<Rightarrow> wf_update_verify" where
  "wf_update_verify_init asset =
     \<lparr>uv_sha = wf_sha256_init, uv_expected = as_sha256 asset, uv_want_size = as_size asset,
      uv_got_size = 0, uv_overflow = False\<rparr>"

definition wf_update_verify_feed :: "wf_update_verify \<Rightarrow> bytes \<Rightarrow> wf_update_verify \<times> unit res" where
  "wf_update_verify_feed v data =
     (if uv_overflow v then (v, Inl WF_ERR_VALIDATION)
      else if unat (uv_want_size v - uv_got_size v) < length data
        then (v\<lparr>uv_overflow := True\<rparr>, Inl WF_ERR_VALIDATION)
      else (v\<lparr>uv_sha := wf_sha256_update (uv_sha v) data,
              uv_got_size := uv_got_size v + of_nat (length data)\<rparr>, Inr ()))"

text \<open>The comparison that does not stop at the first difference.\<close>

definition digest_diff :: "bytes \<Rightarrow> bytes \<Rightarrow> byte" where
  "digest_diff digest expected = foldl (\<lambda>diff (a, b). diff OR (a XOR b)) 0 (zip digest expected)"

definition wf_update_verify_final :: "wf_update_verify \<Rightarrow> unit res option" where
  "wf_update_verify_final v =
     (if uv_overflow v \<or> uv_got_size v \<noteq> uv_want_size v then Some (Inl WF_ERR_VALIDATION)
      else case wf_sha256_final (uv_sha v) of
             None \<Rightarrow> None
           | Some digest \<Rightarrow>
               Some (if digest_diff digest (uv_expected v) = 0 then Inr () else Inl WF_ERR_VALIDATION))"

text \<open>A download: the pieces in order; the caller may go on after a refusal.\<close>

definition feed_all :: "wf_update_asset \<Rightarrow> bytes list \<Rightarrow> wf_update_verify" where
  "feed_all asset ds = foldl (\<lambda>v d. fst (wf_update_verify_feed v d)) (wf_update_verify_init asset) ds"

section \<open>Lemmas\<close>

lemma length_digest_bytes: "length (digest_bytes r) = 32"
  by (cases r rule: prod_cases8) (simp add: store_be32_def)

lemma xor_zero [simp]: "(x :: byte) XOR y = 0 \<longleftrightarrow> x = y"
  by (auto simp: bit_eq_iff bit_simps)

lemma fold_or_zero:
  fixes a :: byte
  shows "foldl (\<lambda>diff (x, y). diff OR (x XOR y)) a ps = 0 \<longleftrightarrow> a = 0 \<and> (\<forall>(x, y) \<in> set ps. x = y)"
proof (induction ps arbitrary: a)
  case (Cons p ps)
  have "a OR (x XOR y) = 0 \<longleftrightarrow> a = 0 \<and> x = y" for x y
    by (auto simp: or_eq_0_iff)
  then show ?case by (auto simp: Cons.IH split: prod.splits)
qed simp

lemma digest_diff_zero:
  assumes "length d = length e"
  shows "digest_diff d e = 0 \<longleftrightarrow> d = e"
  using assms by (induction d e rule: list_induct2) (auto simp: digest_diff_def fold_or_zero)

text \<open>What the verifier knows after some pieces.\<close>

definition verify_inv :: "wf_update_asset \<Rightarrow> bytes list \<Rightarrow> wf_update_verify \<Rightarrow> bool" where
  "verify_inv asset ds v \<longleftrightarrow>
     uv_expected v = as_sha256 asset \<and> uv_want_size v = as_size asset \<and>
     (uv_overflow v \<longleftrightarrow> unat (as_size asset) < length (concat ds)) \<and>
     (\<not> uv_overflow v \<longrightarrow> unat (uv_got_size v) = length (concat ds) \<and>
        uv_sha v = wf_sha256_update wf_sha256_init (concat ds))"

lemma verify_inv_feed:
  assumes "verify_inv asset ds v"
  shows "verify_inv asset (ds @ [d]) (fst (wf_update_verify_feed v d)) \<and>
    (snd (wf_update_verify_feed v d) = Inr () \<longleftrightarrow> length (concat (ds @ [d])) \<le> unat (as_size asset))"
proof (cases "uv_overflow v")
  case True
  then show ?thesis using assms by (auto simp: verify_inv_def wf_update_verify_feed_def)
next
  case False
  let ?n = "length (concat ds)"
  have got: "unat (uv_got_size v) = ?n" and le: "?n \<le> unat (as_size asset)"
    and want: "uv_want_size v = as_size asset"
    and sha: "uv_sha v = wf_sha256_update wf_sha256_init (concat ds)"
    using False assms by (auto simp: verify_inv_def)
  have left: "unat (uv_want_size v - uv_got_size v) = unat (as_size asset) - ?n"
    using got le want by (simp add: unat_sub word_le_nat_alt)
  have sum: "unat (uv_got_size v + of_nat (length d)) = ?n + length d"
    if "?n + length d \<le> unat (as_size asset)"
  proof -
    have "?n + length d < 2 ^ 64" using that unat_lt_64 [of "as_size asset"] by linarith
    then show ?thesis using got by (simp add: unat_word_ariths unat_of_nat)
  qed
  show ?thesis
    using assms False left le sum sha
    by (auto simp: verify_inv_def wf_update_verify_feed_def wf_sha256_update_def not_less)
qed

lemma verify_inv_all: "verify_inv asset ds (feed_all asset ds)"
proof (induction ds rule: rev_induct)
  case Nil
  then show ?case
    by (simp add: verify_inv_def feed_all_def wf_update_verify_init_def wf_sha256_update_def)
next
  case (snoc d ds)
  then show ?case using verify_inv_feed [OF snoc] by (simp add: feed_all_def)
qed

lemma download_final:
  assumes "length (as_sha256 asset) = 32"
  shows "wf_update_verify_final (feed_all asset ds) =
      Some (if length (concat ds) = unat (as_size asset) \<and> fips_sha256 (concat ds) = as_sha256 asset
            then Inr () else Inl WF_ERR_VALIDATION)"
proof -
  let ?v = "feed_all asset ds"
  have inv: "verify_inv asset ds ?v" by (rule verify_inv_all)
  have len: "length (fips_sha256 m) = 32" for m by (simp add: fips_sha256_eq length_digest_bytes)
  show ?thesis
  proof (cases "uv_overflow ?v")
    case True
    then show ?thesis using inv by (auto simp: verify_inv_def wf_update_verify_final_def)
  next
    case False
    then have "wf_sha256_final (uv_sha ?v) = Some (fips_sha256 (concat ds))"
      using inv sha256_final [OF holds_message counts_message] by (simp add: verify_inv_def)
    then show ?thesis
      using inv False digest_diff_zero [of "fips_sha256 (concat ds)" "as_sha256 asset"] assms len
      by (auto simp: verify_inv_def wf_update_verify_final_def word_unat_eq_iff)
  qed
qed

section \<open>Properties\<close>

text \<open>
  C11: Feeding a message to the SHA-256 of the updater in any pieces and finishing gives the digest
  that FIPS 180-4 defines for the whole message; in particular the padding loop ends. The standard is
  stated without the code: its round constants are the leading bits of the cube roots of the first
  sixty-four primes, its initial value those of the square roots of the first eight. The digest of
  ''abc'' is the one of the standard's example. (The bit count is kept modulo 2^64, which FIPS 180-4
  demands of shorter messages only.)
\<close>

theorem sha256_streaming:
  "wf_sha256_final (foldl wf_sha256_update wf_sha256_init ds) = Some (fips_sha256 (concat ds)) \<and>
   fips_sha256 [97, 98, 99] =
     [0xba, 0x78, 0x16, 0xbf, 0x8f, 0x01, 0xcf, 0xea, 0x41, 0x41, 0x40, 0xde, 0x5d, 0xae, 0x22, 0x23,
      0xb0, 0x03, 0x61, 0xa3, 0x96, 0x17, 0x7a, 0x9c, 0xb4, 0x10, 0xff, 0x61, 0xf2, 0x00, 0x15, 0xad]"
  unfolding update_chunks by (intro conjI sha256_final [OF holds_message counts_message] fips_abc)

text \<open>
  C23: A download is accepted exactly when the bytes that arrived, in whatever pieces, are as many as
  the manifest announced and have its digest; a piece is refused exactly when the bytes so far
  exceed that size, and such a download is never accepted later.
\<close>

theorem download_verified:
  assumes "length (as_sha256 asset) = 32"
  shows "wf_update_verify_final (feed_all asset ds) =
      Some (if length (concat ds) = unat (as_size asset) \<and> fips_sha256 (concat ds) = as_sha256 asset
            then Inr () else Inl WF_ERR_VALIDATION) \<and>
    (snd (wf_update_verify_feed (feed_all asset ds) d) = Inr () \<longleftrightarrow>
       length (concat ds) + length d \<le> unat (as_size asset))"
  using download_final [OF assms] verify_inv_feed [OF verify_inv_all, of asset ds d] by simp

theorem download_verified_witness:
  "wf_update_verify_final (feed_all
     \<lparr>as_name = [], as_url = [], as_size = 3, as_sha256 = fips_sha256 [97, 98, 99]\<rparr> [[97], [98, 99]]) =
     Some (Inr ())"
  using download_verified [of "\<lparr>as_name = [], as_url = [], as_size = 3, as_sha256 = fips_sha256 [97, 98, 99]\<rparr>"
      "[[97], [98, 99]]" "[]"]
  by (simp add: fips_sha256_eq length_digest_bytes)

end
