(* ===== verification/Version.thy ===== *)
theory Version
  imports Wolfram_Prelude "HOL-Library.Product_Lexorder"
begin

text \<open>
  The versions of \<^verbatim>\<open>src/update/update_core.c\<close>: strict parsing of semantic versions and their comparison,
  by which a client decides whether a release is newer. A C string is the list of its bytes before
  the NUL; a pointer into it is the rest of the list.
\<close>

section \<open>The code\<close>

record ver =
  v_maj :: bytes
  v_min :: bytes
  v_pat :: bytes
  v_pre :: "bytes option"

definition is_digit :: "byte \<Rightarrow> bool" where
  "is_digit c \<longleftrightarrow> 48 \<le> c \<and> c \<le> 57"

definition is_ident_char :: "byte \<Rightarrow> bool" where
  "is_ident_char c \<longleftrightarrow> is_digit c \<or> 97 \<le> c \<and> c \<le> 122 \<or> 65 \<le> c \<and> c \<le> 90 \<or> c = 45"

definition num_part :: "bytes \<Rightarrow> (bytes \<times> bytes) option" where
  "num_part p =
     (let s = takeWhile is_digit p
      in if s = [] \<or> 18 < length s then None
         else if hd s = 48 \<and> 1 < length s then None
         else Some (s, dropWhile is_digit p))"

definition expect_dot :: "bytes \<Rightarrow> bytes option" where
  "expect_dot p = (case p of [] \<Rightarrow> None | c # q \<Rightarrow> if c = 46 then Some q else None)"

text \<open>
  The two loops over dot-separated identifiers, of the prerelease (\<open>strict\<close>: a numeric identifier has
  no leading zero) and of the build metadata. The result is the text consumed and the rest.
\<close>

function ident_loop :: "bool \<Rightarrow> bytes \<Rightarrow> (bytes \<times> bytes) option" where
  "ident_loop strict q =
     (let st = takeWhile is_ident_char q; rest = dropWhile is_ident_char q
      in if st = [] then None
         else if strict \<and> list_all is_digit st \<and> hd st = 48 \<and> 1 < length st then None
         else case rest of
                [] \<Rightarrow> Some (st, [])
              | c # q' \<Rightarrow>
                  (if c = 46
                   then map_option (\<lambda>(t, r). (st @ 46 # t, r)) (ident_loop strict q')
                   else Some (st, rest)))"
  by pat_completeness auto
termination
proof (relation "measure (\<lambda>(strict, q). length q)")
  fix strict q st rest c q'
  assume "rest = dropWhile is_ident_char q" "rest = c # q'"
  then have "length (c # q') \<le> length q" by (metis length_dropWhile_le)
  then show "((strict, q'), (strict, q)) \<in> measure (\<lambda>(strict, q). length q)" by simp
qed simp

declare ident_loop.simps [simp del]

definition parse_pre :: "bytes \<Rightarrow> (bytes option \<times> bytes) option" where
  "parse_pre p =
     (case p of
        [] \<Rightarrow> Some (None, [])
      | c # q \<Rightarrow> (if c = 45 then map_option (\<lambda>(t, r). (Some t, r)) (ident_loop True q) else Some (None, p)))"

definition parse_build :: "bytes \<Rightarrow> bytes option" where
  "parse_build p =
     (case p of
        [] \<Rightarrow> Some []
      | c # q \<Rightarrow> (if c = 43 then map_option snd (ident_loop False q) else Some p))"

definition parse_ver :: "bytes \<Rightarrow> ver option" where
  "parse_ver s =
     (case num_part s of None \<Rightarrow> None | Some (maj, p1) \<Rightarrow>
      case expect_dot p1 of None \<Rightarrow> None | Some p2 \<Rightarrow>
      case num_part p2 of None \<Rightarrow> None | Some (mi, p3) \<Rightarrow>
      case expect_dot p3 of None \<Rightarrow> None | Some p4 \<Rightarrow>
      case num_part p4 of None \<Rightarrow> None | Some (pat, p5) \<Rightarrow>
      case parse_pre p5 of None \<Rightarrow> None | Some (pre, p6) \<Rightarrow>
      case parse_build p6 of None \<Rightarrow> None | Some p7 \<Rightarrow>
        (if p7 = [] then Some \<lparr>v_maj = maj, v_min = mi, v_pat = pat, v_pre = pre\<rparr> else None))"

definition wf_update_version_valid :: "bytes \<Rightarrow> bool" where
  "wf_update_version_valid v \<longleftrightarrow> parse_ver v \<noteq> None"

definition cmp_num :: "bytes \<Rightarrow> bytes \<Rightarrow> int" where
  "cmp_num a b =
     (if length a \<noteq> length b then (if length a < length b then -1 else 1)
      else let c = memcmp a b in if c < 0 then -1 else if 0 < c then 1 else 0)"

definition cmp_ident :: "bytes \<Rightarrow> bytes \<Rightarrow> int" where
  "cmp_ident a b =
     (let a_num = list_all is_digit a; b_num = list_all is_digit b
      in if a_num \<and> b_num then cmp_num a b
         else if a_num \<noteq> b_num then (if a_num then -1 else 1)
         else
           let m = min (length a) (length b);
               c = memcmp (take m a) (take m b);
               c = (if c = 0 \<and> length a \<noteq> length b then (if length a < length b then -1 else 1) else c)
           in if c < 0 then -1 else if 0 < c then 1 else 0)"

text \<open>Past the next dot, or at the end.\<close>

definition next_ident :: "bytes \<Rightarrow> bytes" where
  "next_ident a = drop 1 (dropWhile (\<lambda>c. c \<noteq> 46) a)"

lemma next_ident_shorter: "a \<noteq> [] \<Longrightarrow> length (next_ident a) < length a"
proof -
  assume "a \<noteq> []"
  then have "0 < length a" by simp
  moreover have "length (dropWhile (\<lambda>c. c \<noteq> 46) a) \<le> length a" by (rule length_dropWhile_le)
  ultimately show ?thesis unfolding next_ident_def length_drop by linarith
qed

function cmp_pre :: "bytes \<Rightarrow> bytes \<Rightarrow> int" where
  "cmp_pre a b =
     (if a = [] \<or> b = [] then 0
      else
        let c = cmp_ident (takeWhile (\<lambda>c. c \<noteq> 46) a) (takeWhile (\<lambda>c. c \<noteq> 46) b);
            a' = next_ident a; b' = next_ident b
        in if c \<noteq> 0 then c
           else if a' = [] \<and> b' \<noteq> [] then -1
           else if b' = [] \<and> a' \<noteq> [] then 1
           else cmp_pre a' b')"
  by pat_completeness auto
termination
  by (relation "measure (length \<circ> fst)") (auto simp: next_ident_shorter)

declare cmp_pre.simps [simp del]

text \<open>The result and the error flag.\<close>

definition wf_update_compare_versions :: "bytes \<Rightarrow> bytes \<Rightarrow> int \<times> bool" where
  "wf_update_compare_versions a b =
     (case (parse_ver a, parse_ver b) of
        (Some x, Some y) \<Rightarrow>
          (let c1 = cmp_num (v_maj x) (v_maj y);
               c2 = cmp_num (v_min x) (v_min y);
               c3 = cmp_num (v_pat x) (v_pat y)
           in (if c1 \<noteq> 0 then c1 else if c2 \<noteq> 0 then c2 else if c3 \<noteq> 0 then c3
               else case (v_pre x, v_pre y) of
                      (None, None) \<Rightarrow> 0
                    | (None, Some _) \<Rightarrow> 1
                    | (Some _, None) \<Rightarrow> -1
                    | (Some p, Some q) \<Rightarrow> cmp_pre p q, False))
      | _ \<Rightarrow> (0, True))"

end
