(* ===== verification/Version_Props.thy ===== *)
theory Version_Props
  imports Version
begin

text \<open>
  The comparison of versions is the precedence of SemVer 2.0.0: versions are read as numbers and lists
  of identifiers with a linear order, and the parser accepts exactly the texts of the grammar (with at
  most 18 digits in a number).
\<close>

section \<open>The order of SemVer\<close>

datatype ident = Numeric nat | Alphanumeric bytes

text \<open>Section 11.4: numeric identifiers compare as numbers and are below the others.\<close>

instantiation ident :: linorder
begin

fun less_eq_ident :: "ident \<Rightarrow> ident \<Rightarrow> bool" where
  "less_eq_ident (Numeric m) (Numeric n) \<longleftrightarrow> m \<le> n"
| "less_eq_ident (Numeric m) (Alphanumeric t) \<longleftrightarrow> True"
| "less_eq_ident (Alphanumeric s) (Numeric n) \<longleftrightarrow> False"
| "less_eq_ident (Alphanumeric s) (Alphanumeric t) \<longleftrightarrow> s \<le> t"

definition less_ident :: "ident \<Rightarrow> ident \<Rightarrow> bool" where
  "less_ident x y \<longleftrightarrow> x \<le> y \<and> \<not> y \<le> x"

instance
proof
  fix x y z :: ident
  show "x \<le> x" by (cases x) auto
  show "x \<le> y \<Longrightarrow> y \<le> z \<Longrightarrow> x \<le> z" by (cases x; cases y; cases z) auto
  show "x \<le> y \<Longrightarrow> y \<le> x \<Longrightarrow> x = y" by (cases x; cases y) auto
  show "x \<le> y \<or> y \<le> x" by (cases x; cases y) auto
qed (simp add: less_ident_def)

end

text \<open>
  Section 11: the three numbers, then the prerelease, which a release lacks and is above. Lists compare
  lexicographically, a longer one above its prefixes.
\<close>

record semver =
  sv_major :: nat
  sv_minor :: nat
  sv_patch :: nat
  sv_pre :: "ident list option"

definition precedence :: "semver \<Rightarrow> nat \<times> nat \<times> nat \<times> nat \<times> ident list" where
  "precedence v = (sv_major v, sv_minor v, sv_patch v,
     (case sv_pre v of None \<Rightarrow> (1, []) | Some ids \<Rightarrow> (0, ids)))"

definition order_sign :: "'a::linorder \<Rightarrow> 'a \<Rightarrow> int" where
  "order_sign x y = (if x < y then -1 else if x = y then 0 else 1)"

text \<open>How a text is read.\<close>

definition decimal :: "bytes \<Rightarrow> nat" where
  "decimal ds = foldl (\<lambda>n d. 10 * n + (unat d - 48)) 0 ds"

fun split_dots :: "bytes \<Rightarrow> bytes list" where
  "split_dots [] = [[]]"
| "split_dots (c # cs) =
     (if c = 46 then [] # split_dots cs else (c # hd (split_dots cs)) # tl (split_dots cs))"

definition digit :: "byte \<Rightarrow> bool" where
  "digit c \<longleftrightarrow> c \<in> set (ascii ''0123456789'')"

definition letter :: "byte \<Rightarrow> bool" where
  "letter c \<longleftrightarrow> c \<in> set (ascii ''abcdefghijklmnopqrstuvwxyzABCDEFGHIJKLMNOPQRSTUVWXYZ'')"

definition ident_of :: "bytes \<Rightarrow> ident" where
  "ident_of s = (if list_all digit s then Numeric (decimal s) else Alphanumeric s)"

definition semver_of :: "ver \<Rightarrow> semver" where
  "semver_of v =
     \<lparr>sv_major = decimal (v_maj v), sv_minor = decimal (v_min v), sv_patch = decimal (v_pat v),
      sv_pre = map_option (map ident_of \<circ> split_dots) (v_pre v)\<rparr>"

section \<open>Numbers\<close>

definition canonical_number :: "bytes \<Rightarrow> bool" where
  "canonical_number s \<longleftrightarrow> s \<noteq> [] \<and> list_all digit s \<and> (hd s = 48 \<longrightarrow> length s = 1)"

text \<open>The classes of characters are ranges of bytes.\<close>

lemma byte_range:
  assumes "0 \<le> a" "b \<le> 255"
  shows "(c :: byte) \<in> set (map word_of_int [a..b]) \<longleftrightarrow> a \<le> uint c \<and> uint c \<le> b"
proof
  assume "c \<in> set (map word_of_int [a..b])"
  then obtain i where "c = word_of_int i" "a \<le> i" "i \<le> b" by auto
  moreover have "uint (word_of_int i :: byte) = i" using calculation assms by (simp add: uint_word_of_int)
  ultimately show "a \<le> uint c \<and> uint c \<le> b" by simp
next
  assume "a \<le> uint c \<and> uint c \<le> b"
  then show "c \<in> set (map word_of_int [a..b])" by (auto intro!: image_eqI [of _ _ "uint c"])
qed

lemma digit_eq: "digit = is_digit"
proof
  fix c
  have "ascii ''0123456789'' = map word_of_int [48..57]" by code_simp
  then show "digit c = is_digit c" using byte_range [of 48 57 c] by (simp only: digit_def is_digit_def word_le_def) simp
qed

lemma ident_char_eq: "is_ident_char = (\<lambda>c. digit c \<or> letter c \<or> c = 45)"
proof
  fix c
  have "ascii ''abcdefghijklmnopqrstuvwxyzABCDEFGHIJKLMNOPQRSTUVWXYZ'' = map word_of_int [97..122] @ map word_of_int [65..90]"
    by code_simp
  then show "is_ident_char c \<longleftrightarrow> digit c \<or> letter c \<or> c = 45"
    using byte_range [of 97 122 c] byte_range [of 65 90 c]
    by (simp only: letter_def is_ident_char_def digit_eq set_append Un_iff word_le_def) auto
qed

lemmas canonical_number_iff = canonical_number_def [unfolded digit_eq]
lemmas ident_of_eq = ident_of_def [unfolded digit_eq]

lemma is_digit_unat: "is_digit c \<Longrightarrow> 48 \<le> unat c \<and> unat c \<le> 57"
  by (simp add: is_digit_def word_le_nat_alt)

lemma decimal_Nil [simp]: "decimal [] = 0"
  by (simp add: decimal_def)

lemma decimal_acc: "foldl (\<lambda>n d. 10 * n + (unat (d :: byte) - 48)) n ds = n * 10 ^ length ds + decimal ds"
proof (induction ds arbitrary: n)
  case (Cons d ds)
  have "decimal (d # ds) = (unat d - 48) * 10 ^ length ds + decimal ds"
    using Cons.IH [of "unat d - 48"] by (simp add: decimal_def)
  then show ?case using Cons.IH [of "10 * n + (unat d - 48)"] by (simp add: algebra_simps)
qed simp

lemma decimal_Cons: "decimal (d # ds) = (unat d - 48) * 10 ^ length ds + decimal ds"
  using decimal_acc [of "unat d - 48" ds] by (simp add: decimal_def)

lemma decimal_bound: "list_all is_digit ds \<Longrightarrow> decimal ds < 10 ^ length ds"
proof (induction ds)
  case (Cons d ds)
  then have "unat d - 48 \<le> 9" "decimal ds < 10 ^ length ds" using is_digit_unat [of d] by auto
  then have "(unat d - 48) * 10 ^ length ds + decimal ds < 9 * 10 ^ length ds + 10 ^ length ds"
    by (intro add_le_less_mono mult_le_mono1)
  then show ?case by (simp add: decimal_Cons)
qed simp

lemma decimal_lower:
  assumes "canonical_number s" "1 < length s"
  shows "10 ^ (length s - 1) \<le> decimal s"
proof (cases s)
  case (Cons d ds)
  then have "is_digit d" "d \<noteq> 48" using assms by (auto simp: canonical_number_iff)
  then have "1 \<le> unat d - 48" using is_digit_unat [of d] word_unat_eq_iff [of d 48] by auto
  then have "1 * 10 ^ length ds \<le> (unat d - 48) * 10 ^ length ds" by (rule mult_le_mono1)
  then have "10 ^ length ds \<le> decimal (d # ds)" unfolding decimal_Cons by linarith
  then show ?thesis using Cons by simp
qed (use assms in simp)

lemma decimal_shorter:
  assumes "canonical_number a" "canonical_number b" "length a < length b"
  shows "decimal a < decimal b"
proof -
  have "a \<noteq> []" using assms(1) by (simp add: canonical_number_iff)
  then have "1 < length b" using assms(3) by (cases a) auto
  then have "10 ^ (length b - 1) \<le> decimal b" using assms(2) by (rule decimal_lower [rotated])
  moreover have "decimal a < 10 ^ length a"
    using assms(1) decimal_bound by (simp add: canonical_number_iff)
  moreover have "(10 :: nat) ^ length a \<le> 10 ^ (length b - 1)"
    using assms(3) by (intro power_increasing) auto
  ultimately show ?thesis by linarith
qed

lemma memcmp_decimal:
  assumes "length a = length b" "list_all is_digit a" "list_all is_digit b"
  shows "memcmp a b = order_sign (decimal a) (decimal b)"
  using assms
proof (induction a b rule: list_induct2)
  case (Cons x xs y ys)
  have less: "decimal (u # us) < decimal (v # vs)"
    if "u < v" "is_digit u" "list_all is_digit us" "length us = length vs" for u v :: byte and us vs
  proof -
    have "Suc (unat u - 48) \<le> unat v - 48"
      using that(1) is_digit_unat [OF that(2)] by (auto simp: word_less_nat_alt)
    then have "Suc (unat u - 48) * 10 ^ length us \<le> (unat v - 48) * 10 ^ length us" by (rule mult_le_mono1)
    then show ?thesis using decimal_bound [OF that(3)] that(4) by (simp add: decimal_Cons)
  qed
  show ?case
    using Cons less [of x y xs ys] less [of y x ys xs]
    by (auto simp: order_sign_def decimal_Cons)
qed (simp add: order_sign_def)

lemma cmp_num_decimal:
  assumes "canonical_number a" "canonical_number b"
  shows "cmp_num a b = order_sign (decimal a) (decimal b)"
proof (cases "length a = length b")
  case True
  then show ?thesis using memcmp_decimal [OF True] assms
    by (simp add: cmp_num_def Let_def canonical_number_iff order_sign_def)
next
  case False
  then show ?thesis
    using decimal_shorter [OF assms] decimal_shorter [OF assms(2,1)]
    by (auto simp: cmp_num_def order_sign_def not_less_iff_gr_or_eq)
qed

section \<open>Identifiers\<close>

lemma order_sign_ident [simp]:
  "order_sign (Numeric m) (Numeric n) = order_sign m n"
  "order_sign (Numeric m) (Alphanumeric t) = -1"
  "order_sign (Alphanumeric s) (Numeric n) = 1"
  "order_sign (Alphanumeric s) (Alphanumeric t) = order_sign s t"
  by (auto simp: order_sign_def less_ident_def)

lemma order_sign_Cons:
  "order_sign (x # xs) (y # ys) = (if order_sign x y \<noteq> 0 then order_sign x y else order_sign xs ys)"
  by (auto simp: order_sign_def)

lemma order_sign_Nil:
  "order_sign [] [] = 0" "order_sign [] (y # ys) = -1" "order_sign (x # xs) [] = 1"
  by (auto simp: order_sign_def)

lemma order_sign_Pair:
  "order_sign (a, b) (c, d) = (if order_sign a c \<noteq> 0 then order_sign a c else order_sign b d)"
  by (auto simp: order_sign_def)

lemma memcmp_min: "memcmp (take (min (length a) (length b)) a) (take (min (length a) (length b)) b) = memcmp a b"
  by (induction a b rule: memcmp.induct) auto

lemma memcmp_sign: "memcmp a b \<noteq> 0 \<Longrightarrow> memcmp a b = (if memcmp a b < 0 then -1 else 1)"
  by (induction a b rule: memcmp.induct) auto

lemma order_sign_memcmp:
  "order_sign a b = (if memcmp a b \<noteq> 0 then memcmp a b
     else if length a < length b then -1 else if length a = length b then 0 else 1)"
proof (induction a arbitrary: b)
  case Nil
  then show ?case by (cases b) (simp_all add: order_sign_Nil)
next
  case (Cons x a)
  then show ?case by (cases b) (auto simp: order_sign_Cons order_sign_Nil order_sign_def [of x])
qed

definition ident_ok :: "bytes \<Rightarrow> bool" where
  "ident_ok s \<longleftrightarrow> s \<noteq> [] \<and> list_all is_ident_char s \<and> (list_all is_digit s \<longrightarrow> canonical_number s)"

lemma cmp_ident_order:
  assumes "ident_ok a" "ident_ok b"
  shows "cmp_ident a b = order_sign (ident_of a) (ident_of b)"
  using assms cmp_num_decimal [of a b] memcmp_sign [of a b]
  unfolding cmp_ident_def Let_def memcmp_min
  by (auto simp: ident_of_eq ident_ok_def order_sign_memcmp [of a b])

text \<open>The identifiers as the code steps through them.\<close>

function dot_parts :: "bytes \<Rightarrow> bytes list" where
  "dot_parts s =
     (if 46 \<in> set s then takeWhile (\<lambda>c. c \<noteq> 46) s # dot_parts (next_ident s) else [s])"
  by pat_completeness auto
termination
  by (relation "measure length") (auto intro!: next_ident_shorter)

declare dot_parts.simps [simp del]

lemma dot_parts_nonempty [simp]: "dot_parts s \<noteq> []"
  by (simp add: dot_parts.simps [of s])

lemma dot_parts_step:
  "dot_parts s = takeWhile (\<lambda>c. c \<noteq> 46) s # (if 46 \<in> set s then dot_parts (next_ident s) else [])"
proof (cases "46 \<in> set s")
  case True
  then show ?thesis by (simp add: dot_parts.simps [of s])
next
  case False
  then have all: "takeWhile (\<lambda>c. c \<noteq> 46) s = s" using takeWhile_eq_all_conv [of "\<lambda>c. c \<noteq> 46" s] by blast
  show ?thesis unfolding dot_parts.simps [of s] all using False by simp
qed

lemma split_dots_parts [simp]: "split_dots s = dot_parts s"
proof (induction s)
  case Nil
  then show ?case by (simp add: dot_parts.simps)
next
  case (Cons c s)
  then show ?case
    by (simp add: dot_parts_step [of "c # s"] dot_parts_step [of s] next_ident_def)
qed

lemma next_ident_Nil:
  assumes "list_all ident_ok (dot_parts s)"
  shows "next_ident s = [] \<longleftrightarrow> 46 \<notin> set s"
proof
  assume "next_ident s = []"
  show "46 \<notin> set s"
  proof
    assume "46 \<in> set s"
    then have "ident_ok []"
      using assms \<open>next_ident s = []\<close> by (simp add: dot_parts_step [of s] dot_parts.simps [of "[]"])
    then show False by (simp add: ident_ok_def)
  qed
next
  assume "46 \<notin> set s"
  then have none: "dropWhile (\<lambda>c. c \<noteq> 46) s = []" using dropWhile_eq_Nil_conv [of "\<lambda>c. c \<noteq> 46" s] by blast
  show "next_ident s = []" unfolding next_ident_def none by simp
qed

lemma cmp_pre_order:
  assumes "list_all ident_ok (dot_parts a)" "list_all ident_ok (dot_parts b)"
  shows "cmp_pre a b = order_sign (map ident_of (dot_parts a)) (map ident_of (dot_parts b))"
  using assms
proof (induction a b rule: cmp_pre.induct)
  case (1 a b)
  let ?fst = "takeWhile (\<lambda>c. c \<noteq> 46)"
  have ok: "ident_ok (?fst a)" "ident_ok (?fst b)"
    using "1.prems" by (simp_all add: dot_parts_step [of a] dot_parts_step [of b])
  then have ne: "a \<noteq> []" "b \<noteq> []" by (auto simp: ident_ok_def)
  have nxt: "next_ident a = [] \<longleftrightarrow> 46 \<notin> set a" "next_ident b = [] \<longleftrightarrow> 46 \<notin> set b"
    using "1.prems" by (simp_all add: next_ident_Nil)
  have c: "cmp_ident (?fst a) (?fst b) = order_sign (ident_of (?fst a)) (ident_of (?fst b))"
    using ok by (rule cmp_ident_order)
  have IH: "cmp_pre (next_ident a) (next_ident b) =
      order_sign (map ident_of (dot_parts (next_ident a))) (map ident_of (dot_parts (next_ident b)))"
    if "cmp_ident (?fst a) (?fst b) = 0" "46 \<in> set a" "46 \<in> set b"
    using that "1.prems" ne nxt
    by (intro "1.IH") (auto simp: dot_parts_step [of a] dot_parts_step [of b])
  have "cmp_pre [] x = 0" for x by (simp add: cmp_pre.simps)
  then show ?case
    using IH ne nxt c
    by (subst cmp_pre.simps)
      (auto simp: dot_parts_step [of a] dot_parts_step [of b] order_sign_Cons order_sign_Nil Let_def
        neq_Nil_conv dot_parts_step [of "next_ident a"] dot_parts_step [of "next_ident b"])
qed

section \<open>The grammar\<close>

definition number :: "bytes \<Rightarrow> bool" where
  "number s \<longleftrightarrow> canonical_number s \<and> length s \<le> 18"

definition ident_text :: "bool \<Rightarrow> bytes \<Rightarrow> bool" where
  "ident_text strict s \<longleftrightarrow> s \<noteq> [] \<and> list_all (\<lambda>c. digit c \<or> letter c \<or> c = 45) s \<and>
     (strict \<longrightarrow> list_all digit s \<longrightarrow> canonical_number s)"

definition idents_text :: "bool \<Rightarrow> bytes \<Rightarrow> bool" where
  "idents_text strict t \<longleftrightarrow> list_all (ident_text strict) (split_dots t)"

lemma ident_text_eq: "ident_text strict s \<longleftrightarrow> s \<noteq> [] \<and> list_all is_ident_char s \<and> (strict \<longrightarrow> list_all is_digit s \<longrightarrow> canonical_number s)"
  unfolding ident_text_def ident_char_eq digit_eq by (rule refl)

lemma not_ident_char [simp]: "\<not> is_ident_char 46" "\<not> is_ident_char 43"
  by (simp_all add: is_ident_char_def is_digit_def)

lemma not_digit [simp]: "\<not> is_digit 46" "\<not> is_digit 45" "\<not> is_digit 43"
  by (simp_all add: is_digit_def)

lemma ident_no_dot: "list_all is_ident_char s \<Longrightarrow> 46 \<notin> set s"
  by (auto simp: list_all_iff)

lemma takeWhile_stop:
  assumes "list_all P s" "r = [] \<or> \<not> P (hd r)"
  shows "takeWhile P (s @ r) = s" "dropWhile P (s @ r) = r"
  using assms by (cases r; auto simp: list_all_iff takeWhile_append2 dropWhile_append2)+

lemma dot_parts_single: "46 \<notin> set s \<Longrightarrow> dot_parts s = [s]"
  by (simp add: dot_parts.simps)

lemma dot_parts_Cons:
  assumes "46 \<notin> set s"
  shows "dot_parts (s @ 46 # t) = s # dot_parts t"
proof -
  have "list_all (\<lambda>c. c \<noteq> 46) s" using assms by (auto simp: list_all_iff)
  then have "takeWhile (\<lambda>c. c \<noteq> 46) (s @ 46 # t) = s" "next_ident (s @ 46 # t) = t"
    using takeWhile_stop [of "\<lambda>c. c \<noteq> 46" s "46 # t"] by (simp_all add: next_ident_def)
  then show ?thesis by (subst dot_parts.simps) simp
qed

lemma ident_text_iff:
  "list_all is_ident_char st \<Longrightarrow> st \<noteq> [] \<Longrightarrow>
     ident_text strict st \<longleftrightarrow> \<not> (strict \<and> list_all is_digit st \<and> hd st = 48 \<and> 1 < length st)"
  by (cases st) (auto simp: ident_text_eq canonical_number_iff)

lemma ident_loop_step:
  assumes "list_all is_ident_char st" "rest = [] \<or> \<not> is_ident_char (hd rest)"
  shows "ident_loop strict (st @ rest) =
    (if st = [] \<or> \<not> ident_text strict st then None
     else case rest of
            [] \<Rightarrow> Some (st, [])
          | c # q' \<Rightarrow>
              (if c = 46 then map_option (\<lambda>(t, r). (st @ 46 # t, r)) (ident_loop strict q')
               else Some (st, rest)))"
proof (cases "st = []")
  case False
  show ?thesis
    unfolding ident_loop.simps [of strict "st @ rest"] Let_def takeWhile_stop [OF assms]
      ident_text_iff [OF assms(1) False, of strict] using False by simp
next
  case True
  then show ?thesis
    unfolding ident_loop.simps [of strict "st @ rest"] Let_def takeWhile_stop [OF assms] by simp
qed

lemma ident_split:
  obtains st rest where "q = st @ rest" "list_all is_ident_char st" "rest = [] \<or> \<not> is_ident_char (hd rest)"
proof
  show "q = takeWhile is_ident_char q @ dropWhile is_ident_char q" by simp
  show "list_all is_ident_char (takeWhile is_ident_char q)" by (auto simp: list_all_iff dest: set_takeWhileD)
  show "dropWhile is_ident_char q = [] \<or> \<not> is_ident_char (hd (dropWhile is_ident_char q))"
    using hd_dropWhile by blast
qed

text \<open>The loop over identifiers reads the longest such text.\<close>

lemma ident_loop_sound:
  "ident_loop strict q = Some (t, r) \<Longrightarrow>
     q = t @ r \<and> idents_text strict t \<and> (r = [] \<or> \<not> is_ident_char (hd r) \<and> hd r \<noteq> 46)"
proof (induction q arbitrary: t r rule: length_induct)
  case (1 q)
  obtain st rest where q: "q = st @ rest" and st: "list_all is_ident_char st"
    and rest: "rest = [] \<or> \<not> is_ident_char (hd rest)" by (rule ident_split)
  have loop: "ident_loop strict (st @ rest) = Some (t, r)" using "1.prems" q by simp
  have ok: "ident_text strict st" "st \<noteq> []"
    using loop unfolding ident_loop_step [OF st rest] by (auto split: if_splits)
  have dot: "46 \<notin> set st" using st by (rule ident_no_dot)
  show ?case
  proof (cases "rest \<noteq> [] \<and> hd rest = 46")
    case True
    then obtain q' where q': "rest = 46 # q'" by (cases rest) auto
    then obtain t' where t': "ident_loop strict q' = Some (t', r)" "t = st @ 46 # t'"
      using loop ok unfolding ident_loop_step [OF st rest] by auto
    have "q' = t' @ r \<and> idents_text strict t' \<and> (r = [] \<or> \<not> is_ident_char (hd r) \<and> hd r \<noteq> 46)"
      using "1.IH" [rule_format, of q' t' r] t'(1) q q' by simp
    then show ?thesis using q q' t' ok dot_parts_Cons [OF dot] by (simp add: idents_text_def)
  next
    case False
    then have "t = st \<and> r = rest"
      using loop ok unfolding ident_loop_step [OF st rest] by (cases rest) auto
    then show ?thesis using q rest ok False dot_parts_single [OF dot] by (auto simp: idents_text_def)
  qed
qed

lemma dot_split: "46 \<in> set t \<Longrightarrow> t = takeWhile (\<lambda>c. c \<noteq> 46) t @ 46 # next_ident t"
  by (induction t) (auto simp: next_ident_def)

lemma ident_loop_complete:
  assumes "idents_text strict t" "r = [] \<or> \<not> is_ident_char (hd r) \<and> hd r \<noteq> 46"
  shows "ident_loop strict (t @ r) = Some (t, r)"
  using assms(1)
proof (induction t rule: dot_parts.induct)
  case (1 t)
  define st where "st = takeWhile (\<lambda>c. c \<noteq> 46) t"
  have st: "ident_text strict st" using "1.prems" by (simp add: idents_text_def dot_parts_step [of t] st_def)
  then have all: "list_all is_ident_char st" "st \<noteq> []" by (auto simp: ident_text_eq)
  show ?case
  proof (cases "46 \<in> set t")
    case True
    let ?n = "next_ident t"
    have t: "t = st @ 46 # ?n" using dot_split [OF True] by (simp only: st_def)
    have "ident_loop strict (?n @ r) = Some (?n, r)"
      using "1.IH" [OF True] "1.prems" True by (simp add: idents_text_def dot_parts_step [of t])
    then have "ident_loop strict (st @ 46 # ?n @ r) = Some (st @ 46 # ?n, r)"
      using st all ident_loop_step [OF all(1), of "46 # ?n @ r" strict] by simp
    then show ?thesis by (metis t append_Cons append_assoc)
  next
    case False
    then have "takeWhile (\<lambda>c. c \<noteq> 46) t = t"
      using takeWhile_eq_all_conv [of "\<lambda>c. c \<noteq> 46" t] by blast
    then have t: "t = st" by (simp only: st_def)
    have "ident_loop strict (st @ r) = Some (st, r)"
      using ident_loop_step [OF all(1), of r strict] st all assms(2) by (cases r) auto
    then show ?thesis using t by simp
  qed
qed

lemma num_part_sound:
  assumes "num_part p = Some (ds, q)"
  shows "p = ds @ q \<and> number ds"
proof -
  have ds: "ds = takeWhile is_digit p" "ds \<noteq> []" "length ds \<le> 18" "\<not> (hd ds = 48 \<and> 1 < length ds)"
    and q: "q = dropWhile is_digit p"
    using assms by (auto simp: num_part_def Let_def split: if_splits)
  have "list_all is_digit ds" using ds(1) by (auto simp: list_all_iff dest: set_takeWhileD)
  moreover have "length ds = 1" if "hd ds = 48" using that ds(2,4) by (cases ds) auto
  moreover have "p = ds @ q" using ds(1) q by simp
  ultimately show ?thesis using ds(2,3) by (simp add: number_def canonical_number_iff)
qed

lemma num_part_complete:
  assumes "number ds" "q = [] \<or> \<not> is_digit (hd q)"
  shows "num_part (ds @ q) = Some (ds, q)"
proof -
  have "list_all is_digit ds" using assms(1) by (simp add: number_def canonical_number_iff)
  then show ?thesis
    using assms takeWhile_stop [of is_digit ds q]
    by (auto simp: num_part_def Let_def number_def canonical_number_iff)
qed

text \<open>The optional parts: a mark and identifiers.\<close>

definition optional_text :: "byte \<Rightarrow> bool \<Rightarrow> bytes \<Rightarrow> bytes option \<Rightarrow> bool" where
  "optional_text mark strict s t \<longleftrightarrow>
     (case t of None \<Rightarrow> s = [] | Some u \<Rightarrow> s = mark # u \<and> idents_text strict u)"

definition version_text :: "bytes \<Rightarrow> ver \<Rightarrow> bytes option \<Rightarrow> bool" where
  "version_text s v build \<longleftrightarrow>
     number (v_maj v) \<and> number (v_min v) \<and> number (v_pat v) \<and>
     (\<exists>pre bld. s = v_maj v @ 46 # v_min v @ 46 # v_pat v @ pre @ bld \<and>
        optional_text 45 True pre (v_pre v) \<and> optional_text 43 False bld build)"

lemma expect_dot_iff: "expect_dot p = Some q \<longleftrightarrow> p = 46 # q"
  by (cases p) (auto simp: expect_dot_def)

lemma parse_pre_sound:
  assumes "parse_pre p = Some (pre, q)"
  shows "\<exists>s. p = s @ q \<and> optional_text 45 True s pre"
proof (cases "p \<noteq> [] \<and> hd p = 45")
  case True
  then obtain q0 where "p = 45 # q0" by (cases p) auto
  then show ?thesis
    using assms ident_loop_sound [of True q0] by (auto simp: parse_pre_def optional_text_def)
next
  case False
  then show ?thesis using assms by (cases p) (auto simp: parse_pre_def optional_text_def)
qed

lemma parse_build_sound:
  assumes "parse_build p = Some []"
  shows "\<exists>build. optional_text 43 False p build"
proof (cases "p \<noteq> [] \<and> hd p = 43")
  case True
  then obtain q0 where p: "p = 43 # q0" by (cases p) auto
  then obtain t where "ident_loop False q0 = Some (t, [])" using assms by (auto simp: parse_build_def)
  then show ?thesis using p ident_loop_sound [of False q0 t "[]"]
    by (intro exI [of _ "Some t"]) (simp add: optional_text_def)
next
  case False
  then show ?thesis using assms by (cases p) (auto simp: parse_build_def optional_text_def intro: exI [of _ None])
qed

lemma parse_ver_sound:
  assumes "parse_ver s = Some v"
  shows "\<exists>build. version_text s v build"
proof -
  from assms obtain p1 p2 p3 p4 p5 p6 where p:
    "num_part s = Some (v_maj v, p1)" "expect_dot p1 = Some p2" "num_part p2 = Some (v_min v, p3)"
    "expect_dot p3 = Some p4" "num_part p4 = Some (v_pat v, p5)" "parse_pre p5 = Some (v_pre v, p6)"
    "parse_build p6 = Some []"
    by (auto simp: parse_ver_def split: option.splits prod.splits if_splits)
  obtain pre where "p5 = pre @ p6" "optional_text 45 True pre (v_pre v)"
    using parse_pre_sound [OF p(6)] by blast
  moreover obtain build where "optional_text 43 False p6 build" using parse_build_sound [OF p(7)] by blast
  ultimately show ?thesis
    using num_part_sound [OF p(1)] num_part_sound [OF p(3)] num_part_sound [OF p(5)] p(2,4)
    by (intro exI [of _ build]) (auto simp: version_text_def expect_dot_iff)
qed

lemma parse_ver_complete:
  assumes "version_text s v build"
  shows "parse_ver s = Some v"
proof -
  from assms obtain pre bld where s: "s = v_maj v @ 46 # v_min v @ 46 # v_pat v @ pre @ bld"
    and pre: "optional_text 45 True pre (v_pre v)" and bld: "optional_text 43 False bld build"
    and num: "number (v_maj v)" "number (v_min v)" "number (v_pat v)"
    by (auto simp: version_text_def)
  have hd_bld: "bld = [] \<or> hd bld = 43" using bld by (auto simp: optional_text_def split: option.splits)
  then have stop: "bld = [] \<or> \<not> is_ident_char (hd bld) \<and> hd bld \<noteq> 46" by auto
  have hd_pre: "pre @ bld = [] \<or> \<not> is_digit (hd (pre @ bld))"
    using hd_bld pre by (auto simp: optional_text_def split: option.splits)
  have p: "parse_pre (pre @ bld) = Some (v_pre v, bld)"
    using pre hd_bld ident_loop_complete [OF _ stop, of True]
    by (cases bld) (auto simp: optional_text_def parse_pre_def split: option.splits)
  have b: "parse_build bld = Some []"
    using bld ident_loop_complete [of False _ "[]"]
    by (auto simp: optional_text_def parse_build_def split: option.splits)
  show ?thesis
    using num hd_pre p b
    by (simp add: parse_ver_def s num_part_complete expect_dot_iff expect_dot_def)
qed

lemma parsed_ok:
  assumes "parse_ver s = Some v"
  shows "canonical_number (v_maj v)" "canonical_number (v_min v)" "canonical_number (v_pat v)"
    "v_pre v = Some t \<Longrightarrow> list_all ident_ok (dot_parts t)"
  using parse_ver_sound [OF assms]
  by (auto simp: version_text_def number_def optional_text_def idents_text_def ident_text_eq ident_ok_def
      elim!: list.pred_mono_strong)

lemma short_version: "parse_ver (ascii ''1.0'') = None"
  by code_simp

section \<open>Properties\<close>

text \<open>
  C12: The comparison of two versions is the precedence of SemVer 2.0.0: it is negative, zero or positive
  as the first is below, equal to or above the second in the order that compares major, minor and patch
  as numbers, puts a release above its prereleases, and compares prereleases identifier by identifier
  (numbers numerically and below other identifiers, a longer list above its prefixes). Build metadata do
  not count. The texts are read by the grammar, not by the parser of the code; a text outside the grammar
  (with its 18 digits) sets the error flag.
\<close>

theorem version_order:
  "(\<forall>v w x y. version_text a v x \<and> version_text b w y \<longrightarrow>
      wf_update_compare_versions a b = (order_sign (precedence (semver_of v)) (precedence (semver_of w)), False)) \<and>
   ((\<nexists>v x. version_text a v x) \<or> (\<nexists>w y. version_text b w y) \<longrightarrow> wf_update_compare_versions a b = (0, True))"
proof (intro conjI allI impI)
  fix v w x y
  assume "version_text a v x \<and> version_text b w y"
  then have v: "parse_ver a = Some v" and w: "parse_ver b = Some w" using parse_ver_complete by auto
  note num = cmp_num_decimal [OF parsed_ok(1) [OF v] parsed_ok(1) [OF w]]
    cmp_num_decimal [OF parsed_ok(2) [OF v] parsed_ok(2) [OF w]]
    cmp_num_decimal [OF parsed_ok(3) [OF v] parsed_ok(3) [OF w]]
  have pre: "cmp_pre p q = order_sign (map ident_of (dot_parts p)) (map ident_of (dot_parts q))"
    if "v_pre v = Some p" "v_pre w = Some q" for p q
    using that parsed_ok(4) [OF v] parsed_ok(4) [OF w] by (intro cmp_pre_order) auto
  show "wf_update_compare_versions a b = (order_sign (precedence (semver_of v)) (precedence (semver_of w)), False)"
    unfolding wf_update_compare_versions_def v w option.case prod.case num Let_def
    by (simp add: semver_of_def precedence_def order_sign_Pair pre order_sign_def [of "Suc 0"]
        order_sign_def [of "0 :: nat"] order_sign_Nil split: option.split)
next
  assume "(\<nexists>v x. version_text a v x) \<or> (\<nexists>w y. version_text b w y)"
  then have "parse_ver a = None \<or> parse_ver b = None" using parse_ver_sound by (metis option.exhaust)
  then show "wf_update_compare_versions a b = (0, True)"
    by (auto simp: wf_update_compare_versions_def split: option.split)
qed

theorem version_order_witness:
  "wf_update_compare_versions (ascii ''1.0.0-rc.2+b7'') (ascii ''1.0.0-rc.10'') = (-1, False) \<and>
   wf_update_compare_versions (ascii ''1.0'') (ascii ''1.0.0'') = (0, True)"
proof -
  let ?v = "\<lparr>v_maj = ascii ''1'', v_min = ascii ''0'', v_pat = ascii ''0'', v_pre = Some (ascii ''rc.2'')\<rparr>"
  let ?w = "\<lparr>v_maj = ascii ''1'', v_min = ascii ''0'', v_pat = ascii ''0'', v_pre = Some (ascii ''rc.10'')\<rparr>"
  have v: "version_text (ascii ''1.0.0-rc.2+b7'') ?v (Some (ascii ''b7''))"
    unfolding version_text_def by (intro conjI exI [of _ "ascii ''-rc.2''"] exI [of _ "ascii ''+b7''"]; code_simp)
  have w: "version_text (ascii ''1.0.0-rc.10'') ?w None"
    unfolding version_text_def by (intro conjI exI [of _ "ascii ''-rc.10''"] exI [of _ "[]"]; code_simp)
  have "order_sign (precedence (semver_of ?v)) (precedence (semver_of ?w)) = -1" by code_simp
  then have "wf_update_compare_versions (ascii ''1.0.0-rc.2+b7'') (ascii ''1.0.0-rc.10'') = (-1, False)"
    using conjunct1 [OF version_order, rule_format, OF conjI [OF v w]] by (simp only:)
  moreover have "\<nexists>v x. version_text (ascii ''1.0'') v x" using parse_ver_complete [of "ascii ''1.0''"] by (auto simp: short_version)
  ultimately show ?thesis using version_order [of "ascii ''1.0''" "ascii ''1.0.0''"] by blast
qed

text \<open>
  C24: The parser accepts exactly the versions of the SemVer grammar (with at most 18 digits in each of
  the three numbers): three numbers without leading zeros, an optional prerelease of dot-separated
  identifiers whose numeric ones have no leading zero, and optional build metadata.
\<close>

theorem version_grammar:
  "wf_update_version_valid s \<longleftrightarrow> (\<exists>v build. version_text s v build)"
  unfolding wf_update_version_valid_def using parse_ver_sound parse_ver_complete by blast

end
