(* ===== verification/Update_Manifest.thy ===== *)
theory Update_Manifest
  imports Update Version_Props Record_Builder
begin

text \<open>
  The release manifest, \<^verbatim>\<open>src/update/manifest.c\<close>: a JSON object is checked field by field and against the
  caller's policy before anything is downloaded. The JSON parser is an argument. The last property
  composes the manifest with the check of the download.
\<close>

section \<open>The code\<close>

record wf_update_manifest =
  um_app :: bytes
  um_version :: bytes
  um_notes :: bytes
  um_asset :: wf_update_asset
  um_has_signature :: bool

text \<open>A null policy is one whose members are all zero.\<close>

record wf_update_policy =
  pol_max_size :: u64
  pol_app :: "bytes option"
  pol_url_prefix :: "bytes option"

definition str_fits :: "cJSON \<Rightarrow> string \<Rightarrow> nat \<Rightarrow> bytes option" where
  "str_fits obj key cap =
     (case cJSON_GetObjectItemCaseSensitive obj key of
        Some (cJSON_String s) \<Rightarrow> (if s = [] \<or> cap \<le> length s then None else Some s)
      | _ \<Rightarrow> None)"

definition url_ok :: "bytes \<Rightarrow> bool" where
  "url_ok u \<longleftrightarrow>
     take 8 u = ascii ''https://'' \<and>
     list_all (\<lambda>c. \<not> (c \<le> 0x20 \<or> c = 0x7f \<or> c = 0x5c)) u \<and>
     (let host = takeWhile (\<lambda>c. c \<noteq> 0x2f \<and> c \<noteq> 0x3f \<and> c \<noteq> 0x23) (drop 8 u)
      in 0x40 \<notin> set host \<and> host \<noteq> [])"

text \<open>The size of the asset: a whole number from 1 to 2^32 - 1.\<close>

definition asset_size :: "cJSON \<Rightarrow> u64 option" where
  "asset_size asset =
     (case cJSON_GetObjectItemCaseSensitive asset ''size'' of
        Some (cJSON_Number (Finite x)) \<Rightarrow>
          (if x < 1 \<or> x \<noteq> of_int \<lfloor>x\<rfloor> \<or> 4294967295 < x then None else Some (word_of_int \<lfloor>x\<rfloor>))
      | _ \<Rightarrow> None)"

definition manifest_notes :: "cJSON \<Rightarrow> bytes option" where
  "manifest_notes doc =
     (case cJSON_GetObjectItemCaseSensitive doc ''notes'' of
        None \<Rightarrow> Some []
      | Some cJSON_Null \<Rightarrow> Some []
      | Some (cJSON_String s) \<Rightarrow> (if 1024 \<le> length s then None else Some s)
      | Some _ \<Rightarrow> None)"

text \<open>The fields, or \<open>None\<close> where the code leaves with \<^verbatim>\<open>WF_ERR_PARSE\<close>.\<close>

definition manifest_fields :: "cJSON \<Rightarrow> wf_update_manifest option" where
  "manifest_fields doc =
     (if cJSON_GetObjectItemCaseSensitive doc ''schema'' \<noteq> Some (cJSON_Number (Finite 1)) then None else
      case str_fits doc ''app'' 32 of None \<Rightarrow> None | Some app \<Rightarrow>
      case str_fits doc ''version'' 32 of None \<Rightarrow> None | Some version \<Rightarrow>
      if \<not> wf_update_version_valid version then None else
      case cJSON_GetObjectItemCaseSensitive doc ''asset'' of
        Some (cJSON_Object kvs) \<Rightarrow>
          (let asset = cJSON_Object kvs in
           case str_fits asset ''name'' 96 of None \<Rightarrow> None | Some name \<Rightarrow>
           case str_fits asset ''url'' 512 of None \<Rightarrow> None | Some url \<Rightarrow>
           case str_fits asset ''sha256'' 65 of None \<Rightarrow> None | Some sha \<Rightarrow>
           if \<not> url_ok url then None else
           case asset_size asset of None \<Rightarrow> None | Some asize \<Rightarrow>
           case wf_sha256_from_hex sha of Inl _ \<Rightarrow> None | Inr digest \<Rightarrow>
           case manifest_notes doc of None \<Rightarrow> None | Some notes \<Rightarrow>
             Some \<lparr>um_app = app, um_version = version, um_notes = notes,
                   um_asset = \<lparr>as_name = name, as_url = url, as_size = asize, as_sha256 = digest\<rparr>,
                   um_has_signature =
                     (cJSON_GetObjectItemCaseSensitive doc ''signature'' \<notin> {None, Some cJSON_Null})\<rparr>)
      | _ \<Rightarrow> None)"

definition max_asset_size :: "wf_update_policy \<Rightarrow> u64" where
  "max_asset_size policy = (if pol_max_size policy \<noteq> 0 then pol_max_size policy else 64 * 1024 * 1024)"

definition wf_update_parse_manifest ::
  "(bytes \<Rightarrow> cJSON option) \<Rightarrow> wf_update_policy \<Rightarrow> bytes \<Rightarrow> wf_update_manifest res" where
  "wf_update_parse_manifest cJSON_Parse policy body =
     (case cJSON_Parse body of
        Some (cJSON_Object kvs) \<Rightarrow>
          (case manifest_fields (cJSON_Object kvs) of
             None \<Rightarrow> Inl WF_ERR_PARSE
           | Some m \<Rightarrow>
               (if max_asset_size policy < as_size (um_asset m) then Inl WF_ERR_VALIDATION
                else if pol_app policy \<notin> {None, Some (um_app m)} then Inl WF_ERR_VALIDATION
                else case pol_url_prefix policy of
                       None \<Rightarrow> Inr m
                     | Some prefix \<Rightarrow>
                         (if take (length prefix) (as_url (um_asset m)) \<noteq> prefix then Inl WF_ERR_VALIDATION
                          else if take 8 prefix \<noteq> ascii ''https://'' then Inl WF_ERR_VALIDATION
                          else Inr m)))
      | _ \<Rightarrow> Inl WF_ERR_PARSE)"

section \<open>Lemmas\<close>

lemma length_hex_pairs: "hex_pairs s = Some d \<Longrightarrow> length s = 2 * length d"
  by (induction s arbitrary: d rule: hex_pairs.induct) (auto split: option.splits)

text \<open>
  What the text of the manifest says: an https address with a host and without user information, a size,
  and a digest in hexadecimal, two digits to a byte, upper or lower case. These are stated on the text and the
  values, without the checks of the code.
\<close>

definition https_address :: "bytes \<Rightarrow> bool" where
  "https_address u \<longleftrightarrow>
     (\<exists>host rest. u = ascii ''https://'' @ host @ rest \<and> host \<noteq> [] \<and> set host \<inter> set (ascii ''/?#@'') = {} \<and>
        (rest = [] \<or> hd rest \<in> set (ascii ''/?#''))) \<and>
     (\<forall>c \<in> set u. 32 < unat c \<and> unat c \<noteq> 127 \<and> c \<notin> set (ascii [CHR 0x5C]))"

definition hex_text :: "bytes \<Rightarrow> bytes" where
  "hex_text d = concat (map (\<lambda>b. [ascii ''0123456789abcdef'' ! (unat b div 16), ascii ''0123456789abcdef'' ! (unat b mod 16)]) d)"

definition lower_case :: "byte \<Rightarrow> byte" where
  "lower_case c = (if c \<in> set (ascii ''ABCDEF'') then c + 32 else c)"

definition manifest_states :: "cJSON \<Rightarrow> bytes \<Rightarrow> nat \<Rightarrow> bytes \<Rightarrow> bool" where
  "manifest_states doc url n d \<longleftrightarrow>
     (\<exists>asset sha. cJSON_GetObjectItemCaseSensitive doc ''asset'' = Some asset \<and>
        cJSON_GetObjectItemCaseSensitive asset ''url'' = Some (cJSON_String url) \<and>
        cJSON_GetObjectItemCaseSensitive asset ''size'' = Some (cJSON_Number (Finite (of_nat n))) \<and>
        cJSON_GetObjectItemCaseSensitive asset ''sha256'' = Some (cJSON_String sha) \<and>
        map lower_case sha = hex_text d \<and> length d = 32)"

lemma url_ok_https:
  assumes "url_ok u"
  shows "https_address u"
proof -
  let ?in = "\<lambda>c :: byte. c \<noteq> 0x2f \<and> c \<noteq> 0x3f \<and> c \<noteq> 0x23"
  let ?host = "takeWhile ?in (drop 8 u)" and ?rest = "dropWhile ?in (drop 8 u)"
  have marks: "set (ascii ''/?#@'') = {0x2f, 0x3f, 0x23, 0x40}" "set (ascii ''/?#'') = {0x2f, 0x3f, 0x23}" "set (ascii [CHR 0x5C]) = {0x5c}"
    by (simp_all add: ascii_def)
  have u: "take 8 u = ascii ''https://''" "list_all (\<lambda>c. \<not> (c \<le> 0x20 \<or> c = 0x7f \<or> c = 0x5c)) u" "0x40 \<notin> set ?host" "?host \<noteq> []"
    using assms by (simp_all add: url_ok_def Let_def)
  have "u = ascii ''https://'' @ ?host @ ?rest" using u(1) append_take_drop_id [of 8 u] by simp
  moreover have "set ?host \<inter> set (ascii ''/?#@'') = {}" using u(3) by (auto simp: marks dest: set_takeWhileD)
  moreover have "?rest = [] \<or> hd ?rest \<in> set (ascii ''/?#'')" using hd_dropWhile [of ?in "drop 8 u"] by (auto simp: marks)
  moreover have "32 < unat c \<and> unat c \<noteq> 127 \<and> c \<notin> set (ascii [CHR 0x5C])" if "c \<in> set u" for c
  proof -
    have "\<not> c \<le> 0x20" "c \<noteq> 0x7f" "c \<noteq> 0x5c" using u(2) that by (auto simp: list_all_iff)
    then show ?thesis by (simp add: marks word_le_nat_alt word_unat_eq_iff)
  qed
  ultimately show ?thesis unfolding https_address_def using u(4) by blast
qed

text \<open>Reading a digit is finding its value in the alphabet.\<close>

lemma hex_val_digit:
  assumes "hex_val c = Some h"
  shows "unat h < 16" "lower_case c = ascii ''0123456789abcdef'' ! unat h"
proof -
  let ?ok = "\<lambda>c h. unat h < 16 \<and> lower_case c = ascii ''0123456789abcdef'' ! unat h"
  have "list_all (\<lambda>c. case hex_val c of None \<Rightarrow> True | Some h \<Rightarrow> ?ok c h)
      (map word_of_int [48..57] @ map word_of_int [97..102] @ map word_of_int [65..70])" by code_simp
  moreover have "c \<in> set (map word_of_int [48..57] @ map word_of_int [97..102] @ map word_of_int [65..70])"
    using assms byte_range [of 48 57 c] byte_range [of 97 102 c] byte_range [of 65 70 c]
    by (simp only: hex_val_def set_append Un_iff word_le_def) (auto split: if_splits)
  ultimately have "case hex_val c of None \<Rightarrow> True | Some h \<Rightarrow> ?ok c h" unfolding list_all_iff by (rule bspec)
  then have "?ok c h" unfolding assms option.case .
  then show "unat h < 16" "lower_case c = ascii ''0123456789abcdef'' ! unat h" by auto
qed

lemma hex_byte:
  assumes "unat (hi :: byte) < 16" "unat (lo :: byte) < 16"
  shows "unat (push_bit 4 hi OR lo) = 16 * unat hi + unat lo"
proof -
  have "list_all (\<lambda>i. list_all (\<lambda>j. uint (push_bit 4 (word_of_int i) OR word_of_int j :: byte) = 16 * i + j) [0..15]) [0..15]"
    by code_simp
  moreover have "uint w \<in> set [0..15]" if "unat w < 16" for w :: byte
  proof -
    have "int (unat w) < 16" using that by linarith
    then have "uint w < 16" by simp
    then show ?thesis unfolding set_upto by simp
  qed
  then have "uint hi \<in> set [0..15]" "uint lo \<in> set [0..15]" using assms by blast+
  ultimately have "uint (push_bit 4 (word_of_int (uint hi)) OR word_of_int (uint lo) :: byte) = 16 * uint hi + uint lo"
    unfolding list_all_iff by blast
  then have "uint (push_bit 4 hi OR lo) = 16 * uint hi + uint lo" by simp
  then show ?thesis unfolding unat_eq_nat_uint by (simp add: nat_add_distrib nat_mult_distrib)
qed

lemma hex_pairs_text: "hex_pairs s = Some d \<Longrightarrow> map lower_case s = hex_text d"
proof (induction s arbitrary: d rule: hex_pairs.induct)
  case (1 a b rest)
  then obtain hi lo d' where h: "hex_val a = Some hi" "hex_val b = Some lo" "hex_pairs rest = Some d'" "d = (push_bit 4 hi OR lo) # d'"
    by (auto split: option.splits)
  note v = hex_val_digit [OF h(1)] hex_val_digit [OF h(2)]
  have "unat (push_bit 4 hi OR lo) div 16 = unat hi" "unat (push_bit 4 hi OR lo) mod 16 = unat lo"
    unfolding hex_byte [OF v(1,3)] using v(3) by simp_all
  then show ?case using "1.IH" [OF refl h(1,2,3)] v(2,4) by (simp add: h(4) hex_text_def)
qed (auto simp: hex_text_def)

lemma str_fits_Some:
  "str_fits obj key cap = Some s \<Longrightarrow> cJSON_GetObjectItemCaseSensitive obj key = Some (cJSON_String s)"
  by (auto simp: str_fits_def split: option.splits cJSON.splits if_splits)

lemma asset_size_states:
  assumes "asset_size asset = Some n"
  shows "0 < unat n" "cJSON_GetObjectItemCaseSensitive asset ''size'' = Some (cJSON_Number (Finite (of_nat (unat n))))"
proof -
  obtain x :: rat where x: "cJSON_GetObjectItemCaseSensitive asset ''size'' = Some (cJSON_Number (Finite x))"
    "1 \<le> x" "x = of_int \<lfloor>x\<rfloor>" "x \<le> 4294967295" "n = word_of_int \<lfloor>x\<rfloor>"
    using assms by (auto simp: asset_size_def not_less split: option.splits cJSON.splits c_double.splits if_splits)
  then have "1 \<le> \<lfloor>x\<rfloor>" "\<lfloor>x\<rfloor> \<le> 4294967295" by (simp_all add: le_floor_iff floor_le_iff)
  then have "uint n = \<lfloor>x\<rfloor>" using x(5) by (simp add: uint_word_of_int)
  then have n: "unat n = nat \<lfloor>x\<rfloor>" by (simp add: unat_eq_nat_uint)
  show "0 < unat n" unfolding n using \<open>1 \<le> \<lfloor>x\<rfloor>\<close> by linarith
  have "x = of_nat (unat n)" unfolding n using x(3) \<open>1 \<le> \<lfloor>x\<rfloor>\<close> by simp
  then show "cJSON_GetObjectItemCaseSensitive asset ''size'' = Some (cJSON_Number (Finite (of_nat (unat n))))"
    using x(1) by (simp only:)
qed

lemma from_hex_text: "wf_sha256_from_hex s = Inr d \<Longrightarrow> map lower_case s = hex_text d \<and> length d = 32"
  using length_hex_pairs [of s d] hex_pairs_text [of s d] by (auto simp: wf_sha256_from_hex_def split: if_splits option.splits)

lemma manifest_fields_ok:
  assumes "manifest_fields doc = Some m"
  shows "manifest_states doc (as_url (um_asset m)) (unat (as_size (um_asset m))) (as_sha256 (um_asset m))"
    "https_address (as_url (um_asset m))" "wf_update_version_valid (um_version m)" "0 < unat (as_size (um_asset m))"
proof -
  obtain kvs sha where m: "cJSON_GetObjectItemCaseSensitive doc ''asset'' = Some (cJSON_Object kvs)"
    "str_fits (cJSON_Object kvs) ''url'' 512 = Some (as_url (um_asset m))" "str_fits (cJSON_Object kvs) ''sha256'' 65 = Some sha"
    "url_ok (as_url (um_asset m))" "asset_size (cJSON_Object kvs) = Some (as_size (um_asset m))"
    "wf_sha256_from_hex sha = Inr (as_sha256 (um_asset m))" "wf_update_version_valid (um_version m)"
    using assms by (auto simp: manifest_fields_def Let_def split: if_splits option.splits cJSON.splits sum.splits)
  show "manifest_states doc (as_url (um_asset m)) (unat (as_size (um_asset m))) (as_sha256 (um_asset m))"
    unfolding manifest_states_def
    using m(1) str_fits_Some [OF m(2)] str_fits_Some [OF m(3)] asset_size_states(2) [OF m(5)] from_hex_text [OF m(6)] by blast
  show "https_address (as_url (um_asset m))" "wf_update_version_valid (um_version m)" "0 < unat (as_size (um_asset m))"
    using url_ok_https [OF m(4)] m(7) asset_size_states(1) [OF m(5)] by auto
qed

definition example_doc :: cJSON where
  "example_doc = cJSON_Object
     [(ascii ''schema'', cJSON_Number (Finite 1)), (ascii ''app'', cJSON_String (ascii ''aurora'')),
      (ascii ''version'', cJSON_String (ascii ''1.2.0'')),
      (ascii ''asset'', cJSON_Object
        [(ascii ''name'', cJSON_String (ascii ''aurora.bin'')), (ascii ''size'', cJSON_Number (Finite 3)),
         (ascii ''url'', cJSON_String (ascii ''https://dl.example/aurora.bin'')),
         (ascii ''sha256'', cJSON_String
           (ascii ''ba7816bf8f01cfea414140de5dae2223b00361a396177a9cb410ff61f20015ad''))])]"

definition example_policy :: wf_update_policy where
  "example_policy = \<lparr>pol_max_size = 0, pol_app = Some (ascii ''aurora''),
     pol_url_prefix = Some (ascii ''https://dl.example/'')\<rparr>"

definition example_manifest :: wf_update_manifest where
  "example_manifest = \<lparr>um_app = ascii ''aurora'', um_version = ascii ''1.2.0'', um_notes = [],
     um_asset = \<lparr>as_name = ascii ''aurora.bin'', as_url = ascii ''https://dl.example/aurora.bin'',
       as_size = 3, as_sha256 = fips_sha256 [97, 98, 99]\<rparr>, um_has_signature = False\<rparr>"

lemma example_parses:
  "wf_update_parse_manifest (\<lambda>_. Some example_doc) example_policy body = Inr example_manifest"
  unfolding example_manifest_def fips_abc by code_simp

section \<open>Properties\<close>

text \<open>
  C9: What a client installs is what the manifest describes: if the manifest was accepted and the
  download, in whatever pieces it came, passed the final check, then the bytes are not empty, are as many
  as the text of the manifest states and no more than the policy allows (64 MiB when it sets no limit), and
  have the SHA-256 that the text states in hexadecimal; the stated address is an https one with a host and
  without user information, control characters, spaces or backslashes, and begins with the required prefix,
  the application is the required one, and the version is a semantic version.
\<close>

theorem update_is_announced:
  assumes "wf_update_parse_manifest cJSON_Parse policy body = Inr m"
    "wf_update_verify_final (feed_all (um_asset m) ds) = Some (Inr ())"
  shows "concat ds \<noteq> [] \<and>
    length (concat ds) \<le> (if pol_max_size policy = 0 then 2 ^ 26 else unat (pol_max_size policy)) \<and>
    (\<exists>doc. cJSON_Parse body = Some doc \<and>
       manifest_states doc (as_url (um_asset m)) (length (concat ds)) (fips_sha256 (concat ds))) \<and>
    https_address (as_url (um_asset m)) \<and> pol_app policy \<in> {None, Some (um_app m)} \<and>
    (\<forall>p. pol_url_prefix policy = Some p \<longrightarrow> take (length p) (as_url (um_asset m)) = p) \<and>
    (\<exists>v build. version_text (um_version m) v build)"
proof -
  obtain kvs where doc: "cJSON_Parse body = Some (cJSON_Object kvs)"
    and fields: "manifest_fields (cJSON_Object kvs) = Some m"
    and size: "as_size (um_asset m) \<le> max_asset_size policy" and app: "pol_app policy \<in> {None, Some (um_app m)}"
    and prefix: "pol_url_prefix policy = Some p \<Longrightarrow> take (length p) (as_url (um_asset m)) = p" for p
    using assms(1)
    by (auto simp: wf_update_parse_manifest_def not_less split: option.splits cJSON.splits if_splits)
  note ok = manifest_fields_ok [OF fields]
  have "length (as_sha256 (um_asset m)) = 32" using ok(1) by (auto simp: manifest_states_def)
  then have data: "length (concat ds) = unat (as_size (um_asset m)) \<and> fips_sha256 (concat ds) = as_sha256 (um_asset m)"
    using assms(2) download_final [of "um_asset m" ds] by (auto split: if_splits)
  have "concat ds \<noteq> []" using data ok(4) by (metis length_0_conv less_not_refl)
  moreover have "\<exists>v build. version_text (um_version m) v build"
    using ok(3) parse_ver_sound unfolding wf_update_version_valid_def by blast
  moreover have "\<exists>doc. cJSON_Parse body = Some doc \<and>
      manifest_states doc (as_url (um_asset m)) (length (concat ds)) (fips_sha256 (concat ds))"
    using doc ok(1) data by auto
  moreover have "length (concat ds) \<le> (if pol_max_size policy = 0 then 2 ^ 26 else unat (pol_max_size policy))"
    using data size by (auto simp: word_le_nat_alt max_asset_size_def)
  ultimately show ?thesis using ok(2) app prefix by blast
qed

theorem update_is_announced_witness:
  "wf_update_parse_manifest (\<lambda>_. Some example_doc) example_policy [] = Inr example_manifest \<and>
   wf_update_verify_final (feed_all (um_asset example_manifest) [[97], [98, 99]]) = Some (Inr ()) \<and>
   manifest_states example_doc (as_url (um_asset example_manifest)) 3 (fips_sha256 [97, 98, 99]) \<and>
   https_address (as_url (um_asset example_manifest)) \<and> (\<exists>v build. version_text (um_version example_manifest) v build)"
proof -
  have "wf_update_verify_final (feed_all (um_asset example_manifest) [[97], [98, 99]]) = Some (Inr ())"
    using download_final [of "um_asset example_manifest" "[[97], [98, 99]]"]
    by (simp add: example_manifest_def fips_sha256_eq length_digest_bytes)
  from update_is_announced [OF example_parses this] this example_parses show ?thesis by (simp add: numeral_3_eq_3)
qed

end
