(* ===== verification/Replay.thy ===== *)
theory Replay
  imports Wolfram_Prelude
begin

unbundle bit_operations_syntax

text \<open>
  The decoder of sealed Jetstream segments, \<^verbatim>\<open>src/jetstream/replay.c\<close>: a fixed header, framed compressed
  blocks, and in each block the rows of events in columns. A pointer into a buffer is the rest of the
  list of bytes. The decompressor (zstd) is a parameter.
\<close>

section \<open>Integers\<close>

definition wf_replay_u16 :: "bytes \<Rightarrow> u16" where
  "wf_replay_u16 p = ucast (p ! 0) OR push_bit 8 (ucast (p ! 1))"

definition wf_replay_u32 :: "bytes \<Rightarrow> u32" where
  "wf_replay_u32 p =
     ucast (p ! 0) OR push_bit 8 (ucast (p ! 1)) OR push_bit 16 (ucast (p ! 2)) OR push_bit 24 (ucast (p ! 3))"

definition wf_replay_u64 :: "bytes \<Rightarrow> u64" where
  "wf_replay_u64 p = foldl (\<lambda>v i. v OR push_bit (i * 8) (ucast (p ! i))) 0 [0..<8]"

section \<open>Header and frames\<close>

record wf_jetstream_replay_segment_header =
  sh_version :: u16
  sh_block_count :: u32
  sh_event_count :: u32
  sh_unique_did_count :: u32
  sh_checksum :: u64
  sh_min_seq :: u64
  sh_max_seq :: u64
  sh_min_witnessed_at :: u64
  sh_max_witnessed_at :: u64
  sh_footer_offset :: u64
  sh_did_bloom_offset :: u64
  sh_block_did_bloom_offset :: u64
  sh_collection_index_offset :: u64
  sh_block_index_offset :: u64

definition MAX_RESPONSE_BYTES :: nat where
  "MAX_RESPONSE_BYTES = 16 * 1024 * 1024"

definition wf_jetstream_replay_segment_header_parse ::
  "bytes \<Rightarrow> wf_jetstream_replay_segment_header res" where
  "wf_jetstream_replay_segment_header_parse data =
     (if length data < 256 then Inl WF_ERR_INVALID_ARG
      else if take 4 data \<noteq> ascii ''jss0'' then Inl WF_ERR_PARSE
      else
        let out = \<lparr>sh_version = wf_replay_u16 (drop 12 data), sh_block_count = wf_replay_u32 (drop 14 data),
              sh_event_count = wf_replay_u32 (drop 18 data), sh_unique_did_count = wf_replay_u32 (drop 22 data),
              sh_checksum = wf_replay_u64 (drop 4 data), sh_min_seq = wf_replay_u64 (drop 26 data),
              sh_max_seq = wf_replay_u64 (drop 34 data), sh_min_witnessed_at = wf_replay_u64 (drop 42 data),
              sh_max_witnessed_at = wf_replay_u64 (drop 50 data), sh_footer_offset = wf_replay_u64 (drop 58 data),
              sh_did_bloom_offset = wf_replay_u64 (drop 66 data),
              sh_block_did_bloom_offset = wf_replay_u64 (drop 74 data),
              sh_collection_index_offset = wf_replay_u64 (drop 82 data),
              sh_block_index_offset = wf_replay_u64 (drop 90 data)\<rparr>
        in if sh_version out = 0 \<or> 10000 < sh_block_count out \<or> sh_max_seq out < sh_min_seq out \<or>
              sint (sh_max_witnessed_at out) < sint (sh_min_witnessed_at out) \<or>
              sh_footer_offset out < 256 \<or> sh_did_bloom_offset out < sh_footer_offset out \<or>
              sh_block_did_bloom_offset out < sh_did_bloom_offset out \<or>
              sh_collection_index_offset out < sh_block_did_bloom_offset out \<or>
              sh_block_index_offset out < sh_collection_index_offset out
           then Inl WF_ERR_PARSE else Inr out)"

text \<open>A frame of the buffer at an offset: the block and the offset after it.\<close>

definition wf_jetstream_replay_block_frame :: "bytes \<Rightarrow> nat \<Rightarrow> (bytes \<times> nat) res" where
  "wf_jetstream_replay_block_frame data offset =
     (if length data < offset \<or> length data - offset < 8 then Inl WF_ERR_INVALID_ARG
      else
        let len = unat (wf_replay_u64 (drop offset data))
        in if len = 0 \<or> MAX_RESPONSE_BYTES - 8 < len \<or> length data - offset - 8 < len
           then Inl WF_ERR_PARSE
           else Inr (take len (drop (offset + 8) data), offset + 8 + len))"

section \<open>Blocks\<close>

record wf_jetstream_replay_event =
  re_seq :: u64
  re_witnessed_at :: u64
  re_indexed_at :: u64
  re_kind :: byte
  re_collection :: bytes
  re_did :: bytes
  re_rkey :: bytes
  re_rev :: bytes
  re_payload :: bytes

text \<open>The fixed-size columns of one row.\<close>

record replay_row =
  rr_seq :: u64
  rr_witnessed :: u64
  rr_indexed :: u64
  rr_kind :: byte
  rr_collection_len :: byte
  rr_did_len :: u16
  rr_rkey_len :: byte
  rr_rev_len :: byte
  rr_payload_len :: u32

definition replay_row_at :: "bytes \<Rightarrow> nat \<Rightarrow> nat \<Rightarrow> replay_row" where
  "replay_row_at data count i =
     \<lparr>rr_seq = wf_replay_u64 (drop (4 + i * 8) data),
      rr_witnessed = wf_replay_u64 (drop (4 + count * 8 + i * 8) data),
      rr_indexed = wf_replay_u64 (drop (4 + count * 16 + i * 8) data),
      rr_kind = data ! (4 + count * 24 + i),
      rr_collection_len = data ! (4 + count * 25 + i),
      rr_did_len = wf_replay_u16 (drop (4 + count * 26 + i * 2) data),
      rr_rkey_len = data ! (4 + count * 28 + i),
      rr_rev_len = data ! (4 + count * 29 + i),
      rr_payload_len = wf_replay_u32 (drop (4 + count * 30 + i * 4) data)\<rparr>"

text \<open>The first loop: the kinds are checked and the lengths added up, with the overflow checks.\<close>

definition SIZE_MAX :: nat where
  "SIZE_MAX = 2 ^ 64 - 1"

type_synonym column_totals = "nat \<times> nat \<times> nat \<times> nat \<times> nat"

fun add_totals :: "replay_row list \<Rightarrow> column_totals \<Rightarrow> column_totals option" where
  "add_totals [] t = Some t"
| "add_totals (r # rs) (collection, did, rkey, rv, payload) =
     (if rr_kind r = 0 \<or> SIZE_MAX - unat (rr_collection_len r) < collection \<or>
         SIZE_MAX - unat (rr_did_len r) < did \<or> SIZE_MAX - unat (rr_rkey_len r) < rkey \<or>
         SIZE_MAX - unat (rr_rev_len r) < rv \<or> SIZE_MAX - unat (rr_payload_len r) < payload
      then None
      else add_totals rs (collection + unat (rr_collection_len r), did + unat (rr_did_len r),
             rkey + unat (rr_rkey_len r), rv + unat (rr_rev_len r), payload + unat (rr_payload_len r)))"

text \<open>
  The second loop: each row takes its part of the five blobs (\<^verbatim>\<open>wf_replay_copy_column\<close>, which fails when
  less is left). The arguments are what is left of each blob.
\<close>

definition wf_replay_copy_column :: "bytes \<Rightarrow> nat \<Rightarrow> (bytes \<times> bytes) option" where
  "wf_replay_copy_column blob len = (if length blob < len then None else Some (take len blob, drop len blob))"

fun replay_rows ::
  "replay_row list \<Rightarrow> bytes \<Rightarrow> bytes \<Rightarrow> bytes \<Rightarrow> bytes \<Rightarrow> bytes \<Rightarrow> wf_jetstream_replay_event list res" where
  "replay_rows [] collections dids rkeys revs payloads = Inr []"
| "replay_rows (r # rs) collections dids rkeys revs payloads =
     (case (wf_replay_copy_column collections (unat (rr_collection_len r)),
            wf_replay_copy_column dids (unat (rr_did_len r)),
            wf_replay_copy_column rkeys (unat (rr_rkey_len r)),
            wf_replay_copy_column revs (unat (rr_rev_len r)),
            wf_replay_copy_column payloads (unat (rr_payload_len r))) of
        (Some (collection, collections'), Some (did, dids'), Some (rkey, rkeys'), Some (rv, revs'),
         Some (payload, payloads')) \<Rightarrow>
          (case replay_rows rs collections' dids' rkeys' revs' payloads' of
             Inl e \<Rightarrow> Inl e
           | Inr events \<Rightarrow>
               Inr (\<lparr>re_seq = rr_seq r, re_witnessed_at = rr_witnessed r, re_indexed_at = rr_indexed r,
                     re_kind = rr_kind r, re_collection = collection, re_did = did, re_rkey = rkey,
                     re_rev = rv, re_payload = payload\<rparr> # events))
      | _ \<Rightarrow> Inl WF_ERR_ALLOC)"

definition wf_jetstream_replay_block_decode :: "bytes \<Rightarrow> wf_jetstream_replay_event list res" where
  "wf_jetstream_replay_block_decode data =
     (if length data < 4 \<or> MAX_RESPONSE_BYTES < length data then Inl WF_ERR_INVALID_ARG
      else
        let count = unat (wf_replay_u32 data); fixed = 4 + count * 34
        in if 2 ^ 18 < count \<or> (SIZE_MAX - 4) div 34 < count \<or> length data < fixed
           then Inl WF_ERR_INVALID_ARG
           else if count = 0 then (if length data = 4 then Inr [] else Inl WF_ERR_INVALID_ARG)
           else
             let rows = map (replay_row_at data count) [0..<count]
             in case add_totals rows (0, 0, 0, 0, 0) of
                  None \<Rightarrow> Inl WF_ERR_INVALID_ARG
                | Some (collection, did, rkey, rv, payload) \<Rightarrow>
                    (let room = length data - fixed
                     in if room < collection \<or> room - collection < did \<or>
                           room - collection - did < rkey \<or> room - collection - did - rkey < rv \<or>
                           payload \<noteq> room - collection - did - rkey - rv
                        then Inl WF_ERR_INVALID_ARG
                        else
                          let blob = (\<lambda>at len. take len (drop (fixed + at) data))
                          in replay_rows rows (blob 0 collection) (blob collection did)
                               (blob (collection + did) rkey) (blob (collection + did + rkey) rv)
                               (blob (collection + did + rkey + rv) payload)))"

section \<open>Segments\<close>

text \<open>
  \<^verbatim>\<open>ZSTD_getFrameContentSize\<close> gives the size that a frame declares (\<open>None\<close> for an error or an unknown size);
  \<^verbatim>\<open>ZSTD_decompress\<close> into a buffer of that size gives the content or fails.
\<close>

record zstd =
  ZSTD_getFrameContentSize :: "bytes \<Rightarrow> nat option"
  ZSTD_decompress :: "bytes \<Rightarrow> nat \<Rightarrow> bytes option"

definition wf_jetstream_replay_block_decode_zstd ::
  "zstd \<Rightarrow> bytes \<Rightarrow> wf_jetstream_replay_event list res" where
  "wf_jetstream_replay_block_decode_zstd Z data =
     (if data = [] \<or> MAX_RESPONSE_BYTES < length data then Inl WF_ERR_INVALID_ARG
      else case ZSTD_getFrameContentSize Z data of
             None \<Rightarrow> Inl WF_ERR_INVALID_ARG
           | Some n \<Rightarrow>
               (if MAX_RESPONSE_BYTES < n then Inl WF_ERR_INVALID_ARG
                else case ZSTD_decompress Z data n of
                       None \<Rightarrow> Inl WF_ERR_INVALID_ARG
                     | Some decoded \<Rightarrow>
                         (if length decoded \<noteq> n then Inl WF_ERR_INVALID_ARG
                          else wf_jetstream_replay_block_decode decoded)))"

lemma block_frame_next:
  "wf_jetstream_replay_block_frame data offset = Inr (block, next) \<Longrightarrow> offset < next \<and> next \<le> length data"
  by (auto simp: wf_jetstream_replay_block_frame_def Let_def split: if_splits)

text \<open>The loop over the frames up to the footer; the buffer ends there.\<close>

function segment_loop ::
  "zstd \<Rightarrow> bytes \<Rightarrow> nat \<Rightarrow> wf_jetstream_replay_event list \<Rightarrow> wf_jetstream_replay_event list res" where
  "segment_loop Z data offset all =
     (if length data \<le> offset
      then if offset \<noteq> length data then Inl WF_ERR_PARSE else Inr all
      else case wf_jetstream_replay_block_frame data offset of
             Inl _ \<Rightarrow> Inl WF_ERR_PARSE
           | Inr (compressed, next) \<Rightarrow>
               (if next \<le> offset then Inl WF_ERR_PARSE
                else case wf_jetstream_replay_block_decode_zstd Z compressed of
                       Inl e \<Rightarrow> Inl e
                     | Inr block \<Rightarrow>
                         (if SIZE_MAX - length all < length block then Inl WF_ERR_INVALID_ARG
                          else segment_loop Z data next (all @ block))))"
  by pat_completeness auto
termination
  by (relation "measure (\<lambda>(Z, data, offset, all). length data - offset)")
    (auto simp: not_le dest: block_frame_next)

declare segment_loop.simps [simp del]

definition wf_jetstream_replay_segment_decode ::
  "zstd \<Rightarrow> bytes \<Rightarrow> wf_jetstream_replay_event list res" where
  "wf_jetstream_replay_segment_decode Z data =
     (case wf_jetstream_replay_segment_header_parse data of
        Inl _ \<Rightarrow> Inl WF_ERR_PARSE
      | Inr header \<Rightarrow>
          (let footer = unat (sh_footer_offset header)
           in if length data < footer then Inl WF_ERR_PARSE
              else case segment_loop Z (take footer data) 256 [] of
                     Inl e \<Rightarrow> Inl e
                   | Inr all \<Rightarrow>
                       (if length all \<noteq> unat (sh_event_count header) then Inl WF_ERR_PARSE else Inr all)))"

end
