(* ===== verification/Replay_Props.thy ===== *)
theory Replay_Props
  imports Replay
begin

unbundle bit_operations_syntax

text \<open>
  The block decoder accepts exactly the columnar encodings of lists of events and inverts the encoding;
  a segment whose blocks were compressed decodes to the events of all of them.
\<close>

section \<open>Little-endian integers\<close>

definition le16 :: "u16 \<Rightarrow> bytes" where
  "le16 x = map (\<lambda>k. ucast (drop_bit (8 * k) x)) [0..<2]"

definition le32 :: "u32 \<Rightarrow> bytes" where
  "le32 x = map (\<lambda>k. ucast (drop_bit (8 * k) x)) [0..<4]"

definition le64 :: "u64 \<Rightarrow> bytes" where
  "le64 x = map (\<lambda>k. ucast (drop_bit (8 * k) x)) [0..<8]"

lemma length_le [simp]: "length (le16 x) = 2" "length (le32 y) = 4" "length (le64 z) = 8"
  by (simp_all add: le16_def le32_def le64_def)

lemma nth_le:
  "k < 2 \<Longrightarrow> le16 x ! k = ucast (drop_bit (8 * k) x)"
  "k < 4 \<Longrightarrow> le32 y ! k = ucast (drop_bit (8 * k) y)"
  "k < 8 \<Longrightarrow> le64 z ! k = ucast (drop_bit (8 * k) z)"
  by (simp_all add: le16_def le32_def le64_def del: upt_Suc)

lemma byte_out: "8 \<le> k \<Longrightarrow> \<not> bit (x :: byte) k"
  using bit_imp_le_length [of x k] by auto

lemma bit_u64:
  "bit (wf_replay_u64 p) n \<longleftrightarrow> n < 64 \<and> bit (p ! (n div 8)) (n mod 8)"
proof -
  have step: "bit (foldl (\<lambda>v i. v OR push_bit (i * 8) (ucast (p ! i))) (0 :: u64) [0..<k]) n \<longleftrightarrow>
      n < 8 * k \<and> n < 64 \<and> bit (p ! (n div 8)) (n mod 8)" if "k \<le> 8" for k
    using that
  proof (induction k)
    case (Suc k)
    have "bit (push_bit (k * 8) (ucast (p ! k) :: u64)) n \<longleftrightarrow> 8 * k \<le> n \<and> n < 64 \<and> bit (p ! k) (n - 8 * k)"
      by (auto simp: bit_simps mult.commute)
    moreover have "bit (p ! k) (n - 8 * k) \<longleftrightarrow> n < 8 * Suc k \<and> bit (p ! (n div 8)) (n mod 8)" if "8 * k \<le> n"
    proof (cases "n < 8 * Suc k")
      case True
      then have "n div 8 = k" "n mod 8 = n - 8 * k" using that
        by (auto simp: div_nat_eqI modulo_nat_def)
      then show ?thesis using True by simp
    next
      case False
      then show ?thesis using byte_out [of "n - 8 * k" "p ! k"] by auto
    qed
    ultimately show ?case using Suc by (auto simp: bit_or_iff)
  qed simp
  show ?thesis using step [of 8] by (auto simp: wf_replay_u64_def)
qed

lemma bit_u32:
  "bit (wf_replay_u32 p) n \<longleftrightarrow> n < 32 \<and> bit (p ! (n div 8)) (n mod 8)"
proof (cases "n < 32")
  case True
  then have "n div 8 < 4" "n mod 8 < 8" "n = 8 * (n div 8) + n mod 8" by auto
  then obtain q k where n: "n = 8 * q + k" "k < 8" "q < 4" by blast
  then have "q = 0 \<or> q = 1 \<or> q = 2 \<or> q = 3" by auto
  then show ?thesis using n byte_out by (auto simp: wf_replay_u32_def bit_simps numeral_2_eq_2 numeral_3_eq_3)
next
  case False
  then show ?thesis using bit_imp_le_length [of "wf_replay_u32 p" n] by auto
qed

lemma bit_u16:
  "bit (wf_replay_u16 p) n \<longleftrightarrow> n < 16 \<and> bit (p ! (n div 8)) (n mod 8)"
proof (cases "n < 16")
  case True
  then have "n div 8 < 2" "n mod 8 < 8" "n = 8 * (n div 8) + n mod 8" by auto
  then obtain q k where n: "n = 8 * q + k" "k < 8" "q < 2" by blast
  then have "q = 0 \<or> q = 1" by auto
  then show ?thesis using n byte_out by (auto simp: wf_replay_u16_def bit_simps)
next
  case False
  then show ?thesis using bit_imp_le_length [of "wf_replay_u16 p" n] by auto
qed

lemma read_le:
  "wf_replay_u16 (le16 x @ r) = x" "wf_replay_u32 (le32 y @ r) = y" "wf_replay_u64 (le64 z @ r) = z"
  by (rule bit_word_eqI, simp add: bit_u16 bit_u32 bit_u64 nth_append nth_le bit_simps
      less_mult_imp_div_less)+

lemma le_read:
  "2 \<le> length p \<Longrightarrow> le16 (wf_replay_u16 p) = take 2 p"
  "4 \<le> length p \<Longrightarrow> le32 (wf_replay_u32 p) = take 4 p"
  "8 \<le> length p \<Longrightarrow> le64 (wf_replay_u64 p) = take 8 p"
  by (rule nth_equalityI; auto simp: nth_le bit_u16 bit_u32 bit_u64 bit_simps byte_out
      intro!: bit_word_eqI)+

section \<open>The encoding of a block\<close>

definition row_of :: "wf_jetstream_replay_event \<Rightarrow> replay_row" where
  "row_of e =
     \<lparr>rr_seq = re_seq e, rr_witnessed = re_witnessed_at e, rr_indexed = re_indexed_at e,
      rr_kind = re_kind e, rr_collection_len = of_nat (length (re_collection e)),
      rr_did_len = of_nat (length (re_did e)), rr_rkey_len = of_nat (length (re_rkey e)),
      rr_rev_len = of_nat (length (re_rev e)), rr_payload_len = of_nat (length (re_payload e))\<rparr>"

definition encode_rows :: "replay_row list \<Rightarrow> bytes" where
  "encode_rows rows =
     le32 (of_nat (length rows)) @ concat (map (\<lambda>r. le64 (rr_seq r)) rows) @
     concat (map (\<lambda>r. le64 (rr_witnessed r)) rows) @ concat (map (\<lambda>r. le64 (rr_indexed r)) rows) @
     concat (map (\<lambda>r. [rr_kind r]) rows) @ concat (map (\<lambda>r. [rr_collection_len r]) rows) @
     concat (map (\<lambda>r. le16 (rr_did_len r)) rows) @ concat (map (\<lambda>r. [rr_rkey_len r]) rows) @
     concat (map (\<lambda>r. [rr_rev_len r]) rows) @ concat (map (\<lambda>r. le32 (rr_payload_len r)) rows)"

definition encode_block :: "wf_jetstream_replay_event list \<Rightarrow> bytes" where
  "encode_block es =
     encode_rows (map row_of es) @ concat (map re_collection es) @ concat (map re_did es) @
     concat (map re_rkey es) @ concat (map re_rev es) @ concat (map re_payload es)"

definition event_ok :: "wf_jetstream_replay_event \<Rightarrow> bool" where
  "event_ok e \<longleftrightarrow> re_kind e \<noteq> 0 \<and> length (re_collection e) < 2 ^ 8 \<and> length (re_did e) < 2 ^ 16 \<and>
     length (re_rkey e) < 2 ^ 8 \<and> length (re_rev e) < 2 ^ 8 \<and> length (re_payload e) < 2 ^ 32"

definition block_ok :: "wf_jetstream_replay_event list \<Rightarrow> bool" where
  "block_ok es \<longleftrightarrow> length es \<le> 2 ^ 18 \<and> list_all event_ok es \<and> length (encode_block es) \<le> MAX_RESPONSE_BYTES"

section \<open>Columns of fixed width\<close>

lemma length_column: "(\<And>x. length (f x) = w) \<Longrightarrow> length (concat (map f xs)) = length xs * w"
  by (induction xs) auto

lemma column_slice:
  assumes "\<And>i. i < c \<Longrightarrow> f i = take w (drop (n + i * w) data)"
  shows "concat (map f [0..<c]) = take (c * w) (drop n data)"
  using assms
proof (induction c)
  case (Suc c)
  have "take (Suc c * w) (drop n data) = take (c * w) (drop n data) @ take w (drop (n + c * w) data)"
    using take_add [of "c * w" w "drop n data"] by (simp add: add.commute)
  then show ?case using Suc by simp
qed simp

lemma column_inj:
  assumes "\<And>x. length (f x) = w" "\<And>x y. f x = f y \<Longrightarrow> x = y" "length xs = length ys"
    "concat (map f xs) = concat (map f ys)"
  shows "xs = ys"
  using assms(3,4)
proof (induction xs ys rule: list_induct2)
  case (Cons x xs y ys)
  then have "f x = f y \<and> concat (map f xs) = concat (map f ys)" using assms(1) by (simp add: append_eq_append_conv)
  then show ?case using Cons.IH assms(2) by blast
qed simp

lemma length_encode_rows: "length (encode_rows rows) = 4 + length rows * 34"
  by (simp add: encode_rows_def length_column del: length_concat)

lemma take_pieces: "take (k + m) xs = take k xs @ take m (drop k xs)"
  by (rule take_add)

lemma encode_rows_at:
  assumes "4 + c * 34 \<le> length data" "c = unat (wf_replay_u32 data)"
  shows "encode_rows (map (replay_row_at data c) [0..<c]) = take (4 + c * 34) data"
proof -
  have le: "n + i * w + w \<le> length data" if "i < c" "n + c * w \<le> length data" for n i w
  proof -
    have "Suc i * w \<le> c * w" using that(1) by (intro mult_le_mono1) simp
    then show ?thesis using that(2) by simp
  qed
  have col64: "concat (map (\<lambda>i. le64 (wf_replay_u64 (drop (n + i * 8) data))) [0..<c]) =
      take (c * 8) (drop n data)" if "n + c * 8 \<le> length data" for n
    using le [where w = 8] that by (intro column_slice le_read) fastforce
  have col32: "concat (map (\<lambda>i. le32 (wf_replay_u32 (drop (n + i * 4) data))) [0..<c]) =
      take (c * 4) (drop n data)" if "n + c * 4 \<le> length data" for n
    using le [where w = 4] that by (intro column_slice le_read) fastforce
  have col16: "concat (map (\<lambda>i. le16 (wf_replay_u16 (drop (n + i * 2) data))) [0..<c]) =
      take (c * 2) (drop n data)" if "n + c * 2 \<le> length data" for n
    using le [where w = 2] that by (intro column_slice le_read) fastforce
  have col8: "map (\<lambda>i. data ! (n + i)) [0..<c] = take c (drop n data)" if "n + c \<le> length data" for n
    using that by (intro nth_equalityI) auto
  have count: "le32 (of_nat c) = take 4 data" using assms le_read(2) [of data] by simp
  have split: "take (4 + c * 34) data =
      take 4 data @ take (c * 8) (drop 4 data) @ take (c * 8) (drop (4 + c * 8) data) @
      take (c * 8) (drop (4 + c * 16) data) @ take c (drop (4 + c * 24) data) @
      take c (drop (4 + c * 25) data) @ take (c * 2) (drop (4 + c * 26) data) @
      take c (drop (4 + c * 28) data) @ take c (drop (4 + c * 29) data) @
      take (c * 4) (drop (4 + c * 30) data)"
  proof -
    have "4 + c * 34 = 4 + (c * 8 + (c * 8 + (c * 8 + (c + (c + (c * 2 + (c + (c + c * 4))))))))" by simp
    then show ?thesis by (simp only: take_pieces drop_drop) (simp add: algebra_simps)
  qed
  show ?thesis
    unfolding split using assms(1)
    by (simp add: encode_rows_def replay_row_at_def comp_def count col64 col32 col16 col8 del: upt_Suc)
qed

lemma encode_rows_inj:
  assumes "length rows = length rows'" "encode_rows rows = encode_rows rows'"
  shows "rows = rows'"
proof -
  have inj: "le16 a = le16 b \<Longrightarrow> a = b" "le32 c = le32 d \<Longrightarrow> c = d" "le64 e = le64 f \<Longrightarrow> e = f" for a b c d e f
    using read_le [of _ "[]"] by (metis append_Nil2)+
  have col: "concat (map (\<lambda>r. g (h r)) rows) = concat (map (\<lambda>r. g (h r)) rows') \<Longrightarrow> map h rows = map h rows'"
    if "\<And>x. length (g x) = w" "\<And>x y. g x = g y \<Longrightarrow> x = y" for g :: "'x \<Rightarrow> bytes" and h w
    using column_inj [of g w "map h rows" "map h rows'"] that assms(1) by (simp add: comp_def)
  have len: "length (concat (map (\<lambda>r. le64 (h r)) rows)) = length (concat (map (\<lambda>r. le64 (h r)) rows'))"
    "length (concat (map (\<lambda>r. le32 (k r)) rows)) = length (concat (map (\<lambda>r. le32 (k r)) rows'))"
    "length (concat (map (\<lambda>r. le16 (l r)) rows)) = length (concat (map (\<lambda>r. le16 (l r)) rows'))"
    "length (concat (map (\<lambda>r. [m r]) rows)) = length (concat (map (\<lambda>r. [m r :: byte]) rows'))" for h k l m
    using assms(1) by (simp_all add: length_column del: length_concat)
  have "concat (map (\<lambda>r. le64 (rr_seq r)) rows) = concat (map (\<lambda>r. le64 (rr_seq r)) rows') \<and>
      concat (map (\<lambda>r. le64 (rr_witnessed r)) rows) = concat (map (\<lambda>r. le64 (rr_witnessed r)) rows') \<and>
      concat (map (\<lambda>r. le64 (rr_indexed r)) rows) = concat (map (\<lambda>r. le64 (rr_indexed r)) rows') \<and>
      concat (map (\<lambda>r. [rr_kind r]) rows) = concat (map (\<lambda>r. [rr_kind r]) rows') \<and>
      concat (map (\<lambda>r. [rr_collection_len r]) rows) = concat (map (\<lambda>r. [rr_collection_len r]) rows') \<and>
      concat (map (\<lambda>r. le16 (rr_did_len r)) rows) = concat (map (\<lambda>r. le16 (rr_did_len r)) rows') \<and>
      concat (map (\<lambda>r. [rr_rkey_len r]) rows) = concat (map (\<lambda>r. [rr_rkey_len r]) rows') \<and>
      concat (map (\<lambda>r. [rr_rev_len r]) rows) = concat (map (\<lambda>r. [rr_rev_len r]) rows') \<and>
      concat (map (\<lambda>r. le32 (rr_payload_len r)) rows) = concat (map (\<lambda>r. le32 (rr_payload_len r)) rows')"
    using assms(2) unfolding encode_rows_def assms(1)
    by (simp add: append_eq_append_conv len del: concat_map_singleton length_concat)
  then have "map rr_seq rows = map rr_seq rows'" "map rr_witnessed rows = map rr_witnessed rows'"
    "map rr_indexed rows = map rr_indexed rows'" "map rr_kind rows = map rr_kind rows'"
    "map rr_collection_len rows = map rr_collection_len rows'" "map rr_did_len rows = map rr_did_len rows'"
    "map rr_rkey_len rows = map rr_rkey_len rows'" "map rr_rev_len rows = map rr_rev_len rows'"
    "map rr_payload_len rows = map rr_payload_len rows'"
    using col [of le64 8 rr_seq] col [of le64 8 rr_witnessed] col [of le64 8 rr_indexed]
      col [of "\<lambda>x. [x]" 1] col [of le16 2 rr_did_len] col [of le32 4 rr_payload_len] inj by auto
  then show ?thesis
    using assms(1) by (auto simp: list_eq_iff_nth_eq intro!: replay_row.equality)
qed

section \<open>Totals and rows\<close>

lemma add_totals_Some:
  "add_totals rs (a, b, c, d, e) = Some t \<Longrightarrow>
     list_all (\<lambda>r. rr_kind r \<noteq> 0) rs \<and>
     t = (a + sum_list (map (\<lambda>r. unat (rr_collection_len r)) rs), b + sum_list (map (\<lambda>r. unat (rr_did_len r)) rs),
          c + sum_list (map (\<lambda>r. unat (rr_rkey_len r)) rs), d + sum_list (map (\<lambda>r. unat (rr_rev_len r)) rs),
          e + sum_list (map (\<lambda>r. unat (rr_payload_len r)) rs))"
proof (induction rs arbitrary: a b c d e)
  case (Cons r rs)
  then have rest: "add_totals rs (a + unat (rr_collection_len r), b + unat (rr_did_len r), c + unat (rr_rkey_len r),
      d + unat (rr_rev_len r), e + unat (rr_payload_len r)) = Some t" and "rr_kind r \<noteq> 0"
    by (auto split: if_splits)
  then show ?case using Cons.IH [OF rest] by (simp add: add.assoc)
qed simp

lemma add_totals_complete:
  assumes "list_all (\<lambda>r. rr_kind r \<noteq> 0) rs" "a + sum_list (map (\<lambda>r. unat (rr_collection_len r)) rs) \<le> SIZE_MAX"
    "b + sum_list (map (\<lambda>r. unat (rr_did_len r)) rs) \<le> SIZE_MAX"
    "c + sum_list (map (\<lambda>r. unat (rr_rkey_len r)) rs) \<le> SIZE_MAX"
    "d + sum_list (map (\<lambda>r. unat (rr_rev_len r)) rs) \<le> SIZE_MAX"
    "e + sum_list (map (\<lambda>r. unat (rr_payload_len r)) rs) \<le> SIZE_MAX"
  shows "add_totals rs (a, b, c, d, e) \<noteq> None"
  using assms by (induction rs arbitrary: a b c d e) auto

lemma replay_rows_sound:
  "replay_rows rs a b c d e = Inr es \<Longrightarrow>
   length a = sum_list (map (\<lambda>r. unat (rr_collection_len r)) rs) \<Longrightarrow>
   length b = sum_list (map (\<lambda>r. unat (rr_did_len r)) rs) \<Longrightarrow>
   length c = sum_list (map (\<lambda>r. unat (rr_rkey_len r)) rs) \<Longrightarrow>
   length d = sum_list (map (\<lambda>r. unat (rr_rev_len r)) rs) \<Longrightarrow>
   length e = sum_list (map (\<lambda>r. unat (rr_payload_len r)) rs) \<Longrightarrow>
   map row_of es = rs \<and> concat (map re_collection es) = a \<and> concat (map re_did es) = b \<and>
   concat (map re_rkey es) = c \<and> concat (map re_rev es) = d \<and> concat (map re_payload es) = e"
proof (induction rs arbitrary: a b c d e es)
  case (Cons r rs)
  then show ?case
    by (auto simp: wf_replay_copy_column_def row_of_def split: if_splits sum.splits)
qed simp

lemma replay_rows_fit:
  "replay_rows rs a b c d e = Inr es \<Longrightarrow> list_all (\<lambda>r. rr_kind r \<noteq> 0) rs \<Longrightarrow> list_all event_ok es"
proof (induction rs arbitrary: a b c d e es)
  case (Cons r rs)
  then show ?case
    using unsigned_less [of "rr_collection_len r", where ?'a = nat] unsigned_less [of "rr_did_len r", where ?'a = nat]
      unsigned_less [of "rr_rkey_len r", where ?'a = nat] unsigned_less [of "rr_rev_len r", where ?'a = nat]
      unsigned_less [of "rr_payload_len r", where ?'a = nat]
    by (auto simp: wf_replay_copy_column_def event_ok_def split: if_splits sum.splits)
qed simp

lemma row_lengths:
  assumes "event_ok e"
  shows "unat (rr_collection_len (row_of e)) = length (re_collection e)" "unat (rr_did_len (row_of e)) = length (re_did e)"
    "unat (rr_rkey_len (row_of e)) = length (re_rkey e)" "unat (rr_rev_len (row_of e)) = length (re_rev e)"
    "unat (rr_payload_len (row_of e)) = length (re_payload e)"
  using assms by (simp_all add: row_of_def event_ok_def unat_of_nat)

lemma replay_rows_complete:
  "list_all event_ok es \<Longrightarrow>
   replay_rows (map row_of es) (concat (map re_collection es)) (concat (map re_did es)) (concat (map re_rkey es))
     (concat (map re_rev es)) (concat (map re_payload es)) = Inr es"
proof (induction es)
  case (Cons e es)
  then show ?case by (simp add: wf_replay_copy_column_def row_lengths) (simp add: row_of_def)
qed simp

lemma row_sums:
  assumes "list_all event_ok es"
  shows "sum_list (map (\<lambda>r. unat (rr_collection_len r)) (map row_of es)) = length (concat (map re_collection es))"
    "sum_list (map (\<lambda>r. unat (rr_did_len r)) (map row_of es)) = length (concat (map re_did es))"
    "sum_list (map (\<lambda>r. unat (rr_rkey_len r)) (map row_of es)) = length (concat (map re_rkey es))"
    "sum_list (map (\<lambda>r. unat (rr_rev_len r)) (map row_of es)) = length (concat (map re_rev es))"
    "sum_list (map (\<lambda>r. unat (rr_payload_len r)) (map row_of es)) = length (concat (map re_payload es))"
  using assms by (induction es) (simp_all add: row_lengths)

lemma block_decode_sound:
  assumes "wf_jetstream_replay_block_decode data = Inr es"
  shows "block_ok es \<and> data = encode_block es"
proof -
  define c where "c = unat (wf_replay_u32 data)"
  have len: "4 + c * 34 \<le> length data" "length data \<le> MAX_RESPONSE_BYTES" "c \<le> 2 ^ 18"
    using assms by (auto simp: wf_jetstream_replay_block_decode_def c_def Let_def split: if_splits)
  let ?rows = "map (replay_row_at data c) [0..<c]"
  have fixed: "encode_rows ?rows = take (4 + c * 34) data" using len(1) c_def by (rule encode_rows_at)
  show ?thesis
  proof (cases "c = 0")
    case True
    then have "es = []" "length data = 4"
      using assms by (auto simp: wf_jetstream_replay_block_decode_def c_def [symmetric] split: if_splits)
    then show ?thesis using fixed True len(2) by (simp add: block_ok_def encode_block_def)
  next
    case False
    obtain k1 k2 k3 k4 k5 where tot: "add_totals ?rows (0, 0, 0, 0, 0) = Some (k1, k2, k3, k4, k5)"
      and room: "4 + c * 34 + k1 + k2 + k3 + k4 + k5 = length data"
      and rows: "replay_rows ?rows (take k1 (drop (4 + c * 34) data)) (take k2 (drop (4 + c * 34 + k1) data))
        (take k3 (drop (4 + c * 34 + k1 + k2) data)) (take k4 (drop (4 + c * 34 + k1 + k2 + k3) data))
        (take k5 (drop (4 + c * 34 + k1 + k2 + k3 + k4) data)) = Inr es"
      using assms False len
      by (auto simp: wf_jetstream_replay_block_decode_def c_def [symmetric] Let_def add.assoc
          split: if_splits option.splits)
    note sums = add_totals_Some [OF tot]
    have "map row_of es = ?rows" and blobs: "concat (map re_collection es) = take k1 (drop (4 + c * 34) data)"
      "concat (map re_did es) = take k2 (drop (4 + c * 34 + k1) data)"
      "concat (map re_rkey es) = take k3 (drop (4 + c * 34 + k1 + k2) data)"
      "concat (map re_rev es) = take k4 (drop (4 + c * 34 + k1 + k2 + k3) data)"
      "concat (map re_payload es) = take k5 (drop (4 + c * 34 + k1 + k2 + k3 + k4) data)"
      using replay_rows_sound [OF rows] sums room by simp_all
    then have "encode_block es = take (4 + c * 34 + k1 + k2 + k3 + k4 + k5) data"
      using fixed take_add [of 4 "c * 34" data]
      unfolding encode_block_def blobs take_add by (simp add: drop_drop add.commute add.left_commute)
    then have data: "encode_block es = data" using room by simp
    have "length es = c" using \<open>map row_of es = ?rows\<close> by (metis length_map length_upt minus_nat.diff_0)
    then show ?thesis
      using data len replay_rows_fit [OF rows] sums by (simp add: block_ok_def)
  qed
qed

lemma block_decode_complete:
  assumes "block_ok es"
  shows "wf_jetstream_replay_block_decode (encode_block es) = Inr es"
proof -
  let ?d = "encode_block es" and ?n = "length es"
  have ok: "list_all event_ok es" "?n \<le> 2 ^ 18" "length ?d \<le> MAX_RESPONSE_BYTES"
    using assms by (auto simp: block_ok_def)
  have count: "unat (wf_replay_u32 ?d) = ?n"
    using ok(2) by (simp add: encode_block_def encode_rows_def read_le unat_of_nat)
  have len: "length ?d = 4 + ?n * 34 + length (concat (map re_collection es)) + length (concat (map re_did es)) +
      length (concat (map re_rkey es)) + length (concat (map re_rev es)) + length (concat (map re_payload es))"
    by (simp add: encode_block_def length_encode_rows del: length_concat)
  have rows: "map (replay_row_at ?d ?n) [0..<?n] = map row_of es"
  proof (rule encode_rows_inj)
    show "encode_rows (map (replay_row_at ?d ?n) [0..<?n]) = encode_rows (map row_of es)"
      using encode_rows_at [of ?n ?d] count len
      by (simp add: encode_block_def length_encode_rows del: length_concat)
  qed simp
  have small: "length ?d \<le> SIZE_MAX" using ok(3) by (simp add: SIZE_MAX_def MAX_RESPONSE_BYTES_def)
  have "list_all (\<lambda>r. rr_kind r \<noteq> 0) (map row_of es)"
    using ok(1) by (auto simp: list_all_iff event_ok_def row_of_def)
  then have "add_totals (map row_of es) (0, 0, 0, 0, 0) \<noteq> None"
    using small len row_sums [OF ok(1)] by (intro add_totals_complete) simp_all
  then obtain t where t: "add_totals (map row_of es) (0, 0, 0, 0, 0) = Some t" by blast
  then have tot: "add_totals (map row_of es) (0, 0, 0, 0, 0) =
      Some (length (concat (map re_collection es)), length (concat (map re_did es)), length (concat (map re_rkey es)),
        length (concat (map re_rev es)), length (concat (map re_payload es)))"
    using add_totals_Some [OF t] row_sums [OF ok(1)] by simp
  have "4 \<le> length ?d" "?n \<le> (SIZE_MAX - 4) div 34" using len ok(2) by (auto simp: SIZE_MAX_def)
  then show ?thesis
    using ok count rows tot len replay_rows_complete [OF ok(1)]
    by (simp add: wf_jetstream_replay_block_decode_def Let_def not_less encode_block_def length_encode_rows
        del: length_concat)
qed

section \<open>Segments\<close>

text \<open>What the decoder relies on of zstd, for the frames that a compressor writes.\<close>

locale zstd_laws =
  fixes Z :: zstd and compress :: "bytes \<Rightarrow> bytes"
  assumes content_size: "ZSTD_getFrameContentSize Z (compress m) = Some (length m)"
  and decompress: "ZSTD_decompress Z (compress m) (length m) = Some m"
  and not_empty: "compress m \<noteq> []"

text \<open>Frames that store their content behind one byte.\<close>

definition ref_zstd :: zstd where
  "ref_zstd = \<lparr>ZSTD_getFrameContentSize = (\<lambda>d. case d of [] \<Rightarrow> None | _ # m \<Rightarrow> Some (length m)),
     ZSTD_decompress = (\<lambda>d n. case d of [] \<Rightarrow> None | _ # m \<Rightarrow> if length m \<le> n then Some m else None)\<rparr>"

interpretation ref_zstd: zstd_laws ref_zstd "Cons 0"
  by unfold_locales (simp_all add: ref_zstd_def)

definition frame :: "bytes \<Rightarrow> bytes" where
  "frame b = le64 (of_nat (length b)) @ b"

definition frame_ok :: "(bytes \<Rightarrow> bytes) \<Rightarrow> wf_jetstream_replay_event list \<Rightarrow> bool" where
  "frame_ok compress es \<longleftrightarrow> block_ok es \<and> length (compress (encode_block es)) \<le> MAX_RESPONSE_BYTES - 8"

context zstd_laws
begin

lemma decode_compressed:
  assumes "frame_ok compress es"
  shows "wf_jetstream_replay_block_decode_zstd Z (compress (encode_block es)) = Inr es"
  using assms block_decode_complete [of es]
  by (simp add: wf_jetstream_replay_block_decode_zstd_def frame_ok_def block_ok_def content_size decompress
      not_empty not_less MAX_RESPONSE_BYTES_def)

lemma frame_at:
  assumes "frame_ok compress es"
  shows "wf_jetstream_replay_block_frame (pre @ frame (compress (encode_block es)) @ post) (length pre) =
    Inr (compress (encode_block es), length pre + length (frame (compress (encode_block es))))"
proof -
  let ?b = "compress (encode_block es)"
  have "length ?b < 2 ^ 64" using assms by (simp add: frame_ok_def MAX_RESPONSE_BYTES_def)
  then have "unat (wf_replay_u64 (le64 (of_nat (length ?b)) @ ?b @ post)) = length ?b"
    by (simp add: read_le unat_of_nat)
  then show ?thesis
    using assms not_empty [of "encode_block es"]
    by (simp add: wf_jetstream_replay_block_frame_def frame_def frame_ok_def Let_def)
qed

lemma segment_loop_frames:
  assumes "list_all (frame_ok compress) blocks" "length all + length (concat blocks) \<le> SIZE_MAX"
  shows "segment_loop Z (pre @ concat (map (\<lambda>es. frame (compress (encode_block es))) blocks)) (length pre) all =
    Inr (all @ concat blocks)"
  using assms
proof (induction blocks arbitrary: pre all)
  case Nil
  then show ?case by (simp add: segment_loop.simps)
next
  case (Cons es blocks)
  let ?f = "frame (compress (encode_block es))" and ?rest = "concat (map (\<lambda>es. frame (compress (encode_block es))) blocks)"
  have ok: "frame_ok compress es" using Cons.prems by simp
  have next_frame: "segment_loop Z ((pre @ ?f) @ ?rest) (length (pre @ ?f)) (all @ es) = Inr ((all @ es) @ concat blocks)"
    using Cons.prems by (intro Cons.IH) auto
  have "0 < length ?f" by (simp add: frame_def)
  then show ?case
    using next_frame frame_at [OF ok, of pre ?rest] decode_compressed [OF ok] Cons.prems(2)
    by (subst segment_loop.simps) (simp add: not_less)
qed

end

section \<open>The header\<close>

text \<open>The layout of the 98 bytes that the header uses; the rest of its 256 is reserved.\<close>

definition encode_header :: "wf_jetstream_replay_segment_header \<Rightarrow> bytes" where
  "encode_header h = ascii ''jss0'' @ le64 (sh_checksum h) @ le16 (sh_version h) @ le32 (sh_block_count h) @
     le32 (sh_event_count h) @ le32 (sh_unique_did_count h) @ le64 (sh_min_seq h) @ le64 (sh_max_seq h) @
     le64 (sh_min_witnessed_at h) @ le64 (sh_max_witnessed_at h) @ le64 (sh_footer_offset h) @
     le64 (sh_did_bloom_offset h) @ le64 (sh_block_did_bloom_offset h) @ le64 (sh_collection_index_offset h) @
     le64 (sh_block_index_offset h)"

lemma header_layout:
  assumes "wf_jetstream_replay_segment_header_parse data = Inr header"
  shows "encode_header header = take 98 data"
proof -
  let ?d = "\<lambda>n. drop n data"
  have h: "256 \<le> length data" "take 4 data = ascii ''jss0''"
    "header = \<lparr>sh_version = wf_replay_u16 (?d 12), sh_block_count = wf_replay_u32 (?d 14), sh_event_count = wf_replay_u32 (?d 18),
       sh_unique_did_count = wf_replay_u32 (?d 22), sh_checksum = wf_replay_u64 (?d 4), sh_min_seq = wf_replay_u64 (?d 26),
       sh_max_seq = wf_replay_u64 (?d 34), sh_min_witnessed_at = wf_replay_u64 (?d 42), sh_max_witnessed_at = wf_replay_u64 (?d 50),
       sh_footer_offset = wf_replay_u64 (?d 58), sh_did_bloom_offset = wf_replay_u64 (?d 66),
       sh_block_did_bloom_offset = wf_replay_u64 (?d 74), sh_collection_index_offset = wf_replay_u64 (?d 82),
       sh_block_index_offset = wf_replay_u64 (?d 90)\<rparr>"
    using assms by (auto simp: wf_jetstream_replay_segment_header_parse_def Let_def not_less split: if_splits)
  have cut: "take (k + m) (?d n) = take k (?d n) @ take m (?d (n + k))" for k m n
    using take_pieces [of k m "?d n"] by (simp add: add.commute)
  have "take 98 data = take 4 (?d 0) @ take 8 (?d 4) @ take 2 (?d 12) @ take 4 (?d 14) @ take 4 (?d 18) @ take 4 (?d 22) @
      take 8 (?d 26) @ take 8 (?d 34) @ take 8 (?d 42) @ take 8 (?d 50) @ take 8 (?d 58) @ take 8 (?d 66) @ take 8 (?d 74) @
      take 8 (?d 82) @ take 8 (?d 90)"
    using cut [of 4 94 0] cut [of 8 86 4] cut [of 2 84 12] cut [of 4 80 14] cut [of 4 76 18] cut [of 4 72 22] cut [of 8 64 26]
      cut [of 8 56 34] cut [of 8 48 42] cut [of 8 40 50] cut [of 8 32 58] cut [of 8 24 66] cut [of 8 16 74] cut [of 8 8 82] by simp
  then show ?thesis unfolding encode_header_def h(3) using h(1,2) by (simp add: le_read)
qed

section \<open>Properties\<close>

text \<open>
  C10: The block decoder accepts exactly the columnar encodings of lists of events, and returns the events
  that were encoded: whatever the bytes, a block that decodes is the encoding of the result (so that no
  byte is left over, ignored or read twice, and no column reaches beyond the block), with at most 2^18
  events, no event of kind 0 and all lengths within their columns; and every such list decodes.
\<close>

theorem replay_block_exact:
  "wf_jetstream_replay_block_decode data = Inr es \<longleftrightarrow> block_ok es \<and> data = encode_block es"
  using block_decode_sound block_decode_complete by blast

text \<open>
  C25: A sealed segment decodes to the events of all its blocks in order: a header that announces the
  number of events and the end of the blocks, the framed compressed encodings of lists of events, and
  any footer. The accepted header is the little-endian encoding of its fields, each at its place, and
  reserved bytes.
\<close>

theorem replay_segment_roundtrip:
  assumes "zstd_laws Z compress" "list_all (frame_ok compress) blocks" "length hdr = 256"
    "body = concat (map (\<lambda>es. frame (compress (encode_block es))) blocks)"
    "wf_jetstream_replay_segment_header_parse (hdr @ body @ footer) = Inr header"
    "unat (sh_footer_offset header) = 256 + length body"
    "unat (sh_event_count header) = length (concat blocks)"
  shows "wf_jetstream_replay_segment_decode Z (hdr @ body @ footer) = Inr (concat blocks) \<and>
    hdr = encode_header header @ drop 98 hdr"
proof -
  have "hdr = encode_header header @ drop 98 hdr" using header_layout [OF assms(5)] assms(3) append_take_drop_id [of 98 hdr] by simp
  moreover
  have "length (concat blocks) < 2 ^ 32"
    using assms(7) unsigned_less [of "sh_event_count header", where ?'a = nat] by simp
  then have "segment_loop Z (hdr @ body) 256 [] = Inr (concat blocks)"
    using zstd_laws.segment_loop_frames [OF assms(1,2), of "[]" hdr] assms(3,4) by (simp add: SIZE_MAX_def)
  then have "wf_jetstream_replay_segment_decode Z (hdr @ body @ footer) = Inr (concat blocks)"
    using assms(3,5,6,7) by (simp add: wf_jetstream_replay_segment_decode_def Let_def)
  ultimately show ?thesis by simp
qed

definition example_event :: wf_jetstream_replay_event where
  "example_event = \<lparr>re_seq = 7, re_witnessed_at = 1, re_indexed_at = 2, re_kind = 1, re_collection = [97],
     re_did = [98, 99], re_rkey = [100], re_rev = [], re_payload = [1, 2, 3]\<rparr>"

definition example_header :: bytes where
  "example_header = ascii ''jss0'' @ replicate 8 0 @ le16 1 @ le32 1 @ le32 1 @ le32 1 @ le64 7 @ le64 7 @
     le64 1 @ le64 1 @ le64 310 @ le64 310 @ le64 310 @ le64 310 @ le64 310 @ replicate 158 0"

theorem replay_segment_roundtrip_witness:
  "wf_jetstream_replay_segment_decode ref_zstd
     (example_header @ concat (map (\<lambda>es. frame (0 # encode_block es)) [[example_event]]) @ [9]) =
     Inr (concat [[example_event]])"
proof -
  let ?body = "concat (map (\<lambda>es. frame (0 # encode_block es)) [[example_event]])"
  have block: "length (encode_block [example_event]) = 45"
    by (simp add: encode_block_def length_encode_rows example_event_def)
  have ok: "list_all (frame_ok (Cons 0)) [[example_event]]"
    using block by (simp add: frame_ok_def block_ok_def MAX_RESPONSE_BYTES_def) (simp add: event_ok_def example_event_def)
  have len: "length example_header = 256" "length ?body = 54"
    using block by (simp_all add: example_header_def ascii_def frame_def)
  have "\<exists>h. wf_jetstream_replay_segment_header_parse (example_header @ ?body @ [9]) = Inr h \<and>
      unat (sh_footer_offset h) = 310 \<and> unat (sh_event_count h) = 1"
    using len
    by (simp add: wf_jetstream_replay_segment_header_parse_def Let_def)
      (simp add: example_header_def ascii_def read_le)
  then obtain h where h: "wf_jetstream_replay_segment_header_parse (example_header @ ?body @ [9]) = Inr h"
    "unat (sh_footer_offset h) = 256 + length ?body" "unat (sh_event_count h) = length (concat [[example_event]])"
    using len by auto
  show ?thesis
    using replay_segment_roundtrip [OF ref_zstd.zstd_laws_axioms ok len(1) refl h] by (rule conjunct1)
qed

end
