(* ===== verification/Replay_Plan.thy ===== *)
theory Replay_Plan
  imports Record_Builder
begin

text \<open>
  Planning a Jetstream replay, \<^verbatim>\<open>src/jetstream/replay.c\<close>: the filter of a request is validated, the pages of
  the plan and the list of segments that the server returns are parsed, and a page that does not advance
  is refused. The JSON parser and printer and the request are arguments. Strings are C strings.
\<close>

section \<open>Filters\<close>

record wf_jetstream_replay_filter =
  rf_kinds :: "bytes list"
  rf_dids :: "bytes list"
  rf_collections :: "bytes list"
  rf_after_seq :: u64
  rf_before_seq :: u64
  rf_has_before_seq :: bool

definition WF_JSON_MAX_EXACT_U64 :: u64 where
  "WF_JSON_MAX_EXACT_U64 = 9007199254740991"

definition wf_replay_kind_valid :: "bytes \<Rightarrow> bool" where
  "wf_replay_kind_valid kind \<longleftrightarrow>
     kind \<in> {ascii ''commit'', ascii ''identity'', ascii ''account'', ascii ''sync''}"

definition wf_replay_string_list_valid :: "bytes list \<Rightarrow> bool" where
  "wf_replay_string_list_valid values \<longleftrightarrow> list_all (\<lambda>v. v \<noteq> []) values"

definition wf_jetstream_replay_filter_validate :: "wf_jetstream_replay_filter \<Rightarrow> unit res" where
  "wf_jetstream_replay_filter_validate f =
     (if 4 < length (rf_kinds f) \<or> 10000 < length (rf_dids f) \<or> 100 < length (rf_collections f) \<or>
         WF_JSON_MAX_EXACT_U64 < rf_after_seq f \<or>
         (rf_has_before_seq f \<and> (WF_JSON_MAX_EXACT_U64 < rf_before_seq f \<or> rf_before_seq f < rf_after_seq f)) \<or>
         \<not> wf_replay_string_list_valid (rf_kinds f) \<or> \<not> wf_replay_string_list_valid (rf_dids f) \<or>
         \<not> wf_replay_string_list_valid (rf_collections f)
      then Inl WF_ERR_INVALID_ARG
      else
        let includes_commit = (rf_kinds f = [] \<or> ascii ''commit'' \<in> set (rf_kinds f))
        in if \<not> list_all wf_replay_kind_valid (rf_kinds f) then Inl WF_ERR_INVALID_ARG
           else if rf_collections f \<noteq> [] \<and> \<not> includes_commit then Inl WF_ERR_INVALID_ARG
           else if \<not> list_all (\<lambda>d. take 4 d = ascii ''did:'') (rf_dids f) then Inl WF_ERR_INVALID_ARG
           else Inr ())"

text \<open>The request: the members that are set, the sequence numbers as exact integers.\<close>

definition replay_strings :: "string \<Rightarrow> bytes list \<Rightarrow> (bytes \<times> cJSON) list" where
  "replay_strings name values =
     (if values = [] then [] else [(ascii name, cJSON_Array (map cJSON_String values))])"

definition wf_replay_add_seq :: "string \<Rightarrow> u64 \<Rightarrow> (bytes \<times> cJSON) list" where
  "wf_replay_add_seq name seq = [(ascii name, cJSON_Number (Finite (of_nat (unat seq))))]"

definition wf_jetstream_replay_plan_json :: "(cJSON \<Rightarrow> bytes) \<Rightarrow> wf_jetstream_replay_filter \<Rightarrow> bytes res" where
  "wf_jetstream_replay_plan_json cJSON_Print f =
     (case wf_jetstream_replay_filter_validate f of
        Inl e \<Rightarrow> Inl e
      | Inr _ \<Rightarrow>
          Inr (cJSON_Print (cJSON_Object
            (replay_strings ''kinds'' (rf_kinds f) @ replay_strings ''dids'' (rf_dids f) @
             replay_strings ''collections'' (rf_collections f) @ wf_replay_add_seq ''afterSeq'' (rf_after_seq f) @
             (if rf_has_before_seq f then wf_replay_add_seq ''beforeSeq'' (rf_before_seq f) else [])))))"

section \<open>Members\<close>

definition wf_replay_json_u64 :: "cJSON \<Rightarrow> string \<Rightarrow> u64 option" where
  "wf_replay_json_u64 obj name =
     (case cJSON_GetObjectItemCaseSensitive obj name of
        Some (cJSON_Number (Finite x)) \<Rightarrow>
          (if x < 0 \<or> 9007199254740991 < x \<or> of_int \<lfloor>x\<rfloor> \<noteq> x then None else Some (word_of_int \<lfloor>x\<rfloor>))
      | _ \<Rightarrow> None)"

text \<open>
  The bound \<^verbatim>\<open>(double)INT64_MAX\<close> is 2^63, which is accepted; its conversion to \<^verbatim>\<open>int64_t\<close> is undefined in C
  and wraps here.
\<close>

definition wf_replay_json_i64 :: "cJSON \<Rightarrow> string \<Rightarrow> u64 option" where
  "wf_replay_json_i64 obj name =
     (case cJSON_GetObjectItemCaseSensitive obj name of
        Some (cJSON_Number (Finite x)) \<Rightarrow>
          (if of_int \<lfloor>x\<rfloor> \<noteq> x \<or> x < - (2 ^ 63) \<or> 2 ^ 63 < x then None else Some (word_of_int \<lfloor>x\<rfloor>))
      | _ \<Rightarrow> None)"

definition wf_replay_hex16 :: "bytes \<Rightarrow> bool" where
  "wf_replay_hex16 v \<longleftrightarrow> length v = 16 \<and>
     list_all (\<lambda>c. 48 \<le> c \<and> c \<le> 57 \<or> 97 \<le> c \<and> c \<le> 102 \<or> 65 \<le> c \<and> c \<le> 70) v"

definition replay_string :: "cJSON \<Rightarrow> string \<Rightarrow> bytes option" where
  "replay_string obj name =
     (case cJSON_GetObjectItemCaseSensitive obj name of Some (cJSON_String s) \<Rightarrow> Some s | _ \<Rightarrow> None)"

section \<open>The list of segments\<close>

record wf_jetstream_replay_manifest_segment =
  ms_name :: bytes
  ms_index :: u64
  ms_size_bytes :: u64
  ms_event_count :: u64
  ms_checksum :: bytes
  ms_min_seq :: u64
  ms_max_seq :: u64
  ms_min_witnessed_at :: u64
  ms_max_witnessed_at :: u64

definition manifest_segment :: "cJSON \<Rightarrow> wf_jetstream_replay_manifest_segment option" where
  "manifest_segment item =
     (case replay_string item ''name'' of None \<Rightarrow> None | Some name \<Rightarrow>
      case replay_string item ''checksum'' of None \<Rightarrow> None | Some checksum \<Rightarrow>
      if name = [] \<or> 256 < length name \<or> \<not> wf_replay_hex16 checksum then None else
      case wf_replay_json_u64 item ''index'' of None \<Rightarrow> None | Some idx \<Rightarrow>
      case wf_replay_json_u64 item ''sizeBytes'' of None \<Rightarrow> None | Some size_bytes \<Rightarrow>
      case wf_replay_json_u64 item ''eventCount'' of None \<Rightarrow> None | Some event_count \<Rightarrow>
      case wf_replay_json_u64 item ''minSeq'' of None \<Rightarrow> None | Some min_seq \<Rightarrow>
      case wf_replay_json_u64 item ''maxSeq'' of None \<Rightarrow> None | Some max_seq \<Rightarrow>
      case wf_replay_json_i64 item ''minWitnessedAt'' of None \<Rightarrow> None | Some min_w \<Rightarrow>
      case wf_replay_json_i64 item ''maxWitnessedAt'' of None \<Rightarrow> None | Some max_w \<Rightarrow>
      if max_seq < min_seq \<or> sint max_w < sint min_w then None
      else Some \<lparr>ms_name = name, ms_index = idx, ms_size_bytes = size_bytes, ms_event_count = event_count,
                 ms_checksum = checksum, ms_min_seq = min_seq, ms_max_seq = max_seq,
                 ms_min_witnessed_at = min_w, ms_max_witnessed_at = max_w\<rparr>)"

text \<open>The loop over the segments, with the segment before.\<close>

fun manifest_loop ::
  "wf_jetstream_replay_manifest_segment option \<Rightarrow> cJSON list \<Rightarrow> wf_jetstream_replay_manifest_segment list option" where
  "manifest_loop previous [] = Some []"
| "manifest_loop previous (item # items) =
     (case manifest_segment item of
        None \<Rightarrow> None
      | Some segment \<Rightarrow>
          (if (case previous of
                 None \<Rightarrow> False
               | Some p \<Rightarrow> ms_index segment \<le> ms_index p \<or> ms_min_seq segment \<le> ms_max_seq p)
           then None
           else map_option (Cons segment) (manifest_loop (Some segment) items)))"

definition wf_jetstream_replay_manifest_parse ::
  "(bytes \<Rightarrow> cJSON option) \<Rightarrow> bytes \<Rightarrow> wf_jetstream_replay_manifest_segment list res" where
  "wf_jetstream_replay_manifest_parse cJSON_Parse json =
     (if json = [] then Inl WF_ERR_INVALID_ARG
      else if 16 * 1024 * 1024 < length json then Inl WF_ERR_PARSE
      else case Option.bind (cJSON_Parse json) (\<lambda>doc. cJSON_GetObjectItemCaseSensitive doc ''segments'') of
             Some (cJSON_Array items) \<Rightarrow>
               (if 10000 < length items then Inl WF_ERR_PARSE
                else case manifest_loop None items of None \<Rightarrow> Inl WF_ERR_PARSE | Some ss \<Rightarrow> Inr ss)
           | _ \<Rightarrow> Inl WF_ERR_PARSE)"

section \<open>The plan\<close>

text \<open>
  The mode of a segment with its block ranges; the zero value of the C enum, which a parsed segment never
  has, is left out.
\<close>

datatype wf_jetstream_replay_segment_mode =
  WF_JETSTREAM_REPLAY_SEGMENT_WHOLE | WF_JETSTREAM_REPLAY_SEGMENT_BLOCKS "(u64 \<times> u64) list"

record wf_jetstream_replay_segment =
  rs_name :: bytes
  rs_index :: u64
  rs_checksum :: bytes
  rs_min_seq :: u64
  rs_max_seq :: u64
  rs_mode :: wf_jetstream_replay_segment_mode

record wf_jetstream_replay_stats =
  st_segments_examined :: u64
  st_segments_matched :: u64
  st_blocks_matched :: u64
  st_entries :: u64

record wf_jetstream_replay_plan_page =
  pp_planned_through_seq :: u64
  pp_sealed_tip_seq :: u64
  pp_segments :: "wf_jetstream_replay_segment list"
  pp_stats :: wf_jetstream_replay_stats

definition block_range :: "cJSON \<Rightarrow> (u64 \<times> u64) option" where
  "block_range entry =
     (case (wf_replay_json_u64 entry ''first'', wf_replay_json_u64 entry ''last'') of
        (Some a, Some b) \<Rightarrow> (if b < a then None else Some (a, b))
      | _ \<Rightarrow> None)"

definition wf_replay_parse_blocks :: "cJSON \<Rightarrow> (u64 \<times> u64) list option" where
  "wf_replay_parse_blocks v =
     (case v of
        cJSON_Array entries \<Rightarrow> (if 100000 < length entries then None else those (map block_range entries))
      | _ \<Rightarrow> None)"

definition wf_replay_parse_segment :: "cJSON \<Rightarrow> wf_jetstream_replay_segment option" where
  "wf_replay_parse_segment v =
     (case replay_string v ''name'' of None \<Rightarrow> None | Some name \<Rightarrow>
      case replay_string v ''checksum'' of None \<Rightarrow> None | Some checksum \<Rightarrow>
      case replay_string v ''mode'' of None \<Rightarrow> None | Some mode \<Rightarrow>
      if name = [] \<or> \<not> wf_replay_hex16 checksum then None else
      case wf_replay_json_u64 v ''index'' of None \<Rightarrow> None | Some idx \<Rightarrow>
      case wf_replay_json_u64 v ''minSeq'' of None \<Rightarrow> None | Some min_seq \<Rightarrow>
      case wf_replay_json_u64 v ''maxSeq'' of None \<Rightarrow> None | Some max_seq \<Rightarrow>
      if max_seq < min_seq then None
      else
        let segment = (\<lambda>m. \<lparr>rs_name = name, rs_index = idx, rs_checksum = checksum, rs_min_seq = min_seq,
                            rs_max_seq = max_seq, rs_mode = m\<rparr>)
        in if mode = ascii ''segment'' then Some (segment WF_JETSTREAM_REPLAY_SEGMENT_WHOLE)
           else if mode \<noteq> ascii ''blocks'' then None
           else case Option.bind (cJSON_GetObjectItemCaseSensitive v ''blocks'') wf_replay_parse_blocks of
                  None \<Rightarrow> None
                | Some ranges \<Rightarrow> Some (segment (WF_JETSTREAM_REPLAY_SEGMENT_BLOCKS ranges)))"

definition plan_stats :: "cJSON \<Rightarrow> wf_jetstream_replay_stats option" where
  "plan_stats stats =
     (case wf_replay_json_u64 stats ''segmentsExamined'' of None \<Rightarrow> None | Some a \<Rightarrow>
      case wf_replay_json_u64 stats ''segmentsMatched'' of None \<Rightarrow> None | Some b \<Rightarrow>
      case wf_replay_json_u64 stats ''blocksMatched'' of None \<Rightarrow> None | Some c \<Rightarrow>
      case wf_replay_json_u64 stats ''entries'' of None \<Rightarrow> None | Some d \<Rightarrow>
        Some \<lparr>st_segments_examined = a, st_segments_matched = b, st_blocks_matched = c, st_entries = d\<rparr>)"

definition plan_page :: "cJSON \<Rightarrow> wf_jetstream_replay_plan_page option" where
  "plan_page doc =
     (case wf_replay_json_u64 doc ''plannedThroughSeq'' of None \<Rightarrow> None | Some planned \<Rightarrow>
      case wf_replay_json_u64 doc ''sealedTipSeq'' of None \<Rightarrow> None | Some tip \<Rightarrow>
      if tip < planned then None else
      case (cJSON_GetObjectItemCaseSensitive doc ''segments'', cJSON_GetObjectItemCaseSensitive doc ''stats'') of
        (Some (cJSON_Array segments), Some stats) \<Rightarrow>
          (case plan_stats stats of
             None \<Rightarrow> None
           | Some st \<Rightarrow>
               (if 10000 < length segments then None
                else case those (map wf_replay_parse_segment segments) of
                       None \<Rightarrow> None
                     | Some ss \<Rightarrow>
                         Some \<lparr>pp_planned_through_seq = planned, pp_sealed_tip_seq = tip, pp_segments = ss,
                               pp_stats = st\<rparr>))
      | _ \<Rightarrow> None)"

definition wf_jetstream_replay_plan_parse ::
  "(bytes \<Rightarrow> cJSON option) \<Rightarrow> bytes \<Rightarrow> wf_jetstream_replay_plan_page res" where
  "wf_jetstream_replay_plan_parse cJSON_Parse json =
     (if json = [] then Inl WF_ERR_INVALID_ARG
      else if 16 * 1024 * 1024 < length json then Inl WF_ERR_PARSE
      else case Option.bind (cJSON_Parse json) plan_page of None \<Rightarrow> Inl WF_ERR_PARSE | Some page \<Rightarrow> Inr page)"

text \<open>The request \<^verbatim>\<open>network.bsky.jetstream.planSnapshot\<close> is a function from the body to the response.\<close>

definition wf_jetstream_replay_plan ::
  "(cJSON \<Rightarrow> bytes) \<Rightarrow> (bytes \<Rightarrow> cJSON option) \<Rightarrow> (bytes \<Rightarrow> bytes res) \<Rightarrow> wf_jetstream_replay_filter \<Rightarrow>
     wf_jetstream_replay_plan_page res" where
  "wf_jetstream_replay_plan cJSON_Print cJSON_Parse procedure f =
     (case wf_jetstream_replay_plan_json cJSON_Print f of Inl e \<Rightarrow> Inl e | Inr body \<Rightarrow>
      case procedure body of Inl e \<Rightarrow> Inl e | Inr response \<Rightarrow>
      case wf_jetstream_replay_plan_parse cJSON_Parse response of Inl e \<Rightarrow> Inl e | Inr page \<Rightarrow>
        (if (rf_has_before_seq f \<and> rf_before_seq f < pp_sealed_tip_seq page) \<or>
            (rf_after_seq f < pp_sealed_tip_seq page \<and> pp_planned_through_seq page \<le> rf_after_seq f)
         then Inl WF_ERR_PARSE else Inr page))"

section \<open>Downloads\<close>

text \<open>
  A query of the XRPC client is a function from the name of the method and its parameters to the
  response.
\<close>

type_synonym 'r xrpc_query = "string \<Rightarrow> (string \<times> bytes) list \<Rightarrow> 'r res"

definition wf_jetstream_replay_get_segment :: "'r xrpc_query \<Rightarrow> bytes \<Rightarrow> 'r res" where
  "wf_jetstream_replay_get_segment query name =
     (if name = [] \<or> 256 < length name then Inl WF_ERR_INVALID_ARG
      else query ''network.bsky.jetstream.getSegment'' [(''name'', name)])"

definition wf_jetstream_replay_list_segments :: "'r xrpc_query \<Rightarrow> 'r res" where
  "wf_jetstream_replay_list_segments query = query ''network.bsky.jetstream.listSegments'' []"

definition wf_jetstream_replay_get_block :: "'r xrpc_query \<Rightarrow> bytes \<Rightarrow> u64 \<Rightarrow> 'r res" where
  "wf_jetstream_replay_get_block query segment block_index =
     (if segment = [] \<or> 256 < length segment then Inl WF_ERR_INVALID_ARG
      else
        let idx = print_nat (unat block_index)
        in if 32 \<le> length idx then Inl WF_ERR_INVALID_ARG
           else query ''network.bsky.jetstream.getBlock'' [(''segment'', segment), (''blockIndex'', idx)])"

section \<open>Lemmas\<close>

definition segment_ok :: "wf_jetstream_replay_manifest_segment \<Rightarrow> bool" where
  "segment_ok s \<longleftrightarrow> ms_name s \<noteq> [] \<and> length (ms_name s) \<le> 256 \<and> wf_replay_hex16 (ms_checksum s) \<and>
     ms_min_seq s \<le> ms_max_seq s \<and> ms_max_seq s \<le> WF_JSON_MAX_EXACT_U64 \<and>
     sint (ms_min_witnessed_at s) \<le> sint (ms_max_witnessed_at s)"

definition segment_before ::
  "wf_jetstream_replay_manifest_segment \<Rightarrow> wf_jetstream_replay_manifest_segment \<Rightarrow> bool" where
  "segment_before a b \<longleftrightarrow> ms_index a < ms_index b \<and> ms_max_seq a < ms_min_seq b"

lemma json_u64_exact: "wf_replay_json_u64 obj name = Some v \<Longrightarrow> v \<le> WF_JSON_MAX_EXACT_U64"
proof -
  assume "wf_replay_json_u64 obj name = Some v"
  then obtain x :: rat where x: "0 \<le> x" "x \<le> 9007199254740991" "v = word_of_int \<lfloor>x\<rfloor>"
    by (auto simp: wf_replay_json_u64_def not_less split: option.splits cJSON.splits c_double.splits if_splits)
  then have "0 \<le> \<lfloor>x\<rfloor>" "\<lfloor>x\<rfloor> \<le> 9007199254740991" by (simp_all add: floor_le_iff)
  then have "uint v \<le> 9007199254740991" using x(3) by (simp add: uint_word_of_int)
  then show ?thesis by (simp add: WF_JSON_MAX_EXACT_U64_def word_le_def)
qed

lemma manifest_segment_ok: "manifest_segment item = Some s \<Longrightarrow> segment_ok s"
  by (auto simp: manifest_segment_def segment_ok_def not_less dest: json_u64_exact
      split: option.splits if_splits)

lemma segment_before_trans:
  assumes "segment_before a b" "segment_before b c" "segment_ok b"
  shows "segment_before a c"
  using assms unfolding segment_before_def segment_ok_def by (meson le_less_trans less_trans)

lemma manifest_loop_sorted:
  "manifest_loop previous items = Some ss \<Longrightarrow>
     list_all segment_ok ss \<and> sorted_wrt segment_before ss \<and>
     (case previous of None \<Rightarrow> True | Some p \<Rightarrow> list_all (segment_before p) ss)"
proof (induction items arbitrary: previous ss)
  case Nil
  then show ?case by (simp split: option.split)
next
  case (Cons item items)
  then obtain s ss' where s: "manifest_segment item = Some s" "ss = s # ss'"
    and rest: "manifest_loop (Some s) items = Some ss'"
    and prev: "previous = Some p \<Longrightarrow> segment_before p s" for p
    by (auto simp: segment_before_def not_le split: option.splits if_splits)
  have ok: "segment_ok s" using manifest_segment_ok s(1) .
  have IH: "list_all segment_ok ss'" "sorted_wrt segment_before ss'" "list_all (segment_before s) ss'"
    using Cons.IH [OF rest] by simp_all
  have "list_all (segment_before p) ss'" if "previous = Some p" for p
    using IH(3) segment_before_trans [OF prev [OF that] _ ok] by (auto simp: list_all_iff)
  then show ?case
    using s(2) ok IH prev by (auto simp: list_all_iff split: option.split)
qed

lemma plan_page_ordered: "plan_page doc = Some page \<Longrightarrow> pp_planned_through_seq page \<le> pp_sealed_tip_seq page"
  by (auto simp: plan_page_def not_less split: option.splits cJSON.splits if_splits)

text \<open>A page that is accepted either finds nothing after the cursor or moves it forward.\<close>

lemma plan_advances:
  assumes "wf_jetstream_replay_plan cJSON_Print cJSON_Parse procedure f = Inr page"
  shows "pp_planned_through_seq page \<le> pp_sealed_tip_seq page"
    "pp_sealed_tip_seq page \<le> rf_after_seq f \<or> rf_after_seq f < pp_planned_through_seq page"
    "rf_has_before_seq f \<Longrightarrow> pp_sealed_tip_seq page \<le> rf_before_seq f"
proof -
  obtain response where page: "wf_jetstream_replay_plan_parse cJSON_Parse response = Inr page"
    and checks: "\<not> (rf_has_before_seq f \<and> rf_before_seq f < pp_sealed_tip_seq page)"
      "\<not> (rf_after_seq f < pp_sealed_tip_seq page \<and> pp_planned_through_seq page \<le> rf_after_seq f)"
    using assms by (auto simp: wf_jetstream_replay_plan_def split: sum.splits if_splits)
  show "pp_planned_through_seq page \<le> pp_sealed_tip_seq page"
    using page plan_page_ordered
    by (auto simp: wf_jetstream_replay_plan_parse_def Option.bind_eq_Some_conv split: if_splits option.splits)
  show "pp_sealed_tip_seq page \<le> rf_after_seq f \<or> rf_after_seq f < pp_planned_through_seq page"
    "rf_has_before_seq f \<Longrightarrow> pp_sealed_tip_seq page \<le> rf_before_seq f"
    using checks by (auto simp: not_less not_le)
qed

section \<open>Properties\<close>

text \<open>
  C26: The list of segments that is accepted has at most 10000 segments in strictly ascending order of
  their index, whose ranges of sequence numbers do not overlap: each ends before every later one
  begins, so that replaying them in order delivers every sequence number at most once and in order.
  Each has a name of at most 256 bytes, a checksum of 16 hexadecimal digits and well-formed ranges
  within the integers that JSON holds exactly.
\<close>

theorem replay_manifest_disjoint:
  assumes "wf_jetstream_replay_manifest_parse cJSON_Parse json = Inr ss"
  shows "length ss \<le> 10000 \<and> sorted_wrt segment_before ss \<and> list_all segment_ok ss"
proof -
  obtain items where items: "manifest_loop None items = Some ss" "length items \<le> 10000"
    using assms
    by (auto simp: wf_jetstream_replay_manifest_parse_def not_less split: if_splits option.splits cJSON.splits)
  have "length ss = length items" if "manifest_loop p items = Some ss" for p items ss
    using that by (induction items arbitrary: p ss) (auto split: option.splits if_splits)
  then show ?thesis using items manifest_loop_sorted [OF items(1)] by auto
qed

definition example_segment :: "int \<Rightarrow> int \<Rightarrow> int \<Rightarrow> cJSON" where
  "example_segment i a b = cJSON_Object
     [(ascii ''name'', cJSON_String (ascii ''s'')), (ascii ''checksum'', cJSON_String (ascii ''0123456789abcdef'')),
      (ascii ''index'', cJSON_Number (Finite (of_int i))), (ascii ''sizeBytes'', cJSON_Number (Finite 1)),
      (ascii ''eventCount'', cJSON_Number (Finite 1)), (ascii ''minSeq'', cJSON_Number (Finite (of_int a))),
      (ascii ''maxSeq'', cJSON_Number (Finite (of_int b))), (ascii ''minWitnessedAt'', cJSON_Number (Finite 0)),
      (ascii ''maxWitnessedAt'', cJSON_Number (Finite 0))]"

definition example_segments :: cJSON where
  "example_segments = cJSON_Object
     [(ascii ''segments'', cJSON_Array [example_segment 0 1 5, example_segment 1 6 9])]"

theorem replay_manifest_disjoint_witness:
  "\<exists>a b. wf_jetstream_replay_manifest_parse (\<lambda>_. Some example_segments) [0] = Inr [a, b] \<and> segment_before a b"
proof -
  have "\<exists>a b. wf_jetstream_replay_manifest_parse (\<lambda>_. Some example_segments) [0] = Inr [a, b]"
    by (simp add: wf_jetstream_replay_manifest_parse_def example_segments_def example_segment_def manifest_segment_def
        replay_string_def wf_replay_json_u64_def wf_replay_json_i64_def wf_replay_hex16_def ascii_def)
  then obtain a b where "wf_jetstream_replay_manifest_parse (\<lambda>_. Some example_segments) [0] = Inr [a, b]" by blast
  then show ?thesis using replay_manifest_disjoint [of "\<lambda>_. Some example_segments" "[0]" "[a, b]"] by auto
qed

end
